(* ===== verification/Prelude.thy ===== *)
theory Prelude
  imports Main "HOL-Library.Word" "HOL-Library.Sublist"
begin

text \<open>
  The prelude of the development: what every component of the full-text addon shares.
  It holds the result type of the Rust code with the meaning of the question mark operator
  (\<open>and_then\<close>), machine arithmetic on \<open>usize\<close> (saturating and checked), little-endian
  integers, UTF-8 validation as \<open>String::from_utf8\<close> performs it, the IEEE predicates the code
  uses on \<open>f32\<close> and \<open>f64\<close> bit patterns, and decimal printing for error messages.
  A Rust \<open>String\<close> is a \<open>string\<close> whose characters are its UTF-8 bytes, so \<open>length\<close> is the
  \<open>len()\<close> of the source. The supported targets are 64-bit, so \<open>usize\<close> is a natural number
  bounded by \<open>usize_max\<close>.
\<close>

section \<open>Results\<close>

datatype ('a, 'e) result = Ok 'a | Err 'e

definition and_then :: "('a, 'e) result \<Rightarrow> ('a \<Rightarrow> ('b, 'e) result) \<Rightarrow> ('b, 'e) result" where
  "and_then m f = (case m of Ok x \<Rightarrow> f x | Err e \<Rightarrow> Err e)"

definition is_ok :: "('a, 'e) result \<Rightarrow> bool" where
  "is_ok r = (case r of Ok _ \<Rightarrow> True | Err _ \<Rightarrow> False)"

definition ok_or :: "'e \<Rightarrow> 'a option \<Rightarrow> ('a, 'e) result" where
  "ok_or e v = (case v of Some x \<Rightarrow> Ok x | None \<Rightarrow> Err e)"

named_theorems result_simps "rules that take a successful result apart"

lemma and_then_simps [simp]:
  "and_then (Ok x) f = f x"
  "and_then (Err e) f = Err e"
  by (simp_all add: and_then_def)

lemma is_ok_simps [simp]:
  "is_ok (Ok x)"
  "\<not> is_ok (Err e)"
  by (simp_all add: is_ok_def)

lemma is_ok_iff: "is_ok r \<longleftrightarrow> (\<exists>x. r = Ok x)"
  by (cases r) simp_all

lemma and_then_cong [fundef_cong]:
  "m = m' \<Longrightarrow> (\<And>x. m' = Ok x \<Longrightarrow> f x = g x) \<Longrightarrow> and_then m f = and_then m' g"
  by (cases m') simp_all

lemma and_then_Ok_iff [result_simps]:
  "and_then m f = Ok y \<longleftrightarrow> (\<exists>x. m = Ok x \<and> f x = Ok y)"
  by (cases m) simp_all

lemma and_then_unit_Ok_iff [result_simps]:
  "and_then m (\<lambda>_. r) = Ok y \<longleftrightarrow> is_ok m \<and> r = Ok y"
  by (cases m) simp_all

lemma and_then_Err_iff:
  "and_then m f = Err e \<longleftrightarrow> m = Err e \<or> (\<exists>x. m = Ok x \<and> f x = Err e)"
  by (cases m) simp_all

lemma and_then_assoc: "and_then (and_then m f) g = and_then m (\<lambda>x. and_then (f x) g)"
  by (cases m) simp_all

lemma guard_Ok_iff [result_simps]:
  "(if b then Err e else r) = Ok y \<longleftrightarrow> \<not> b \<and> r = Ok y"
  by simp

lemma is_ok_guard [result_simps]: "is_ok (if b then Err e else r) \<longleftrightarrow> \<not> b \<and> is_ok r"
  by simp

lemma is_ok_and_then [result_simps]:
  "is_ok (and_then m f) \<longleftrightarrow> (\<exists>x. m = Ok x \<and> is_ok (f x))"
  by (cases m) simp_all

lemma unit_Ok_iff [result_simps]: "(r :: (unit, 'e) result) = Ok u \<longleftrightarrow> is_ok r"
  by (cases r) simp_all

lemma ok_or_Ok_iff [result_simps]: "ok_or e v = Ok x \<longleftrightarrow> v = Some x"
  by (auto simp: ok_or_def split: option.splits)

section \<open>Machine arithmetic\<close>

type_synonym u8 = "8 word"
type_synonym u16 = "16 word"
type_synonym u32 = "32 word"
type_synonym u64 = "64 word"
type_synonym f32 = "32 word"
type_synonym f64 = "64 word"

definition usize_max :: nat where
  "usize_max = 18446744073709551615"

definition saturating_add :: "nat \<Rightarrow> nat \<Rightarrow> nat" where
  "saturating_add a b = min (a + b) usize_max"

definition saturating_mul :: "nat \<Rightarrow> nat \<Rightarrow> nat" where
  "saturating_mul a b = min (a * b) usize_max"

definition checked_add :: "nat \<Rightarrow> nat \<Rightarrow> nat option" where
  "checked_add a b = (if a + b \<le> usize_max then Some (a + b) else None)"

definition checked_mul :: "nat \<Rightarrow> nat \<Rightarrow> nat option" where
  "checked_mul a b = (if a * b \<le> usize_max then Some (a * b) else None)"

definition checked_sub :: "nat \<Rightarrow> nat \<Rightarrow> nat option" where
  "checked_sub a b = (if b \<le> a then Some (a - b) else None)"

lemma checked_add_Some_iff [simp]:
  "checked_add a b = Some c \<longleftrightarrow> c = a + b \<and> c \<le> usize_max"
  by (auto simp: checked_add_def)

lemma checked_sub_Some_iff [simp]:
  "checked_sub a b = Some c \<longleftrightarrow> b \<le> a \<and> c = a - b"
  by (auto simp: checked_sub_def)

lemma checked_mul_Some_iff [simp]:
  "checked_mul a b = Some c \<longleftrightarrow> c = a * b \<and> c \<le> usize_max"
  by (auto simp: checked_mul_def)

lemma saturating_add_le_iff:
  "k < usize_max \<Longrightarrow> saturating_add a b \<le> k \<longleftrightarrow> a + b \<le> k"
  by (auto simp: saturating_add_def)

lemma saturating_add_eq: "a + b \<le> usize_max \<Longrightarrow> saturating_add a b = a + b"
  by (simp add: saturating_add_def)

section \<open>Bytes, characters and little-endian integers\<close>

definition byte_of_char :: "char \<Rightarrow> u8" where
  "byte_of_char c = word_of_nat (of_char c)"

definition char_of_byte :: "u8 \<Rightarrow> char" where
  "char_of_byte b = char_of (unat b)"

definition str_bytes :: "string \<Rightarrow> u8 list" where
  "str_bytes s = map byte_of_char s"

definition bytes_str :: "u8 list \<Rightarrow> string" where
  "bytes_str bs = map char_of_byte bs"

fun le_nat :: "u8 list \<Rightarrow> nat" where
  "le_nat [] = 0"
| "le_nat (b # bs) = unat b + 256 * le_nat bs"

fun to_le :: "nat \<Rightarrow> nat \<Rightarrow> u8 list" where
  "to_le 0 n = []"
| "to_le (Suc k) n = word_of_nat (n mod 256) # to_le k (n div 256)"

lemma char_byte_char [simp]: "char_of_byte (byte_of_char c) = c"
proof -
  have "unat (word_of_nat (of_char c) :: u8) = (of_char c :: nat)"
    by (simp add: unat_of_nat of_char_mod_256)
  then show ?thesis by (simp add: char_of_byte_def byte_of_char_def)
qed

lemma byte_char_byte [simp]: "byte_of_char (char_of_byte b) = b"
proof -
  have "unat b < 256" using unsigned_less [of b, where 'a = nat] by simp
  then show ?thesis by (simp add: char_of_byte_def byte_of_char_def)
qed

lemma bytes_str_inverse [simp]: "bytes_str (str_bytes s) = s"
  by (simp add: bytes_str_def str_bytes_def comp_def)

lemma str_bytes_inverse [simp]: "str_bytes (bytes_str bs) = bs"
  by (simp add: bytes_str_def str_bytes_def comp_def)

lemma length_str_bytes [simp]: "length (str_bytes s) = length s"
  by (simp add: str_bytes_def)

lemma length_bytes_str [simp]: "length (bytes_str bs) = length bs"
  by (simp add: bytes_str_def)

lemma bytes_str_eq_iff: "bytes_str bs = s \<longleftrightarrow> bs = str_bytes s"
  by auto

lemma str_bytes_append [simp]: "str_bytes (s @ t) = str_bytes s @ str_bytes t"
  by (simp add: str_bytes_def)

lemma length_to_le [simp]: "length (to_le k n) = k"
  by (induction k arbitrary: n) simp_all

lemma unat_byte_bound: "unat (b :: u8) < 256"
  using unsigned_less [of b, where 'a = nat] by simp

lemma le_nat_bound: "le_nat bs < 256 ^ length bs"
proof (induction bs)
  case (Cons b bs)
  then show ?case using unat_byte_bound [of b] by simp
qed simp

lemma le_nat_to_le: "le_nat (to_le k n) = n mod 256 ^ k"
proof (induction k arbitrary: n)
  case (Suc k)
  have "unat (word_of_nat (n mod 256) :: u8) = n mod 256"
    by (simp add: unat_of_nat)
  then show ?case by (simp add: Suc mod_mult2_eq)
qed simp

lemma to_le_le_nat [simp]: "to_le (length bs) (le_nat bs) = bs"
proof (induction bs)
  case (Cons b bs)
  then show ?case using unat_byte_bound [of b] by simp
qed simp

section \<open>UTF-8\<close>

text \<open>
  The well-formed byte sequences of the Unicode standard (table 3-7), which is what
  \<open>String::from_utf8\<close> and \<open>std::str::from_utf8\<close> accept.
\<close>

definition continuation_byte :: "u8 \<Rightarrow> bool" where
  "continuation_byte b \<longleftrightarrow> 128 \<le> unat b \<and> unat b \<le> 191"

definition second_byte_ok :: "u8 \<Rightarrow> u8 \<Rightarrow> bool" where
  "second_byte_ok b1 b2 \<longleftrightarrow>
     (if unat b1 = 224 then 160 \<le> unat b2 \<and> unat b2 \<le> 191
      else if unat b1 = 237 then 128 \<le> unat b2 \<and> unat b2 \<le> 159
      else if unat b1 = 240 then 144 \<le> unat b2 \<and> unat b2 \<le> 191
      else if unat b1 = 244 then 128 \<le> unat b2 \<and> unat b2 \<le> 143
      else continuation_byte b2)"

fun valid_utf8 :: "u8 list \<Rightarrow> bool" where
  "valid_utf8 [] = True"
| "valid_utf8 (b1 # r1) =
     (if unat b1 \<le> 127 then valid_utf8 r1
      else (case r1 of
        [] \<Rightarrow> False
      | b2 # r2 \<Rightarrow>
          (if 194 \<le> unat b1 \<and> unat b1 \<le> 223 then continuation_byte b2 \<and> valid_utf8 r2
           else (case r2 of
             [] \<Rightarrow> False
           | b3 # r3 \<Rightarrow>
               (if 224 \<le> unat b1 \<and> unat b1 \<le> 239
                then second_byte_ok b1 b2 \<and> continuation_byte b3 \<and> valid_utf8 r3
                else (case r3 of
                  [] \<Rightarrow> False
                | b4 # r4 \<Rightarrow>
                    240 \<le> unat b1 \<and> unat b1 \<le> 244 \<and> second_byte_ok b1 b2 \<and>
                    continuation_byte b3 \<and> continuation_byte b4 \<and> valid_utf8 r4))))))"

definition utf8_string :: "string \<Rightarrow> bool" where
  "utf8_string s \<longleftrightarrow> valid_utf8 (str_bytes s)"

definition from_utf8 :: "u8 list \<Rightarrow> string option" where
  "from_utf8 bs = (if valid_utf8 bs then Some (bytes_str bs) else None)"

lemma from_utf8_Some_iff [simp]:
  "from_utf8 bs = Some s \<longleftrightarrow> utf8_string s \<and> bs = str_bytes s"
  by (auto simp: from_utf8_def utf8_string_def)

lemma utf8_string_ascii: "\<forall>c \<in> set s. unat (byte_of_char c) \<le> 127 \<Longrightarrow> utf8_string s"
  unfolding utf8_string_def by (induction s) (simp_all add: str_bytes_def)

section \<open>Floating point bit patterns\<close>

text \<open>
  \<open>f32\<close> and \<open>f64\<close> values are their bit patterns. Comparison follows IEEE 754: a NaN compares
  false with everything, the two zeros are equal, and otherwise the sign and magnitude decide.
\<close>

definition f32_magnitude :: "f32 \<Rightarrow> nat" where
  "f32_magnitude x = unat x mod 2147483648"

definition f32_sign_negative :: "f32 \<Rightarrow> bool" where
  "f32_sign_negative x \<longleftrightarrow> 2147483648 \<le> unat x"

definition f32_is_finite :: "f32 \<Rightarrow> bool" where
  "f32_is_finite x \<longleftrightarrow> f32_magnitude x < 2139095040"

definition f32_is_nan :: "f32 \<Rightarrow> bool" where
  "f32_is_nan x \<longleftrightarrow> 2139095040 < f32_magnitude x"

definition f32_key :: "f32 \<Rightarrow> int" where
  "f32_key x = (if f32_sign_negative x then - int (f32_magnitude x) else int (f32_magnitude x))"

definition f32_gt :: "f32 \<Rightarrow> f32 \<Rightarrow> bool" where
  "f32_gt x y \<longleftrightarrow> \<not> f32_is_nan x \<and> \<not> f32_is_nan y \<and> f32_key y < f32_key x"

definition f32_le :: "f32 \<Rightarrow> f32 \<Rightarrow> bool" where
  "f32_le x y \<longleftrightarrow> \<not> f32_is_nan x \<and> \<not> f32_is_nan y \<and> f32_key x \<le> f32_key y"

definition f32_zero :: f32 where
  "f32_zero = 0"

definition f32_hundred :: f32 where
  "f32_hundred = 1120403456"

definition f64_magnitude :: "f64 \<Rightarrow> nat" where
  "f64_magnitude x = unat x mod 9223372036854775808"

definition f64_sign_negative :: "f64 \<Rightarrow> bool" where
  "f64_sign_negative x \<longleftrightarrow> 9223372036854775808 \<le> unat x"

definition f64_is_finite :: "f64 \<Rightarrow> bool" where
  "f64_is_finite x \<longleftrightarrow> f64_magnitude x < 9218868437227405312"

definition f64_is_nan :: "f64 \<Rightarrow> bool" where
  "f64_is_nan x \<longleftrightarrow> 9218868437227405312 < f64_magnitude x"

definition f64_key :: "f64 \<Rightarrow> int" where
  "f64_key x = (if f64_sign_negative x then - int (f64_magnitude x) else int (f64_magnitude x))"

definition f64_lt :: "f64 \<Rightarrow> f64 \<Rightarrow> bool" where
  "f64_lt x y \<longleftrightarrow> \<not> f64_is_nan x \<and> \<not> f64_is_nan y \<and> f64_key x < f64_key y"

definition f64_le :: "f64 \<Rightarrow> f64 \<Rightarrow> bool" where
  "f64_le x y \<longleftrightarrow> \<not> f64_is_nan x \<and> \<not> f64_is_nan y \<and> f64_key x \<le> f64_key y"

section \<open>Decimal printing\<close>

fun nat_digits :: "nat \<Rightarrow> string" where
  "nat_digits n =
     (if n < 10 then [char_of (48 + n)]
      else nat_digits (n div 10) @ [char_of (48 + n mod 10)])"

declare nat_digits.simps [simp del]

end
