(* ===== verification/Errors.thy ===== *)
theory Errors
  imports Prelude
begin

text \<open>
  The error values of the addon (\<open>error.rs\<close>) and the panic boundary of a native handle
  (\<open>boundary.rs\<close>). An error is a code and a message; every fallible operation of the model
  returns a \<open>res\<close>. The boundary turns a panic of the wrapped operation into
  \<open>E_NATIVE_PANIC\<close>, poisons the handle, and refuses every later operation, including the
  ones that were already running when the panic happened.
\<close>

section \<open>Fulltext errors\<close>

record fulltext_error =
  err_code :: string
  err_message :: string

type_synonym 'a res = "('a, fulltext_error) result"

definition fulltext_error_new :: "string \<Rightarrow> string \<Rightarrow> fulltext_error" where
  "fulltext_error_new code message = \<lparr>err_code = code, err_message = message\<rparr>"

definition invalid :: "string \<Rightarrow> fulltext_error" where
  "invalid message = fulltext_error_new ''E_INVALID_ARGUMENT'' message"

definition native :: "string \<Rightarrow> fulltext_error" where
  "native error = fulltext_error_new ''E_NATIVE_FAILURE'' error"

text \<open>The variants of the engine's error type that \<open>index_error\<close> tells apart.\<close>

datatype tantivy_error =
    LockBusy
  | OpenDirectoryError string
  | OpenReadError string
  | OpenWriteError string
  | IoError string
  | OtherTantivyError string

fun tantivy_error_text :: "tantivy_error \<Rightarrow> string" where
  "tantivy_error_text LockBusy = ''''"
| "tantivy_error_text (OpenDirectoryError m) = m"
| "tantivy_error_text (OpenReadError m) = m"
| "tantivy_error_text (OpenWriteError m) = m"
| "tantivy_error_text (IoError m) = m"
| "tantivy_error_text (OtherTantivyError m) = m"

definition index_error :: "tantivy_error \<Rightarrow> fulltext_error" where
  "index_error error = (case error of
     LockBusy \<Rightarrow>
       fulltext_error_new ''E_LOCK_BUSY'' ''another writer owns the Tantivy index lock''
   | OpenDirectoryError _ \<Rightarrow> fulltext_error_new ''E_STORAGE'' (tantivy_error_text error)
   | OpenReadError _ \<Rightarrow> fulltext_error_new ''E_STORAGE'' (tantivy_error_text error)
   | OpenWriteError _ \<Rightarrow> fulltext_error_new ''E_STORAGE'' (tantivy_error_text error)
   | IoError _ \<Rightarrow> fulltext_error_new ''E_STORAGE'' (tantivy_error_text error)
   | OtherTantivyError _ \<Rightarrow> native (tantivy_error_text error))"

definition display_error :: "fulltext_error \<Rightarrow> string" where
  "display_error e = err_code e @ '': '' @ err_message e"

definition ERROR_CODES :: "string list" where
  "ERROR_CODES = [
     ''E_CLOSED'', ''E_CURSOR_EXPIRED'', ''E_CLOSE_FAILED'', ''E_DIRTY_CLOSE'',
     ''E_CHECKPOINT_REQUIRED'', ''E_DUPLICATE_OPEN'', ''E_IDENTITY_MISMATCH'',
     ''E_INCOMPLETE_CREATE'', ''E_INDEX_CORRUPT'', ''E_INDEX_FORMAT_INCOMPATIBLE'',
     ''E_INDEX_NOT_READY'', ''E_BATCH_ACTIVE'', ''E_BATCH_INCOMPLETE'', ''E_BATCH_TOO_LARGE'',
     ''E_INVALID_ARGUMENT'', ''E_LOCK_BUSY'', ''E_NATIVE_ABI_MISMATCH'',
     ''E_NATIVE_ADDON_NOT_FOUND'', ''E_NATIVE_LOAD_FAILED'', ''E_NATIVE_CAPABILITY_MISMATCH'',
     ''E_NATIVE_FAILURE'', ''E_NATIVE_PANIC'', ''E_POISONED'', ''E_PREFIX_TOO_BROAD'',
     ''E_QUEUE_FULL'', ''E_QUIESCENCE_FAILED'', ''E_READ_ONLY'', ''E_RELOAD_FAILED'',
     ''E_RESOURCE_LIMIT'', ''E_RESULT_TOO_LARGE'', ''E_SCHEMA_MISMATCH'', ''E_STORAGE'',
     ''E_TIMEOUT'']"

lemma err_code_simps [simp]:
  "err_code (fulltext_error_new c m) = c"
  "err_code (invalid m) = ''E_INVALID_ARGUMENT''"
  "err_code (native m) = ''E_NATIVE_FAILURE''"
  by (simp_all add: fulltext_error_new_def invalid_def native_def)

section \<open>The panic boundary\<close>

text \<open>
  \<open>PoisonState::run\<close> reads the flag, runs the operation under \<open>catch_unwind\<close> and reads the flag
  again. Other threads run between the two reads, so one call is two atomic steps: \<open>run_begin\<close>
  decides whether the operation is entered, \<open>run_end\<close> settles what it produced.
\<close>

datatype 'a unwind = Returned 'a | Panicked

record poison_state =
  poisoned :: bool

definition terminal_error :: fulltext_error where
  "terminal_error = fulltext_error_new ''E_POISONED'' ''the native handle is in a terminal state''"

definition panic_error :: fulltext_error where
  "panic_error = fulltext_error_new ''E_NATIVE_PANIC'' ''native operation panicked''"

definition run_begin :: "poison_state \<Rightarrow> unit res" where
  "run_begin s = (if poisoned s then Err terminal_error else Ok ())"

definition run_end :: "poison_state \<Rightarrow> 'a unwind \<Rightarrow> 'a res \<times> poison_state" where
  "run_end s outcome = (case outcome of
     Returned v \<Rightarrow> (if poisoned s then (Err terminal_error, s) else (Ok v, s))
   | Panicked \<Rightarrow> (Err panic_error, s\<lparr>poisoned := True\<rparr>))"

definition run_stateless :: "'a unwind \<Rightarrow> 'a res" where
  "run_stateless outcome = (case outcome of Returned v \<Rightarrow> Ok v | Panicked \<Rightarrow> Err panic_error)"

text \<open>
  Any number of calls on one handle, interleaved: a call that was admitted and has not settled
  is pending; each settled call appends its result to the log, newest first.
\<close>

record 'a handle =
  gate :: poison_state
  pending :: nat
  settled :: "'a res list"

inductive handle_step :: "'a handle \<Rightarrow> 'a handle \<Rightarrow> bool" where
  enter: "run_begin (gate h) = Ok () \<Longrightarrow>
     handle_step h (h\<lparr>pending := Suc (pending h)\<rparr>)"
| refuse: "run_begin (gate h) = Err e \<Longrightarrow>
     handle_step h (h\<lparr>settled := Err e # settled h\<rparr>)"
| settle: "pending h = Suc n \<Longrightarrow> run_end (gate h) outcome = (r, g) \<Longrightarrow>
     handle_step h (h\<lparr>gate := g, pending := n, settled := r # settled h\<rparr>)"

inductive_cases handle_step_cases: "handle_step h h'"

text \<open>
  The invariant: the flag is set exactly when some call has reported the panic, and every
  result logged after the first panic is an error.
\<close>

fun poison_log :: "'a res list \<Rightarrow> bool" where
  "poison_log [] = False"
| "poison_log (r # rs) = (poison_log rs \<or> r = Err panic_error)"

fun no_ok_after_panic :: "'a res list \<Rightarrow> bool" where
  "no_ok_after_panic [] = True"
| "no_ok_after_panic (r # rs) = (no_ok_after_panic rs \<and> (poison_log rs \<longrightarrow> \<not> is_ok r))"

definition handle_inv :: "'a handle \<Rightarrow> bool" where
  "handle_inv h \<longleftrightarrow>
     (poisoned (gate h) \<longleftrightarrow> poison_log (settled h)) \<and> no_ok_after_panic (settled h)"

definition handle_init :: "'a handle" where
  "handle_init = \<lparr>gate = \<lparr>poisoned = False\<rparr>, pending = 0, settled = []\<rparr>"

lemma terminal_not_panic [simp]: "terminal_error \<noteq> panic_error"
  by (simp add: terminal_error_def panic_error_def fulltext_error_new_def)

lemma handle_inv_init: "handle_inv handle_init"
  by (simp add: handle_inv_def handle_init_def)

lemma handle_step_inv: "handle_step h h' \<Longrightarrow> handle_inv h \<Longrightarrow> handle_inv h'"
  by (erule handle_step_cases)
     (auto simp: handle_inv_def run_begin_def run_end_def split: if_splits unwind.splits)

lemma handle_steps_inv: "handle_step\<^sup>*\<^sup>* h h' \<Longrightarrow> handle_inv h \<Longrightarrow> handle_inv h'"
  by (induction rule: rtranclp_induct) (auto intro: handle_step_inv)

lemma handle_step_poisoned_mono:
  "handle_step h h' \<Longrightarrow> poisoned (gate h) \<Longrightarrow> poisoned (gate h')"
  by (erule handle_step_cases) (auto simp: run_end_def split: if_splits unwind.splits)

end
