(* ===== verification/Cursor.thy ===== *)
theory Cursor
  imports Errors
begin

text \<open>
  The packed frame reader of \<open>protocol.rs\<close>: a cursor over the bytes of a frame, the primitive
  reads, and the contract they share. The contract is the locale \<open>wire_codec\<close>: on a cursor
  inside its frame, a read succeeds with \<open>x\<close> and leaves the cursor at \<open>c'\<close> exactly when \<open>x\<close> is
  well formed and the bytes between \<open>c\<close> and \<open>c'\<close> are the encoding of \<open>x\<close>. Soundness, the round
  trip and progress of every decoder built from the primitives follow from it.
\<close>

section \<open>The cursor\<close>

definition PROTOCOL_VERSION :: nat where
  "PROTOCOL_VERSION = 8"

definition MAX_STRING_BYTES :: nat where
  "MAX_STRING_BYTES = 1048576"

definition MAX_RECORD_ID_BYTES :: nat where
  "MAX_RECORD_ID_BYTES = 4096"

definition MAX_SYNONYM_BYTES :: nat where
  "MAX_SYNONYM_BYTES = 1048576"

record cursor =
  cur_bytes :: "u8 list"
  cur_offset :: nat

type_synonym 'a reader = "cursor \<Rightarrow> ('a \<times> cursor) res"

definition u16_from_le :: "u8 list \<Rightarrow> u16" where
  "u16_from_le bs = word_of_nat (le_nat bs)"

definition u32_from_le :: "u8 list \<Rightarrow> u32" where
  "u32_from_le bs = word_of_nat (le_nat bs)"

definition u64_from_le :: "u8 list \<Rightarrow> u64" where
  "u64_from_le bs = word_of_nat (le_nat bs)"

definition cursor_new :: "u8 list \<Rightarrow> string \<Rightarrow> cursor res" where
  "cursor_new bytes magic =
     (if length bytes < 6 \<or> take 4 bytes \<noteq> str_bytes magic
      then Err (invalid ''invalid packed request magic'')
      else let version = unat (u16_from_le [bytes ! 4, bytes ! 5]) in
        if version \<noteq> PROTOCOL_VERSION
        then Err (invalid (''unsupported packed request version '' @ nat_digits version))
        else Ok \<lparr>cur_bytes = bytes, cur_offset = 6\<rparr>)"

definition cursor_remaining :: "cursor \<Rightarrow> nat" where
  "cursor_remaining c = length (cur_bytes c) - cur_offset c"

definition cursor_take :: "nat \<Rightarrow> u8 list reader" where
  "cursor_take n c =
     and_then (ok_or (invalid ''packed request length overflow'') (checked_add (cur_offset c) n))
       (\<lambda>stop.
          if stop \<le> length (cur_bytes c)
          then Ok (take n (drop (cur_offset c) (cur_bytes c)), c\<lparr>cur_offset := stop\<rparr>)
          else Err (invalid ''packed request is truncated''))"

definition cursor_u8 :: "u8 reader" where
  "cursor_u8 c = and_then (cursor_take 1 c) (\<lambda>(bs, c). Ok (bs ! 0, c))"

definition cursor_boolean :: "bool reader" where
  "cursor_boolean c = and_then (cursor_u8 c) (\<lambda>(b, c).
     if b = 0 then Ok (False, c)
     else if b = 1 then Ok (True, c)
     else Err (invalid ''packed boolean must be zero or one''))"

definition cursor_u16 :: "u16 reader" where
  "cursor_u16 c = and_then (cursor_take 2 c) (\<lambda>(bs, c). Ok (u16_from_le bs, c))"

definition cursor_u32 :: "u32 reader" where
  "cursor_u32 c = and_then (cursor_take 4 c) (\<lambda>(bs, c). Ok (u32_from_le bs, c))"

definition cursor_u64 :: "u64 reader" where
  "cursor_u64 c = and_then (cursor_take 8 c) (\<lambda>(bs, c). Ok (u64_from_le bs, c))"

definition cursor_u64_usize :: "nat reader" where
  "cursor_u64_usize c = and_then (cursor_u64 c) (\<lambda>(v, c).
     if unat v \<le> usize_max then Ok (unat v, c)
     else Err (invalid ''numeric limit exceeds usize''))"

text \<open>The casts \<open>cursor.u16()? as usize\<close> and \<open>cursor.u32()? as usize\<close>.\<close>

definition cursor_u16_usize :: "nat reader" where
  "cursor_u16_usize c = and_then (cursor_u16 c) (\<lambda>(n, c). Ok (unat n, c))"

definition cursor_u32_usize :: "nat reader" where
  "cursor_u32_usize c = and_then (cursor_u32 c) (\<lambda>(n, c). Ok (unat n, c))"

definition cursor_f32 :: "f32 reader" where
  "cursor_f32 c = and_then (cursor_take 4 c) (\<lambda>(bs, c). Ok (u32_from_le bs, c))"

definition cursor_f64 :: "f64 reader" where
  "cursor_f64 c = and_then (cursor_take 8 c) (\<lambda>(bs, c). Ok (u64_from_le bs, c))"

definition cursor_raw_bytes :: "u8 list reader" where
  "cursor_raw_bytes c = and_then (cursor_u32 c) (\<lambda>(n, c).
     if MAX_STRING_BYTES < unat n then Err (invalid ''packed byte string exceeds 1 MiB'')
     else cursor_take (unat n) c)"

definition utf8_or_err :: "u8 list \<Rightarrow> string res" where
  "utf8_or_err bs = ok_or (invalid ''packed string is not valid UTF-8'') (from_utf8 bs)"

definition cursor_string :: "string reader" where
  "cursor_string c = and_then (cursor_raw_bytes c) (\<lambda>(bs, c).
     and_then (utf8_or_err bs) (\<lambda>s. Ok (s, c)))"

definition cursor_string_with_budget :: "string \<Rightarrow> nat \<Rightarrow> (string \<times> nat) reader" where
  "cursor_string_with_budget label remaining c = and_then (cursor_u32 c) (\<lambda>(n, c).
     if remaining < unat n \<or> MAX_STRING_BYTES < unat n
     then Err (invalid (label @ '' must not exceed '' @ nat_digits MAX_SYNONYM_BYTES @ '' bytes''))
     else and_then (cursor_take (unat n) c) (\<lambda>(bs, c).
       and_then (utf8_or_err bs) (\<lambda>s. Ok ((s, remaining - unat n), c))))"

definition validate_record_id :: "string \<Rightarrow> unit res" where
  "validate_record_id rid =
     (if rid = [] then Err (invalid ''record IDs must not be empty'')
      else if MAX_RECORD_ID_BYTES < length rid
      then Err (invalid (''record IDs must not exceed '' @ nat_digits MAX_RECORD_ID_BYTES
             @ '' UTF-8 bytes''))
      else Ok ())"

definition cursor_record_id :: "string reader" where
  "cursor_record_id c = and_then (cursor_string c) (\<lambda>(rid, c).
     and_then (validate_record_id rid) (\<lambda>_. Ok (rid, c)))"

definition cursor_finish :: "cursor \<Rightarrow> unit res" where
  "cursor_finish c =
     (if cur_offset c = length (cur_bytes c) then Ok ()
      else Err (invalid ''packed request has trailing bytes''))"

text \<open>The loop \<open>for _ in 0..count { values.push(read(cursor)?) }\<close>.\<close>

fun read_many :: "nat \<Rightarrow> 'a reader \<Rightarrow> 'a list reader" where
  "read_many 0 read c = Ok ([], c)"
| "read_many (Suc n) read c = and_then (read c) (\<lambda>(x, c).
     and_then (read_many n read c) (\<lambda>(xs, c). Ok (x # xs, c)))"

section \<open>The bytes a read consumes\<close>

definition cursor_ok :: "cursor \<Rightarrow> bool" where
  "cursor_ok c \<longleftrightarrow> cur_offset c \<le> length (cur_bytes c) \<and> length (cur_bytes c) \<le> usize_max"

definition spans :: "cursor \<Rightarrow> u8 list \<Rightarrow> cursor \<Rightarrow> bool" where
  "spans c bs c' \<longleftrightarrow>
     cursor_ok c \<and> prefix bs (drop (cur_offset c) (cur_bytes c)) \<and>
     c' = c\<lparr>cur_offset := cur_offset c + length bs\<rparr>"

lemma spans_ok: "spans c bs c' \<Longrightarrow> cursor_ok c"
  by (simp add: spans_def)

lemma spans_bytes: "spans c bs c' \<Longrightarrow> cur_bytes c' = cur_bytes c"
  by (simp add: spans_def)

lemma spans_offset: "spans c bs c' \<Longrightarrow> cur_offset c' = cur_offset c + length bs"
  by (simp add: spans_def)

lemma spans_length: "spans c bs c' \<Longrightarrow> length bs \<le> cursor_remaining c"
  by (auto simp: spans_def cursor_remaining_def dest: prefix_length_le)

lemma spans_ok' : "spans c bs c' \<Longrightarrow> cursor_ok c'"
  using spans_length [of c bs c']
  by (auto simp: spans_def cursor_ok_def cursor_remaining_def)

lemma spans_Nil_iff [simp]: "spans c [] c' \<longleftrightarrow> cursor_ok c \<and> c' = c"
  by (auto simp: spans_def)

lemma spans_append_iff:
  "spans c (xs @ ys) c'' \<longleftrightarrow> (\<exists>c'. spans c xs c' \<and> spans c' ys c'')"
proof
  assume a: "spans c (xs @ ys) c''"
  define c' where "c' = c\<lparr>cur_offset := cur_offset c + length xs\<rparr>"
  from a have p: "prefix (xs @ ys) (drop (cur_offset c) (cur_bytes c))" by (simp add: spans_def)
  then have x: "spans c xs c'"
    using a by (auto simp: spans_def c'_def dest: append_prefixD)
  obtain zs where "drop (cur_offset c) (cur_bytes c) = xs @ ys @ zs"
    using p by (auto simp: prefix_def)
  then have "drop (cur_offset c') (cur_bytes c') = ys @ zs"
    by (simp add: c'_def add.commute [of "cur_offset c"] flip: drop_drop)
  then have "spans c' ys c''"
    using a spans_ok' [OF x] by (simp add: spans_def c'_def add.assoc)
  with x show "\<exists>c'. spans c xs c' \<and> spans c' ys c''" by blast
next
  assume "\<exists>c'. spans c xs c' \<and> spans c' ys c''"
  then obtain c' where x: "spans c xs c'" and y: "spans c' ys c''" by blast
  from x obtain zs where z: "drop (cur_offset c) (cur_bytes c) = xs @ zs"
    by (auto simp: spans_def prefix_def)
  from x have c': "c' = c\<lparr>cur_offset := cur_offset c + length xs\<rparr>" by (simp add: spans_def)
  have "drop (cur_offset c') (cur_bytes c') = zs"
    using z by (simp add: c' add.commute [of "cur_offset c"] flip: drop_drop)
  with y have "prefix ys zs" by (simp add: spans_def)
  then show "spans c (xs @ ys) c''"
    using x y z c' by (simp add: spans_def add.assoc)
qed

lemma spans_appendI: "spans c xs c' \<Longrightarrow> spans c' ys c'' \<Longrightarrow> spans c (xs @ ys) c''"
  by (auto simp: spans_append_iff)

lemma spans_unique: "spans c xs c1 \<Longrightarrow> spans c xs c2 \<Longrightarrow> c1 = c2"
  by (simp add: spans_def)

lemma spans_remaining:
  "spans c bs c' \<Longrightarrow> cursor_remaining c = length bs + cursor_remaining c'"
  using spans_length [of c bs c'] by (simp add: spans_def cursor_remaining_def)

section \<open>The codec contract\<close>

locale wire_codec =
  fixes read :: "'a reader"
    and enc :: "'a \<Rightarrow> u8 list"
    and wf :: "'a \<Rightarrow> bool"
  assumes read_iff: "cursor_ok c \<Longrightarrow> read c = Ok (x, c') \<longleftrightarrow> wf x \<and> spans c (enc x) c'"
begin

lemma sound: "read c = Ok (x, c') \<Longrightarrow> cursor_ok c \<Longrightarrow> wf x \<and> spans c (enc x) c' \<and> cursor_ok c'"
  using read_iff spans_ok' by blast

lemma complete: "wf x \<Longrightarrow> spans c (enc x) c' \<Longrightarrow> read c = Ok (x, c')"
  using read_iff spans_ok by blast

lemma many_iff:
  "cursor_ok c \<Longrightarrow>
     read_many n read c = Ok (xs, c') \<longleftrightarrow>
     length xs = n \<and> list_all wf xs \<and> spans c (concat (map enc xs)) c'"
proof (induction n arbitrary: c xs c')
  case 0
  then show ?case by auto
next
  case (Suc n)
  have "read_many (Suc n) read c = Ok (xs, c') \<longleftrightarrow>
      (\<exists>x ys c1. wf x \<and> spans c (enc x) c1 \<and> read_many n read c1 = Ok (ys, c') \<and> xs = x # ys)"
    using Suc.prems by (auto simp: result_simps read_iff)
  also have "\<dots> \<longleftrightarrow> length xs = Suc n \<and> list_all wf xs \<and> spans c (concat (map enc xs)) c'"
    using Suc.IH [OF spans_ok'] by (cases xs) (auto simp: spans_append_iff, blast+)
  finally show ?case .
qed

lemma many_codec:
  "wire_codec (read_many n read) (\<lambda>xs. concat (map enc xs))
     (\<lambda>xs. length xs = n \<and> list_all wf xs)"
  by unfold_locales (use many_iff in auto)

lemma enc_prefix_free:
  assumes "wf x" "wf y" "enc x @ r = enc y @ s" "length (enc x @ r) \<le> usize_max"
  shows "x = y \<and> r = s"
proof -
  define c where "c = \<lparr>cur_bytes = enc x @ r, cur_offset = 0\<rparr>"
  have "spans c (enc x) (c\<lparr>cur_offset := length (enc x)\<rparr>)"
    using assms(4) by (simp add: spans_def cursor_ok_def c_def)
  then have a: "read c = Ok (x, c\<lparr>cur_offset := length (enc x)\<rparr>)" by (rule complete [OF assms(1)])
  have "prefix (enc y) (enc x @ r)" using assms(3) by (simp add: prefix_def)
  then have "spans c (enc y) (c\<lparr>cur_offset := length (enc y)\<rparr>)"
    using assms(4) by (simp add: spans_def cursor_ok_def c_def)
  then have "read c = Ok (y, c\<lparr>cur_offset := length (enc y)\<rparr>)" by (rule complete [OF assms(2)])
  with a have "x = y" by simp
  with assms(3) show ?thesis by simp
qed

end

text \<open>
  A codec whose encodings have a known minimum size: the guards \<open>count > remaining / k\<close> that the
  decoders put before a loop never reject a frame whose elements are there.
\<close>

locale sized_codec = wire_codec +
  fixes k :: nat
  assumes min_pos: "0 < k"
    and enc_min: "wf x \<Longrightarrow> k \<le> length (enc x)"
begin

lemma concat_min: "list_all wf xs \<Longrightarrow> k * length xs \<le> length (concat (map enc xs))"
proof (induction xs)
  case (Cons x xs)
  then show ?case using enc_min [of x] by simp
qed simp

lemma count_fits:
  assumes "list_all wf xs" "spans c (concat (map enc xs)) c'"
  shows "length xs \<le> cursor_remaining c div k"
proof -
  have "k * length xs \<le> cursor_remaining c"
    using concat_min [OF assms(1)] spans_length [OF assms(2)] by linarith
  then show ?thesis using min_pos by (simp add: less_eq_div_iff_mult_less_eq mult.commute)
qed

lemma guarded_many_iff:
  "cursor_ok c \<Longrightarrow>
     \<not> cursor_remaining c div k < n \<and> read_many n read c = Ok (xs, c') \<longleftrightarrow>
     length xs = n \<and> list_all wf xs \<and> spans c (concat (map enc xs)) c'"
  using many_iff [of c n xs c'] count_fits [of xs c c'] by auto

end

section \<open>The primitive codecs\<close>

definition enc_u8 :: "u8 \<Rightarrow> u8 list" where
  "enc_u8 b = [b]"

definition enc_boolean :: "bool \<Rightarrow> u8 list" where
  "enc_boolean b = [if b then 1 else 0]"

definition enc_u16 :: "u16 \<Rightarrow> u8 list" where
  "enc_u16 w = to_le 2 (unat w)"

definition enc_u32 :: "u32 \<Rightarrow> u8 list" where
  "enc_u32 w = to_le 4 (unat w)"

definition enc_u64 :: "u64 \<Rightarrow> u8 list" where
  "enc_u64 w = to_le 8 (unat w)"

definition enc_usize :: "nat \<Rightarrow> u8 list" where
  "enc_usize n = to_le 8 n"

definition enc_count16 :: "nat \<Rightarrow> u8 list" where
  "enc_count16 n = to_le 2 n"

definition enc_count32 :: "nat \<Rightarrow> u8 list" where
  "enc_count32 n = to_le 4 n"

definition enc_bytes :: "u8 list \<Rightarrow> u8 list" where
  "enc_bytes bs = to_le 4 (length bs) @ bs"

definition enc_string :: "string \<Rightarrow> u8 list" where
  "enc_string s = enc_bytes (str_bytes s)"

definition wf_bytes :: "u8 list \<Rightarrow> bool" where
  "wf_bytes bs \<longleftrightarrow> length bs \<le> MAX_STRING_BYTES"

definition wf_string :: "string \<Rightarrow> bool" where
  "wf_string s \<longleftrightarrow> utf8_string s \<and> length s \<le> MAX_STRING_BYTES"

definition wf_record_id :: "string \<Rightarrow> bool" where
  "wf_record_id rid \<longleftrightarrow> utf8_string rid \<and> rid \<noteq> [] \<and> length rid \<le> MAX_RECORD_ID_BYTES"

lemma prefix_iff_take: "prefix bs xs \<longleftrightarrow> length bs \<le> length xs \<and> bs = take (length bs) xs"
  by (metis append_eq_conv_conj prefix_def prefix_length_le take_is_prefix)

lemma cursor_take_iff:
  assumes "cursor_ok c"
  shows "cursor_take n c = Ok (bs, c') \<longleftrightarrow> length bs = n \<and> spans c bs c'"
proof -
  have "cursor_take n c = Ok (bs, c') \<longleftrightarrow>
      n \<le> length (drop (cur_offset c) (cur_bytes c)) \<and>
      bs = take n (drop (cur_offset c) (cur_bytes c)) \<and> c' = c\<lparr>cur_offset := cur_offset c + n\<rparr>"
    using assms by (auto simp: cursor_take_def result_simps cursor_ok_def split: if_splits)
  then show ?thesis
    using assms by (auto simp: spans_def prefix_iff_take min_absorb2)
qed

lemma word_of_le_eq_iff:
  fixes w :: "'l::len word"
  assumes "LENGTH('l) = 8 * k" "length bs = k"
  shows "word_of_nat (le_nat bs) = w \<longleftrightarrow> bs = to_le k (unat w)"
proof -
  have b: "le_nat bs < 2 ^ LENGTH('l)"
    using le_nat_bound [of bs] assms by (simp add: power_mult)
  have u: "unat w < 256 ^ k"
    using unsigned_less [of w, where 'a = nat] assms by (simp add: power_mult)
  show ?thesis
  proof
    assume "word_of_nat (le_nat bs) = w"
    then have "unat w = le_nat bs" using b by (auto simp: unat_of_nat)
    then show "bs = to_le k (unat w)" using to_le_le_nat [of bs] assms by simp
  next
    assume "bs = to_le k (unat w)"
    then have "le_nat bs = unat w" using u by (simp add: le_nat_to_le)
    then show "word_of_nat (le_nat bs) = w" by simp
  qed
qed

lemma cursor_take_complete: "spans c bs c' \<Longrightarrow> length bs = n \<Longrightarrow> cursor_take n c = Ok (bs, c')"
  using cursor_take_iff [OF spans_ok] by blast

lemma word_read_iff:
  fixes w :: "'l::len word"
  assumes "LENGTH('l) = 8 * k" "cursor_ok c"
  shows "and_then (cursor_take k c) (\<lambda>(bs, c). Ok (word_of_nat (le_nat bs), c)) = Ok (w, c') \<longleftrightarrow>
    spans c (to_le k (unat w)) c'"
proof -
  have "(\<exists>bs. length bs = k \<and> spans c bs c' \<and> word_of_nat (le_nat bs) = w) \<longleftrightarrow>
      spans c (to_le k (unat w)) c'"
    using word_of_le_eq_iff [OF assms(1)] by (metis length_to_le)
  then show ?thesis using assms(2) by (auto simp: result_simps cursor_take_iff)
qed

interpretation u8_codec: wire_codec cursor_u8 enc_u8 "\<lambda>_. True"
  by unfold_locales
     (auto simp: cursor_u8_def enc_u8_def result_simps cursor_take_iff length_Suc_conv)

interpretation boolean_codec: wire_codec cursor_boolean enc_boolean "\<lambda>_. True"
  by unfold_locales
     (auto simp: cursor_boolean_def enc_boolean_def enc_u8_def result_simps u8_codec.read_iff
       split: if_splits intro: exI [of _ 0] exI [of _ 1])

interpretation u16_codec: wire_codec cursor_u16 enc_u16 "\<lambda>_. True"
  by unfold_locales
     (simp add: cursor_u16_def enc_u16_def u16_from_le_def word_read_iff)

interpretation u32_codec: wire_codec cursor_u32 enc_u32 "\<lambda>_. True"
  by unfold_locales
     (simp add: cursor_u32_def enc_u32_def u32_from_le_def word_read_iff)

interpretation u64_codec: wire_codec cursor_u64 enc_u64 "\<lambda>_. True"
  by unfold_locales
     (simp add: cursor_u64_def enc_u64_def u64_from_le_def word_read_iff)

interpretation f32_codec: wire_codec cursor_f32 enc_u32 "\<lambda>_. True"
  by unfold_locales
     (simp add: cursor_f32_def enc_u32_def u32_from_le_def word_read_iff)

interpretation f64_codec: wire_codec cursor_f64 enc_u64 "\<lambda>_. True"
  by unfold_locales
     (simp add: cursor_f64_def enc_u64_def u64_from_le_def word_read_iff)

interpretation usize_codec: wire_codec cursor_u64_usize enc_usize "\<lambda>n. n \<le> usize_max"
proof
  fix c c' :: cursor and n :: nat
  assume c: "cursor_ok c"
  have "cursor_u64_usize c = Ok (n, c') \<longleftrightarrow>
      (\<exists>v. spans c (enc_u64 v) c' \<and> unat v \<le> usize_max \<and> n = unat v)"
    using c by (auto simp: cursor_u64_usize_def result_simps u64_codec.read_iff split: if_splits)
  also have "\<dots> \<longleftrightarrow> n \<le> usize_max \<and> spans c (enc_usize n) c'"
  proof
    assume r: "n \<le> usize_max \<and> spans c (enc_usize n) c'"
    then have "unat (word_of_nat n :: u64) = n" by (simp add: unat_of_nat usize_max_def)
    with r show "\<exists>v. spans c (enc_u64 v) c' \<and> unat v \<le> usize_max \<and> n = unat v"
      by (intro exI [of _ "word_of_nat n :: u64"]) (simp add: enc_u64_def enc_usize_def)
  qed (auto simp: enc_u64_def enc_usize_def)
  finally show "cursor_u64_usize c = Ok (n, c') \<longleftrightarrow> n \<le> usize_max \<and> spans c (enc_usize n) c'" .
qed

lemma unat_word_ex: "(\<exists>w :: 'l::len word. unat w = n \<and> P w) \<longleftrightarrow> n < 2 ^ LENGTH('l) \<and> P (word_of_nat n)"
proof
  assume "\<exists>w :: 'l word. unat w = n \<and> P w"
  then show "n < 2 ^ LENGTH('l) \<and> P (word_of_nat n)" using unsigned_less [where 'a = nat] by fastforce
next
  assume h: "n < 2 ^ LENGTH('l) \<and> P (word_of_nat n)"
  then have "unat (word_of_nat n :: 'l word) = n" by (simp add: unat_of_nat)
  with h show "\<exists>w :: 'l word. unat w = n \<and> P w" by blast
qed

interpretation count16_codec: wire_codec cursor_u16_usize enc_count16 "\<lambda>n. n < 65536"
proof
  fix c c' n
  assume "cursor_ok c"
  then have "cursor_u16_usize c = Ok (n, c') \<longleftrightarrow> (\<exists>w :: u16. unat w = n \<and> spans c (to_le 2 (unat w)) c')"
    by (auto simp: cursor_u16_usize_def result_simps u16_codec.read_iff enc_u16_def)
  then show "cursor_u16_usize c = Ok (n, c') \<longleftrightarrow> n < 65536 \<and> spans c (enc_count16 n) c'"
    by (auto simp: unat_word_ex unat_of_nat enc_count16_def)
qed

interpretation count32_codec: wire_codec cursor_u32_usize enc_count32 "\<lambda>n. n < 4294967296"
proof
  fix c c' n
  assume "cursor_ok c"
  then have "cursor_u32_usize c = Ok (n, c') \<longleftrightarrow> (\<exists>w :: u32. unat w = n \<and> spans c (to_le 4 (unat w)) c')"
    by (auto simp: cursor_u32_usize_def result_simps u32_codec.read_iff enc_u32_def)
  then show "cursor_u32_usize c = Ok (n, c') \<longleftrightarrow> n < 4294967296 \<and> spans c (enc_count32 n) c'"
    by (auto simp: unat_word_ex unat_of_nat enc_count32_def)
qed

lemma u32_length_word: "n \<le> MAX_STRING_BYTES \<Longrightarrow> unat (word_of_nat n :: u32) = n"
  by (simp add: unat_of_nat MAX_STRING_BYTES_def)

interpretation bytes_codec: wire_codec cursor_raw_bytes enc_bytes wf_bytes
proof
  fix c c' :: cursor and bs :: "u8 list"
  assume c: "cursor_ok c"
  have "cursor_raw_bytes c = Ok (bs, c') \<longleftrightarrow>
      (\<exists>n c1. spans c (enc_u32 n) c1 \<and> unat n \<le> MAX_STRING_BYTES \<and> length bs = unat n \<and> spans c1 bs c')"
    using c by (fastforce simp: cursor_raw_bytes_def result_simps u32_codec.read_iff
        cursor_take_iff [OF spans_ok'] not_less)
  also have "\<dots> \<longleftrightarrow> wf_bytes bs \<and> spans c (enc_bytes bs) c'"
  proof
    assume r: "wf_bytes bs \<and> spans c (enc_bytes bs) c'"
    then show "\<exists>n c1. spans c (enc_u32 n) c1 \<and> unat n \<le> MAX_STRING_BYTES \<and> length bs = unat n \<and>
        spans c1 bs c'"
      by (intro exI [of _ "word_of_nat (length bs) :: u32"])
         (auto simp: u32_length_word wf_bytes_def enc_u32_def enc_bytes_def spans_append_iff)
  qed (auto simp: enc_u32_def enc_bytes_def wf_bytes_def spans_append_iff)
  finally show "cursor_raw_bytes c = Ok (bs, c') \<longleftrightarrow> wf_bytes bs \<and> spans c (enc_bytes bs) c'" .
qed

lemma utf8_or_err_Ok_iff [result_simps]:
  "utf8_or_err bs = Ok s \<longleftrightarrow> utf8_string s \<and> bs = str_bytes s"
  by (simp add: utf8_or_err_def result_simps)

interpretation string_codec: wire_codec cursor_string enc_string wf_string
  by unfold_locales
     (auto simp: cursor_string_def result_simps bytes_codec.read_iff enc_string_def wf_string_def
       wf_bytes_def)

lemma is_ok_validate_record_id [result_simps]:
  "is_ok (validate_record_id rid) \<longleftrightarrow> rid \<noteq> [] \<and> length rid \<le> MAX_RECORD_ID_BYTES"
  by (auto simp: validate_record_id_def)

interpretation record_id_codec: wire_codec cursor_record_id enc_string wf_record_id
  by unfold_locales
     (auto simp: cursor_record_id_def result_simps string_codec.read_iff wf_string_def
       wf_record_id_def MAX_RECORD_ID_BYTES_def MAX_STRING_BYTES_def)

text \<open>Reading with the shared synonym budget: the budget pays exactly for the bytes read.\<close>

lemma cursor_string_with_budget_iff:
  assumes "cursor_ok c"
  shows "cursor_string_with_budget label r c = Ok ((s, r'), c') \<longleftrightarrow>
    wf_string s \<and> length s \<le> r \<and> r' = r - length s \<and> spans c (enc_string s) c'"
proof -
  have "cursor_string_with_budget label r c = Ok ((s, r'), c') \<longleftrightarrow>
      (\<exists>n c1. spans c (enc_u32 n) c1 \<and> unat n \<le> r \<and> unat n \<le> MAX_STRING_BYTES \<and>
         utf8_string s \<and> length s = unat n \<and> spans c1 (str_bytes s) c' \<and> r' = r - unat n)"
    using assms by (fastforce simp: cursor_string_with_budget_def result_simps u32_codec.read_iff
        cursor_take_iff [OF spans_ok'] not_less)
  also have "\<dots> \<longleftrightarrow> wf_string s \<and> length s \<le> r \<and> r' = r - length s \<and> spans c (enc_string s) c'"
  proof
    assume h: "wf_string s \<and> length s \<le> r \<and> r' = r - length s \<and> spans c (enc_string s) c'"
    then show "\<exists>n c1. spans c (enc_u32 n) c1 \<and> unat n \<le> r \<and> unat n \<le> MAX_STRING_BYTES \<and>
         utf8_string s \<and> length s = unat n \<and> spans c1 (str_bytes s) c' \<and> r' = r - unat n"
      by (intro exI [of _ "word_of_nat (length s) :: u32"])
         (auto simp: u32_length_word wf_string_def enc_u32_def enc_string_def enc_bytes_def
           spans_append_iff)
  qed (auto simp: enc_u32_def enc_string_def enc_bytes_def wf_string_def spans_append_iff)
  finally show ?thesis .
qed

interpretation string_sized: sized_codec cursor_string enc_string wf_string 4
  by unfold_locales (simp_all add: enc_string_def enc_bytes_def)

interpretation record_id_sized: sized_codec cursor_record_id enc_string wf_record_id 4
  by unfold_locales (simp_all add: enc_string_def enc_bytes_def)

lemmas wire_reads =
  u8_codec.read_iff boolean_codec.read_iff u16_codec.read_iff u32_codec.read_iff
  u64_codec.read_iff f32_codec.read_iff f64_codec.read_iff usize_codec.read_iff
  count16_codec.read_iff count32_codec.read_iff
  bytes_codec.read_iff string_codec.read_iff record_id_codec.read_iff

lemmas wire_simps =
  and_then_Ok_iff and_then_unit_Ok_iff guard_Ok_iff is_ok_guard is_ok_and_then unit_Ok_iff
  ok_or_Ok_iff utf8_or_err_Ok_iff is_ok_validate_record_id wire_reads spans_ok' spans_append_iff

lemma enc_lengths [simp]:
  "length (enc_u8 b) = 1" "length (enc_boolean q) = 1" "length (enc_u16 h) = 2"
  "length (enc_u32 w) = 4" "length (enc_u64 d) = 8" "length (enc_usize n) = 8"
  "length (enc_count16 n) = 2" "length (enc_count32 n) = 4"
  "length (enc_bytes bs) = 4 + length bs" "length (enc_string s) = 4 + length s"
  by (simp_all add: enc_u8_def enc_boolean_def enc_u16_def enc_u32_def enc_u64_def enc_usize_def
      enc_count16_def enc_count32_def enc_bytes_def enc_string_def)

section \<open>Whole frames\<close>

definition enc_header :: "string \<Rightarrow> u8 list" where
  "enc_header magic = str_bytes magic @ enc_u16 (word_of_nat PROTOCOL_VERSION)"

lemma enc_header_length [simp]: "length (enc_header magic) = length magic + 2"
  by (simp add: enc_header_def str_bytes_def)

lemma cursor_new_Ok_iff:
  assumes "length magic = 4"
  shows "cursor_new bytes magic = Ok c \<longleftrightarrow>
    prefix (enc_header magic) bytes \<and> c = \<lparr>cur_bytes = bytes, cur_offset = 6\<rparr>"
proof (cases "6 \<le> length bytes \<and> take 4 bytes = str_bytes magic")
  case True
  then have b: "bytes = str_bytes magic @ [bytes ! 4, bytes ! 5] @ drop 6 bytes"
    using append_take_drop_id [of 4 bytes]
    by (simp add: Cons_nth_drop_Suc numeral_eq_Suc)
  have "prefix (enc_header magic) bytes \<longleftrightarrow> enc_u16 (word_of_nat PROTOCOL_VERSION) = [bytes ! 4, bytes ! 5]"
  proof -
    have "prefix (enc_header magic) bytes \<longleftrightarrow> (\<exists>zs. bytes = enc_header magic @ zs)"
      by (simp add: prefix_def)
    also have "\<dots> \<longleftrightarrow> (\<exists>zs. [bytes ! 4, bytes ! 5] @ drop 6 bytes =
        enc_u16 (word_of_nat PROTOCOL_VERSION) @ zs)"
      by (metis (no_types, lifting) append_assoc b enc_header_def same_append_eq)
    also have "\<dots> \<longleftrightarrow> enc_u16 (word_of_nat PROTOCOL_VERSION) = [bytes ! 4, bytes ! 5]"
      by (subst append_eq_append_conv) auto
    finally show ?thesis .
  qed
  also have "\<dots> \<longleftrightarrow> u16_from_le [bytes ! 4, bytes ! 5] = word_of_nat PROTOCOL_VERSION"
    using word_of_le_eq_iff [of 2 "[bytes ! 4, bytes ! 5]" "word_of_nat PROTOCOL_VERSION :: u16"]
    by (auto simp: enc_u16_def u16_from_le_def)
  also have "\<dots> \<longleftrightarrow> unat (u16_from_le [bytes ! 4, bytes ! 5]) = PROTOCOL_VERSION"
    by (auto simp: PROTOCOL_VERSION_def word_unat_eq_iff)
  finally show ?thesis using True by (auto simp: cursor_new_def Let_def)
next
  case False
  then show ?thesis
    using assms by (auto simp: cursor_new_def enc_header_def prefix_def)
qed

lemma frame_iff:
  assumes "length magic = 4" "length bytes \<le> usize_max"
  shows "(\<exists>c c'. cursor_new bytes magic = Ok c \<and> spans c body c' \<and> is_ok (cursor_finish c')) \<longleftrightarrow>
    bytes = enc_header magic @ body"
proof -
  have "(\<exists>c c'. cursor_new bytes magic = Ok c \<and> spans c body c' \<and> is_ok (cursor_finish c')) \<longleftrightarrow>
     prefix (enc_header magic) bytes \<and> prefix body (drop 6 bytes) \<and> 6 + length body = length bytes"
    using assms by (auto simp: cursor_new_Ok_iff spans_def cursor_ok_def cursor_finish_def
       dest: prefix_length_le)
  also have "\<dots> \<longleftrightarrow> bytes = enc_header magic @ body"
    using assms(1) by (auto simp: prefix_def)
  finally show ?thesis .
qed

lemma cursor_new_cursor_ok: "cursor_new bytes magic = Ok c \<Longrightarrow> length bytes \<le> usize_max \<Longrightarrow> cursor_ok c"
  by (auto simp: cursor_new_def cursor_ok_def Let_def split: if_splits)

end
