(* ===== verification/Requests.thy ===== *)
theory Requests
  imports Cursor
begin

text \<open>
  The request types of \<open>protocol.rs\<close> and their semantic validation: query limits, the structure
  budget of a search expression, boosts, search windows, fuzzy options, and the shared admission
  checks of \<open>request_validation.rs\<close> that protect decoded and direct requests alike.
\<close>

section \<open>Limits\<close>

definition MAX_RECORD_VERSION_BYTES :: nat where "MAX_RECORD_VERSION_BYTES = 4096"
definition MAX_FIELDS :: nat where "MAX_FIELDS = 1024"
definition MAX_SYNONYM_RULES :: nat where "MAX_SYNONYM_RULES = 1024"
definition MAX_SYNONYM_REPLACEMENTS :: nat where "MAX_SYNONYM_REPLACEMENTS = 16"
definition MUTATION_BATCH_HEADER_BYTES :: nat where "MUTATION_BATCH_HEADER_BYTES = 14"
definition MIN_MUTATION_BATCH_BYTES :: nat where
  "MIN_MUTATION_BATCH_BYTES = MUTATION_BATCH_HEADER_BYTES + 10"
definition MAX_QUERY_TEXT_BYTES :: nat where "MAX_QUERY_TEXT_BYTES = 65536"
definition MAX_QUERY_TERMS :: nat where "MAX_QUERY_TERMS = 64"
definition MAX_QUERY_CLAUSES :: nat where "MAX_QUERY_CLAUSES = 256"
definition MAX_CONFIGURED_QUERY_TERMS :: nat where "MAX_CONFIGURED_QUERY_TERMS = 1024"
definition MAX_CONFIGURED_QUERY_CLAUSES :: nat where "MAX_CONFIGURED_QUERY_CLAUSES = 4096"
definition MAX_EXPRESSION_DEPTH :: nat where "MAX_EXPRESSION_DEPTH = 8"
definition MAX_CANDIDATE_IDS :: nat where "MAX_CANDIDATE_IDS = 1024"
definition MAX_CANDIDATE_BYTES :: nat where "MAX_CANDIDATE_BYTES = 1048576"
definition MAX_SEARCH_WINDOW :: nat where "MAX_SEARCH_WINDOW = 10000"
definition MAX_SEARCH_PAGE_SIZE :: nat where "MAX_SEARCH_PAGE_SIZE = 10000"
definition MAX_AUTOCOMPLETE_RESULTS :: nat where "MAX_AUTOCOMPLETE_RESULTS = 100"
definition MAX_SEARCH_REQUEST_BYTES :: nat where "MAX_SEARCH_REQUEST_BYTES = 8388608"
definition MAX_SEARCH_RESPONSE_BYTES :: nat where "MAX_SEARCH_RESPONSE_BYTES = 8388608"
definition MAX_SEARCH_BUDGET_MILLISECONDS :: nat where "MAX_SEARCH_BUDGET_MILLISECONDS = 30000"
definition MAX_TRACE_RECORDS :: nat where "MAX_TRACE_RECORDS = 100"
definition MAX_TRACE_SOURCE_BYTES :: nat where "MAX_TRACE_SOURCE_BYTES = 1048576"
definition MAX_TRACE_SPANS :: nat where "MAX_TRACE_SPANS = 1024"
definition MAX_FUZZY_DISTANCE :: nat where "MAX_FUZZY_DISTANCE = 2"
definition MAX_COMMIT_PAYLOAD_BYTES :: nat where "MAX_COMMIT_PAYLOAD_BYTES = 65536"
definition MAX_AGGREGATION_DEPTH :: nat where "MAX_AGGREGATION_DEPTH = 32"

lemmas limit_defs =
  MAX_RECORD_VERSION_BYTES_def MAX_FIELDS_def MAX_SYNONYM_RULES_def MAX_SYNONYM_REPLACEMENTS_def
  MUTATION_BATCH_HEADER_BYTES_def MIN_MUTATION_BATCH_BYTES_def MAX_QUERY_TEXT_BYTES_def
  MAX_QUERY_TERMS_def MAX_QUERY_CLAUSES_def MAX_CONFIGURED_QUERY_TERMS_def
  MAX_CONFIGURED_QUERY_CLAUSES_def MAX_EXPRESSION_DEPTH_def MAX_CANDIDATE_IDS_def
  MAX_CANDIDATE_BYTES_def MAX_SEARCH_WINDOW_def MAX_SEARCH_PAGE_SIZE_def
  MAX_AUTOCOMPLETE_RESULTS_def MAX_SEARCH_REQUEST_BYTES_def MAX_SEARCH_RESPONSE_BYTES_def
  MAX_SEARCH_BUDGET_MILLISECONDS_def MAX_TRACE_RECORDS_def MAX_TRACE_SOURCE_BYTES_def
  MAX_TRACE_SPANS_def MAX_FUZZY_DISTANCE_def MAX_AGGREGATION_DEPTH_def
  MAX_STRING_BYTES_def MAX_RECORD_ID_BYTES_def MAX_SYNONYM_BYTES_def

section \<open>Request types\<close>

datatype filter_value = FString string | FNumber f64 | FBoolean bool

datatype filter_comparator =
  Equals | In | Lt | Le | Gt | Ge | Between | Exists | Missing

datatype filter_expression =
    FClause string filter_comparator "filter_value list"
  | FAnd "filter_expression list"
  | FOr "filter_expression list"
  | FNot filter_expression

datatype search_mode = ModeAny | ModeAll | Phrase | Prefix | Fuzzy | FuzzyPrefix

record query_options =
  fuzzy_distance :: u8
  fuzzy_transpositions :: bool

record search_clause =
  cl_text :: string
  cl_mode :: search_mode
  cl_options :: query_options
  cl_fields :: "string list"

datatype search_expression =
    Clause search_clause
  | AndE "search_expression list"
  | OrE "search_expression list"
  | NotE search_expression
  | Boost f32 search_expression
  | Optional search_expression "search_expression list"

datatype sort_direction = Asc | Desc
datatype missing_order = First | Last

record sort_request =
  sort_field :: string
  sort_dir :: sort_direction
  sort_missing :: missing_order

datatype aggregation_kind =
    Terms u32
  | Stats
  | Histogram f64
  | Range "(f64 option \<times> f64 option) list"

datatype aggregation_request =
  Aggregation (agg_name: string) (agg_field: string) (agg_kind: aggregation_kind)
    (agg_children: "aggregation_request list")

record search_boundary =
  bnd_snapshot :: string
  bnd_score :: f32
  bnd_id :: string

record search_request =
  rq_sort :: "sort_request list option"
  rq_aggregations :: "aggregation_request list"
  rq_expression :: search_expression
  rq_candidate_ids :: "string list option"
  rq_filter :: "filter_expression option"
  rq_offset :: nat
  rq_limit :: nat
  rq_exact_total :: bool
  rq_budget_milliseconds :: nat
  rq_traversal :: bool
  rq_after :: "search_boundary option"

record trace_record =
  tr_id :: string
  tr_fields :: "(string \<times> string list) list"

record trace_request =
  tq_recovery :: bool
  tq_search :: search_request
  tq_records :: "trace_record list"

section \<open>Query limits and the structure budget\<close>

definition validate_query_limits :: "nat \<Rightarrow> nat \<Rightarrow> unit res" where
  "validate_query_limits terms clauses =
     (if terms = 0 \<or> MAX_CONFIGURED_QUERY_TERMS < terms
      then Err (invalid (''maxQueryTerms must be between 1 and ''
             @ nat_digits MAX_CONFIGURED_QUERY_TERMS))
      else if clauses = 0 \<or> MAX_CONFIGURED_QUERY_CLAUSES < clauses
      then Err (invalid (''maxQueryClauses must be between 1 and ''
             @ nat_digits MAX_CONFIGURED_QUERY_CLAUSES))
      else Ok ())"

record search_structure_budget =
  sb_limit :: nat
  sb_remaining :: nat
  sb_text_bytes :: nat
  sb_fields :: nat

definition budget_new :: "nat \<Rightarrow> nat \<Rightarrow> search_structure_budget res" where
  "budget_new limit nfields =
     and_then (validate_query_limits MAX_QUERY_TERMS limit) (\<lambda>_.
       Ok \<lparr>sb_limit = limit, sb_remaining = limit, sb_text_bytes = 0, sb_fields = nfields\<rparr>)"

definition budget_depth :: "nat \<Rightarrow> unit res" where
  "budget_depth depth =
     (if MAX_EXPRESSION_DEPTH < depth
      then Err (invalid (''search expression nesting exceeds '' @ nat_digits MAX_EXPRESSION_DEPTH
             @ '' levels''))
      else Ok ())"

definition budget_charge :: "nat \<Rightarrow> search_structure_budget \<Rightarrow> search_structure_budget res" where
  "budget_charge cost b =
     and_then
       (ok_or (invalid (''search structure exceeds '' @ nat_digits (sb_limit b)
          @ '' compiled clauses'')) (checked_sub (sb_remaining b) cost))
       (\<lambda>r. Ok (b\<lparr>sb_remaining := r\<rparr>))"

definition budget_children :: "nat \<Rightarrow> search_structure_budget \<Rightarrow> search_structure_budget res" where
  "budget_children count b =
     (if count = 0
      then Err (invalid ''boolean search expressions require at least one child'')
      else budget_charge count b)"

definition budget_optional_children ::
    "nat \<Rightarrow> search_structure_budget \<Rightarrow> search_structure_budget res" where
  "budget_optional_children count b =
     (if count = 0
      then Err (invalid ''optional scoring requires at least one optional clause'')
      else budget_charge count b)"

definition budget_leaf ::
    "nat \<Rightarrow> nat \<Rightarrow> search_structure_budget \<Rightarrow> search_structure_budget res" where
  "budget_leaf text_bytes nfields b =
     (let b = b\<lparr>sb_text_bytes := saturating_add (sb_text_bytes b) text_bytes\<rparr> in
      if MAX_QUERY_TEXT_BYTES < sb_text_bytes b
      then Err (invalid ''search text exceeds 65536 UTF-8 bytes'')
      else if sb_fields b < nfields
      then Err (invalid (''search field count exceeds '' @ nat_digits (sb_fields b) @ '' fields''))
      else Ok b)"

definition validate_query_boost :: "f32 \<Rightarrow> unit res" where
  "validate_query_boost boost =
     (if \<not> f32_is_finite boost \<or> f32_sign_negative boost \<or> f32_gt boost f32_hundred
      then Err (invalid ''boost must be finite between 0 and 100 without negative zero'')
      else Ok ())"

fun visit :: "search_expression \<Rightarrow> nat \<Rightarrow> search_structure_budget \<Rightarrow> search_structure_budget res"
and visit_all ::
    "search_expression list \<Rightarrow> nat \<Rightarrow> search_structure_budget \<Rightarrow> search_structure_budget res" where
  "visit (Clause clause) depth b = and_then (budget_depth depth) (\<lambda>_.
     budget_leaf (length (cl_text clause)) (length (cl_fields clause)) b)"
| "visit (AndE children) depth b = and_then (budget_depth depth) (\<lambda>_.
     and_then (budget_children (length children) b) (\<lambda>b. visit_all children (depth + 1) b))"
| "visit (OrE children) depth b = and_then (budget_depth depth) (\<lambda>_.
     and_then (budget_children (length children) b) (\<lambda>b. visit_all children (depth + 1) b))"
| "visit (Boost boost clause) depth b = and_then (budget_depth depth) (\<lambda>_.
     and_then (validate_query_boost boost) (\<lambda>_.
     and_then (budget_charge 1 b) (\<lambda>b. visit clause (depth + 1) b)))"
| "visit (Optional required optional) depth b = and_then (budget_depth depth) (\<lambda>_.
     and_then (budget_optional_children (length optional) b) (\<lambda>b.
     and_then (budget_charge 1 b) (\<lambda>b.
     and_then (visit required (depth + 1) b) (\<lambda>b. visit_all optional (depth + 1) b))))"
| "visit (NotE child) depth b = and_then (budget_depth depth) (\<lambda>_.
     and_then (budget_charge 2 b) (\<lambda>b. visit child (depth + 1) b))"
| "visit_all [] depth b = Ok b"
| "visit_all (e # es) depth b = and_then (visit e depth b) (\<lambda>b. visit_all es depth b)"

definition validate_search_structure :: "search_expression \<Rightarrow> nat \<Rightarrow> nat \<Rightarrow> unit res" where
  "validate_search_structure expression clauses nfields =
     and_then (budget_new clauses nfields) (\<lambda>b.
     and_then (visit expression 0 b) (\<lambda>_. Ok ()))"

section \<open>Windows and options\<close>

definition validate_search_window :: "nat \<Rightarrow> nat \<Rightarrow> bool \<Rightarrow> bool \<Rightarrow> unit res" where
  "validate_search_window offset limit traversal has_catalog =
     (if limit = 0 then Err (invalid ''search limit must be greater than zero'')
      else if traversal then
        (if offset \<noteq> 0 \<or> MAX_SEARCH_PAGE_SIZE < limit
         then Err (invalid (''searchPage requires offset zero and limit at most ''
                @ nat_digits MAX_SEARCH_PAGE_SIZE
                @ ''; reduce page size, not total traversal results''))
         else Ok ())
      else if (case checked_add offset limit of None \<Rightarrow> True | Some e \<Rightarrow> MAX_SEARCH_WINDOW < e)
      then Err (invalid (''offset + limit must not exceed '' @ nat_digits MAX_SEARCH_WINDOW @ ''; ''
             @ (if has_catalog then ''metadata continuation is not supported''
                else ''use searchPage for deeper results'')))
      else Ok ())"

definition is_expensive :: "search_mode \<Rightarrow> bool" where
  "is_expensive mode \<longleftrightarrow> mode \<in> {Phrase, Prefix, Fuzzy, FuzzyPrefix}"

definition default_query_options :: query_options where
  "default_query_options = \<lparr>fuzzy_distance = 1, fuzzy_transpositions = True\<rparr>"

definition validate_query_options :: "query_options \<Rightarrow> search_mode \<Rightarrow> unit res" where
  "validate_query_options opts mode =
     (if MAX_FUZZY_DISTANCE < unat (fuzzy_distance opts)
      then Err (invalid ''fuzzy distance must be between 0 and 2'')
      else if mode \<noteq> Fuzzy \<and> mode \<noteq> FuzzyPrefix \<and>
              (fuzzy_distance opts \<noteq> 1 \<or> \<not> fuzzy_transpositions opts)
      then Err (invalid ''fuzzy options require fuzzy or fuzzy-prefix mode'')
      else Ok ())"

section \<open>Admission\<close>

fun validate_candidate_loop :: "nat \<Rightarrow> string list \<Rightarrow> unit res" where
  "validate_candidate_loop bytes [] = Ok ()"
| "validate_candidate_loop bytes (rid # ids) =
     and_then (validate_record_id rid) (\<lambda>_.
       let bytes = saturating_add bytes (length rid) in
       if MAX_CANDIDATE_BYTES < bytes
       then Err (invalid ''candidate IDs exceed 1048576 UTF-8 bytes'')
       else validate_candidate_loop bytes ids)"

definition validate_candidates :: "string list option \<Rightarrow> unit res" where
  "validate_candidates ids = (case ids of
     None \<Rightarrow> Ok ()
   | Some ids \<Rightarrow>
       if MAX_CANDIDATE_IDS < length ids
       then Err (invalid ''candidate ID count exceeds 1024'')
       else validate_candidate_loop 0 ids)"

fun validate_expression_options :: "search_expression \<Rightarrow> bool res"
and validate_options_all :: "bool \<Rightarrow> search_expression list \<Rightarrow> bool res" where
  "validate_expression_options (Clause clause) =
     and_then (validate_query_options (cl_options clause) (cl_mode clause)) (\<lambda>_.
       Ok (cl_mode clause = Prefix \<or> cl_mode clause = FuzzyPrefix))"
| "validate_expression_options (AndE children) = validate_options_all False children"
| "validate_expression_options (OrE children) = validate_options_all False children"
| "validate_expression_options (Boost boost clause) = validate_expression_options clause"
| "validate_expression_options (Optional required optional) =
     and_then (validate_expression_options required) (\<lambda>contains_prefix.
       validate_options_all contains_prefix optional)"
| "validate_expression_options (NotE child) = validate_expression_options child"
| "validate_options_all contains_prefix [] = Ok contains_prefix"
| "validate_options_all contains_prefix (child # children) =
     and_then (validate_expression_options child) (\<lambda>p.
       validate_options_all (contains_prefix \<or> p) children)"

definition lower_hex_byte :: "char \<Rightarrow> bool" where
  "lower_hex_byte c \<longleftrightarrow>
     c \<in> set ''0123456789'' \<or> c \<in> set ''abcdef''"

definition validate_boundary :: "search_boundary \<Rightarrow> unit res" where
  "validate_boundary after =
     and_then (validate_record_id (bnd_id after)) (\<lambda>_.
       if \<not> f32_is_finite (bnd_score after) \<or> length (bnd_snapshot after) \<noteq> 64 \<or>
          \<not> list_all lower_hex_byte (bnd_snapshot after)
       then Err (invalid ''invalid search continuation boundary'')
       else Ok ())"

definition has_catalog :: "search_request \<Rightarrow> bool" where
  "has_catalog request \<longleftrightarrow> rq_sort request \<noteq> None \<or> rq_aggregations request \<noteq> []"

definition validate_search_admission :: "search_request \<Rightarrow> unit res" where
  "validate_search_admission request =
     and_then (validate_search_window (rq_offset request) (rq_limit request)
         (rq_traversal request) (has_catalog request)) (\<lambda>_.
     and_then (validate_candidates (rq_candidate_ids request)) (\<lambda>_.
     and_then (validate_search_structure (rq_expression request) MAX_CONFIGURED_QUERY_CLAUSES
         MAX_FIELDS) (\<lambda>_.
     and_then (validate_expression_options (rq_expression request)) (\<lambda>contains_prefix.
       if contains_prefix \<and> \<not> rq_traversal request \<and>
          (rq_offset request \<noteq> 0 \<or> MAX_AUTOCOMPLETE_RESULTS < rq_limit request)
       then Err (invalid (if has_catalog request
          then ''prefix search with sort or aggregations requires offset zero and a limit no greater than 100; metadata continuation is not supported''
          else ''prefix search requires offset zero and a limit no greater than 100; use searchPage for subsequent matches''))
       else (case rq_after request of
          None \<Rightarrow> Ok ()
        | Some after \<Rightarrow> validate_boundary after)))))"

fun trace_value_loop :: "nat \<Rightarrow> string list \<Rightarrow> nat res" where
  "trace_value_loop source_bytes [] = Ok source_bytes"
| "trace_value_loop source_bytes (v # vs) =
     (let source_bytes = saturating_add source_bytes (length v) in
      if MAX_TRACE_SOURCE_BYTES < source_bytes
      then Err (invalid ''trace source text exceeds 1048576 UTF-8 bytes'')
      else trace_value_loop source_bytes vs)"

fun trace_field_loop ::
    "string list \<Rightarrow> nat \<Rightarrow> (string \<times> string list) list \<Rightarrow> nat res" where
  "trace_field_loop seen source_bytes [] = Ok source_bytes"
| "trace_field_loop seen source_bytes ((name, vs) # fs) =
     (if name \<in> set seen then Err (invalid (''duplicate trace field '' @ name))
      else if 65535 < length vs then Err (invalid ''trace value count exceeds 65535'')
      else and_then (trace_value_loop source_bytes vs) (\<lambda>source_bytes.
        trace_field_loop (name # seen) source_bytes fs))"

fun trace_record_loop :: "string list \<Rightarrow> nat \<Rightarrow> trace_record list \<Rightarrow> unit res" where
  "trace_record_loop seen source_bytes [] = Ok ()"
| "trace_record_loop seen source_bytes (r # rs) =
     and_then (validate_record_id (tr_id r)) (\<lambda>_.
       if tr_id r \<in> set seen then Err (invalid (''duplicate trace record '' @ tr_id r))
       else if MAX_FIELDS < length (tr_fields r)
       then Err (invalid ''trace record field count exceeds 1024 fields'')
       else and_then (trace_field_loop [] source_bytes (tr_fields r)) (\<lambda>source_bytes.
         trace_record_loop (tr_id r # seen) source_bytes rs))"

definition validate_trace_admission :: "search_request \<Rightarrow> trace_record list \<Rightarrow> unit res" where
  "validate_trace_admission request records =
     and_then (validate_candidates (rq_candidate_ids request)) (\<lambda>_.
     and_then (validate_search_structure (rq_expression request) MAX_CONFIGURED_QUERY_CLAUSES
         MAX_FIELDS) (\<lambda>_.
     and_then (validate_expression_options (rq_expression request)) (\<lambda>_.
       if MAX_TRACE_RECORDS < length records
       then Err (invalid ''trace record count exceeds 100'')
       else trace_record_loop [] 0 records)))"

definition validate_filter_number :: "f64 \<Rightarrow> unit res" where
  "validate_filter_number v =
     (if \<not> f64_is_finite v then Err (invalid ''filter numbers must be finite'') else Ok ())"

section \<open>What the structure budget accepts\<close>

text \<open>The abstract measures of an expression that the budget charges for.\<close>

fun expr_height :: "search_expression \<Rightarrow> nat" where
  "expr_height (Clause c) = 0"
| "expr_height (AndE es) = Suc (foldr max (map expr_height es) 0)"
| "expr_height (OrE es) = Suc (foldr max (map expr_height es) 0)"
| "expr_height (NotE e) = Suc (expr_height e)"
| "expr_height (Boost f e) = Suc (expr_height e)"
| "expr_height (Optional r es) = Suc (foldr max (map expr_height es) (expr_height r))"

fun expr_cost :: "search_expression \<Rightarrow> nat" where
  "expr_cost (Clause c) = 0"
| "expr_cost (AndE es) = length es + sum_list (map expr_cost es)"
| "expr_cost (OrE es) = length es + sum_list (map expr_cost es)"
| "expr_cost (NotE e) = 2 + expr_cost e"
| "expr_cost (Boost f e) = 1 + expr_cost e"
| "expr_cost (Optional r es) = length es + 1 + expr_cost r + sum_list (map expr_cost es)"

fun expr_text :: "search_expression \<Rightarrow> nat" where
  "expr_text (Clause c) = length (cl_text c)"
| "expr_text (AndE es) = sum_list (map expr_text es)"
| "expr_text (OrE es) = sum_list (map expr_text es)"
| "expr_text (NotE e) = expr_text e"
| "expr_text (Boost f e) = expr_text e"
| "expr_text (Optional r es) = expr_text r + sum_list (map expr_text es)"

fun expr_shape :: "nat \<Rightarrow> search_expression \<Rightarrow> bool" where
  "expr_shape n (Clause c) \<longleftrightarrow> length (cl_fields c) \<le> n"
| "expr_shape n (AndE es) \<longleftrightarrow> es \<noteq> [] \<and> list_all (expr_shape n) es"
| "expr_shape n (OrE es) \<longleftrightarrow> es \<noteq> [] \<and> list_all (expr_shape n) es"
| "expr_shape n (NotE e) \<longleftrightarrow> expr_shape n e"
| "expr_shape n (Boost f e) \<longleftrightarrow> is_ok (validate_query_boost f) \<and> expr_shape n e"
| "expr_shape n (Optional r es) \<longleftrightarrow> es \<noteq> [] \<and> expr_shape n r \<and> list_all (expr_shape n) es"

definition spend :: "nat \<Rightarrow> nat \<Rightarrow> search_structure_budget \<Rightarrow> search_structure_budget" where
  "spend cost text b =
     b\<lparr>sb_remaining := sb_remaining b - cost, sb_text_bytes := sb_text_bytes b + text\<rparr>"

definition affordable :: "nat \<Rightarrow> nat \<Rightarrow> search_structure_budget \<Rightarrow> bool" where
  "affordable cost text b \<longleftrightarrow>
     cost \<le> sb_remaining b \<and> sb_text_bytes b + text \<le> MAX_QUERY_TEXT_BYTES"

lemma spend_spend [simp]: "spend c' t' (spend c t b) = spend (c + c') (t + t') b"
  by (simp add: spend_def)

lemma spend_zero [simp]: "spend 0 0 b = b"
  by (simp add: spend_def)

lemma spend_fields [simp]: "sb_fields (spend c t b) = sb_fields b"
  by (simp add: spend_def)

lemma spend_sel [simp]:
  "sb_remaining (spend c t b) = sb_remaining b - c"
  "sb_text_bytes (spend c t b) = sb_text_bytes b + t"
  by (simp_all add: spend_def)

lemma affordable_mono: "affordable c t b \<Longrightarrow> c' \<le> c \<Longrightarrow> t' \<le> t \<Longrightarrow> affordable c' t' b"
  by (simp add: affordable_def)

lemma is_ok_budget_depth [result_simps]: "is_ok (budget_depth d) \<longleftrightarrow> d \<le> MAX_EXPRESSION_DEPTH"
  by (simp add: budget_depth_def not_less)

lemma budget_charge_Ok_iff [result_simps]:
  "affordable 0 0 b \<Longrightarrow>
     budget_charge k b = Ok b' \<longleftrightarrow> affordable k 0 b \<and> b' = spend k 0 b"
  by (auto simp: budget_charge_def result_simps affordable_def spend_def)

lemma budget_children_Ok_iff [result_simps]:
  "affordable 0 0 b \<Longrightarrow>
     budget_children k b = Ok b' \<longleftrightarrow> k \<noteq> 0 \<and> affordable k 0 b \<and> b' = spend k 0 b"
  by (auto simp: budget_children_def result_simps)

lemma budget_optional_children_Ok_iff [result_simps]:
  "affordable 0 0 b \<Longrightarrow>
     budget_optional_children k b = Ok b' \<longleftrightarrow> k \<noteq> 0 \<and> affordable k 0 b \<and> b' = spend k 0 b"
  by (auto simp: budget_optional_children_def result_simps)

lemma budget_leaf_Ok_iff [result_simps]:
  "affordable 0 0 b \<Longrightarrow>
     budget_leaf t n b = Ok b' \<longleftrightarrow> n \<le> sb_fields b \<and> affordable 0 t b \<and> b' = spend 0 t b"
proof -
  have "MAX_QUERY_TEXT_BYTES < usize_max" by (simp add: limit_defs usize_max_def)
  note le = saturating_add_le_iff [OF this]
  have "sb_text_bytes b + t \<le> MAX_QUERY_TEXT_BYTES \<Longrightarrow>
      saturating_add (sb_text_bytes b) t = sb_text_bytes b + t"
    by (simp add: saturating_add_def limit_defs usize_max_def)
  then show "affordable 0 0 b \<Longrightarrow> ?thesis"
    by (auto simp: budget_leaf_def Let_def affordable_def spend_def not_less le)
qed

lemma foldr_max_le_iff: "foldr max xs k \<le> (n::nat) \<longleftrightarrow> k \<le> n \<and> list_all (\<lambda>x. x \<le> n) xs"
  by (induction xs) auto

lemma height_group_le:
  "es \<noteq> [] \<Longrightarrow> d + Suc (foldr max (map f es) k) \<le> (n::nat) \<longleftrightarrow>
     d + 1 + k \<le> n \<and> list_all (\<lambda>e. d + 1 + f e \<le> n) es"
proof -
  have "d + Suc (foldr max (map f es) k) \<le> n \<longleftrightarrow> Suc d \<le> n \<and> foldr max (map f es) k \<le> n - Suc d"
    by arith
  moreover have "Suc d \<le> n \<Longrightarrow> (x \<le> n - Suc d) = (d + 1 + x \<le> n)" for x by arith
  ultimately show ?thesis
    by (auto simp: foldr_max_le_iff list_all_iff)
qed

definition accepts :: "nat \<Rightarrow> search_structure_budget \<Rightarrow> search_structure_budget \<Rightarrow> search_expression list \<Rightarrow> bool" where
  "accepts d b b' es \<longleftrightarrow>
     list_all (\<lambda>e. d + expr_height e \<le> MAX_EXPRESSION_DEPTH) es \<and>
     list_all (expr_shape (sb_fields b)) es \<and>
     affordable (sum_list (map expr_cost es)) (sum_list (map expr_text es)) b \<and>
     b' = spend (sum_list (map expr_cost es)) (sum_list (map expr_text es)) b"

lemma accepts_Cons:
  "accepts d b b' (e # es) \<longleftrightarrow> (\<exists>b1. accepts d b b1 [e] \<and> accepts d b1 b' es)"
  by (auto simp: accepts_def affordable_def)

lemma accepts_start: "accepts d b b' es \<Longrightarrow> affordable 0 0 b \<and> affordable 0 0 b'"
  by (auto simp: accepts_def affordable_def)

lemma accepts_charged:
  "affordable k 0 b \<Longrightarrow> accepts d (spend k 0 b) b' es \<longleftrightarrow>
     list_all (\<lambda>e. d + expr_height e \<le> MAX_EXPRESSION_DEPTH) es \<and>
     list_all (expr_shape (sb_fields b)) es \<and>
     affordable (k + sum_list (map expr_cost es)) (sum_list (map expr_text es)) b \<and>
     b' = spend (k + sum_list (map expr_cost es)) (sum_list (map expr_text es)) b"
  by (auto simp: accepts_def affordable_def)

lemma visit_all_accepts:
  assumes "\<And>e d b b'. e \<in> set es \<Longrightarrow> affordable 0 0 b \<Longrightarrow> visit e d b = Ok b' \<longleftrightarrow> accepts d b b' [e]"
    and "affordable 0 0 b"
  shows "visit_all es d b = Ok b' \<longleftrightarrow> accepts d b b' es"
  using assms
proof (induction es arbitrary: b)
  case Nil
  then show ?case by (auto simp: accepts_def)
next
  case (Cons e es)
  have "visit_all (e # es) d b = Ok b' \<longleftrightarrow> (\<exists>b1. accepts d b b1 [e] \<and> visit_all es d b1 = Ok b')"
    using Cons.prems by (auto simp: result_simps)
  also have "\<dots> \<longleftrightarrow> (\<exists>b1. accepts d b b1 [e] \<and> accepts d b1 b' es)"
    using Cons.IH Cons.prems(1) accepts_start by (meson list.set_intros(2))
  finally show ?case by (simp add: accepts_Cons [of d b b' e es])
qed

lemma group_accepts:
  assumes IH: "\<And>e d b b'. e \<in> set es \<Longrightarrow> affordable 0 0 b \<Longrightarrow>
      visit e d b = Ok b' \<longleftrightarrow> accepts d b b' [e]"
    and b: "affordable 0 0 b"
  shows "d \<le> MAX_EXPRESSION_DEPTH \<and> es \<noteq> [] \<and> affordable (length es) 0 b \<and>
      visit_all es (Suc d) (spend (length es) 0 b) = Ok b' \<longleftrightarrow> accepts d b b' [AndE es]"
proof (cases "es = []")
  case True
  then show ?thesis by (simp add: accepts_def)
next
  case False
  have v: "affordable (length es) 0 b \<Longrightarrow>
      visit_all es (Suc d) (spend (length es) 0 b) = Ok b' \<longleftrightarrow>
      accepts (Suc d) (spend (length es) 0 b) b' es"
    by (rule visit_all_accepts [OF IH]) (auto simp: affordable_def)
  have d: "list_all (\<lambda>e. Suc d + expr_height e \<le> MAX_EXPRESSION_DEPTH) es \<Longrightarrow>
      d \<le> MAX_EXPRESSION_DEPTH"
    using False by (cases es) auto
  show ?thesis
    using False v d height_group_le [OF False, of d expr_height 0 MAX_EXPRESSION_DEPTH]
    by (auto simp: accepts_charged accepts_def [of d b b' "[AndE es]"] list_all_iff affordable_def)
qed

lemma visit_accepts:
  "affordable 0 0 b \<Longrightarrow> visit e d b = Ok b' \<longleftrightarrow> accepts d b b' [e]"
proof (induction e arbitrary: d b b')
  case (Clause c)
  then show ?case by (auto simp: result_simps accepts_def)
next
  case (AndE es)
  then show ?case using group_accepts [of es b d b'] by (auto simp: result_simps)
next
  case (OrE es)
  moreover have "accepts d b b' [OrE es] = accepts d b b' [AndE es]" by (simp add: accepts_def)
  ultimately show ?case using group_accepts [of es b d b'] by (auto simp: result_simps)
next
  case (NotE e)
  then show ?case by (auto simp: result_simps accepts_def affordable_def)
next
  case (Boost f e)
  then show ?case by (auto simp: result_simps accepts_def affordable_def)
next
  case (Optional r es)
  have v: "visit_all es (Suc d) b1 = Ok b' \<longleftrightarrow> accepts (Suc d) b1 b' es" if "affordable 0 0 b1" for b1
    by (rule visit_all_accepts [OF Optional.IH(2)]) (use that in auto)
  have h: "es \<noteq> [] \<Longrightarrow> d + expr_height (Optional r es) \<le> MAX_EXPRESSION_DEPTH \<longleftrightarrow>
      Suc d + expr_height r \<le> MAX_EXPRESSION_DEPTH \<and>
      list_all (\<lambda>e. Suc d + expr_height e \<le> MAX_EXPRESSION_DEPTH) es"
    using height_group_le [of es d expr_height "expr_height r" MAX_EXPRESSION_DEPTH] by simp
  show ?case
  proof (cases "es = []")
    case True
    with Optional.prems show ?thesis by (simp add: result_simps accepts_def)
  next
    case False
    with Optional.IH(1) Optional.prems v h [OF False] show ?thesis
      by (auto simp: result_simps accepts_def affordable_def simp del: expr_height.simps)
  qed
qed

lemma validate_query_limits_iff [result_simps]:
  "is_ok (validate_query_limits t c) \<longleftrightarrow>
     0 < t \<and> t \<le> MAX_CONFIGURED_QUERY_TERMS \<and> 0 < c \<and> c \<le> MAX_CONFIGURED_QUERY_CLAUSES"
  by (auto simp: validate_query_limits_def)

lemma budget_new_Ok_iff [result_simps]:
  "budget_new clauses n = Ok b \<longleftrightarrow>
     0 < clauses \<and> clauses \<le> MAX_CONFIGURED_QUERY_CLAUSES \<and>
     b = \<lparr>sb_limit = clauses, sb_remaining = clauses, sb_text_bytes = 0, sb_fields = n\<rparr>"
  by (auto simp: budget_new_def result_simps limit_defs)

definition structure_ok :: "search_expression \<Rightarrow> nat \<Rightarrow> nat \<Rightarrow> bool" where
  "structure_ok e clauses n \<longleftrightarrow>
     expr_height e \<le> MAX_EXPRESSION_DEPTH \<and> expr_shape n e \<and> expr_cost e \<le> clauses \<and>
     expr_text e \<le> MAX_QUERY_TEXT_BYTES"

lemma accepts_new:
  "accepts 0 \<lparr>sb_limit = clauses, sb_remaining = clauses, sb_text_bytes = 0, sb_fields = n\<rparr> b [e] \<longleftrightarrow>
     structure_ok e clauses n \<and>
     b = spend (expr_cost e) (expr_text e)
       \<lparr>sb_limit = clauses, sb_remaining = clauses, sb_text_bytes = 0, sb_fields = n\<rparr>"
  by (auto simp: accepts_def structure_ok_def affordable_def)

lemma is_ok_structure [result_simps]:
  "is_ok (validate_search_structure e clauses n) \<longleftrightarrow>
     0 < clauses \<and> clauses \<le> MAX_CONFIGURED_QUERY_CLAUSES \<and> structure_ok e clauses n"
proof -
  have "affordable 0 0 \<lparr>sb_limit = clauses, sb_remaining = clauses, sb_text_bytes = 0, sb_fields = n\<rparr>"
    by (simp add: affordable_def)
  then show ?thesis
    by (auto simp: validate_search_structure_def result_simps visit_accepts accepts_new)
qed

section \<open>What admission accepts\<close>

definition window_ok :: "nat \<Rightarrow> nat \<Rightarrow> bool \<Rightarrow> bool" where
  "window_ok offset limit traversal \<longleftrightarrow>
     0 < limit \<and>
     (if traversal then offset = 0 \<and> limit \<le> MAX_SEARCH_PAGE_SIZE
      else offset + limit \<le> MAX_SEARCH_WINDOW)"

definition candidates_ok :: "string list option \<Rightarrow> bool" where
  "candidates_ok ids = (case ids of
     None \<Rightarrow> True
   | Some ids \<Rightarrow> length ids \<le> MAX_CANDIDATE_IDS \<and>
       list_all (\<lambda>rid. rid \<noteq> [] \<and> length rid \<le> MAX_RECORD_ID_BYTES) ids \<and>
       sum_list (map length ids) \<le> MAX_CANDIDATE_BYTES)"

definition options_ok :: "query_options \<Rightarrow> search_mode \<Rightarrow> bool" where
  "options_ok opts mode \<longleftrightarrow>
     unat (fuzzy_distance opts) \<le> MAX_FUZZY_DISTANCE \<and>
     (mode \<in> {Fuzzy, FuzzyPrefix} \<or> opts = default_query_options)"

fun expr_leaves :: "search_expression \<Rightarrow> search_clause list" where
  "expr_leaves (Clause c) = [c]"
| "expr_leaves (AndE es) = concat (map expr_leaves es)"
| "expr_leaves (OrE es) = concat (map expr_leaves es)"
| "expr_leaves (NotE e) = expr_leaves e"
| "expr_leaves (Boost f e) = expr_leaves e"
| "expr_leaves (Optional r es) = expr_leaves r @ concat (map expr_leaves es)"

definition leaf_options_ok :: "search_expression \<Rightarrow> bool" where
  "leaf_options_ok e \<longleftrightarrow> list_all (\<lambda>c. options_ok (cl_options c) (cl_mode c)) (expr_leaves e)"

definition has_prefix_leaf :: "search_expression \<Rightarrow> bool" where
  "has_prefix_leaf e \<longleftrightarrow> list_ex (\<lambda>c. cl_mode c \<in> {Prefix, FuzzyPrefix}) (expr_leaves e)"

definition boundary_ok :: "search_boundary \<Rightarrow> bool" where
  "boundary_ok a \<longleftrightarrow>
     bnd_id a \<noteq> [] \<and> length (bnd_id a) \<le> MAX_RECORD_ID_BYTES \<and> f32_is_finite (bnd_score a) \<and>
     length (bnd_snapshot a) = 64 \<and> list_all lower_hex_byte (bnd_snapshot a)"

definition admissible :: "search_request \<Rightarrow> bool" where
  "admissible r \<longleftrightarrow>
     window_ok (rq_offset r) (rq_limit r) (rq_traversal r) \<and>
     candidates_ok (rq_candidate_ids r) \<and>
     structure_ok (rq_expression r) MAX_CONFIGURED_QUERY_CLAUSES MAX_FIELDS \<and>
     leaf_options_ok (rq_expression r) \<and>
     (has_prefix_leaf (rq_expression r) \<and> \<not> rq_traversal r \<longrightarrow>
        rq_offset r = 0 \<and> rq_limit r \<le> MAX_AUTOCOMPLETE_RESULTS) \<and>
     pred_option boundary_ok (rq_after r)"

lemma is_ok_window [result_simps]:
  "is_ok (validate_search_window offset limit traversal cat) \<longleftrightarrow> window_ok offset limit traversal"
  by (auto simp: validate_search_window_def window_ok_def checked_add_def limit_defs usize_max_def)

lemma is_ok_candidate_loop:
  "bytes \<le> MAX_CANDIDATE_BYTES \<Longrightarrow>
     is_ok (validate_candidate_loop bytes ids) \<longleftrightarrow>
       list_all (\<lambda>rid. rid \<noteq> [] \<and> length rid \<le> MAX_RECORD_ID_BYTES) ids \<and>
       bytes + sum_list (map length ids) \<le> MAX_CANDIDATE_BYTES"
proof (induction ids arbitrary: bytes)
  case (Cons rid ids)
  have m: "MAX_CANDIDATE_BYTES < usize_max" by (simp add: limit_defs usize_max_def)
  have s: "bytes + length rid \<le> MAX_CANDIDATE_BYTES \<Longrightarrow>
      saturating_add bytes (length rid) = bytes + length rid"
    using m by (simp add: saturating_add_def)
  show ?case
    using Cons s saturating_add_le_iff [OF m, of bytes "length rid"]
    by (auto simp: result_simps Let_def not_less)
qed simp

lemma is_ok_candidates [result_simps]: "is_ok (validate_candidates ids) \<longleftrightarrow> candidates_ok ids"
  by (auto simp: validate_candidates_def candidates_ok_def is_ok_candidate_loop split: option.splits)

lemma is_ok_options [result_simps]:
  "is_ok (validate_query_options opts mode) \<longleftrightarrow> options_ok opts mode"
  by (cases opts) (auto simp: validate_query_options_def options_ok_def default_query_options_def)

lemma options_all_iff:
  assumes "\<And>e p. e \<in> set es \<Longrightarrow>
      validate_expression_options e = Ok p \<longleftrightarrow> leaf_options_ok e \<and> p = has_prefix_leaf e"
  shows "validate_options_all q es = Ok p \<longleftrightarrow>
      list_all leaf_options_ok es \<and> p = (q \<or> list_ex has_prefix_leaf es)"
  using assms by (induction es arbitrary: q) (auto simp: result_simps)

lemma leaf_options_group [simp]:
  "leaf_options_ok (AndE es) \<longleftrightarrow> list_all leaf_options_ok es"
  "leaf_options_ok (OrE es) \<longleftrightarrow> list_all leaf_options_ok es"
  "leaf_options_ok (NotE e) \<longleftrightarrow> leaf_options_ok e"
  "leaf_options_ok (Boost f e) \<longleftrightarrow> leaf_options_ok e"
  "leaf_options_ok (Optional e es) \<longleftrightarrow> leaf_options_ok e \<and> list_all leaf_options_ok es"
  by (induction es) (auto simp: leaf_options_ok_def)

lemma has_prefix_group [simp]:
  "has_prefix_leaf (AndE es) \<longleftrightarrow> list_ex has_prefix_leaf es"
  "has_prefix_leaf (OrE es) \<longleftrightarrow> list_ex has_prefix_leaf es"
  "has_prefix_leaf (NotE e) \<longleftrightarrow> has_prefix_leaf e"
  "has_prefix_leaf (Boost f e) \<longleftrightarrow> has_prefix_leaf e"
  "has_prefix_leaf (Optional e es) \<longleftrightarrow> has_prefix_leaf e \<or> list_ex has_prefix_leaf es"
  by (induction es) (auto simp: has_prefix_leaf_def)

lemma expression_options_iff [result_simps]:
  "validate_expression_options e = Ok p \<longleftrightarrow> leaf_options_ok e \<and> p = has_prefix_leaf e"
  by (induction e arbitrary: p)
     (auto simp: result_simps options_all_iff leaf_options_ok_def [of "Clause _"]
       has_prefix_leaf_def [of "Clause _"])

lemma is_ok_boundary [result_simps]: "is_ok (validate_boundary a) \<longleftrightarrow> boundary_ok a"
  by (auto simp: validate_boundary_def boundary_ok_def result_simps)

lemma is_ok_search_admission [result_simps]: "is_ok (validate_search_admission r) \<longleftrightarrow> admissible r"
  by (auto simp: validate_search_admission_def admissible_def result_simps limit_defs
      split: option.splits)

definition field_bytes :: "(string \<times> string list) list \<Rightarrow> nat" where
  "field_bytes fs = sum_list (map (\<lambda>(n, vs). sum_list (map length vs)) fs)"

definition trace_fields_ok :: "(string \<times> string list) list \<Rightarrow> bool" where
  "trace_fields_ok fs \<longleftrightarrow> distinct (map fst fs) \<and> list_all (\<lambda>(n, vs). length vs \<le> 65535) fs"

definition trace_records_ok :: "trace_record list \<Rightarrow> bool" where
  "trace_records_ok rs \<longleftrightarrow>
     length rs \<le> MAX_TRACE_RECORDS \<and> distinct (map tr_id rs) \<and>
     list_all (\<lambda>r. tr_id r \<noteq> [] \<and> length (tr_id r) \<le> MAX_RECORD_ID_BYTES \<and>
       length (tr_fields r) \<le> MAX_FIELDS \<and> trace_fields_ok (tr_fields r)) rs \<and>
     sum_list (map (field_bytes \<circ> tr_fields) rs) \<le> MAX_TRACE_SOURCE_BYTES"

definition trace_admissible :: "search_request \<Rightarrow> trace_record list \<Rightarrow> bool" where
  "trace_admissible r rs \<longleftrightarrow>
     candidates_ok (rq_candidate_ids r) \<and>
     structure_ok (rq_expression r) MAX_CONFIGURED_QUERY_CLAUSES MAX_FIELDS \<and>
     leaf_options_ok (rq_expression r) \<and> trace_records_ok rs"

lemma trace_value_loop_iff:
  "n \<le> MAX_TRACE_SOURCE_BYTES \<Longrightarrow>
     trace_value_loop n vs = Ok m \<longleftrightarrow>
       m = n + sum_list (map length vs) \<and> m \<le> MAX_TRACE_SOURCE_BYTES"
proof (induction vs arbitrary: n)
  case (Cons v vs)
  have m: "MAX_TRACE_SOURCE_BYTES < usize_max" by (simp add: limit_defs usize_max_def)
  have s: "n + length v \<le> MAX_TRACE_SOURCE_BYTES \<Longrightarrow> saturating_add n (length v) = n + length v"
    using m by (simp add: saturating_add_def)
  show ?case
  proof (cases "n + length v \<le> MAX_TRACE_SOURCE_BYTES")
    case True
    then show ?thesis using Cons.IH [OF True] s by (simp add: Let_def add.assoc)
  next
    case False
    then have "MAX_TRACE_SOURCE_BYTES < saturating_add n (length v)"
      using saturating_add_le_iff [OF m, of n "length v"] by simp
    with False show ?thesis by (auto simp: Let_def)
  qed
qed auto

lemma trace_field_loop_iff:
  "n \<le> MAX_TRACE_SOURCE_BYTES \<Longrightarrow>
     trace_field_loop seen n fs = Ok m \<longleftrightarrow>
       trace_fields_ok fs \<and> list_all (\<lambda>f. fst f \<notin> set seen) fs \<and>
       m = n + field_bytes fs \<and> m \<le> MAX_TRACE_SOURCE_BYTES"
proof (induction fs arbitrary: n seen)
  case (Cons f fs)
  obtain name vs where f: "f = (name, vs)" by (cases f)
  show ?case
    using Cons.IH Cons.prems unfolding f
    by (auto simp: result_simps trace_value_loop_iff trace_fields_ok_def field_bytes_def
        list_all_iff add.assoc) fastforce+
qed (auto simp: trace_fields_ok_def field_bytes_def)

lemma is_ok_trace_record_loop:
  "n \<le> MAX_TRACE_SOURCE_BYTES \<Longrightarrow>
     is_ok (trace_record_loop seen n rs) \<longleftrightarrow>
       distinct (map tr_id rs) \<and> list_all (\<lambda>r. tr_id r \<notin> set seen) rs \<and>
       list_all (\<lambda>r. tr_id r \<noteq> [] \<and> length (tr_id r) \<le> MAX_RECORD_ID_BYTES \<and>
         length (tr_fields r) \<le> MAX_FIELDS \<and> trace_fields_ok (tr_fields r)) rs \<and>
       n + sum_list (map (field_bytes \<circ> tr_fields) rs) \<le> MAX_TRACE_SOURCE_BYTES"
proof (induction rs arbitrary: n seen)
  case (Cons r rs)
  then show ?case by (auto simp: result_simps trace_field_loop_iff not_less list_all_iff add.assoc)
      (metis image_eqI)+
qed simp

lemma is_ok_trace_admission [result_simps]:
  "is_ok (validate_trace_admission r rs) \<longleftrightarrow> trace_admissible r rs"
  by (auto simp: validate_trace_admission_def trace_admissible_def result_simps limit_defs
      trace_records_ok_def is_ok_trace_record_loop list_all_iff)

end
