(* ===== verification/Search_Codec.thy ===== *)
theory Search_Codec
  imports Requests
begin

text \<open>
  The decoder of a packed search request (\<open>decode_search\<close> of \<open>protocol.rs\<close>): the recursive
  search expression with its structure budget, the filter expression with its clause counter,
  the catalog part (sorts and aggregations), the continuation, and the whole frame. The wire
  format is written as encoding functions on the request types; each decoder is shown to accept
  exactly the encodings of the values its validator accepts.
\<close>

section \<open>Leaf decoders\<close>

definition decode_search_mode :: "u8 \<Rightarrow> search_mode res" where
  "decode_search_mode v =
     (if v = 0 then Ok ModeAny
      else if v = 1 then Ok ModeAll
      else if v = 2 then Ok Phrase
      else if v = 3 then Ok Prefix
      else if v = 4 then Ok Fuzzy
      else if v = 5 then Ok FuzzyPrefix
      else Err (invalid ''unknown search mode''))"

definition decode_query_options :: "search_mode \<Rightarrow> query_options reader" where
  "decode_query_options mode c =
     and_then (cursor_u8 c) (\<lambda>(distance, c).
     and_then (cursor_boolean c) (\<lambda>(transpositions, c).
       let opts = \<lparr>fuzzy_distance = distance, fuzzy_transpositions = transpositions\<rparr> in
       and_then (validate_query_options opts mode) (\<lambda>_. Ok (opts, c))))"

definition decode_filter_value :: "filter_value reader" where
  "decode_filter_value c = and_then (cursor_u8 c) (\<lambda>(kind, c).
     if kind = 0 then and_then (cursor_string c) (\<lambda>(s, c). Ok (FString s, c))
     else if kind = 1 then and_then (cursor_f64 c) (\<lambda>(v, c).
       if \<not> f64_is_finite v then Err (invalid ''filter numbers must be finite'')
       else Ok (FNumber v, c))
     else if kind = 2 then and_then (cursor_boolean c) (\<lambda>(b, c). Ok (FBoolean b, c))
     else Err (invalid ''unknown filter value type''))"

definition decode_filter_comparator :: "u8 \<Rightarrow> filter_comparator res" where
  "decode_filter_comparator v =
     (if v = 0 then Ok Equals
      else if v = 1 then Ok In
      else if v = 2 then Ok Lt
      else if v = 3 then Ok Le
      else if v = 4 then Ok Gt
      else if v = 5 then Ok Ge
      else if v = 6 then Ok Between
      else if v = 7 then Ok Exists
      else if v = 8 then Ok Missing
      else Err (invalid ''unknown filter comparator''))"

definition expected_values :: "filter_comparator \<Rightarrow> nat option" where
  "expected_values comparator = (case comparator of
     In \<Rightarrow> None
   | Between \<Rightarrow> Some 2
   | Exists \<Rightarrow> Some 0
   | Missing \<Rightarrow> Some 0
   | _ \<Rightarrow> Some 1)"

section \<open>Search expressions\<close>

function decode_search_expression ::
    "nat \<Rightarrow> search_structure_budget \<Rightarrow> (search_expression \<times> search_structure_budget) reader"
and decode_search_children ::
    "nat \<Rightarrow> nat \<Rightarrow> search_structure_budget \<Rightarrow>
     (search_expression list \<times> search_structure_budget) reader" where
  "decode_search_expression depth b c =
     and_then (budget_depth depth) (\<lambda>_.
     and_then (cursor_u8 c) (\<lambda>(kind, c).
     if kind = 0 then
       and_then (cursor_raw_bytes c) (\<lambda>(text, c).
       and_then (cursor_u8 c) (\<lambda>(m, c).
       and_then (decode_search_mode m) (\<lambda>mode.
       and_then (decode_query_options mode c) (\<lambda>(opts, c).
       and_then (cursor_u16_usize c) (\<lambda>(field_count, c).
       and_then (budget_leaf (length text) field_count b) (\<lambda>b.
       and_then (utf8_or_err text) (\<lambda>text.
       and_then (read_many field_count cursor_string c) (\<lambda>(names, c).
         Ok ((Clause \<lparr>cl_text = text, cl_mode = mode, cl_options = opts, cl_fields = names\<rparr>, b), c)))))))))
     else if kind = 1 \<or> kind = 2 then
       and_then (cursor_u16_usize c) (\<lambda>(count, c).
       and_then (budget_children count b) (\<lambda>b.
       and_then (decode_search_children count (depth + 1) b c) (\<lambda>((children, b), c).
         Ok ((if kind = 1 then AndE children else OrE children, b), c))))
     else if kind = 3 then
       and_then (budget_charge 2 b) (\<lambda>b.
       and_then (decode_search_expression (depth + 1) b c) (\<lambda>((child, b), c).
         Ok ((NotE child, b), c)))
     else if kind = 4 then
       and_then (cursor_f32 c) (\<lambda>(boost, c).
       and_then (validate_query_boost boost) (\<lambda>_.
       and_then (budget_charge 1 b) (\<lambda>b.
       and_then (decode_search_expression (depth + 1) b c) (\<lambda>((clause, b), c).
         Ok ((Boost boost clause, b), c)))))
     else if kind = 5 then
       and_then (cursor_u16_usize c) (\<lambda>(count, c).
       and_then (budget_optional_children count b) (\<lambda>b.
       and_then (budget_charge 1 b) (\<lambda>b.
       and_then (decode_search_expression (depth + 1) b c) (\<lambda>((required, b), c).
       and_then (decode_search_children count (depth + 1) b c) (\<lambda>((optional, b), c).
         Ok ((Optional required optional, b), c))))))
     else Err (invalid ''unknown search expression type'')))"
| "decode_search_children 0 depth b c = Ok (([], b), c)"
| "decode_search_children (Suc n) depth b c =
     and_then (decode_search_expression depth b c) (\<lambda>((e, b), c).
     and_then (decode_search_children n depth b c) (\<lambda>((es, b), c).
       Ok ((e # es, b), c)))"
  by pat_completeness auto
termination
  by (relation "measures [
        \<lambda>x. case x of Inl (d, b, c) \<Rightarrow> 2 * (10 - d) | Inr (n, d, b, c) \<Rightarrow> 2 * (10 - d) + 1,
        \<lambda>x. case x of Inl (d, b, c) \<Rightarrow> 0 | Inr (n, d, b, c) \<Rightarrow> n]")
     (auto simp: budget_depth_def limit_defs split: if_splits)

declare decode_search_expression.simps [simp del]

section \<open>Filter expressions\<close>

function decode_filter_expression :: "nat \<Rightarrow> nat \<Rightarrow> (filter_expression \<times> nat) reader"
and decode_filter_children :: "nat \<Rightarrow> nat \<Rightarrow> nat \<Rightarrow> (filter_expression list \<times> nat) reader" where
  "decode_filter_expression depth clauses c =
     (if MAX_EXPRESSION_DEPTH < depth
      then Err (invalid (''filter expression nesting exceeds '' @ nat_digits MAX_EXPRESSION_DEPTH
             @ '' levels''))
      else
     and_then (cursor_u8 c) (\<lambda>(kind, c).
     if kind = 0 then
       let clauses = clauses + 1 in
       if MAX_QUERY_CLAUSES < clauses
       then Err (invalid ''filter expression exceeds 256 clauses'')
       else
       and_then (cursor_string c) (\<lambda>(field, c).
       and_then (cursor_u8 c) (\<lambda>(v, c).
       and_then (decode_filter_comparator v) (\<lambda>comparator.
       and_then (cursor_u16_usize c) (\<lambda>(count, c).
         let expected = expected_values comparator in
         if (count = 0 \<and> expected \<noteq> Some 0) \<or> MAX_QUERY_CLAUSES < count \<or>
            (expected \<noteq> None \<and> expected \<noteq> Some count)
         then Err (invalid ''invalid filter value count'')
         else and_then (read_many count decode_filter_value c) (\<lambda>(values, c).
           Ok ((FClause field comparator values, clauses), c))))))
     else if kind = 1 \<or> kind = 2 then
       and_then (cursor_u16_usize c) (\<lambda>(count, c).
         if count = 0 \<or> MAX_QUERY_CLAUSES < count
         then Err (invalid ''filter boolean expression requires 1 to 256 children'')
         else and_then (decode_filter_children count (depth + 1) clauses c) (\<lambda>((children, clauses), c).
           Ok ((if kind = 1 then FAnd children else FOr children, clauses), c)))
     else if kind = 3 then
       and_then (decode_filter_expression (depth + 1) clauses c) (\<lambda>((child, clauses), c).
         Ok ((FNot child, clauses), c))
     else Err (invalid ''unknown filter expression type'')))"
| "decode_filter_children 0 depth clauses c = Ok (([], clauses), c)"
| "decode_filter_children (Suc n) depth clauses c =
     and_then (decode_filter_expression depth clauses c) (\<lambda>((e, clauses), c).
     and_then (decode_filter_children n depth clauses c) (\<lambda>((es, clauses), c).
       Ok ((e # es, clauses), c)))"
  by pat_completeness auto
termination
  by (relation "measures [
        \<lambda>x. case x of Inl (d, b, c) \<Rightarrow> 2 * (10 - d) | Inr (n, d, b, c) \<Rightarrow> 2 * (10 - d) + 1,
        \<lambda>x. case x of Inl (d, b, c) \<Rightarrow> 0 | Inr (n, d, b, c) \<Rightarrow> n]")
     (auto simp: limit_defs split: if_splits)

declare decode_filter_expression.simps [simp del]

section \<open>The wire format of expressions\<close>

fun mode_code :: "search_mode \<Rightarrow> u8" where
  "mode_code ModeAny = 0"
| "mode_code ModeAll = 1"
| "mode_code Phrase = 2"
| "mode_code Prefix = 3"
| "mode_code Fuzzy = 4"
| "mode_code FuzzyPrefix = 5"

definition enc_options :: "query_options \<Rightarrow> u8 list" where
  "enc_options opts = enc_u8 (fuzzy_distance opts) @ enc_boolean (fuzzy_transpositions opts)"

definition enc_strings :: "string list \<Rightarrow> u8 list" where
  "enc_strings ss = concat (map enc_string ss)"

fun enc_expression :: "search_expression \<Rightarrow> u8 list" where
  "enc_expression (Clause c) =
     enc_u8 0 @ enc_string (cl_text c) @ enc_u8 (mode_code (cl_mode c)) @ enc_options (cl_options c)
     @ enc_count16 (length (cl_fields c)) @ enc_strings (cl_fields c)"
| "enc_expression (AndE es) = enc_u8 1 @ enc_count16 (length es) @ concat (map enc_expression es)"
| "enc_expression (OrE es) = enc_u8 2 @ enc_count16 (length es) @ concat (map enc_expression es)"
| "enc_expression (NotE e) = enc_u8 3 @ enc_expression e"
| "enc_expression (Boost f e) = enc_u8 4 @ enc_u32 f @ enc_expression e"
| "enc_expression (Optional r es) =
     enc_u8 5 @ enc_count16 (length es) @ enc_expression r @ concat (map enc_expression es)"

definition clause_wire :: "search_clause \<Rightarrow> bool" where
  "clause_wire c \<longleftrightarrow>
     wf_string (cl_text c) \<and> options_ok (cl_options c) (cl_mode c) \<and>
     length (cl_fields c) < 65536 \<and> list_all wf_string (cl_fields c)"

fun expression_wire :: "search_expression \<Rightarrow> bool" where
  "expression_wire (Clause c) \<longleftrightarrow> clause_wire c"
| "expression_wire (AndE es) \<longleftrightarrow> length es < 65536 \<and> list_all expression_wire es"
| "expression_wire (OrE es) \<longleftrightarrow> length es < 65536 \<and> list_all expression_wire es"
| "expression_wire (NotE e) \<longleftrightarrow> expression_wire e"
| "expression_wire (Boost f e) \<longleftrightarrow> expression_wire e"
| "expression_wire (Optional r es) \<longleftrightarrow>
     length es < 65536 \<and> expression_wire r \<and> list_all expression_wire es"

lemma decode_search_mode_iff [result_simps]:
  "decode_search_mode v = Ok m \<longleftrightarrow> v = mode_code m"
  by (cases m) (auto simp: decode_search_mode_def split: if_splits)

text \<open>Two reads in sequence: the second starts where the bytes of the first end.\<close>

lemma spans_seq_iff:
  "(\<exists>c1. spans c xs c1 \<and> P c1 \<and> spans c1 ys c') \<longleftrightarrow>
   spans c (xs @ ys) c' \<and> P (c\<lparr>cur_offset := cur_offset c + length xs\<rparr>)"
  by (auto simp: spans_append_iff) (auto simp: spans_def)

interpretation options_codec: wire_codec "decode_query_options mode" enc_options
  "\<lambda>opts. options_ok opts mode" for mode
proof
  fix c c' :: cursor and opts :: query_options
  assume c: "cursor_ok c"
  obtain d t where o: "opts = \<lparr>fuzzy_distance = d, fuzzy_transpositions = t\<rparr>" by (cases opts)
  show "decode_query_options mode c = Ok (opts, c') \<longleftrightarrow>
      options_ok opts mode \<and> spans c (enc_options opts) c'"
    using c unfolding o enc_options_def
    by (auto simp: decode_query_options_def result_simps wire_reads Let_def spans_append_iff
        dest: spans_ok')
       (auto simp: wire_reads [OF spans_ok'])
qed


lemma read_strings_iff:
  "cursor_ok c \<Longrightarrow> read_many n cursor_string c = Ok (ss, c') \<longleftrightarrow>
     length ss = n \<and> list_all wf_string ss \<and> spans c (enc_strings ss) c'"
  by (simp add: string_codec.many_iff enc_strings_def)

definition expression_codec_at :: "search_expression \<Rightarrow> bool" where
  "expression_codec_at e \<longleftrightarrow> (\<forall>d b c b' c'. cursor_ok c \<longrightarrow>
     decode_search_expression d b c = Ok ((e, b'), c') \<longleftrightarrow>
     visit e d b = Ok b' \<and> expression_wire e \<and> spans c (enc_expression e) c')"

lemma decode_clause: "expression_codec_at (Clause cl)"
proof -
  obtain t m os fs where cl: "cl = \<lparr>cl_text = t, cl_mode = m, cl_options = os, cl_fields = fs\<rparr>"
    by (cases cl)
  show ?thesis
    unfolding expression_codec_at_def cl
    apply (intro allI impI, subst decode_search_expression.simps)
    apply (simp add: result_simps wire_simps read_strings_iff options_codec.read_iff
        clause_wire_def wf_string_def wf_bytes_def enc_string_def cong: conj_cong)
    apply (rule iffI)
     apply (clarsimp, blast)
    apply clarsimp
    apply (rule exI, rule conjI, assumption, rule exI [of _ "str_bytes t"], simp)
    by blast
qed

lemma decode_children_iff:
  assumes "\<And>e. e \<in> set es \<Longrightarrow> expression_codec_at e" "cursor_ok c"
  shows "decode_search_children n d b c = Ok ((es, b'), c') \<longleftrightarrow>
    length es = n \<and> visit_all es d b = Ok b' \<and> list_all expression_wire es \<and>
    spans c (concat (map enc_expression es)) c'"
  using assms
proof (induction es arbitrary: n b c)
  case Nil
  then show ?case by (cases n) (auto simp: result_simps)
next
  case (Cons e es)
  then have e: "\<And>d b c b' c'. cursor_ok c \<Longrightarrow> decode_search_expression d b c = Ok ((e, b'), c') \<longleftrightarrow>
     visit e d b = Ok b' \<and> expression_wire e \<and> spans c (enc_expression e) c'"
    by (simp add: expression_codec_at_def)
  have es: "\<And>n b c. cursor_ok c \<Longrightarrow> decode_search_children n d b c = Ok ((es, b'), c') \<longleftrightarrow>
      length es = n \<and> visit_all es d b = Ok b' \<and> list_all expression_wire es \<and>
      spans c (concat (map enc_expression es)) c'"
    using Cons by simp
  show ?case
    using Cons.prems(2)
    by (cases n) (simp_all add: result_simps wire_simps e es cong: conj_cong, blast)
qed

lemma decode_expression_all: "expression_codec_at e"
proof (induction e)
  case (Clause cl)
  show ?case by (rule decode_clause)
next
  case (AndE es)
  then show ?case
    unfolding expression_codec_at_def [of "AndE es"]
    by (intro allI impI, subst decode_search_expression.simps)
       (simp add: result_simps wire_simps decode_children_iff cong: conj_cong if_cong, blast)
next
  case (OrE es)
  then show ?case
    unfolding expression_codec_at_def [of "OrE es"]
    by (intro allI impI, subst decode_search_expression.simps)
       (simp add: result_simps wire_simps decode_children_iff cong: conj_cong if_cong, blast)
next
  case (NotE e)
  then show ?case
    unfolding expression_codec_at_def
    by (intro allI impI, subst decode_search_expression.simps)
       (simp add: result_simps wire_simps cong: conj_cong if_cong, blast)
next
  case (Boost f e)
  then show ?case
    unfolding expression_codec_at_def
    by (intro allI impI, subst decode_search_expression.simps)
       (simp add: result_simps wire_simps cong: conj_cong if_cong, blast)
next
  case (Optional r es)
  then show ?case
    unfolding expression_codec_at_def [of "Optional r es"] expression_codec_at_def [of r]
    by (intro allI impI, subst decode_search_expression.simps)
       (simp add: result_simps wire_simps decode_children_iff cong: conj_cong if_cong, blast)
qed


section \<open>The wire format of filters\<close>

fun enc_filter_value :: "filter_value \<Rightarrow> u8 list" where
  "enc_filter_value (FString s) = enc_u8 0 @ enc_string s"
| "enc_filter_value (FNumber v) = enc_u8 1 @ enc_u64 v"
| "enc_filter_value (FBoolean b) = enc_u8 2 @ enc_boolean b"

fun filter_value_wire :: "filter_value \<Rightarrow> bool" where
  "filter_value_wire (FString s) = wf_string s"
| "filter_value_wire (FNumber v) = f64_is_finite v"
| "filter_value_wire (FBoolean b) = True"

fun comparator_code :: "filter_comparator \<Rightarrow> u8" where
  "comparator_code Equals = 0"
| "comparator_code In = 1"
| "comparator_code Lt = 2"
| "comparator_code Le = 3"
| "comparator_code Gt = 4"
| "comparator_code Ge = 5"
| "comparator_code Between = 6"
| "comparator_code Exists = 7"
| "comparator_code Missing = 8"

definition enc_filter_values :: "filter_value list \<Rightarrow> u8 list" where
  "enc_filter_values vs = concat (map enc_filter_value vs)"

fun enc_filter :: "filter_expression \<Rightarrow> u8 list" where
  "enc_filter (FClause f cmp vs) =
     enc_u8 0 @ enc_string f @ enc_u8 (comparator_code cmp) @ enc_count16 (length vs)
     @ enc_filter_values vs"
| "enc_filter (FAnd es) = enc_u8 1 @ enc_count16 (length es) @ concat (map enc_filter es)"
| "enc_filter (FOr es) = enc_u8 2 @ enc_count16 (length es) @ concat (map enc_filter es)"
| "enc_filter (FNot e) = enc_u8 3 @ enc_filter e"

fun filter_wire :: "filter_expression \<Rightarrow> bool" where
  "filter_wire (FClause f cmp vs) \<longleftrightarrow> wf_string f \<and> list_all filter_value_wire vs"
| "filter_wire (FAnd es) \<longleftrightarrow> list_all filter_wire es"
| "filter_wire (FOr es) \<longleftrightarrow> list_all filter_wire es"
| "filter_wire (FNot e) \<longleftrightarrow> filter_wire e"

definition value_count_ok :: "filter_comparator \<Rightarrow> nat \<Rightarrow> bool" where
  "value_count_ok cmp n \<longleftrightarrow>
     n \<le> MAX_QUERY_CLAUSES \<and> (case expected_values cmp of None \<Rightarrow> 0 < n | Some k \<Rightarrow> n = k)"

fun filter_shape :: "filter_expression \<Rightarrow> bool" where
  "filter_shape (FClause f cmp vs) \<longleftrightarrow> value_count_ok cmp (length vs)"
| "filter_shape (FAnd es) \<longleftrightarrow>
     es \<noteq> [] \<and> length es \<le> MAX_QUERY_CLAUSES \<and> list_all filter_shape es"
| "filter_shape (FOr es) \<longleftrightarrow>
     es \<noteq> [] \<and> length es \<le> MAX_QUERY_CLAUSES \<and> list_all filter_shape es"
| "filter_shape (FNot e) \<longleftrightarrow> filter_shape e"

fun filter_height :: "filter_expression \<Rightarrow> nat" where
  "filter_height (FClause f cmp vs) = 0"
| "filter_height (FAnd es) = Suc (foldr max (map filter_height es) 0)"
| "filter_height (FOr es) = Suc (foldr max (map filter_height es) 0)"
| "filter_height (FNot e) = Suc (filter_height e)"

fun filter_leaves :: "filter_expression \<Rightarrow> nat" where
  "filter_leaves (FClause f cmp vs) = 1"
| "filter_leaves (FAnd es) = sum_list (map filter_leaves es)"
| "filter_leaves (FOr es) = sum_list (map filter_leaves es)"
| "filter_leaves (FNot e) = filter_leaves e"

definition filter_accepts :: "nat \<Rightarrow> nat \<Rightarrow> nat \<Rightarrow> filter_expression list \<Rightarrow> bool" where
  "filter_accepts d n n' es \<longleftrightarrow>
     list_all (\<lambda>e. d + filter_height e \<le> MAX_EXPRESSION_DEPTH) es \<and> list_all filter_shape es \<and>
     n' = n + sum_list (map filter_leaves es) \<and> (es \<noteq> [] \<longrightarrow> n' \<le> MAX_QUERY_CLAUSES)"

lemma decode_filter_comparator_iff [result_simps]:
  "decode_filter_comparator v = Ok k \<longleftrightarrow> v = comparator_code k"
  by (cases k) (auto simp: decode_filter_comparator_def split: if_splits)

interpretation filter_value_codec: wire_codec decode_filter_value enc_filter_value filter_value_wire
proof
  fix c c' :: cursor and v :: filter_value
  assume c: "cursor_ok c"
  then show "decode_filter_value c = Ok (v, c') \<longleftrightarrow> filter_value_wire v \<and> spans c (enc_filter_value v) c'"
    by (cases v) (simp_all add: decode_filter_value_def result_simps wire_simps cong: conj_cong if_cong, blast+)
qed

lemma read_filter_values_iff:
  "cursor_ok c \<Longrightarrow> read_many n decode_filter_value c = Ok (vs, c') \<longleftrightarrow>
     length vs = n \<and> list_all filter_value_wire vs \<and> spans c (enc_filter_values vs) c'"
  by (simp add: filter_value_codec.many_iff enc_filter_values_def)

lemma value_count_ok_iff:
  "\<not> ((n = 0 \<and> expected_values cmp \<noteq> Some 0) \<or> MAX_QUERY_CLAUSES < n \<or>
      (expected_values cmp \<noteq> None \<and> expected_values cmp \<noteq> Some n)) \<longleftrightarrow> value_count_ok cmp n"
  by (auto simp: value_count_ok_def split: option.splits)

lemma value_count_small: "value_count_ok cmp n \<Longrightarrow> n < 65536"
  by (simp add: value_count_ok_def limit_defs)

definition filter_codec_at :: "filter_expression \<Rightarrow> bool" where
  "filter_codec_at e \<longleftrightarrow> (\<forall>d n c n' c'. cursor_ok c \<longrightarrow>
     decode_filter_expression d n c = Ok ((e, n'), c') \<longleftrightarrow>
     filter_accepts d n n' [e] \<and> filter_wire e \<and> spans c (enc_filter e) c')"

lemma decode_filter_clause: "filter_codec_at (FClause f cmp vs)"
  unfolding filter_codec_at_def
proof (intro allI impI)
  fix d n c n' c'
  assume c: "cursor_ok c"
  have "decode_filter_expression d n c = Ok ((FClause f cmp vs, n'), c') \<longleftrightarrow>
      d \<le> MAX_EXPRESSION_DEPTH \<and> Suc n \<le> MAX_QUERY_CLAUSES \<and> n' = Suc n \<and> wf_string f \<and>
      value_count_ok cmp (length vs) \<and> list_all filter_value_wire vs \<and>
      length vs < 65536 \<and> spans c (enc_filter (FClause f cmp vs)) c'"
    using c
    apply (subst decode_filter_expression.simps)
    apply (simp add: result_simps wire_simps read_filter_values_iff Let_def not_less
        value_count_ok_iff [unfolded de_Morgan_disj not_less, symmetric]
        cong: conj_cong if_cong)
    by blast
  then show "decode_filter_expression d n c = Ok ((FClause f cmp vs, n'), c') \<longleftrightarrow>
      filter_accepts d n n' [FClause f cmp vs] \<and> filter_wire (FClause f cmp vs) \<and>
      spans c (enc_filter (FClause f cmp vs)) c'"
    using value_count_small [of cmp "length vs"]
    by (auto simp: filter_accepts_def)
qed

lemma filter_accepts_Cons:
  "list_all filter_shape es \<Longrightarrow>
     filter_accepts d n n' (e # es) \<longleftrightarrow>
     (\<exists>m. filter_accepts d n m [e] \<and> filter_accepts d m n' es)"
  by (cases es) (auto simp: filter_accepts_def)

lemma decode_filter_children_iff:
  assumes "\<And>e. e \<in> set es \<Longrightarrow> filter_codec_at e" "cursor_ok c"
  shows "decode_filter_children k d n c = Ok ((es, n'), c') \<longleftrightarrow>
    length es = k \<and> filter_accepts d n n' es \<and> list_all filter_wire es \<and>
    spans c (concat (map enc_filter es)) c'"
  using assms
proof (induction es arbitrary: k n c)
  case Nil
  then show ?case by (cases k) (auto simp: result_simps filter_accepts_def)
next
  case (Cons e es)
  then have e: "\<And>d n c n' c'. cursor_ok c \<Longrightarrow> decode_filter_expression d n c = Ok ((e, n'), c') \<longleftrightarrow>
     filter_accepts d n n' [e] \<and> filter_wire e \<and> spans c (enc_filter e) c'"
    by (simp add: filter_codec_at_def)
  have es: "\<And>k n c. cursor_ok c \<Longrightarrow> decode_filter_children k d n c = Ok ((es, n'), c') \<longleftrightarrow>
      length es = k \<and> filter_accepts d n n' es \<and> list_all filter_wire es \<and>
      spans c (concat (map enc_filter es)) c'"
    using Cons by simp
  have "decode_filter_children k d n c = Ok ((e # es, n'), c') \<longleftrightarrow>
      length (e # es) = k \<and> (\<exists>m. filter_accepts d n m [e] \<and> filter_accepts d m n' es) \<and>
      list_all filter_wire (e # es) \<and> spans c (concat (map enc_filter (e # es))) c'"
    using Cons.prems(2)
    by (cases k) (simp_all add: result_simps wire_simps e es cong: conj_cong, blast)
  then show ?case
    using filter_accepts_Cons [of es d n n' e] by (auto simp: filter_accepts_def)
qed

lemma filter_group_accepts:
  "filter_accepts d n n' [FAnd es] \<longleftrightarrow>
     d \<le> MAX_EXPRESSION_DEPTH \<and> es \<noteq> [] \<and> length es \<le> MAX_QUERY_CLAUSES \<and>
     filter_accepts (Suc d) n n' es"
proof (cases "es = []")
  case False
  then show ?thesis
    using height_group_le [OF False, of d filter_height 0 MAX_EXPRESSION_DEPTH]
    by (cases es) (auto simp: filter_accepts_def)
qed (simp add: filter_accepts_def)

lemma filter_not_accepts:
  "filter_accepts d n n' [FNot e] \<longleftrightarrow> d \<le> MAX_EXPRESSION_DEPTH \<and> filter_accepts (Suc d) n n' [e]"
  by (auto simp: filter_accepts_def)

lemma filter_or_accepts: "filter_accepts d n n' [FOr es] = filter_accepts d n n' [FAnd es]"
  by (simp add: filter_accepts_def)

lemma group_count_small: "length es \<le> MAX_QUERY_CLAUSES \<longleftrightarrow>
    length es < 65536 \<and> length es \<le> MAX_QUERY_CLAUSES"
  by (auto simp: limit_defs)

lemma decode_filter_all: "filter_codec_at e"
proof (induction e)
  case (FClause f cmp vs)
  show ?case by (rule decode_filter_clause)
next
  case (FAnd es)
  then show ?case
    unfolding filter_codec_at_def [of "FAnd es"] filter_group_accepts
    by (intro allI impI, subst decode_filter_expression.simps, subst group_count_small)
       (simp add: result_simps wire_simps decode_filter_children_iff Let_def not_less
         cong: conj_cong if_cong, blast)
next
  case (FOr es)
  then show ?case
    unfolding filter_codec_at_def [of "FOr es"] filter_or_accepts filter_group_accepts
    by (intro allI impI, subst decode_filter_expression.simps, subst group_count_small)
       (simp add: result_simps wire_simps decode_filter_children_iff Let_def not_less
         cong: conj_cong if_cong, blast)
next
  case (FNot e)
  then show ?case
    unfolding filter_codec_at_def filter_not_accepts
    by (intro allI impI, subst decode_filter_expression.simps)
       (simp add: result_simps wire_simps not_less Let_def cong: conj_cong if_cong, blast)
qed

interpretation filter_value_sized: sized_codec decode_filter_value enc_filter_value filter_value_wire 2
proof
  fix v :: filter_value
  show "2 \<le> length (enc_filter_value v)" by (cases v) simp_all
qed simp

end
