(* ===== verification/Search_Frame.thy ===== *)
theory Search_Frame
  imports Search_Codec
begin

text \<open>
  The rest of the search frame of \<^verbatim>\<open>src/src/protocol.rs\<close>: the sort and aggregation
  section, candidate identifiers, the filter, the page window and the continuation of a
  traversal, and \<open>decode_search\<close> itself.  The wire format (\<open>enc_...\<close>) is stated beside it
  and the decoder is shown to accept exactly the well-formed encodings of admissible requests.
\<close>

section \<open>Catalog requests\<close>

definition catalog_count :: "nat \<Rightarrow> nat reader" where
  "catalog_count minimum_bytes c = and_then (cursor_u32_usize c) (\<lambda>(count, c).
     if cursor_remaining c div minimum_bytes < count
     then Err (invalid ''catalog count exceeds remaining request bytes'')
     else Ok (count, c))"

definition decode_sort :: "sort_request reader" where
  "decode_sort c =
     and_then (cursor_string c) (\<lambda>(field, c).
     and_then (cursor_u8 c) (\<lambda>(d, c).
     and_then (if d = 0 then Ok Asc else if d = 1 then Ok Desc
               else Err (invalid ''unknown sort direction'')) (\<lambda>direction.
     and_then (cursor_u8 c) (\<lambda>(m, c).
     and_then (if m = 0 then Ok First else if m = 1 then Ok Last
               else Err (invalid ''unknown missing sort order'')) (\<lambda>missing.
       Ok (\<lparr>sort_field = field, sort_dir = direction, sort_missing = missing\<rparr>, c))))))"

definition decode_optional_f64 :: "f64 option reader" where
  "decode_optional_f64 c = and_then (cursor_boolean c) (\<lambda>(present, c).
     if present then and_then (cursor_f64 c) (\<lambda>(v, c). Ok (Some v, c)) else Ok (None, c))"

definition decode_range :: "(f64 option \<times> f64 option) reader" where
  "decode_range c =
     and_then (decode_optional_f64 c) (\<lambda>(from, c).
     and_then (decode_optional_f64 c) (\<lambda>(to, c). Ok ((from, to), c)))"

definition decode_aggregation_kind :: "aggregation_kind reader" where
  "decode_aggregation_kind c = and_then (cursor_u8 c) (\<lambda>(kind, c).
     if kind = 0 then and_then (cursor_u32 c) (\<lambda>(size, c). Ok (Terms size, c))
     else if kind = 1 then Ok (Stats, c)
     else if kind = 2 then and_then (cursor_f64 c) (\<lambda>(interval, c). Ok (Histogram interval, c))
     else if kind = 3 then
       and_then (catalog_count 2 c) (\<lambda>(count, c).
         if count = 0 then Err (invalid ''range aggregation requires ranges'')
         else and_then (read_many count decode_range c) (\<lambda>(ranges, c). Ok (Range ranges, c)))
     else Err (invalid ''unknown aggregation kind''))"

function decode_aggregations :: "nat \<Rightarrow> aggregation_request list reader"
and decode_aggregation_loop :: "nat \<Rightarrow> nat \<Rightarrow> aggregation_request list reader" where
  "decode_aggregations depth c = and_then (catalog_count 13 c) (\<lambda>(count, c).
     if 0 < count \<and> MAX_AGGREGATION_DEPTH < depth
     then Err (invalid ''aggregation nesting exceeds its depth limit'')
     else decode_aggregation_loop count depth c)"
| "decode_aggregation_loop 0 depth c = Ok ([], c)"
| "decode_aggregation_loop (Suc n) depth c =
     and_then (cursor_string c) (\<lambda>(name, c).
     and_then (cursor_string c) (\<lambda>(field, c).
     and_then (decode_aggregation_kind c) (\<lambda>(kind, c).
     and_then (decode_aggregations (depth + 1) c) (\<lambda>(children, c).
       if kind = Stats \<and> children \<noteq> []
       then Err (invalid ''stats aggregations cannot have children'')
       else and_then (decode_aggregation_loop n depth c) (\<lambda>(results, c).
         Ok (Aggregation name field kind children # results, c))))))"
  by pat_completeness auto
termination
  by (relation "measures [
        \<lambda>x. case x of
            Inl (d, c) \<Rightarrow> (if d \<le> 32 then 2 * (33 - d) + 2 else 1)
          | Inr (n, d, c) \<Rightarrow> (if n = 0 then 0 else if d \<le> 32 then 2 * (33 - d) + 1 else 2),
        \<lambda>x. case x of Inl (d, c) \<Rightarrow> 0 | Inr (n, d, c) \<Rightarrow> n]")
     (auto simp: limit_defs split: if_splits)

declare decode_aggregations.simps [simp del]

definition decode_sorts :: "sort_request list option reader" where
  "decode_sorts c =
     and_then (catalog_count 6 c) (\<lambda>(count, c).
     and_then (read_many count decode_sort c) (\<lambda>(sorts, c).
       Ok (if sorts = [] then None else Some sorts, c)))"

definition decode_catalog :: "(sort_request list option \<times> aggregation_request list) reader" where
  "decode_catalog c =
     and_then (decode_sorts c) (\<lambda>(sorts, c).
     and_then (decode_aggregations 1 c) (\<lambda>(aggregations, c). Ok ((sorts, aggregations), c)))"

section \<open>Continuations and the search frame\<close>

definition decode_boundary :: "search_boundary reader" where
  "decode_boundary c =
     and_then (cursor_string c) (\<lambda>(snapshot, c).
     and_then (cursor_f32 c) (\<lambda>(score, c).
     and_then (cursor_record_id c) (\<lambda>(rid, c).
       if length snapshot \<noteq> 64 \<or> \<not> list_all lower_hex_byte snapshot \<or> \<not> f32_is_finite score
       then Err (invalid ''invalid search continuation boundary'')
       else Ok (\<lparr>bnd_snapshot = snapshot, bnd_score = score, bnd_id = rid\<rparr>, c))))"

definition decode_search_traversal :: "(bool \<times> search_boundary option) reader" where
  "decode_search_traversal c =
     and_then (if 4 < cursor_remaining c then cursor_boolean c else Ok (False, c)) (\<lambda>(traversal, c).
     and_then (if traversal then cursor_boolean c else Ok (False, c)) (\<lambda>(has_after, c).
     if has_after
     then and_then (decode_boundary c) (\<lambda>(after, c). Ok ((traversal, Some after), c))
     else Ok ((traversal, None), c)))"

fun read_candidates :: "nat \<Rightarrow> nat \<Rightarrow> string list reader" where
  "read_candidates 0 candidate_bytes c = Ok ([], c)"
| "read_candidates (Suc n) candidate_bytes c =
     and_then (cursor_record_id c) (\<lambda>(rid, c).
     and_then (ok_or (invalid ''candidate ID byte count overflow'')
         (checked_add candidate_bytes (length rid))) (\<lambda>candidate_bytes.
       if MAX_CANDIDATE_BYTES < candidate_bytes
       then Err (invalid ''candidate IDs exceed 1048576 UTF-8 bytes'')
       else and_then (read_candidates n candidate_bytes c) (\<lambda>(ids, c). Ok (rid # ids, c))))"

definition decode_candidates :: "string list option reader" where
  "decode_candidates c =
     and_then (cursor_boolean c) (\<lambda>(has_candidates, c).
     and_then (if has_candidates then cursor_u16_usize c else Ok (0, c)) (\<lambda>(candidate_count, c).
     if MAX_CANDIDATE_IDS < candidate_count
     then Err (invalid ''candidate ID count exceeds 1024'')
     else if cursor_remaining c div 4 < candidate_count
     then Err (invalid ''candidate ID count exceeds the packed request length'')
     else and_then (read_candidates candidate_count 0 c) (\<lambda>(ids, c).
       Ok (if has_candidates then Some ids else None, c))))"

definition decode_filter :: "filter_expression option reader" where
  "decode_filter c = and_then (cursor_boolean c) (\<lambda>(present, c).
     if present
     then and_then (decode_filter_expression 0 0 c) (\<lambda>((e, clauses), c). Ok (Some e, c))
     else Ok (None, c))"

definition decode_search :: "u8 list \<Rightarrow> search_request res" where
  "decode_search bytes =
     and_then (cursor_new bytes ''FTSQ'') (\<lambda>c.
     and_then (budget_new MAX_CONFIGURED_QUERY_CLAUSES MAX_FIELDS) (\<lambda>b.
     and_then (decode_search_expression 0 b c) (\<lambda>((expression, b), c).
     and_then (decode_candidates c) (\<lambda>(candidate_ids, c).
     and_then (decode_filter c) (\<lambda>(filter, c).
     and_then (decode_catalog c) (\<lambda>((sort, aggregations), c).
     and_then (cursor_u32_usize c) (\<lambda>(offset, c).
     and_then (cursor_u32_usize c) (\<lambda>(limit, c).
     and_then (cursor_boolean c) (\<lambda>(exact_total, c).
     and_then (decode_search_traversal c) (\<lambda>((traversal, after), c).
     and_then (cursor_u32_usize c) (\<lambda>(budget_milliseconds, c).
     and_then (cursor_finish c) (\<lambda>_.
     if budget_milliseconds = 0 \<or> MAX_SEARCH_BUDGET_MILLISECONDS < budget_milliseconds
     then Err (invalid (''search budget must be between 1 and ''
            @ nat_digits MAX_SEARCH_BUDGET_MILLISECONDS @ '' milliseconds''))
     else
       let request = \<lparr>rq_sort = sort, rq_aggregations = aggregations, rq_expression = expression,
          rq_candidate_ids = candidate_ids, rq_filter = filter, rq_offset = offset,
          rq_limit = limit, rq_exact_total = exact_total,
          rq_budget_milliseconds = budget_milliseconds, rq_traversal = traversal,
          rq_after = after\<rparr> in
       and_then (validate_search_admission request) (\<lambda>_. Ok request)))))))))))))"

section \<open>The wire format of the search frame\<close>

definition enc_sort :: "sort_request \<Rightarrow> u8 list" where
  "enc_sort s = enc_string (sort_field s) @ enc_u8 (case sort_dir s of Asc \<Rightarrow> 0 | Desc \<Rightarrow> 1)
     @ enc_u8 (case sort_missing s of First \<Rightarrow> 0 | Last \<Rightarrow> 1)"

definition enc_optional_f64 :: "f64 option \<Rightarrow> u8 list" where
  "enc_optional_f64 v = (case v of None \<Rightarrow> enc_boolean False | Some x \<Rightarrow> enc_boolean True @ enc_u64 x)"

definition enc_range :: "f64 option \<times> f64 option \<Rightarrow> u8 list" where
  "enc_range r = enc_optional_f64 (fst r) @ enc_optional_f64 (snd r)"

fun enc_kind :: "aggregation_kind \<Rightarrow> u8 list" where
  "enc_kind (Terms n) = enc_u8 0 @ enc_u32 n"
| "enc_kind Stats = enc_u8 1"
| "enc_kind (Histogram v) = enc_u8 2 @ enc_u64 v"
| "enc_kind (Range rs) = enc_u8 3 @ enc_count32 (length rs) @ concat (map enc_range rs)"

fun kind_wire :: "aggregation_kind \<Rightarrow> bool" where
  "kind_wire (Range rs) \<longleftrightarrow> rs \<noteq> [] \<and> length rs < 4294967296"
| "kind_wire _ = True"

fun enc_aggregation :: "aggregation_request \<Rightarrow> u8 list" where
  "enc_aggregation (Aggregation n f kd ch) =
     enc_string n @ enc_string f @ enc_kind kd @ enc_count32 (length ch)
     @ concat (map enc_aggregation ch)"

definition enc_aggregations :: "aggregation_request list \<Rightarrow> u8 list" where
  "enc_aggregations as = enc_count32 (length as) @ concat (map enc_aggregation as)"

text \<open>An aggregation at nesting level \<open>d\<close>: its children sit one level deeper.\<close>

fun aggregation_wire :: "nat \<Rightarrow> aggregation_request \<Rightarrow> bool" where
  "aggregation_wire d (Aggregation n f kd ch) \<longleftrightarrow>
     wf_string n \<and> wf_string f \<and> kind_wire kd \<and> length ch < 4294967296 \<and>
     (ch \<noteq> [] \<longrightarrow> Suc d \<le> MAX_AGGREGATION_DEPTH \<and> kd \<noteq> Stats) \<and>
     list_all (aggregation_wire (Suc d)) ch"

definition aggregations_wire :: "nat \<Rightarrow> aggregation_request list \<Rightarrow> bool" where
  "aggregations_wire d as \<longleftrightarrow>
     length as < 4294967296 \<and> (as \<noteq> [] \<longrightarrow> d \<le> MAX_AGGREGATION_DEPTH) \<and>
     list_all (aggregation_wire d) as"

lemma sort_direction_code:
  "(if v = 0 then Ok Asc else if v = 1 then Ok Desc else Err e) = Ok d \<longleftrightarrow>
     v = (case d of Asc \<Rightarrow> 0 | Desc \<Rightarrow> (1 :: u8))"
  "(if v = 0 then Ok First else if v = 1 then Ok Last else Err e) = Ok m \<longleftrightarrow>
     v = (case m of First \<Rightarrow> 0 | Last \<Rightarrow> (1 :: u8))"
  by (auto split: sort_direction.splits missing_order.splits if_splits)

interpretation sort_codec: sized_codec decode_sort enc_sort "\<lambda>s. wf_string (sort_field s)" 6
proof
  fix c c' :: cursor and s :: sort_request
  assume c: "cursor_ok c"
  obtain f d m where s: "s = \<lparr>sort_field = f, sort_dir = d, sort_missing = m\<rparr>" by (cases s)
  show "decode_sort c = Ok (s, c') \<longleftrightarrow> wf_string (sort_field s) \<and> spans c (enc_sort s) c'"
    using c unfolding s decode_sort_def enc_sort_def
    by (simp add: result_simps wire_simps sort_direction_code cong: conj_cong, blast)
qed (simp_all add: enc_sort_def)

interpretation optional_f64_codec: wire_codec decode_optional_f64 enc_optional_f64 "\<lambda>_. True"
proof
  fix c c' :: cursor and v :: "f64 option"
  assume "cursor_ok c"
  then show "decode_optional_f64 c = Ok (v, c') \<longleftrightarrow> True \<and> spans c (enc_optional_f64 v) c'"
    by (cases v) (simp_all add: decode_optional_f64_def enc_optional_f64_def result_simps wire_simps
        cong: conj_cong if_cong, auto)
qed

interpretation range_codec: sized_codec decode_range enc_range "\<lambda>_. True" 2
proof
  fix c c' :: cursor and r :: "f64 option \<times> f64 option"
  assume "cursor_ok c"
  then show "decode_range c = Ok (r, c') \<longleftrightarrow> True \<and> spans c (enc_range r) c'"
    by (cases r) (simp add: decode_range_def enc_range_def result_simps wire_simps
        optional_f64_codec.read_iff cong: conj_cong)
next
  fix r :: "f64 option \<times> f64 option"
  show "2 \<le> length (enc_range r)"
    by (cases r) (auto simp: enc_range_def enc_optional_f64_def split: option.splits)
qed simp

lemma catalog_count_iff:
  "cursor_ok c \<Longrightarrow> catalog_count k c = Ok (n, c') \<longleftrightarrow>
     n < 4294967296 \<and> spans c (enc_count32 n) c' \<and> \<not> cursor_remaining c' div k < n"
  by (auto simp: catalog_count_def result_simps wire_reads split: if_splits)

interpretation kind_codec: wire_codec decode_aggregation_kind enc_kind kind_wire
proof
  fix c c' :: cursor and kd :: aggregation_kind
  assume c: "cursor_ok c"
  show "decode_aggregation_kind c = Ok (kd, c') \<longleftrightarrow> kind_wire kd \<and> spans c (enc_kind kd) c'"
  proof (cases kd)
    case (Range rs)
    have "decode_aggregation_kind c = Ok (Range rs, c') \<longleftrightarrow>
        (\<exists>c1 c2. spans c (enc_u8 3) c1 \<and> length rs < 4294967296 \<and> rs \<noteq> [] \<and>
           spans c1 (enc_count32 (length rs)) c2 \<and>
           \<not> cursor_remaining c2 div 2 < length rs \<and> spans c2 (concat (map enc_range rs)) c')"
      using c unfolding decode_aggregation_kind_def
      by (simp add: result_simps wire_simps catalog_count_iff range_codec.many_iff
          list.pred_True cong: conj_cong if_cong, auto)
    then show ?thesis
      using range_codec.count_fits [of rs] unfolding Range
      by (auto simp: spans_append_iff not_less list_all_iff)
  next
    case (Terms n)
    with c show ?thesis
      by (auto simp: decode_aggregation_kind_def result_simps wire_simps cong: conj_cong if_cong; blast)
  next
    case Stats
    with c show ?thesis
      by (auto simp: decode_aggregation_kind_def result_simps wire_simps cong: conj_cong if_cong; blast)
  next
    case (Histogram v)
    with c show ?thesis
      by (auto simp: decode_aggregation_kind_def result_simps wire_simps cong: conj_cong if_cong; blast)
  qed
qed

definition loop_codec_at :: "aggregation_request list \<Rightarrow> bool" where
  "loop_codec_at as \<longleftrightarrow> (\<forall>n d c c'. cursor_ok c \<longrightarrow>
     decode_aggregation_loop n d c = Ok (as, c') \<longleftrightarrow>
     length as = n \<and> list_all (aggregation_wire d) as \<and> spans c (concat (map enc_aggregation as)) c')"

lemma enc_aggregation_eq:
  "enc_aggregation (Aggregation n f kd ch) =
     enc_string n @ enc_string f @ enc_kind kd @ enc_aggregations ch"
  by (simp add: enc_aggregations_def)

lemma enc_aggregation_min: "13 \<le> length (enc_aggregation a)"
proof (cases a)
  case (Aggregation n f kd ch)
  have "1 \<le> length (enc_kind kd)" by (cases kd) simp_all
  then show ?thesis unfolding Aggregation by simp
qed

lemma aggregation_count_fits:
  assumes "spans c (concat (map enc_aggregation as)) c'"
  shows "length as \<le> cursor_remaining c div 13"
proof -
  have "13 * length as \<le> length (concat (map enc_aggregation as))"
  proof (induction as)
    case (Cons a as)
    then show ?case using enc_aggregation_min [of a] by simp
  qed simp
  with spans_length [OF assms] show ?thesis by (simp add: less_eq_div_iff_mult_less_eq mult.commute)
qed

lemma decode_aggregations_iff:
  assumes "loop_codec_at as" "cursor_ok c"
  shows "decode_aggregations d c = Ok (as, c') \<longleftrightarrow>
    aggregations_wire d as \<and> spans c (enc_aggregations as) c'"
proof -
  have "decode_aggregations d c = Ok (as, c') \<longleftrightarrow>
      (\<exists>n c1. n < 4294967296 \<and> spans c (enc_count32 n) c1 \<and> \<not> cursor_remaining c1 div 13 < n \<and>
         (0 < n \<longrightarrow> d \<le> MAX_AGGREGATION_DEPTH) \<and> decode_aggregation_loop n d c1 = Ok (as, c'))"
    using assms(2)
    by (subst decode_aggregations.simps) (auto simp: result_simps catalog_count_iff not_less; blast)
  also have "\<dots> \<longleftrightarrow> (\<exists>c1. length as < 4294967296 \<and> spans c (enc_count32 (length as)) c1 \<and>
         (as \<noteq> [] \<longrightarrow> d \<le> MAX_AGGREGATION_DEPTH) \<and> list_all (aggregation_wire d) as \<and>
         spans c1 (concat (map enc_aggregation as)) c')"
    (is "?L = ?R")
  proof
    assume ?L
    then show ?R using assms by (auto simp: loop_codec_at_def spans_ok')
  next
    assume ?R
    then obtain c1 where "length as < 4294967296" "spans c (enc_count32 (length as)) c1"
        "as \<noteq> [] \<longrightarrow> d \<le> MAX_AGGREGATION_DEPTH" "list_all (aggregation_wire d) as"
        "spans c1 (concat (map enc_aggregation as)) c'" by blast
    then show ?L using assms aggregation_count_fits [of c1 as c']
      by (intro exI [of _ "length as"] exI [of _ c1])
        (auto simp: loop_codec_at_def spans_ok' not_less)
  qed
  also have "\<dots> \<longleftrightarrow> aggregations_wire d as \<and> spans c (enc_aggregations as) c'"
    by (auto simp: aggregations_wire_def enc_aggregations_def spans_append_iff)
  finally show ?thesis .
qed

lemma loop_codec_Cons:
  assumes "loop_codec_at ch" "loop_codec_at as"
  shows "loop_codec_at (Aggregation nm f kd ch # as)"
  unfolding loop_codec_at_def
proof (intro allI impI)
  fix n d c c'
  assume c: "cursor_ok c"
  show "decode_aggregation_loop n d c = Ok (Aggregation nm f kd ch # as, c') \<longleftrightarrow>
      length (Aggregation nm f kd ch # as) = n \<and>
      list_all (aggregation_wire d) (Aggregation nm f kd ch # as) \<and>
      spans c (concat (map enc_aggregation (Aggregation nm f kd ch # as))) c'"
  proof (cases n)
    case (Suc m)
    have l: "\<And>c. cursor_ok c \<Longrightarrow> decode_aggregation_loop m d c = Ok (as, c') \<longleftrightarrow>
        length as = m \<and> list_all (aggregation_wire d) as \<and> spans c (concat (map enc_aggregation as)) c'"
      using assms(2) by (simp add: loop_codec_at_def)
    show ?thesis
      using c unfolding Suc
      by (simp add: result_simps wire_simps kind_codec.read_iff decode_aggregations_iff [OF assms(1)] l
          aggregations_wire_def enc_aggregation_eq del: enc_aggregation.simps cong: conj_cong, blast)
  qed (simp)
qed

lemma loop_codec_all: "loop_codec_at as"
proof -
  have nil: "loop_codec_at []"
    unfolding loop_codec_at_def
  proof (intro allI impI)
    fix n d c c'
    assume "cursor_ok c"
    then show "decode_aggregation_loop n d c = Ok ([], c') \<longleftrightarrow>
        length [] = n \<and> list_all (aggregation_wire d) [] \<and> spans c (concat (map enc_aggregation [])) c'"
      by (cases n) (auto simp: result_simps)
  qed
  have build: "loop_codec_at as" if "\<And>a. a \<in> set as \<Longrightarrow> loop_codec_at (agg_children a)" for as
    using that
  proof (induction as)
    case (Cons a as)
    from Cons have "loop_codec_at (agg_children a)" "loop_codec_at as" by simp_all
    then show ?case by (cases a) (simp add: loop_codec_Cons)
  qed (rule nil)
  have "loop_codec_at (agg_children a)" for a
    by (induction a) (auto intro: build)
  then show ?thesis by (rule build)
qed

interpretation aggregations_codec: wire_codec "decode_aggregations d" enc_aggregations
  "aggregations_wire d" for d
  by unfold_locales (rule decode_aggregations_iff [OF loop_codec_all])

definition enc_sorts :: "sort_request list option \<Rightarrow> u8 list" where
  "enc_sorts s = (case s of None \<Rightarrow> enc_count32 0
     | Some ss \<Rightarrow> enc_count32 (length ss) @ concat (map enc_sort ss))"

definition sorts_wire :: "sort_request list option \<Rightarrow> bool" where
  "sorts_wire s = pred_option (\<lambda>ss. ss \<noteq> [] \<and> length ss < 4294967296 \<and>
     list_all (\<lambda>r. wf_string (sort_field r)) ss) s"

definition enc_candidates :: "string list option \<Rightarrow> u8 list" where
  "enc_candidates ids = (case ids of None \<Rightarrow> enc_boolean False
     | Some ids \<Rightarrow> enc_boolean True @ enc_count16 (length ids) @ concat (map enc_string ids))"

definition candidates_wire :: "string list option \<Rightarrow> bool" where
  "candidates_wire ids \<longleftrightarrow> candidates_ok ids \<and> pred_option (list_all wf_record_id) ids"

definition enc_filter_option :: "filter_expression option \<Rightarrow> u8 list" where
  "enc_filter_option f = (case f of None \<Rightarrow> enc_boolean False | Some e \<Rightarrow> enc_boolean True @ enc_filter e)"

definition filter_ok :: "filter_expression \<Rightarrow> bool" where
  "filter_ok e \<longleftrightarrow> filter_wire e \<and> filter_shape e \<and> filter_height e \<le> MAX_EXPRESSION_DEPTH \<and>
     filter_leaves e \<le> MAX_QUERY_CLAUSES"

definition enc_after :: "search_boundary option \<Rightarrow> u8 list" where
  "enc_after a = (case a of None \<Rightarrow> enc_boolean False
     | Some b \<Rightarrow> enc_boolean True @ enc_string (bnd_snapshot b) @ enc_u32 (bnd_score b)
         @ enc_string (bnd_id b))"

definition boundary_wire :: "search_boundary \<Rightarrow> bool" where
  "boundary_wire b \<longleftrightarrow> boundary_ok b \<and> wf_string (bnd_snapshot b) \<and> wf_record_id (bnd_id b)"

definition traversal_wire :: "bool \<Rightarrow> search_boundary option \<Rightarrow> bool" where
  "traversal_wire t a \<longleftrightarrow> pred_option (\<lambda>b. t \<and> boundary_wire b) a"

text \<open>
  A frame that is not a traversal may carry its false flag or leave it out: the decoder tells
  the two apart by the bytes that remain.  Every other part of the frame has one encoding.
\<close>

definition traversal_forms :: "bool \<Rightarrow> search_boundary option \<Rightarrow> u8 list list" where
  "traversal_forms t a = (if t then [enc_boolean True @ enc_after a] else [[], enc_boolean False])"

interpretation sorts_codec: wire_codec decode_sorts enc_sorts sorts_wire
proof
  fix c c' :: cursor and s :: "sort_request list option"
  assume c: "cursor_ok c"
  have "decode_sorts c = Ok (s, c') \<longleftrightarrow>
      (\<exists>n c1 ss. n < 4294967296 \<and> spans c (enc_count32 n) c1 \<and>
        (\<not> cursor_remaining c1 div 6 < n \<and> read_many n decode_sort c1 = Ok (ss, c')) \<and>
        s = (if ss = [] then None else Some ss))"
    using c by (auto simp: decode_sorts_def result_simps catalog_count_iff)
  also have "\<dots> \<longleftrightarrow>
      (\<exists>c1 ss. length ss < 4294967296 \<and> spans c (enc_count32 (length ss)) c1 \<and>
        list_all (\<lambda>r. wf_string (sort_field r)) ss \<and> spans c1 (concat (map enc_sort ss)) c' \<and>
        s = (if ss = [] then None else Some ss))"
    by (auto simp: sort_codec.guarded_many_iff [OF spans_ok'] cong: conj_cong)
  also have "\<dots> \<longleftrightarrow> sorts_wire s \<and> spans c (enc_sorts s) c'"
    by (cases s) (auto simp: sorts_wire_def enc_sorts_def spans_append_iff dest: spans_ok' split: if_splits)
  finally show "decode_sorts c = Ok (s, c') \<longleftrightarrow> sorts_wire s \<and> spans c (enc_sorts s) c'" .
qed

lemma read_candidates_iff:
  assumes "cursor_ok c" "k \<le> MAX_CANDIDATE_BYTES"
  shows "read_candidates n k c = Ok (ids, c') \<longleftrightarrow>
    length ids = n \<and> list_all wf_record_id ids \<and> k + sum_list (map length ids) \<le> MAX_CANDIDATE_BYTES \<and>
    spans c (concat (map enc_string ids)) c'"
  using assms
proof (induction n arbitrary: k c ids)
  case 0
  then show ?case by (cases ids) (auto simp: result_simps)
next
  case (Suc n)
  have m: "MAX_CANDIDATE_BYTES < usize_max" by (simp add: limit_defs usize_max_def)
  have "read_candidates (Suc n) k c = Ok (ids, c') \<longleftrightarrow>
      (\<exists>rid c1 js. wf_record_id rid \<and> spans c (enc_string rid) c1 \<and>
        k + length rid \<le> MAX_CANDIDATE_BYTES \<and>
        read_candidates n (k + length rid) c1 = Ok (js, c') \<and> ids = rid # js)"
    using Suc.prems m
    by (auto simp: result_simps wire_reads checked_add_def not_less)
      (metis add_leE le_trans less_imp_le)+
  also have "\<dots> \<longleftrightarrow> length ids = Suc n \<and> list_all wf_record_id ids \<and>
      k + sum_list (map length ids) \<le> MAX_CANDIDATE_BYTES \<and> spans c (concat (map enc_string ids)) c'"
    by (cases ids) (auto simp: Suc.IH [OF spans_ok'] spans_append_iff add.assoc cong: conj_cong;
        metis add.assoc add_leD1)+
  finally show ?case .
qed

interpretation candidates_codec: wire_codec decode_candidates enc_candidates candidates_wire
proof
  fix c c' :: cursor and ids :: "string list option"
  assume c: "cursor_ok c"
  have rec: "wf_record_id rid \<Longrightarrow> rid \<noteq> [] \<and> length rid \<le> MAX_RECORD_ID_BYTES" for rid
    by (simp add: wf_record_id_def)
  then have recs: "list_all wf_record_id xs \<Longrightarrow>
      list_all (\<lambda>rid. rid \<noteq> [] \<and> length rid \<le> MAX_RECORD_ID_BYTES) xs" for xs
    by (simp add: list_all_iff)
  have le: "MAX_CANDIDATE_IDS < 65536" by (simp add: limit_defs)
  have split: "decode_candidates c = and_then (cursor_boolean c) (\<lambda>(has, c).
      if has then and_then (cursor_u16_usize c) (\<lambda>(n, c).
        if MAX_CANDIDATE_IDS < n then Err (invalid ''candidate ID count exceeds 1024'')
        else if cursor_remaining c div 4 < n
        then Err (invalid ''candidate ID count exceeds the packed request length'')
        else and_then (read_candidates n 0 c) (\<lambda>(ids, c). Ok (Some ids, c)))
      else Ok (None, c))"
    by (auto simp: decode_candidates_def and_then_def split: result.splits)
  show "decode_candidates c = Ok (ids, c') \<longleftrightarrow> candidates_wire ids \<and> spans c (enc_candidates ids) c'"
  proof (cases ids)
    case None
    with c show ?thesis
      by (simp add: split candidates_wire_def enc_candidates_def candidates_ok_def
          result_simps wire_simps cong: conj_cong if_cong, auto)
  next
    case (Some xs)
    have "decode_candidates c = Ok (Some xs, c') \<longleftrightarrow>
        (\<exists>c1 n c2. spans c (enc_boolean True) c1 \<and> n < 65536 \<and> spans c1 (enc_count16 n) c2 \<and>
          n \<le> MAX_CANDIDATE_IDS \<and> n \<le> cursor_remaining c2 div 4 \<and>
          read_candidates n 0 c2 = Ok (xs, c'))"
      using c by (simp add: split result_simps wire_simps not_less cong: conj_cong if_cong, auto)
    also have "\<dots> \<longleftrightarrow>
        (\<exists>c1 c2. spans c (enc_boolean True) c1 \<and> length xs < 65536 \<and>
          spans c1 (enc_count16 (length xs)) c2 \<and> length xs \<le> MAX_CANDIDATE_IDS \<and>
          length xs \<le> cursor_remaining c2 div 4 \<and> list_all wf_record_id xs \<and>
          sum_list (map length xs) \<le> MAX_CANDIDATE_BYTES \<and> spans c2 (concat (map enc_string xs)) c')"
      by (auto simp: read_candidates_iff [OF spans_ok'] cong: conj_cong)
    also have "\<dots> \<longleftrightarrow> candidates_wire ids \<and> spans c (enc_candidates ids) c'"
      using recs [of xs] record_id_sized.count_fits [of xs] le unfolding Some
      by (auto simp: candidates_wire_def candidates_ok_def enc_candidates_def spans_append_iff; blast)
    finally show ?thesis unfolding Some .
  qed
qed

interpretation filter_codec: wire_codec decode_filter enc_filter_option "pred_option filter_ok"
proof
  fix c c' :: cursor and f :: "filter_expression option"
  assume c: "cursor_ok c"
  have e: "\<And>e c n' c'. cursor_ok c \<Longrightarrow> decode_filter_expression 0 0 c = Ok ((e, n'), c') \<longleftrightarrow>
     filter_accepts 0 0 n' [e] \<and> filter_wire e \<and> spans c (enc_filter e) c'"
    using decode_filter_all by (simp add: filter_codec_at_def)
  show "decode_filter c = Ok (f, c') \<longleftrightarrow> pred_option filter_ok f \<and> spans c (enc_filter_option f) c'"
    using c
    by (cases f) (simp_all add: decode_filter_def enc_filter_option_def result_simps wire_simps e
        filter_accepts_def filter_ok_def cong: conj_cong if_cong, auto)
qed

interpretation boundary_codec: wire_codec decode_boundary
  "\<lambda>b. enc_string (bnd_snapshot b) @ enc_u32 (bnd_score b) @ enc_string (bnd_id b)" boundary_wire
proof
  fix c c' :: cursor and b :: search_boundary
  assume c: "cursor_ok c"
  obtain s sc r where b: "b = \<lparr>bnd_snapshot = s, bnd_score = sc, bnd_id = r\<rparr>" by (cases b)
  have rid: "wf_record_id r \<Longrightarrow> r \<noteq> [] \<and> length r \<le> MAX_RECORD_ID_BYTES"
    by (simp add: wf_record_id_def)
  have "decode_boundary c = Ok (b, c') \<longleftrightarrow>
      (\<exists>c1 c2. wf_string s \<and> spans c (enc_string s) c1 \<and> spans c1 (enc_u32 sc) c2 \<and>
         wf_record_id r \<and> spans c2 (enc_string r) c' \<and> length s = 64 \<and> list_all lower_hex_byte s \<and>
         f32_is_finite sc)"
    using c unfolding b decode_boundary_def
    by (simp add: result_simps wire_simps cong: conj_cong, blast)
  then show "decode_boundary c = Ok (b, c') \<longleftrightarrow> boundary_wire b \<and>
      spans c (enc_string (bnd_snapshot b) @ enc_u32 (bnd_score b) @ enc_string (bnd_id b)) c'"
    using rid unfolding b by (auto simp: boundary_wire_def boundary_ok_def spans_append_iff; blast)
qed

lemma enc_boolean_neq_Nil [simp]: "enc_boolean x \<noteq> []"
  by (simp add: enc_boolean_def enc_u8_def)

lemma decode_search_traversal_iff:
  assumes "cursor_ok c"
  shows "decode_search_traversal c = Ok ((t, a), c') \<longleftrightarrow>
    traversal_wire t a \<and>
    (\<exists>tb \<in> set (traversal_forms t a). spans c tb c' \<and> (tb = [] \<longleftrightarrow> cursor_remaining c \<le> 4))"
proof (cases "4 < cursor_remaining c")
  case False
  with assms show ?thesis
    by (cases a) (auto simp: decode_search_traversal_def traversal_wire_def traversal_forms_def
        result_simps)
next
  case True
  have split: "decode_search_traversal c = and_then (cursor_boolean c) (\<lambda>(t, c).
      if t then and_then (cursor_boolean c) (\<lambda>(has, c).
        if has then and_then (decode_boundary c) (\<lambda>(b, c). Ok ((True, Some b), c))
        else Ok ((True, None), c))
      else Ok ((False, None), c))"
    using True by (auto simp: decode_search_traversal_def and_then_def split: result.splits)
  have "decode_search_traversal c = Ok ((t, a), c') \<longleftrightarrow>
      (if t then (case a of
           None \<Rightarrow> spans c (enc_boolean True @ enc_after None) c'
         | Some b \<Rightarrow> boundary_wire b \<and> spans c (enc_boolean True @ enc_after (Some b)) c')
       else a = None \<and> spans c (enc_boolean False) c')"
    using assms unfolding split enc_after_def
    by (cases a; cases t) (simp_all add: result_simps wire_simps boundary_codec.read_iff [simplified]
        cong: conj_cong if_cong, auto)
  then show ?thesis
    using True by (cases a) (auto simp: traversal_wire_def traversal_forms_def)
qed

section \<open>The search frame\<close>

definition enc_fields :: "search_request \<Rightarrow> u8 list" where
  "enc_fields r = enc_expression (rq_expression r) @ enc_candidates (rq_candidate_ids r)
     @ enc_filter_option (rq_filter r) @ enc_sorts (rq_sort r) @ enc_aggregations (rq_aggregations r)
     @ enc_count32 (rq_offset r) @ enc_count32 (rq_limit r) @ enc_boolean (rq_exact_total r)"

definition enc_search_body :: "search_request \<Rightarrow> u8 list \<Rightarrow> u8 list" where
  "enc_search_body r tb = enc_fields r @ tb @ enc_count32 (rq_budget_milliseconds r)"

definition search_frames :: "search_request \<Rightarrow> u8 list list" where
  "search_frames r = map (\<lambda>tb. enc_header ''FTSQ'' @ enc_search_body r tb)
     (traversal_forms (rq_traversal r) (rq_after r))"

definition enc_search :: "search_request \<Rightarrow> u8 list" where
  "enc_search r = last (search_frames r)"

definition request_wire :: "search_request \<Rightarrow> bool" where
  "request_wire r \<longleftrightarrow>
     expression_wire (rq_expression r) \<and> pred_option (list_all wf_record_id) (rq_candidate_ids r) \<and>
     pred_option filter_ok (rq_filter r) \<and> sorts_wire (rq_sort r) \<and>
     aggregations_wire 1 (rq_aggregations r) \<and>
     rq_offset r < 4294967296 \<and> rq_limit r < 4294967296 \<and>
     0 < rq_budget_milliseconds r \<and> rq_budget_milliseconds r \<le> MAX_SEARCH_BUDGET_MILLISECONDS \<and>
     traversal_wire (rq_traversal r) (rq_after r)"

lemma decode_catalog_iff:
  assumes "cursor_ok c"
  shows "decode_catalog c = Ok ((s, as), c') \<longleftrightarrow>
    sorts_wire s \<and> aggregations_wire 1 as \<and> spans c (enc_sorts s @ enc_aggregations as) c'"
  using assms
  by (simp add: decode_catalog_def and_then_Ok_iff sorts_codec.read_iff aggregations_codec.read_iff
      spans_append_iff spans_ok' cong: conj_cong, blast)

definition reads_expression :: "search_expression \<Rightarrow> cursor \<Rightarrow> cursor \<Rightarrow> bool" where
  "reads_expression e c c' \<longleftrightarrow> (\<exists>b b'. budget_new MAX_CONFIGURED_QUERY_CLAUSES MAX_FIELDS = Ok b \<and>
      decode_search_expression 0 b c = Ok ((e, b'), c'))"

lemma reads_expression_iff:
  assumes "cursor_ok c"
  shows "reads_expression e c c' \<longleftrightarrow>
    structure_ok e MAX_CONFIGURED_QUERY_CLAUSES MAX_FIELDS \<and> expression_wire e \<and>
    spans c (enc_expression e) c'"
proof -
  have e: "decode_search_expression d b c = Ok ((e, b'), c') \<longleftrightarrow>
      visit e d b = Ok b' \<and> expression_wire e \<and> spans c (enc_expression e) c'" for d b b'
    using decode_expression_all assms by (simp add: expression_codec_at_def)
  have a: "affordable 0 0 \<lparr>sb_limit = n, sb_remaining = n, sb_text_bytes = 0, sb_fields = k\<rparr>" for n k
    by (simp add: affordable_def)
  show ?thesis
    by (simp add: reads_expression_def budget_new_Ok_iff e visit_accepts [OF a] accepts_new) (auto simp: limit_defs)
qed

text \<open>The end of a frame: the optional traversal section, the time budget, no bytes left.\<close>

lemma search_tail_iff:
  assumes "cursor_ok c"
  shows "(\<exists>c1 c2. decode_search_traversal c = Ok ((t, a), c1) \<and> spans c1 (enc_count32 n) c2 \<and>
      is_ok (cursor_finish c2)) \<longleftrightarrow>
    traversal_wire t a \<and>
    (\<exists>tb \<in> set (traversal_forms t a). \<exists>c2. spans c (tb @ enc_count32 n) c2 \<and> is_ok (cursor_finish c2))"
proof -
  have "tb = [] \<longleftrightarrow> cursor_remaining c \<le> 4"
    if "spans c tb c1" "spans c1 (enc_count32 n) c2" "is_ok (cursor_finish c2)" for tb c1 c2
  proof -
    from that(3) have "cursor_remaining c2 = 0" by (auto simp: cursor_finish_def cursor_remaining_def split: if_splits)
    with spans_remaining [OF that(1)] spans_remaining [OF that(2)] show ?thesis by simp
  qed
  then show ?thesis
    using assms by (auto simp: decode_search_traversal_iff spans_append_iff; blast)
qed

text \<open>The part of the frame before the traversal section, read field by field.\<close>

definition reads_fields :: "search_request \<Rightarrow> cursor \<Rightarrow> cursor \<Rightarrow> bool" where
  "reads_fields r c c' \<longleftrightarrow> (\<exists>c1 c2 c3 c4 c5 c6.
     reads_expression (rq_expression r) c c1 \<and>
     decode_candidates c1 = Ok (rq_candidate_ids r, c2) \<and> decode_filter c2 = Ok (rq_filter r, c3) \<and>
     decode_catalog c3 = Ok ((rq_sort r, rq_aggregations r), c4) \<and>
     cursor_u32_usize c4 = Ok (rq_offset r, c5) \<and> cursor_u32_usize c5 = Ok (rq_limit r, c6) \<and>
     cursor_boolean c6 = Ok (rq_exact_total r, c'))"

definition fields_wire :: "search_request \<Rightarrow> bool" where
  "fields_wire r \<longleftrightarrow>
     structure_ok (rq_expression r) MAX_CONFIGURED_QUERY_CLAUSES MAX_FIELDS \<and>
     expression_wire (rq_expression r) \<and> candidates_wire (rq_candidate_ids r) \<and>
     pred_option filter_ok (rq_filter r) \<and> sorts_wire (rq_sort r) \<and>
     aggregations_wire 1 (rq_aggregations r) \<and> rq_offset r < 4294967296 \<and> rq_limit r < 4294967296"

lemma reads_fields_iff:
  assumes "cursor_ok c"
  shows "reads_fields r c c' \<longleftrightarrow> fields_wire r \<and> spans c (enc_fields r) c'"
proof -
  have "reads_expression (rq_expression r) c c1 \<and>
      decode_candidates c1 = Ok (rq_candidate_ids r, c2) \<and> decode_filter c2 = Ok (rq_filter r, c3) \<and>
      decode_catalog c3 = Ok ((rq_sort r, rq_aggregations r), c4) \<and>
      cursor_u32_usize c4 = Ok (rq_offset r, c5) \<and> cursor_u32_usize c5 = Ok (rq_limit r, c6) \<and>
      cursor_boolean c6 = Ok (rq_exact_total r, c') \<longleftrightarrow>
    fields_wire r \<and> spans c (enc_expression (rq_expression r)) c1 \<and>
    spans c1 (enc_candidates (rq_candidate_ids r)) c2 \<and> spans c2 (enc_filter_option (rq_filter r)) c3 \<and>
    spans c3 (enc_sorts (rq_sort r) @ enc_aggregations (rq_aggregations r)) c4 \<and>
    spans c4 (enc_count32 (rq_offset r)) c5 \<and> spans c5 (enc_count32 (rq_limit r)) c6 \<and>
    spans c6 (enc_boolean (rq_exact_total r)) c'" for c1 c2 c3 c4 c5 c6
    using assms
    by (simp add: reads_expression_iff candidates_codec.read_iff filter_codec.read_iff spans_ok'
        decode_catalog_iff wire_reads fields_wire_def cong: conj_cong) blast
  then show ?thesis
    by (simp add: reads_fields_def enc_fields_def spans_append_iff)
       (metis (no_types))
qed

lemma decode_search_steps:
  "decode_search bytes = Ok r \<longleftrightarrow>
     (\<exists>c c1 c2 c3. cursor_new bytes ''FTSQ'' = Ok c \<and> reads_fields r c c1 \<and>
        decode_search_traversal c1 = Ok ((rq_traversal r, rq_after r), c2) \<and>
        cursor_u32_usize c2 = Ok (rq_budget_milliseconds r, c3) \<and> is_ok (cursor_finish c3)) \<and>
     0 < rq_budget_milliseconds r \<and> rq_budget_milliseconds r \<le> MAX_SEARCH_BUDGET_MILLISECONDS \<and>
     admissible r"
  unfolding decode_search_def reads_fields_def reads_expression_def
  by (cases r) (auto simp: result_simps Let_def; blast)

lemma decode_search_iff:
  assumes "length bytes \<le> usize_max"
  shows "decode_search bytes = Ok r \<longleftrightarrow>
    request_wire r \<and> admissible r \<and> bytes \<in> set (search_frames r)"
proof -
  let ?t = "rq_traversal r" and ?a = "rq_after r" and ?n = "rq_budget_milliseconds r"
  have wire: "request_wire r \<and> admissible r \<longleftrightarrow> fields_wire r \<and> 0 < ?n \<and>
      ?n \<le> MAX_SEARCH_BUDGET_MILLISECONDS \<and> traversal_wire ?t ?a \<and> admissible r"
    by (auto simp: request_wire_def fields_wire_def candidates_wire_def admissible_def)
  have tails: "(\<exists>c2 c3. decode_search_traversal c1 = Ok ((?t, ?a), c2) \<and>
        cursor_u32_usize c2 = Ok (?n, c3) \<and> is_ok (cursor_finish c3)) \<longleftrightarrow>
      ?n < 4294967296 \<and> traversal_wire ?t ?a \<and> (\<exists>tb \<in> set (traversal_forms ?t ?a).
        \<exists>c3. spans c1 (tb @ enc_count32 ?n) c3 \<and> is_ok (cursor_finish c3))" if "cursor_ok c1" for c1
  proof -
    have "cursor_ok c2" if "decode_search_traversal c1 = Ok ((?t, ?a), c2)" for c2
      using that decode_search_traversal_iff [OF \<open>cursor_ok c1\<close>] spans_ok' by blast
    then have "(\<exists>c2 c3. decode_search_traversal c1 = Ok ((?t, ?a), c2) \<and>
        cursor_u32_usize c2 = Ok (?n, c3) \<and> is_ok (cursor_finish c3)) \<longleftrightarrow>
      ?n < 4294967296 \<and> (\<exists>c2 c3. decode_search_traversal c1 = Ok ((?t, ?a), c2) \<and>
        spans c2 (enc_count32 ?n) c3 \<and> is_ok (cursor_finish c3))"
      by (auto simp: count32_codec.read_iff)
    then show ?thesis using search_tail_iff [OF that] by simp
  qed
  have "(\<exists>c c1 c2 c3. cursor_new bytes ''FTSQ'' = Ok c \<and> reads_fields r c c1 \<and>
        decode_search_traversal c1 = Ok ((?t, ?a), c2) \<and> cursor_u32_usize c2 = Ok (?n, c3) \<and>
        is_ok (cursor_finish c3)) \<longleftrightarrow>
      fields_wire r \<and> ?n < 4294967296 \<and> traversal_wire ?t ?a \<and>
      (\<exists>tb \<in> set (traversal_forms ?t ?a). \<exists>c c3. cursor_new bytes ''FTSQ'' = Ok c \<and>
         spans c (enc_fields r @ tb @ enc_count32 ?n) c3 \<and> is_ok (cursor_finish c3))"
    using cursor_new_cursor_ok [OF _ assms] tails [OF spans_ok'] unfolding spans_append_iff [of _ "enc_fields r"]
    by (auto simp: reads_fields_iff cong: conj_cong)
  moreover have "?n \<le> MAX_SEARCH_BUDGET_MILLISECONDS \<Longrightarrow> ?n < 4294967296" by (simp add: limit_defs)
  ultimately show ?thesis
    unfolding decode_search_steps using wire frame_iff [of "''FTSQ''" bytes] assms
    by (auto simp: search_frames_def enc_search_body_def)
qed

section \<open>The theorem of the search frame\<close>

definition sample_clause :: search_clause where
  "sample_clause = \<lparr>cl_text = ''rust'', cl_mode = ModeAll,
     cl_options = default_query_options, cl_fields = [''title'']\<rparr>"

definition sample_request :: search_request where
  "sample_request = \<lparr>rq_sort = Some [\<lparr>sort_field = ''year'', sort_dir = Desc, sort_missing = Last\<rparr>],
     rq_aggregations = [Aggregation ''by'' ''year'' (Terms 5) [Aggregation ''s'' ''year'' Stats []]],
     rq_expression = AndE [Clause sample_clause, NotE (Clause sample_clause)],
     rq_candidate_ids = Some [''a''], rq_filter = None, rq_offset = 0, rq_limit = 10,
     rq_exact_total = True, rq_budget_milliseconds = 50, rq_traversal = False, rq_after = None\<rparr>"

lemmas sample_defs =
  sample_request_def sample_clause_def usize_max_def limit_defs default_query_options_def
  enc_search_def search_frames_def traversal_forms_def enc_search_body_def enc_fields_def
  enc_candidates_def enc_filter_option_def enc_sorts_def enc_sort_def enc_aggregations_def
  enc_strings_def enc_options_def
  request_wire_def sorts_wire_def aggregations_wire_def traversal_wire_def clause_wire_def
  wf_record_id_def wf_string_def utf8_string_def str_bytes_def byte_of_char_def MAX_STRING_BYTES_def MAX_RECORD_ID_BYTES_def
  admissible_def window_ok_def candidates_ok_def structure_ok_def leaf_options_ok_def
  has_prefix_leaf_def options_ok_def

text \<open>
  C1. \<open>decode_search\<close> accepts exactly the encodings of admissible requests: it answers \<open>Ok r\<close>
  on a byte string if and only if \<open>r\<close> is well formed for the wire, passes admission, and the
  bytes are one of the frames of \<open>r\<close> (two for a request that is not a traversal, whose false
  flag is optional; one otherwise).  So decoding inverts encoding on every admissible request,
  and nothing else, no truncated frame and no frame with trailing bytes, is accepted.
\<close>

theorem decode_search_exact:
  assumes "length bytes \<le> usize_max"
  shows "decode_search bytes = Ok r \<longleftrightarrow>
    request_wire r \<and> admissible r \<and> bytes \<in> set (search_frames r)"
  using assms by (rule decode_search_iff)

theorem decode_search_exact_witness:
  "length (enc_search sample_request) \<le> usize_max \<and>
   decode_search (enc_search sample_request) = Ok sample_request"
proof -
  have len: "length (enc_search sample_request) \<le> usize_max"
    by (simp add: sample_defs)
  have "request_wire sample_request" by (simp add: sample_defs)
  moreover have "admissible sample_request" by (simp add: sample_defs)
  moreover have "enc_search sample_request \<in> set (search_frames sample_request)"
    by (simp add: enc_search_def search_frames_def traversal_forms_def)
  ultimately show ?thesis
    using len decode_search_exact [of "enc_search sample_request" sample_request] by blast
qed

end
