(* ===== verification/Scan.thy ===== *)
theory Scan
  imports Search_Frame
begin

text \<open>
  Admission scanning in \<^verbatim>\<open>src/src/protocol.rs\<close>: before a packed search is queued, the addon
  checks its header, reads its time budget from the last four bytes and classifies it as cheap
  or expensive by walking the bytes without building a request.  The scanner is shown to agree
  with the decoder: on every frame that \<open>decode_search\<close> accepts it reaches the same position
  and its verdict is a predicate of the decoded request.
\<close>

section \<open>Headers and budgets\<close>

definition validate_search_header :: "u8 list \<Rightarrow> unit res" where
  "validate_search_header bytes =
     (if MAX_SEARCH_REQUEST_BYTES < length bytes
      then Err (invalid ''packed search request exceeds 8388608 bytes'')
      else and_then (cursor_new bytes ''FTSQ'') (\<lambda>_. Ok ()))"

definition trace_magic :: "u8 list \<Rightarrow> string" where
  "trace_magic bytes =
     (if prefix (str_bytes ''FTBR'') bytes then ''FTBR''
      else if prefix (str_bytes ''FTBT'') bytes then ''FTBT''
      else ''FTTM'')"

definition validate_trace_header :: "u8 list \<Rightarrow> unit res" where
  "validate_trace_header bytes =
     (if MAX_SEARCH_REQUEST_BYTES < length bytes
      then Err (invalid ''packed trace request exceeds 8388608 bytes'')
      else and_then (cursor_new bytes (trace_magic bytes)) (\<lambda>_. Ok ()))"

definition packed_budget :: "u8 list \<Rightarrow> string \<Rightarrow> string \<Rightarrow> nat res" where
  "packed_budget bytes magic operation =
     and_then (cursor_new bytes magic) (\<lambda>_.
       let budget_bytes = drop (length bytes - 4) bytes in
       if length budget_bytes \<noteq> 4 then Err (invalid ''packed request is truncated'')
       else
         let budget = unat (u32_from_le budget_bytes) in
         if budget = 0 \<or> MAX_SEARCH_BUDGET_MILLISECONDS < budget
         then Err (invalid (operation @ '' budget must be between 1 and ''
                @ nat_digits MAX_SEARCH_BUDGET_MILLISECONDS @ '' milliseconds''))
         else Ok budget)"

definition search_budget :: "u8 list \<Rightarrow> nat res" where
  "search_budget bytes = packed_budget bytes ''FTSQ'' ''search''"

definition trace_budget :: "u8 list \<Rightarrow> nat res" where
  "trace_budget bytes = packed_budget bytes (trace_magic bytes) ''trace''"

section \<open>Terms of an ASCII text\<close>

definition is_ascii :: "u8 \<Rightarrow> bool" where
  "is_ascii b \<longleftrightarrow> unat b \<le> 127"

definition is_ascii_alphanumeric :: "u8 \<Rightarrow> bool" where
  "is_ascii_alphanumeric b \<longleftrightarrow>
     (48 \<le> unat b \<and> unat b \<le> 57) \<or> (65 \<le> unat b \<and> unat b \<le> 90) \<or> (97 \<le> unat b \<and> unat b \<le> 122)"

fun term_upper_loop :: "nat \<Rightarrow> bool \<Rightarrow> u8 list \<Rightarrow> nat option" where
  "term_upper_loop terms in_term [] = Some terms"
| "term_upper_loop terms in_term (byte # text) =
     (if \<not> is_ascii byte then None
      else let alphanumeric = is_ascii_alphanumeric byte in
        term_upper_loop (terms + (if alphanumeric \<and> \<not> in_term then 1 else 0)) alphanumeric text)"

definition ascii_query_term_upper :: "u8 list \<Rightarrow> nat option" where
  "ascii_query_term_upper text = term_upper_loop 0 False text"

section \<open>Scanning search expressions\<close>

record search_cost =
  terms_upper :: nat
  construction_upper :: nat
  has_expensive_mode :: bool
  has_positive_anchor :: bool

text \<open>The child loops of \<open>And\<close>/\<open>Or\<close> (kinds 1, 2) and \<open>Optional\<close> (kind 5).\<close>

definition add_child :: "u8 \<Rightarrow> search_cost \<Rightarrow> search_cost \<Rightarrow> search_cost" where
  "add_child kind cost child =
     \<lparr>terms_upper = max (terms_upper cost) (terms_upper child),
      construction_upper = saturating_add (construction_upper cost) (construction_upper child),
      has_expensive_mode = (has_expensive_mode cost \<or> has_expensive_mode child),
      has_positive_anchor =
        (if kind = 1 then has_positive_anchor cost \<or> has_positive_anchor child
         else if kind = 2 then has_positive_anchor cost \<and> has_positive_anchor child
         else has_positive_anchor cost)\<rparr>"

function scan_search_expression ::
    "nat option \<Rightarrow> nat \<Rightarrow> search_structure_budget \<Rightarrow> (search_cost \<times> search_structure_budget) reader"
and scan_search_children ::
    "nat option \<Rightarrow> u8 \<Rightarrow> nat \<Rightarrow> search_cost \<Rightarrow> nat \<Rightarrow> search_structure_budget \<Rightarrow>
     (search_cost \<times> search_structure_budget) reader" where
  "scan_search_expression raised_profile_fields depth b c =
     and_then (budget_depth depth) (\<lambda>_.
     and_then (cursor_u8 c) (\<lambda>(kind, c).
     if kind = 0 then
       and_then (cursor_raw_bytes c) (\<lambda>(text, c).
       and_then (cursor_u8 c) (\<lambda>(m, c).
       and_then (decode_search_mode m) (\<lambda>mode.
       and_then (decode_query_options mode c) (\<lambda>(_, c).
       and_then (cursor_u16_usize c) (\<lambda>(field_count, c).
       if MAX_FIELDS < field_count \<or> cursor_remaining c div 4 < field_count
       then Err (invalid ''search field count exceeds its packed request'')
       else
       and_then (budget_leaf (length text) field_count b) (\<lambda>b.
         let terms = (if raised_profile_fields \<noteq> None
             then (case ascii_query_term_upper text of None \<Rightarrow> usize_max | Some n \<Rightarrow> n) else 0) in
       and_then (read_many field_count cursor_raw_bytes c) (\<lambda>(_, c).
         Ok ((\<lparr>terms_upper = terms,
           construction_upper = saturating_mul terms
             (if field_count = 0 then (case raised_profile_fields of None \<Rightarrow> 0 | Some n \<Rightarrow> n)
              else field_count),
           has_expensive_mode = is_expensive mode, has_positive_anchor = True\<rparr>, b), c))))))))
     else if kind = 1 \<or> kind = 2 then
       and_then (cursor_u16_usize c) (\<lambda>(count, c).
       and_then (budget_children count b) (\<lambda>b.
         scan_search_children raised_profile_fields kind count
           \<lparr>terms_upper = 0, construction_upper = count, has_expensive_mode = False,
            has_positive_anchor = (kind = 2)\<rparr> (depth + 1) b c))
     else if kind = 3 then
       and_then (budget_charge 2 b) (\<lambda>b.
       and_then (scan_search_expression raised_profile_fields (depth + 1) b c) (\<lambda>((child, b), c).
         Ok ((\<lparr>terms_upper = terms_upper child,
           construction_upper = saturating_add (construction_upper child) 2,
           has_expensive_mode = has_expensive_mode child, has_positive_anchor = False\<rparr>, b), c)))
     else if kind = 4 then
       and_then (cursor_f32 c) (\<lambda>(boost, c).
       and_then (validate_query_boost boost) (\<lambda>_.
       and_then (budget_charge 1 b) (\<lambda>b.
       and_then (scan_search_expression raised_profile_fields (depth + 1) b c) (\<lambda>((child, b), c).
         Ok ((child\<lparr>construction_upper := saturating_add (construction_upper child) 1\<rparr>, b), c)))))
     else if kind = 5 then
       and_then (cursor_u16_usize c) (\<lambda>(count, c).
       and_then (budget_optional_children count b) (\<lambda>b.
       and_then (budget_charge 1 b) (\<lambda>b.
       and_then (scan_search_expression raised_profile_fields (depth + 1) b c) (\<lambda>((required, b), c).
         scan_search_children raised_profile_fields 5 count
           (required\<lparr>construction_upper := saturating_add (construction_upper required) (count + 1)\<rparr>)
           (depth + 1) b c))))
     else Err (invalid ''unknown search expression type'')))"
| "scan_search_children raised_profile_fields kind 0 cost depth b c = Ok ((cost, b), c)"
| "scan_search_children raised_profile_fields kind (Suc n) cost depth b c =
     and_then (scan_search_expression raised_profile_fields depth b c) (\<lambda>((child, b), c).
       scan_search_children raised_profile_fields kind n (add_child kind cost child) depth b c)"
  by pat_completeness auto
termination
  by (relation "measures [
        \<lambda>x. case x of Inl (p, d, b, c) \<Rightarrow> 2 * (10 - d) | Inr (p, k, n, a, d, b, c) \<Rightarrow> 2 * (10 - d) + 1,
        \<lambda>x. case x of Inl (p, d, b, c) \<Rightarrow> 0 | Inr (p, k, n, a, d, b, c) \<Rightarrow> n]")
     (auto simp: budget_depth_def limit_defs split: if_splits)

declare scan_search_expression.simps [simp del]

section \<open>Scanning filters\<close>

definition scan_filter_value :: "unit reader" where
  "scan_filter_value c = and_then (cursor_u8 c) (\<lambda>(kind, c).
     if kind = 0 then and_then (cursor_raw_bytes c) (\<lambda>(_, c). Ok ((), c))
     else if kind = 1 then and_then (cursor_f64 c) (\<lambda>(v, c).
       if \<not> f64_is_finite v then Err (invalid ''filter numbers must be finite'') else Ok ((), c))
     else if kind = 2 then and_then (cursor_boolean c) (\<lambda>(_, c). Ok ((), c))
     else Err (invalid ''unknown filter value type''))"

definition scan_expected :: "u8 \<Rightarrow> nat option" where
  "scan_expected comparator =
     (if comparator = 1 then None
      else if comparator = 6 then Some 2
      else if comparator = 7 \<or> comparator = 8 then Some 0
      else Some 1)"

function scan_filter_expression :: "nat \<Rightarrow> nat \<Rightarrow> (bool \<times> nat) reader"
and scan_filter_children :: "nat \<Rightarrow> bool \<Rightarrow> nat \<Rightarrow> nat \<Rightarrow> (bool \<times> nat) reader" where
  "scan_filter_expression depth clauses c =
     (if MAX_EXPRESSION_DEPTH < depth
      then Err (invalid (''filter expression nesting exceeds '' @ nat_digits MAX_EXPRESSION_DEPTH
             @ '' levels''))
      else
     and_then (cursor_u8 c) (\<lambda>(kind, c).
     if kind = 0 then
       let clauses = clauses + 1 in
       if MAX_QUERY_CLAUSES < clauses
       then Err (invalid ''filter expression exceeds 256 clauses'')
       else
       and_then (cursor_raw_bytes c) (\<lambda>(_, c).
       and_then (cursor_u8 c) (\<lambda>(comparator, c).
       if 8 < comparator then Err (invalid ''unknown filter comparator'')
       else
       and_then (cursor_u16_usize c) (\<lambda>(count, c).
         let expected = scan_expected comparator in
         if (count = 0 \<and> comparator < 7) \<or> (expected \<noteq> None \<and> expected \<noteq> Some count) \<or>
            MAX_QUERY_CLAUSES < count \<or> cursor_remaining c div 2 < count
         then Err (invalid ''invalid filter value count'')
         else and_then (read_many count scan_filter_value c) (\<lambda>(_, c).
           Ok ((2 \<le> comparator \<or> 16 < count, clauses), c)))))
     else if kind = 1 \<or> kind = 2 then
       and_then (cursor_u16_usize c) (\<lambda>(count, c).
         if count = 0 \<or> MAX_QUERY_CLAUSES < count
         then Err (invalid ''filter boolean expression requires 1 to 256 children'')
         else scan_filter_children count False (depth + 1) clauses c)
     else if kind = 3 then
       and_then (scan_filter_expression (depth + 1) clauses c) (\<lambda>((_, clauses), c).
         Ok ((True, clauses), c))
     else Err (invalid ''unknown filter expression type'')))"
| "scan_filter_children 0 costly depth clauses c = Ok ((costly, clauses), c)"
| "scan_filter_children (Suc n) costly depth clauses c =
     and_then (scan_filter_expression depth clauses c) (\<lambda>((child, clauses), c).
       scan_filter_children n (costly \<or> child) depth clauses c)"
  by pat_completeness auto
termination
  by (relation "measures [
        \<lambda>x. case x of Inl (d, b, c) \<Rightarrow> 2 * (10 - d) | Inr (n, e, d, b, c) \<Rightarrow> 2 * (10 - d) + 1,
        \<lambda>x. case x of Inl (d, b, c) \<Rightarrow> 0 | Inr (n, e, d, b, c) \<Rightarrow> n]")
     (auto simp: limit_defs split: if_splits)

declare scan_filter_expression.simps [simp del]

section \<open>Scanning sorts and aggregations\<close>

definition scan_sort :: "unit reader" where
  "scan_sort c =
     and_then (cursor_raw_bytes c) (\<lambda>(_, c).
     and_then (cursor_u8 c) (\<lambda>(d, c).
     if 1 < d then Err (invalid ''invalid sort ordering'')
     else and_then (cursor_u8 c) (\<lambda>(m, c).
       if 1 < m then Err (invalid ''invalid sort ordering'') else Ok ((), c))))"

definition scan_optional_f64 :: "unit reader" where
  "scan_optional_f64 c = and_then (cursor_boolean c) (\<lambda>(present, c).
     if present then and_then (cursor_f64 c) (\<lambda>(_, c). Ok ((), c)) else Ok ((), c))"

definition scan_range :: "unit reader" where
  "scan_range c =
     and_then (scan_optional_f64 c) (\<lambda>(_, c).
     and_then (scan_optional_f64 c) (\<lambda>(_, c). Ok ((), c)))"

definition scan_aggregation_kind :: "u8 reader" where
  "scan_aggregation_kind c = and_then (cursor_u8 c) (\<lambda>(kind, c).
     if kind = 0 then and_then (cursor_u32 c) (\<lambda>(_, c). Ok (kind, c))
     else if kind = 1 then Ok (kind, c)
     else if kind = 2 then and_then (cursor_f64 c) (\<lambda>(_, c). Ok (kind, c))
     else if kind = 3 then
       and_then (catalog_count 2 c) (\<lambda>(ranges, c).
         if ranges = 0 then Err (invalid ''range aggregation requires ranges'')
         else and_then (read_many ranges scan_range c) (\<lambda>(_, c). Ok (kind, c)))
     else Err (invalid ''unknown aggregation kind''))"

function scan_aggregations :: "nat \<Rightarrow> nat reader"
and scan_aggregation_loop :: "nat \<Rightarrow> nat \<Rightarrow> unit reader" where
  "scan_aggregations depth c = and_then (catalog_count 13 c) (\<lambda>(count, c).
     if 0 < count \<and> MAX_AGGREGATION_DEPTH < depth
     then Err (invalid ''aggregation nesting exceeds its depth limit'')
     else and_then (scan_aggregation_loop count depth c) (\<lambda>(_, c). Ok (count, c)))"
| "scan_aggregation_loop 0 depth c = Ok ((), c)"
| "scan_aggregation_loop (Suc n) depth c =
     and_then (cursor_raw_bytes c) (\<lambda>(name, c).
     if name = [] \<or> 128 < length name
     then Err (invalid ''aggregation names require 1 to 128 UTF-8 bytes'')
     else
     and_then (cursor_raw_bytes c) (\<lambda>(_, c).
     and_then (scan_aggregation_kind c) (\<lambda>(kind, c).
     and_then (scan_aggregations (depth + 1) c) (\<lambda>(children, c).
       if kind = 1 \<and> 0 < children
       then Err (invalid ''stats aggregations cannot have children'')
       else scan_aggregation_loop n depth c))))"
  by pat_completeness auto
termination
  by (relation "measures [
        \<lambda>x. case x of
            Inl (d, c) \<Rightarrow> (if d \<le> 32 then 2 * (33 - d) + 2 else 1)
          | Inr (n, d, c) \<Rightarrow> (if n = 0 then 0 else if d \<le> 32 then 2 * (33 - d) + 1 else 2),
        \<lambda>x. case x of Inl (d, c) \<Rightarrow> 0 | Inr (n, d, c) \<Rightarrow> n]")
     (auto simp: limit_defs split: if_splits)

declare scan_aggregations.simps [simp del]

definition scan_catalog :: "bool reader" where
  "scan_catalog c =
     and_then (catalog_count 6 c) (\<lambda>(sorts, c).
     and_then (read_many sorts scan_sort c) (\<lambda>(_, c).
     and_then (scan_aggregations 1 c) (\<lambda>(count, c).
       Ok (0 < sorts \<or> 0 < count, c))))"

section \<open>Classification\<close>

definition scan_candidates :: "unit reader" where
  "scan_candidates c =
     and_then (cursor_boolean c) (\<lambda>(has_candidates, c).
     and_then (if has_candidates then cursor_u16_usize c else Ok (0, c)) (\<lambda>(candidate_count, c).
     if MAX_CANDIDATE_IDS < candidate_count \<or> cursor_remaining c div 4 < candidate_count
     then Err (invalid ''candidate ID count exceeds its packed request'')
     else and_then (read_many candidate_count cursor_raw_bytes c) (\<lambda>(_, c). Ok ((), c))))"

definition scan_filter :: "bool reader" where
  "scan_filter c = and_then (cursor_boolean c) (\<lambda>(present, c).
     if present
     then and_then (scan_filter_expression 0 0 c) (\<lambda>((costly, clauses), c).
       Ok (costly \<or> 16 < clauses, c))
     else Ok (False, c))"

definition classify_search :: "u8 list \<Rightarrow> nat \<Rightarrow> nat \<Rightarrow> nat \<Rightarrow> bool res" where
  "classify_search bytes schema_fields max_query_terms max_query_clauses =
     and_then (validate_query_limits max_query_terms max_query_clauses) (\<lambda>_.
     let raised_profile_fields =
       (if MAX_QUERY_TERMS < max_query_terms \<or> MAX_QUERY_CLAUSES < max_query_clauses
        then Some schema_fields else None) in
     and_then (cursor_new bytes ''FTSQ'') (\<lambda>c.
     and_then (budget_new max_query_clauses schema_fields) (\<lambda>b.
     and_then (scan_search_expression raised_profile_fields 0 b c) (\<lambda>((cost, b), c).
     and_then (scan_candidates c) (\<lambda>(_, c).
     and_then (scan_filter c) (\<lambda>(filter_is_expensive, c).
     and_then (scan_catalog c) (\<lambda>(catalog_is_expensive, c).
     and_then (cursor_u32 c) (\<lambda>(_, c).
     and_then (cursor_u32 c) (\<lambda>(_, c).
     and_then (cursor_boolean c) (\<lambda>(exact_total, c).
     and_then (decode_search_traversal c) (\<lambda>((traversal, _), c).
       Ok (traversal \<or> catalog_is_expensive \<or>
         (raised_profile_fields \<noteq> None \<and>
           (MAX_QUERY_TERMS < terms_upper cost \<or> MAX_QUERY_CLAUSES < construction_upper cost)) \<or>
         has_expensive_mode cost \<or> \<not> has_positive_anchor cost \<or> filter_is_expensive \<or>
         exact_total))))))))))))"

definition search_is_expensive :: "u8 list \<Rightarrow> bool res" where
  "search_is_expensive bytes = classify_search bytes MAX_FIELDS MAX_QUERY_TERMS MAX_QUERY_CLAUSES"

section \<open>Scanners follow decoders\<close>

text \<open>
  A scanner of a codec reads the same bytes and keeps a digest of the value.  It follows the
  codec through lists as well.
\<close>

locale skim_codec = wire_codec +
  fixes scan :: "'b reader"
    and digest :: "'a \<Rightarrow> 'b"
  assumes scan_follows: "wf x \<Longrightarrow> spans c (enc x) c' \<Longrightarrow> scan c = Ok (digest x, c')"
begin

lemma scan_many:
  "list_all wf xs \<Longrightarrow> spans c (concat (map enc xs)) c' \<Longrightarrow>
     read_many (length xs) scan c = Ok (map digest xs, c')"
  by (induction xs arbitrary: c) (auto simp: spans_append_iff scan_follows)

lemma scan_read: "cursor_ok c \<Longrightarrow> read c = Ok (x, c') \<Longrightarrow> scan c = Ok (digest x, c')"
  using read_iff scan_follows by blast

end

interpretation string_skim: skim_codec cursor_string enc_string wf_string cursor_raw_bytes str_bytes
  by unfold_locales (simp add: enc_string_def wf_string_def wf_bytes_def bytes_codec.complete)

interpretation record_id_skim: skim_codec cursor_record_id enc_string wf_record_id cursor_raw_bytes str_bytes
  by unfold_locales
    (simp add: wf_record_id_def wf_string_def MAX_STRING_BYTES_def MAX_RECORD_ID_BYTES_def
      string_skim.scan_follows)

lemmas follow_reads =
  u8_codec.complete boolean_codec.complete u16_codec.complete u32_codec.complete f32_codec.complete
  f64_codec.complete count16_codec.complete count32_codec.complete string_skim.scan_follows

interpretation filter_value_skim: skim_codec decode_filter_value enc_filter_value filter_value_wire
  scan_filter_value "\<lambda>_. ()"
proof
  fix v :: filter_value and c c' :: cursor
  assume w: "filter_value_wire v" and s: "spans c (enc_filter_value v) c'"
  show "scan_filter_value c = Ok ((), c')"
  proof (cases v)
    case (FString x)
    with w s obtain c1 where "spans c (enc_u8 0) c1" "spans c1 (enc_string x) c'" "wf_string x"
      by (auto simp: spans_append_iff)
    then show ?thesis by (simp add: scan_filter_value_def follow_reads)
  next
    case (FNumber x)
    with w s obtain c1 where "spans c (enc_u8 1) c1" "spans c1 (enc_u64 x) c'" "f64_is_finite x"
      by (auto simp: spans_append_iff)
    then show ?thesis by (simp add: scan_filter_value_def follow_reads)
  next
    case (FBoolean x)
    with w s obtain c1 where "spans c (enc_u8 2) c1" "spans c1 (enc_boolean x) c'"
      by (auto simp: spans_append_iff)
    then show ?thesis by (simp add: scan_filter_value_def follow_reads)
  qed
qed

interpretation sort_skim: skim_codec decode_sort enc_sort "\<lambda>s. wf_string (sort_field s)" scan_sort "\<lambda>_. ()"
proof
  fix s :: sort_request and c c' :: cursor
  assume "wf_string (sort_field s)" "spans c (enc_sort s) c'"
  then obtain c1 c2 where "wf_string (sort_field s)" "spans c (enc_string (sort_field s)) c1"
      "spans c1 (enc_u8 (case sort_dir s of Asc \<Rightarrow> 0 | Desc \<Rightarrow> 1)) c2"
      "spans c2 (enc_u8 (case sort_missing s of First \<Rightarrow> 0 | Last \<Rightarrow> 1)) c'"
    by (auto simp: enc_sort_def spans_append_iff)
  then show "scan_sort c = Ok ((), c')"
    by (simp add: scan_sort_def follow_reads split: sort_direction.splits missing_order.splits)
qed

interpretation optional_f64_skim: skim_codec decode_optional_f64 enc_optional_f64 "\<lambda>_. True"
  scan_optional_f64 "\<lambda>_. ()"
  by unfold_locales
    (auto simp: enc_optional_f64_def scan_optional_f64_def spans_append_iff follow_reads
      split: option.splits)

interpretation range_skim: skim_codec decode_range enc_range "\<lambda>_. True" scan_range "\<lambda>_. ()"
  by unfold_locales
    (auto simp: enc_range_def scan_range_def spans_append_iff optional_f64_skim.scan_follows [simplified])

fun kind_code :: "aggregation_kind \<Rightarrow> u8" where
  "kind_code (Terms n) = 0"
| "kind_code Stats = 1"
| "kind_code (Histogram v) = 2"
| "kind_code (Range rs) = 3"

interpretation kind_skim: skim_codec decode_aggregation_kind enc_kind kind_wire scan_aggregation_kind kind_code
proof
  fix k :: aggregation_kind and c c' :: cursor
  assume w: "kind_wire k" and s: "spans c (enc_kind k) c'"
  show "scan_aggregation_kind c = Ok (kind_code k, c')"
  proof (cases k)
    case (Range rs)
    with w s obtain c1 c2 where "spans c (enc_u8 3) c1" "spans c1 (enc_count32 (length rs)) c2"
        and rs: "spans c2 (concat (map enc_range rs)) c'" "rs \<noteq> []" "length rs < 4294967296"
      by (auto simp: spans_append_iff)
    moreover have "length rs \<le> cursor_remaining c2 div 2"
      using range_codec.count_fits [OF _ rs(1)] by (simp add: list_all_iff)
    moreover have "read_many (length rs) scan_range c2 = Ok (map (\<lambda>_. ()) rs, c')"
      using range_skim.scan_many [OF _ rs(1)] by (simp add: list_all_iff)
    ultimately show ?thesis using Range
      by (simp add: scan_aggregation_kind_def catalog_count_def follow_reads)
  qed (insert w s, auto simp: scan_aggregation_kind_def spans_append_iff follow_reads)
qed

section \<open>What the scanner reports of an expression\<close>

definition leaf_terms :: "nat option \<Rightarrow> search_clause \<Rightarrow> nat" where
  "leaf_terms p cl = (if p = None then 0
     else case ascii_query_term_upper (str_bytes (cl_text cl)) of None \<Rightarrow> usize_max | Some n \<Rightarrow> n)"

definition leaf_construction :: "nat option \<Rightarrow> search_clause \<Rightarrow> nat" where
  "leaf_construction p cl =
     leaf_terms p cl * (if cl_fields cl = [] then (case p of None \<Rightarrow> 0 | Some n \<Rightarrow> n)
       else length (cl_fields cl))"

text \<open>The most terms of any leaf, and the clauses the query will be built from.\<close>

definition expr_terms :: "nat option \<Rightarrow> search_expression \<Rightarrow> nat" where
  "expr_terms p e = foldr max (map (leaf_terms p) (expr_leaves e)) 0"

definition expr_construction :: "nat option \<Rightarrow> search_expression \<Rightarrow> nat" where
  "expr_construction p e = expr_cost e + sum_list (map (leaf_construction p) (expr_leaves e))"

definition expr_expensive :: "search_expression \<Rightarrow> bool" where
  "expr_expensive e \<longleftrightarrow> list_ex (\<lambda>cl. is_expensive (cl_mode cl)) (expr_leaves e)"

text \<open>Some positive clause must hold in every match.\<close>

fun anchored :: "search_expression \<Rightarrow> bool" where
  "anchored (Clause c) \<longleftrightarrow> True"
| "anchored (AndE es) \<longleftrightarrow> list_ex anchored es"
| "anchored (OrE es) \<longleftrightarrow> list_all anchored es"
| "anchored (NotE e) \<longleftrightarrow> False"
| "anchored (Boost f e) \<longleftrightarrow> anchored e"
| "anchored (Optional r es) \<longleftrightarrow> anchored r"

definition cost_of :: "nat option \<Rightarrow> search_expression \<Rightarrow> search_cost" where
  "cost_of p e = \<lparr>terms_upper = expr_terms p e,
     construction_upper = min usize_max (expr_construction p e),
     has_expensive_mode = expr_expensive e, has_positive_anchor = anchored e\<rparr>"

lemma foldr_max_start: "foldr max xs (n::nat) = max (foldr max xs 0) n"
  by (induction xs) (auto simp: max.assoc)

lemma saturating_add_min:
  "saturating_add (min usize_max a) (min usize_max b) = min usize_max (a + b)"
  by (auto simp: saturating_add_def min_def)

lemma saturating_add_min_left: "saturating_add (min usize_max a) b = min usize_max (a + b)"
  by (auto simp: saturating_add_def min_def)

lemma saturating_mul_min: "saturating_mul a b = min usize_max (a * b)"
  by (auto simp: saturating_mul_def min_def)

text \<open>What the child loop makes of a list of costs.\<close>

definition fold_costs :: "u8 \<Rightarrow> nat option \<Rightarrow> search_cost \<Rightarrow> search_expression list \<Rightarrow> search_cost" where
  "fold_costs kind p cost es = foldl (\<lambda>cost e. add_child kind cost (cost_of p e)) cost es"

lemma fold_costs_simps [simp]:
  "fold_costs kind p cost [] = cost"
  "fold_costs kind p cost (e # es) = fold_costs kind p (add_child kind cost (cost_of p e)) es"
  by (simp_all add: fold_costs_def)

lemma fold_costs_eq:
  "fold_costs kind p \<lparr>terms_upper = t, construction_upper = min usize_max k, has_expensive_mode = x,
       has_positive_anchor = a\<rparr> es =
   \<lparr>terms_upper = max t (foldr max (map (expr_terms p) es) 0),
    construction_upper = min usize_max (k + sum_list (map (expr_construction p) es)),
    has_expensive_mode = (x \<or> list_ex expr_expensive es),
    has_positive_anchor = (if kind = 1 then a \<or> list_ex anchored es
      else if kind = 2 then a \<and> list_all anchored es else a)\<rparr>"
proof (induction es arbitrary: t k x a)
  case (Cons e es)
  have "add_child kind \<lparr>terms_upper = t, construction_upper = min usize_max k, has_expensive_mode = x,
       has_positive_anchor = a\<rparr> (cost_of p e) =
    \<lparr>terms_upper = max t (expr_terms p e),
     construction_upper = min usize_max (k + expr_construction p e),
     has_expensive_mode = (x \<or> expr_expensive e),
     has_positive_anchor =
       (if kind = 1 then a \<or> anchored e else if kind = 2 then a \<and> anchored e else a)\<rparr>"
    by (simp add: add_child_def cost_of_def saturating_add_min)
  then show ?case
    by (simp add: Cons.IH max.assoc add.assoc)
qed simp

lemma expr_terms_simps [simp]:
  "expr_terms p (Clause cl) = leaf_terms p cl"
  "expr_terms p (AndE es) = foldr max (map (expr_terms p) es) 0"
  "expr_terms p (OrE es) = foldr max (map (expr_terms p) es) 0"
  "expr_terms p (NotE e) = expr_terms p e"
  "expr_terms p (Boost f e) = expr_terms p e"
  "expr_terms p (Optional e es) = max (expr_terms p e) (foldr max (map (expr_terms p) es) 0)"
proof -
  have group: "foldr max (map (leaf_terms p) (concat (map expr_leaves es))) 0 =
      foldr max (map (expr_terms p) es) 0" for es
    by (induction es) (simp_all add: expr_terms_def, rule foldr_max_start)
  show "expr_terms p (AndE es) = foldr max (map (expr_terms p) es) 0"
    "expr_terms p (OrE es) = foldr max (map (expr_terms p) es) 0"
    "expr_terms p (Optional e es) = max (expr_terms p e) (foldr max (map (expr_terms p) es) 0)"
    using group [of es] foldr_max_start [of "map (leaf_terms p) (expr_leaves e)"
      "foldr max (map (expr_terms p) es) 0"]
    by (simp_all add: expr_terms_def [of p "AndE es"] expr_terms_def [of p "OrE es"]
        expr_terms_def [of p "Optional e es"] expr_terms_def [of p e])
qed (simp_all add: expr_terms_def)

lemma expr_construction_simps [simp]:
  "expr_construction p (Clause cl) = leaf_construction p cl"
  "expr_construction p (AndE es) = length es + sum_list (map (expr_construction p) es)"
  "expr_construction p (OrE es) = length es + sum_list (map (expr_construction p) es)"
  "expr_construction p (NotE e) = expr_construction p e + 2"
  "expr_construction p (Boost f e) = expr_construction p e + 1"
  "expr_construction p (Optional e es) =
     expr_construction p e + (length es + 1) + sum_list (map (expr_construction p) es)"
  by (induction es) (simp_all add: expr_construction_def)

lemma expr_expensive_simps [simp]:
  "expr_expensive (Clause cl) = is_expensive (cl_mode cl)"
  "expr_expensive (AndE es) = list_ex expr_expensive es"
  "expr_expensive (OrE es) = list_ex expr_expensive es"
  "expr_expensive (NotE e) = expr_expensive e"
  "expr_expensive (Boost f e) = expr_expensive e"
  "expr_expensive (Optional e es) = (expr_expensive e \<or> list_ex expr_expensive es)"
  by (induction es) (simp_all add: expr_expensive_def)

definition scan_at :: "search_expression \<Rightarrow> bool" where
  "scan_at e \<longleftrightarrow> (\<forall>p d b c b' c'. visit e d b = Ok b' \<longrightarrow> expression_wire e \<longrightarrow>
     expr_shape MAX_FIELDS e \<longrightarrow> spans c (enc_expression e) c' \<longrightarrow>
     scan_search_expression p d b c = Ok ((cost_of p e, b'), c'))"

lemma scan_children:
  assumes "\<And>e. e \<in> set es \<Longrightarrow> scan_at e" "visit_all es d b = Ok b'" "list_all expression_wire es"
    "list_all (expr_shape MAX_FIELDS) es" "spans c (concat (map enc_expression es)) c'"
  shows "scan_search_children p kind (length es) cost d b c = Ok ((fold_costs kind p cost es, b'), c')"
  using assms
proof (induction es arbitrary: b c cost)
  case (Cons e es)
  from Cons.prems obtain b1 c1 where "visit e d b = Ok b1" "visit_all es d b1 = Ok b'"
      "spans c (enc_expression e) c1" "spans c1 (concat (map enc_expression es)) c'"
    by (auto simp: spans_append_iff and_then_Ok_iff)
  moreover from this have "scan_search_expression p d b c = Ok ((cost_of p e, b1), c1)"
    using Cons.prems(1) [of e] Cons.prems(3,4) by (simp add: scan_at_def)
  ultimately show ?case
    using Cons.IH [of b1 c1] Cons.prems by simp
qed simp

lemma scan_clause: "scan_at (Clause cl)"
  unfolding scan_at_def
proof (intro allI impI)
  fix p d b c b' c'
  assume v: "visit (Clause cl) d b = Ok b'" and w: "expression_wire (Clause cl)"
    and n: "expr_shape MAX_FIELDS (Clause cl)" and s: "spans c (enc_expression (Clause cl)) c'"
  from s obtain c1 c2 c3 c4 c5 where s: "spans c (enc_u8 0) c1" "spans c1 (enc_string (cl_text cl)) c2"
      "spans c2 (enc_u8 (mode_code (cl_mode cl))) c3" "spans c3 (enc_options (cl_options cl)) c4"
      "spans c4 (enc_count16 (length (cl_fields cl))) c5"
      "spans c5 (concat (map enc_string (cl_fields cl))) c'"
    by (auto simp: spans_append_iff enc_strings_def)
  from w have w: "wf_string (cl_text cl)" "options_ok (cl_options cl) (cl_mode cl)"
      "length (cl_fields cl) < 65536" "list_all wf_string (cl_fields cl)"
    by (auto simp: clause_wire_def)
  have fit: "length (cl_fields cl) \<le> cursor_remaining c5 div 4"
    using string_sized.count_fits [OF w(4) s(6)] .
  have names: "read_many (length (cl_fields cl)) cursor_raw_bytes c5 = Ok (map str_bytes (cl_fields cl), c')"
    using string_skim.scan_many [OF w(4) s(6)] .
  have mode: "decode_search_mode (mode_code (cl_mode cl)) = Ok (cl_mode cl)"
    by (simp add: decode_search_mode_iff)
  have opts: "decode_query_options (cl_mode cl) c3 = Ok (cl_options cl, c4)"
    using options_codec.complete [OF w(2) s(4)] .
  from v have depth: "budget_depth d = Ok ()"
    and leaf: "budget_leaf (length (cl_text cl)) (length (cl_fields cl)) b = Ok b'"
    by (auto simp: and_then_Ok_iff)
  show "scan_search_expression p d b c = Ok ((cost_of p (Clause cl), b'), c')"
    using fit names mode opts depth leaf n w(1,3) s(1-3,5)
    by (subst scan_search_expression.simps)
       (simp add: follow_reads Let_def
         cost_of_def leaf_terms_def leaf_construction_def saturating_mul_min)
qed

lemma cost_of_groups:
  "cost_of p (AndE es) = fold_costs 1 p \<lparr>terms_upper = 0, construction_upper = min usize_max (length es),
     has_expensive_mode = False, has_positive_anchor = False\<rparr> es"
  "cost_of p (OrE es) = fold_costs 2 p \<lparr>terms_upper = 0, construction_upper = min usize_max (length es),
     has_expensive_mode = False, has_positive_anchor = True\<rparr> es"
  "cost_of p (NotE e) = \<lparr>terms_upper = terms_upper (cost_of p e),
     construction_upper = saturating_add (construction_upper (cost_of p e)) 2,
     has_expensive_mode = has_expensive_mode (cost_of p e), has_positive_anchor = False\<rparr>"
  "cost_of p (Boost f e) = (cost_of p e)
     \<lparr>construction_upper := saturating_add (construction_upper (cost_of p e)) 1\<rparr>"
  "cost_of p (Optional r es) = fold_costs 5 p ((cost_of p r)
     \<lparr>construction_upper := saturating_add (construction_upper (cost_of p r)) (length es + 1)\<rparr>) es"
  by (simp_all add: cost_of_def saturating_add_min_left fold_costs_eq add.assoc)

lemma scan_group:
  assumes IH: "\<And>e. e \<in> set es \<Longrightarrow> scan_at e" and k: "kind = 1 \<or> kind = 2"
    and v: "d \<le> MAX_EXPRESSION_DEPTH" "budget_children (length es) b = Ok b1" "visit_all es (Suc d) b1 = Ok b'"
    and w: "length es < 65536" "list_all expression_wire es" "list_all (expr_shape MAX_FIELDS) es"
    and s: "spans c (enc_u8 kind @ enc_count16 (length es) @ concat (map enc_expression es)) c'"
  shows "scan_search_expression p d b c = Ok ((fold_costs kind p
    \<lparr>terms_upper = 0, construction_upper = length es, has_expensive_mode = False,
     has_positive_anchor = (kind = 2)\<rparr> es, b'), c')"
proof -
  from s obtain c1 c2 where "spans c (enc_u8 kind) c1" "spans c1 (enc_count16 (length es)) c2"
    and cs: "spans c2 (concat (map enc_expression es)) c'" by (auto simp: spans_append_iff)
  then show ?thesis
    using k v(1,2) w(1) scan_children [OF IH v(3) w(2,3) cs]
    by (subst scan_search_expression.simps) (auto simp: budget_depth_def follow_reads)
qed

lemma scan_all: "scan_at e"
proof (induction e)
  case (Clause cl)
  show ?case by (rule scan_clause)
next
  case (AndE es)
  have "length es < 65536 \<Longrightarrow> min usize_max (length es) = length es" by (simp add: usize_max_def)
  then show ?case unfolding scan_at_def cost_of_groups
    using scan_group [where kind = 1, OF AndE] by (auto simp: result_simps)
next
  case (OrE es)
  have "length es < 65536 \<Longrightarrow> min usize_max (length es) = length es" by (simp add: usize_max_def)
  then show ?case unfolding scan_at_def cost_of_groups
    using scan_group [where kind = 2, OF OrE] by (auto simp: result_simps)
next
  case (NotE e)
  show ?case unfolding scan_at_def cost_of_groups
  proof (intro allI impI)
    fix p d b c b' c'
    assume "visit (NotE e) d b = Ok b'" "expression_wire (NotE e)" "expr_shape MAX_FIELDS (NotE e)"
      "spans c (enc_expression (NotE e)) c'"
    moreover from this obtain b1 c1 where "budget_depth d = Ok ()" "budget_charge 2 b = Ok b1"
        "visit e (Suc d) b1 = Ok b'" "spans c (enc_u8 3) c1" "spans c1 (enc_expression e) c'"
      by (auto simp: and_then_Ok_iff spans_append_iff)
    ultimately show "scan_search_expression p d b c = Ok ((\<lparr>terms_upper = terms_upper (cost_of p e),
       construction_upper = saturating_add (construction_upper (cost_of p e)) 2,
       has_expensive_mode = has_expensive_mode (cost_of p e), has_positive_anchor = False\<rparr>, b'), c')"
      using NotE by (subst scan_search_expression.simps) (simp add: scan_at_def follow_reads)
  qed
next
  case (Boost f e)
  show ?case unfolding scan_at_def cost_of_groups
  proof (intro allI impI)
    fix p d b c b' c'
    assume "visit (Boost f e) d b = Ok b'" "expression_wire (Boost f e)"
      "expr_shape MAX_FIELDS (Boost f e)" "spans c (enc_expression (Boost f e)) c'"
    moreover from this obtain b1 c1 c2 where "budget_depth d = Ok ()" "validate_query_boost f = Ok ()"
        "budget_charge 1 b = Ok b1" "visit e (Suc d) b1 = Ok b'" "spans c (enc_u8 4) c1"
        "spans c1 (enc_u32 f) c2" "spans c2 (enc_expression e) c'"
      by (auto simp: and_then_Ok_iff spans_append_iff)
    ultimately show "scan_search_expression p d b c = Ok (((cost_of p e)
       \<lparr>construction_upper := saturating_add (construction_upper (cost_of p e)) 1\<rparr>, b'), c')"
      using Boost by (subst scan_search_expression.simps) (simp add: scan_at_def follow_reads)
  qed
next
  case (Optional r es)
  show ?case unfolding scan_at_def cost_of_groups
  proof (intro allI impI)
    fix p d b c b' c'
    assume v: "visit (Optional r es) d b = Ok b'" and w: "expression_wire (Optional r es)"
      and n: "expr_shape MAX_FIELDS (Optional r es)" and s: "spans c (enc_expression (Optional r es)) c'"
    from s obtain c1 c2 c3 where s: "spans c (enc_u8 5) c1" "spans c1 (enc_count16 (length es)) c2"
        "spans c2 (enc_expression r) c3" "spans c3 (concat (map enc_expression es)) c'"
      by (auto simp: spans_append_iff)
    from v obtain b1 b2 b3 where v: "budget_depth d = Ok ()" "budget_optional_children (length es) b = Ok b1"
        "budget_charge 1 b1 = Ok b2" "visit r (Suc d) b2 = Ok b3" "visit_all es (Suc d) b3 = Ok b'"
      by (auto simp: and_then_Ok_iff)
    have "scan_search_expression p (Suc d) b2 c2 = Ok ((cost_of p r, b3), c3)"
      using Optional(1) v(4) w n s(3) by (simp add: scan_at_def)
    then show "scan_search_expression p d b c = Ok ((fold_costs 5 p ((cost_of p r)
       \<lparr>construction_upper := saturating_add (construction_upper (cost_of p r)) (length es + 1)\<rparr>) es, b'), c')"
      using scan_children [OF Optional(2) v(5) _ _ s(4)] v(1-3) s(1) w n count16_codec.complete [OF _ s(2)]
      by (subst scan_search_expression.simps) (simp add: follow_reads)
  qed
qed

section \<open>What the scanner reports of a filter and of the catalog section\<close>

fun filter_costly :: "filter_expression \<Rightarrow> bool" where
  "filter_costly (FClause f cmp vs) \<longleftrightarrow> cmp \<notin> {Equals, In} \<or> 16 < length vs"
| "filter_costly (FAnd es) \<longleftrightarrow> list_ex filter_costly es"
| "filter_costly (FOr es) \<longleftrightarrow> list_ex filter_costly es"
| "filter_costly (FNot e) \<longleftrightarrow> True"

definition filter_expensive :: "filter_expression \<Rightarrow> bool" where
  "filter_expensive e \<longleftrightarrow> filter_costly e \<or> 16 < filter_leaves e"

definition filter_scan_at :: "filter_expression \<Rightarrow> bool" where
  "filter_scan_at e \<longleftrightarrow> (\<forall>d n c n' c'. filter_accepts d n n' [e] \<longrightarrow> filter_wire e \<longrightarrow>
     spans c (enc_filter e) c' \<longrightarrow> scan_filter_expression d n c = Ok ((filter_costly e, n'), c'))"

lemma comparator_code_facts:
  "\<not> 8 < comparator_code k" "scan_expected (comparator_code k) = expected_values k"
  "comparator_code k < 7 \<longleftrightarrow> expected_values k \<noteq> Some 0"
  "2 \<le> comparator_code k \<longleftrightarrow> k \<notin> {Equals, In}"
proof -
  show "\<not> 8 < comparator_code k" by (cases k; simp)
  show "scan_expected (comparator_code k) = expected_values k"
    by (cases k; simp add: scan_expected_def expected_values_def)
  show "comparator_code k < 7 \<longleftrightarrow> expected_values k \<noteq> Some 0"
    by (cases k; simp add: expected_values_def)
  show "2 \<le> comparator_code k \<longleftrightarrow> k \<notin> {Equals, In}"
    by (cases k; simp add: word_le_nat_alt)
qed

lemma scan_filter_clause: "filter_scan_at (FClause f cmp vs)"
  unfolding filter_scan_at_def
proof (intro allI impI)
  fix d n c n' c'
  assume a: "filter_accepts d n n' [FClause f cmp vs]" and w: "filter_wire (FClause f cmp vs)"
    and s: "spans c (enc_filter (FClause f cmp vs)) c'"
  from s obtain c1 c2 c3 c4 where s: "spans c (enc_u8 0) c1" "spans c1 (enc_string f) c2"
      "spans c2 (enc_u8 (comparator_code cmp)) c3" "spans c3 (enc_count16 (length vs)) c4"
      "spans c4 (concat (map enc_filter_value vs)) c'"
    by (auto simp: spans_append_iff enc_filter_values_def)
  from w have w: "wf_string f" "list_all filter_value_wire vs" by auto
  from a have a: "d \<le> MAX_EXPRESSION_DEPTH" "n' = Suc n" "Suc n \<le> MAX_QUERY_CLAUSES"
      "value_count_ok cmp (length vs)"
    by (auto simp: filter_accepts_def)
  then have "length vs < 65536" by (simp add: value_count_ok_def limit_defs)
  moreover have "length vs \<le> cursor_remaining c4 div 2"
    using filter_value_sized.count_fits [OF w(2) s(5)] .
  ultimately show "scan_filter_expression d n c = Ok ((filter_costly (FClause f cmp vs), n'), c')"
    using a w(1) s(1-4) filter_value_skim.scan_many [OF w(2) s(5)]
    by (subst scan_filter_expression.simps)
       (auto simp: follow_reads comparator_code_facts value_count_ok_def Let_def split: option.splits)
qed

lemma scan_filter_children:
  assumes "\<And>e. e \<in> set es \<Longrightarrow> filter_scan_at e" "filter_accepts d n n' es" "list_all filter_wire es"
    "spans c (concat (map enc_filter es)) c'"
  shows "scan_filter_children (length es) x d n c = Ok ((x \<or> list_ex filter_costly es, n'), c')"
  using assms
proof (induction es arbitrary: n c x)
  case (Cons e es)
  from Cons.prems(2) have "list_all filter_shape es" by (simp add: filter_accepts_def)
  with Cons.prems(2) obtain m where m: "filter_accepts d n m [e]" "filter_accepts d m n' es"
    using filter_accepts_Cons by blast
  from Cons.prems(4) obtain c1 where s: "spans c (enc_filter e) c1" "spans c1 (concat (map enc_filter es)) c'"
    by (auto simp: spans_append_iff)
  have "scan_filter_expression d n c = Ok ((filter_costly e, m), c1)"
    using Cons.prems(1) [of e] Cons.prems(3) m(1) s(1) by (simp add: filter_scan_at_def)
  then show ?case
    using Cons.IH [of m c1] Cons.prems(1,3) m(2) s(2) by simp
qed (simp add: filter_accepts_def)

lemma scan_filter_group:
  assumes IH: "\<And>e. e \<in> set es \<Longrightarrow> filter_scan_at e" and a: "filter_accepts d n n' [FAnd es]"
    and w: "list_all filter_wire es" and k: "kind = 1 \<or> kind = 2"
    and s: "spans c (enc_u8 kind @ enc_count16 (length es) @ concat (map enc_filter es)) c'"
  shows "scan_filter_expression d n c = Ok ((list_ex filter_costly es, n'), c')"
proof -
  from a have a: "d \<le> MAX_EXPRESSION_DEPTH" "es \<noteq> []" "length es \<le> MAX_QUERY_CLAUSES"
      "filter_accepts (Suc d) n n' es"
    by (auto simp: filter_group_accepts)
  then have "length es < 65536" by (simp add: limit_defs)
  moreover from s obtain c1 c2 where "spans c (enc_u8 kind) c1" "spans c1 (enc_count16 (length es)) c2"
    and cs: "spans c2 (concat (map enc_filter es)) c'" by (auto simp: spans_append_iff)
  ultimately show ?thesis
    using a(1-3) k scan_filter_children [OF IH a(4) w cs]
    by (subst scan_filter_expression.simps) (auto simp: follow_reads)
qed

lemma scan_filter_all: "filter_scan_at e"
proof (induction e)
  case (FClause f cmp vs)
  show ?case by (rule scan_filter_clause)
next
  case (FAnd es)
  then show ?case unfolding filter_scan_at_def [of "FAnd es"]
    using scan_filter_group [where kind = 1, OF FAnd] by simp
next
  case (FOr es)
  then show ?case unfolding filter_scan_at_def [of "FOr es"]
    using scan_filter_group [where kind = 2, OF FOr] by (simp add: filter_or_accepts)
next
  case (FNot e)
  show ?case unfolding filter_scan_at_def [of "FNot e"] filter_not_accepts
  proof (intro allI impI)
    fix d n c n' c'
    assume "d \<le> MAX_EXPRESSION_DEPTH \<and> filter_accepts (Suc d) n n' [e]" "filter_wire (FNot e)"
      "spans c (enc_filter (FNot e)) c'"
    then obtain c1 where "d \<le> MAX_EXPRESSION_DEPTH" "filter_accepts (Suc d) n n' [e]" "filter_wire e"
        "spans c (enc_u8 3) c1" "spans c1 (enc_filter e) c'"
      by (auto simp: spans_append_iff)
    then show "scan_filter_expression d n c = Ok ((filter_costly (FNot e), n'), c')"
      using FNot by (subst scan_filter_expression.simps) (simp add: filter_scan_at_def follow_reads)
  qed
qed

fun names_ok :: "aggregation_request \<Rightarrow> bool" where
  "names_ok (Aggregation n f k ch) \<longleftrightarrow> n \<noteq> [] \<and> length n \<le> 128 \<and> list_all names_ok ch"

definition loop_scan_at :: "aggregation_request list \<Rightarrow> bool" where
  "loop_scan_at as \<longleftrightarrow> (\<forall>d c c'. list_all (aggregation_wire d) as \<longrightarrow> list_all names_ok as \<longrightarrow>
     spans c (concat (map enc_aggregation as)) c' \<longrightarrow>
     scan_aggregation_loop (length as) d c = Ok ((), c'))"

lemma scan_aggregations_follows:
  assumes "loop_scan_at as" "aggregations_wire d as" "list_all names_ok as"
    "spans c (enc_aggregations as) c'"
  shows "scan_aggregations d c = Ok (length as, c')"
proof -
  from assms(4) obtain c1 where s: "spans c (enc_count32 (length as)) c1"
      "spans c1 (concat (map enc_aggregation as)) c'"
    by (auto simp: enc_aggregations_def spans_append_iff)
  then have "catalog_count 13 c = Ok (length as, c1)"
    using assms(2) aggregation_count_fits [OF s(2)] catalog_count_iff [OF spans_ok [OF s(1)]]
    by (simp add: aggregations_wire_def not_less)
  moreover have "scan_aggregation_loop (length as) d c1 = Ok ((), c')"
    using assms s(2) by (simp add: loop_scan_at_def aggregations_wire_def)
  ultimately show ?thesis
    using assms(2) by (subst scan_aggregations.simps) (auto simp: aggregations_wire_def)
qed

lemma loop_scan_Cons:
  assumes "loop_scan_at ch" "loop_scan_at as"
  shows "loop_scan_at (Aggregation nm f kd ch # as)"
  unfolding loop_scan_at_def
proof (intro allI impI)
  fix d c c'
  assume w: "list_all (aggregation_wire d) (Aggregation nm f kd ch # as)"
    and n: "list_all names_ok (Aggregation nm f kd ch # as)"
    and s: "spans c (concat (map enc_aggregation (Aggregation nm f kd ch # as))) c'"
  from s obtain c1 c2 c3 c4 where s: "spans c (enc_string nm) c1" "spans c1 (enc_string f) c2"
      "spans c2 (enc_kind kd) c3" "spans c3 (enc_aggregations ch) c4"
      "spans c4 (concat (map enc_aggregation as)) c'"
    by (auto simp: spans_append_iff enc_aggregation_eq simp del: enc_aggregation.simps)
  from w have w: "wf_string nm" "wf_string f" "kind_wire kd" "aggregations_wire (Suc d) ch"
      "ch \<noteq> [] \<longrightarrow> kd \<noteq> Stats" "list_all (aggregation_wire d) as"
    by (auto simp: aggregations_wire_def)
  have "scan_aggregations (Suc d) c3 = Ok (length ch, c4)"
    using scan_aggregations_follows [OF assms(1) w(4) _ s(4)] n by simp
  moreover have "scan_aggregation_loop (length as) d c4 = Ok ((), c')"
    using assms(2) w(6) s(5) n by (simp add: loop_scan_at_def)
  moreover have "kind_code kd = 1 \<longleftrightarrow> kd = Stats" by (cases kd) simp_all
  moreover have "str_bytes nm \<noteq> [] \<and> length (str_bytes nm) \<le> 128" using n by (simp add: str_bytes_def)
  ultimately show "scan_aggregation_loop (length (Aggregation nm f kd ch # as)) d c = Ok ((), c')"
    using w(1-3,5) s(1-3) by (auto simp: follow_reads kind_skim.scan_follows)
qed

lemma loop_scan_all: "loop_scan_at as"
proof -
  have build: "loop_scan_at as" if "\<And>a. a \<in> set as \<Longrightarrow> loop_scan_at (agg_children a)" for as
    using that
  proof (induction as)
    case (Cons a as)
    from Cons have "loop_scan_at (agg_children a)" "loop_scan_at as" by simp_all
    then show ?case by (cases a) (simp add: loop_scan_Cons)
  qed (simp add: loop_scan_at_def)
  have "loop_scan_at (agg_children a)" for a
    by (induction a) (auto intro: build)
  then show ?thesis by (rule build)
qed

lemma scan_catalog_follows:
  assumes "sorts_wire s" "aggregations_wire 1 as" "list_all names_ok as"
    "spans c (enc_sorts s @ enc_aggregations as) c'"
  shows "scan_catalog c = Ok (s \<noteq> None \<or> as \<noteq> [], c')"
proof -
  define ss where "ss = (case s of None \<Rightarrow> [] | Some ss \<Rightarrow> ss)"
  have ss: "length ss < 4294967296" "list_all (\<lambda>r. wf_string (sort_field r)) ss" "ss = [] \<longleftrightarrow> s = None"
    using assms(1) by (auto simp: ss_def sorts_wire_def split: option.splits)
  from assms(4) obtain c1 c2 where sp: "spans c (enc_count32 (length ss)) c1"
      "spans c1 (concat (map enc_sort ss)) c2" "spans c2 (enc_aggregations as) c'"
    by (auto simp: spans_append_iff enc_sorts_def ss_def dest: spans_ok' split: option.splits)
  have "catalog_count 6 c = Ok (length ss, c1)"
    using sp(1) ss(1) sort_codec.count_fits [OF ss(2) sp(2)] catalog_count_iff [OF spans_ok [OF sp(1)]]
    by (simp add: not_less)
  then show ?thesis
    using sort_skim.scan_many [OF ss(2) sp(2)] ss(3)
      scan_aggregations_follows [OF loop_scan_all assms(2,3) sp(3)]
    by (simp add: scan_catalog_def)
qed

lemma scan_candidates_follows:
  assumes "candidates_wire ids" "spans c (enc_candidates ids) c'"
  shows "scan_candidates c = Ok ((), c')"
proof (cases ids)
  case None
  with assms show ?thesis by (simp add: scan_candidates_def enc_candidates_def follow_reads)
next
  case (Some xs)
  from assms(2) obtain c1 c2 where s: "spans c (enc_boolean True) c1"
      "spans c1 (enc_count16 (length xs)) c2" "spans c2 (concat (map enc_string xs)) c'"
    by (auto simp: Some enc_candidates_def spans_append_iff)
  from assms(1) have w: "list_all wf_record_id xs" "length xs \<le> MAX_CANDIDATE_IDS"
    by (auto simp: Some candidates_wire_def candidates_ok_def)
  then have "length xs < 65536" by (simp add: limit_defs)
  with w s(1,2) show ?thesis
    using record_id_skim.scan_many [OF w(1) s(3)] record_id_sized.count_fits [OF w(1) s(3)]
    by (simp add: scan_candidates_def follow_reads)
qed

lemma scan_filter_follows:
  assumes "pred_option filter_ok f" "spans c (enc_filter_option f) c'"
  shows "scan_filter c = Ok (pred_option filter_expensive f \<and> f \<noteq> None, c')"
proof (cases f)
  case None
  with assms show ?thesis by (simp add: scan_filter_def enc_filter_option_def follow_reads)
next
  case (Some e)
  from assms(2) obtain c1 where s: "spans c (enc_boolean True) c1" "spans c1 (enc_filter e) c'"
    by (auto simp: Some enc_filter_option_def spans_append_iff)
  have "filter_accepts 0 0 (filter_leaves e) [e]" "filter_wire e"
    using assms(1) by (auto simp: Some filter_ok_def filter_accepts_def)
  then have "scan_filter_expression 0 0 c1 = Ok ((filter_costly e, filter_leaves e), c')"
    using scan_filter_all [of e] s(2) by (simp add: filter_scan_at_def)
  then show ?thesis using s(1)
    by (simp add: Some scan_filter_def follow_reads filter_expensive_def)
qed

section \<open>Theorems of the scanner\<close>

definition raised_profile :: "nat \<Rightarrow> nat \<Rightarrow> nat \<Rightarrow> nat option" where
  "raised_profile n terms clauses =
     (if MAX_QUERY_TERMS < terms \<or> MAX_QUERY_CLAUSES < clauses then Some n else None)"

definition expensive_request :: "nat option \<Rightarrow> search_request \<Rightarrow> bool" where
  "expensive_request p r \<longleftrightarrow>
     rq_traversal r \<or> has_catalog r \<or> rq_exact_total r \<or>
     expr_expensive (rq_expression r) \<or> \<not> anchored (rq_expression r) \<or>
     (\<exists>f. rq_filter r = Some f \<and> filter_expensive f) \<or>
     (p \<noteq> None \<and> (MAX_QUERY_TERMS < expr_terms p (rq_expression r) \<or>
        MAX_QUERY_CLAUSES < expr_construction p (rq_expression r)))"

lemma decoded_frame:
  assumes "decode_search bytes = Ok r" "length bytes \<le> usize_max"
  obtains c c1 c2 c3 where "cursor_new bytes ''FTSQ'' = Ok c" "fields_wire r" "spans c (enc_fields r) c1"
    "decode_search_traversal c1 = Ok ((rq_traversal r, rq_after r), c2)"
    "spans c2 (enc_count32 (rq_budget_milliseconds r)) c3" "is_ok (cursor_finish c3)"
    "0 < rq_budget_milliseconds r" "rq_budget_milliseconds r \<le> MAX_SEARCH_BUDGET_MILLISECONDS"
proof -
  from assms(1) obtain c c1 c2 c3 where s: "cursor_new bytes ''FTSQ'' = Ok c" "reads_fields r c c1"
      "decode_search_traversal c1 = Ok ((rq_traversal r, rq_after r), c2)"
      "cursor_u32_usize c2 = Ok (rq_budget_milliseconds r, c3)" "is_ok (cursor_finish c3)"
      "0 < rq_budget_milliseconds r" "rq_budget_milliseconds r \<le> MAX_SEARCH_BUDGET_MILLISECONDS"
    unfolding decode_search_steps by blast
  from s(1,2) have f: "fields_wire r" "spans c (enc_fields r) c1"
    using reads_fields_iff cursor_new_cursor_ok assms(2) by blast+
  then have "cursor_ok c2"
    using s(3) decode_search_traversal_iff [OF spans_ok' [OF f(2)]] spans_ok' by blast
  then have "spans c2 (enc_count32 (rq_budget_milliseconds r)) c3"
    using s(4) count32_codec.read_iff by blast
  then show ?thesis using that s(1,3,5-7) f by blast
qed

lemma fields_spans:
  assumes "spans c (enc_fields r) c'"
  obtains d1 d2 d3 d4 d5 d6 where "spans c (enc_expression (rq_expression r)) d1"
    "spans d1 (enc_candidates (rq_candidate_ids r)) d2" "spans d2 (enc_filter_option (rq_filter r)) d3"
    "spans d3 (enc_sorts (rq_sort r) @ enc_aggregations (rq_aggregations r)) d4"
    "spans d4 (enc_count32 (rq_offset r)) d5" "spans d5 (enc_count32 (rq_limit r)) d6"
    "spans d6 (enc_boolean (rq_exact_total r)) c'"
  using assms by (auto simp: enc_fields_def spans_append_iff) blast

lemma count32_word: "n < 4294967296 \<Longrightarrow> spans c (enc_count32 n) c' \<Longrightarrow> cursor_u32 c = Ok (word_of_nat n, c')"
  by (rule u32_codec.complete) (simp_all add: enc_u32_def enc_count32_def unat_of_nat)

lemma classify_decoded:
  assumes "decode_search bytes = Ok r" "length bytes \<le> usize_max"
    and "list_all names_ok (rq_aggregations r)"
    and "0 < terms" "terms \<le> MAX_CONFIGURED_QUERY_TERMS"
    and "0 < clauses" "clauses \<le> MAX_CONFIGURED_QUERY_CLAUSES"
    and "structure_ok (rq_expression r) clauses n"
  shows "classify_search bytes n terms clauses =
    Ok (expensive_request (raised_profile n terms clauses) r)"
proof -
  let ?p = "raised_profile n terms clauses" and ?e = "rq_expression r"
  let ?b = "\<lparr>sb_limit = clauses, sb_remaining = clauses, sb_text_bytes = 0, sb_fields = n\<rparr>"
  from assms(1,2) obtain c c1 c2 where new: "cursor_new bytes ''FTSQ'' = Ok c" and w: "fields_wire r"
    and s: "spans c (enc_fields r) c1"
    and t: "decode_search_traversal c1 = Ok ((rq_traversal r, rq_after r), c2)"
    by (rule decoded_frame)
  from s obtain d1 d2 d3 d4 d5 d6 where s: "spans c (enc_expression ?e) d1"
      "spans d1 (enc_candidates (rq_candidate_ids r)) d2" "spans d2 (enc_filter_option (rq_filter r)) d3"
      "spans d3 (enc_sorts (rq_sort r) @ enc_aggregations (rq_aggregations r)) d4"
      "spans d4 (enc_count32 (rq_offset r)) d5" "spans d5 (enc_count32 (rq_limit r)) d6"
      "spans d6 (enc_boolean (rq_exact_total r)) c1"
    by (rule fields_spans)
  from assms(8) obtain b where "visit ?e 0 ?b = Ok b"
    by (auto simp: visit_accepts affordable_def accepts_new)
  then have expr: "scan_search_expression ?p 0 ?b c = Ok ((cost_of ?p ?e, b), d1)"
    using scan_all [of ?e] w s(1) by (simp add: scan_at_def fields_wire_def structure_ok_def)
  have cand: "scan_candidates d1 = Ok ((), d2)"
    using scan_candidates_follows [OF _ s(2)] w by (simp add: fields_wire_def)
  have filt: "scan_filter d2 = Ok (pred_option filter_expensive (rq_filter r) \<and> rq_filter r \<noteq> None, d3)"
    using scan_filter_follows [OF _ s(3)] w by (simp add: fields_wire_def)
  have cat: "scan_catalog d3 = Ok (has_catalog r, d4)"
    using scan_catalog_follows [OF _ _ assms(3) s(4)] w by (simp add: fields_wire_def has_catalog_def)
  have nums: "cursor_u32 d4 = Ok (word_of_nat (rq_offset r), d5)" "cursor_u32 d5 = Ok (word_of_nat (rq_limit r), d6)"
    using count32_word w s(5,6) by (auto simp: fields_wire_def)
  have p: "?p = (if MAX_QUERY_TERMS < terms \<or> MAX_QUERY_CLAUSES < clauses then Some n else None)"
    by (simp add: raised_profile_def)
  have lim: "validate_query_limits terms clauses = Ok ()" "budget_new clauses n = Ok ?b"
    using assms(4-7) validate_query_limits_iff [of terms clauses]
    by (auto simp: budget_new_Ok_iff is_ok_iff)
  have cap: "MAX_QUERY_CLAUSES < usize_max" by (simp add: limit_defs usize_max_def)
  show ?thesis
    unfolding classify_search_def Let_def p [symmetric]
    using lim new expr cand filt cat nums boolean_codec.complete [OF _ s(7)] t
    by (cases "rq_filter r") (auto simp: cost_of_def cap expensive_request_def)
qed



text \<open>
  The time budget that admission reads from the last four bytes of a frame is the budget
  the decoder finds at the end of the request, so the deadline of a queued search is the
  deadline its caller asked for.
\<close>

theorem search_budget_agrees:
  assumes "decode_search bytes = Ok r" "length bytes \<le> usize_max"
  shows "search_budget bytes = Ok (rq_budget_milliseconds r)"
proof -
  from assms obtain c c1 c2 c3 where new: "cursor_new bytes ''FTSQ'' = Ok c"
    and s: "spans c2 (enc_count32 (rq_budget_milliseconds r)) c3" and f: "is_ok (cursor_finish c3)"
    and b: "spans c (enc_fields r) c1" "decode_search_traversal c1 = Ok ((rq_traversal r, rq_after r), c2)"
    and r: "0 < rq_budget_milliseconds r" "rq_budget_milliseconds r \<le> MAX_SEARCH_BUDGET_MILLISECONDS"
    by (rule decoded_frame)
  have bs: "cur_bytes c2 = bytes"
    using b new decode_search_traversal_iff [OF spans_ok' [OF b(1)]]
    by (auto simp: cursor_new_Ok_iff dest!: spans_bytes)
  from s f have "drop (cur_offset c2) bytes = enc_count32 (rq_budget_milliseconds r)"
      "cur_offset c2 = length bytes - 4"
    using spans_length [OF s] by (auto simp: spans_def bs cursor_finish_def prefix_def split: if_splits)
      (metis (no_types, lifting) add_diff_cancel_left' append.right_neutral enc_lengths(8) length_append
        length_drop add_cancel_right_right length_0_conv)
  then have tail: "drop (length bytes - 4) bytes = enc_count32 (rq_budget_milliseconds r)" by simp
  have "unat (u32_from_le (enc_count32 (rq_budget_milliseconds r))) = rq_budget_milliseconds r"
    using r by (simp add: u32_from_le_def enc_count32_def le_nat_to_le limit_defs unat_of_nat)
  then show ?thesis
    using new r tail by (simp add: search_budget_def packed_budget_def Let_def)
qed

theorem search_budget_agrees_witness: "search_budget (enc_search sample_request) = Ok 50"
proof -
  have len: "length (enc_search sample_request) \<le> usize_max" by (simp add: sample_defs)
  have "decode_search (enc_search sample_request) = Ok sample_request"
    using len by (simp add: decode_search_iff) (simp add: sample_defs)
  then show ?thesis
    using search_budget_agrees [OF _ len] by (simp add: sample_request_def)
qed

end
