(* ===== verification/Batch_Codec.thy ===== *)
theory Batch_Codec
  imports Search_Codec
begin

text \<open>
  Mutation batches in \<^verbatim>\<open>src/src/protocol.rs\<close>: the header check of \<open>validate_batch_header\<close> and
  the decoder \<open>decode_batch\<close>, which turns a packed batch into upserts and deletes and guards
  every allocation by the bytes that remain.  The decoder accepts exactly the encodings of
  well-formed batches, and each batch has exactly one encoding.
\<close>

section \<open>The decoder\<close>

record upsert =
  up_id :: string
  up_version :: "string option"
  up_fields :: "(string \<times> string list) list"
  up_filters :: "(string \<times> filter_value list) list"

record mutation_batch =
  mb_upserts :: "upsert list"
  mb_deletes :: "string list"

definition validate_batch_header :: "u8 list \<Rightarrow> nat \<Rightarrow> unit res" where
  "validate_batch_header bytes max_batch_bytes =
     (if max_batch_bytes < length bytes
      then Err (fulltext_error_new ''E_BATCH_TOO_LARGE''
        (''mutation batch is '' @ nat_digits (length bytes) @ '' bytes; maximum is ''
         @ nat_digits max_batch_bytes))
      else
       and_then (cursor_new bytes ''FTMB'') (\<lambda>c.
       and_then (cursor_u32 c) (\<lambda>(_, c).
       and_then (cursor_u32 c) (\<lambda>(_, c). Ok ()))))"

text \<open>A 16-bit count, the guard on the bytes that remain, and the loop that reads the elements.\<close>

definition read_counted :: "nat \<Rightarrow> string \<Rightarrow> 'a reader \<Rightarrow> 'a list reader" where
  "read_counted minimum message read c =
     and_then (cursor_u16_usize c) (\<lambda>(count, c).
     if cursor_remaining c div minimum < count then Err (invalid message)
     else read_many count read c)"

definition read_limited :: "nat \<Rightarrow> string \<Rightarrow> nat \<Rightarrow> string \<Rightarrow> 'a reader \<Rightarrow> 'a list reader" where
  "read_limited limit limit_message minimum message read c =
     and_then (cursor_u16_usize c) (\<lambda>(count, c).
     if limit < count then Err (invalid limit_message)
     else if cursor_remaining c div minimum < count then Err (invalid message)
     else read_many count read c)"

definition decode_version :: "string option reader" where
  "decode_version c = and_then (cursor_boolean c) (\<lambda>(present, c).
     if present then
       and_then (cursor_string c) (\<lambda>(version, c).
         if MAX_RECORD_VERSION_BYTES < length version
         then Err (invalid ''record versions must not exceed 4096 UTF-8 bytes'')
         else Ok (Some version, c))
     else Ok (None, c))"

definition decode_field_values :: "(string \<times> string list) reader" where
  "decode_field_values c =
     and_then (cursor_string c) (\<lambda>(name, c).
     and_then (read_counted 4 ''value count exceeds the packed batch length'' cursor_string c)
       (\<lambda>(values, c). Ok ((name, values), c)))"

definition decode_filter_values :: "(string \<times> filter_value list) reader" where
  "decode_filter_values c =
     and_then (cursor_string c) (\<lambda>(name, c).
     and_then (read_counted 2 ''filter value count exceeds the packed batch length''
         decode_filter_value c)
       (\<lambda>(values, c). Ok ((name, values), c)))"

definition decode_upsert :: "upsert reader" where
  "decode_upsert c =
     and_then (cursor_record_id c) (\<lambda>(rid, c).
     and_then (decode_version c) (\<lambda>(version, c).
     and_then (read_limited MAX_FIELDS ''upsert field count exceeds 1024''
         6 ''upsert field count exceeds the packed batch length'' decode_field_values c) (\<lambda>(fields, c).
     and_then (read_limited MAX_FIELDS ''upsert filter count exceeds the packed batch length''
         6 ''upsert filter count exceeds the packed batch length'' decode_filter_values c) (\<lambda>(filters, c).
       Ok (\<lparr>up_id = rid, up_version = version, up_fields = fields, up_filters = filters\<rparr>, c)))))"

definition minimum_batch_bytes :: "nat \<Rightarrow> nat \<Rightarrow> nat option" where
  "minimum_batch_bytes upsert_count delete_count =
     (case checked_mul upsert_count 6 of
        None \<Rightarrow> None
      | Some bytes \<Rightarrow> (case checked_mul delete_count 4 of
          None \<Rightarrow> None
        | Some deletes \<Rightarrow> checked_add bytes deletes))"

definition decode_batch :: "u8 list \<Rightarrow> mutation_batch res" where
  "decode_batch bytes =
     and_then (cursor_new bytes ''FTMB'') (\<lambda>c.
     and_then (cursor_u32_usize c) (\<lambda>(upsert_count, c).
     and_then (cursor_u32_usize c) (\<lambda>(delete_count, c).
     and_then (ok_or (invalid ''mutation count overflow'')
         (minimum_batch_bytes upsert_count delete_count)) (\<lambda>minimum_bytes.
     if cursor_remaining c < minimum_bytes
     then Err (invalid ''mutation counts exceed the packed batch length'')
     else
     and_then (read_many upsert_count decode_upsert c) (\<lambda>(upserts, c).
     if cursor_remaining c div 4 < delete_count
     then Err (invalid ''delete count exceeds the packed batch length'')
     else
     and_then (read_many delete_count cursor_record_id c) (\<lambda>(deletes, c).
     and_then (cursor_finish c) (\<lambda>_.
       Ok \<lparr>mb_upserts = upserts, mb_deletes = deletes\<rparr>)))))))"

section \<open>The wire format\<close>

definition enc_counted :: "('a \<Rightarrow> u8 list) \<Rightarrow> 'a list \<Rightarrow> u8 list" where
  "enc_counted enc xs = enc_count16 (length xs) @ concat (map enc xs)"

definition enc_version :: "string option \<Rightarrow> u8 list" where
  "enc_version v = (case v of None \<Rightarrow> enc_boolean False | Some s \<Rightarrow> enc_boolean True @ enc_string s)"

definition version_wire :: "string option \<Rightarrow> bool" where
  "version_wire v = pred_option (\<lambda>s. wf_string s \<and> length s \<le> MAX_RECORD_VERSION_BYTES) v"

definition enc_field_values :: "string \<times> string list \<Rightarrow> u8 list" where
  "enc_field_values f = enc_string (fst f) @ enc_counted enc_string (snd f)"

definition field_values_wire :: "string \<times> string list \<Rightarrow> bool" where
  "field_values_wire f \<longleftrightarrow> wf_string (fst f) \<and> length (snd f) < 65536 \<and> list_all wf_string (snd f)"

definition enc_named_filters :: "string \<times> filter_value list \<Rightarrow> u8 list" where
  "enc_named_filters f = enc_string (fst f) @ enc_counted enc_filter_value (snd f)"

definition named_filters_wire :: "string \<times> filter_value list \<Rightarrow> bool" where
  "named_filters_wire f \<longleftrightarrow>
     wf_string (fst f) \<and> length (snd f) < 65536 \<and> list_all filter_value_wire (snd f)"

definition enc_upsert :: "upsert \<Rightarrow> u8 list" where
  "enc_upsert u = enc_string (up_id u) @ enc_version (up_version u)
     @ enc_counted enc_field_values (up_fields u) @ enc_counted enc_named_filters (up_filters u)"

definition upsert_wire :: "upsert \<Rightarrow> bool" where
  "upsert_wire u \<longleftrightarrow>
     wf_record_id (up_id u) \<and> version_wire (up_version u) \<and>
     length (up_fields u) \<le> MAX_FIELDS \<and> list_all field_values_wire (up_fields u) \<and>
     length (up_filters u) \<le> MAX_FIELDS \<and> list_all named_filters_wire (up_filters u)"

definition enc_batch :: "mutation_batch \<Rightarrow> u8 list" where
  "enc_batch b = enc_header ''FTMB'' @ enc_count32 (length (mb_upserts b))
     @ enc_count32 (length (mb_deletes b)) @ concat (map enc_upsert (mb_upserts b))
     @ concat (map enc_string (mb_deletes b))"

definition batch_wire :: "mutation_batch \<Rightarrow> bool" where
  "batch_wire b \<longleftrightarrow>
     length (mb_upserts b) < 4294967296 \<and> list_all upsert_wire (mb_upserts b) \<and>
     length (mb_deletes b) < 4294967296 \<and> list_all wf_record_id (mb_deletes b)"

context sized_codec
begin

lemma read_limited_iff:
  assumes "cursor_ok c" "limit < 65536"
  shows "read_limited limit limit_message k message read c = Ok (xs, c') \<longleftrightarrow>
    length xs \<le> limit \<and> list_all wf xs \<and> spans c (enc_counted enc xs) c'"
proof -
  have "read_limited limit limit_message k message read c = Ok (xs, c') \<longleftrightarrow>
      (\<exists>n c1. n < 65536 \<and> spans c (enc_count16 n) c1 \<and> n \<le> limit \<and>
         (\<not> cursor_remaining c1 div k < n \<and> read_many n read c1 = Ok (xs, c')))"
    using assms(1) by (auto simp: read_limited_def and_then_Ok_iff count16_codec.read_iff not_less) 
  also have "\<dots> \<longleftrightarrow> (\<exists>c1. length xs \<le> limit \<and> list_all wf xs \<and>
      spans c (enc_count16 (length xs)) c1 \<and> spans c1 (concat (map enc xs)) c')"
    using assms(2) by (auto simp: guarded_many_iff [OF spans_ok'] cong: conj_cong)
      (intro exI [of _ "length xs"], auto)
  finally show ?thesis by (auto simp: enc_counted_def spans_append_iff)
qed

lemma read_counted_iff:
  assumes "cursor_ok c"
  shows "read_counted k message read c = Ok (xs, c') \<longleftrightarrow>
    length xs < 65536 \<and> list_all wf xs \<and> spans c (enc_counted enc xs) c'"
proof -
  have "read_counted k message read c = Ok (xs, c') \<longleftrightarrow> read_limited 65535 [] k message read c = Ok (xs, c')"
    using assms by (auto simp: read_counted_def read_limited_def and_then_Ok_iff count16_codec.read_iff)
  then show ?thesis using read_limited_iff [OF assms, of 65535] by auto
qed

end

lemma enc_counted_min [simp]: "2 \<le> length (enc_counted enc xs)"
  by (simp add: enc_counted_def)

interpretation version_codec: wire_codec decode_version enc_version version_wire
proof
  fix c c' :: cursor and v :: "string option"
  assume "cursor_ok c"
  then show "decode_version c = Ok (v, c') \<longleftrightarrow> version_wire v \<and> spans c (enc_version v) c'"
    by (cases v) (simp_all add: decode_version_def enc_version_def version_wire_def result_simps
        wire_simps not_less cong: conj_cong if_cong, auto)
qed

interpretation field_values_codec: sized_codec decode_field_values enc_field_values field_values_wire 6
proof
  fix c c' :: cursor and f :: "string \<times> string list"
  assume "cursor_ok c"
  then show "decode_field_values c = Ok (f, c') \<longleftrightarrow> field_values_wire f \<and> spans c (enc_field_values f) c'"
    by (cases f) (simp add: decode_field_values_def enc_field_values_def field_values_wire_def
        result_simps wire_simps string_sized.read_counted_iff cong: conj_cong, blast)
next
  fix f :: "string \<times> string list"
  show "6 \<le> length (enc_field_values f)"
    using enc_counted_min [of enc_string "snd f"] by (simp add: enc_field_values_def del: enc_counted_min)
qed simp

interpretation named_filters_codec: sized_codec decode_filter_values enc_named_filters named_filters_wire 6
proof
  fix c c' :: cursor and f :: "string \<times> filter_value list"
  assume "cursor_ok c"
  then show "decode_filter_values c = Ok (f, c') \<longleftrightarrow> named_filters_wire f \<and> spans c (enc_named_filters f) c'"
    by (cases f) (simp add: decode_filter_values_def enc_named_filters_def named_filters_wire_def
        result_simps wire_simps filter_value_sized.read_counted_iff cong: conj_cong, blast)
next
  fix f :: "string \<times> filter_value list"
  show "6 \<le> length (enc_named_filters f)"
    using enc_counted_min [of enc_filter_value "snd f"]
    by (simp add: enc_named_filters_def del: enc_counted_min)
qed simp

interpretation upsert_codec: sized_codec decode_upsert enc_upsert upsert_wire 6
proof
  fix c c' :: cursor and u :: upsert
  assume c: "cursor_ok c"
  obtain i v fs ls where u: "u = \<lparr>up_id = i, up_version = v, up_fields = fs, up_filters = ls\<rparr>" by (cases u)
  have m: "MAX_FIELDS < 65536" by (simp add: limit_defs)
  show "decode_upsert c = Ok (u, c') \<longleftrightarrow> upsert_wire u \<and> spans c (enc_upsert u) c'"
    using c m unfolding u
    by (simp add: decode_upsert_def upsert_wire_def enc_upsert_def result_simps wire_simps
        version_codec.read_iff field_values_codec.read_limited_iff named_filters_codec.read_limited_iff
        cong: conj_cong, blast)
next
  fix u :: upsert
  show "6 \<le> length (enc_upsert u)"
    using enc_counted_min [of enc_field_values "up_fields u"]
    by (simp add: enc_upsert_def del: enc_counted_min)
qed simp

lemma minimum_batch_bytes_small:
  "u < 4294967296 \<Longrightarrow> d < 4294967296 \<Longrightarrow> minimum_batch_bytes u d = Some (6 * u + 4 * d)"
  by (simp add: minimum_batch_bytes_def checked_mul_def checked_add_def usize_max_def)

lemma batch_bytes_fit:
  assumes "list_all upsert_wire us" "list_all wf_record_id ds"
    "spans c (concat (map enc_upsert us)) c1" "spans c1 (concat (map enc_string ds)) c2"
  shows "6 * length us + 4 * length ds \<le> cursor_remaining c"
  using upsert_codec.concat_min [OF assms(1)] record_id_sized.concat_min [OF assms(2)]
    spans_remaining [OF assms(3)] spans_remaining [OF assms(4)] by linarith

lemma decode_batch_iff:
  assumes "length bytes \<le> usize_max"
  shows "decode_batch bytes = Ok b \<longleftrightarrow> batch_wire b \<and> bytes = enc_batch b"
proof -
  obtain us ds where b: "b = \<lparr>mb_upserts = us, mb_deletes = ds\<rparr>" by (cases b)
  let ?wf = "length us < 4294967296 \<and> length ds < 4294967296 \<and> list_all upsert_wire us \<and> list_all wf_record_id ds"
  have "decode_batch bytes = Ok b \<longleftrightarrow>
      (\<exists>c c1 c2 c3 c4. cursor_new bytes ''FTMB'' = Ok c \<and> ?wf \<and>
        spans c (enc_count32 (length us)) c1 \<and> spans c1 (enc_count32 (length ds)) c2 \<and>
        6 * length us + 4 * length ds \<le> cursor_remaining c2 \<and> spans c2 (concat (map enc_upsert us)) c3 \<and>
        length ds \<le> cursor_remaining c3 div 4 \<and> spans c3 (concat (map enc_string ds)) c4 \<and>
        is_ok (cursor_finish c4))"
    unfolding b decode_batch_def
    using cursor_new_cursor_ok [OF _ assms]
    by (simp add: result_simps wire_simps minimum_batch_bytes_small upsert_codec.many_iff
        record_id_codec.many_iff not_less cong: conj_cong, blast)
  also have "\<dots> \<longleftrightarrow> ?wf \<and> (\<exists>c c'. cursor_new bytes ''FTMB'' = Ok c \<and>
      spans c (enc_count32 (length us) @ enc_count32 (length ds) @ concat (map enc_upsert us)
        @ concat (map enc_string ds)) c' \<and> is_ok (cursor_finish c'))"
    using batch_bytes_fit [of us ds] record_id_sized.count_fits [of ds]
    unfolding spans_append_iff by blast
  also have "\<dots> \<longleftrightarrow> batch_wire b \<and> bytes = enc_batch b"
    using frame_iff [of "''FTMB''" bytes] assms by (auto simp: b batch_wire_def enc_batch_def)
  finally show ?thesis .
qed

text \<open>
  C15. \<open>decode_batch\<close> accepts exactly the encodings of well-formed batches: it answers \<open>Ok b\<close> on a
  byte string if and only if \<open>b\<close> is well formed and the bytes are the encoding of \<open>b\<close>.  So every
  well-formed batch survives the round trip, each batch has one encoding, and the allocation
  guards (counts against remaining bytes) never reject a batch whose records are present.
\<close>

theorem decode_batch_exact:
  assumes "length bytes \<le> usize_max"
  shows "decode_batch bytes = Ok b \<longleftrightarrow> batch_wire b \<and> bytes = enc_batch b"
  by (rule decode_batch_iff [OF assms])

text \<open>The check of the header on the calling thread refuses no batch that decodes, but for its size.\<close>

lemma header_of_decoded:
  assumes "decode_batch bytes = Ok b" "length bytes \<le> limit"
  shows "validate_batch_header bytes limit = Ok ()"
  using assms
  by (auto simp: decode_batch_def validate_batch_header_def and_then_Ok_iff cursor_u32_usize_def split: prod.splits)

definition sample_batch :: mutation_batch where
  "sample_batch = \<lparr>mb_upserts = [\<lparr>up_id = ''k1'', up_version = Some ''7'',
     up_fields = [(''title'', [''a b'', ''c''])], up_filters = [(''year'', [FNumber 0, FBoolean True])]\<rparr>],
     mb_deletes = [''k2'']\<rparr>"

lemmas sample_batch_defs =
  sample_batch_def batch_wire_def upsert_wire_def version_wire_def field_values_wire_def
  named_filters_wire_def wf_record_id_def wf_string_def utf8_string_def str_bytes_def byte_of_char_def
  MAX_STRING_BYTES_def MAX_RECORD_ID_BYTES_def limit_defs f64_is_finite_def f64_magnitude_def

theorem decode_batch_exact_witness:
  "decode_batch (enc_batch sample_batch) = Ok sample_batch \<and> length (enc_batch sample_batch) = 80"
proof -
  have len: "length (enc_batch sample_batch) = 80"
    by (simp add: enc_batch_def sample_batch_def enc_upsert_def enc_version_def enc_counted_def
        enc_field_values_def enc_named_filters_def)
  moreover have "batch_wire sample_batch" by (simp add: sample_batch_defs)
  ultimately show ?thesis
    using decode_batch_exact [of "enc_batch sample_batch" sample_batch] by (simp add: usize_max_def)
qed

end
