(* ===== verification/Trace_Codec.thy ===== *)
theory Trace_Codec
  imports Scan Batch_Codec
begin

text \<open>
  Trace frames of \<^verbatim>\<open>src/src/protocol.rs\<close>: a trace request explains how given records match a
  search.  Three magics select the form: one clause, a boolean expression, or a boolean
  expression in recovery mode.  The records are read against one running budget for all
  source text.  \<open>decode_trace\<close> accepts exactly the frames of admissible trace requests.
\<close>

section \<open>Loops against a running budget\<close>

fun read_metered :: "nat \<Rightarrow> (nat \<Rightarrow> ('a \<times> nat) reader) \<Rightarrow> nat \<Rightarrow> ('a list \<times> nat) reader" where
  "read_metered 0 read used c = Ok (([], used), c)"
| "read_metered (Suc n) read used c =
     and_then (read used c) (\<lambda>((x, used), c).
     and_then (read_metered n read used c) (\<lambda>((xs, used), c).
       Ok ((x # xs, used), c)))"

text \<open>
  A 16-bit count, its guard and the loop.  The bound is 65535 where the source only compares the
  count with the bytes that remain.
\<close>

definition read_section ::
    "nat \<Rightarrow> nat \<Rightarrow> string \<Rightarrow> (nat \<Rightarrow> ('a \<times> nat) reader) \<Rightarrow> nat \<Rightarrow> ('a list \<times> nat) reader" where
  "read_section bound minimum message read used c =
     and_then (cursor_u16_usize c) (\<lambda>(count, c).
     if bound < count \<or> cursor_remaining c div minimum < count then Err (invalid message)
     else read_metered count read used c)"

text \<open>A reader that charges the size of what it reads and fails beyond a limit.\<close>

locale metered_codec =
  fixes read :: "nat \<Rightarrow> ('a \<times> nat) reader"
    and enc :: "'a \<Rightarrow> u8 list"
    and wf :: "'a \<Rightarrow> bool"
    and size :: "'a \<Rightarrow> nat"
    and limit :: nat
    and k :: nat
  assumes metered_iff: "cursor_ok c \<Longrightarrow> used \<le> limit \<Longrightarrow>
      read used c = Ok ((x, used'), c') \<longleftrightarrow>
      wf x \<and> used' = used + size x \<and> used' \<le> limit \<and> spans c (enc x) c'"
    and metered_min: "0 < k" "wf x \<Longrightarrow> k \<le> length (enc x)"
begin

lemma metered_many:
  "cursor_ok c \<Longrightarrow> used \<le> limit \<Longrightarrow>
     read_metered n read used c = Ok ((xs, used'), c') \<longleftrightarrow>
     length xs = n \<and> list_all wf xs \<and> used' = used + sum_list (map size xs) \<and> used' \<le> limit \<and>
     spans c (concat (map enc xs)) c'"
proof (induction n arbitrary: used c xs)
  case 0
  then show ?case by (cases xs) (auto simp: result_simps)
next
  case (Suc n)
  have "read_metered (Suc n) read used c = Ok ((xs, used'), c') \<longleftrightarrow>
      (\<exists>x ys. xs = x # ys \<and> (\<exists>c1. wf x \<and> used + size x \<le> limit \<and> spans c (enc x) c1 \<and>
         read_metered n read (used + size x) c1 = Ok ((ys, used'), c')))"
    using Suc.prems by (auto simp: and_then_Ok_iff metered_iff)
  also have "\<dots> \<longleftrightarrow> length xs = Suc n \<and> list_all wf xs \<and> used' = used + sum_list (map size xs) \<and>
      used' \<le> limit \<and> spans c (concat (map enc xs)) c'"
    by (cases xs) (auto simp: Suc.IH [OF spans_ok'] spans_append_iff add.assoc cong: conj_cong)
  finally show ?case .
qed

lemma metered_fits:
  assumes "list_all wf xs" "spans c (concat (map enc xs)) c'"
  shows "length xs \<le> cursor_remaining c div k"
proof -
  have "k * length xs \<le> length (concat (map enc xs))"
    using assms(1)
  proof (induction xs)
    case (Cons x xs)
    then show ?case using metered_min(2) [of x] by simp
  qed simp
  then have "k * length xs \<le> cursor_remaining c" using spans_length [OF assms(2)] by linarith
  then show ?thesis using metered_min(1) by (simp add: less_eq_div_iff_mult_less_eq mult.commute)
qed

lemma section_iff:
  assumes "cursor_ok c" "used \<le> limit" "bound < 65536"
  shows "read_section bound k message read used c = Ok ((xs, used'), c') \<longleftrightarrow>
    length xs \<le> bound \<and> list_all wf xs \<and> used' = used + sum_list (map size xs) \<and> used' \<le> limit \<and>
    spans c (enc_counted enc xs) c'"
proof -
  have "read_section bound k message read used c = Ok ((xs, used'), c') \<longleftrightarrow>
      (\<exists>n c1. n < 65536 \<and> spans c (enc_count16 n) c1 \<and> n \<le> bound \<and> n \<le> cursor_remaining c1 div k \<and>
        read_metered n read used c1 = Ok ((xs, used'), c'))"
    using assms(1) by (auto simp: read_section_def and_then_Ok_iff count16_codec.read_iff not_less)
  also have "\<dots> \<longleftrightarrow> (\<exists>c1. length xs \<le> bound \<and> spans c (enc_count16 (length xs)) c1 \<and>
      length xs \<le> cursor_remaining c1 div k \<and> list_all wf xs \<and>
      used' = used + sum_list (map size xs) \<and> used' \<le> limit \<and> spans c1 (concat (map enc xs)) c')"
    using assms(2,3) by (auto simp: metered_many [OF spans_ok'] cong: conj_cong)
      (intro exI [of _ "length xs"], auto)
  also have "\<dots> \<longleftrightarrow> length xs \<le> bound \<and> list_all wf xs \<and> used' = used + sum_list (map size xs) \<and>
      used' \<le> limit \<and> spans c (enc_counted enc xs) c'"
    using metered_fits by (auto simp: enc_counted_def spans_append_iff)
  finally show ?thesis .
qed

end

section \<open>The decoder\<close>

definition decode_trace_value :: "nat \<Rightarrow> (string \<times> nat) reader" where
  "decode_trace_value source_bytes c = and_then (cursor_string c) (\<lambda>(value, c).
     let source_bytes = saturating_add source_bytes (length value) in
     if MAX_TRACE_SOURCE_BYTES < source_bytes
     then Err (invalid ''trace source text exceeds 1048576 UTF-8 bytes'')
     else Ok ((value, source_bytes), c))"

definition decode_trace_field :: "nat \<Rightarrow> ((string \<times> string list) \<times> nat) reader" where
  "decode_trace_field source_bytes c =
     and_then (cursor_string c) (\<lambda>(name, c).
     and_then (read_section 65535 4 ''trace value count exceeds its packed request''
         decode_trace_value source_bytes c)
       (\<lambda>((values, source_bytes), c). Ok (((name, values), source_bytes), c)))"

definition decode_trace_record :: "nat \<Rightarrow> (trace_record \<times> nat) reader" where
  "decode_trace_record source_bytes c =
     and_then (cursor_record_id c) (\<lambda>(rid, c).
     and_then (read_section MAX_FIELDS 6 ''trace record field count exceeds its packed request''
         decode_trace_field source_bytes c)
       (\<lambda>((fields, source_bytes), c).
         Ok ((\<lparr>tr_id = rid, tr_fields = fields\<rparr>, source_bytes), c)))"

definition decode_trace_records :: "trace_record list reader" where
  "decode_trace_records c =
     and_then (read_section MAX_TRACE_RECORDS 6 ''trace record count exceeds its packed request''
         decode_trace_record 0 c)
       (\<lambda>((records, _), c). Ok (records, c))"

definition decode_trace_candidate :: "nat \<Rightarrow> (string \<times> nat) reader" where
  "decode_trace_candidate candidate_bytes c = and_then (cursor_record_id c) (\<lambda>(rid, c).
     let candidate_bytes = saturating_add candidate_bytes (length rid) in
     if MAX_CANDIDATE_BYTES < candidate_bytes
     then Err (invalid ''candidate IDs exceed 1048576 UTF-8 bytes'')
     else Ok ((rid, candidate_bytes), c))"

definition decode_trace_candidates :: "string list option reader" where
  "decode_trace_candidates c =
     and_then (cursor_boolean c) (\<lambda>(has_candidates, c).
     and_then (if has_candidates then cursor_u16_usize c else Ok (0, c)) (\<lambda>(candidate_count, c).
     if MAX_CANDIDATE_IDS < candidate_count \<or> cursor_remaining c div 4 < candidate_count
     then Err (invalid ''trace candidate count exceeds its packed request'')
     else and_then (read_metered candidate_count decode_trace_candidate 0 c) (\<lambda>((ids, _), c).
       Ok (if has_candidates then Some ids else None, c))))"

definition decode_trace_clause :: "search_expression reader" where
  "decode_trace_clause c =
     and_then (cursor_string c) (\<lambda>(text, c).
     if MAX_QUERY_TEXT_BYTES < length text
     then Err (invalid ''search text exceeds 65536 UTF-8 bytes'')
     else
     and_then (cursor_u8 c) (\<lambda>(m, c).
     and_then (decode_search_mode m) (\<lambda>mode.
     and_then (decode_query_options mode c) (\<lambda>(opts, c).
     and_then (cursor_u16_usize c) (\<lambda>(field_count, c).
     if MAX_FIELDS < field_count \<or> cursor_remaining c div 4 < field_count
     then Err (invalid ''trace field count exceeds its packed request'')
     else and_then (read_many field_count cursor_string c) (\<lambda>(names, c).
       Ok (Clause \<lparr>cl_text = text, cl_mode = mode, cl_options = opts, cl_fields = names\<rparr>, c)))))))"

definition decode_trace_expression :: "bool \<Rightarrow> search_expression reader" where
  "decode_trace_expression boolean c =
     (if boolean then
       and_then (budget_new MAX_CONFIGURED_QUERY_CLAUSES MAX_FIELDS) (\<lambda>b.
       and_then (decode_search_expression 0 b c) (\<lambda>((expression, _), c). Ok (expression, c)))
      else decode_trace_clause c)"

definition decode_trace :: "u8 list \<Rightarrow> trace_request res" where
  "decode_trace bytes =
     (let recovery = prefix (str_bytes ''FTBR'') bytes;
          boolean = (recovery \<or> prefix (str_bytes ''FTBT'') bytes) in
     and_then (cursor_new bytes (trace_magic bytes)) (\<lambda>c.
     and_then (decode_trace_expression boolean c) (\<lambda>(expression, c).
     and_then (decode_trace_candidates c) (\<lambda>(candidate_ids, c).
     and_then (decode_trace_records c) (\<lambda>(records, c).
     and_then (cursor_u32_usize c) (\<lambda>(budget_milliseconds, c).
     and_then (cursor_finish c) (\<lambda>_.
     if budget_milliseconds = 0 \<or> MAX_SEARCH_BUDGET_MILLISECONDS < budget_milliseconds
     then Err (invalid (''trace budget must be between 1 and ''
            @ nat_digits MAX_SEARCH_BUDGET_MILLISECONDS @ '' milliseconds''))
     else
       let request = \<lparr>tq_recovery = recovery,
          tq_search = \<lparr>rq_sort = None, rq_aggregations = [], rq_expression = expression,
            rq_candidate_ids = candidate_ids, rq_filter = None, rq_offset = 0,
            rq_limit = length records, rq_exact_total = False,
            rq_budget_milliseconds = budget_milliseconds, rq_traversal = False, rq_after = None\<rparr>,
          tq_records = records\<rparr> in
       and_then (validate_trace_admission (tq_search request) (tq_records request)) (\<lambda>_.
         Ok request))))))))"

section \<open>The wire format\<close>

definition enc_trace_record :: "trace_record \<Rightarrow> u8 list" where
  "enc_trace_record r = enc_string (tr_id r) @ enc_counted enc_field_values (tr_fields r)"

definition trace_record_wire :: "trace_record \<Rightarrow> bool" where
  "trace_record_wire r \<longleftrightarrow> wf_record_id (tr_id r) \<and> length (tr_fields r) \<le> MAX_FIELDS \<and>
     list_all field_values_wire (tr_fields r)"

lemma saturating_source:
  "n \<le> M \<Longrightarrow> M < usize_max \<Longrightarrow> \<not> M < saturating_add n k \<longleftrightarrow> n + k \<le> M"
  "n \<le> M \<Longrightarrow> M < usize_max \<Longrightarrow> n + k \<le> M \<Longrightarrow> saturating_add n k = n + k"
  by (auto simp: saturating_add_def)

interpretation trace_value_codec: metered_codec decode_trace_value enc_string wf_string length
  MAX_TRACE_SOURCE_BYTES 4
proof
  fix c c' :: cursor and used used' :: nat and x :: string
  assume "cursor_ok c" "used \<le> MAX_TRACE_SOURCE_BYTES"
  moreover have "MAX_TRACE_SOURCE_BYTES < usize_max" by (simp add: limit_defs usize_max_def)
  ultimately show "decode_trace_value used c = Ok ((x, used'), c') \<longleftrightarrow>
      wf_string x \<and> used' = used + length x \<and> used' \<le> MAX_TRACE_SOURCE_BYTES \<and> spans c (enc_string x) c'"
    by (auto simp: decode_trace_value_def and_then_Ok_iff string_codec.read_iff Let_def saturating_source
        split: if_splits)
qed simp_all

interpretation trace_candidate_codec: metered_codec decode_trace_candidate enc_string wf_record_id length
  MAX_CANDIDATE_BYTES 4
proof
  fix c c' :: cursor and used used' :: nat and x :: string
  assume "cursor_ok c" "used \<le> MAX_CANDIDATE_BYTES"
  moreover have "MAX_CANDIDATE_BYTES < usize_max" by (simp add: limit_defs usize_max_def)
  ultimately show "decode_trace_candidate used c = Ok ((x, used'), c') \<longleftrightarrow>
      wf_record_id x \<and> used' = used + length x \<and> used' \<le> MAX_CANDIDATE_BYTES \<and> spans c (enc_string x) c'"
    by (auto simp: decode_trace_candidate_def and_then_Ok_iff record_id_codec.read_iff Let_def
        saturating_source split: if_splits)
qed simp_all

interpretation trace_field_codec: metered_codec decode_trace_field enc_field_values field_values_wire
  "\<lambda>f. sum_list (map length (snd f))" MAX_TRACE_SOURCE_BYTES 6
proof
  fix c c' :: cursor and used used' :: nat and f :: "string \<times> string list"
  assume c: "cursor_ok c" and u: "used \<le> MAX_TRACE_SOURCE_BYTES"
  obtain n vs where f: "f = (n, vs)" by (cases f)
  have k: "length vs \<le> 65535 \<longleftrightarrow> length vs < 65536" by auto
  show "decode_trace_field used c = Ok ((f, used'), c') \<longleftrightarrow>
      field_values_wire f \<and> used' = used + sum_list (map length (snd f)) \<and>
      used' \<le> MAX_TRACE_SOURCE_BYTES \<and> spans c (enc_field_values f) c'"
    using c u unfolding f
    by (simp add: decode_trace_field_def field_values_wire_def enc_field_values_def result_simps
        wire_simps trace_value_codec.section_iff k cong: conj_cong, blast)
qed (simp_all add: field_values_codec.enc_min)

interpretation trace_record_codec: metered_codec decode_trace_record enc_trace_record trace_record_wire
  "\<lambda>r. field_bytes (tr_fields r)" MAX_TRACE_SOURCE_BYTES 6
proof
  fix c c' :: cursor and used used' :: nat and r :: trace_record
  assume c: "cursor_ok c" and u: "used \<le> MAX_TRACE_SOURCE_BYTES"
  obtain i fs where r: "r = \<lparr>tr_id = i, tr_fields = fs\<rparr>" by (cases r)
  have m: "MAX_FIELDS < 65536" by (simp add: limit_defs)
  have b: "field_bytes fs = sum_list (map (\<lambda>f. sum_list (map length (snd f))) fs)"
    by (induction fs) (auto simp: field_bytes_def)
  show "decode_trace_record used c = Ok ((r, used'), c') \<longleftrightarrow>
      trace_record_wire r \<and> used' = used + field_bytes (tr_fields r) \<and>
      used' \<le> MAX_TRACE_SOURCE_BYTES \<and> spans c (enc_trace_record r) c'"
    using c u m unfolding r
    by (simp add: decode_trace_record_def trace_record_wire_def enc_trace_record_def result_simps b
        wire_simps trace_field_codec.section_iff cong: conj_cong, blast)
next
  fix r :: trace_record
  show "6 \<le> length (enc_trace_record r)"
    using enc_counted_min [of enc_field_values "tr_fields r"]
    by (simp add: enc_trace_record_def del: enc_counted_min)
qed simp

definition trace_records_wire :: "trace_record list \<Rightarrow> bool" where
  "trace_records_wire rs \<longleftrightarrow> length rs \<le> MAX_TRACE_RECORDS \<and> list_all trace_record_wire rs \<and>
     sum_list (map (field_bytes \<circ> tr_fields) rs) \<le> MAX_TRACE_SOURCE_BYTES"

interpretation trace_records_codec: wire_codec decode_trace_records "enc_counted enc_trace_record"
  trace_records_wire
proof
  fix c c' :: cursor and rs :: "trace_record list"
  assume c: "cursor_ok c"
  have "MAX_TRACE_RECORDS < 65536" by (simp add: limit_defs)
  then show "decode_trace_records c = Ok (rs, c') \<longleftrightarrow>
      trace_records_wire rs \<and> spans c (enc_counted enc_trace_record rs) c'"
    using c by (simp add: decode_trace_records_def trace_records_wire_def and_then_Ok_iff comp_def
        trace_record_codec.section_iff cong: conj_cong)
qed

interpretation trace_candidates_codec: wire_codec decode_trace_candidates enc_candidates candidates_wire
proof
  fix c c' :: cursor and ids :: "string list option"
  assume c: "cursor_ok c"
  have split: "decode_trace_candidates c = and_then (cursor_boolean c) (\<lambda>(has, c).
      if has then and_then (read_section MAX_CANDIDATE_IDS 4
          ''trace candidate count exceeds its packed request'' decode_trace_candidate 0 c)
        (\<lambda>((ids, _), c). Ok (Some ids, c))
      else Ok (None, c))"
    by (auto simp: decode_trace_candidates_def read_section_def and_then_def split: result.splits)
  have recs: "list_all wf_record_id xs \<Longrightarrow>
      list_all (\<lambda>rid. rid \<noteq> [] \<and> length rid \<le> MAX_RECORD_ID_BYTES) xs" for xs
    by (simp add: list_all_iff wf_record_id_def)
  have "MAX_CANDIDATE_IDS < 65536" by (simp add: limit_defs)
  then have "decode_trace_candidates c = Ok (ids, c') \<longleftrightarrow> (case ids of
        None \<Rightarrow> spans c (enc_boolean False) c'
      | Some xs \<Rightarrow> length xs \<le> MAX_CANDIDATE_IDS \<and> list_all wf_record_id xs \<and>
          sum_list (map length xs) \<le> MAX_CANDIDATE_BYTES \<and>
          spans c (enc_boolean True @ enc_counted enc_string xs) c')"
    using c by (cases ids) (simp_all add: split result_simps wire_simps trace_candidate_codec.section_iff
        cong: conj_cong if_cong, auto)
  then show "decode_trace_candidates c = Ok (ids, c') \<longleftrightarrow> candidates_wire ids \<and> spans c (enc_candidates ids) c'"
    using recs by (cases ids) (auto simp: candidates_wire_def candidates_ok_def enc_candidates_def enc_counted_def)
qed

section \<open>The trace frame\<close>

definition enc_trace_clause :: "search_clause \<Rightarrow> u8 list" where
  "enc_trace_clause cl = enc_string (cl_text cl) @ enc_u8 (mode_code (cl_mode cl))
     @ enc_options (cl_options cl) @ enc_counted enc_string (cl_fields cl)"

definition trace_clause_wire :: "search_clause \<Rightarrow> bool" where
  "trace_clause_wire cl \<longleftrightarrow> wf_string (cl_text cl) \<and> length (cl_text cl) \<le> MAX_QUERY_TEXT_BYTES \<and>
     options_ok (cl_options cl) (cl_mode cl) \<and> length (cl_fields cl) \<le> MAX_FIELDS \<and>
     list_all wf_string (cl_fields cl)"

lemma decode_trace_clause_iff:
  assumes "cursor_ok c"
  shows "decode_trace_clause c = Ok (e, c') \<longleftrightarrow>
    (\<exists>cl. e = Clause cl \<and> trace_clause_wire cl \<and> spans c (enc_trace_clause cl) c')"
proof -
  have m: "MAX_FIELDS < 65536" by (simp add: limit_defs)
  have split: "decode_trace_clause c =
     and_then (cursor_string c) (\<lambda>(text, c).
     if MAX_QUERY_TEXT_BYTES < length text
     then Err (invalid ''search text exceeds 65536 UTF-8 bytes'')
     else
     and_then (cursor_u8 c) (\<lambda>(m, c).
     and_then (decode_search_mode m) (\<lambda>mode.
     and_then (decode_query_options mode c) (\<lambda>(opts, c).
     and_then (read_limited MAX_FIELDS ''trace field count exceeds its packed request'' 4
         ''trace field count exceeds its packed request'' cursor_string c) (\<lambda>(names, c).
       Ok (Clause \<lparr>cl_text = text, cl_mode = mode, cl_options = opts, cl_fields = names\<rparr>, c))))))"
    by (auto simp: decode_trace_clause_def read_limited_def and_then_def split: result.splits)
  have "decode_trace_clause c = Ok (Clause cl, c') \<longleftrightarrow> trace_clause_wire cl \<and> spans c (enc_trace_clause cl) c'" for cl
  proof -
    obtain t md os fs where cl: "cl = \<lparr>cl_text = t, cl_mode = md, cl_options = os, cl_fields = fs\<rparr>" by (cases cl)
    show ?thesis
      using assms m unfolding split cl trace_clause_wire_def enc_trace_clause_def
      by (simp add: result_simps wire_simps options_codec.read_iff decode_search_mode_iff
          string_sized.read_limited_iff not_less cong: conj_cong, blast)
  qed
  moreover have "decode_trace_clause c = Ok (e, c') \<Longrightarrow> \<exists>cl. e = Clause cl"
    unfolding split by (auto simp: and_then_Ok_iff split: if_splits)
  ultimately show ?thesis by blast
qed

definition trace_magic_of :: "bool \<Rightarrow> bool \<Rightarrow> string" where
  "trace_magic_of recovery boolean = (if recovery then ''FTBR'' else if boolean then ''FTBT'' else ''FTTM'')"

definition enc_trace_tail :: "trace_request \<Rightarrow> u8 list" where
  "enc_trace_tail q = enc_candidates (rq_candidate_ids (tq_search q)) @ enc_counted enc_trace_record (tq_records q)
     @ enc_count32 (rq_budget_milliseconds (tq_search q))"

definition trace_frames :: "trace_request \<Rightarrow> u8 list list" where
  "trace_frames q =
     (enc_header (trace_magic_of (tq_recovery q) True) @ enc_expression (rq_expression (tq_search q))
        @ enc_trace_tail q) #
     (case rq_expression (tq_search q) of
        Clause cl \<Rightarrow> if tq_recovery q then []
          else [enc_header ''FTTM'' @ enc_trace_clause cl @ enc_trace_tail q]
      | _ \<Rightarrow> [])"

text \<open>The parts of a search request that a trace leaves out.\<close>

definition trace_shape :: "trace_request \<Rightarrow> bool" where
  "trace_shape q \<longleftrightarrow>
     tq_search q = \<lparr>rq_sort = None, rq_aggregations = [], rq_expression = rq_expression (tq_search q),
       rq_candidate_ids = rq_candidate_ids (tq_search q), rq_filter = None, rq_offset = 0,
       rq_limit = length (tq_records q), rq_exact_total = False,
       rq_budget_milliseconds = rq_budget_milliseconds (tq_search q), rq_traversal = False,
       rq_after = None\<rparr>"

definition trace_wire :: "trace_request \<Rightarrow> bool" where
  "trace_wire q \<longleftrightarrow>
     expression_wire (rq_expression (tq_search q)) \<and>
     pred_option (list_all wf_record_id) (rq_candidate_ids (tq_search q)) \<and>
     list_all trace_record_wire (tq_records q) \<and>
     0 < rq_budget_milliseconds (tq_search q) \<and>
     rq_budget_milliseconds (tq_search q) \<le> MAX_SEARCH_BUDGET_MILLISECONDS \<and>
     trace_shape q"

definition reads_trace_tail :: "trace_request \<Rightarrow> cursor \<Rightarrow> bool" where
  "reads_trace_tail q c \<longleftrightarrow> (\<exists>c1 c2 c3.
     decode_trace_candidates c = Ok (rq_candidate_ids (tq_search q), c1) \<and>
     decode_trace_records c1 = Ok (tq_records q, c2) \<and>
     cursor_u32_usize c2 = Ok (rq_budget_milliseconds (tq_search q), c3) \<and> is_ok (cursor_finish c3))"

definition tail_wire :: "trace_request \<Rightarrow> bool" where
  "tail_wire q \<longleftrightarrow> candidates_wire (rq_candidate_ids (tq_search q)) \<and> trace_records_wire (tq_records q) \<and>
     rq_budget_milliseconds (tq_search q) < 4294967296"

lemma reads_trace_tail_iff:
  assumes "cursor_ok c"
  shows "reads_trace_tail q c \<longleftrightarrow>
    tail_wire q \<and> (\<exists>c'. spans c (enc_trace_tail q) c' \<and> is_ok (cursor_finish c'))"
  using assms unfolding reads_trace_tail_def tail_wire_def enc_trace_tail_def
  by (simp add: trace_candidates_codec.read_iff trace_records_codec.read_iff wire_simps cong: conj_cong, blast)

lemma decode_trace_steps:
  "decode_trace bytes = Ok q \<longleftrightarrow>
     (\<exists>c c1. cursor_new bytes (trace_magic bytes) = Ok c \<and>
        decode_trace_expression (tq_recovery q \<or> prefix (str_bytes ''FTBT'') bytes) c =
          Ok (rq_expression (tq_search q), c1) \<and> reads_trace_tail q c1) \<and>
     tq_recovery q = prefix (str_bytes ''FTBR'') bytes \<and>
     0 < rq_budget_milliseconds (tq_search q) \<and>
     rq_budget_milliseconds (tq_search q) \<le> MAX_SEARCH_BUDGET_MILLISECONDS \<and>
     trace_shape q \<and>
     trace_admissible (tq_search q) (tq_records q)"
proof -
  obtain rv s rs where q: "q = \<lparr>tq_recovery = rv, tq_search = s, tq_records = rs\<rparr>" by (cases q)
  obtain so as e ids f off lim et ms t a where s: "s = \<lparr>rq_sort = so, rq_aggregations = as,
      rq_expression = e, rq_candidate_ids = ids, rq_filter = f, rq_offset = off, rq_limit = lim,
      rq_exact_total = et, rq_budget_milliseconds = ms, rq_traversal = t, rq_after = a\<rparr>"
    by (cases s)
  show ?thesis
    unfolding q s decode_trace_def reads_trace_tail_def trace_shape_def
    by (auto simp: result_simps Let_def; blast)
qed

lemma trace_frame_iff:
  assumes "length bytes \<le> usize_max" "length magic = 4"
  shows "(\<exists>c c1. cursor_new bytes magic = Ok c \<and> spans c bs c1 \<and> reads_trace_tail q c1) \<longleftrightarrow>
    tail_wire q \<and> bytes = enc_header magic @ bs @ enc_trace_tail q"
  using frame_iff [OF assms(2,1), of "bs @ enc_trace_tail q"] reads_trace_tail_iff [OF spans_ok']
  unfolding spans_append_iff by blast

lemma header_prefix: "length m = 4 \<Longrightarrow> length m' = 4 \<Longrightarrow>
    prefix (str_bytes m) (enc_header m' @ bs) \<longleftrightarrow> str_bytes m = str_bytes m'"
  by (auto simp: enc_header_def prefix_def append_eq_append_conv_if)

lemma header_other:
  "prefix (str_bytes m) bytes \<Longrightarrow> str_bytes m \<noteq> str_bytes m' \<Longrightarrow> length m = 4 \<Longrightarrow> length m' = 4 \<Longrightarrow>
     bytes \<noteq> enc_header m' @ bs"
  "\<not> prefix (str_bytes m) bytes \<Longrightarrow> length m = 4 \<Longrightarrow> bytes \<noteq> enc_header m @ bs"
  using header_prefix by blast+

lemma magic_bytes_distinct:
  "str_bytes ''FTBR'' \<noteq> str_bytes ''FTBT''" "str_bytes ''FTBR'' \<noteq> str_bytes ''FTTM''"
  "str_bytes ''FTBT'' \<noteq> str_bytes ''FTTM''"
  by (simp_all add: str_bytes_def byte_of_char_def)

lemma trace_boolean_reads:
  assumes "length bytes \<le> usize_max" "length magic = 4"
  shows "(\<exists>c c1. cursor_new bytes magic = Ok c \<and>
      decode_trace_expression True c = Ok (rq_expression (tq_search q), c1) \<and> reads_trace_tail q c1) \<longleftrightarrow>
    structure_ok (rq_expression (tq_search q)) MAX_CONFIGURED_QUERY_CLAUSES MAX_FIELDS \<and>
    expression_wire (rq_expression (tq_search q)) \<and> tail_wire q \<and>
    bytes = enc_header magic @ enc_expression (rq_expression (tq_search q)) @ enc_trace_tail q"
proof -
  let ?e = "rq_expression (tq_search q)"
  have step: "decode_trace_expression True c = Ok (?e, c1) \<longleftrightarrow>
      structure_ok ?e MAX_CONFIGURED_QUERY_CLAUSES MAX_FIELDS \<and> expression_wire ?e \<and>
      spans c (enc_expression ?e) c1" if "cursor_new bytes magic = Ok c" for c c1
  proof -
    have "decode_trace_expression True c = Ok (?e, c1) \<longleftrightarrow> reads_expression ?e c c1"
      by (auto simp: decode_trace_expression_def reads_expression_def and_then_Ok_iff)
    then show ?thesis using reads_expression_iff [OF cursor_new_cursor_ok [OF that assms(1)]] by simp
  qed
  show ?thesis
    using trace_frame_iff [OF assms, of "enc_expression ?e" q]
    by (auto simp: step cong: conj_cong)
qed

lemma trace_clause_reads:
  assumes "length bytes \<le> usize_max"
  shows "(\<exists>c c1. cursor_new bytes ''FTTM'' = Ok c \<and>
      decode_trace_expression False c = Ok (rq_expression (tq_search q), c1) \<and> reads_trace_tail q c1) \<longleftrightarrow>
    (\<exists>cl. rq_expression (tq_search q) = Clause cl \<and> trace_clause_wire cl \<and> tail_wire q \<and>
      bytes = enc_header ''FTTM'' @ enc_trace_clause cl @ enc_trace_tail q)"
proof -
  let ?e = "rq_expression (tq_search q)"
  have step: "decode_trace_expression False c = Ok (?e, c1) \<longleftrightarrow>
      (\<exists>cl. ?e = Clause cl \<and> trace_clause_wire cl \<and> spans c (enc_trace_clause cl) c1)"
    if "cursor_new bytes ''FTTM'' = Ok c" for c c1
    using decode_trace_clause_iff [OF cursor_new_cursor_ok [OF that assms]]
    by (simp add: decode_trace_expression_def)
  have frame: "(\<exists>c c1. cursor_new bytes ''FTTM'' = Ok c \<and> spans c bs c1 \<and> reads_trace_tail q c1) \<longleftrightarrow>
      tail_wire q \<and> bytes = enc_header ''FTTM'' @ bs @ enc_trace_tail q" for bs
    by (rule trace_frame_iff [OF assms]) simp
  have "(\<exists>c c1. cursor_new bytes ''FTTM'' = Ok c \<and>
      decode_trace_expression False c = Ok (?e, c1) \<and> reads_trace_tail q c1) \<longleftrightarrow>
    (\<exists>cl. ?e = Clause cl \<and> trace_clause_wire cl \<and>
      (\<exists>c c1. cursor_new bytes ''FTTM'' = Ok c \<and> spans c (enc_trace_clause cl) c1 \<and> reads_trace_tail q c1))"
    by (auto simp: step cong: conj_cong)
  then show ?thesis unfolding frame .
qed

lemma trace_frames_iff:
  "bytes \<in> set (trace_frames q) \<longleftrightarrow>
     bytes = enc_header (trace_magic_of (tq_recovery q) True) @ enc_expression (rq_expression (tq_search q))
        @ enc_trace_tail q \<or>
     (\<exists>cl. rq_expression (tq_search q) = Clause cl \<and> \<not> tq_recovery q \<and>
        bytes = enc_header ''FTTM'' @ enc_trace_clause cl @ enc_trace_tail q)"
  by (cases "rq_expression (tq_search q)") (simp_all add: trace_frames_def)

text \<open>
  C17. \<open>decode_trace\<close> accepts exactly the frames of admissible trace requests: it answers \<open>Ok q\<close> if
  and only if \<open>q\<close> is well formed, its expression, candidates and records pass the trace admission
  (distinct record identifiers and field names, one bound on all source text), and the bytes are
  one of the frames of \<open>q\<close>: the boolean form under the magic of its recovery flag, or the short
  form when the expression is a single clause outside recovery.
\<close>

theorem decode_trace_exact:
  assumes "length bytes \<le> usize_max"
  shows "decode_trace bytes = Ok q \<longleftrightarrow>
    trace_wire q \<and> trace_admissible (tq_search q) (tq_records q) \<and> bytes \<in> set (trace_frames q)"
proof -
  let ?e = "rq_expression (tq_search q)" and ?adm = "trace_admissible (tq_search q) (tq_records q)"
  let ?ms = "0 < rq_budget_milliseconds (tq_search q) \<and>
    rq_budget_milliseconds (tq_search q) \<le> MAX_SEARCH_BUDGET_MILLISECONDS"
  have tail: "tail_wire q" if "trace_wire q" ?adm
    using that by (auto simp: tail_wire_def trace_wire_def candidates_wire_def trace_admissible_def
        trace_records_wire_def trace_records_ok_def limit_defs)
  have clause: "trace_clause_wire cl \<longleftrightarrow> expression_wire ?e" if "?adm" "?e = Clause cl" for cl
    using that by (auto simp: trace_clause_wire_def trace_admissible_def structure_ok_def clause_wire_def limit_defs)
  have str: "?adm \<Longrightarrow> structure_ok ?e MAX_CONFIGURED_QUERY_CLAUSES MAX_FIELDS" by (simp add: trace_admissible_def)
  have wire: "tail_wire q \<Longrightarrow> pred_option (list_all wf_record_id) (rq_candidate_ids (tq_search q)) \<and>
      list_all trace_record_wire (tq_records q)"
    by (simp add: tail_wire_def candidates_wire_def trace_records_wire_def)
  consider (r) "prefix (str_bytes ''FTBR'') bytes" "trace_magic bytes = ''FTBR''"
    | (b) "\<not> prefix (str_bytes ''FTBR'') bytes" "prefix (str_bytes ''FTBT'') bytes" "trace_magic bytes = ''FTBT''"
    | (s) "\<not> prefix (str_bytes ''FTBR'') bytes" "\<not> prefix (str_bytes ''FTBT'') bytes" "trace_magic bytes = ''FTTM''"
    by (auto simp: trace_magic_def)
  then show ?thesis
  proof cases
    case r
    have "bytes \<noteq> enc_header ''FTBT'' @ bs" "bytes \<noteq> enc_header ''FTTM'' @ bs" for bs
      using header_other(1) [OF r(1) magic_bytes_distinct(1)] header_other(1) [OF r(1) magic_bytes_distinct(2)]
      by simp_all
    then have "bytes \<in> set (trace_frames q) \<longleftrightarrow> tq_recovery q \<and>
        bytes = enc_header ''FTBR'' @ enc_expression ?e @ enc_trace_tail q"
      by (cases "tq_recovery q") (simp_all add: trace_frames_iff trace_magic_of_def)
    moreover have "decode_trace bytes = Ok q \<longleftrightarrow> tq_recovery q \<and>
        (structure_ok ?e MAX_CONFIGURED_QUERY_CLAUSES MAX_FIELDS \<and> expression_wire ?e \<and> tail_wire q \<and>
          bytes = enc_header ''FTBR'' @ enc_expression ?e @ enc_trace_tail q) \<and> ?ms \<and> trace_shape q \<and> ?adm"
      unfolding decode_trace_steps using r trace_boolean_reads [OF assms, of "''FTBR''" q]
      by (cases "tq_recovery q") simp_all
    ultimately show ?thesis
      using tail str wire clause unfolding trace_wire_def by blast
  next
    case b
    have "bytes \<noteq> enc_header ''FTBR'' @ bs" "bytes \<noteq> enc_header ''FTTM'' @ bs" for bs
      using header_other(1) [OF b(2) magic_bytes_distinct(1) [symmetric]]
        header_other(1) [OF b(2) magic_bytes_distinct(3)] by simp_all
    then have "bytes \<in> set (trace_frames q) \<longleftrightarrow> \<not> tq_recovery q \<and>
        bytes = enc_header ''FTBT'' @ enc_expression ?e @ enc_trace_tail q"
      by (cases "tq_recovery q") (simp_all add: trace_frames_iff trace_magic_of_def)
    moreover have "decode_trace bytes = Ok q \<longleftrightarrow> \<not> tq_recovery q \<and>
        (structure_ok ?e MAX_CONFIGURED_QUERY_CLAUSES MAX_FIELDS \<and> expression_wire ?e \<and> tail_wire q \<and>
          bytes = enc_header ''FTBT'' @ enc_expression ?e @ enc_trace_tail q) \<and> ?ms \<and> trace_shape q \<and> ?adm"
      unfolding decode_trace_steps using b trace_boolean_reads [OF assms, of "''FTBT''" q]
      by (cases "tq_recovery q") simp_all
    ultimately show ?thesis
      using tail str wire clause unfolding trace_wire_def by blast
  next
    case s
    have "bytes \<noteq> enc_header ''FTBR'' @ bs" "bytes \<noteq> enc_header ''FTBT'' @ bs" for bs
      using header_other(2) [OF s(1)] header_other(2) [OF s(2)] by simp_all
    then have "bytes \<in> set (trace_frames q) \<longleftrightarrow> \<not> tq_recovery q \<and>
        (\<exists>cl. ?e = Clause cl \<and> bytes = enc_header ''FTTM'' @ enc_trace_clause cl @ enc_trace_tail q)"
      by (cases "tq_recovery q") (simp_all add: trace_frames_iff trace_magic_of_def)
    moreover have "decode_trace bytes = Ok q \<longleftrightarrow> \<not> tq_recovery q \<and>
        (\<exists>cl. ?e = Clause cl \<and> trace_clause_wire cl \<and> tail_wire q \<and>
          bytes = enc_header ''FTTM'' @ enc_trace_clause cl @ enc_trace_tail q) \<and> ?ms \<and> trace_shape q \<and> ?adm"
      unfolding decode_trace_steps using s trace_clause_reads [OF assms, of q]
      by (cases "tq_recovery q") simp_all
    ultimately show ?thesis
      using tail str wire clause unfolding trace_wire_def by blast
  qed
qed

definition sample_trace :: trace_request where
  "sample_trace = \<lparr>tq_recovery = False,
     tq_search = \<lparr>rq_sort = None, rq_aggregations = [], rq_expression = Clause sample_clause,
       rq_candidate_ids = None, rq_filter = None, rq_offset = 0, rq_limit = 1, rq_exact_total = False,
       rq_budget_milliseconds = 5, rq_traversal = False, rq_after = None\<rparr>,
     tq_records = [\<lparr>tr_id = ''k1'', tr_fields = [(''title'', [''rust book''])]\<rparr>]\<rparr>"

theorem decode_trace_exact_witness:
  "length (last (trace_frames sample_trace)) \<le> usize_max \<and>
   decode_trace (last (trace_frames sample_trace)) = Ok sample_trace"
proof -
  let ?bytes = "last (trace_frames sample_trace)"
  have len: "length ?bytes \<le> usize_max"
    by (simp add: trace_frames_def sample_trace_def enc_trace_clause_def enc_trace_tail_def
        enc_candidates_def enc_counted_def enc_trace_record_def enc_field_values_def sample_defs)
  have "trace_wire sample_trace"
    by (simp add: trace_wire_def trace_shape_def sample_trace_def trace_record_wire_def field_values_wire_def sample_defs)
  moreover have "trace_admissible (tq_search sample_trace) (tq_records sample_trace)"
    by (simp add: trace_admissible_def sample_trace_def trace_records_ok_def trace_fields_ok_def
        field_bytes_def sample_defs)
  moreover have "?bytes \<in> set (trace_frames sample_trace)"
    by (rule last_in_set) (simp add: trace_frames_def)
  ultimately show ?thesis using decode_trace_exact [OF len] len by blast
qed

end
