(* ===== verification/Queue.thy ===== *)
theory Queue
  imports Scan "HOL-Library.Multiset"
begin

text \<open>
  The bounded command queues of \<^verbatim>\<open>src/src/native.rs\<close>: \<open>BoundedQueue\<close> with its byte and command
  limits, the atomic counters that mirror them for the status call, the budget that the two
  search queues of one runtime share (\<open>QueueBudget\<close>), the wake generation (\<open>QueueWake\<close>) and the
  inspection that takes expired searches out of the middle of the queue.  Every operation runs
  under the queue's mutex, so it is one function on the queue and on what it shares.
\<close>

section \<open>The state of a queue\<close>

text \<open>An \<open>Instant\<close> is a number of nanoseconds; \<open>usize\<close> arithmetic that is not checked wraps.\<close>

definition usize_modulus :: nat where
  "usize_modulus = 18446744073709551616"

definition usize_add :: "nat \<Rightarrow> nat \<Rightarrow> nat" where
  "usize_add a b = (a + b) mod usize_modulus"

definition usize_sub :: "nat \<Rightarrow> nat \<Rightarrow> nat" where
  "usize_sub a b = (a + (usize_modulus - b mod usize_modulus)) mod usize_modulus"

record 'a queued =
  q_value :: 'a
  q_bytes :: nat
  q_enqueued :: nat

record 'a bounded_queue =
  qs_items :: "'a queued list"
  qs_bytes :: nat
  qs_closed :: bool
  max_commands :: nat
  max_bytes :: nat
  queued_commands :: u64
  queued_bytes :: u64

record queue_budget =
  qb_commands :: nat
  qb_bytes :: nat
  qb_max_commands :: nat
  qb_max_bytes :: nat

text \<open>What a queue reaches through its \<open>Arc\<close>s: the optional budget and the optional wake, of
  which the state is its generation.\<close>

record queue_shared =
  shared_budget :: "queue_budget option"
  shared_wake :: "u64 option"

definition bounded_queue_new :: "nat \<Rightarrow> nat \<Rightarrow> 'a bounded_queue" where
  "bounded_queue_new commands bytes =
     \<lparr>qs_items = [], qs_bytes = 0, qs_closed = False, max_commands = commands, max_bytes = bytes,
      queued_commands = 0, queued_bytes = 0\<rparr>"

definition queue_budget_new :: "nat \<Rightarrow> nat \<Rightarrow> queue_budget" where
  "queue_budget_new commands bytes =
     \<lparr>qb_commands = 0, qb_bytes = 0, qb_max_commands = commands, qb_max_bytes = bytes\<rparr>"

section \<open>Capacity\<close>

definition queue_full_error :: fulltext_error where
  "queue_full_error = fulltext_error_new ''E_QUEUE_FULL'' ''operation queue limits are exhausted''"

definition queue_closed_error :: fulltext_error where
  "queue_closed_error = fulltext_error_new ''E_CLOSED'' ''operation queue is closed''"

definition budget_validate :: "queue_budget \<Rightarrow> nat \<Rightarrow> unit res" where
  "budget_validate b bytes =
     (if qb_max_commands b \<le> qb_commands b \<or> qb_max_bytes b < saturating_add (qb_bytes b) bytes
      then Err queue_full_error else Ok ())"

definition validate_capacity :: "'a bounded_queue \<Rightarrow> nat \<Rightarrow> unit res" where
  "validate_capacity q bytes =
     (if qs_closed q then Err queue_closed_error
      else if max_commands q \<le> length (qs_items q) \<or> max_bytes q < saturating_add (qs_bytes q) bytes
      then Err queue_full_error else Ok ())"

definition validate_shared_capacity :: "queue_shared \<Rightarrow> nat \<Rightarrow> unit res" where
  "validate_shared_capacity sh bytes =
     (case shared_budget sh of None \<Rightarrow> Ok () | Some b \<Rightarrow> budget_validate b bytes)"

definition check_capacity :: "'a bounded_queue \<Rightarrow> queue_shared \<Rightarrow> nat \<Rightarrow> unit res" where
  "check_capacity q sh bytes =
     and_then (validate_capacity q bytes) (\<lambda>_. validate_shared_capacity sh bytes)"

definition reserve_shared :: "queue_shared \<Rightarrow> nat \<Rightarrow> queue_shared res" where
  "reserve_shared sh bytes = (case shared_budget sh of
     None \<Rightarrow> Ok sh
   | Some b \<Rightarrow> and_then (budget_validate b bytes) (\<lambda>_.
       Ok (sh\<lparr>shared_budget := Some (b\<lparr>qb_commands := usize_add (qb_commands b) 1,
                                     qb_bytes := usize_add (qb_bytes b) bytes\<rparr>)\<rparr>)))"

definition release_shared :: "nat \<Rightarrow> nat \<Rightarrow> queue_shared \<Rightarrow> queue_shared" where
  "release_shared commands bytes sh = (case shared_budget sh of
     None \<Rightarrow> sh
   | Some b \<Rightarrow> sh\<lparr>shared_budget := Some (b\<lparr>qb_commands := usize_sub (qb_commands b) commands,
                                           qb_bytes := usize_sub (qb_bytes b) bytes\<rparr>)\<rparr>)"

definition notify_shared :: "queue_shared \<Rightarrow> queue_shared" where
  "notify_shared sh = sh\<lparr>shared_wake := map_option (\<lambda>generation. generation + 1) (shared_wake sh)\<rparr>"

section \<open>Operations\<close>

definition push_back :: "'a queued \<Rightarrow> 'a bounded_queue \<Rightarrow> 'a bounded_queue" where
  "push_back item q = q\<lparr>qs_bytes := usize_add (qs_bytes q) (q_bytes item),
     qs_items := qs_items q @ [item],
     queued_commands := queued_commands q + 1,
     queued_bytes := queued_bytes q + of_nat (q_bytes item)\<rparr>"

text \<open>
  \<open>try_push_tracked\<close>: \<open>admit\<close> is the result of the caller's check under the lock, \<open>accepted\<close>
  stamps the command with the instant of its admission.
\<close>

definition try_push_tracked ::
    "'a \<Rightarrow> nat \<Rightarrow> unit res \<Rightarrow> ('a \<Rightarrow> nat \<Rightarrow> 'a) \<Rightarrow> nat \<Rightarrow> 'a bounded_queue \<times> queue_shared \<Rightarrow>
     ('a bounded_queue \<times> queue_shared) res" where
  "try_push_tracked v bytes admit accepted now s = (case s of (q, sh) \<Rightarrow>
     and_then admit (\<lambda>_.
     and_then (validate_capacity q bytes) (\<lambda>_.
     and_then (reserve_shared sh bytes) (\<lambda>sh'.
       Ok (push_back \<lparr>q_value = accepted v now, q_bytes = bytes, q_enqueued = now\<rparr> q,
           notify_shared sh')))))"

definition push_force_tracked_if ::
    "'a \<Rightarrow> nat \<Rightarrow> unit res \<Rightarrow> ('a \<Rightarrow> nat \<Rightarrow> 'a) \<Rightarrow> nat \<Rightarrow> 'a bounded_queue \<times> queue_shared \<Rightarrow>
     ('a bounded_queue \<times> queue_shared) res" where
  "push_force_tracked_if v bytes admit accepted now s = (case s of (q, sh) \<Rightarrow>
     if shared_budget sh \<noteq> None then Err (fulltext_error_new ''E_NATIVE_FAILURE''
       ''forced queue admission cannot bypass a shared budget'')
     else if qs_closed q then Err queue_closed_error
     else and_then admit (\<lambda>_.
       Ok (push_back \<lparr>q_value = accepted v now, q_bytes = bytes, q_enqueued = now\<rparr> q,
           notify_shared sh)))"

definition push_force_tracked ::
    "'a \<Rightarrow> nat \<Rightarrow> ('a \<Rightarrow> nat \<Rightarrow> 'a) \<Rightarrow> nat \<Rightarrow> 'a bounded_queue \<times> queue_shared \<Rightarrow>
     ('a bounded_queue \<times> queue_shared) res" where
  "push_force_tracked v bytes accepted now s = push_force_tracked_if v bytes (Ok ()) accepted now s"

definition push_force :: "'a \<Rightarrow> nat \<Rightarrow> nat \<Rightarrow> 'a bounded_queue \<times> queue_shared \<Rightarrow>
     ('a bounded_queue \<times> queue_shared) res" where
  "push_force v bytes now s = push_force_tracked v bytes (\<lambda>v _. v) now s"

definition take_front :: "'a bounded_queue \<times> queue_shared \<Rightarrow> ('a queued \<times> 'a bounded_queue \<times> queue_shared) option" where
  "take_front s = (case s of (q, sh) \<Rightarrow>
     (case qs_items q of
        [] \<Rightarrow> None
      | item # rest \<Rightarrow> Some (item,
          q\<lparr>qs_items := rest, qs_bytes := usize_sub (qs_bytes q) (q_bytes item),
            queued_commands := queued_commands q - 1,
            queued_bytes := queued_bytes q - of_nat (q_bytes item)\<rparr>,
          release_shared 1 (q_bytes item) sh)))"

text \<open>One turn of \<open>pop\<close>: it takes the front, reports the closed and empty queue, or waits.\<close>

datatype ('a, 's) popped = Item "'a queued" 's | Ended | Waiting

definition pop_turn :: "'a bounded_queue \<times> queue_shared \<Rightarrow> ('a, 'a bounded_queue \<times> queue_shared) popped" where
  "pop_turn s = (case take_front s of
     Some (item, s') \<Rightarrow> Item item s'
   | None \<Rightarrow> if qs_closed (fst s) then Ended else Waiting)"

definition drain_queue :: "'a bounded_queue \<Rightarrow> 'a queued list \<times> 'a bounded_queue" where
  "drain_queue q = (qs_items q, q\<lparr>qs_items := [], qs_bytes := 0, queued_commands := 0, queued_bytes := 0\<rparr>)"

definition usize_sum :: "nat list \<Rightarrow> nat" where
  "usize_sum xs = foldl usize_add 0 xs"

definition close_queue :: "'a bounded_queue \<times> queue_shared \<Rightarrow> 'a queued list \<times> 'a bounded_queue \<times> queue_shared" where
  "close_queue s = (case s of (q, sh) \<Rightarrow>
     (case drain_queue (q\<lparr>qs_closed := True\<rparr>) of (items, q') \<Rightarrow>
       (items, q', notify_shared (release_shared (length items) (usize_sum (map q_bytes items)) sh))))"

definition drain :: "'a bounded_queue \<times> queue_shared \<Rightarrow> 'a queued list \<times> 'a bounded_queue \<times> queue_shared" where
  "drain s = (case s of (q, sh) \<Rightarrow>
     (case drain_queue q of (items, q') \<Rightarrow>
       (items, q', notify_shared (release_shared (length items) (usize_sum (map q_bytes items)) sh))))"

definition shutdown_after_drain :: "'a bounded_queue \<times> queue_shared \<Rightarrow> 'a bounded_queue \<times> queue_shared" where
  "shutdown_after_drain s = (case s of (q, sh) \<Rightarrow> (q\<lparr>qs_closed := True\<rparr>, notify_shared sh))"

text \<open>The snapshot that telemetry takes: length, bytes and the age of the oldest command.\<close>

definition queue_snapshot :: "nat \<Rightarrow> 'a bounded_queue \<Rightarrow> u64 \<times> u64 \<times> nat" where
  "queue_snapshot now q = (of_nat (length (qs_items q)), of_nat (qs_bytes q),
     (case qs_items q of [] \<Rightarrow> 0 | item # _ \<Rightarrow> now - q_enqueued item))"

definition state_summary :: "'a bounded_queue \<Rightarrow> bool \<times> bool" where
  "state_summary q = (qs_items q \<noteq> [], qs_closed q)"

definition duration_ns :: "nat \<Rightarrow> u64" where
  "duration_ns nanoseconds = of_nat (min nanoseconds 18446744073709551615)"

section \<open>Expired searches\<close>

datatype search_operation =
    Search_Operation "u8 list" bool
  | Trace_Operation "u8 list"

record 'c search_command =
  sc_operation :: search_operation
  sc_completion :: 'c

definition unwrap_or_zero :: "nat res \<Rightarrow> nat" where
  "unwrap_or_zero r = (case r of Ok n \<Rightarrow> n | Err _ \<Rightarrow> 0)"

definition command_milliseconds :: "search_operation \<Rightarrow> nat" where
  "command_milliseconds operation = unwrap_or_zero (case operation of
     Search_Operation bytes _ \<Rightarrow> search_budget bytes
   | Trace_Operation bytes \<Rightarrow> trace_budget bytes)"

text \<open>Subtraction of natural numbers is \<open>checked_sub\<close> with \<open>Duration::ZERO\<close> as its default.\<close>

definition remaining_time :: "nat \<Rightarrow> 'c search_command queued \<Rightarrow> nat" where
  "remaining_time now item =
     command_milliseconds (sc_operation (q_value item)) * 1000000 - (now - q_enqueued item)"

record 'c inspection =
  in_items :: "'c search_command queued list"
  in_expired :: "'c search_command queued list"
  in_minimum :: "nat option"
  in_expired_bytes :: nat

definition inspect_one :: "nat \<Rightarrow> 'c inspection \<Rightarrow> 'c inspection" where
  "inspect_one now s = (case in_items s of
     [] \<Rightarrow> s
   | item # rest \<Rightarrow>
       let remaining = remaining_time now item in
       if remaining = 0
       then s\<lparr>in_items := rest, in_expired_bytes := usize_add (in_expired_bytes s) (q_bytes item),
              in_expired := in_expired s @ [item]\<rparr>
       else s\<lparr>in_minimum := Some (case in_minimum s of None \<Rightarrow> remaining | Some m \<Rightarrow> min m remaining),
              in_items := rest @ [item]\<rparr>)"

text \<open>The loop runs once per command that was queued when it began; \<open>clock i\<close> is the reading of
  the clock for the \<open>i\<close>th of them.\<close>

definition inspect_loop :: "(nat \<Rightarrow> nat) \<Rightarrow> nat \<Rightarrow> 'c inspection \<Rightarrow> 'c inspection" where
  "inspect_loop clock n s = foldl (\<lambda>s i. inspect_one (clock i) s) s [0..<n]"

definition inspect_and_take_expired ::
    "(nat \<Rightarrow> nat) \<Rightarrow> 'c search_command bounded_queue \<times> queue_shared \<Rightarrow>
     'c search_command queued list \<times> nat option \<times> 'c search_command bounded_queue \<times> queue_shared" where
  "inspect_and_take_expired clock s = (case s of (q, sh) \<Rightarrow>
     let r = inspect_loop clock (length (qs_items q))
               \<lparr>in_items = qs_items q, in_expired = [], in_minimum = None, in_expired_bytes = 0\<rparr>
     in (in_expired r, in_minimum r,
         q\<lparr>qs_items := in_items r, qs_bytes := usize_sub (qs_bytes q) (in_expired_bytes r),
           queued_commands := queued_commands q - of_nat (length (in_expired r)),
           queued_bytes := queued_bytes q - of_nat (in_expired_bytes r)\<rparr>,
         release_shared (length (in_expired r)) (in_expired_bytes r) sh))"

section \<open>Exact accounting\<close>

definition items_bytes :: "'a queued list \<Rightarrow> nat" where
  "items_bytes xs = sum_list (map q_bytes xs)"

definition queue_exact :: "'a bounded_queue \<Rightarrow> bool" where
  "queue_exact q \<longleftrightarrow>
     qs_bytes q = items_bytes (qs_items q) \<and> items_bytes (qs_items q) \<le> max_bytes q \<and> max_bytes q < usize_max \<and>
     queued_commands q = of_nat (length (qs_items q)) \<and> queued_bytes q = of_nat (items_bytes (qs_items q))"

definition budget_covers :: "queue_shared \<Rightarrow> nat \<Rightarrow> nat \<Rightarrow> bool" where
  "budget_covers sh n m = (case shared_budget sh of
     None \<Rightarrow> True
   | Some b \<Rightarrow> qb_commands b = n \<and> qb_bytes b = m \<and> n \<le> qb_max_commands b \<and> m \<le> qb_max_bytes b \<and>
       qb_max_commands b < usize_max \<and> qb_max_bytes b < usize_max)"

text \<open>One queue in the company of others that hold \<open>n\<close> commands and \<open>m\<close> bytes of the budget.\<close>

definition lane_inv :: "nat \<Rightarrow> nat \<Rightarrow> 'a bounded_queue \<times> queue_shared \<Rightarrow> bool" where
  "lane_inv n m s \<longleftrightarrow> queue_exact (fst s) \<and>
     budget_covers (snd s) (n + length (qs_items (fst s))) (m + items_bytes (qs_items (fst s)))"

lemma items_bytes_simps [simp]:
  "items_bytes [] = 0" "items_bytes (x # xs) = q_bytes x + items_bytes xs"
  "items_bytes (xs @ ys) = items_bytes xs + items_bytes ys"
  by (simp_all add: items_bytes_def)

lemma usize_add_eq: "a + b \<le> usize_max \<Longrightarrow> usize_add a b = a + b"
  by (simp add: usize_add_def usize_modulus_def usize_max_def)

lemma usize_sub_eq: "b \<le> a \<Longrightarrow> a \<le> usize_max \<Longrightarrow> usize_sub a b = a - b"
proof -
  assume "b \<le> a" "a \<le> usize_max"
  then have "b mod usize_modulus = b" "a + (usize_modulus - b) = usize_modulus + (a - b)" "a - b < usize_modulus"
    by (simp_all add: usize_modulus_def usize_max_def)
  then show ?thesis unfolding usize_sub_def by (simp add: mod_add_self1)
qed

lemma usize_sum_aux: "a + sum_list xs \<le> usize_max \<Longrightarrow> foldl usize_add a xs = a + sum_list xs"
  by (induction xs arbitrary: a) (simp_all add: usize_add_eq)

lemma usize_sum_eq: "items_bytes xs \<le> usize_max \<Longrightarrow> usize_sum (map q_bytes xs) = items_bytes xs"
  by (simp add: usize_sum_def usize_sum_aux items_bytes_def)

lemma items_bytes_mset: "mset xs = mset ys + mset zs \<Longrightarrow> items_bytes xs = items_bytes ys + items_bytes zs"
  unfolding items_bytes_def by (metis mset_append mset_map sum_list_append sum_mset_sum_list map_append)

lemma budget_covers_notify [simp]: "budget_covers (notify_shared sh) n m = budget_covers sh n m"
  by (simp add: budget_covers_def notify_shared_def)

lemma budget_covers_release:
  "budget_covers sh (n + k) (m + j) \<Longrightarrow> budget_covers (release_shared k j sh) n m"
  by (auto simp: budget_covers_def release_shared_def usize_sub_eq split: option.splits)

lemma budget_covers_reserve:
  "reserve_shared sh j = Ok sh' \<Longrightarrow> budget_covers sh n m \<Longrightarrow> budget_covers sh' (n + 1) (m + j)"
  by (auto simp: budget_covers_def reserve_shared_def budget_validate_def and_then_Ok_iff usize_add_eq
      saturating_add_le_iff not_less split: option.splits if_splits)

text \<open>Taking any commands out, with the counters lowered by what they held, keeps the accounts.\<close>

definition take_out :: "'a queued list \<Rightarrow> 'a queued list \<Rightarrow> 'a bounded_queue \<times> queue_shared \<Rightarrow>
     'a bounded_queue \<times> queue_shared \<Rightarrow> bool" where
  "take_out rs rest s s' \<longleftrightarrow> qs_items (fst s') = rest \<and> max_bytes (fst s') = max_bytes (fst s) \<and>
     max_commands (fst s') = max_commands (fst s) \<and>
     qs_bytes (fst s') = usize_sub (qs_bytes (fst s)) (items_bytes rs) \<and>
     queued_commands (fst s') = queued_commands (fst s) - of_nat (length rs) \<and>
     queued_bytes (fst s') = queued_bytes (fst s) - of_nat (items_bytes rs) \<and>
     shared_budget (snd s') = shared_budget (release_shared (length rs) (items_bytes rs) (snd s))"

lemma take_out_inv:
  assumes "lane_inv n m s" "take_out rs rest s s'" "mset (qs_items (fst s)) = mset rs + mset rest"
  shows "lane_inv n m s'"
proof -
  have b: "items_bytes (qs_items (fst s)) = items_bytes rs + items_bytes rest"
    using assms(3) by (rule items_bytes_mset)
  have l: "length (qs_items (fst s)) = length rs + length rest"
    using arg_cong [OF assms(3), of size] by simp
  have "budget_covers (release_shared (length rs) (items_bytes rs) (snd s)) (n + length rest) (m + items_bytes rest)"
    using assms(1) by (intro budget_covers_release) (simp add: lane_inv_def b l ac_simps)
  then have "budget_covers (snd s') (n + length rest) (m + items_bytes rest)"
    using assms(2) by (simp add: budget_covers_def take_out_def)
  then show ?thesis
    using assms(1,2) b l by (auto simp: lane_inv_def queue_exact_def take_out_def usize_sub_eq)
qed

lemma push_back_inv:
  assumes "queue_exact q" "items_bytes (qs_items q) + q_bytes x \<le> max_bytes q"
  shows "queue_exact (push_back x q)"
  using assms by (simp add: queue_exact_def push_back_def usize_add_eq)

lemma less_saturating_add_iff: "k < usize_max \<Longrightarrow> k < saturating_add a b \<longleftrightarrow> k < a + b"
  by (auto simp: saturating_add_def)

lemma validate_capacity_Ok_iff:
  "max_bytes q < usize_max \<Longrightarrow> validate_capacity q bytes = Ok () \<longleftrightarrow>
     \<not> qs_closed q \<and> length (qs_items q) < max_commands q \<and> qs_bytes q + bytes \<le> max_bytes q"
  by (auto simp: validate_capacity_def less_saturating_add_iff)

lemma push_back_simps [simp]:
  "qs_items (push_back x q) = qs_items q @ [x]" "max_commands (push_back x q) = max_commands q"
  "max_bytes (push_back x q) = max_bytes q" "qs_closed (push_back x q) = qs_closed q"
  by (simp_all add: push_back_def)

lemma try_push_Ok:
  assumes "try_push_tracked v bytes admit accepted now s = Ok s'" "lane_inv n m s"
  shows "lane_inv n m s' \<and> length (qs_items (fst s')) \<le> max_commands (fst s') \<and>
    qs_items (fst s') = qs_items (fst s) @ [\<lparr>q_value = accepted v now, q_bytes = bytes, q_enqueued = now\<rparr>]"
proof -
  obtain q sh where s: "s = (q, sh)" by (cases s)
  obtain sh' where r: "validate_capacity q bytes = Ok ()" "reserve_shared sh bytes = Ok sh'"
      "s' = (push_back \<lparr>q_value = accepted v now, q_bytes = bytes, q_enqueued = now\<rparr> q, notify_shared sh')"
    using assms(1) by (auto simp: try_push_tracked_def s and_then_Ok_iff)
  have q: "queue_exact q" and b: "budget_covers sh (n + length (qs_items q)) (m + items_bytes (qs_items q))"
    using assms(2) by (simp_all add: lane_inv_def s)
  have cap: "length (qs_items q) < max_commands q" "items_bytes (qs_items q) + bytes \<le> max_bytes q"
    using q r(1) by (auto simp: queue_exact_def validate_capacity_Ok_iff)
  show ?thesis
    using push_back_inv [OF q] cap budget_covers_reserve [OF r(2) b]
    by (simp add: r(3) s lane_inv_def add.assoc)
qed

lemma push_force_Ok:
  assumes "push_force_tracked_if v 0 admit accepted now s = Ok s'" "lane_inv n m s"
  shows "lane_inv n m s' \<and> qs_items (fst s') = qs_items (fst s) @ [\<lparr>q_value = accepted v now, q_bytes = 0, q_enqueued = now\<rparr>]"
proof -
  obtain q sh where s: "s = (q, sh)" by (cases s)
  have r: "shared_budget sh = None"
      "s' = (push_back \<lparr>q_value = accepted v now, q_bytes = 0, q_enqueued = now\<rparr> q, notify_shared sh)"
    using assms(1) by (auto simp: push_force_tracked_if_def s and_then_Ok_iff split: if_splits)
  have "queue_exact q" using assms(2) by (simp add: lane_inv_def s)
  then have "queue_exact (push_back \<lparr>q_value = accepted v now, q_bytes = 0, q_enqueued = now\<rparr> q)"
    by (intro push_back_inv) (simp_all add: queue_exact_def)
  moreover have "budget_covers (notify_shared sh) i j" for i j
    by (simp add: budget_covers_def notify_shared_def r(1))
  ultimately show ?thesis by (simp add: r(2) s lane_inv_def)
qed

lemma take_front_Some:
  assumes "take_front s = Some (item, s')"
  shows "\<exists>rest. qs_items (fst s) = item # rest \<and> take_out [item] rest s s'"
  using assms by (auto simp: take_front_def take_out_def split: list.splits prod.splits)

lemma take_front_None_iff: "take_front s = None \<longleftrightarrow> qs_items (fst s) = []"
  by (auto simp: take_front_def split: list.splits prod.splits)

lemma drained_take_out:
  assumes "lane_inv n m s"
  shows "drain s = (rs, s') \<Longrightarrow> rs = qs_items (fst s) \<and> take_out rs [] s s'"
    "close_queue s = (rs, s') \<Longrightarrow> rs = qs_items (fst s) \<and> take_out rs [] s s'"
proof -
  have *: "usize_sum (map q_bytes (qs_items (fst s))) = items_bytes (qs_items (fst s))"
    "usize_sub (items_bytes (qs_items (fst s))) (items_bytes (qs_items (fst s))) = 0"
    using assms by (auto simp: lane_inv_def queue_exact_def intro: usize_sum_eq usize_sub_eq [THEN trans])
  show "drain s = (rs, s') \<Longrightarrow> rs = qs_items (fst s) \<and> take_out rs [] s s'"
    "close_queue s = (rs, s') \<Longrightarrow> rs = qs_items (fst s) \<and> take_out rs [] s s'"
    using assms * by (auto simp: drain_def close_queue_def drain_queue_def take_out_def lane_inv_def queue_exact_def
        notify_shared_def release_shared_def split: prod.splits option.splits)
qed

subsection \<open>The inspection loop\<close>

definition expired_of :: "(nat \<Rightarrow> nat) \<Rightarrow> nat \<Rightarrow> 'c search_command queued list \<Rightarrow> 'c search_command queued list" where
  "expired_of clock i xs = map snd (filter (\<lambda>(i, x). remaining_time (clock i) x = 0) (enumerate i xs))"

definition live_of :: "(nat \<Rightarrow> nat) \<Rightarrow> nat \<Rightarrow> 'c search_command queued list \<Rightarrow> (nat \<times> 'c search_command queued) list" where
  "live_of clock i xs = filter (\<lambda>(i, x). remaining_time (clock i) x \<noteq> 0) (enumerate i xs)"

definition lower :: "nat option \<Rightarrow> nat \<Rightarrow> nat option" where
  "lower m r = Some (case m of None \<Rightarrow> r | Some k \<Rightarrow> min k r)"

lemma inspect_foldl:
  "in_items s = xs @ ks \<Longrightarrow> in_expired_bytes s + items_bytes xs \<le> usize_max \<Longrightarrow>
   foldl (\<lambda>s i. inspect_one (clock i) s) s [i..<i + length xs] =
     s\<lparr>in_items := ks @ map snd (live_of clock i xs), in_expired := in_expired s @ expired_of clock i xs,
       in_minimum := foldl lower (in_minimum s) (map (\<lambda>(i, x). remaining_time (clock i) x) (live_of clock i xs)),
       in_expired_bytes := in_expired_bytes s + items_bytes (expired_of clock i xs)\<rparr>"
proof (induction xs arbitrary: i s ks)
  case Nil
  then show ?case by (simp add: expired_of_def live_of_def)
next
  case (Cons x xs)
  have upt: "[i..<i + length (x # xs)] = i # [Suc i..<Suc i + length xs]"
    using upt_conv_Cons [of i "i + length (x # xs)"] by simp
  show ?case
  proof (cases "remaining_time (clock i) x = 0")
    case True
    have "usize_add (in_expired_bytes s) (q_bytes x) = in_expired_bytes s + q_bytes x"
      using Cons.prems(2) by (intro usize_add_eq) simp
    then have one: "inspect_one (clock i) s = s\<lparr>in_items := xs @ ks,
        in_expired_bytes := in_expired_bytes s + q_bytes x, in_expired := in_expired s @ [x]\<rparr>"
      using Cons.prems(1) True by (simp add: inspect_one_def)
    show ?thesis
      unfolding upt foldl.simps one
      by (subst Cons.IH [where ks = ks])
        (insert Cons.prems(2) True, simp_all add: expired_of_def live_of_def)
  next
    case False
    then have one: "inspect_one (clock i) s = s\<lparr>in_minimum := lower (in_minimum s) (remaining_time (clock i) x),
        in_items := xs @ (ks @ [x])\<rparr>"
      using Cons.prems(1) by (simp add: inspect_one_def lower_def Let_def)
    show ?thesis
      unfolding upt foldl.simps one
      by (subst Cons.IH [where ks = "ks @ [x]"])
        (insert Cons.prems(2) False, simp_all add: expired_of_def live_of_def)
  qed
qed

lemma foldl_lower:
  "foldl lower m rs = (if rs = [] then m else Some (case m of None \<Rightarrow> Min (set rs) | Some k \<Rightarrow> min k (Min (set rs))))"
proof (induction rs arbitrary: m)
  case (Cons r rs)
  then show ?case by (cases m; cases "rs = []") (simp_all add: lower_def min.assoc)
qed simp

lemma enumerate_split: "mset xs = mset (expired_of clock i xs) + mset (map snd (live_of clock i xs))"
  by (induction xs arbitrary: i) (simp_all add: expired_of_def live_of_def)

lemma live_subseq: "subseq (map snd (live_of clock i xs)) xs"
  by (induction xs arbitrary: i) (auto simp: live_of_def)

lemma inspect_take_out:
  assumes "inspect_and_take_expired clock s = (ex, mn, s')" "lane_inv n m s"
  shows "ex = expired_of clock 0 (qs_items (fst s)) \<and>
    take_out ex (map snd (live_of clock 0 (qs_items (fst s)))) s s' \<and>
    mn = foldl lower None (map (\<lambda>(i, x). remaining_time (clock i) x) (live_of clock 0 (qs_items (fst s))))"
proof -
  obtain q sh where s: "s = (q, sh)" by (cases s)
  have "items_bytes (qs_items q) \<le> usize_max"
    using assms(2) by (auto simp: lane_inv_def queue_exact_def s)
  then have "inspect_loop clock (length (qs_items q))
      \<lparr>in_items = qs_items q, in_expired = [], in_minimum = None, in_expired_bytes = 0\<rparr> =
     \<lparr>in_items = map snd (live_of clock 0 (qs_items q)), in_expired = expired_of clock 0 (qs_items q),
      in_minimum = foldl lower None (map (\<lambda>(i, x). remaining_time (clock i) x) (live_of clock 0 (qs_items q))),
      in_expired_bytes = items_bytes (expired_of clock 0 (qs_items q))\<rparr>"
    using inspect_foldl [of "\<lparr>in_items = qs_items q, in_expired = [], in_minimum = None, in_expired_bytes = 0\<rparr>"
        "qs_items q" "[]" clock 0] by (simp add: inspect_loop_def)
  then show ?thesis
    using assms(1) by (auto simp: inspect_and_take_expired_def s Let_def take_out_def)
qed

text \<open>
  C20. The inspection of the expensive queue takes out exactly the commands whose execution
  budget has elapsed, in the order they were queued, and leaves the others in theirs; the
  reported minimum is the smallest remaining time of a command that stays, and none exactly when
  nothing stays. The byte, command and shared counters stay exact.
\<close>

theorem inspect_exact:
  assumes "inspect_and_take_expired clock (q, sh) = (ex, mn, q', sh')" "lane_inv n m (q, sh)"
  shows "ex = map snd (filter (\<lambda>(i, x). remaining_time (clock i) x = 0) (enumerate 0 (qs_items q))) \<and>
    qs_items q' = map snd (filter (\<lambda>(i, x). remaining_time (clock i) x \<noteq> 0) (enumerate 0 (qs_items q))) \<and>
    mn = (if qs_items q' = [] then None else Some (Min {remaining_time (clock i) x |i x.
           (i, x) \<in> set (enumerate 0 (qs_items q)) \<and> remaining_time (clock i) x \<noteq> 0})) \<and>
    lane_inv n m (q', sh')"
proof -
  let ?live = "live_of clock 0 (qs_items q)"
  have t: "ex = expired_of clock 0 (qs_items q)" "take_out ex (map snd ?live) (q, sh) (q', sh')"
    "mn = foldl lower None (map (\<lambda>(i, x). remaining_time (clock i) x) ?live)"
    using inspect_take_out [OF assms] by auto
  then have i: "qs_items q' = map snd ?live" by (simp add: take_out_def)
  have "set (map (\<lambda>(i, x). remaining_time (clock i) x) ?live) = {remaining_time (clock i) x |i x.
           (i, x) \<in> set (enumerate 0 (qs_items q)) \<and> remaining_time (clock i) x \<noteq> 0}"
    by (auto simp: live_of_def)
  then have mn: "mn = (if qs_items q' = [] then None else Some (Min {remaining_time (clock i) x |i x.
           (i, x) \<in> set (enumerate 0 (qs_items q)) \<and> remaining_time (clock i) x \<noteq> 0}))"
    using t(3) i by (simp add: foldl_lower)
  have "lane_inv n m (q', sh')"
    using assms(2) t(2) by (rule take_out_inv) (simp only: t(1) fst_conv enumerate_split [symmetric])
  then show ?thesis
    using t(1) i mn unfolding expired_of_def live_of_def by blast
qed

definition sample_live :: "u8 list" where
  "sample_live = enc_header ''FTSQ'' @ to_le 4 5"

definition sample_item :: "u8 list \<Rightarrow> unit search_command queued" where
  "sample_item bytes = \<lparr>q_value = \<lparr>sc_operation = Search_Operation bytes True, sc_completion = ()\<rparr>,
     q_bytes = length bytes, q_enqueued = 100\<rparr>"

definition sample_queue :: "unit search_command bounded_queue" where
  "sample_queue = push_back (sample_item sample_live) (push_back (sample_item []) (bounded_queue_new 4 100))"

definition sample_shared :: queue_shared where
  "sample_shared = \<lparr>shared_budget = Some \<lparr>qb_commands = 2, qb_bytes = 10, qb_max_commands = 4, qb_max_bytes = 100\<rparr>,
     shared_wake = Some 0\<rparr>"

lemma sample_remaining:
  "remaining_time now (sample_item []) = 0" "remaining_time 100 (sample_item sample_live) = 5000000"
proof -
  have "search_budget [] = Err (invalid ''invalid packed request magic'')"
    by (simp add: search_budget_def packed_budget_def cursor_new_def)
  then show "remaining_time now (sample_item []) = 0"
    by (simp add: remaining_time_def sample_item_def command_milliseconds_def unwrap_or_zero_def)
  have "cursor_new sample_live ''FTSQ'' = Ok \<lparr>cur_bytes = sample_live, cur_offset = 6\<rparr>"
    by (subst cursor_new_Ok_iff) (simp_all add: sample_live_def prefix_def)
  moreover have "drop (length sample_live - 4) sample_live = to_le 4 5"
    by (simp add: sample_live_def)
  moreover have "u32_from_le (to_le 4 5) = 5"
    by (simp add: u32_from_le_def le_nat_to_le)
  ultimately have "search_budget sample_live = Ok 5"
    by (simp add: search_budget_def packed_budget_def MAX_SEARCH_BUDGET_MILLISECONDS_def)
  then show "remaining_time 100 (sample_item sample_live) = 5000000"
    by (simp add: remaining_time_def sample_item_def command_milliseconds_def unwrap_or_zero_def)
qed

lemma sample_lane: "lane_inv 0 0 (sample_queue, sample_shared)"
  by (simp add: lane_inv_def queue_exact_def sample_queue_def sample_item_def sample_shared_def budget_covers_def
      push_back_def bounded_queue_new_def usize_add_def usize_modulus_def usize_max_def sample_live_def)

theorem inspect_exact_witness:
  "\<exists>ex mn q' sh'. inspect_and_take_expired (\<lambda>_. 100) (sample_queue, sample_shared) = (ex, mn, q', sh') \<and>
     ex = [sample_item []] \<and> qs_items q' = [sample_item sample_live] \<and> mn = Some 5000000"
proof -
  obtain ex mn q' sh' where r: "inspect_and_take_expired (\<lambda>_. 100) (sample_queue, sample_shared) = (ex, mn, q', sh')"
    by (metis prod_cases4)
  have items: "qs_items sample_queue = [sample_item [], sample_item sample_live]"
    by (simp add: sample_queue_def bounded_queue_new_def)
  have set: "{remaining_time 100 x |i x. (i, x) \<in> set (enumerate 0 (qs_items sample_queue)) \<and>
      remaining_time 100 x \<noteq> 0} = {5000000}"
    unfolding items using sample_remaining by fastforce
  show ?thesis
    using inspect_exact [OF r sample_lane] r unfolding set by (auto simp: items sample_remaining)
qed

section \<open>The queue contract\<close>

text \<open>
  What the clients of a command queue rely on: commands are appended at the back, taken from the
  front, and any other removal hands the removed commands to its caller and leaves the order of
  the others.  From this alone, no command is lost, duplicated or reordered.
\<close>

definition conserved :: "'x list \<Rightarrow> 'x list \<Rightarrow> 'x list \<Rightarrow> 'x list \<Rightarrow> bool" where
  "conserved accepted delivered removed contents \<longleftrightarrow>
     mset accepted = mset delivered + mset removed + mset contents \<and> subseq (delivered @ contents) accepted"

locale command_queue =
  fixes inv :: "'q \<Rightarrow> bool"
    and contents :: "'q \<Rightarrow> 'x list"
    and push :: "'p \<Rightarrow> 'q \<Rightarrow> 'q option"
    and pop :: "'q \<Rightarrow> ('x \<times> 'q) option"
    and remove :: "'k \<Rightarrow> 'q \<Rightarrow> 'x list \<times> 'q"
  assumes push_appends: "inv q \<Longrightarrow> push p q = Some q' \<Longrightarrow> inv q' \<and> (\<exists>x. contents q' = contents q @ [x])"
    and pop_front: "inv q \<Longrightarrow> pop q = Some (x, q') \<Longrightarrow> inv q' \<and> contents q = x # contents q'"
    and pop_empty: "pop q = None \<longleftrightarrow> contents q = []"
    and remove_splits: "inv q \<Longrightarrow> remove k q = (xs, q') \<Longrightarrow>
      inv q' \<and> mset (contents q) = mset xs + mset (contents q') \<and> subseq (contents q') (contents q)"
begin

lemma conserved_push:
  "inv q \<Longrightarrow> push p q = Some q' \<Longrightarrow> conserved acc del rem (contents q) \<Longrightarrow>
     conserved (acc @ [List.last (contents q')]) del rem (contents q')"
  using push_appends [of q p q'] by (auto simp: conserved_def subseq_append simp flip: append_assoc)

lemma conserved_pop:
  "inv q \<Longrightarrow> pop q = Some (x, q') \<Longrightarrow> conserved acc del rem (contents q) \<Longrightarrow>
     conserved acc (del @ [x]) rem (contents q')"
  using pop_front [of q x q'] by (auto simp: conserved_def)

lemma conserved_remove:
  assumes "inv q" "remove k q = (xs, q')" "conserved acc del rem (contents q)"
  shows "conserved acc del (rem @ xs) (contents q')"
proof -
  have "mset (contents q) = mset xs + mset (contents q')" "subseq (contents q') (contents q)"
    using remove_splits [OF assms(1,2)] by simp_all
  moreover from this have "subseq (del @ contents q') (del @ contents q)" by (simp add: subseq_append')
  ultimately show ?thesis
    using assms(3) by (auto simp: conserved_def intro: subseq_order.trans)
qed

lemma first_in_first_out:
  assumes "inv q" "conserved acc del [] (contents q)"
  shows "acc = del @ contents q"
proof -
  have "subseq (del @ contents q) acc" "length acc = length (del @ contents q)"
    using assms(2) by (auto simp: conserved_def dest: arg_cong [of _ _ size])
  then show ?thesis by (metis subseq_same_length)
qed

end

text \<open>The three ways commands leave a search queue other than by being popped.\<close>

datatype removal = Drain | Close | Expire "nat \<Rightarrow> nat"

definition lane_push ::
    "'c search_command \<times> nat \<times> unit res \<times> ('c search_command \<Rightarrow> nat \<Rightarrow> 'c search_command) \<times> nat \<Rightarrow>
     'c search_command bounded_queue \<times> queue_shared \<Rightarrow> ('c search_command bounded_queue \<times> queue_shared) option" where
  "lane_push p s = (case p of (v, bytes, admit, accepted, now) \<Rightarrow>
     (case try_push_tracked v bytes admit accepted now s of Ok s' \<Rightarrow> Some s' | Err _ \<Rightarrow> None))"

definition lane_remove :: "removal \<Rightarrow> 'c search_command bounded_queue \<times> queue_shared \<Rightarrow>
    'c search_command queued list \<times> 'c search_command bounded_queue \<times> queue_shared" where
  "lane_remove k s = (case k of
     Drain \<Rightarrow> drain s
   | Close \<Rightarrow> close_queue s
   | Expire clock \<Rightarrow> (case inspect_and_take_expired clock s of (ex, _, s') \<Rightarrow> (ex, s')))"

lemma lane_remove_take_out:
  assumes "lane_inv n m s" "lane_remove k s = (xs, s')"
  shows "take_out xs (qs_items (fst s')) s s' \<and> mset (qs_items (fst s)) = mset xs + mset (qs_items (fst s')) \<and>
    subseq (qs_items (fst s')) (qs_items (fst s))"
proof (cases k)
  case (Expire clock)
  then obtain mn where r: "inspect_and_take_expired clock s = (xs, mn, s')"
    using assms(2) by (auto simp: lane_remove_def split: prod.splits)
  have t: "xs = expired_of clock 0 (qs_items (fst s))"
    "take_out xs (map snd (live_of clock 0 (qs_items (fst s)))) s s'"
    using inspect_take_out [OF r assms(1)] by blast+
  then have "qs_items (fst s') = map snd (live_of clock 0 (qs_items (fst s)))" by (simp add: take_out_def)
  then show ?thesis using t enumerate_split live_subseq by metis
qed (insert assms drained_take_out [OF assms(1)], auto simp: lane_remove_def take_out_def)

interpretation lane: command_queue "lane_inv n m" "\<lambda>s. qs_items (fst s)" lane_push take_front lane_remove
  for n m
proof
  fix p :: "'c search_command \<times> nat \<times> unit res \<times> ('c search_command \<Rightarrow> nat \<Rightarrow> 'c search_command) \<times> nat"
    and s s' :: "'c search_command bounded_queue \<times> queue_shared"
  assume "lane_inv n m s" "lane_push p s = Some s'"
  then show "lane_inv n m s' \<and> (\<exists>x. qs_items (fst s') = qs_items (fst s) @ [x])"
    by (auto simp: lane_push_def dest: try_push_Ok split: prod.splits result.splits)
next
  fix s s' :: "'c search_command bounded_queue \<times> queue_shared" and x
  assume "lane_inv n m s" "take_front s = Some (x, s')"
  then show "lane_inv n m s' \<and> qs_items (fst s) = x # qs_items (fst s')"
    using take_front_Some [of s x s'] by (auto simp: take_out_def [of "[x]"] intro!: take_out_inv [of n m s "[x]"])
next
  fix s :: "'c search_command bounded_queue \<times> queue_shared"
  show "take_front s = None \<longleftrightarrow> qs_items (fst s) = []" by (rule take_front_None_iff)
next
  fix s s' :: "'c search_command bounded_queue \<times> queue_shared" and k xs
  assume "lane_inv n m s" "lane_remove k s = (xs, s')"
  then show "lane_inv n m s' \<and> mset (qs_items (fst s)) = mset xs + mset (qs_items (fst s')) \<and>
      subseq (qs_items (fst s')) (qs_items (fst s))"
    using lane_remove_take_out take_out_inv by blast
qed

section \<open>The two search queues of a runtime\<close>

text \<open>
  The queue for ordinary searches (\<open>False\<close>) and the one for expensive searches (\<open>True\<close>) share a
  budget.  The last three fields are history: what each queue accepted, what its workers popped
  and what was removed otherwise.
\<close>

record 'c search_queues =
  sq_queue :: "bool \<Rightarrow> 'c search_command bounded_queue"
  sq_shared :: queue_shared
  sq_accepted :: "bool \<Rightarrow> 'c search_command queued list"
  sq_popped :: "bool \<Rightarrow> 'c search_command queued list"
  sq_removed :: "bool \<Rightarrow> 'c search_command queued list"

definition lane_of :: "bool \<Rightarrow> 'c search_queues \<Rightarrow> 'c search_command bounded_queue \<times> queue_shared" where
  "lane_of e w = (sq_queue w e, sq_shared w)"

definition set_lane :: "bool \<Rightarrow> 'c search_command bounded_queue \<times> queue_shared \<Rightarrow> 'c search_queues \<Rightarrow> 'c search_queues" where
  "set_lane e s w = w\<lparr>sq_queue := (sq_queue w)(e := fst s), sq_shared := snd s\<rparr>"

inductive queue_step :: "'c search_queues \<Rightarrow> 'c search_queues \<Rightarrow> bool" where
  pushed: "lane_push p (lane_of e w) = Some s \<Longrightarrow>
    queue_step w (set_lane e s (w\<lparr>sq_accepted := (sq_accepted w)(e := sq_accepted w e @ [List.last (qs_items (fst s))])\<rparr>))"
| popped: "take_front (lane_of e w) = Some (x, s) \<Longrightarrow>
    queue_step w (set_lane e s (w\<lparr>sq_popped := (sq_popped w)(e := sq_popped w e @ [x])\<rparr>))"
| removed: "lane_remove k (lane_of e w) = (xs, s) \<Longrightarrow>
    queue_step w (set_lane e s (w\<lparr>sq_removed := (sq_removed w)(e := sq_removed w e @ xs)\<rparr>))"
| shut: "shutdown_after_drain (lane_of e w) = s \<Longrightarrow> queue_step w (set_lane e s w)"

inductive_cases queue_step_cases: "queue_step w w'"

definition search_queues_new :: "nat \<Rightarrow> nat \<Rightarrow> 'c search_queues" where
  "search_queues_new commands bytes =
     \<lparr>sq_queue = (\<lambda>_. bounded_queue_new commands bytes),
      sq_shared = \<lparr>shared_budget = Some (queue_budget_new commands bytes), shared_wake = Some 0\<rparr>,
      sq_accepted = (\<lambda>_. []), sq_popped = (\<lambda>_. []), sq_removed = (\<lambda>_. [])\<rparr>"

definition lane_ok :: "bool \<Rightarrow> 'c search_queues \<Rightarrow> bool" where
  "lane_ok e w \<longleftrightarrow> lane_inv (length (qs_items (sq_queue w (\<not> e)))) (items_bytes (qs_items (sq_queue w (\<not> e)))) (lane_of e w) \<and>
     conserved (sq_accepted w e) (sq_popped w e) (sq_removed w e) (qs_items (sq_queue w e))"

definition queues_inv :: "nat \<Rightarrow> nat \<Rightarrow> 'c search_queues \<Rightarrow> bool" where
  "queues_inv commands bytes w \<longleftrightarrow> (\<forall>e. lane_ok e w) \<and>
     (\<exists>b. shared_budget (sq_shared w) = Some b \<and> qb_max_commands b = commands \<and> qb_max_bytes b = bytes)"

lemma set_lane_simps [simp]:
  "sq_queue (set_lane e s w) = (sq_queue w)(e := fst s)" "sq_shared (set_lane e s w) = snd s"
  "sq_accepted (set_lane e s w) = sq_accepted w" "sq_popped (set_lane e s w) = sq_popped w"
  "sq_removed (set_lane e s w) = sq_removed w" "lane_of e (set_lane e s w) = s"
  by (simp_all add: set_lane_def lane_of_def)

text \<open>What an operation on one lane does to the limits of the shared budget: nothing.\<close>

definition same_limits :: "queue_shared \<Rightarrow> queue_shared \<Rightarrow> bool" where
  "same_limits sh sh' \<longleftrightarrow>
     map_option (\<lambda>b. (qb_max_commands b, qb_max_bytes b)) (shared_budget sh') =
     map_option (\<lambda>b. (qb_max_commands b, qb_max_bytes b)) (shared_budget sh)"

lemma same_limits_simps [simp]:
  "same_limits sh (notify_shared sh') = same_limits sh sh'"
  "same_limits sh (release_shared k j sh)"
  "same_limits sh sh"
  by (auto simp: same_limits_def notify_shared_def release_shared_def split: option.splits)

lemma lane_ops_same_limits:
  "lane_push p s = Some s' \<Longrightarrow> same_limits (snd s) (snd s')"
  "take_front s = Some (x, s') \<Longrightarrow> same_limits (snd s) (snd s')"
  "lane_remove k s = (xs, s') \<Longrightarrow> same_limits (snd s) (snd s')"
  "same_limits (snd s) (snd (shutdown_after_drain s))"
     apply (auto simp: lane_push_def try_push_tracked_def and_then_Ok_iff reserve_shared_def same_limits_def
        notify_shared_def split: prod.splits result.splits option.splits)[1]
    apply (auto simp: take_front_def split: prod.splits list.splits)[1]
   apply (auto simp: lane_remove_def drain_def close_queue_def inspect_and_take_expired_def Let_def
        split: prod.splits removal.splits)[1]
  apply (simp add: shutdown_after_drain_def split: prod.splits)
  done

lemma budget_covers_limits:
  assumes "queues_inv c b w" "same_limits (sq_shared w) sh'"
  shows "\<exists>x. shared_budget sh' = Some x \<and> qb_max_commands x = c \<and> qb_max_bytes x = b"
  using assms by (auto simp: queues_inv_def same_limits_def)

text \<open>Changing one lane keeps the other: the budget is counted from either side.\<close>

lemma set_lane_ok:
  assumes "queues_inv c b w" "same_limits (sq_shared w) (snd s)"
    and "lane_inv (length (qs_items (sq_queue w (\<not> e)))) (items_bytes (qs_items (sq_queue w (\<not> e)))) s"
    and "sq_queue w' = sq_queue w"
    and "\<forall>d. d \<noteq> e \<longrightarrow> sq_accepted w' d = sq_accepted w d \<and> sq_popped w' d = sq_popped w d \<and> sq_removed w' d = sq_removed w d"
    and "conserved (sq_accepted w' e) (sq_popped w' e) (sq_removed w' e) (qs_items (fst s))"
  shows "queues_inv c b (set_lane e s w')"
proof -
  have other: "lane_ok (\<not> e) w" using assms(1) by (simp add: queues_inv_def)
  then have "queue_exact (sq_queue w (\<not> e))"
    "conserved (sq_accepted w (\<not> e)) (sq_popped w (\<not> e)) (sq_removed w (\<not> e)) (qs_items (sq_queue w (\<not> e)))"
    by (simp_all add: lane_ok_def lane_inv_def lane_of_def)
  then have "lane_ok (\<not> e) (set_lane e s w')"
    using assms(3-5) by (simp add: lane_ok_def lane_inv_def lane_of_def add.commute)
  moreover have "lane_ok e (set_lane e s w')"
    using assms(3,4,6) by (simp add: lane_ok_def)
  ultimately have "lane_ok d (set_lane e s w')" for d by (cases d; cases e) auto
  then show ?thesis
    using budget_covers_limits [OF assms(1,2)] by (simp add: queues_inv_def)
qed

lemma queues_inv_step:
  assumes "queue_step w w'" "queues_inv c b w"
  shows "queues_inv c b w'"
proof -
  have lane: "lane_inv (length (qs_items (sq_queue w (\<not> e)))) (items_bytes (qs_items (sq_queue w (\<not> e)))) (lane_of e w)"
    and cons: "conserved (sq_accepted w e) (sq_popped w e) (sq_removed w e) (qs_items (fst (lane_of e w)))" for e
    using assms(2) by (simp_all add: queues_inv_def lane_ok_def lane_of_def)
  from assms(1) show ?thesis
  proof cases
    case (pushed p e s)
    show ?thesis
      unfolding pushed(1)
      using assms(2) lane_ops_same_limits(1) [OF pushed(2)] lane.push_appends [OF lane pushed(2)]
        lane.conserved_push [OF lane pushed(2) cons]
      by (intro set_lane_ok [where w = w]) (auto simp: lane_of_def)
  next
    case (popped e x s)
    show ?thesis
      unfolding popped(1)
      using assms(2) lane_ops_same_limits(2) [OF popped(2)] lane.pop_front [OF lane popped(2)]
        lane.conserved_pop [OF lane popped(2) cons]
      by (intro set_lane_ok [where w = w]) (auto simp: lane_of_def)
  next
    case (removed k e xs s)
    show ?thesis
      unfolding removed(1)
      using assms(2) lane_ops_same_limits(3) [OF removed(2)] lane.remove_splits [OF lane removed(2)]
        lane.conserved_remove [OF lane removed(2) cons]
      by (intro set_lane_ok [where w = w]) (auto simp: lane_of_def)
  next
    case (shut e s)
    have "qs_items (fst s) = qs_items (fst (lane_of e w))"
      "lane_inv n m s = lane_inv n m (lane_of e w)" for n m
      using shut(2) by (auto simp: shutdown_after_drain_def lane_inv_def queue_exact_def split: prod.splits)
    then show ?thesis
      unfolding shut(1)
      using assms(2) lane_ops_same_limits(4) [of "lane_of e w"] lane [of e] cons [of e] shut(2)
      by (intro set_lane_ok [where w = w]) (auto simp: lane_of_def)
  qed
qed

lemma queues_inv_new: "commands < usize_max \<Longrightarrow> bytes < usize_max \<Longrightarrow> queues_inv commands bytes (search_queues_new commands bytes)"
  by (simp add: queues_inv_def lane_ok_def lane_inv_def lane_of_def queue_exact_def budget_covers_def conserved_def
      search_queues_new_def bounded_queue_new_def queue_budget_new_def)

lemma queues_reachable_inv:
  assumes "queue_step\<^sup>*\<^sup>* (search_queues_new commands bytes) w" "commands < usize_max" "bytes < usize_max"
  shows "queues_inv commands bytes w"
  using assms(1) queues_inv_new [OF assms(2,3)] by (induction rule: rtranclp_induct) (auto intro: queues_inv_step)

text \<open>
  C12. The two search queues of a runtime never exceed their common limits. In every state that
  pushes, pops, expiry inspections, drains, closes and shutdowns can reach in any order, the
  shared budget counts exactly the commands and the bytes that are queued in both queues
  together, both within the configured limits, no subtraction has wrapped, and the atomic
  counters that the status call reads are those of the queue.
\<close>

theorem search_queues_within_budget:
  assumes "queue_step\<^sup>*\<^sup>* (search_queues_new commands bytes) w" "commands < usize_max" "bytes < usize_max"
  shows "(\<exists>b. shared_budget (sq_shared w) = Some b \<and>
      qb_commands b = length (qs_items (sq_queue w False)) + length (qs_items (sq_queue w True)) \<and>
      qb_bytes b = items_bytes (qs_items (sq_queue w False)) + items_bytes (qs_items (sq_queue w True)) \<and>
      qb_commands b \<le> commands \<and> qb_bytes b \<le> bytes) \<and>
    (\<forall>e. qs_bytes (sq_queue w e) = items_bytes (qs_items (sq_queue w e)) \<and>
      queued_commands (sq_queue w e) = of_nat (length (qs_items (sq_queue w e))) \<and>
      queued_bytes (sq_queue w e) = of_nat (items_bytes (qs_items (sq_queue w e))))"
proof -
  have inv: "queues_inv commands bytes w" using assms by (rule queues_reachable_inv)
  then obtain b where b: "shared_budget (sq_shared w) = Some b" "qb_max_commands b = commands" "qb_max_bytes b = bytes"
    by (auto simp: queues_inv_def)
  have "lane_ok e w" for e using inv by (simp add: queues_inv_def)
  then have exact: "queue_exact (sq_queue w e)"
    and cover: "budget_covers (sq_shared w) (length (qs_items (sq_queue w (\<not> e))) + length (qs_items (sq_queue w e)))
      (items_bytes (qs_items (sq_queue w (\<not> e))) + items_bytes (qs_items (sq_queue w e)))" for e
    by (simp_all add: lane_ok_def lane_inv_def lane_of_def)
  show ?thesis
    using exact cover [of True] b by (simp add: budget_covers_def queue_exact_def)
qed

text \<open>
  C21. No search command is lost, duplicated or reordered. Every command a queue accepted is
  exactly once among those its workers popped, those handed back by an expiry inspection, a
  drain or a close, and those still queued; what was popped followed by what is queued is in the
  order of admission, and is all of it as long as nothing was removed.
\<close>

theorem search_queues_conserve:
  assumes "queue_step\<^sup>*\<^sup>* (search_queues_new commands bytes) w" "commands < usize_max" "bytes < usize_max"
  shows "mset (sq_accepted w e) = mset (sq_popped w e) + mset (sq_removed w e) + mset (qs_items (sq_queue w e)) \<and>
    subseq (sq_popped w e @ qs_items (sq_queue w e)) (sq_accepted w e) \<and>
    (sq_removed w e = [] \<longrightarrow> sq_accepted w e = sq_popped w e @ qs_items (sq_queue w e))"
proof -
  have ok: "lane_ok e w" using queues_reachable_inv [OF assms] by (simp add: queues_inv_def)
  then have "conserved (sq_accepted w e) (sq_popped w e) (sq_removed w e) (qs_items (fst (lane_of e w)))"
    by (simp add: lane_ok_def lane_of_def)
  moreover have "sq_removed w e = [] \<longrightarrow> sq_accepted w e = sq_popped w e @ qs_items (fst (lane_of e w))"
    using calculation ok unfolding lane_ok_def by (auto intro: lane.first_in_first_out)
  ultimately show ?thesis by (simp add: conserved_def lane_of_def)
qed

definition sample_run :: "unit search_queues" where
  "sample_run = set_lane True (push_back (sample_item []) (bounded_queue_new 4 100),
       \<lparr>shared_budget = Some \<lparr>qb_commands = 1, qb_bytes = 0, qb_max_commands = 4, qb_max_bytes = 100\<rparr>, shared_wake = Some 1\<rparr>)
     ((search_queues_new 4 100)\<lparr>sq_accepted := (\<lambda>_. [])(True := [sample_item []])\<rparr>)"

lemma sample_run_step: "queue_step (search_queues_new 4 100) sample_run"
proof -
  let ?s = "(push_back (sample_item []) (bounded_queue_new 4 100),
       \<lparr>shared_budget = Some \<lparr>qb_commands = 1, qb_bytes = 0, qb_max_commands = 4, qb_max_bytes = 100\<rparr>, shared_wake = Some 1\<rparr>)"
  have "lane_push (q_value (sample_item []), 0, Ok (), (\<lambda>v _. v), 100) (lane_of True (search_queues_new 4 100)) = Some ?s"
    by (simp add: lane_push_def lane_of_def search_queues_new_def try_push_tracked_def validate_capacity_def
        bounded_queue_new_def reserve_shared_def budget_validate_def queue_budget_new_def saturating_add_def
        usize_add_def usize_modulus_def notify_shared_def sample_item_def)
  then have "queue_step (search_queues_new 4 100) (set_lane True ?s ((search_queues_new 4 100)
      \<lparr>sq_accepted := (sq_accepted (search_queues_new 4 100))(True := sq_accepted (search_queues_new 4 100) True @
        [List.last (qs_items (fst ?s))])\<rparr>))"
    by (rule pushed)
  then show ?thesis by (simp add: sample_run_def search_queues_new_def bounded_queue_new_def)
qed

theorem search_queues_within_budget_witness:
  "\<exists>(w :: unit search_queues) b. queue_step\<^sup>*\<^sup>* (search_queues_new 4 100) w \<and> shared_budget (sq_shared w) = Some b \<and> qb_commands b = 1 \<and>
     qb_commands b \<le> 4 \<and> length (qs_items (sq_queue w True)) = 1"
proof -
  have r: "queue_step\<^sup>*\<^sup>* (search_queues_new 4 100) sample_run" using sample_run_step by (rule r_into_rtranclp)
  have "(4::nat) < usize_max" "(100::nat) < usize_max" by (simp_all add: usize_max_def)
  from search_queues_within_budget [OF r this] obtain b where b: "shared_budget (sq_shared sample_run) = Some b"
      "qb_commands b = length (qs_items (sq_queue sample_run False)) + length (qs_items (sq_queue sample_run True))"
      "qb_commands b \<le> 4" by blast
  have "length (qs_items (sq_queue sample_run False)) = 0" "length (qs_items (sq_queue sample_run True)) = 1"
    by (simp_all add: sample_run_def search_queues_new_def bounded_queue_new_def)
  then show ?thesis
    using r b by (intro exI [of _ sample_run] exI [of _ b]) simp
qed

theorem search_queues_conserve_witness:
  "\<exists>w. queue_step\<^sup>*\<^sup>* (search_queues_new 4 100) w \<and> sq_accepted w True = [sample_item []] \<and>
     sq_accepted w True = sq_popped w True @ qs_items (sq_queue w True)"
proof -
  have r: "queue_step\<^sup>*\<^sup>* (search_queues_new 4 100) sample_run" using sample_run_step by (rule r_into_rtranclp)
  have "(4::nat) < usize_max" "(100::nat) < usize_max" by (simp_all add: usize_max_def)
  then show ?thesis
    using r search_queues_conserve [OF r, of True] by (intro exI [of _ sample_run]) (simp add: sample_run_def search_queues_new_def)
qed

text \<open>
  The capacity check that a native call makes before it copies its request is exact: under
  the same state it answers as the admission itself does, with the same error, and a refused
  admission is \<open>E_CLOSED\<close> or \<open>E_QUEUE_FULL\<close>.
\<close>

theorem check_capacity_predicts:
  "case try_push_tracked v bytes (Ok ()) accepted now (q, sh) of
     Ok (q', sh') \<Rightarrow> check_capacity q sh bytes = Ok () \<and> \<not> qs_closed q \<and> length (qs_items q) < max_commands q \<and>
       qs_items q' = qs_items q @ [\<lparr>q_value = accepted v now, q_bytes = bytes, q_enqueued = now\<rparr>]
   | Err e \<Rightarrow> check_capacity q sh bytes = Err e \<and> err_code e \<in> {''E_CLOSED'', ''E_QUEUE_FULL''}"
proof -
  have "validate_shared_capacity sh bytes = and_then (reserve_shared sh bytes) (\<lambda>_. Ok ())"
    by (auto simp: validate_shared_capacity_def reserve_shared_def and_then_def budget_validate_def split: option.splits)
  moreover have "err_code e = ''E_QUEUE_FULL''" if "reserve_shared sh bytes = Err e" for e
    using that by (auto simp: reserve_shared_def and_then_Err_iff budget_validate_def queue_full_error_def split: option.splits if_splits)
  ultimately show ?thesis
    by (cases "reserve_shared sh bytes")
      (auto simp: try_push_tracked_def check_capacity_def validate_capacity_def queue_full_error_def queue_closed_error_def)
qed

end
