(* ===== verification/Config_Codec.thy ===== *)
theory Config_Codec
  imports Batch_Codec
begin

text \<open>
  The control frames of \<^verbatim>\<open>src/src/protocol.rs\<close>: opening, inspecting and resetting an index and
  configuring the runtime budget, with the validation of an engine configuration.  Each decoder
  accepts exactly the encodings of valid configurations; an open frame may leave out the two
  query limits when they have their default values.
\<close>

section \<open>Configurations\<close>

record field_config =
  fc_name :: string
  fc_weight :: f32

datatype filter_field_type = FieldString | FieldNumber | FieldBoolean

record filter_field_config =
  ff_name :: string
  ff_type :: filter_field_type

record limits =
  max_query_terms :: nat
  max_query_clauses :: nat
  indexing_threads :: nat
  search_threads :: nat
  writer_memory_bytes :: nat
  max_queued_commands :: nat
  max_queued_bytes :: nat
  max_batch_bytes :: nat

record runtime_budget_limits =
  rb_max_resident_indexes :: nat
  rb_max_indexing_threads :: nat
  rb_max_search_threads :: nat
  rb_max_writer_memory_bytes :: nat
  rb_max_queued_bytes :: nat
  rb_max_expensive_searches :: nat

record synonym_rule =
  syn_source :: string
  syn_replacements :: "string list"

record engine_identity_config =
  id_index_id :: string
  id_generation :: string
  id_fields :: "field_config list"
  id_analyzer :: string
  id_stop_words :: bool
  id_positions :: bool
  id_surface_terms :: bool
  id_synonyms :: "synonym_rule list"
  id_filter_fields :: "filter_field_config list"

record engine_config =
  ec_identity :: engine_identity_config
  ec_limits :: limits

record native_open_config =
  oc_path :: string
  oc_engine :: engine_config

record native_inspect_config =
  ic_path :: string
  ic_identity :: engine_identity_config

record native_reset_config =
  rc_path :: string
  rc_index_id :: string

section \<open>Validation\<close>

definition reserved_name :: "string \<Rightarrow> bool" where
  "reserved_name name \<longleftrightarrow> prefix ''__fulltext_'' name"

fun synonym_replacement_loop :: "nat \<Rightarrow> string list \<Rightarrow> nat res" where
  "synonym_replacement_loop bytes [] = Ok bytes"
| "synonym_replacement_loop bytes (r # rs) =
     (if r = [] then Err (invalid ''synonym replacements must not be empty'')
      else synonym_replacement_loop (saturating_add bytes (length r)) rs)"

fun synonym_loop :: "nat \<Rightarrow> synonym_rule list \<Rightarrow> nat res" where
  "synonym_loop bytes [] = Ok bytes"
| "synonym_loop bytes (rule # rules) =
     (if syn_source rule = [] \<or> syn_replacements rule = [] \<or>
         MAX_SYNONYM_REPLACEMENTS < length (syn_replacements rule)
      then Err (invalid (''synonym rules require a source and between 1 and ''
             @ nat_digits MAX_SYNONYM_REPLACEMENTS @ '' replacements''))
      else
       and_then (synonym_replacement_loop (saturating_add bytes (length (syn_source rule)))
           (syn_replacements rule)) (\<lambda>bytes.
         synonym_loop bytes rules))"

fun name_loop :: "string \<Rightarrow> string list \<Rightarrow> string list \<Rightarrow> unit res" where
  "name_loop label seen [] = Ok ()"
| "name_loop label seen (name # rest) =
     (if name = [] \<or> reserved_name name \<or> name \<in> set seen
      then Err (invalid (label @ '' names must be non-empty, unique, and outside the reserved __fulltext_ namespace''))
      else name_loop label (name # seen) rest)"

definition validate_identity_config :: "engine_identity_config \<Rightarrow> unit res" where
  "validate_identity_config config =
     (if id_index_id config = [] \<or> id_generation config = []
      then Err (invalid ''indexId and generation must not be empty'')
      else if 4096 < length (id_index_id config) \<or> 4096 < length (id_generation config)
      then Err (invalid ''indexId and generation must not exceed 4096 UTF-8 bytes'')
      else if id_analyzer config \<noteq> ''english@2''
      then Err (invalid ''only analyzer english@2 is supported'')
      else if MAX_SYNONYM_RULES < length (id_synonyms config)
      then Err (invalid (''synonyms must not contain more than '' @ nat_digits MAX_SYNONYM_RULES
             @ '' rules''))
      else
       and_then (synonym_loop 0 (id_synonyms config)) (\<lambda>synonym_bytes.
       if MAX_SYNONYM_BYTES < synonym_bytes
       then Err (invalid (''synonyms must not exceed '' @ nat_digits MAX_SYNONYM_BYTES
              @ '' UTF-8 bytes''))
       else
       and_then (name_loop ''field'' [] (map fc_name (id_fields config))) (\<lambda>_.
         name_loop ''filter field'' [] (map ff_name (id_filter_fields config)))))"

definition validate_config :: "engine_config \<Rightarrow> engine_config res" where
  "validate_config config =
     and_then (validate_identity_config (ec_identity config)) (\<lambda>_.
     let limits = ec_limits config in
     and_then (validate_query_limits (max_query_terms limits) (max_query_clauses limits)) (\<lambda>_.
     if indexing_threads limits = 0 \<or> search_threads limits = 0 \<or> max_queued_commands limits = 0
     then Err (invalid ''thread and queue command limits must be greater than zero'')
     else if 64 < indexing_threads limits \<or> 64 < search_threads limits
     then Err (invalid ''thread limits must not exceed 64'')
     else
       let per_thread = writer_memory_bytes limits div indexing_threads limits in
       if \<not> (15000000 \<le> per_thread \<and> per_thread < 4294967295)
       then Err (invalid (''writerMemoryBytes/indexingThreads is '' @ nat_digits per_thread
              @ ''; Tantivy requires 15000000..4294967295''))
       else if max_batch_bytes limits < MIN_MUTATION_BATCH_BYTES \<or>
               max_queued_bytes limits < max_batch_bytes limits
       then Err (invalid ''maxBatchBytes must hold at least one upsert and be no larger than maxQueuedBytes'')
       else Ok config))"

definition validate_path :: "string \<Rightarrow> string res" where
  "validate_path path = (if path = [] then Err (invalid ''path must not be empty'') else Ok path)"

section \<open>Decoders\<close>

fun decode_replacements :: "nat \<Rightarrow> nat \<Rightarrow> (string list \<times> nat) reader" where
  "decode_replacements 0 remaining c = Ok (([], remaining), c)"
| "decode_replacements (Suc n) remaining c =
     and_then (cursor_string_with_budget ''encoded synonyms'' remaining c) (\<lambda>((r, remaining), c).
     and_then (decode_replacements n remaining c) (\<lambda>((rs, remaining), c).
       Ok ((r # rs, remaining), c)))"

definition decode_synonym_rule :: "nat \<Rightarrow> (synonym_rule \<times> nat) reader" where
  "decode_synonym_rule remaining c =
     and_then (cursor_string_with_budget ''encoded synonyms'' remaining c) (\<lambda>((source, remaining), c).
     and_then (cursor_u16_usize c) (\<lambda>(replacement_count, c).
     if replacement_count = 0 \<or> MAX_SYNONYM_REPLACEMENTS < replacement_count
     then Err (invalid (''each synonym rule must contain between 1 and ''
            @ nat_digits MAX_SYNONYM_REPLACEMENTS @ '' replacements''))
     else
     and_then (decode_replacements replacement_count remaining c) (\<lambda>((replacements, remaining), c).
       Ok ((\<lparr>syn_source = source, syn_replacements = replacements\<rparr>, remaining), c))))"

fun decode_synonyms :: "nat \<Rightarrow> nat \<Rightarrow> (synonym_rule list \<times> nat) reader" where
  "decode_synonyms 0 remaining c = Ok (([], remaining), c)"
| "decode_synonyms (Suc n) remaining c =
     and_then (decode_synonym_rule remaining c) (\<lambda>((rule, remaining), c).
     and_then (decode_synonyms n remaining c) (\<lambda>((rules, remaining), c).
       Ok ((rule # rules, remaining), c)))"

definition decode_field_config :: "field_config reader" where
  "decode_field_config c =
     and_then (cursor_string c) (\<lambda>(name, c).
     and_then (cursor_f32 c) (\<lambda>(weight, c).
       if \<not> f32_is_finite weight \<or> f32_le weight f32_zero
       then Err (invalid ''field weights must be finite and greater than zero'')
       else Ok (\<lparr>fc_name = name, fc_weight = weight\<rparr>, c)))"

definition decode_filter_field_config :: "filter_field_config reader" where
  "decode_filter_field_config c =
     and_then (cursor_string c) (\<lambda>(name, c).
     and_then (cursor_u8 c) (\<lambda>(v, c).
     and_then (if v = 0 then Ok FieldString else if v = 1 then Ok FieldNumber
               else if v = 2 then Ok FieldBoolean
               else Err (invalid ''unknown filter field type'')) (\<lambda>field_type.
       Ok (\<lparr>ff_name = name, ff_type = field_type\<rparr>, c))))"

definition decode_synonym_section :: "synonym_rule list reader" where
  "decode_synonym_section c =
     and_then (cursor_u16_usize c) (\<lambda>(synonym_count, c).
     if MAX_SYNONYM_RULES < synonym_count
     then Err (invalid (''synonyms must not contain more than '' @ nat_digits MAX_SYNONYM_RULES
            @ '' rules''))
     else
     and_then (decode_synonyms synonym_count MAX_SYNONYM_BYTES c) (\<lambda>((synonyms, _), c).
       Ok (synonyms, c)))"

definition decode_field_section :: "field_config list reader" where
  "decode_field_section c =
     and_then (cursor_u16_usize c) (\<lambda>(field_count, c).
     if field_count = 0 \<or> MAX_FIELDS < field_count
     then Err (invalid ''fields must contain between 1 and 1024 entries'')
     else read_many field_count decode_field_config c)"

definition decode_filter_field_section :: "filter_field_config list reader" where
  "decode_filter_field_section c =
     and_then (cursor_u16_usize c) (\<lambda>(filter_field_count, c).
     if MAX_FIELDS < filter_field_count
     then Err (invalid ''filterFields must not contain more than 1024 entries'')
     else read_many filter_field_count decode_filter_field_config c)"

definition decode_engine_identity_config :: "engine_identity_config reader" where
  "decode_engine_identity_config c =
     and_then (cursor_string c) (\<lambda>(index_id, c).
     and_then (cursor_string c) (\<lambda>(generation, c).
     and_then (cursor_string c) (\<lambda>(analyzer, c).
     and_then (cursor_boolean c) (\<lambda>(stop_words, c).
     and_then (cursor_boolean c) (\<lambda>(positions, c).
     and_then (cursor_boolean c) (\<lambda>(surface_terms, c).
     and_then (decode_synonym_section c) (\<lambda>(synonyms, c).
     and_then (decode_field_section c) (\<lambda>(fields, c).
     and_then (decode_filter_field_section c) (\<lambda>(filter_fields, c).
       Ok (\<lparr>id_index_id = index_id, id_generation = generation, id_fields = fields,
            id_analyzer = analyzer, id_stop_words = stop_words, id_positions = positions,
            id_surface_terms = surface_terms, id_synonyms = synonyms,
            id_filter_fields = filter_fields\<rparr>, c))))))))))"

text \<open>The limits of an open frame start from the default query limits, which a tail may replace.\<close>

definition decode_base_limits :: "limits reader" where
  "decode_base_limits c =
     and_then (cursor_u16_usize c) (\<lambda>(indexing, c).
     and_then (cursor_u16_usize c) (\<lambda>(search, c).
     and_then (cursor_u64_usize c) (\<lambda>(memory, c).
     and_then (cursor_u32_usize c) (\<lambda>(commands, c).
     and_then (cursor_u64_usize c) (\<lambda>(queued, c).
     and_then (cursor_u64_usize c) (\<lambda>(batch, c).
       Ok (\<lparr>max_query_terms = MAX_QUERY_TERMS, max_query_clauses = MAX_QUERY_CLAUSES,
         indexing_threads = indexing, search_threads = search, writer_memory_bytes = memory,
         max_queued_commands = commands, max_queued_bytes = queued, max_batch_bytes = batch\<rparr>, c)))))))"

definition decode_limits :: "limits reader" where
  "decode_limits c =
     and_then (decode_base_limits c) (\<lambda>(limits, c).
     if cursor_remaining c \<noteq> 0 then
       and_then (cursor_u32_usize c) (\<lambda>(terms, c).
       and_then (cursor_u32_usize c) (\<lambda>(clauses, c).
         Ok (limits\<lparr>max_query_terms := terms, max_query_clauses := clauses\<rparr>, c)))
     else Ok (limits, c))"

definition decode_engine_config :: "engine_config reader" where
  "decode_engine_config c =
     and_then (decode_engine_identity_config c) (\<lambda>(identity, c).
     and_then (decode_limits c) (\<lambda>(limits, c).
     and_then (validate_config \<lparr>ec_identity = identity, ec_limits = limits\<rparr>) (\<lambda>config.
       Ok (config, c))))"

definition decode_open :: "u8 list \<Rightarrow> native_open_config res" where
  "decode_open bytes =
     and_then (cursor_new bytes ''FTOP'') (\<lambda>c.
     and_then (cursor_string c) (\<lambda>(p, c).
     and_then (validate_path p) (\<lambda>path.
     and_then (decode_engine_config c) (\<lambda>(engine, c).
     and_then (cursor_finish c) (\<lambda>_.
       Ok \<lparr>oc_path = path, oc_engine = engine\<rparr>)))))"

definition decode_runtime_budget :: "u8 list \<Rightarrow> runtime_budget_limits res" where
  "decode_runtime_budget bytes =
     and_then (cursor_new bytes ''FTGC'') (\<lambda>c.
     and_then (cursor_u32_usize c) (\<lambda>(resident, c).
     and_then (cursor_u32_usize c) (\<lambda>(indexing, c).
     and_then (cursor_u32_usize c) (\<lambda>(search, c).
     and_then (cursor_u64_usize c) (\<lambda>(memory, c).
     and_then (cursor_u64_usize c) (\<lambda>(queued, c).
     and_then (cursor_u32_usize c) (\<lambda>(expensive, c).
     and_then (cursor_finish c) (\<lambda>_.
     if resident = 0 \<or> indexing = 0 \<or> search = 0 \<or> memory = 0 \<or> queued = 0 \<or> expensive = 0
     then Err (invalid ''runtime budget limits must be greater than zero'')
     else Ok \<lparr>rb_max_resident_indexes = resident, rb_max_indexing_threads = indexing,
       rb_max_search_threads = search, rb_max_writer_memory_bytes = memory,
       rb_max_queued_bytes = queued, rb_max_expensive_searches = expensive\<rparr>))))))))"

definition decode_inspect :: "u8 list \<Rightarrow> native_inspect_config res" where
  "decode_inspect bytes =
     and_then (cursor_new bytes ''FTIP'') (\<lambda>c.
     and_then (cursor_string c) (\<lambda>(p, c).
     and_then (validate_path p) (\<lambda>path.
     and_then (decode_engine_identity_config c) (\<lambda>(identity, c).
     and_then (cursor_finish c) (\<lambda>_.
     and_then (validate_identity_config identity) (\<lambda>_.
       Ok \<lparr>ic_path = path, ic_identity = identity\<rparr>))))))"

definition decode_reset :: "u8 list \<Rightarrow> native_reset_config res" where
  "decode_reset bytes =
     and_then (cursor_new bytes ''FTRX'') (\<lambda>c.
     and_then (cursor_string c) (\<lambda>(p, c).
     and_then (validate_path p) (\<lambda>path.
     and_then (cursor_string c) (\<lambda>(index_id, c).
     and_then (cursor_finish c) (\<lambda>_.
       if index_id = [] then Err (invalid ''indexId must not be empty'')
       else Ok \<lparr>rc_path = path, rc_index_id = index_id\<rparr>)))))"

section \<open>What validation accepts\<close>

definition rule_bytes :: "synonym_rule \<Rightarrow> nat" where
  "rule_bytes rule = length (syn_source rule) + sum_list (map length (syn_replacements rule))"

definition rule_ok :: "synonym_rule \<Rightarrow> bool" where
  "rule_ok rule \<longleftrightarrow> syn_source rule \<noteq> [] \<and> syn_replacements rule \<noteq> [] \<and>
     length (syn_replacements rule) \<le> MAX_SYNONYM_REPLACEMENTS \<and> [] \<notin> set (syn_replacements rule)"

definition names_distinct :: "string list \<Rightarrow> bool" where
  "names_distinct names \<longleftrightarrow> distinct names \<and> list_all (\<lambda>n. n \<noteq> [] \<and> \<not> reserved_name n) names"

definition identity_ok :: "engine_identity_config \<Rightarrow> bool" where
  "identity_ok config \<longleftrightarrow>
     id_index_id config \<noteq> [] \<and> length (id_index_id config) \<le> 4096 \<and>
     id_generation config \<noteq> [] \<and> length (id_generation config) \<le> 4096 \<and>
     id_analyzer config = ''english@2'' \<and>
     length (id_synonyms config) \<le> MAX_SYNONYM_RULES \<and> list_all rule_ok (id_synonyms config) \<and>
     sum_list (map rule_bytes (id_synonyms config)) \<le> MAX_SYNONYM_BYTES \<and>
     names_distinct (map fc_name (id_fields config)) \<and>
     names_distinct (map ff_name (id_filter_fields config))"

definition limits_ok :: "limits \<Rightarrow> bool" where
  "limits_ok l \<longleftrightarrow>
     0 < max_query_terms l \<and> max_query_terms l \<le> MAX_CONFIGURED_QUERY_TERMS \<and>
     0 < max_query_clauses l \<and> max_query_clauses l \<le> MAX_CONFIGURED_QUERY_CLAUSES \<and>
     0 < indexing_threads l \<and> indexing_threads l \<le> 64 \<and> 0 < search_threads l \<and> search_threads l \<le> 64 \<and>
     0 < max_queued_commands l \<and>
     15000000 \<le> writer_memory_bytes l div indexing_threads l \<and>
     writer_memory_bytes l div indexing_threads l < 4294967295 \<and>
     MIN_MUTATION_BATCH_BYTES \<le> max_batch_bytes l \<and> max_batch_bytes l \<le> max_queued_bytes l"

lemma synonym_replacement_loop_iff:
  "synonym_replacement_loop (min usize_max k) rs = Ok n \<longleftrightarrow>
     [] \<notin> set rs \<and> n = min usize_max (k + sum_list (map length rs))"
proof (induction rs arbitrary: k)
  case (Cons r rs)
  have "saturating_add (min usize_max k) (length r) = min usize_max (k + length r)"
    by (auto simp: saturating_add_def min_def)
  then show ?case using Cons [of "k + length r"] by (auto simp: add.assoc)
qed auto

lemma synonym_loop_iff:
  "synonym_loop (min usize_max k) rules = Ok n \<longleftrightarrow>
     list_all rule_ok rules \<and> n = min usize_max (k + sum_list (map rule_bytes rules))"
proof (induction rules arbitrary: k)
  case (Cons rule rules)
  have "saturating_add (min usize_max k) (length (syn_source rule)) = min usize_max (k + length (syn_source rule))"
    by (auto simp: saturating_add_def min_def)
  then show ?case
    using Cons by (auto simp: and_then_Ok_iff synonym_replacement_loop_iff rule_ok_def rule_bytes_def add.assoc not_less)
qed auto

lemma is_ok_name_loop:
  "is_ok (name_loop label seen names) \<longleftrightarrow> names_distinct names \<and> set names \<inter> set seen = {}"
  by (induction names arbitrary: seen) (auto simp: names_distinct_def)

lemma is_ok_validate_identity [result_simps]:
  "is_ok (validate_identity_config config) \<longleftrightarrow> identity_ok config"
proof -
  have m: "MAX_SYNONYM_BYTES < usize_max" by (simp add: limit_defs usize_max_def)
  have "min usize_max 0 = 0" by simp
  then have "synonym_loop 0 rules = Ok n \<longleftrightarrow>
      list_all rule_ok rules \<and> n = min usize_max (sum_list (map rule_bytes rules))" for rules n
    using synonym_loop_iff [of 0] by simp
  then show ?thesis
    using m by (auto simp: validate_identity_config_def identity_ok_def is_ok_and_then is_ok_name_loop unit_Ok_iff not_less)
qed

lemma validate_config_Ok_iff [result_simps]:
  "validate_config config = Ok c \<longleftrightarrow> c = config \<and> identity_ok (ec_identity config) \<and> limits_ok (ec_limits config)"
  by (auto simp: validate_config_def Let_def result_simps limits_ok_def not_less not_le validate_query_limits_iff)

lemma validate_path_Ok_iff [result_simps]: "validate_path p = Ok q \<longleftrightarrow> q = p \<and> p \<noteq> []"
  by (auto simp: validate_path_def)

section \<open>The wire format\<close>

definition enc_rule :: "synonym_rule \<Rightarrow> u8 list" where
  "enc_rule rule = enc_string (syn_source rule) @ enc_counted enc_string (syn_replacements rule)"

definition rule_wire :: "synonym_rule \<Rightarrow> bool" where
  "rule_wire rule \<longleftrightarrow> wf_string (syn_source rule) \<and> syn_replacements rule \<noteq> [] \<and>
     length (syn_replacements rule) \<le> MAX_SYNONYM_REPLACEMENTS \<and> list_all wf_string (syn_replacements rule)"

definition enc_field_config :: "field_config \<Rightarrow> u8 list" where
  "enc_field_config f = enc_string (fc_name f) @ enc_u32 (fc_weight f)"

definition field_config_wire :: "field_config \<Rightarrow> bool" where
  "field_config_wire f \<longleftrightarrow> wf_string (fc_name f) \<and> f32_is_finite (fc_weight f) \<and> \<not> f32_le (fc_weight f) f32_zero"

definition enc_filter_field :: "filter_field_config \<Rightarrow> u8 list" where
  "enc_filter_field f = enc_string (ff_name f)
     @ enc_u8 (case ff_type f of FieldString \<Rightarrow> 0 | FieldNumber \<Rightarrow> 1 | FieldBoolean \<Rightarrow> 2)"

definition enc_identity :: "engine_identity_config \<Rightarrow> u8 list" where
  "enc_identity i = enc_string (id_index_id i) @ enc_string (id_generation i) @ enc_string (id_analyzer i)
     @ enc_boolean (id_stop_words i) @ enc_boolean (id_positions i) @ enc_boolean (id_surface_terms i)
     @ enc_counted enc_rule (id_synonyms i) @ enc_counted enc_field_config (id_fields i)
     @ enc_counted enc_filter_field (id_filter_fields i)"

definition identity_wire :: "engine_identity_config \<Rightarrow> bool" where
  "identity_wire i \<longleftrightarrow>
     wf_string (id_index_id i) \<and> wf_string (id_generation i) \<and> wf_string (id_analyzer i) \<and>
     length (id_synonyms i) \<le> MAX_SYNONYM_RULES \<and> list_all rule_wire (id_synonyms i) \<and>
     sum_list (map rule_bytes (id_synonyms i)) \<le> MAX_SYNONYM_BYTES \<and>
     id_fields i \<noteq> [] \<and> length (id_fields i) \<le> MAX_FIELDS \<and> list_all field_config_wire (id_fields i) \<and>
     length (id_filter_fields i) \<le> MAX_FIELDS \<and>
     list_all (\<lambda>f. wf_string (ff_name f)) (id_filter_fields i)"

lemma decode_replacements_iff:
  assumes "cursor_ok c"
  shows "decode_replacements n k c = Ok ((rs, k'), c') \<longleftrightarrow>
    length rs = n \<and> list_all wf_string rs \<and> sum_list (map length rs) \<le> k \<and>
    k' = k - sum_list (map length rs) \<and> spans c (concat (map enc_string rs)) c'"
  using assms
proof (induction n arbitrary: k c rs)
  case 0
  then show ?case by (cases rs) (auto simp: result_simps)
next
  case (Suc n)
  have "decode_replacements (Suc n) k c = Ok ((rs, k'), c') \<longleftrightarrow>
      (\<exists>r ss. rs = r # ss \<and> (\<exists>c1. wf_string r \<and> length r \<le> k \<and> spans c (enc_string r) c1 \<and>
         decode_replacements n (k - length r) c1 = Ok ((ss, k'), c')))"
    using Suc.prems by (auto simp: and_then_Ok_iff cursor_string_with_budget_iff)
  also have "\<dots> \<longleftrightarrow> length rs = Suc n \<and> list_all wf_string rs \<and> sum_list (map length rs) \<le> k \<and>
    k' = k - sum_list (map length rs) \<and> spans c (concat (map enc_string rs)) c'"
    by (cases rs) (auto simp: Suc.IH [OF spans_ok'] spans_append_iff cong: conj_cong)
  finally show ?case .
qed

lemma decode_synonym_rule_iff:
  assumes "cursor_ok c"
  shows "decode_synonym_rule k c = Ok ((r, k'), c') \<longleftrightarrow>
    rule_wire r \<and> rule_bytes r \<le> k \<and> k' = k - rule_bytes r \<and> spans c (enc_rule r) c'"
proof -
  obtain s rs where r: "r = \<lparr>syn_source = s, syn_replacements = rs\<rparr>" by (cases r)
  have "decode_synonym_rule k c = Ok ((r, k'), c') \<longleftrightarrow>
      (\<exists>c1 c2. wf_string s \<and> length s \<le> k \<and> spans c (enc_string s) c1 \<and>
         length rs < 65536 \<and> spans c1 (enc_count16 (length rs)) c2 \<and> rs \<noteq> [] \<and> length rs \<le> MAX_SYNONYM_REPLACEMENTS \<and>
         list_all wf_string rs \<and> sum_list (map length rs) \<le> k - length s \<and>
         k' = k - length s - sum_list (map length rs) \<and> spans c2 (concat (map enc_string rs)) c')"
    using assms unfolding r decode_synonym_rule_def
    by (simp add: result_simps wire_simps cursor_string_with_budget_iff decode_replacements_iff not_less
        cong: conj_cong, blast)
  also have "\<dots> \<longleftrightarrow> rule_wire r \<and> rule_bytes r \<le> k \<and> k' = k - rule_bytes r \<and> spans c (enc_rule r) c'"
    unfolding r by (auto simp: rule_wire_def rule_bytes_def enc_rule_def enc_counted_def spans_append_iff
        MAX_SYNONYM_REPLACEMENTS_def le_diff_conv2 add.commute; blast)
  finally show ?thesis .
qed

lemma decode_synonyms_iff:
  assumes "cursor_ok c"
  shows "decode_synonyms n k c = Ok ((rules, k'), c') \<longleftrightarrow>
    length rules = n \<and> list_all rule_wire rules \<and> sum_list (map rule_bytes rules) \<le> k \<and>
    k' = k - sum_list (map rule_bytes rules) \<and> spans c (concat (map enc_rule rules)) c'"
  using assms
proof (induction n arbitrary: k c rules)
  case 0
  then show ?case by (cases rules) (auto simp: result_simps)
next
  case (Suc n)
  have "decode_synonyms (Suc n) k c = Ok ((rules, k'), c') \<longleftrightarrow>
      (\<exists>r rest. rules = r # rest \<and> (\<exists>c1. rule_wire r \<and> rule_bytes r \<le> k \<and> spans c (enc_rule r) c1 \<and>
         decode_synonyms n (k - rule_bytes r) c1 = Ok ((rest, k'), c')))"
    using Suc.prems by (auto simp: and_then_Ok_iff decode_synonym_rule_iff)
  also have "\<dots> \<longleftrightarrow> length rules = Suc n \<and> list_all rule_wire rules \<and> sum_list (map rule_bytes rules) \<le> k \<and>
    k' = k - sum_list (map rule_bytes rules) \<and> spans c (concat (map enc_rule rules)) c'"
    by (cases rules) (auto simp: Suc.IH [OF spans_ok'] spans_append_iff cong: conj_cong)
  finally show ?case .
qed

interpretation field_config_codec: wire_codec decode_field_config enc_field_config field_config_wire
proof
  fix c c' :: cursor and f :: field_config
  assume c: "cursor_ok c"
  obtain n w where f: "f = \<lparr>fc_name = n, fc_weight = w\<rparr>" by (cases f)
  show "decode_field_config c = Ok (f, c') \<longleftrightarrow> field_config_wire f \<and> spans c (enc_field_config f) c'"
    using c unfolding f
    by (simp add: decode_field_config_def enc_field_config_def field_config_wire_def result_simps wire_simps
        cong: conj_cong, blast)
qed

lemma filter_field_type_code:
  "(if v = 0 then Ok FieldString else if v = 1 then Ok FieldNumber else if v = 2 then Ok FieldBoolean
    else Err e) = Ok t \<longleftrightarrow> v = (case t of FieldString \<Rightarrow> 0 | FieldNumber \<Rightarrow> 1 | FieldBoolean \<Rightarrow> (2 :: u8))"
  by (auto split: filter_field_type.splits if_splits)

interpretation filter_field_codec: wire_codec decode_filter_field_config enc_filter_field
  "\<lambda>f. wf_string (ff_name f)"
proof
  fix c c' :: cursor and f :: filter_field_config
  assume c: "cursor_ok c"
  obtain n t where f: "f = \<lparr>ff_name = n, ff_type = t\<rparr>" by (cases f)
  show "decode_filter_field_config c = Ok (f, c') \<longleftrightarrow> wf_string (ff_name f) \<and> spans c (enc_filter_field f) c'"
    using c unfolding f
    by (simp add: decode_filter_field_config_def enc_filter_field_def result_simps wire_simps
        filter_field_type_code cong: conj_cong, blast)
qed

definition synonyms_wire :: "synonym_rule list \<Rightarrow> bool" where
  "synonyms_wire rules \<longleftrightarrow> length rules \<le> MAX_SYNONYM_RULES \<and> list_all rule_wire rules \<and>
     sum_list (map rule_bytes rules) \<le> MAX_SYNONYM_BYTES"

text \<open>A 16-bit count and that many elements, as the section readers find them.\<close>

lemma counted_section:
  assumes "limit < 65536"
  shows "(\<exists>n c1. n < 65536 \<and> spans c (enc_count16 n) c1 \<and> n \<le> limit \<and> length xs = n \<and>
      P xs \<and> spans c1 (concat (map enc xs)) c') \<longleftrightarrow>
    length xs \<le> limit \<and> P xs \<and> spans c (enc_counted enc xs) c'"
  using assms
  by (auto simp: enc_counted_def spans_append_iff) (intro exI [of _ "length xs"], auto)

interpretation synonym_section_codec: wire_codec decode_synonym_section "enc_counted enc_rule" synonyms_wire
proof
  fix c c' :: cursor and rules :: "synonym_rule list"
  assume "cursor_ok c"
  then have "decode_synonym_section c = Ok (rules, c') \<longleftrightarrow>
      (\<exists>n c1. n < 65536 \<and> spans c (enc_count16 n) c1 \<and> n \<le> MAX_SYNONYM_RULES \<and> length rules = n \<and>
        (list_all rule_wire rules \<and> sum_list (map rule_bytes rules) \<le> MAX_SYNONYM_BYTES) \<and>
        spans c1 (concat (map enc_rule rules)) c')"
    by (simp add: decode_synonym_section_def result_simps wire_simps decode_synonyms_iff not_less
        cong: conj_cong)
  then show "decode_synonym_section c = Ok (rules, c') \<longleftrightarrow>
      synonyms_wire rules \<and> spans c (enc_counted enc_rule rules) c'"
    unfolding synonyms_wire_def by (subst (asm) counted_section) (auto simp: limit_defs)
qed

interpretation field_section_codec: wire_codec decode_field_section "enc_counted enc_field_config"
  "\<lambda>fs. fs \<noteq> [] \<and> length fs \<le> MAX_FIELDS \<and> list_all field_config_wire fs"
proof
  fix c c' :: cursor and fs :: "field_config list"
  assume "cursor_ok c"
  then have "decode_field_section c = Ok (fs, c') \<longleftrightarrow>
      (\<exists>n c1. n < 65536 \<and> spans c (enc_count16 n) c1 \<and> n \<le> MAX_FIELDS \<and> length fs = n \<and>
        (fs \<noteq> [] \<and> list_all field_config_wire fs) \<and> spans c1 (concat (map enc_field_config fs)) c')"
    by (simp add: decode_field_section_def result_simps wire_simps field_config_codec.many_iff not_less
        cong: conj_cong) auto
  then show "decode_field_section c = Ok (fs, c') \<longleftrightarrow>
      (fs \<noteq> [] \<and> length fs \<le> MAX_FIELDS \<and> list_all field_config_wire fs) \<and>
      spans c (enc_counted enc_field_config fs) c'"
    by (subst (asm) counted_section) (auto simp: limit_defs)
qed

interpretation filter_field_section_codec: wire_codec decode_filter_field_section
  "enc_counted enc_filter_field"
  "\<lambda>fs. length fs \<le> MAX_FIELDS \<and> list_all (\<lambda>f. wf_string (ff_name f)) fs"
proof
  fix c c' :: cursor and fs :: "filter_field_config list"
  assume "cursor_ok c"
  then have "decode_filter_field_section c = Ok (fs, c') \<longleftrightarrow>
      (\<exists>n c1. n < 65536 \<and> spans c (enc_count16 n) c1 \<and> n \<le> MAX_FIELDS \<and> length fs = n \<and>
        list_all (\<lambda>f. wf_string (ff_name f)) fs \<and> spans c1 (concat (map enc_filter_field fs)) c')"
    by (simp add: decode_filter_field_section_def result_simps wire_simps filter_field_codec.many_iff
        not_less cong: conj_cong)
  then show "decode_filter_field_section c = Ok (fs, c') \<longleftrightarrow>
      (length fs \<le> MAX_FIELDS \<and> list_all (\<lambda>f. wf_string (ff_name f)) fs) \<and>
      spans c (enc_counted enc_filter_field fs) c'"
    by (subst (asm) counted_section) (auto simp: limit_defs)
qed

interpretation identity_codec: wire_codec decode_engine_identity_config enc_identity identity_wire
proof
  fix c c' :: cursor and i :: engine_identity_config
  assume c: "cursor_ok c"
  obtain ix g fs a sw po su sy ff where i: "i = \<lparr>id_index_id = ix, id_generation = g, id_fields = fs,
      id_analyzer = a, id_stop_words = sw, id_positions = po, id_surface_terms = su, id_synonyms = sy,
      id_filter_fields = ff\<rparr>" by (cases i)
  show "decode_engine_identity_config c = Ok (i, c') \<longleftrightarrow> identity_wire i \<and> spans c (enc_identity i) c'"
    using c unfolding i decode_engine_identity_config_def identity_wire_def enc_identity_def
    by (simp add: result_simps wire_simps synonym_section_codec.read_iff field_section_codec.read_iff
        filter_field_section_codec.read_iff synonyms_wire_def cong: conj_cong, blast)
qed

section \<open>Open frames\<close>

definition enc_limits :: "limits \<Rightarrow> u8 list" where
  "enc_limits l = enc_count16 (indexing_threads l) @ enc_count16 (search_threads l)
     @ enc_usize (writer_memory_bytes l) @ enc_count32 (max_queued_commands l)
     @ enc_usize (max_queued_bytes l) @ enc_usize (max_batch_bytes l)"

definition limit_forms :: "limits \<Rightarrow> u8 list list" where
  "limit_forms l =
     (enc_limits l @ enc_count32 (max_query_terms l) @ enc_count32 (max_query_clauses l)) #
     (if max_query_terms l = MAX_QUERY_TERMS \<and> max_query_clauses l = MAX_QUERY_CLAUSES
      then [enc_limits l] else [])"

definition limits_wire :: "limits \<Rightarrow> bool" where
  "limits_wire l \<longleftrightarrow> max_query_terms l < 4294967296 \<and> max_query_clauses l < 4294967296 \<and>
     indexing_threads l < 65536 \<and> search_threads l < 65536 \<and> writer_memory_bytes l \<le> usize_max \<and>
     max_queued_commands l < 4294967296 \<and> max_queued_bytes l \<le> usize_max \<and> max_batch_bytes l \<le> usize_max"

definition base_limits_wire :: "limits \<Rightarrow> bool" where
  "base_limits_wire l \<longleftrightarrow> max_query_terms l = MAX_QUERY_TERMS \<and> max_query_clauses l = MAX_QUERY_CLAUSES \<and>
     limits_wire l"

interpretation base_limits_codec: wire_codec decode_base_limits enc_limits base_limits_wire
proof
  fix c c' :: cursor and l :: limits
  assume c: "cursor_ok c"
  obtain t q i s w m b a where l: "l = \<lparr>max_query_terms = t, max_query_clauses = q, indexing_threads = i,
      search_threads = s, writer_memory_bytes = w, max_queued_commands = m, max_queued_bytes = b,
      max_batch_bytes = a\<rparr>" by (cases l)
  have "MAX_QUERY_TERMS < 4294967296" "MAX_QUERY_CLAUSES < 4294967296" by (simp_all add: limit_defs)
  then show "decode_base_limits c = Ok (l, c') \<longleftrightarrow> base_limits_wire l \<and> spans c (enc_limits l) c'"
    using c unfolding l decode_base_limits_def base_limits_wire_def limits_wire_def enc_limits_def
    by (simp add: result_simps wire_simps cong: conj_cong, blast)
qed

lemma is_ok_finish: "cursor_ok c \<Longrightarrow> is_ok (cursor_finish c) \<longleftrightarrow> cursor_remaining c = 0"
  by (auto simp: cursor_finish_def cursor_remaining_def cursor_ok_def)

lemma decode_limits_sound:
  assumes "cursor_ok c" "decode_limits c = Ok (l, c')"
  shows "limits_wire l \<and> (\<exists>bs \<in> set (limit_forms l). spans c bs c')"
proof -
  from assms obtain l0 c1 where b: "base_limits_wire l0" "spans c (enc_limits l0) c1"
    and r: "(if cursor_remaining c1 \<noteq> 0 then
       and_then (cursor_u32_usize c1) (\<lambda>(terms, c).
       and_then (cursor_u32_usize c) (\<lambda>(clauses, c).
         Ok (l0\<lparr>max_query_terms := terms, max_query_clauses := clauses\<rparr>, c)))
     else Ok (l0, c1)) = Ok (l, c')"
    by (auto simp: decode_limits_def and_then_Ok_iff base_limits_codec.read_iff)
  show ?thesis
  proof (cases "cursor_remaining c1 = 0")
    case True
    with b r show ?thesis by (auto simp: base_limits_wire_def limit_forms_def)
  next
    case False
    with r b(2) obtain t q c2 where t: "t < 4294967296" "spans c1 (enc_count32 t) c2" "q < 4294967296"
        "spans c2 (enc_count32 q) c'" and l: "l = l0\<lparr>max_query_terms := t, max_query_clauses := q\<rparr>"
      by (auto simp: and_then_Ok_iff count32_codec.read_iff spans_ok')
    have "enc_limits l = enc_limits l0" "limits_wire l"
      using b(1) t by (auto simp: l enc_limits_def base_limits_wire_def limits_wire_def)
    moreover have "spans c (enc_limits l0 @ enc_count32 t @ enc_count32 q) c'"
      using b(2) t by (auto simp: spans_append_iff)
    ultimately show ?thesis by (simp add: limit_forms_def l)
  qed
qed

lemma decode_limits_complete:
  assumes "limits_wire l" "bs \<in> set (limit_forms l)" "spans c bs c'" "is_ok (cursor_finish c')"
  shows "decode_limits c = Ok (l, c')"
proof -
  let ?base = "l\<lparr>max_query_terms := MAX_QUERY_TERMS, max_query_clauses := MAX_QUERY_CLAUSES\<rparr>"
  have base: "base_limits_wire ?base" and enc: "enc_limits ?base = enc_limits l"
    using assms(1) by (auto simp: base_limits_wire_def limits_wire_def enc_limits_def limit_defs)
  from assms(2) consider
      "bs = enc_limits l @ enc_count32 (max_query_terms l) @ enc_count32 (max_query_clauses l)"
    | "bs = enc_limits l" "?base = l"
    by (auto simp: limit_forms_def split: if_splits)
  then show ?thesis
  proof cases
    case 1
    with assms(3) obtain c1 c2 where s: "spans c (enc_limits ?base) c1"
        "spans c1 (enc_count32 (max_query_terms l)) c2" "spans c2 (enc_count32 (max_query_clauses l)) c'"
      by (auto simp: spans_append_iff enc)
    moreover have "cursor_remaining c1 \<noteq> 0" using spans_remaining [OF s(2)] by simp
    moreover have "max_query_terms l < 4294967296" "max_query_clauses l < 4294967296"
      using assms(1) by (simp_all add: limits_wire_def)
    ultimately show ?thesis
      using base_limits_codec.complete [OF base s(1)]
      by (simp add: decode_limits_def count32_codec.complete)
  next
    case 2
    then have "decode_base_limits c = Ok (l, c')"
      using base_limits_codec.complete [OF base] assms(3) by simp
    moreover have "cursor_remaining c' = 0" using assms(4) is_ok_finish [OF spans_ok' [OF assms(3)]] by simp
    ultimately show ?thesis by (simp add: decode_limits_def)
  qed
qed

definition open_frames :: "native_open_config \<Rightarrow> u8 list list" where
  "open_frames cfg = map (\<lambda>bs. enc_header ''FTOP'' @ enc_string (oc_path cfg)
     @ enc_identity (ec_identity (oc_engine cfg)) @ bs) (limit_forms (ec_limits (oc_engine cfg)))"

definition open_wire :: "native_open_config \<Rightarrow> bool" where
  "open_wire cfg \<longleftrightarrow> wf_string (oc_path cfg) \<and> oc_path cfg \<noteq> [] \<and>
     identity_wire (ec_identity (oc_engine cfg)) \<and> identity_ok (ec_identity (oc_engine cfg)) \<and>
     limits_wire (ec_limits (oc_engine cfg)) \<and> limits_ok (ec_limits (oc_engine cfg))"

lemma decode_open_steps:
  "decode_open bytes = Ok cfg \<longleftrightarrow>
     (\<exists>c c1 c2 c3. cursor_new bytes ''FTOP'' = Ok c \<and> cursor_string c = Ok (oc_path cfg, c1) \<and>
        decode_engine_identity_config c1 = Ok (ec_identity (oc_engine cfg), c2) \<and>
        decode_limits c2 = Ok (ec_limits (oc_engine cfg), c3) \<and> is_ok (cursor_finish c3)) \<and>
     oc_path cfg \<noteq> [] \<and> identity_ok (ec_identity (oc_engine cfg)) \<and> limits_ok (ec_limits (oc_engine cfg))"
proof -
  obtain p i l where "cfg = \<lparr>oc_path = p, oc_engine = \<lparr>ec_identity = i, ec_limits = l\<rparr>\<rparr>"
    by (metis engine_config.cases native_open_config.cases)
  then show ?thesis
    unfolding decode_open_def decode_engine_config_def
    by (auto simp: and_then_Ok_iff validate_path_Ok_iff validate_config_Ok_iff unit_Ok_iff; blast)
qed

text \<open>
  C16. \<open>decode_open\<close> accepts exactly the open frames of valid configurations: it answers
  \<open>Ok cfg\<close> if and only if the path is not empty, the identity and the limits are valid (analyzer
  version, reserved and duplicate field names, synonym bounds, threads, writer memory per
  thread, batch against queue size), and the bytes encode \<open>cfg\<close>, with or without the query limits
  when these are the defaults.
\<close>

theorem decode_open_exact:
  assumes "length bytes \<le> usize_max"
  shows "decode_open bytes = Ok cfg \<longleftrightarrow> open_wire cfg \<and> bytes \<in> set (open_frames cfg)"
proof -
  let ?p = "oc_path cfg" and ?i = "ec_identity (oc_engine cfg)" and ?l = "ec_limits (oc_engine cfg)"
  have "(\<exists>c c1 c2 c3. cursor_new bytes ''FTOP'' = Ok c \<and> cursor_string c = Ok (?p, c1) \<and>
        decode_engine_identity_config c1 = Ok (?i, c2) \<and> decode_limits c2 = Ok (?l, c3) \<and>
        is_ok (cursor_finish c3)) \<longleftrightarrow>
      wf_string ?p \<and> identity_wire ?i \<and>
      (\<exists>c c1 c2 c3. cursor_new bytes ''FTOP'' = Ok c \<and> spans c (enc_string ?p) c1 \<and>
        spans c1 (enc_identity ?i) c2 \<and> decode_limits c2 = Ok (?l, c3) \<and> is_ok (cursor_finish c3))"
    using cursor_new_cursor_ok [OF _ assms]
    by (auto simp: string_codec.read_iff identity_codec.read_iff spans_ok')
      (metis string_codec.read_iff identity_codec.read_iff spans_ok')+
  also have "\<dots> \<longleftrightarrow> wf_string ?p \<and> identity_wire ?i \<and> limits_wire ?l \<and>
      (\<exists>bs \<in> set (limit_forms ?l). \<exists>c c3. cursor_new bytes ''FTOP'' = Ok c \<and>
        spans c (enc_string ?p @ enc_identity ?i @ bs) c3 \<and> is_ok (cursor_finish c3))"
    using decode_limits_sound [OF spans_ok'] decode_limits_complete unfolding spans_append_iff by blast
  finally show ?thesis
    unfolding decode_open_steps using frame_iff [of "''FTOP''" bytes] assms
    by (auto simp: open_wire_def open_frames_def)
qed

definition sample_identity :: engine_identity_config where
  "sample_identity = \<lparr>id_index_id = ''docs'', id_generation = ''g1'',
     id_fields = [\<lparr>fc_name = ''title'', fc_weight = 1065353216\<rparr>], id_analyzer = ''english@2'',
     id_stop_words = True, id_positions = True, id_surface_terms = False,
     id_synonyms = [\<lparr>syn_source = ''tv'', syn_replacements = [''television'']\<rparr>],
     id_filter_fields = [\<lparr>ff_name = ''year'', ff_type = FieldNumber\<rparr>]\<rparr>"

definition sample_open :: native_open_config where
  "sample_open = \<lparr>oc_path = ''/d'', oc_engine = \<lparr>ec_identity = sample_identity,
     ec_limits = \<lparr>max_query_terms = 64, max_query_clauses = 256, indexing_threads = 1,
       search_threads = 2, writer_memory_bytes = 15000000, max_queued_commands = 8,
       max_queued_bytes = 1000, max_batch_bytes = 100\<rparr>\<rparr>\<rparr>"

lemmas sample_config_defs =
  sample_open_def sample_identity_def identity_wire_def identity_ok_def limits_wire_def limits_ok_def
  rule_wire_def rule_ok_def rule_bytes_def names_distinct_def reserved_name_def field_config_wire_def
  wf_string_def utf8_string_def str_bytes_def byte_of_char_def f32_is_finite_def f32_magnitude_def
  f32_le_def f32_key_def f32_zero_def f32_is_nan_def f32_sign_negative_def limit_defs usize_max_def

lemmas sample_config_lengths =
  enc_identity_def enc_counted_def enc_rule_def enc_field_config_def enc_filter_field_def enc_limits_def

theorem decode_open_exact_witness:
  "\<exists>bytes. length bytes \<le> usize_max \<and> decode_open bytes = Ok sample_open"
proof -
  let ?bytes = "hd (open_frames sample_open)"
  have len: "length ?bytes \<le> usize_max"
    by (simp add: open_frames_def limit_forms_def sample_config_defs sample_config_lengths)
  have "open_wire sample_open" by (simp add: open_wire_def sample_config_defs)
  moreover have "?bytes \<in> set (open_frames sample_open)" by (simp add: open_frames_def limit_forms_def)
  ultimately show ?thesis using decode_open_exact [OF len] len by blast
qed

section \<open>Inspect, reset and runtime budget frames\<close>

definition enc_inspect :: "native_inspect_config \<Rightarrow> u8 list" where
  "enc_inspect cfg = enc_header ''FTIP'' @ enc_string (ic_path cfg) @ enc_identity (ic_identity cfg)"

definition inspect_wire :: "native_inspect_config \<Rightarrow> bool" where
  "inspect_wire cfg \<longleftrightarrow> wf_string (ic_path cfg) \<and> ic_path cfg \<noteq> [] \<and>
     identity_wire (ic_identity cfg) \<and> identity_ok (ic_identity cfg)"

definition enc_reset :: "native_reset_config \<Rightarrow> u8 list" where
  "enc_reset cfg = enc_header ''FTRX'' @ enc_string (rc_path cfg) @ enc_string (rc_index_id cfg)"

definition reset_wire :: "native_reset_config \<Rightarrow> bool" where
  "reset_wire cfg \<longleftrightarrow> wf_string (rc_path cfg) \<and> rc_path cfg \<noteq> [] \<and>
     wf_string (rc_index_id cfg) \<and> rc_index_id cfg \<noteq> []"

definition enc_runtime_budget :: "runtime_budget_limits \<Rightarrow> u8 list" where
  "enc_runtime_budget l = enc_header ''FTGC'' @ enc_count32 (rb_max_resident_indexes l)
     @ enc_count32 (rb_max_indexing_threads l) @ enc_count32 (rb_max_search_threads l)
     @ enc_usize (rb_max_writer_memory_bytes l) @ enc_usize (rb_max_queued_bytes l)
     @ enc_count32 (rb_max_expensive_searches l)"

definition runtime_budget_wire :: "runtime_budget_limits \<Rightarrow> bool" where
  "runtime_budget_wire l \<longleftrightarrow>
     0 < rb_max_resident_indexes l \<and> rb_max_resident_indexes l < 4294967296 \<and>
     0 < rb_max_indexing_threads l \<and> rb_max_indexing_threads l < 4294967296 \<and>
     0 < rb_max_search_threads l \<and> rb_max_search_threads l < 4294967296 \<and>
     0 < rb_max_writer_memory_bytes l \<and> rb_max_writer_memory_bytes l \<le> usize_max \<and>
     0 < rb_max_queued_bytes l \<and> rb_max_queued_bytes l \<le> usize_max \<and>
     0 < rb_max_expensive_searches l \<and> rb_max_expensive_searches l < 4294967296"

lemma decode_inspect_iff:
  assumes "length bytes \<le> usize_max"
  shows "decode_inspect bytes = Ok cfg \<longleftrightarrow> inspect_wire cfg \<and> bytes = enc_inspect cfg"
proof -
  obtain p i where cfg: "cfg = \<lparr>ic_path = p, ic_identity = i\<rparr>" by (cases cfg)
  have "decode_inspect bytes = Ok cfg \<longleftrightarrow> inspect_wire cfg \<and>
      (\<exists>c c1 c2. cursor_new bytes ''FTIP'' = Ok c \<and> spans c (enc_string p) c1 \<and>
        spans c1 (enc_identity i) c2 \<and> is_ok (cursor_finish c2))"
    unfolding cfg decode_inspect_def inspect_wire_def using cursor_new_cursor_ok [OF _ assms]
    by (simp add: result_simps wire_simps identity_codec.read_iff cong: conj_cong, blast)
  then show ?thesis
    using frame_iff [of "''FTIP''" bytes "enc_string p @ enc_identity i"] assms
    by (auto simp: cfg enc_inspect_def spans_append_iff)
qed

lemma decode_reset_iff:
  assumes "length bytes \<le> usize_max"
  shows "decode_reset bytes = Ok cfg \<longleftrightarrow> reset_wire cfg \<and> bytes = enc_reset cfg"
proof -
  obtain p i where cfg: "cfg = \<lparr>rc_path = p, rc_index_id = i\<rparr>" by (cases cfg)
  have "decode_reset bytes = Ok cfg \<longleftrightarrow> reset_wire cfg \<and>
      (\<exists>c c1 c2. cursor_new bytes ''FTRX'' = Ok c \<and> spans c (enc_string p) c1 \<and>
        spans c1 (enc_string i) c2 \<and> is_ok (cursor_finish c2))"
    unfolding cfg decode_reset_def reset_wire_def using cursor_new_cursor_ok [OF _ assms]
    by (simp add: result_simps wire_simps cong: conj_cong, blast)
  then show ?thesis
    using frame_iff [of "''FTRX''" bytes "enc_string p @ enc_string i"] assms
    by (auto simp: cfg enc_reset_def spans_append_iff)
qed

lemma decode_runtime_budget_iff:
  assumes "length bytes \<le> usize_max"
  shows "decode_runtime_budget bytes = Ok l \<longleftrightarrow> runtime_budget_wire l \<and> bytes = enc_runtime_budget l"
proof -
  obtain r i s m q e where l: "l = \<lparr>rb_max_resident_indexes = r, rb_max_indexing_threads = i,
      rb_max_search_threads = s, rb_max_writer_memory_bytes = m, rb_max_queued_bytes = q,
      rb_max_expensive_searches = e\<rparr>" by (cases l)
  have "decode_runtime_budget bytes = Ok l \<longleftrightarrow> runtime_budget_wire l \<and>
      (\<exists>c c1 c2 c3 c4 c5 c6. cursor_new bytes ''FTGC'' = Ok c \<and> spans c (enc_count32 r) c1 \<and>
        spans c1 (enc_count32 i) c2 \<and> spans c2 (enc_count32 s) c3 \<and> spans c3 (enc_usize m) c4 \<and>
        spans c4 (enc_usize q) c5 \<and> spans c5 (enc_count32 e) c6 \<and> is_ok (cursor_finish c6))"
    unfolding l decode_runtime_budget_def runtime_budget_wire_def using cursor_new_cursor_ok [OF _ assms]
    by (simp add: result_simps wire_simps cong: conj_cong, blast)
  also have "\<dots> \<longleftrightarrow> runtime_budget_wire l \<and> (\<exists>c c'. cursor_new bytes ''FTGC'' = Ok c \<and>
      spans c (enc_count32 r @ enc_count32 i @ enc_count32 s @ enc_usize m @ enc_usize q @ enc_count32 e) c' \<and>
      is_ok (cursor_finish c'))"
    unfolding spans_append_iff by blast
  finally show ?thesis
    using frame_iff [of "''FTGC''" bytes] assms by (simp add: l enc_runtime_budget_def)
qed

text \<open>
  The remaining control frames are exact as well: \<open>decode_inspect\<close>, \<open>decode_reset\<close> and
  \<open>decode_runtime_budget\<close> answer \<open>Ok\<close> on exactly one encoding of every valid value and on nothing
  else; a runtime budget with a zero limit is never accepted.
\<close>

theorem control_frames_exact:
  assumes "length bytes \<le> usize_max"
  shows "(decode_inspect bytes = Ok i \<longleftrightarrow> inspect_wire i \<and> bytes = enc_inspect i) \<and>
    (decode_reset bytes = Ok r \<longleftrightarrow> reset_wire r \<and> bytes = enc_reset r) \<and>
    (decode_runtime_budget bytes = Ok l \<longleftrightarrow> runtime_budget_wire l \<and> bytes = enc_runtime_budget l)"
  using assms by (simp add: decode_inspect_iff decode_reset_iff decode_runtime_budget_iff)

theorem control_frames_exact_witness:
  "decode_reset (enc_reset \<lparr>rc_path = ''/d'', rc_index_id = ''docs''\<rparr>) =
     Ok \<lparr>rc_path = ''/d'', rc_index_id = ''docs''\<rparr> \<and>
   decode_inspect (enc_inspect \<lparr>ic_path = ''/d'', ic_identity = sample_identity\<rparr>) =
     Ok \<lparr>ic_path = ''/d'', ic_identity = sample_identity\<rparr>"
proof -
  let ?r = "\<lparr>rc_path = ''/d'', rc_index_id = ''docs''\<rparr>"
  let ?i = "\<lparr>ic_path = ''/d'', ic_identity = sample_identity\<rparr>"
  have "length (enc_reset ?r) \<le> usize_max" "reset_wire ?r"
    by (simp_all add: enc_reset_def reset_wire_def sample_config_defs)
  moreover have "length (enc_inspect ?i) \<le> usize_max" "inspect_wire ?i"
    by (simp_all add: enc_inspect_def inspect_wire_def sample_config_defs sample_config_lengths)
  ultimately show ?thesis
    using control_frames_exact [of "enc_reset ?r" ?i ?r] control_frames_exact [of "enc_inspect ?i" ?i ?r]
    by blast
qed

end
