(* ===== verification/Budget.thy ===== *)
theory Budget
  imports Config_Codec
begin

text \<open>
  The process-wide runtime budget of \<^verbatim>\<open>src/src/native.rs\<close>: \<open>RuntimeBudgetState\<close> with its
  configuration rules, the atomic counters of \<open>RuntimeBudget\<close> with \<open>reserve\<close> and \<open>release\<close>,
  \<open>admit\<close> with the rollback that dropping a partial reservation performs, the permits for
  expensive searches and the demands for wake-ups.  The counters are shared between threads and
  every \<open>reserve\<close> and \<open>release\<close> is one atomic update, so the interleaving of all threads is a
  step relation over single updates; its invariant says that each counter is the sum of what
  the live reservations hold and never exceeds its limit.
\<close>

section \<open>Counters and reservations\<close>

datatype counter = Resident_Indexes | Indexing_Threads | Search_Threads | Writer_Memory | Queued_Bytes

definition counter_resource :: "counter \<Rightarrow> string" where
  "counter_resource k = (case k of
     Resident_Indexes \<Rightarrow> ''resident indexes''
   | Indexing_Threads \<Rightarrow> ''indexing threads''
   | Search_Threads \<Rightarrow> ''search threads''
   | Writer_Memory \<Rightarrow> ''writer memory''
   | Queued_Bytes \<Rightarrow> ''queued bytes'')"

definition counter_limit :: "runtime_budget_limits \<Rightarrow> counter \<Rightarrow> nat" where
  "counter_limit l k = (case k of
     Resident_Indexes \<Rightarrow> rb_max_resident_indexes l
   | Indexing_Threads \<Rightarrow> rb_max_indexing_threads l
   | Search_Threads \<Rightarrow> rb_max_search_threads l
   | Writer_Memory \<Rightarrow> rb_max_writer_memory_bytes l
   | Queued_Bytes \<Rightarrow> rb_max_queued_bytes l)"

text \<open>
  The five atomic counters are a function from their names; a reservation holds an amount of
  each (its \<open>resident\<close> flag is the amount 1).  The wake map sends the key of a wake to its
  demand.
\<close>

type_synonym amounts = "counter \<Rightarrow> nat"

record runtime_budget =
  bud_limits :: runtime_budget_limits
  bud_used :: amounts
  bud_expensive :: nat
  bud_wakes :: "nat \<rightharpoonup> nat"

definition no_amounts :: amounts where
  "no_amounts = (\<lambda>_. 0)"

definition runtime_budget_new :: "runtime_budget_limits \<Rightarrow> runtime_budget" where
  "runtime_budget_new l = \<lparr>bud_limits = l, bud_used = no_amounts, bud_expensive = 0, bud_wakes = Map.empty\<rparr>"

definition reserve :: "nat \<Rightarrow> nat \<Rightarrow> nat \<Rightarrow> string \<Rightarrow> nat res" where
  "reserve current amount maximum resource =
     (case checked_add current amount of
        Some next \<Rightarrow> if next \<le> maximum then Ok next
          else Err (fulltext_error_new ''E_RESOURCE_LIMIT'' (''process-wide '' @ resource @ '' limit exceeded''))
      | None \<Rightarrow> Err (fulltext_error_new ''E_RESOURCE_LIMIT'' (''process-wide '' @ resource @ '' limit exceeded'')))"

definition release :: "nat \<Rightarrow> nat \<Rightarrow> nat" where
  "release current amount =
     (if amount = 0 then current
      else case checked_sub current amount of Some next \<Rightarrow> next | None \<Rightarrow> current)"

definition budget_reserve :: "counter \<Rightarrow> nat \<Rightarrow> runtime_budget \<Rightarrow> runtime_budget res" where
  "budget_reserve k amount b =
     and_then (reserve (bud_used b k) amount (counter_limit (bud_limits b) k) (counter_resource k))
       (\<lambda>next. Ok (b\<lparr>bud_used := (bud_used b)(k := next)\<rparr>))"

definition budget_release :: "counter \<Rightarrow> nat \<Rightarrow> runtime_budget \<Rightarrow> runtime_budget" where
  "budget_release k amount b = b\<lparr>bud_used := (bud_used b)(k := release (bud_used b k) amount)\<rparr>"

text \<open>\<open>Drop for BudgetReservation\<close>.\<close>

definition drop_reservation :: "amounts \<Rightarrow> runtime_budget \<Rightarrow> runtime_budget" where
  "drop_reservation r b =
     budget_release Queued_Bytes (r Queued_Bytes)
     (budget_release Writer_Memory (r Writer_Memory)
     (budget_release Search_Threads (r Search_Threads)
     (budget_release Indexing_Threads (r Indexing_Threads)
     (budget_release Resident_Indexes (r Resident_Indexes) b))))"

text \<open>
  One guarded step of \<open>RuntimeBudget::admit\<close>: reserve, then note the amount in the reservation.
  An error returns from \<open>admit\<close>, which drops the reservation made so far.
\<close>

definition admit_step ::
    "counter \<Rightarrow> nat \<Rightarrow> amounts \<times> runtime_budget \<Rightarrow> (amounts \<times> runtime_budget, fulltext_error \<times> runtime_budget) result" where
  "admit_step k amount s = (case s of (r, b) \<Rightarrow>
     (case budget_reserve k amount b of
        Ok b' \<Rightarrow> Ok (r(k := amount), b')
      | Err e \<Rightarrow> Err (e, drop_reservation r b)))"

definition admit_writer_step ::
    "bool \<Rightarrow> counter \<Rightarrow> nat \<Rightarrow> amounts \<times> runtime_budget \<Rightarrow>
     (amounts \<times> runtime_budget, fulltext_error \<times> runtime_budget) result" where
  "admit_writer_step read_only k amount s = (if \<not> read_only then admit_step k amount s else Ok s)"

definition admit_queued ::
    "limits \<Rightarrow> bool \<Rightarrow> amounts \<times> runtime_budget \<Rightarrow>
     (amounts \<times> runtime_budget, fulltext_error \<times> runtime_budget) result" where
  "admit_queued limits read_only s =
     (case checked_mul (max_queued_bytes limits) (if read_only then 1 else 2) of
        None \<Rightarrow> Err (fulltext_error_new ''E_RESOURCE_LIMIT'' ''configured queue capacity overflows'',
                  drop_reservation (fst s) (snd s))
      | Some queued_bytes \<Rightarrow> admit_step Queued_Bytes queued_bytes s)"

definition admit ::
    "limits \<Rightarrow> bool \<Rightarrow> runtime_budget \<Rightarrow> (amounts \<times> runtime_budget, fulltext_error \<times> runtime_budget) result" where
  "admit limits read_only b =
     and_then (admit_step Resident_Indexes 1 (no_amounts, b)) (\<lambda>s.
     and_then (admit_writer_step read_only Indexing_Threads (indexing_threads limits) s) (\<lambda>s.
     and_then (admit_step Search_Threads (search_threads limits) s) (\<lambda>s.
     and_then (admit_writer_step read_only Writer_Memory (writer_memory_bytes limits) s) (\<lambda>s.
       admit_queued limits read_only s))))"

section \<open>Expensive searches and wake demands\<close>

definition STATE_OPEN :: u8 where "STATE_OPEN = 0"
definition STATE_CLOSING :: u8 where "STATE_CLOSING = 1"
definition STATE_CLOSED :: u8 where "STATE_CLOSED = 2"
definition STATE_POISONED :: u8 where "STATE_POISONED = 3"

definition closed_error :: fulltext_error where
  "closed_error = fulltext_error_new ''E_CLOSED'' ''index is closing or closed''"

definition search_timeout :: fulltext_error where
  "search_timeout = fulltext_error_new ''E_TIMEOUT'' ''full-text search exceeded its execution budget''"

text \<open>
  \<open>acquire_expensive\<close> waits on a condition variable.  One turn of its loop sees the counter, the
  state of the runtime and whether the deadline has passed, and acquires, fails or waits;
  \<open>acquire_expensive_resume\<close> is what follows a wait, which may have timed out.
\<close>

datatype 'a attempt = Acquired 'a | Failed fulltext_error | Wait

definition acquire_expensive_turn :: "bool \<Rightarrow> u8 \<Rightarrow> runtime_budget \<Rightarrow> runtime_budget attempt" where
  "acquire_expensive_turn expired runtime_state b =
     (if rb_max_expensive_searches (bud_limits b) \<le> bud_expensive b then
        (if runtime_state \<noteq> STATE_OPEN then Failed closed_error
         else if expired then Failed search_timeout
         else Wait)
      else if runtime_state \<noteq> STATE_OPEN then Failed closed_error
      else Acquired (b\<lparr>bud_expensive := bud_expensive b + 1\<rparr>))"

definition acquire_expensive_resume :: "bool \<Rightarrow> bool \<Rightarrow> u8 \<Rightarrow> runtime_budget \<Rightarrow> runtime_budget attempt" where
  "acquire_expensive_resume timed_out expired runtime_state b =
     (if timed_out \<and> rb_max_expensive_searches (bud_limits b) \<le> bud_expensive b then Failed search_timeout
      else acquire_expensive_turn expired runtime_state b)"

definition try_acquire_expensive :: "u8 \<Rightarrow> u8 \<Rightarrow> runtime_budget \<Rightarrow> runtime_budget option" where
  "try_acquire_expensive first_state locked_state b =
     (if first_state \<noteq> STATE_OPEN then None
      else if rb_max_expensive_searches (bud_limits b) \<le> bud_expensive b \<or> locked_state \<noteq> STATE_OPEN
      then None
      else Some (b\<lparr>bud_expensive := bud_expensive b + 1\<rparr>))"

text \<open>\<open>Drop for ExpensiveSearchPermit\<close>; the wakes it keeps and notifies are those with demand
  whose queue is still alive.\<close>

definition notify_expensive_wakes :: "(nat \<Rightarrow> bool) \<Rightarrow> runtime_budget \<Rightarrow> runtime_budget" where
  "notify_expensive_wakes alive b = b\<lparr>bud_wakes := (\<lambda>w. case bud_wakes b w of
     Some demand \<Rightarrow> (if 0 < demand \<and> alive w then Some demand else None) | None \<Rightarrow> None)\<rparr>"

definition drop_permit :: "(nat \<Rightarrow> bool) \<Rightarrow> runtime_budget \<Rightarrow> runtime_budget" where
  "drop_permit alive b = notify_expensive_wakes alive (b\<lparr>bud_expensive := bud_expensive b - 1\<rparr>)"

definition register_expensive_wake :: "nat \<Rightarrow> runtime_budget \<Rightarrow> runtime_budget" where
  "register_expensive_wake w b =
     b\<lparr>bud_wakes := (bud_wakes b)(w \<mapsto> (case bud_wakes b w of None \<Rightarrow> 0 | Some d \<Rightarrow> d) + 1)\<rparr>"

definition drop_wake_demand :: "nat \<Rightarrow> runtime_budget \<Rightarrow> runtime_budget" where
  "drop_wake_demand w b = (case bud_wakes b w of
     None \<Rightarrow> b
   | Some d \<Rightarrow>
       let demand = d - 1 in
       if demand = 0 then b\<lparr>bud_wakes := (bud_wakes b)(w := None)\<rparr>
       else b\<lparr>bud_wakes := (bud_wakes b)(w \<mapsto> demand)\<rparr>)"

section \<open>The process-wide state\<close>

datatype runtime_budget_state =
    Unconfigured nat
  | Configured runtime_budget
  | OpenedWithoutBudget

datatype admission_kind = Budgeted amounts | Unbudgeted bool

definition configure_runtime_budget :: "runtime_budget_limits \<Rightarrow> runtime_budget_state \<Rightarrow> unit res \<times> runtime_budget_state" where
  "configure_runtime_budget l s = (case s of
     Unconfigured pending_opens \<Rightarrow>
       if pending_opens = 0 then (Ok (), Configured (runtime_budget_new l))
       else (Err (fulltext_error_new ''E_LOCK_BUSY''
         ''the process-wide fulltext runtime budget cannot be configured while an index open is pending''), s)
   | Configured b \<Rightarrow>
       if bud_limits b = l then (Ok (), s)
       else (Err (fulltext_error_new ''E_RESOURCE_LIMIT''
         ''the process-wide fulltext runtime budget is already configured differently''), s)
   | OpenedWithoutBudget \<Rightarrow>
       (Err (fulltext_error_new ''E_RESOURCE_LIMIT''
         ''the process-wide fulltext runtime budget cannot be configured after an unbudgeted open or unproven teardown; restart the process''), s))"

definition admit_runtime :: "limits \<Rightarrow> bool \<Rightarrow> runtime_budget_state \<Rightarrow> admission_kind res \<times> runtime_budget_state" where
  "admit_runtime limits read_only s = (case s of
     Unconfigured pending_opens \<Rightarrow>
       (case checked_add pending_opens 1 of
          None \<Rightarrow> (Err (fulltext_error_new ''E_RESOURCE_LIMIT'' ''too many pending index opens''), s)
        | Some n \<Rightarrow> (Ok (Unbudgeted True), Unconfigured n))
   | Configured b \<Rightarrow>
       (case admit limits read_only b of
          Ok (r, b') \<Rightarrow> (Ok (Budgeted r), Configured b')
        | Err (e, b') \<Rightarrow> (Err e, Configured b'))
   | OpenedWithoutBudget \<Rightarrow> (Ok (Unbudgeted False), s))"

definition confirm_open :: "admission_kind \<Rightarrow> runtime_budget_state \<Rightarrow> admission_kind \<times> runtime_budget_state" where
  "confirm_open a s = (case a of
     Budgeted r \<Rightarrow> (a, s)
   | Unbudgeted is_pending \<Rightarrow>
       if \<not> is_pending then (a, s)
       else (Unbudgeted False,
         (case s of Unconfigured n \<Rightarrow> if 0 < n then OpenedWithoutBudget else s | _ \<Rightarrow> s)))"

text \<open>\<open>retain_until_restart\<close> forgets a budgeted reservation, so it is never released.\<close>

definition retain_until_restart :: "admission_kind \<Rightarrow> runtime_budget_state \<Rightarrow> runtime_budget_state" where
  "retain_until_restart a s = (case a of
     Budgeted r \<Rightarrow> s
   | Unbudgeted is_pending \<Rightarrow>
       if \<not> is_pending then s
       else (case s of Unconfigured n \<Rightarrow> OpenedWithoutBudget | _ \<Rightarrow> s))"

text \<open>\<open>Drop for RuntimeAdmission\<close>, with the drop of the reservation it holds.\<close>

definition drop_admission :: "admission_kind \<Rightarrow> runtime_budget_state \<Rightarrow> runtime_budget_state" where
  "drop_admission a s = (case a of
     Budgeted r \<Rightarrow> (case s of Configured b \<Rightarrow> Configured (drop_reservation r b) | _ \<Rightarrow> s)
   | Unbudgeted is_pending \<Rightarrow>
       if \<not> is_pending then s
       else (case s of Unconfigured n \<Rightarrow> Unconfigured (n - 1) | _ \<Rightarrow> s))"

section \<open>Admission is all or nothing\<close>

definition requested :: "limits \<Rightarrow> bool \<Rightarrow> amounts" where
  "requested l read_only k = (case k of
     Resident_Indexes \<Rightarrow> 1
   | Indexing_Threads \<Rightarrow> if read_only then 0 else indexing_threads l
   | Search_Threads \<Rightarrow> search_threads l
   | Writer_Memory \<Rightarrow> if read_only then 0 else writer_memory_bytes l
   | Queued_Bytes \<Rightarrow> if read_only then max_queued_bytes l else 2 * max_queued_bytes l)"

definition limits_fit :: "runtime_budget \<Rightarrow> bool" where
  "limits_fit b \<longleftrightarrow> (\<forall>k. counter_limit (bud_limits b) k \<le> usize_max)"

definition take_amounts :: "amounts \<Rightarrow> runtime_budget \<Rightarrow> runtime_budget" where
  "take_amounts r b = b\<lparr>bud_used := (\<lambda>k. bud_used b k + r k)\<rparr>"

lemma all_counter_iff: "(\<forall>k. P k) \<longleftrightarrow> P Resident_Indexes \<and> P Indexing_Threads \<and> P Search_Threads \<and>
    P Writer_Memory \<and> P Queued_Bytes"
  by (metis counter.exhaust)

lemma take_amounts_simps [simp]:
  "bud_limits (take_amounts r b) = bud_limits b" "bud_used (take_amounts r b) k = bud_used b k + r k"
  "take_amounts no_amounts b = b" "limits_fit (take_amounts r b) = limits_fit b"
  by (simp_all add: take_amounts_def no_amounts_def limits_fit_def)

lemma take_amounts_update: "r k = 0 \<Longrightarrow>
    take_amounts (r(k := n)) b = (take_amounts r b)\<lparr>bud_used := (bud_used (take_amounts r b))(k := bud_used b k + n)\<rparr>"
  by (rule runtime_budget.equality) (auto simp: take_amounts_def)

lemma budget_reserve_Ok_iff:
  "limits_fit b \<Longrightarrow> budget_reserve k n b = Ok b' \<longleftrightarrow>
     bud_used b k + n \<le> counter_limit (bud_limits b) k \<and>
     b' = b\<lparr>bud_used := (bud_used b)(k := bud_used b k + n)\<rparr>"
  by (auto simp: budget_reserve_def reserve_def and_then_Ok_iff checked_add_def limits_fit_def
      split: option.splits if_splits intro: order_trans)

lemma budget_reserve_Err:
  "budget_reserve k n b = Err e \<Longrightarrow> err_code e = ''E_RESOURCE_LIMIT''"
  by (auto simp: budget_reserve_def reserve_def and_then_Err_iff fulltext_error_new_def
      split: option.splits if_splits)

lemma release_le: "n \<le> m \<Longrightarrow> release m n = m - n"
  by (auto simp: release_def checked_sub_def)

lemma drop_take: "drop_reservation r (take_amounts r b) = b"
  unfolding drop_reservation_def budget_release_def
  by (rule runtime_budget.equality) (auto simp: release_le take_amounts_def all_counter_iff fun_eq_iff)

lemma admit_step_eq:
  assumes "r k = 0" "limits_fit b"
  shows "admit_step k n (r, take_amounts r b) =
    (if bud_used b k + n \<le> counter_limit (bud_limits b) k then Ok (r(k := n), take_amounts (r(k := n)) b)
     else Err (fulltext_error_new ''E_RESOURCE_LIMIT''
       (''process-wide '' @ counter_resource k @ '' limit exceeded''), b))"
proof (cases "bud_used b k + n \<le> counter_limit (bud_limits b) k")
  case True
  then have "budget_reserve k n (take_amounts r b) = Ok (take_amounts (r(k := n)) b)"
    using assms by (simp add: budget_reserve_Ok_iff take_amounts_update)
  with True show ?thesis by (simp add: admit_step_def)
next
  case False
  then have "budget_reserve k n (take_amounts r b) = Err (fulltext_error_new ''E_RESOURCE_LIMIT''
       (''process-wide '' @ counter_resource k @ '' limit exceeded''))"
    using assms(1) by (auto simp: budget_reserve_def reserve_def checked_add_def)
  with False show ?thesis by (simp add: admit_step_def drop_take)
qed

lemma no_amounts_apply [simp]: "no_amounts k = 0"
  by (simp add: no_amounts_def)

definition rolled_back ::
    "runtime_budget \<Rightarrow> (amounts \<times> runtime_budget, fulltext_error \<times> runtime_budget) result \<Rightarrow> bool" where
  "rolled_back b x = (case x of Ok _ \<Rightarrow> False | Err (e, b') \<Rightarrow> b' = b \<and> err_code e = ''E_RESOURCE_LIMIT'')"

lemma requested_simps [simp]:
  "requested l ro Resident_Indexes = 1"
  "requested l ro Indexing_Threads = (if ro then 0 else indexing_threads l)"
  "requested l ro Search_Threads = search_threads l"
  "requested l ro Writer_Memory = (if ro then 0 else writer_memory_bytes l)"
  "requested l ro Queued_Bytes = (if ro then max_queued_bytes l else 2 * max_queued_bytes l)"
  by (simp_all add: requested_def)

text \<open>The reservation after each of the steps of \<open>admit\<close>.\<close>

definition partial :: "limits \<Rightarrow> bool \<Rightarrow> counter list \<Rightarrow> amounts" where
  "partial l ro ks k = (if k \<in> set ks then requested l ro k else 0)"

definition within :: "runtime_budget \<Rightarrow> bool" where
  "within b \<longleftrightarrow> (\<forall>k. bud_used b k \<le> counter_limit (bud_limits b) k) \<and> limits_fit b"

definition fits :: "limits \<Rightarrow> bool \<Rightarrow> runtime_budget \<Rightarrow> counter \<Rightarrow> bool" where
  "fits l ro b k \<longleftrightarrow> bud_used b k + requested l ro k \<le> counter_limit (bud_limits b) k"

definition admitted :: "limits \<Rightarrow> bool \<Rightarrow> runtime_budget \<Rightarrow> counter list \<Rightarrow> amounts \<times> runtime_budget" where
  "admitted l ro b ks = (partial l ro ks, take_amounts (partial l ro ks) b)"

definition limit_error :: "counter \<Rightarrow> fulltext_error" where
  "limit_error k = fulltext_error_new ''E_RESOURCE_LIMIT''
     (''process-wide '' @ counter_resource k @ '' limit exceeded'')"

lemma admitted_step:
  assumes "k \<notin> set ks" "within b"
  shows "admit_step k (requested l ro k) (admitted l ro b ks) =
    (if fits l ro b k then Ok (admitted l ro b (k # ks)) else Err (limit_error k, b))"
proof -
  have "(partial l ro ks)(k := requested l ro k) = partial l ro (k # ks)"
    by (auto simp: partial_def fun_eq_iff)
  then show ?thesis
    using assms by (simp add: admit_step_eq partial_def within_def admitted_def fits_def limit_error_def)
qed

lemma admitted_writer_step:
  assumes "k \<notin> set ks" "within b" "ro \<Longrightarrow> requested l ro k = 0"
  shows "admit_writer_step ro k (if ro then n else requested l ro k) (admitted l ro b ks) =
    (if fits l ro b k then Ok (admitted l ro b (k # ks)) else Err (limit_error k, b))"
proof (cases ro)
  case True
  with assms(1,3) have "partial l ro (k # ks) = partial l ro ks" by (auto simp: partial_def fun_eq_iff)
  moreover have "fits l ro b k" using True assms(2,3) by (simp add: fits_def within_def)
  ultimately show ?thesis using True by (simp add: admit_writer_step_def admitted_def)
qed (simp add: admit_writer_step_def admitted_step [OF assms(1,2)])

lemma admitted_queued:
  assumes "within b" "ks = [Writer_Memory, Search_Threads, Indexing_Threads, Resident_Indexes]"
  shows "if fits l ro b Queued_Bytes
    then admit_queued l ro (admitted l ro b ks) = Ok (requested l ro, take_amounts (requested l ro) b)
    else rolled_back b (admit_queued l ro (admitted l ro b ks))"
proof (cases "requested l ro Queued_Bytes \<le> usize_max")
  case True
  then have "checked_mul (max_queued_bytes l) (if ro then 1 else 2) = Some (requested l ro Queued_Bytes)"
    by (auto simp: checked_mul_def mult.commute)
  then have q: "admit_queued l ro s = admit_step Queued_Bytes (requested l ro Queued_Bytes) s" for s
    by (simp only: admit_queued_def option.case)
  have "partial l ro (Queued_Bytes # ks) k = requested l ro k" for k
    by (cases k) (simp_all add: assms(2) partial_def)
  then have "partial l ro (Queued_Bytes # ks) = requested l ro" by (rule ext)
  then have "admitted l ro b (Queued_Bytes # ks) = (requested l ro, take_amounts (requested l ro) b)"
    by (simp add: admitted_def)
  moreover have "Queued_Bytes \<notin> set ks" using assms(2) by simp
  ultimately show ?thesis
    using assms(1) unfolding q
    by (simp add: admitted_step rolled_back_def limit_error_def fulltext_error_new_def del: requested_simps)
next
  case False
  then have "checked_mul (max_queued_bytes l) (if ro then 1 else 2) = None"
    by (auto simp: checked_mul_def mult.commute)
  moreover have "\<not> fits l ro b Queued_Bytes"
  proof -
    have "counter_limit (bud_limits b) Queued_Bytes \<le> usize_max"
      using assms(1) by (simp add: within_def limits_fit_def)
    then show ?thesis using False unfolding fits_def by linarith
  qed
  ultimately show ?thesis
    by (simp add: admit_queued_def admitted_def drop_take rolled_back_def fulltext_error_new_def)
qed

lemma admit_cases:
  assumes "within b"
  shows "if \<forall>k. fits l ro b k
    then admit l ro b = Ok (requested l ro, take_amounts (requested l ro) b)
    else rolled_back b (admit l ro b)"
proof -
  have start: "(no_amounts, b) = admitted l ro b []"
    by (simp add: admitted_def partial_def take_amounts_def no_amounts_def fun_eq_iff)
  have r: "admit_step Resident_Indexes 1 (admitted l ro b []) =
      (if fits l ro b Resident_Indexes then Ok (admitted l ro b [Resident_Indexes])
       else Err (limit_error Resident_Indexes, b))"
    using admitted_step [of Resident_Indexes "[]" b l ro] assms by simp
  have i: "admit_writer_step ro Indexing_Threads (indexing_threads l) (admitted l ro b [Resident_Indexes]) =
      (if fits l ro b Indexing_Threads then Ok (admitted l ro b [Indexing_Threads, Resident_Indexes])
       else Err (limit_error Indexing_Threads, b))"
    using admitted_writer_step [of Indexing_Threads "[Resident_Indexes]" b ro l "indexing_threads l"] assms
    by (cases ro) simp_all
  have s: "admit_step Search_Threads (search_threads l) (admitted l ro b [Indexing_Threads, Resident_Indexes]) =
      (if fits l ro b Search_Threads then Ok (admitted l ro b [Search_Threads, Indexing_Threads, Resident_Indexes])
       else Err (limit_error Search_Threads, b))"
    using admitted_step [of Search_Threads "[Indexing_Threads, Resident_Indexes]" b l ro] assms by simp
  have w: "admit_writer_step ro Writer_Memory (writer_memory_bytes l)
        (admitted l ro b [Search_Threads, Indexing_Threads, Resident_Indexes]) =
      (if fits l ro b Writer_Memory
       then Ok (admitted l ro b [Writer_Memory, Search_Threads, Indexing_Threads, Resident_Indexes])
       else Err (limit_error Writer_Memory, b))"
    using admitted_writer_step [of Writer_Memory "[Search_Threads, Indexing_Threads, Resident_Indexes]" b ro l
        "writer_memory_bytes l"] assms by (cases ro) simp_all
  have err: "rolled_back b (Err (limit_error k, b))" for k
    by (simp add: rolled_back_def limit_error_def fulltext_error_new_def)
  show ?thesis
    using admitted_queued [OF assms refl, of l ro] unfolding admit_def start
    by (auto simp: r [unfolded One_nat_def] i s w err all_counter_iff split: if_splits)
qed

text \<open>
  C18. Admission of an index to the runtime budget is all or nothing.  With counters within their
  limits, \<open>admit\<close> succeeds exactly when every counter has room for what the configuration asks
  (a read-only handle asks for no writer and half the queue), it then adds exactly that to the
  counters, and when it fails, at whichever counter, the partial reservation is rolled back: the
  counters are as before and the error is a resource limit.
\<close>

theorem admit_all_or_nothing:
  assumes "within b"
  shows "if \<forall>k. bud_used b k + requested l ro k \<le> counter_limit (bud_limits b) k
    then admit l ro b = Ok (requested l ro, take_amounts (requested l ro) b)
    else (\<exists>e. admit l ro b = Err (e, b) \<and> err_code e = ''E_RESOURCE_LIMIT'')"
  using admit_cases [OF assms, of l ro]
  by (auto simp: fits_def rolled_back_def split: if_splits result.splits)

definition sample_limits :: limits where
  "sample_limits = \<lparr>max_query_terms = 64, max_query_clauses = 256, indexing_threads = 2, search_threads = 2,
     writer_memory_bytes = 30000000, max_queued_commands = 8, max_queued_bytes = 1000, max_batch_bytes = 100\<rparr>"

definition sample_budget :: runtime_budget where
  "sample_budget = runtime_budget_new \<lparr>rb_max_resident_indexes = 4, rb_max_indexing_threads = 3,
     rb_max_search_threads = 8, rb_max_writer_memory_bytes = 60000000, rb_max_queued_bytes = 5000,
     rb_max_expensive_searches = 1\<rparr>"

theorem admit_all_or_nothing_witness:
  "admit sample_limits False sample_budget =
     Ok (requested sample_limits False, take_amounts (requested sample_limits False) sample_budget) \<and>
   (\<exists>e. admit sample_limits False (take_amounts (requested sample_limits False) sample_budget) =
     Err (e, take_amounts (requested sample_limits False) sample_budget))"
proof -
  have w: "within sample_budget" "within (take_amounts (requested sample_limits False) sample_budget)"
    by (simp_all add: within_def limits_fit_def all_counter_iff sample_budget_def runtime_budget_new_def
        counter_limit_def usize_max_def sample_limits_def)
  show ?thesis
    using admit_all_or_nothing [OF w(1), of sample_limits False]
      admit_all_or_nothing [OF w(2), of sample_limits False]
    by (simp add: all_counter_iff sample_budget_def runtime_budget_new_def counter_limit_def
        sample_limits_def) blast
qed

section \<open>All interleavings of counter updates\<close>

record process =
  pr_budget :: runtime_budget
  pr_held :: "amounts list"
  pr_permits :: nat

text \<open>
  One atomic update by some thread: a new empty reservation, a successful \<open>reserve\<close> noted in a
  reservation, the release of one counter while a reservation is dropped, and the permits.
\<close>

inductive budget_step :: "process \<Rightarrow> process \<Rightarrow> bool" where
  new_reservation: "budget_step p (p\<lparr>pr_held := pr_held p @ [no_amounts]\<rparr>)"
| reserve_one: "i < length (pr_held p) \<Longrightarrow> (pr_held p ! i) k = 0 \<Longrightarrow>
    budget_reserve k n (pr_budget p) = Ok b \<Longrightarrow>
    budget_step p (p\<lparr>pr_budget := b, pr_held := (pr_held p)[i := (pr_held p ! i)(k := n)]\<rparr>)"
| release_one: "i < length (pr_held p) \<Longrightarrow>
    budget_step p (p\<lparr>pr_budget := budget_release k ((pr_held p ! i) k) (pr_budget p),
      pr_held := (pr_held p)[i := (pr_held p ! i)(k := 0)]\<rparr>)"
| acquire: "acquire_expensive_resume timed_out expired st (pr_budget p) = Acquired b \<Longrightarrow>
    budget_step p (p\<lparr>pr_budget := b, pr_permits := pr_permits p + 1\<rparr>)"
| try_acquire: "try_acquire_expensive st st2 (pr_budget p) = Some b \<Longrightarrow>
    budget_step p (p\<lparr>pr_budget := b, pr_permits := pr_permits p + 1\<rparr>)"
| permit_dropped: "0 < pr_permits p \<Longrightarrow>
    budget_step p (p\<lparr>pr_budget := drop_permit alive (pr_budget p), pr_permits := pr_permits p - 1\<rparr>)"
| wake_registered: "budget_step p (p\<lparr>pr_budget := register_expensive_wake w (pr_budget p)\<rparr>)"
| wake_dropped: "budget_step p (p\<lparr>pr_budget := drop_wake_demand w (pr_budget p)\<rparr>)"

inductive_cases budget_step_cases: "budget_step p p'"

definition process_inv :: "process \<Rightarrow> bool" where
  "process_inv p \<longleftrightarrow>
     (\<forall>k. bud_used (pr_budget p) k = sum_list (map (\<lambda>h. h k) (pr_held p))) \<and> within (pr_budget p) \<and>
     bud_expensive (pr_budget p) = pr_permits p \<and>
     pr_permits p \<le> rb_max_expensive_searches (bud_limits (pr_budget p))"

definition process_init :: "runtime_budget_limits \<Rightarrow> process" where
  "process_init l = \<lparr>pr_budget = runtime_budget_new l, pr_held = [], pr_permits = 0\<rparr>"

lemma sum_held_update:
  fixes hs :: "amounts list"
  assumes "i < length hs"
  shows "sum_list (map (\<lambda>h. h j) (hs[i := (hs ! i)(k := n)])) =
    (if j = k then sum_list (map (\<lambda>h. h j) hs) - (hs ! i) k + n else sum_list (map (\<lambda>h. h j) hs))"
    and "(hs ! i) k \<le> sum_list (map (\<lambda>h. h k) hs)"
proof -
  have le: "(hs ! i) j \<le> sum_list (map (\<lambda>h. h j) hs)" for j
    using assms elem_le_sum_list [of i "map (\<lambda>h. h j) hs"] by simp
  then show "(hs ! i) k \<le> sum_list (map (\<lambda>h. h k) hs)" .
  show "sum_list (map (\<lambda>h. h j) (hs[i := (hs ! i)(k := n)])) =
    (if j = k then sum_list (map (\<lambda>h. h j) hs) - (hs ! i) k + n else sum_list (map (\<lambda>h. h j) hs))"
    using assms le [of j] by (auto simp: map_update sum_list_update)
qed

lemma wake_budget_simps [simp]:
  "bud_used (register_expensive_wake w b) = bud_used b" "bud_limits (register_expensive_wake w b) = bud_limits b"
  "bud_expensive (register_expensive_wake w b) = bud_expensive b"
  "bud_used (drop_wake_demand w b) = bud_used b" "bud_limits (drop_wake_demand w b) = bud_limits b"
  "bud_expensive (drop_wake_demand w b) = bud_expensive b"
  "bud_used (drop_permit alive b) = bud_used b" "bud_limits (drop_permit alive b) = bud_limits b"
  "bud_expensive (drop_permit alive b) = bud_expensive b - 1"
  by (auto simp: register_expensive_wake_def drop_wake_demand_def drop_permit_def
      notify_expensive_wakes_def Let_def split: option.splits)

lemma within_cong: "bud_used b = bud_used b' \<Longrightarrow> bud_limits b = bud_limits b' \<Longrightarrow> within b = within b'"
  by (simp add: within_def limits_fit_def)

lemma process_inv_step:
  assumes "process_inv p" "budget_step p p'"
  shows "process_inv p'"
  using assms(2)
proof cases
  case (reserve_one i k n b)
  then show ?thesis
    using assms(1) sum_held_update [OF reserve_one(2)]
    by (auto simp: process_inv_def within_def budget_reserve_Ok_iff limits_fit_def)
next
  case (release_one i k)
  have "release (bud_used (pr_budget p) k) ((pr_held p ! i) k) = bud_used (pr_budget p) k - (pr_held p ! i) k"
    using assms(1) sum_held_update(2) [OF release_one(2)] by (intro release_le) (simp add: process_inv_def)
  then show ?thesis
    using assms(1) sum_held_update [OF release_one(2)] unfolding release_one(1)
    by (auto simp: process_inv_def within_def budget_release_def limits_fit_def)
      (meson diff_le_self le_trans)
next
  case (acquire timed_out expired st b)
  then show ?thesis
    using assms(1)
    by (auto simp: process_inv_def acquire_expensive_resume_def acquire_expensive_turn_def within_def limits_fit_def split: if_splits)
next
  case (try_acquire st st2 b)
  then show ?thesis
    using assms(1)
    by (auto simp: process_inv_def try_acquire_expensive_def within_def limits_fit_def split: if_splits)
qed (insert assms(1), auto simp: process_inv_def within_def limits_fit_def)

text \<open>
  C8. Whatever the interleaving of the threads, the process-wide counters are exact and bounded.
  In every state reachable by atomic reserve and release updates, permits and wake demands, each
  counter equals the sum of what the live reservations hold and is within its configured limit,
  and the number of expensive searches running is the number of permits held and at most the
  configured maximum.
\<close>

theorem budget_exact_and_bounded:
  assumes "budget_step\<^sup>*\<^sup>* (process_init l) p" "\<forall>k. counter_limit l k \<le> usize_max"
  shows "bud_used (pr_budget p) k = sum_list (map (\<lambda>h. h k) (pr_held p)) \<and>
    bud_used (pr_budget p) k \<le> counter_limit (bud_limits (pr_budget p)) k \<and>
    bud_expensive (pr_budget p) = pr_permits p \<and>
    bud_expensive (pr_budget p) \<le> rb_max_expensive_searches (bud_limits (pr_budget p))"
proof -
  have "process_inv (process_init l)"
    using assms(2) by (simp add: process_inv_def process_init_def runtime_budget_new_def within_def limits_fit_def)
  with assms(1) have "process_inv p"
    by (induction rule: rtranclp_induct) (auto intro: process_inv_step)
  then show ?thesis unfolding process_inv_def within_def by metis
qed

theorem budget_exact_and_bounded_witness:
  "\<exists>p. budget_step\<^sup>*\<^sup>* (process_init (bud_limits sample_budget)) p \<and>
     bud_used (pr_budget p) Search_Threads = 5 \<and>
     bud_used (pr_budget p) Search_Threads \<le> counter_limit (bud_limits (pr_budget p)) Search_Threads"
proof -
  let ?p0 = "process_init (bud_limits sample_budget)"
  let ?p1 = "?p0\<lparr>pr_held := pr_held ?p0 @ [no_amounts]\<rparr>"
  let ?b = "(pr_budget ?p1)\<lparr>bud_used := (bud_used (pr_budget ?p1))(Search_Threads := 5)\<rparr>"
  let ?p2 = "?p1\<lparr>pr_budget := ?b, pr_held := (pr_held ?p1)[0 := (pr_held ?p1 ! 0)(Search_Threads := 5)]\<rparr>"
  have "budget_reserve Search_Threads 5 (pr_budget ?p1) = Ok ?b"
    by (simp add: budget_reserve_def reserve_def checked_add_def process_init_def runtime_budget_new_def
        counter_limit_def sample_budget_def usize_max_def)
  then have "budget_step ?p1 ?p2"
    using budget_step.reserve_one [of 0 ?p1 Search_Threads 5 ?b] by (simp add: process_init_def)
  then have r: "budget_step\<^sup>*\<^sup>* ?p0 ?p2"
    using budget_step.new_reservation [of ?p0] by auto
  have "\<forall>k. counter_limit (bud_limits sample_budget) k \<le> usize_max"
    by (simp add: all_counter_iff counter_limit_def sample_budget_def runtime_budget_new_def usize_max_def)
  then show ?thesis
    using r budget_exact_and_bounded [OF r, of Search_Threads] by (intro exI [of _ ?p2]) simp
qed

section \<open>Every open is accounted for, or none is\<close>

record admissions =
  ad_state :: runtime_budget_state
  ad_live :: "admission_kind list"
  ad_retained :: "amounts list"

definition remove_at :: "nat \<Rightarrow> 'a list \<Rightarrow> 'a list" where
  "remove_at i xs = take i xs @ drop (Suc i) xs"

definition retained_amounts :: "admission_kind \<Rightarrow> amounts list" where
  "retained_amounts a = (case a of Budgeted r \<Rightarrow> [r] | Unbudgeted _ \<Rightarrow> [])"

inductive admission_step :: "admissions \<Rightarrow> admissions \<Rightarrow> bool" where
  configure: "\<forall>k. counter_limit l k \<le> usize_max \<Longrightarrow> configure_runtime_budget l (ad_state p) = (r, s) \<Longrightarrow>
    admission_step p (p\<lparr>ad_state := s\<rparr>)"
| admit_ok: "admit_runtime l ro (ad_state p) = (Ok a, s) \<Longrightarrow>
    admission_step p (p\<lparr>ad_state := s, ad_live := ad_live p @ [a]\<rparr>)"
| admit_err: "admit_runtime l ro (ad_state p) = (Err e, s) \<Longrightarrow> admission_step p (p\<lparr>ad_state := s\<rparr>)"
| confirm: "i < length (ad_live p) \<Longrightarrow> confirm_open (ad_live p ! i) (ad_state p) = (a, s) \<Longrightarrow>
    admission_step p (p\<lparr>ad_state := s, ad_live := (ad_live p)[i := a]\<rparr>)"
| retain: "i < length (ad_live p) \<Longrightarrow>
    admission_step p (p\<lparr>ad_state := retain_until_restart (ad_live p ! i) (ad_state p),
      ad_live := remove_at i (ad_live p),
      ad_retained := retained_amounts (ad_live p ! i) @ ad_retained p\<rparr>)"
| dropped: "i < length (ad_live p) \<Longrightarrow>
    admission_step p (p\<lparr>ad_state := drop_admission (ad_live p ! i) (ad_state p), ad_live := remove_at i (ad_live p)\<rparr>)"

inductive_cases admission_step_cases: "admission_step p p'"

definition admissions_init :: admissions where
  "admissions_init = \<lparr>ad_state = Unconfigured 0, ad_live = [], ad_retained = []\<rparr>"

definition held_amounts :: "admissions \<Rightarrow> amounts list" where
  "held_amounts p = concat (map retained_amounts (ad_live p)) @ ad_retained p"

definition is_budgeted :: "admission_kind \<Rightarrow> bool" where
  "is_budgeted a = (case a of Budgeted _ \<Rightarrow> True | Unbudgeted _ \<Rightarrow> False)"

definition admission_inv :: "admissions \<Rightarrow> bool" where
  "admission_inv p = (case ad_state p of
     Unconfigured n \<Rightarrow> n = length (ad_live p) \<and> set (ad_live p) \<subseteq> {Unbudgeted True} \<and> ad_retained p = []
   | Configured b \<Rightarrow> list_all is_budgeted (ad_live p) \<and> within b \<and>
       (\<forall>k. bud_used b k = sum_list (map (\<lambda>h. h k) (held_amounts p)))
   | OpenedWithoutBudget \<Rightarrow> list_all (\<lambda>a. \<not> is_budgeted a) (ad_live p) \<and> ad_retained p = [])"

lemma set_remove_at: "set (remove_at i xs) \<subseteq> set xs"
  by (auto simp: remove_at_def dest: in_set_takeD in_set_dropD)

lemma length_remove_at: "i < length xs \<Longrightarrow> length (remove_at i xs) = length xs - 1"
  by (simp add: remove_at_def)

lemma sum_remove_at:
  fixes f :: "'a \<Rightarrow> nat"
  assumes "i < length xs"
  shows "sum_list (map f xs) = f (xs ! i) + sum_list (map f (remove_at i xs))"
  by (subst id_take_nth_drop [OF assms]) (simp add: remove_at_def)

definition admission_amount :: "counter \<Rightarrow> admission_kind \<Rightarrow> nat" where
  "admission_amount k a = sum_list (map (\<lambda>h. h k) (retained_amounts a))"

lemma sum_retained: "sum_list (map (\<lambda>h. h k) (concat (map retained_amounts xs))) =
    sum_list (map (admission_amount k) xs)"
  by (induction xs) (simp_all add: admission_amount_def)

lemma sum_held_amounts:
  "sum_list (map (\<lambda>h. h k) (held_amounts p)) =
     sum_list (map (admission_amount k) (ad_live p)) + sum_list (map (\<lambda>h. h k) (ad_retained p))"
  by (simp add: held_amounts_def sum_retained)

lemma admission_amount_simps [simp]:
  "admission_amount k (Budgeted r) = r k" "admission_amount k (Unbudgeted b) = 0"
  by (simp_all add: admission_amount_def retained_amounts_def)

lemma is_budgeted_simps [simp]: "is_budgeted (Budgeted r)" "\<not> is_budgeted (Unbudgeted b)"
  by (simp_all add: is_budgeted_def)

lemma drop_reservation_used:
  "\<forall>k. r k \<le> bud_used b k \<Longrightarrow> bud_used (drop_reservation r b) k = bud_used b k - r k"
  "bud_limits (drop_reservation r b) = bud_limits b"
  unfolding drop_reservation_def budget_release_def by (cases k; simp add: release_le)+

lemma admit_runtime_inv:
  assumes "admission_inv p" "admit_runtime l ro (ad_state p) = (r, s)"
  shows "case r of Ok a \<Rightarrow> admission_inv (p\<lparr>ad_state := s, ad_live := ad_live p @ [a]\<rparr>)
    | Err e \<Rightarrow> admission_inv (p\<lparr>ad_state := s\<rparr>)"
proof (cases "ad_state p")
  case (Configured b)
  then have w: "within b" and used: "bud_used b k = sum_list (map (\<lambda>h. h k) (held_amounts p))" for k
    using assms(1) by (simp_all add: admission_inv_def)
  show ?thesis
  proof (cases "\<forall>k. fits l ro b k")
    case True
    then have "admit l ro b = Ok (requested l ro, take_amounts (requested l ro) b)"
      using admit_cases [OF w, of l ro] by simp
    then have "r = Ok (Budgeted (requested l ro))" "s = Configured (take_amounts (requested l ro) b)"
      using assms(2) Configured by (auto simp: admit_runtime_def)
    then show ?thesis
      using True w assms(1) Configured used
      by (auto simp: admission_inv_def sum_held_amounts within_def fits_def)
  next
    case False
    then obtain e where "admit l ro b = Err (e, b)"
      using admit_cases [OF w, of l ro]
      by (cases "admit l ro b") (auto simp: rolled_back_def split: if_splits prod.splits)
    then have "r = Err e" "s = ad_state p" using assms(2) Configured by (simp_all add: admit_runtime_def)
    then show ?thesis using assms(1) by simp
  qed
next
  case (Unconfigured n)
  show ?thesis
  proof (cases r)
    case (Ok a)
    then show ?thesis
      using Unconfigured assms by (auto simp: admit_runtime_def admission_inv_def checked_add_def split: if_splits)
  next
    case (Err e)
    then have "s = ad_state p"
      using Unconfigured assms(2) by (auto simp: admit_runtime_def checked_add_def split: if_splits)
    then show ?thesis using Err assms(1) by simp
  qed
qed (insert assms, auto simp: admit_runtime_def admission_inv_def)

lemma leave_inv:
  assumes "admission_inv p" "i < length (ad_live p)"
  shows "admission_inv (p\<lparr>ad_state := retain_until_restart (ad_live p ! i) (ad_state p),
      ad_live := remove_at i (ad_live p), ad_retained := retained_amounts (ad_live p ! i) @ ad_retained p\<rparr>)"
    "admission_inv (p\<lparr>ad_state := drop_admission (ad_live p ! i) (ad_state p), ad_live := remove_at i (ad_live p)\<rparr>)"
proof -
  have mem: "ad_live p ! i \<in> set (ad_live p)" using assms(2) by simp
  note facts = sum_remove_at [OF assms(2)] length_remove_at [OF assms(2)]
  have sub: "set (remove_at i (ad_live p)) \<subseteq> set (ad_live p)" by (rule set_remove_at)
  show "admission_inv (p\<lparr>ad_state := retain_until_restart (ad_live p ! i) (ad_state p),
      ad_live := remove_at i (ad_live p), ad_retained := retained_amounts (ad_live p ! i) @ ad_retained p\<rparr>)"
    using assms(1) mem sub facts
    by (auto simp: admission_inv_def retain_until_restart_def sum_held_amounts list_all_iff retained_amounts_def
        split: runtime_budget_state.splits admission_kind.splits)
  have le: "admission_amount k (ad_live p ! i) \<le> sum_list (map (\<lambda>h. h k) (held_amounts p))" for k
    using facts(1) [of "admission_amount k"] by (simp add: sum_held_amounts)
  show "admission_inv (p\<lparr>ad_state := drop_admission (ad_live p ! i) (ad_state p), ad_live := remove_at i (ad_live p)\<rparr>)"
  proof (cases "ad_state p")
    case (Configured b)
    with assms(1) mem obtain r where r: "ad_live p ! i = Budgeted r"
      by (cases "ad_live p ! i") (auto simp: admission_inv_def list_all_iff)
    have used: "bud_used b k = sum_list (map (\<lambda>h. h k) (held_amounts p))" and w: "within b" for k
      using assms(1) Configured by (simp_all add: admission_inv_def)
    have d: "bud_used (drop_reservation r b) k = bud_used b k - r k" for k
      using le r used by (intro drop_reservation_used) simp
    have "within (drop_reservation r b)"
      using w by (auto simp: within_def limits_fit_def d drop_reservation_used(2) intro: order_trans [OF diff_le_self])
    then show ?thesis
      using assms(1) Configured r sub facts(1) d used
      by (auto simp: admission_inv_def drop_admission_def sum_held_amounts list_all_iff)
  qed (insert assms(1) mem sub facts, auto simp: admission_inv_def drop_admission_def list_all_iff
      split: admission_kind.splits)
qed

lemma confirm_inv:
  assumes "admission_inv p" "i < length (ad_live p)" "confirm_open (ad_live p ! i) (ad_state p) = (a, s)"
  shows "admission_inv (p\<lparr>ad_state := s, ad_live := (ad_live p)[i := a]\<rparr>)"
proof (cases "ad_live p ! i")
  case (Budgeted r)
  then have "a = ad_live p ! i" "s = ad_state p" using assms(3) by (simp_all add: confirm_open_def)
  then show ?thesis using assms(1) by simp
next
  case (Unbudgeted q)
  have mem: "ad_live p ! i \<in> set (ad_live p)" using assms(2) by simp
  have sub: "set ((ad_live p)[i := a]) \<subseteq> insert a (set (ad_live p))" by (rule set_update_subset_insert)
  have unb: "\<not> is_budgeted a"
    using assms(3) unfolding Unbudgeted by (auto simp: confirm_open_def split: if_splits)
  show ?thesis
  proof (cases "ad_state p")
    case (Unconfigured n)
    then have "q" "0 < n" "ad_retained p = []" "set (ad_live p) \<subseteq> {Unbudgeted True}"
      using assms(1) Unbudgeted mem by (auto simp: admission_inv_def)
    then show ?thesis
      using Unconfigured Unbudgeted assms(3) sub unb
      by (auto simp: admission_inv_def confirm_open_def list_all_iff subset_iff)
  next
    case (Configured b)
    then show ?thesis using assms(1) mem Unbudgeted by (auto simp: admission_inv_def list_all_iff)
  next
    case OpenedWithoutBudget
    then have "s = OpenedWithoutBudget" using Unbudgeted assms(3) by (auto simp: confirm_open_def split: if_splits)
    then show ?thesis
      using OpenedWithoutBudget assms(1) sub unb by (auto simp: admission_inv_def list_all_iff)
  qed
qed

lemma admission_inv_step:
  assumes "admission_step p p'" "admission_inv p"
  shows "admission_inv p'"
  using assms(1)
proof cases
  case (configure l r s)
  then show ?thesis
    using assms(2)
    by (auto simp: configure_runtime_budget_def admission_inv_def held_amounts_def within_def limits_fit_def
        runtime_budget_new_def split: runtime_budget_state.splits if_splits)
next
  case (confirm i a s)
  then show ?thesis using confirm_inv [OF assms(2) confirm(2,3)] by simp
next
  case (admit_ok l ro a s)
  then show ?thesis using admit_runtime_inv [OF assms(2) admit_ok(2)] by simp
next
  case (admit_err l ro e s)
  then show ?thesis using admit_runtime_inv [OF assms(2) admit_err(2)] by simp
qed (insert assms(2), auto intro: leave_inv)

lemma settled_step:
  assumes "admission_step p p'" "ad_state p = OpenedWithoutBudget"
  shows "ad_state p' = OpenedWithoutBudget"
  using assms(1)
  by (rule admission_step_cases)
     (insert assms(2), auto simp: configure_runtime_budget_def admit_runtime_def confirm_open_def
        retain_until_restart_def drop_admission_def split: admission_kind.splits if_splits)

lemma admission_reachable_inv: "admission_step\<^sup>*\<^sup>* admissions_init p \<Longrightarrow> admission_inv p"
proof (induction rule: rtranclp_induct)
  case base
  show ?case by (simp add: admissions_init_def admission_inv_def)
qed (rule admission_inv_step)

lemma settled_steps:
  "admission_step\<^sup>*\<^sup>* p p' \<Longrightarrow> ad_state p = OpenedWithoutBudget \<Longrightarrow> ad_state p' = OpenedWithoutBudget"
  by (induction rule: rtranclp_induct) (auto intro: settled_step)

text \<open>
  C19. Either every open of the process is accounted for or none is.  In every state reachable by
  configuring, admitting, confirming, retaining and dropping: while a budget is configured every
  live admission holds a reservation and each counter is what the live and the deliberately
  retained reservations hold, within its limit; while none is configured the pending count is
  the number of live unconfirmed opens; and once an unbudgeted open was confirmed (or retained)
  no budget can be configured in that process any more.
\<close>

theorem admissions_all_or_none:
  assumes "admission_step\<^sup>*\<^sup>* admissions_init p"
  shows "case ad_state p of
     Configured b \<Rightarrow> list_all is_budgeted (ad_live p) \<and>
       (\<forall>k. bud_used b k = sum_list (map (\<lambda>h. h k) (held_amounts p)) \<and>
            bud_used b k \<le> counter_limit (bud_limits b) k)
   | Unconfigured n \<Rightarrow> n = length (ad_live p) \<and> set (ad_live p) \<subseteq> {Unbudgeted True}
   | OpenedWithoutBudget \<Rightarrow> list_all (\<lambda>a. \<not> is_budgeted a) (ad_live p) \<and>
       (\<forall>p' l. admission_step\<^sup>*\<^sup>* p p' \<longrightarrow>
          \<not> is_ok (fst (configure_runtime_budget l (ad_state p'))) \<and>
          snd (configure_runtime_budget l (ad_state p')) = OpenedWithoutBudget)"
proof (cases "ad_state p")
  case OpenedWithoutBudget
  have "ad_state p' = OpenedWithoutBudget" if "admission_step\<^sup>*\<^sup>* p p'" for p'
    using settled_steps [OF that OpenedWithoutBudget] .
  then show ?thesis
    using admission_reachable_inv [OF assms] OpenedWithoutBudget
    by (simp add: admission_inv_def configure_runtime_budget_def)
qed (insert admission_reachable_inv [OF assms], auto simp: admission_inv_def within_def)

theorem admissions_all_or_none_witness:
  "\<exists>p. admission_step\<^sup>*\<^sup>* admissions_init p \<and> ad_state p = OpenedWithoutBudget \<and>
     (\<forall>l. \<not> is_ok (fst (configure_runtime_budget l (ad_state p))))"
proof -
  let ?p1 = "admissions_init\<lparr>ad_state := Unconfigured 1, ad_live := ad_live admissions_init @ [Unbudgeted True]\<rparr>"
  let ?p2 = "?p1\<lparr>ad_state := OpenedWithoutBudget, ad_live := (ad_live ?p1)[0 := Unbudgeted False]\<rparr>"
  have "admission_step admissions_init ?p1"
    by (rule admit_ok) (simp add: admissions_init_def admit_runtime_def checked_add_def usize_max_def)
  moreover have "admission_step ?p1 ?p2"
    by (rule confirm) (simp_all add: admissions_init_def confirm_open_def)
  ultimately have r: "admission_step\<^sup>*\<^sup>* admissions_init ?p2" by auto
  have "ad_state ?p2 = OpenedWithoutBudget" by simp
  then have "\<forall>p' l. admission_step\<^sup>*\<^sup>* ?p2 p' \<longrightarrow> \<not> is_ok (fst (configure_runtime_budget l (ad_state p')))"
    using admissions_all_or_none [OF r] by simp
  then have "\<forall>l. \<not> is_ok (fst (configure_runtime_budget l (ad_state ?p2)))" by blast
  then show ?thesis using r by (intro exI [of _ ?p2]) simp
qed

end
