(* ===== verification/Telemetry.thy ===== *)
theory Telemetry
  imports Errors
begin

text \<open>
  The counters of \<^verbatim>\<open>src/src/telemetry.rs\<close>: latencies with their histograms, the admission
  counters of the eight operations, the actor counters (one set per operation and one per
  search worker and search class), the life of a \<open>Ticket\<close> from its admission to its settlement,
  the phases of the writer and the statistics of the current reader snapshot.  Every counter is
  an \<open>AtomicU64\<close> and wraps, so it is a 64-bit word.  Instants and durations are nanoseconds.
\<close>

section \<open>Latencies\<close>

definition OP_NAMES :: "string list" where
  "OP_NAMES = [''applyFrame'', ''commit'', ''publish'', ''reload'', ''close'', ''search'', ''expensiveSearch'', ''trace'']"

definition BOUNDS :: "nat list" where
  "BOUNDS = [1000, 10000, 50000, 100000, 500000, 1000000, 5000000, 10000000, 50000000, 100000000,
     1000000000, 18446744073709551615]"

definition nanos :: "nat \<Rightarrow> nat" where
  "nanos duration = min duration 18446744073709551615"

record latency =
  la_count :: u64
  la_sum :: u64
  la_histogram_count :: u64
  la_histogram_sum :: u64
  la_buckets :: "u64 list"

definition latency_default :: latency where
  "latency_default = \<lparr>la_count = 0, la_sum = 0, la_histogram_count = 0, la_histogram_sum = 0,
     la_buckets = replicate 12 0\<rparr>"

text \<open>\<open>Iterator::position\<close>.\<close>

fun position :: "('a \<Rightarrow> bool) \<Rightarrow> 'a list \<Rightarrow> nat option" where
  "position p [] = None"
| "position p (x # xs) = (if p x then Some 0 else map_option Suc (position p xs))"

definition or_else :: "nat option \<Rightarrow> nat \<Rightarrow> nat" where
  "or_else v d = (case v of None \<Rightarrow> d | Some x \<Rightarrow> x)"

definition bucket_of :: "nat \<Rightarrow> nat" where
  "bucket_of value = or_else (position (\<lambda>bound. value \<le> bound) BOUNDS) (length BOUNDS - 1)"

definition bump :: "nat \<Rightarrow> u64 list \<Rightarrow> u64 list" where
  "bump i xs = xs[i := xs ! i + 1]"

definition latency_record :: "nat \<Rightarrow> bool \<Rightarrow> latency \<Rightarrow> latency" where
  "latency_record duration enabled l =
     (let value = nanos duration;
          l' = l\<lparr>la_count := la_count l + 1, la_sum := la_sum l + of_nat value\<rparr>
      in if enabled
         then l'\<lparr>la_buckets := bump (bucket_of value) (la_buckets l'),
                 la_histogram_count := la_histogram_count l' + 1,
                 la_histogram_sum := la_histogram_sum l' + of_nat value\<rparr>
         else l')"

section \<open>Counters\<close>

record admission_counters =
  ad_attempted :: u64
  ad_accepted :: u64
  ad_rejected :: u64
  ad_request_bytes :: u64

record actor_counters =
  ac_dispatched :: u64
  ac_succeeded :: u64
  ac_failed :: u64
  ac_queue :: latency
  ac_execution :: latency
  ac_errors :: "u64 list"

definition actor_counters_default :: actor_counters where
  "actor_counters_default = \<lparr>ac_dispatched = 0, ac_succeeded = 0, ac_failed = 0,
     ac_queue = latency_default, ac_execution = latency_default,
     ac_errors = replicate (length ERROR_CODES + 1) 0\<rparr>"

definition admission_default :: admission_counters where
  "admission_default = \<lparr>ad_attempted = 0, ad_accepted = 0, ad_rejected = 0, ad_request_bytes = 0\<rparr>"

text \<open>A set of actor counters belongs to an operation or to a worker and one of the three search
  classes; the fixed arrays of the source are functions from these indices.\<close>

datatype cell = Operation nat | Worker nat nat

type_synonym signature = "(nat \<times> u64 option) list"

record reader_stats =
  re_error :: "string option"
  re_available :: bool
  re_documents :: u64
  re_deleted :: u64
  re_segments :: u64
  re_generation :: u64
  re_observed :: "nat option"
  re_duration :: u64
  re_signature :: signature
  re_bytes :: "u64 option"
  re_bytes_observed :: "nat option"
  re_bytes_signature :: "signature option"
  re_bytes_pending :: bool
  re_bytes_error :: "string option"
  re_bytes_duration :: u64

definition reader_stats_default :: reader_stats where
  "reader_stats_default = \<lparr>re_error = None, re_available = False, re_documents = 0, re_deleted = 0,
     re_segments = 0, re_generation = 0, re_observed = None, re_duration = 0, re_signature = [],
     re_bytes = None, re_bytes_observed = None, re_bytes_signature = None, re_bytes_pending = False,
     re_bytes_error = None, re_bytes_duration = 0\<rparr>"

record metrics =
  me_admission :: "nat \<Rightarrow> admission_counters"
  me_mutations :: "nat \<Rightarrow> u64"
  me_actor :: "cell \<Rightarrow> actor_counters"
  me_workers :: nat
  me_histograms :: bool
  me_snapshot_bytes :: bool
  me_state :: u8
  me_teardown_started :: "nat option"
  me_phases :: "nat \<Rightarrow> latency"
  me_phase_succeeded :: "nat \<Rightarrow> u64"
  me_phase_failed :: "nat \<Rightarrow> u64"
  me_reader :: reader_stats

definition metrics_new :: "nat \<Rightarrow> metrics" where
  "metrics_new workers = \<lparr>me_admission = (\<lambda>_. admission_default), me_mutations = (\<lambda>_. 0),
     me_actor = (\<lambda>_. actor_counters_default), me_workers = workers, me_histograms = False,
     me_snapshot_bytes = False, me_state = 0, me_teardown_started = None, me_phases = (\<lambda>_. latency_default),
     me_phase_succeeded = (\<lambda>_. 0), me_phase_failed = (\<lambda>_. 0), me_reader = reader_stats_default\<rparr>"

definition on_admission :: "nat \<Rightarrow> (admission_counters \<Rightarrow> admission_counters) \<Rightarrow> metrics \<Rightarrow> metrics" where
  "on_admission op f m = m\<lparr>me_admission := (me_admission m)(op := f (me_admission m op))\<rparr>"

definition on_actor :: "cell \<Rightarrow> (actor_counters \<Rightarrow> actor_counters) \<Rightarrow> metrics \<Rightarrow> metrics" where
  "on_actor c f m = m\<lparr>me_actor := (me_actor m)(c := f (me_actor m c))\<rparr>"

definition error_index :: "string \<Rightarrow> nat" where
  "error_index error = or_else (position (\<lambda>v. v = error) ERROR_CODES) (length ERROR_CODES)"

definition count_error :: "string \<Rightarrow> actor_counters \<Rightarrow> actor_counters" where
  "count_error error a = a\<lparr>ac_errors := bump (error_index error) (ac_errors a)\<rparr>"

definition attempt_metric :: "nat \<Rightarrow> metrics \<Rightarrow> metrics" where
  "attempt_metric op = on_admission op (\<lambda>a. a\<lparr>ad_attempted := ad_attempted a + 1\<rparr>)"

definition reject_metric :: "nat \<Rightarrow> string \<Rightarrow> metrics \<Rightarrow> metrics" where
  "reject_metric op error m =
     on_actor (Operation op) (count_error error)
       (on_admission op (\<lambda>a. a\<lparr>ad_rejected := ad_rejected a + 1\<rparr>) m)"

text \<open>\<open>actor_values\<close> adds the counters of the workers to those of the operation.\<close>

definition latency_include :: "latency \<Rightarrow> latency \<Rightarrow> latency" where
  "latency_include v source = \<lparr>la_count = la_count v + la_count source, la_sum = la_sum v + la_sum source,
     la_histogram_count = la_histogram_count v + la_histogram_count source,
     la_histogram_sum = la_histogram_sum v + la_histogram_sum source,
     la_buckets = map2 (+) (la_buckets v) (la_buckets source)\<rparr>"

definition actor_include :: "actor_counters \<Rightarrow> actor_counters \<Rightarrow> actor_counters" where
  "actor_include v source = \<lparr>ac_dispatched = ac_dispatched v + ac_dispatched source,
     ac_succeeded = ac_succeeded v + ac_succeeded source, ac_failed = ac_failed v + ac_failed source,
     ac_queue = latency_include (ac_queue v) (ac_queue source),
     ac_execution = latency_include (ac_execution v) (ac_execution source),
     ac_errors = map2 (+) (ac_errors v) (ac_errors source)\<rparr>"

definition cells_of :: "nat \<Rightarrow> nat \<Rightarrow> cell list" where
  "cells_of workers op = Operation op # (if 5 \<le> op \<and> op - 5 < 3 then map (\<lambda>w. Worker w (op - 5)) [0..<workers] else [])"

definition actor_values :: "nat \<Rightarrow> metrics \<Rightarrow> actor_counters" where
  "actor_values op m = foldl actor_include actor_counters_default (map (me_actor m) (cells_of (me_workers m) op))"

section \<open>Tickets\<close>

record ticket =
  ti_operation :: nat
  ti_worker :: "nat option"
  ti_bytes :: u64
  ti_accepted :: bool
  ti_dispatched :: bool
  ti_settled :: bool
  ti_enqueued :: "nat option"
  ti_started :: "nat option"
  ti_execution :: "nat option"

definition ticket_new :: "nat \<Rightarrow> nat \<Rightarrow> ticket" where
  "ticket_new op bytes = \<lparr>ti_operation = op, ti_worker = None, ti_bytes = of_nat bytes, ti_accepted = False,
     ti_dispatched = False, ti_settled = False, ti_enqueued = None, ti_started = None, ti_execution = None\<rparr>"

definition bind_worker :: "nat \<Rightarrow> metrics \<Rightarrow> ticket \<Rightarrow> ticket" where
  "bind_worker worker m t =
     (if ti_worker t = None \<and> \<not> ti_dispatched t \<and> \<not> ti_settled t \<and>
         5 \<le> ti_operation t \<and> ti_operation t < 8 \<and> worker < me_workers m
      then t\<lparr>ti_worker := Some worker\<rparr> else t)"

definition ticket_cell :: "ticket \<Rightarrow> cell" where
  "ticket_cell t = (case ti_worker t of
     None \<Rightarrow> Operation (ti_operation t)
   | Some worker \<Rightarrow> Worker worker (ti_operation t - 5))"

definition arm_at :: "nat \<Rightarrow> ticket \<times> metrics \<Rightarrow> ticket \<times> metrics" where
  "arm_at enqueued s = (case s of (t, m) \<Rightarrow>
     if \<not> ti_accepted t
     then (t\<lparr>ti_accepted := True, ti_enqueued := Some enqueued\<rparr>,
           on_admission (ti_operation t) (\<lambda>a. a\<lparr>ad_accepted := ad_accepted a + 1,
             ad_request_bytes := ad_request_bytes a + ti_bytes t\<rparr>) m)
     else (t, m))"

definition dispatch_ticket :: "ticket \<times> metrics \<Rightarrow> ticket \<times> metrics" where
  "dispatch_ticket s = (case s of (t, m) \<Rightarrow>
     if ti_accepted t \<and> \<not> ti_dispatched t
     then (t\<lparr>ti_dispatched := True\<rparr>,
           on_actor (ticket_cell t) (\<lambda>a. a\<lparr>ac_dispatched := ac_dispatched a + 1\<rparr>) m)
     else (t, m))"

definition record_queue :: "cell \<Rightarrow> nat \<Rightarrow> metrics \<Rightarrow> metrics" where
  "record_queue c duration m =
     on_actor c (\<lambda>a. a\<lparr>ac_queue := latency_record duration (me_histograms m) (ac_queue a)\<rparr>) m"

definition record_execution :: "cell \<Rightarrow> nat \<Rightarrow> metrics \<Rightarrow> metrics" where
  "record_execution c duration m =
     on_actor c (\<lambda>a. a\<lparr>ac_execution := latency_record duration (me_histograms m) (ac_execution a)\<rparr>) m"

definition start_at :: "nat \<Rightarrow> ticket \<times> metrics \<Rightarrow> ticket \<times> metrics" where
  "start_at started s = (case s of (t, m) \<Rightarrow>
     if \<not> ti_accepted t \<or> ti_started t \<noteq> None \<or> ti_settled t then (t, m)
     else (case dispatch_ticket (t, m) of (t, m) \<Rightarrow>
       (t\<lparr>ti_started := Some started\<rparr>,
        (case ti_enqueued t of None \<Rightarrow> m | Some enqueued \<Rightarrow> record_queue (ticket_cell t) (started - enqueued) m))))"

definition finish_at :: "nat \<Rightarrow> ticket \<Rightarrow> ticket" where
  "finish_at finished t =
     (if \<not> ti_settled t \<and> ti_execution t = None
      then t\<lparr>ti_execution := map_option (\<lambda>started. finished - started) (ti_started t)\<rparr> else t)"

definition ticket_mutations :: "u64 \<Rightarrow> ticket \<times> metrics \<Rightarrow> ticket \<times> metrics" where
  "ticket_mutations count s = (case s of (t, m) \<Rightarrow>
     (t, m\<lparr>me_mutations := (me_mutations m)(ti_operation t := me_mutations m (ti_operation t) + count)\<rparr>))"

text \<open>\<open>settle\<close> at the instant \<open>now\<close>; dropping a ticket settles it with \<open>E_CLOSED\<close>.\<close>

definition settle_durations :: "nat \<Rightarrow> ticket \<Rightarrow> metrics \<Rightarrow> metrics" where
  "settle_durations now t m =
     (case (case ti_execution t of Some d \<Rightarrow> Some d | None \<Rightarrow> map_option (\<lambda>started. now - started) (ti_started t)) of
        Some execution \<Rightarrow> record_execution (ticket_cell t) execution m
      | None \<Rightarrow> (case ti_enqueued t of
          Some enqueued \<Rightarrow> record_queue (ticket_cell t) (now - enqueued) m
        | None \<Rightarrow> m))"

definition settle_ticket :: "nat \<Rightarrow> string option \<Rightarrow> ticket \<times> metrics \<Rightarrow> ticket \<times> metrics" where
  "settle_ticket now error s = (case s of (t, m) \<Rightarrow>
     if ti_settled t then (t, m)
     else
       let t' = t\<lparr>ti_settled := True\<rparr>; c = ticket_cell t in
       if \<not> ti_accepted t then (t', m)
       else
         let m = (if ti_dispatched t then on_actor c (\<lambda>a. a\<lparr>ac_dispatched := ac_dispatched a - 1\<rparr>) m else m);
             m = settle_durations now t m;
             m = on_actor c (\<lambda>a. if error = None then a\<lparr>ac_succeeded := ac_succeeded a + 1\<rparr>
                                   else a\<lparr>ac_failed := ac_failed a + 1\<rparr>) m
         in (t', case error of None \<Rightarrow> m | Some e \<Rightarrow> on_actor c (count_error e) m))"

definition drop_ticket :: "nat \<Rightarrow> ticket \<times> metrics \<Rightarrow> ticket \<times> metrics" where
  "drop_ticket now s = settle_ticket now (Some ''E_CLOSED'') s"

section \<open>Histograms\<close>

lemma position_Some: "position p xs = Some i \<Longrightarrow> i < length xs \<and> p (xs ! i) \<and> (\<forall>j<i. \<not> p (xs ! j))"
  by (induction xs arbitrary: i) (auto split: if_splits simp: less_Suc_eq_0_disj)

lemma position_None: "position p xs = None \<longleftrightarrow> (\<forall>x\<in>set xs. \<not> p x)"
  by (induction xs) auto

lemma bucket_of_least:
  "bucket_of (nanos d) < 12 \<and> nanos d \<le> BOUNDS ! bucket_of (nanos d) \<and> (\<forall>j < bucket_of (nanos d). BOUNDS ! j < nanos d)"
proof -
  have "\<exists>x\<in>set BOUNDS. nanos d \<le> x" by (simp add: BOUNDS_def nanos_def)
  then obtain i where i: "position (\<lambda>bound. nanos d \<le> bound) BOUNDS = Some i"
    using position_None [of "\<lambda>bound. nanos d \<le> bound" BOUNDS] by (cases "position (\<lambda>bound. nanos d \<le> bound) BOUNDS") auto
  have "length BOUNDS = 12" by (simp add: BOUNDS_def)
  then show ?thesis using position_Some [OF i] by (auto simp: bucket_of_def or_else_def i not_le)
qed

lemma length_bump [simp]: "length (bump i xs) = length xs"
  by (simp add: bump_def)

lemma sum_bump: "i < length xs \<Longrightarrow> sum_list (bump i xs) = sum_list xs + (1 :: u64)"
proof (induction xs arbitrary: i)
  case (Cons x xs)
  then show ?case by (cases i) (simp_all add: bump_def)
qed simp

lemma sum_list_zeros [simp]: "sum_list (replicate n (0 :: u64)) = 0"
  by (simp add: sum_list_replicate)

definition latency_ok :: "latency \<Rightarrow> bool" where
  "latency_ok l \<longleftrightarrow> length (la_buckets l) = 12 \<and> sum_list (la_buckets l) = la_histogram_count l"

lemma latency_ok_default [simp]: "latency_ok latency_default"
  by (simp add: latency_ok_def latency_default_def)

lemma latency_ok_record [simp]: "latency_ok l \<Longrightarrow> latency_ok (latency_record d enabled l)"
  using bucket_of_least [of d] by (simp add: latency_ok_def latency_record_def Let_def sum_bump)

definition record_all :: "(nat \<times> bool) list \<Rightarrow> latency" where
  "record_all ds = foldl (\<lambda>l (d, enabled). latency_record d enabled l) latency_default ds"

text \<open>
  A latency is the exact summary of what was recorded. After any sequence of recordings,
  with the histogram switched on for some of them, the count is their number, the sum their total
  (both modulo 2 to the 64, each duration capped), and bucket \<open>i\<close> counts the enabled durations that are
  at most bound \<open>i\<close> and above the bound before it, so that the buckets add up to the histogram
  count.
\<close>

theorem latency_summary:
  "la_count (record_all ds) = of_nat (length ds) \<and>
   la_sum (record_all ds) = of_nat (sum_list (map (nanos \<circ> fst) ds)) \<and>
   la_histogram_count (record_all ds) = of_nat (length (filter snd ds)) \<and>
   la_histogram_sum (record_all ds) = of_nat (sum_list (map (nanos \<circ> fst) (filter snd ds))) \<and>
   sum_list (la_buckets (record_all ds)) = la_histogram_count (record_all ds) \<and>
   (\<forall>i<12. la_buckets (record_all ds) ! i = of_nat (length (filter (\<lambda>(d, enabled). enabled \<and>
      nanos d \<le> BOUNDS ! i \<and> (\<forall>j<i. BOUNDS ! j < nanos d)) ds)))"
proof (induction ds rule: rev_induct)
  case Nil
  show ?case by (simp add: record_all_def latency_default_def)
next
  case (snoc x ds)
  obtain d enabled where x: "x = (d, enabled)" by (cases x)
  let ?b = "bucket_of (nanos d)"
  have step: "record_all (ds @ [x]) = latency_record d enabled (record_all ds)"
    by (simp add: record_all_def x)
  have ok: "latency_ok (record_all es)" for es
    by (induction es rule: rev_induct) (auto simp: record_all_def split: prod.splits)
  have b: "nanos d \<le> BOUNDS ! i \<and> (\<forall>j<i. BOUNDS ! j < nanos d) \<longleftrightarrow> i = ?b" if "i < 12" for i
    using bucket_of_least [of d] by (metis leD linorder_neqE_nat)
  show ?case
    using snoc.IH ok [of ds] ok [of "ds @ [x]"] bucket_of_least [of d] b
    unfolding step by (auto simp: x latency_record_def Let_def bump_def latency_ok_def nth_list_update)
qed

lemma latency_summary_witness:
  "la_buckets (record_all [(500, True), (70000, False), (20000, True)]) ! bucket_of 500 = 1 \<and>
   la_count (record_all [(500, True), (70000, False), (20000, True)]) = 3"
proof -
  have i: "bucket_of 500 < 12" "nanos 500 \<le> BOUNDS ! bucket_of 500" "BOUNDS ! bucket_of 500 < nanos 20000"
    by (simp_all add: bucket_of_def BOUNDS_def nanos_def or_else_def)
  have "\<forall>j<bucket_of 500. BOUNDS ! j < nanos 500"
    by (simp add: bucket_of_def BOUNDS_def nanos_def or_else_def)
  then show ?thesis
    using latency_summary [of "[(500, True), (70000, False), (20000, True)]"] i by simp
qed

section \<open>Nothing is lost between admission and settlement\<close>

definition of_flag :: "bool \<Rightarrow> u64" where
  "of_flag b = (if b then 1 else 0)"

definition in_flight :: "nat \<Rightarrow> ticket \<Rightarrow> bool" where
  "in_flight op t \<longleftrightarrow> ti_operation t = op \<and> ti_accepted t \<and> \<not> ti_settled t"

definition on_gauge :: "cell \<Rightarrow> ticket \<Rightarrow> bool" where
  "on_gauge c t \<longleftrightarrow> ticket_cell t = c \<and> ti_accepted t \<and> ti_dispatched t \<and> \<not> ti_settled t"

definition completed :: "actor_counters \<Rightarrow> u64" where
  "completed a = ac_succeeded a + ac_failed a"

definition total_completed :: "nat \<Rightarrow> metrics \<Rightarrow> u64" where
  "total_completed op m = (\<Sum>c\<in>set (cells_of (me_workers m) op). completed (me_actor m c))"

definition rejected_at :: "cell \<Rightarrow> metrics \<Rightarrow> u64" where
  "rejected_at c m = (case c of Operation op \<Rightarrow> ad_rejected (me_admission m op) | Worker _ _ \<Rightarrow> 0)"

definition ticket_wf :: "nat \<Rightarrow> ticket \<Rightarrow> bool" where
  "ticket_wf workers t \<longleftrightarrow> (ti_dispatched t \<longrightarrow> ti_accepted t) \<and>
     (\<forall>w. ti_worker t = Some w \<longrightarrow> w < workers \<and> 5 \<le> ti_operation t \<and> ti_operation t < 8)"

text \<open>What one ticket contributes is taken off the counters; the rest does not change while the
  ticket lives its life.\<close>

definition gauge_rest :: "ticket \<times> metrics \<Rightarrow> cell \<Rightarrow> u64" where
  "gauge_rest s c = ac_dispatched (me_actor (snd s) c) - of_flag (on_gauge c (fst s))"

definition flight_rest :: "ticket \<times> metrics \<Rightarrow> nat \<Rightarrow> u64" where
  "flight_rest s op = ad_accepted (me_admission (snd s) op) - total_completed op (snd s) - of_flag (in_flight op (fst s))"

definition errors_exact :: "metrics \<Rightarrow> bool" where
  "errors_exact m \<longleftrightarrow> (\<forall>c. length (ac_errors (me_actor m c)) = length ERROR_CODES + 1 \<and>
     sum_list (ac_errors (me_actor m c)) = ac_failed (me_actor m c) + rejected_at c m)"

definition same_rest :: "ticket \<times> metrics \<Rightarrow> ticket \<times> metrics \<Rightarrow> bool" where
  "same_rest s s' \<longleftrightarrow> gauge_rest s' = gauge_rest s \<and> flight_rest s' = flight_rest s \<and>
     (errors_exact (snd s) \<longrightarrow> errors_exact (snd s')) \<and> me_workers (snd s') = me_workers (snd s) \<and>
     (ticket_wf (me_workers (snd s)) (fst s) \<longrightarrow> ticket_wf (me_workers (snd s)) (fst s'))"

lemma finite_cells [simp]: "finite (set (cells_of w op))"
  by simp

lemma sum_fun_upd_group:
  fixes g :: "'b \<Rightarrow> u64"
  assumes "finite A"
  shows "(\<Sum>c\<in>A. g ((h(c0 := v)) c)) = (\<Sum>c\<in>A. g (h c)) + (if c0 \<in> A then g v - g (h c0) else 0)"
proof (cases "c0 \<in> A")
  case True
  have "(\<Sum>c\<in>A - {c0}. g ((h(c0 := v)) c)) = (\<Sum>c\<in>A - {c0}. g (h c))" by (rule sum.cong) auto
  then show ?thesis using True assms by (simp add: sum.remove [of A c0])
next
  case False
  then have "(\<Sum>c\<in>A. g ((h(c0 := v)) c)) = (\<Sum>c\<in>A. g (h c))" by (intro sum.cong) auto
  then show ?thesis using False by simp
qed

lemma on_actor_simps [simp]:
  "me_actor (on_actor c f m) = (me_actor m)(c := f (me_actor m c))" "me_workers (on_actor c f m) = me_workers m"
  "me_admission (on_actor c f m) = me_admission m" "me_histograms (on_actor c f m) = me_histograms m"
  "me_actor (on_admission op g m) = me_actor m" "me_workers (on_admission op g m) = me_workers m"
  "me_admission (on_admission op g m) = (me_admission m)(op := g (me_admission m op))"
  "rejected_at d (on_actor c f m) = rejected_at d m"
  by (simp_all add: on_actor_def on_admission_def rejected_at_def cong: cell.case_cong)

lemma total_on_actor:
  "total_completed op (on_actor c f m) = total_completed op m +
     (if c \<in> set (cells_of (me_workers m) op) then completed (f (me_actor m c)) - completed (me_actor m c) else 0)"
  unfolding total_completed_def on_actor_simps by (rule sum_fun_upd_group) simp

lemma total_on_admission [simp]: "total_completed op (on_admission o' g m) = total_completed op m"
  by (simp add: total_completed_def)

lemma ticket_cell_in_cells:
  "ticket_wf (me_workers m) t \<Longrightarrow> ticket_cell t \<in> set (cells_of (me_workers m) op) \<longleftrightarrow> ti_operation t = op"
  by (auto simp: ticket_wf_def ticket_cell_def cells_of_def split: option.splits)

lemma same_rest_refl [simp]: "same_rest s s"
  by (simp add: same_rest_def)

lemma same_rest_trans: "same_rest s s' \<Longrightarrow> same_rest s' s'' \<Longrightarrow> same_rest s s''"
  by (auto simp: same_rest_def)

text \<open>An update of actor counters that leaves the gauge, the completions and the errors alone.\<close>

definition neutral :: "(actor_counters \<Rightarrow> actor_counters) \<Rightarrow> bool" where
  "neutral f \<longleftrightarrow> (\<forall>a. ac_dispatched (f a) = ac_dispatched a \<and> ac_succeeded (f a) = ac_succeeded a \<and>
     ac_failed (f a) = ac_failed a \<and> ac_errors (f a) = ac_errors a)"

lemma same_rest_neutral: "neutral f \<Longrightarrow> same_rest (t, m) (t, on_actor c f m)"
  by (auto simp: same_rest_def gauge_rest_def flight_rest_def errors_exact_def total_on_actor neutral_def completed_def fun_eq_iff)

lemma record_queue_rest: "same_rest (t, m) (t, record_queue c d m)"
  unfolding record_queue_def by (rule same_rest_neutral) (simp add: neutral_def)

lemma record_execution_rest: "same_rest (t, m) (t, record_execution c d m)"
  unfolding record_execution_def by (rule same_rest_neutral) (simp add: neutral_def)

lemma ticket_cell_simps [simp]:
  "ticket_cell (t\<lparr>ti_accepted := b\<rparr>) = ticket_cell t" "ticket_cell (t\<lparr>ti_dispatched := b\<rparr>) = ticket_cell t"
  "ticket_cell (t\<lparr>ti_settled := b\<rparr>) = ticket_cell t" "ticket_cell (t\<lparr>ti_enqueued := x\<rparr>) = ticket_cell t"
  "ticket_cell (t\<lparr>ti_started := x\<rparr>) = ticket_cell t" "ticket_cell (t\<lparr>ti_execution := x\<rparr>) = ticket_cell t"
  by (simp_all add: ticket_cell_def split: option.split)

lemmas rest_defs = same_rest_def gauge_rest_def flight_rest_def on_gauge_def in_flight_def of_flag_def
  ticket_wf_def fun_eq_iff

lemma bind_worker_rest: "same_rest (t, m) (bind_worker w m t, m)"
  by (auto simp: same_rest_def gauge_rest_def flight_rest_def bind_worker_def on_gauge_def in_flight_def
      ticket_wf_def fun_eq_iff)

lemma arm_rest: "\<not> ti_settled t \<Longrightarrow> ticket_wf w t \<Longrightarrow> same_rest (t, m) (arm_at now (t, m))"
  by (auto simp: rest_defs arm_at_def errors_exact_def rejected_at_def split: cell.splits)

lemma dispatch_rest: "\<not> ti_settled t \<Longrightarrow> same_rest (t, m) (dispatch_ticket (t, m))"
  by (auto simp: rest_defs dispatch_ticket_def errors_exact_def total_on_actor completed_def)

lemma start_rest: "same_rest (t, m) (start_at now (t, m))"
proof (cases "\<not> ti_accepted t \<or> ti_started t \<noteq> None \<or> ti_settled t")
  case False
  obtain t' m' where d: "dispatch_ticket (t, m) = (t', m')" by (cases "dispatch_ticket (t, m)")
  have "same_rest (t, m) (t', m')" using dispatch_rest [of t m] False d by simp
  also have "same_rest (t', m') (t', case ti_enqueued t' of None \<Rightarrow> m' |
      Some enqueued \<Rightarrow> record_queue (ticket_cell t') (now - enqueued) m')" (is "same_rest _ (t', ?m)")
    by (auto simp: record_queue_rest split: option.splits)
  finally (same_rest_trans) have "same_rest (t, m) (t', ?m)" .
  moreover have "same_rest (t', ?m) (t'\<lparr>ti_started := Some now\<rparr>, ?m)"
    by (simp add: rest_defs)
  ultimately have "same_rest (t, m) (t'\<lparr>ti_started := Some now\<rparr>, ?m)" by (rule same_rest_trans)
  then show ?thesis using False d by (simp add: start_at_def)
qed (simp add: start_at_def)

lemma finish_rest: "same_rest (t, m) (finish_at now t, m)"
  by (auto simp: rest_defs finish_at_def)

lemma mutations_rest: "same_rest (t, m) (ticket_mutations n (t, m))"
  by (simp add: rest_defs ticket_mutations_def errors_exact_def total_completed_def rejected_at_def cong: cell.case_cong)

lemma settle_durations_rest: "same_rest (t, m) (t, settle_durations now t m)"
  by (auto simp: settle_durations_def record_queue_rest record_execution_rest split: option.splits)

lemma error_index_bound: "error_index e < length ERROR_CODES + 1"
  using position_Some [of "\<lambda>v. v = e" ERROR_CODES]
  by (auto simp: error_index_def or_else_def split: option.splits)

lemma settle_rest:
  assumes "ticket_wf (me_workers m) t"
  shows "same_rest (t, m) (settle_ticket now error (t, m))"
proof (cases "ti_settled t \<or> \<not> ti_accepted t")
  case True
  then show ?thesis
    by (auto simp: settle_ticket_def rest_defs Let_def)
next
  case False
  let ?c = "ticket_cell t"
  let ?t = "t\<lparr>ti_settled := True\<rparr>"
  let ?gauge = "\<lambda>a. if ti_dispatched t then a\<lparr>ac_dispatched := ac_dispatched a - 1\<rparr> else a"
  let ?result = "\<lambda>a. case error of None \<Rightarrow> a\<lparr>ac_succeeded := ac_succeeded a + 1\<rparr>
    | Some e \<Rightarrow> count_error e (a\<lparr>ac_failed := ac_failed a + 1\<rparr>)"
  let ?m1 = "settle_durations now t (on_actor ?c ?gauge m)"
  have two: "on_actor c f (on_actor c g x) = on_actor c (\<lambda>a. f (g a)) x" for c f g x
    by (simp add: on_actor_def)
  have cond: "(if b then on_actor c f x else x) = on_actor c (\<lambda>a. if b then f a else a) x" for b c f x
    by (simp add: on_actor_def)
  have eq: "settle_ticket now error (t, m) = (?t, on_actor ?c ?result ?m1)"
    using False by (auto simp: settle_ticket_def Let_def cond two split: option.splits)
  have "same_rest (t, on_actor ?c ?gauge m) (t, ?m1)" by (rule settle_durations_rest)
  moreover from assms have cell: "?c \<in> set (cells_of (me_workers m) op) \<longleftrightarrow> ti_operation t = op" for op
    by (rule ticket_cell_in_cells)
  ultimately show ?thesis
    unfolding eq using False assms error_index_bound
    by (auto simp: rest_defs errors_exact_def total_on_actor completed_def count_error_def sum_bump split: option.splits)
qed

inductive ticket_event :: "ticket \<times> metrics \<Rightarrow> ticket \<times> metrics \<Rightarrow> bool" where
  bound: "ticket_event (t, m) (bind_worker w m t, m)"
| armed: "\<not> ti_settled t \<Longrightarrow> ticket_event (t, m) (arm_at now (t, m))"
| dispatched: "\<not> ti_settled t \<Longrightarrow> ticket_event (t, m) (dispatch_ticket (t, m))"
| started: "ticket_event (t, m) (start_at now (t, m))"
| finished: "ticket_event (t, m) (finish_at now t, m)"
| mutated: "ticket_event (t, m) (ticket_mutations n (t, m))"
| settled: "ticket_event (t, m) (settle_ticket now error (t, m))"

text \<open>
  Any number of tickets at the same time, in any interleaving.  \<open>Completion\<close> consumes itself when
  it settles, so a settled ticket is neither armed nor dispatched again; a dropped one is settled.
\<close>

record telemetry =
  te_metrics :: metrics
  te_live :: "ticket list"

inductive telemetry_step :: "telemetry \<Rightarrow> telemetry \<Rightarrow> bool" where
  attempted: "telemetry_step s (s\<lparr>te_metrics := attempt_metric op (te_metrics s)\<rparr>)"
| rejected: "telemetry_step s (s\<lparr>te_metrics := reject_metric op error (te_metrics s)\<rparr>)"
| opened: "telemetry_step s (s\<lparr>te_live := te_live s @ [ticket_new op bytes]\<rparr>)"
| event: "i < length (te_live s) \<Longrightarrow> ticket_event (te_live s ! i, te_metrics s) (t, m) \<Longrightarrow>
    telemetry_step s (s\<lparr>te_metrics := m, te_live := (te_live s)[i := t]\<rparr>)"
| dropped: "i < length (te_live s) \<Longrightarrow> drop_ticket now (te_live s ! i, te_metrics s) = (t, m) \<Longrightarrow>
    telemetry_step s (s\<lparr>te_metrics := m, te_live := take i (te_live s) @ drop (Suc i) (te_live s)\<rparr>)"
| switched: "telemetry_step s (s\<lparr>te_metrics := (te_metrics s)\<lparr>me_histograms := h\<rparr>\<rparr>)"

inductive_cases telemetry_step_cases: "telemetry_step s s'"

definition telemetry_new :: "nat \<Rightarrow> telemetry" where
  "telemetry_new workers = \<lparr>te_metrics = metrics_new workers, te_live = []\<rparr>"

definition tally :: "(ticket \<Rightarrow> bool) \<Rightarrow> ticket list \<Rightarrow> u64" where
  "tally P ts = (\<Sum>t\<leftarrow>ts. of_flag (P t))"

definition telemetry_inv :: "telemetry \<Rightarrow> bool" where
  "telemetry_inv s \<longleftrightarrow>
     (\<forall>c. ac_dispatched (me_actor (te_metrics s) c) = tally (on_gauge c) (te_live s)) \<and>
     (\<forall>op. ad_accepted (me_admission (te_metrics s) op) = total_completed op (te_metrics s) + tally (in_flight op) (te_live s)) \<and>
     errors_exact (te_metrics s) \<and> (\<forall>t\<in>set (te_live s). ticket_wf (me_workers (te_metrics s)) t)"

lemma tally_simps [simp]:
  "tally P [] = 0" "tally P (t # ts) = of_flag (P t) + tally P ts" "tally P (ts @ us) = tally P ts + tally P us"
  by (simp_all add: tally_def)

lemma tally_length: "tally P ts = of_nat (length (filter P ts))"
  by (induction ts) (simp_all add: of_flag_def)

lemma tally_split: "i < length ts \<Longrightarrow> tally P ts = tally P (take i ts) + of_flag (P (ts ! i)) + tally P (drop (Suc i) ts)"
  by (metis append_take_drop_id Cons_nth_drop_Suc add.assoc tally_simps(2,3))

lemma tally_update: "i < length ts \<Longrightarrow> tally P (ts[i := t]) = tally P ts - of_flag (P (ts ! i)) + of_flag (P t)"
  by (simp add: upd_conv_take_nth_drop tally_split [of i ts])

lemma ticket_event_rest:
  assumes "ticket_event (t, m) s'" "ticket_wf (me_workers m) t"
  shows "same_rest (t, m) s'"
  using assms(1)
  by (cases rule: ticket_event.cases)
    (insert assms(2), auto intro: bind_worker_rest arm_rest dispatch_rest start_rest finish_rest mutations_rest settle_rest)

lemma replace_inv:
  assumes "telemetry_inv s" "i < length (te_live s)" "same_rest (te_live s ! i, te_metrics s) (t, m)"
  shows "telemetry_inv (s\<lparr>te_metrics := m, te_live := (te_live s)[i := t]\<rparr>)"
proof -
  have wf: "ticket_wf (me_workers (te_metrics s)) (te_live s ! i)"
    using assms(1,2) by (simp add: telemetry_inv_def)
  have "set ((te_live s)[i := t]) \<subseteq> insert t (set (te_live s))" by (rule set_update_subset_insert)
  then show ?thesis
    using assms wf
    by (auto simp: telemetry_inv_def same_rest_def gauge_rest_def flight_rest_def fun_eq_iff tally_update algebra_simps)
qed

lemma settled_nothing:
  "fst (settle_ticket now e (t, m)) = t\<lparr>ti_settled := True\<rparr>"
  by (auto simp: settle_ticket_def Let_def)

lemma telemetry_inv_step:
  assumes "telemetry_step s s'" "telemetry_inv s"
  shows "telemetry_inv s'"
  using assms(1)
proof cases
  case (attempted op)
  then show ?thesis
    using assms(2) by (auto simp: telemetry_inv_def attempt_metric_def errors_exact_def rejected_at_def split: cell.splits)
next
  case (rejected op error)
  then show ?thesis
    using assms(2) error_index_bound [of error]
    by (auto simp: telemetry_inv_def reject_metric_def errors_exact_def rejected_at_def total_on_actor
        count_error_def completed_def sum_bump split: cell.splits)
next
  case (opened op bytes)
  then show ?thesis
    using assms(2)
    by (auto simp: telemetry_inv_def ticket_new_def on_gauge_def in_flight_def ticket_wf_def of_flag_def)
next
  case (event i t m)
  have "ticket_wf (me_workers (te_metrics s)) (te_live s ! i)"
    using assms(2) event(2) by (simp add: telemetry_inv_def)
  then have "same_rest (te_live s ! i, te_metrics s) (t, m)" using event(3) by (intro ticket_event_rest)
  then show ?thesis unfolding event(1) using assms(2) event(2) by (intro replace_inv)
next
  case (dropped i now t m)
  have "ticket_wf (me_workers (te_metrics s)) (te_live s ! i)"
    using assms(2) dropped(2) by (simp add: telemetry_inv_def)
  then have "same_rest (te_live s ! i, te_metrics s) (t, m)"
    using settle_rest [of "te_metrics s" "te_live s ! i" now "Some ''E_CLOSED''"] dropped(3) by (simp add: drop_ticket_def)
  then have inv: "telemetry_inv (s\<lparr>te_metrics := m, te_live := (te_live s)[i := t]\<rparr>)"
    using assms(2) dropped(2) by (rule_tac replace_inv)
  have t: "ti_settled t"
    using settled_nothing [of now "Some ''E_CLOSED''" "te_live s ! i" "te_metrics s"] dropped(3)
    by (simp add: drop_ticket_def)
  have "tally P ((te_live s)[i := t]) = tally P (take i (te_live s) @ drop (Suc i) (te_live s))" if "\<not> P t" for P
    using dropped(2) that by (simp add: upd_conv_take_nth_drop of_flag_def)
  moreover have "\<not> on_gauge c t" "\<not> in_flight op t" for c op
    using t by (simp_all add: on_gauge_def in_flight_def)
  moreover have "set (take i (te_live s) @ drop (Suc i) (te_live s)) \<subseteq> set ((te_live s)[i := t])"
    using dropped(2) by (auto simp: upd_conv_take_nth_drop)
  ultimately show ?thesis
    using inv unfolding dropped(1) by (auto simp: telemetry_inv_def)
next
  case (switched h)
  then show ?thesis
    using assms(2)
    by (simp add: telemetry_inv_def errors_exact_def total_completed_def rejected_at_def cong: cell.case_cong)
qed

lemma telemetry_inv_new: "telemetry_inv (telemetry_new workers)"
  by (simp add: telemetry_inv_def telemetry_new_def metrics_new_def errors_exact_def total_completed_def completed_def
      actor_counters_default_def admission_default_def rejected_at_def ERROR_CODES_def split: cell.splits)

lemma foldl_actor_include:
  "ac_dispatched (foldl actor_include v xs) = ac_dispatched v + (\<Sum>a\<leftarrow>xs. ac_dispatched a)"
  "ac_succeeded (foldl actor_include v xs) = ac_succeeded v + (\<Sum>a\<leftarrow>xs. ac_succeeded a)"
  "ac_failed (foldl actor_include v xs) = ac_failed v + (\<Sum>a\<leftarrow>xs. ac_failed a)"
  by (induction xs arbitrary: v) (simp_all add: actor_include_def)

lemma sum_list_map2_plus:
  "length xs = length ys \<Longrightarrow> sum_list (map2 (+) xs ys) = sum_list xs + sum_list (ys :: u64 list)"
  by (induction xs ys rule: list_induct2) simp_all

lemma foldl_actor_errors:
  "length (ac_errors v) = n \<Longrightarrow> \<forall>a\<in>set xs. length (ac_errors a) = n \<Longrightarrow>
   sum_list (ac_errors (foldl actor_include v xs)) = sum_list (ac_errors v) + (\<Sum>a\<leftarrow>xs. sum_list (ac_errors a))"
  by (induction xs arbitrary: v) (simp_all add: actor_include_def sum_list_map2_plus)

lemma distinct_cells: "distinct (cells_of w op)"
  by (auto simp: cells_of_def distinct_map inj_on_def)

lemma sum_cells: "(\<Sum>c\<leftarrow>cells_of w op. g c) = (\<Sum>c\<in>set (cells_of w op). (g c :: u64))"
  by (simp add: sum_list_distinct_conv_sum_set distinct_cells)

lemma completed_values: "ac_succeeded (actor_values op m) + ac_failed (actor_values op m) = total_completed op m"
  by (simp add: actor_values_def foldl_actor_include actor_counters_default_def comp_def total_completed_def completed_def
      sum_list_addf flip: sum_cells)

lemma errors_values:
  assumes "errors_exact m"
  shows "sum_list (ac_errors (actor_values op m)) = ac_failed (actor_values op m) + ad_rejected (me_admission m op)"
proof -
  have "(\<Sum>c\<leftarrow>cells_of (me_workers m) op. rejected_at c m) = ad_rejected (me_admission m op)"
    by (simp add: cells_of_def rejected_at_def comp_def)
  moreover have "sum_list (ac_errors (actor_values op m)) =
      (\<Sum>c\<leftarrow>cells_of (me_workers m) op. ac_failed (me_actor m c) + rejected_at c m)"
    using assms unfolding actor_values_def
    by (subst foldl_actor_errors [where n = "length ERROR_CODES + 1"])
      (auto simp: actor_counters_default_def comp_def errors_exact_def intro!: arg_cong [of _ _ sum_list])
  ultimately show ?thesis
    by (simp add: actor_values_def foldl_actor_include actor_counters_default_def comp_def sum_list_addf)
qed



section \<open>Phases of the writer\<close>

definition phase_metric :: "nat \<Rightarrow> nat \<Rightarrow> bool \<Rightarrow> metrics \<Rightarrow> metrics" where
  "phase_metric phase duration success m =
     (let m = (if success
          then m\<lparr>me_phase_succeeded := (me_phase_succeeded m)(phase := me_phase_succeeded m phase + 1)\<rparr>
          else m\<lparr>me_phase_failed := (me_phase_failed m)(phase := me_phase_failed m phase + 1)\<rparr>)
      in m\<lparr>me_phases := (me_phases m)(phase := latency_record duration (me_histograms m) (me_phases m phase))\<rparr>)"

definition begin_teardown_at :: "nat \<Rightarrow> metrics \<Rightarrow> metrics" where
  "begin_teardown_at started m = m\<lparr>me_teardown_started :=
     Some (case me_teardown_started m of Some first \<Rightarrow> first | None \<Rightarrow> started)\<rparr>"

definition finish_teardown_at :: "nat \<Rightarrow> bool \<Rightarrow> metrics \<Rightarrow> metrics" where
  "finish_teardown_at finished success m = (case me_teardown_started m of
     None \<Rightarrow> m
   | Some started \<Rightarrow> phase_metric 2 (finished - started) success (m\<lparr>me_teardown_started := None\<rparr>))"

text \<open>\<open>observe_phase\<close> of \<^verbatim>\<open>native.rs\<close>; the panic of the phase is resumed, so the outcome is kept.\<close>

definition observe_phase :: "nat \<Rightarrow> nat \<Rightarrow> 'a res unwind \<Rightarrow> metrics \<Rightarrow> 'a res unwind \<times> metrics" where
  "observe_phase phase duration outcome m =
     (outcome, phase_metric phase duration (case outcome of Returned (Ok _) \<Rightarrow> True | _ \<Rightarrow> False) m)"

text \<open>\<open>observe_operation\<close>: \<open>run\<close> acts on the metrics through the ticket it makes.\<close>

definition observe_operation :: "nat \<Rightarrow> (metrics \<Rightarrow> unit res unwind \<times> metrics) \<Rightarrow> metrics \<Rightarrow> unit res \<times> metrics" where
  "observe_operation op run m =
     (case run (attempt_metric op m) of
        (Returned (Ok ()), m) \<Rightarrow> (Ok (), m)
      | (Returned (Err e), m) \<Rightarrow> (Err e, reject_metric op (err_code e) m)
      | (Panicked, m) \<Rightarrow> (Err panic_error, reject_metric op ''E_NATIVE_PANIC'' m))"

section \<open>Statistics of the reader snapshot\<close>

record reader_values =
  rv_documents :: u64
  rv_deleted :: u64
  rv_segments :: u64
  rv_generation :: u64
  rv_signature :: signature

text \<open>An observation without values is one whose preparation panicked.\<close>

record reader_observation =
  ro_values :: "reader_values option"
  ro_duration :: u64

definition install_values :: "nat \<Rightarrow> u64 \<Rightarrow> bool \<Rightarrow> reader_values \<Rightarrow> reader_stats \<Rightarrow> reader_stats" where
  "install_values now duration snapshot_bytes v r =
     (let r = r\<lparr>re_available := True, re_error := None, re_documents := rv_documents v, re_deleted := rv_deleted v,
            re_segments := rv_segments v, re_generation := rv_generation v, re_observed := Some now,
            re_duration := duration\<rparr>;
          r = (if re_bytes_signature r \<noteq> Some (rv_signature v)
               then r\<lparr>re_bytes := None, re_bytes_observed := None, re_bytes_signature := None, re_bytes_error := None\<rparr>
               else r)
      in r\<lparr>re_bytes_pending := (snapshot_bytes \<and> re_bytes_signature r \<noteq> Some (rv_signature v)),
           re_signature := rv_signature v\<rparr>)"

definition install_reader :: "nat \<Rightarrow> reader_observation \<Rightarrow> metrics \<Rightarrow> metrics" where
  "install_reader now ob m = m\<lparr>me_reader := (case ro_values ob of
     Some v \<Rightarrow> install_values now (ro_duration ob) (me_snapshot_bytes m) v (me_reader m)
   | None \<Rightarrow> (me_reader m)\<lparr>re_error := Some ''E_NATIVE_PANIC''\<rparr>)\<rparr>"

text \<open>
  \<open>observe_bytes\<close> releases the lock while it measures the searcher: \<open>observe_bytes_begin\<close> is what
  happens before (the signature it will compare with, or nothing to do) and \<open>observe_bytes_end\<close>
  what happens with the measurement, an error of the storage or a panic.
\<close>

definition observe_bytes_begin :: "metrics \<Rightarrow> signature option" where
  "observe_bytes_begin m =
     (if \<not> me_snapshot_bytes m then None
      else if re_bytes_signature (me_reader m) = Some (re_signature (me_reader m)) then None
      else Some (re_signature (me_reader m)))"

definition observe_bytes_end :: "nat \<Rightarrow> u64 \<Rightarrow> signature \<Rightarrow> u64 option unwind \<Rightarrow> metrics \<Rightarrow> metrics" where
  "observe_bytes_end now duration signature outcome m =
     (let r = me_reader m in
      if re_signature r \<noteq> signature then m
      else
        let r = r\<lparr>re_bytes_pending := False, re_bytes_duration := duration\<rparr> in
        m\<lparr>me_reader := (case outcome of
            Returned (Some bytes) \<Rightarrow> r\<lparr>re_bytes := Some bytes, re_bytes_observed := Some now,
              re_bytes_signature := Some signature, re_bytes_error := None\<rparr>
          | Returned None \<Rightarrow> r\<lparr>re_bytes_error := Some ''E_STORAGE''\<rparr>
          | Panicked \<Rightarrow> r\<lparr>re_bytes_error := Some ''E_NATIVE_PANIC''\<rparr>)\<rparr>)"

definition configure_metrics :: "bool \<Rightarrow> bool \<Rightarrow> metrics \<Rightarrow> metrics" where
  "configure_metrics histograms bytes m =
     (let m = m\<lparr>me_histograms := histograms, me_snapshot_bytes := bytes\<rparr>;
          r = me_reader m
      in m\<lparr>me_reader := r\<lparr>re_bytes_pending := (bytes \<and> re_bytes_signature r \<noteq> Some (re_signature r))\<rparr>\<rparr>)"

text \<open>
  Observers, installations and configurations in any interleaving.  \<open>usage\<close> is the storage that a
  snapshot with the given segments takes; an observer measures the snapshot it captured.
\<close>

inductive reader_step :: "(signature \<Rightarrow> u64) \<Rightarrow> metrics \<times> signature list \<Rightarrow> metrics \<times> signature list \<Rightarrow> bool"
  for usage :: "signature \<Rightarrow> u64" where
  installed: "reader_step usage (m, obs) (install_reader now ob m, obs)"
| configured: "reader_step usage (m, obs) (configure_metrics h b m, obs)"
| observing: "observe_bytes_begin m = Some sg \<Longrightarrow> reader_step usage (m, obs) (m, sg # obs)"
| observed: "sg \<in> set obs \<Longrightarrow> outcome \<in> {Returned (Some (usage sg)), Returned None, Panicked} \<Longrightarrow>
    reader_step usage (m, obs) (observe_bytes_end now d sg outcome m, remove1 sg obs)"

inductive_cases reader_step_cases: "reader_step usage s s'"

definition reader_inv :: "(signature \<Rightarrow> u64) \<Rightarrow> reader_stats \<Rightarrow> bool" where
  "reader_inv usage r \<longleftrightarrow>
     (case re_bytes_signature r of
        None \<Rightarrow> re_bytes r = None
      | Some sg \<Rightarrow> sg = re_signature r \<and> re_bytes r = Some (usage sg) \<and> \<not> re_bytes_pending r)"

lemma reader_inv_step: "reader_step usage s s' \<Longrightarrow> reader_inv usage (me_reader (fst s)) \<Longrightarrow> reader_inv usage (me_reader (fst s'))"
  by (erule reader_step_cases)
     (auto simp: reader_inv_def install_reader_def install_values_def configure_metrics_def observe_bytes_end_def Let_def
        split: option.splits if_splits unwind.splits)

text \<open>
  The reported size is always that of the snapshot being reported.  Whatever the order in
  which readers are installed, telemetry is configured and slow size measurements finish, if a
  byte size is shown then it was measured for the segments of the current snapshot, and no
  measurement is announced as pending beside it.
\<close>

theorem reader_bytes_current:
  assumes "(reader_step usage)\<^sup>*\<^sup>* (metrics_new workers, []) (m, obs)" "re_bytes (me_reader m) = Some b"
  shows "b = usage (re_signature (me_reader m)) \<and> \<not> re_bytes_pending (me_reader m)"
proof -
  have "reader_inv usage (me_reader (fst (m, obs)))"
    using assms(1)
  proof (induction rule: rtranclp_induct)
    case base
    show ?case by (simp add: reader_inv_def metrics_new_def reader_stats_default_def)
  qed (rule reader_inv_step)
  then show ?thesis using assms(2) by (auto simp: reader_inv_def split: option.splits)
qed

theorem reader_bytes_current_witness:
  "\<exists>m obs. (reader_step (\<lambda>sg. of_nat (length sg) + 7))\<^sup>*\<^sup>* (metrics_new 1, []) (m, obs) \<and>
     re_bytes (me_reader m) = Some 8 \<and> \<not> re_bytes_pending (me_reader m)"
proof -
  let ?u = "\<lambda>sg :: signature. of_nat (length sg) + 7 :: u64"
  let ?v = "\<lparr>rv_documents = 3, rv_deleted = 0, rv_segments = 1, rv_generation = 1, rv_signature = [(9, None)]\<rparr>"
  let ?m1 = "configure_metrics True True (metrics_new 1)"
  let ?m2 = "install_reader 5 \<lparr>ro_values = Some ?v, ro_duration = 1\<rparr> ?m1"
  let ?m3 = "observe_bytes_end 9 2 [(9, None)] (Returned (Some (?u [(9, None)]))) ?m2"
  have sg: "observe_bytes_begin ?m2 = Some [(9, None)]"
    by (simp add: observe_bytes_begin_def install_reader_def install_values_def configure_metrics_def Let_def
        metrics_new_def reader_stats_default_def)
  have "(reader_step ?u)\<^sup>*\<^sup>* (metrics_new 1, []) (?m1, [])"
    by (rule r_into_rtranclp) (rule configured)
  also have "reader_step ?u (?m1, []) (?m2, [])" by (rule installed)
  also have "reader_step ?u (?m2, []) (?m2, [[(9, None)]])" using sg by (rule observing)
  also have "reader_step ?u (?m2, [[(9, None)]]) (?m3, remove1 [(9, None)] [[(9, None)]])"
    by (rule observed) simp_all
  finally have r: "(reader_step ?u)\<^sup>*\<^sup>* (metrics_new 1, []) (?m3, remove1 [(9, None)] [[(9, None)]])" .
  have b: "re_bytes (me_reader ?m3) = Some 8"
    by (simp add: observe_bytes_end_def install_reader_def install_values_def configure_metrics_def Let_def
        metrics_new_def reader_stats_default_def)
  show ?thesis using r b reader_bytes_current [OF r b] by blast
qed

end
