(* ===== verification/Registry.thy ===== *)
theory Registry
  imports Errors
begin

text \<open>
  The process-wide registry of \<^verbatim>\<open>src/src/native.rs\<close>: handle numbers, the environments with the
  handles they track, the reservations of physical paths by writers, readers and resets, the
  paths whose teardown was not proven quiescent, and the cancellation of opens when their Node
  environment goes away.  The registry is one mutex; each definition is what the code does
  while it holds that mutex (and the per-environment mutex right after it).
\<close>

section \<open>State\<close>

text \<open>The identity of a path on Unix is its device and inode.\<close>

datatype path_identity = Unix nat nat

datatype path_reservation = Open_By u32 | Reset_By u32

text \<open>A registered runtime is known by the environment it belongs to.\<close>

record registry =
  rg_handles :: "u32 \<rightharpoonup> nat"
  rg_paths :: "path_identity \<rightharpoonup> path_reservation"
  rg_reader_paths :: "path_identity \<rightharpoonup> u32 set"
  rg_unproven_paths :: "string set"
  rg_opening :: "u32 set"
  rg_cancelled :: "u32 set"
  rg_environments :: "nat \<rightharpoonup> nat"

text \<open>Beside the registry: the handle counter and, for every environment, whether its callback
  gate is alive and which handles it tracks.\<close>

record process_state =
  ps_registry :: registry
  ps_next_handle :: u32
  ps_alive :: "nat \<Rightarrow> bool"
  ps_tracked :: "nat \<Rightarrow> u32 set"

definition registry_default :: registry where
  "registry_default = \<lparr>rg_handles = Map.empty, rg_paths = Map.empty, rg_reader_paths = Map.empty,
     rg_unproven_paths = {}, rg_opening = {}, rg_cancelled = {}, rg_environments = Map.empty\<rparr>"

definition process_start :: process_state where
  "process_start = \<lparr>ps_registry = registry_default, ps_next_handle = 1, ps_alive = (\<lambda>_. True), ps_tracked = (\<lambda>_. {})\<rparr>"

definition on_registry :: "(registry \<Rightarrow> registry) \<Rightarrow> process_state \<Rightarrow> process_state" where
  "on_registry f w = w\<lparr>ps_registry := f (ps_registry w)\<rparr>"

section \<open>Handles and environments\<close>

definition next_handle :: "process_state \<Rightarrow> u32 res \<times> process_state" where
  "next_handle w = (let handle = ps_next_handle w; w' = w\<lparr>ps_next_handle := handle + 1\<rparr> in
     if handle = 0 then (Err (fulltext_error_new ''E_NATIVE_FAILURE'' ''native handle space exhausted''), w')
     else (Ok handle, w'))"

definition track :: "nat \<Rightarrow> u32 \<Rightarrow> process_state \<Rightarrow> process_state" where
  "track env handle w = w\<lparr>ps_tracked := (ps_tracked w)(env := insert handle (ps_tracked w env))\<rparr>"

definition untrack :: "nat \<Rightarrow> u32 \<Rightarrow> process_state \<Rightarrow> process_state" where
  "untrack env handle w = w\<lparr>ps_tracked := (ps_tracked w)(env := ps_tracked w env - {handle})\<rparr>"

text \<open>What \<open>native_open_mode\<close> and \<open>native_reset\<close> do before their thread runs; \<open>spawn_error\<close> is
  the message of a thread that could not be created.\<close>

definition begin_operation :: "nat \<Rightarrow> string option \<Rightarrow> process_state \<Rightarrow> u32 res \<times> process_state" where
  "begin_operation env spawn_error w = (case next_handle w of
     (Err e, w) \<Rightarrow> (Err e, w)
   | (Ok handle, w) \<Rightarrow>
       let w = track env handle (on_registry (\<lambda>r. r\<lparr>rg_opening := insert handle (rg_opening r)\<rparr>) w) in
       (case spawn_error of
          None \<Rightarrow> (Ok handle, w)
        | Some message \<Rightarrow> (Err (fulltext_error_new ''E_NATIVE_FAILURE'' message),
             untrack env handle (on_registry (\<lambda>r. r\<lparr>rg_opening := rg_opening r - {handle}\<rparr>) w))))"

definition lookup_runtime :: "nat \<Rightarrow> u32 \<Rightarrow> process_state \<Rightarrow> nat res" where
  "lookup_runtime env_key handle w = (case rg_handles (ps_registry w) handle of
     None \<Rightarrow> Err (fulltext_error_new ''E_CLOSED'' ''unknown or closed fulltext index handle'')
   | Some owner \<Rightarrow>
       if rg_environments (ps_registry w) env_key \<noteq> Some owner
       then Err (fulltext_error_new ''E_NATIVE_FAILURE''
         ''native index handles cannot be used from another Node environment'')
       else Ok owner)"

section \<open>Opening\<close>

definition quiescence_error :: "fulltext_error \<Rightarrow> fulltext_error" where
  "quiescence_error error =
     (if err_code error = ''E_QUIESCENCE_FAILED'' then error
      else fulltext_error_new ''E_QUIESCENCE_FAILED''
        (''native writer teardown did not prove quiescence: '' @ display_error error))"

definition unproven_error :: fulltext_error where
  "unproven_error = quiescence_error (fulltext_error_new ''E_LOCK_BUSY''
     ''this native index was not proven quiescent; restart is required'')"

text \<open>The first registry section of \<open>open_runtime_with_directory\<close>.\<close>

definition reserve_open ::
    "u32 \<Rightarrow> string \<Rightarrow> path_identity \<Rightarrow> nat \<Rightarrow> bool \<Rightarrow> process_state \<Rightarrow> unit res \<times> process_state" where
  "reserve_open handle canonical identity env read_only w =
     (let r = ps_registry w; r1 = r\<lparr>rg_cancelled := rg_cancelled r - {handle}\<rparr>; w1 = w\<lparr>ps_registry := r1\<rparr> in
      if handle \<in> rg_cancelled r \<or> \<not> ps_alive w env
      then (Err (fulltext_error_new ''E_CLOSED'' ''Node environment closed during index open''),
            on_registry (\<lambda>r. r\<lparr>rg_opening := rg_opening r - {handle}\<rparr>) w1)
      else if canonical \<in> rg_unproven_paths r then (Err unproven_error, w1)
      else (case rg_paths r identity of
          Some (Open_By _) \<Rightarrow>
            if read_only then (Ok (), w1\<lparr>ps_registry := r1\<lparr>rg_reader_paths := (rg_reader_paths r1)(identity \<mapsto>
                insert handle (case rg_reader_paths r1 identity of None \<Rightarrow> {} | Some s \<Rightarrow> s))\<rparr>\<rparr>)
            else (Err (fulltext_error_new ''E_DUPLICATE_OPEN'' ''the physical index is already open''), w1)
        | Some (Reset_By _) \<Rightarrow> (Err (fulltext_error_new ''E_LOCK_BUSY'' ''the physical index is being reset''), w1)
        | None \<Rightarrow> (Ok (), w1\<lparr>ps_registry := (if read_only
            then r1\<lparr>rg_reader_paths := (rg_reader_paths r1)(identity \<mapsto>
                insert handle (case rg_reader_paths r1 identity of None \<Rightarrow> {} | Some s \<Rightarrow> s))\<rparr>
            else r1\<lparr>rg_paths := (rg_paths r1)(identity \<mapsto> Open_By handle)\<rparr>)\<rparr>)))"

text \<open>The last one: publishing the runtime, or noticing that the environment closed meanwhile.\<close>

definition publish_open :: "u32 \<Rightarrow> nat \<Rightarrow> process_state \<Rightarrow> unit res \<times> process_state" where
  "publish_open handle env w =
     (let r = ps_registry w; r1 = r\<lparr>rg_cancelled := rg_cancelled r - {handle}\<rparr> in
      if handle \<in> rg_cancelled r \<or> \<not> ps_alive w env
      then (Err (fulltext_error_new ''E_CLOSED'' ''Node environment closed during index open''), w\<lparr>ps_registry := r1\<rparr>)
      else (Ok (), w\<lparr>ps_registry := r1\<lparr>rg_handles := (rg_handles r1)(handle \<mapsto> env),
              rg_opening := rg_opening r1 - {handle}\<rparr>\<rparr>))"

definition forget_reader :: "u32 \<Rightarrow> path_identity \<Rightarrow> registry \<Rightarrow> registry" where
  "forget_reader handle identity r = (case rg_reader_paths r identity of
     None \<Rightarrow> r
   | Some readers \<Rightarrow>
       if readers - {handle} = {} then r\<lparr>rg_reader_paths := (rg_reader_paths r)(identity := None)\<rparr>
       else r\<lparr>rg_reader_paths := (rg_reader_paths r)(identity \<mapsto> readers - {handle})\<rparr>)"

definition forget_open :: "u32 \<Rightarrow> path_identity \<Rightarrow> registry \<Rightarrow> registry" where
  "forget_open handle identity r =
     (let r = forget_reader handle identity (r\<lparr>rg_handles := (rg_handles r)(handle := None)\<rparr>) in
      if rg_paths r identity = Some (Open_By handle)
      then r\<lparr>rg_paths := (rg_paths r)(identity := None)\<rparr> else r)"

definition release_runtime :: "u32 \<Rightarrow> path_identity \<Rightarrow> nat \<Rightarrow> process_state \<Rightarrow> process_state" where
  "release_runtime handle identity env w = untrack env handle (on_registry (forget_open handle identity) w)"

definition release_runtime_handle :: "u32 \<Rightarrow> string \<Rightarrow> path_identity \<Rightarrow> nat \<Rightarrow> process_state \<Rightarrow> process_state" where
  "release_runtime_handle handle path identity env w =
     untrack env handle (on_registry (\<lambda>r. (forget_open handle identity r)
       \<lparr>rg_unproven_paths := insert path (rg_unproven_paths (forget_open handle identity r))\<rparr>) w)"

text \<open>The end of \<open>open_on_thread_inner\<close>.\<close>

definition finish_open :: "u32 \<Rightarrow> nat \<Rightarrow> bool \<Rightarrow> process_state \<Rightarrow> process_state" where
  "finish_open handle env opened w =
     (let w = on_registry (\<lambda>r. r\<lparr>rg_opening := rg_opening r - {handle}\<rparr>) w in
      if \<not> opened then untrack env handle w else w)"

section \<open>Reset\<close>

definition reset_admission :: "u32 \<Rightarrow> nat \<Rightarrow> process_state \<Rightarrow> unit res \<times> process_state" where
  "reset_admission operation env w =
     (let r = ps_registry w; w1 = w\<lparr>ps_registry := r\<lparr>rg_cancelled := rg_cancelled r - {operation}\<rparr>\<rparr> in
      if operation \<in> rg_cancelled r \<or> \<not> ps_alive w env
      then (Err (fulltext_error_new ''E_CLOSED'' ''Node environment closed during index reset''), w1)
      else (Ok (), w1))"

definition reserve_reset :: "u32 \<Rightarrow> string \<Rightarrow> path_identity \<Rightarrow> process_state \<Rightarrow> unit res \<times> process_state" where
  "reserve_reset operation canonical identity w =
     (let r = ps_registry w in
      if canonical \<in> rg_unproven_paths r then (Err unproven_error, w)
      else if rg_paths r identity \<noteq> None \<or>
        (case rg_reader_paths r identity of None \<Rightarrow> False | Some readers \<Rightarrow> readers \<noteq> {})
      then (Err (fulltext_error_new ''E_LOCK_BUSY'' ''the physical index is still active''), w)
      else (Ok (), w\<lparr>ps_registry := r\<lparr>rg_paths := (rg_paths r)(identity \<mapsto> Reset_By operation)\<rparr>\<rparr>))"

definition drop_reset_reservation :: "u32 \<Rightarrow> path_identity \<Rightarrow> process_state \<Rightarrow> process_state" where
  "drop_reset_reservation operation identity =
     on_registry (\<lambda>r. if rg_paths r identity = Some (Reset_By operation)
       then r\<lparr>rg_paths := (rg_paths r)(identity := None)\<rparr> else r)"

definition finish_reset :: "u32 \<Rightarrow> nat \<Rightarrow> process_state \<Rightarrow> process_state" where
  "finish_reset operation env w =
     untrack env operation (on_registry (\<lambda>r. r\<lparr>rg_opening := rg_opening r - {operation},
       rg_cancelled := rg_cancelled r - {operation}\<rparr>) w)"

section \<open>Environment cleanup\<close>

text \<open>\<open>cleanup_handle\<close> answers whether the handle has a runtime to force closed.\<close>

definition cleanup_handle :: "u32 \<Rightarrow> process_state \<Rightarrow> bool \<times> process_state" where
  "cleanup_handle handle w =
     (let r = ps_registry w in
      case rg_handles r handle of
        Some _ \<Rightarrow> (True, w)
      | None \<Rightarrow> if handle \<in> rg_opening r
          then (False, w\<lparr>ps_registry := r\<lparr>rg_opening := rg_opening r - {handle}, rg_cancelled := insert handle (rg_cancelled r)\<rparr>\<rparr>)
          else (False, w))"

fun cleanup_handles :: "u32 list \<Rightarrow> process_state \<Rightarrow> u32 list \<times> process_state" where
  "cleanup_handles [] w = ([], w)"
| "cleanup_handles (h # hs) w =
     (case cleanup_handle h w of (forced, w) \<Rightarrow>
       (case cleanup_handles hs w of (rest, w) \<Rightarrow> (if forced then h # rest else rest, w)))"

text \<open>\<open>finish_environment_cleanup\<close>: \<open>order\<close> is the iteration order of the hash map of tracked
  handles; the result lists the runtimes that are forced closed and awaited.\<close>

definition finish_environment_cleanup :: "nat \<Rightarrow> nat \<Rightarrow> u32 list \<Rightarrow> process_state \<Rightarrow> u32 list \<times> process_state" where
  "finish_environment_cleanup key env order w =
     (let w = w\<lparr>ps_alive := (ps_alive w)(env := False)\<rparr>; w = w\<lparr>ps_tracked := (ps_tracked w)(env := {})\<rparr> in
      case cleanup_handles order w of (waits, w) \<Rightarrow>
        (waits, on_registry (\<lambda>r. if rg_environments r key = Some env
           then r\<lparr>rg_environments := (rg_environments r)(key := None)\<rparr> else r) w))"

definition environment_state :: "nat \<Rightarrow> nat \<Rightarrow> process_state \<Rightarrow> nat \<times> process_state" where
  "environment_state key fresh w = (case rg_environments (ps_registry w) key of
     Some env \<Rightarrow> (env, w)
   | None \<Rightarrow> (fresh, on_registry (\<lambda>r. r\<lparr>rg_environments := (rg_environments r)(key \<mapsto> fresh)\<rparr>)
       (w\<lparr>ps_alive := (ps_alive w)(fresh := True), ps_tracked := (ps_tracked w)(fresh := {})\<rparr>)))"

section \<open>Ownership of physical paths\<close>

text \<open>
  Beside the process state, the history records which handle holds a path (and whether only to
  read) and which reset operation holds one, from the successful reservation to its release.
  Operations start with a fresh handle; \<open>os_started\<close> are those that have not reserved yet.
\<close>

record ownership =
  os_state :: process_state
  os_started :: "u32 set"
  os_holds :: "u32 \<rightharpoonup> path_identity \<times> bool"
  os_resets :: "u32 \<rightharpoonup> path_identity"

inductive registry_step :: "ownership \<Rightarrow> ownership \<Rightarrow> bool" where
  began: "begin_operation env None (os_state s) = (Ok h, w) \<Longrightarrow> ps_next_handle w \<noteq> 0 \<Longrightarrow>
    registry_step s (s\<lparr>os_state := w, os_started := insert h (os_started s)\<rparr>)"
| reserved: "h \<in> os_started s \<Longrightarrow> reserve_open h path p env ro (os_state s) = (Ok (), w) \<Longrightarrow>
    registry_step s (s\<lparr>os_state := w, os_started := os_started s - {h}, os_holds := (os_holds s)(h \<mapsto> (p, ro))\<rparr>)"
| refused: "h \<in> os_started s \<Longrightarrow> reserve_open h path p env ro (os_state s) = (Err e, w) \<Longrightarrow>
    registry_step s (s\<lparr>os_state := w, os_started := os_started s - {h}\<rparr>)"
| published: "publish_open h env (os_state s) = (r, w) \<Longrightarrow> registry_step s (s\<lparr>os_state := w\<rparr>)"
| ended: "registry_step s (s\<lparr>os_state := finish_open h env opened (os_state s)\<rparr>)"
| released: "os_holds s h = Some (p, ro) \<or> os_holds s h = None \<and> h \<notin> os_started s \<Longrightarrow>
    registry_step s (s\<lparr>os_state := release_runtime h p env (os_state s), os_holds := (os_holds s)(h := None)\<rparr>)"
| abandoned: "os_holds s h = Some (p, ro) \<or> os_holds s h = None \<and> h \<notin> os_started s \<Longrightarrow>
    registry_step s (s\<lparr>os_state := release_runtime_handle h path p env (os_state s), os_holds := (os_holds s)(h := None)\<rparr>)"
| reset_checked: "reset_admission h env (os_state s) = (r, w) \<Longrightarrow> registry_step s (s\<lparr>os_state := w\<rparr>)"
| reset_reserved: "h \<in> os_started s \<Longrightarrow> reserve_reset h path p (os_state s) = (Ok (), w) \<Longrightarrow>
    registry_step s (s\<lparr>os_state := w, os_started := os_started s - {h}, os_resets := (os_resets s)(h \<mapsto> p)\<rparr>)"
| reset_dropped: "os_resets s h = Some p \<Longrightarrow>
    registry_step s (s\<lparr>os_state := drop_reset_reservation h p (os_state s), os_resets := (os_resets s)(h := None)\<rparr>)"
| reset_ended: "registry_step s (s\<lparr>os_state := finish_reset h env (os_state s)\<rparr>)"
| cleaned: "finish_environment_cleanup key env order (os_state s) = (waits, w) \<Longrightarrow>
    registry_step s (s\<lparr>os_state := w\<rparr>)"

inductive_cases registry_step_cases: "registry_step s s'"

definition ownership_start :: ownership where
  "ownership_start = \<lparr>os_state = process_start, os_started = {}, os_holds = Map.empty, os_resets = Map.empty\<rparr>"

definition paths_of :: "ownership \<Rightarrow> path_identity \<rightharpoonup> path_reservation" where
  "paths_of s = rg_paths (ps_registry (os_state s))"

definition readers_in :: "registry \<Rightarrow> path_identity \<Rightarrow> u32 set" where
  "readers_in r p = (case rg_reader_paths r p of None \<Rightarrow> {} | Some hs \<Rightarrow> hs)"

definition readers_of :: "ownership \<Rightarrow> path_identity \<Rightarrow> u32 set" where
  "readers_of s p = readers_in (ps_registry (os_state s)) p"

definition fresh :: "ownership \<Rightarrow> u32 \<Rightarrow> bool" where
  "fresh s h \<longleftrightarrow> h \<notin> os_started s \<and> os_holds s h = None \<and> os_resets s h = None"

definition registry_inv :: "ownership \<Rightarrow> bool" where
  "registry_inv s \<longleftrightarrow>
     (\<forall>p h. paths_of s p = Some (Open_By h) \<longleftrightarrow> os_holds s h = Some (p, False)) \<and>
     (\<forall>p h. h \<in> readers_of s p \<longleftrightarrow> os_holds s h = Some (p, True)) \<and>
     (\<forall>p h. paths_of s p = Some (Reset_By h) \<longleftrightarrow> os_resets s h = Some p) \<and>
     (\<forall>p h. paths_of s p = Some (Reset_By h) \<longrightarrow> readers_of s p = {}) \<and>
     (\<forall>h. h \<in> os_started s \<longrightarrow> os_holds s h = None \<and> os_resets s h = None) \<and>
     (\<forall>h. ps_next_handle (os_state s) \<le> h \<longrightarrow> fresh s h) \<and> ps_next_handle (os_state s) \<noteq> 0"

text \<open>What each operation does to the two maps of paths.\<close>

definition same_paths :: "process_state \<Rightarrow> process_state \<Rightarrow> bool" where
  "same_paths w w' \<longleftrightarrow> rg_paths (ps_registry w') = rg_paths (ps_registry w) \<and>
     rg_reader_paths (ps_registry w') = rg_reader_paths (ps_registry w) \<and> ps_next_handle w' = ps_next_handle w"

lemma cleanup_handles_same: "cleanup_handles hs w = (waits, w') \<Longrightarrow> same_paths w w'"
proof (induction hs arbitrary: w waits)
  case (Cons h hs)
  then show ?case
    by (auto simp: cleanup_handle_def same_paths_def Let_def split: prod.splits option.splits if_splits)
qed (simp add: same_paths_def)

lemma same_paths_ops:
  "publish_open h env w = (r, w') \<Longrightarrow> same_paths w w'"
  "same_paths w (finish_open h env opened w)"
  "reset_admission h env w = (r, w') \<Longrightarrow> same_paths w w'"
  "same_paths w (finish_reset h env w)"
  "reserve_open h path p env ro w = (Err e, w') \<Longrightarrow> same_paths w w'"
  by (auto simp: same_paths_def publish_open_def finish_open_def reset_admission_def finish_reset_def reserve_open_def
      untrack_def on_registry_def Let_def split: if_splits option.splits path_reservation.splits)

lemma same_paths_cleanup: "finish_environment_cleanup key env order w = (waits, w') \<Longrightarrow> same_paths w w'"
  using cleanup_handles_same
  by (fastforce simp: finish_environment_cleanup_def same_paths_def on_registry_def Let_def split: prod.splits)

lemma registry_inv_same:
  "same_paths (os_state s) w \<Longrightarrow> registry_inv s \<Longrightarrow> H \<subseteq> os_started s \<Longrightarrow> registry_inv (s\<lparr>os_state := w, os_started := H\<rparr>)"
  by (auto simp: registry_inv_def same_paths_def paths_of_def readers_of_def readers_in_def fresh_def)

lemma reserve_open_Ok:
  assumes "reserve_open h path p env ro w = (Ok (), w')"
  shows "ps_next_handle w' = ps_next_handle w \<and> (\<forall>o'. rg_paths (ps_registry w) p \<noteq> Some (Reset_By o')) \<and>
    path \<notin> rg_unproven_paths (ps_registry w) \<and>
    (if ro then rg_paths (ps_registry w') = rg_paths (ps_registry w) \<and>
        readers_in (ps_registry w') = (readers_in (ps_registry w))(p := insert h (readers_in (ps_registry w) p))
     else rg_paths (ps_registry w) p = None \<and> rg_paths (ps_registry w') = (rg_paths (ps_registry w))(p \<mapsto> Open_By h) \<and>
        readers_in (ps_registry w') = readers_in (ps_registry w))"
  using assms
  by (auto simp: reserve_open_def Let_def readers_in_def fun_eq_iff split: if_splits option.splits path_reservation.splits)

lemma forget_open_paths:
  "rg_paths (forget_open h p r) = (if rg_paths r p = Some (Open_By h) then (rg_paths r)(p := None) else rg_paths r)"
  "readers_in (forget_open h p r) = (readers_in r)(p := readers_in r p - {h})"
  by (auto simp: forget_open_def forget_reader_def Let_def readers_in_def fun_eq_iff split: option.splits)

lemma release_paths:
  "rg_paths (ps_registry (release_runtime h p env w)) = rg_paths (forget_open h p (ps_registry w))"
  "readers_in (ps_registry (release_runtime h p env w)) = readers_in (forget_open h p (ps_registry w))"
  "ps_next_handle (release_runtime h p env w) = ps_next_handle w"
  "rg_paths (ps_registry (release_runtime_handle h path p env w)) = rg_paths (forget_open h p (ps_registry w))"
  "readers_in (ps_registry (release_runtime_handle h path p env w)) = readers_in (forget_open h p (ps_registry w))"
  "ps_next_handle (release_runtime_handle h path p env w) = ps_next_handle w"
  by (simp_all add: release_runtime_def release_runtime_handle_def untrack_def on_registry_def readers_in_def fun_eq_iff)

lemma registry_inv_reserved:
  assumes "registry_inv s" "h \<in> os_started s" "reserve_open h path p env ro (os_state s) = (Ok (), w)"
  shows "registry_inv (s\<lparr>os_state := w, os_started := os_started s - {h}, os_holds := (os_holds s)(h \<mapsto> (p, ro))\<rparr>)"
proof -
  have n: "os_holds s h = None" "os_resets s h = None" "h < ps_next_handle (os_state s)"
    using assms(1,2) by (auto simp: registry_inv_def fresh_def not_le [symmetric])
  show ?thesis
    using assms(1) n reserve_open_Ok [OF assms(3)]
    by (cases ro; auto simp: registry_inv_def paths_of_def readers_of_def fresh_def; metis option.distinct(1))
qed

lemma registry_inv_gone:
  assumes "registry_inv s" "os_holds s h = Some (p, ro) \<or> os_holds s h = None \<and> h \<notin> os_started s"
    and "rg_paths (ps_registry w) = rg_paths (forget_open h p (ps_registry (os_state s)))"
    and "readers_in (ps_registry w) = readers_in (forget_open h p (ps_registry (os_state s)))"
    and "ps_next_handle w = ps_next_handle (os_state s)"
  shows "registry_inv (s\<lparr>os_state := w, os_holds := (os_holds s)(h := None)\<rparr>)"
  using assms
  by (auto simp: registry_inv_def paths_of_def readers_of_def fresh_def forget_open_paths split: if_splits;
      metis option.inject path_reservation.inject path_reservation.distinct(1))

lemma registry_inv_began:
  assumes "registry_inv s" "begin_operation env None (os_state s) = (Ok h, w)" "ps_next_handle w \<noteq> 0"
  shows "registry_inv (s\<lparr>os_state := w, os_started := insert h (os_started s)\<rparr>)"
proof -
  have w: "h = ps_next_handle (os_state s)" "ps_next_handle w = h + 1"
    "rg_paths (ps_registry w) = rg_paths (ps_registry (os_state s))"
    "rg_reader_paths (ps_registry w) = rg_reader_paths (ps_registry (os_state s))"
    using assms(2) by (auto simp: begin_operation_def next_handle_def Let_def track_def on_registry_def split: if_splits)
  have up: "h \<le> k \<and> k \<noteq> h" if "h + 1 \<le> k" for k
  proof -
    have "1 + h \<noteq> 0" using assms(3) w(2) by (simp add: add.commute)
    then show ?thesis using that unatSuc [of h] by (auto simp: word_le_nat_alt add.commute)
  qed
  then show ?thesis
    using assms(1,3) w up by (simp add: registry_inv_def paths_of_def readers_of_def readers_in_def fresh_def)
qed

lemma registry_inv_reset:
  assumes "registry_inv s" "h \<in> os_started s" "reserve_reset h path p (os_state s) = (Ok (), w)"
  shows "registry_inv (s\<lparr>os_state := w, os_started := os_started s - {h}, os_resets := (os_resets s)(h \<mapsto> p)\<rparr>)"
proof -
  have n: "os_holds s h = None" "os_resets s h = None" "h < ps_next_handle (os_state s)"
    using assms(1,2) by (auto simp: registry_inv_def fresh_def not_le [symmetric])
  have r: "rg_paths (ps_registry (os_state s)) p = None" "readers_of s p = {}"
    "rg_paths (ps_registry w) = (rg_paths (ps_registry (os_state s)))(p \<mapsto> Reset_By h)"
    "rg_reader_paths (ps_registry w) = rg_reader_paths (ps_registry (os_state s))" "ps_next_handle w = ps_next_handle (os_state s)"
    using assms(3) by (auto simp: reserve_reset_def Let_def readers_of_def readers_in_def split: if_splits option.splits)
  then have "readers_in (ps_registry w) = readers_in (ps_registry (os_state s))" by (simp add: readers_in_def fun_eq_iff)
  then show ?thesis
    using assms(1) n r
    by (auto simp: registry_inv_def paths_of_def readers_of_def fresh_def; metis option.distinct(1))
qed

lemma registry_inv_reset_dropped:
  assumes "registry_inv s" "os_resets s h = Some p"
  shows "registry_inv (s\<lparr>os_state := drop_reset_reservation h p (os_state s), os_resets := (os_resets s)(h := None)\<rparr>)"
proof -
  have "paths_of s p = Some (Reset_By h)" using assms by (simp add: registry_inv_def)
  then show ?thesis
    using assms
    by (auto simp: registry_inv_def paths_of_def readers_of_def readers_in_def fresh_def drop_reset_reservation_def on_registry_def;
        metis option.inject path_reservation.inject path_reservation.distinct(1))
qed

lemma registry_inv_step: "registry_step s s' \<Longrightarrow> registry_inv s \<Longrightarrow> registry_inv s'"
proof (erule registry_step_cases)
  fix h path p env ro e w
  assume "registry_inv s" "s' = s\<lparr>os_state := w, os_started := os_started s - {h}\<rparr>"
    "reserve_open h path p env ro (os_state s) = (Err e, w)"
  then show ?thesis by (auto intro: registry_inv_same same_paths_ops)
qed (auto intro: registry_inv_began registry_inv_reserved registry_inv_gone registry_inv_reset registry_inv_reset_dropped
    simp: release_paths dest!: same_paths_ops(1,3) same_paths_cleanup
    intro!: registry_inv_same [where H = "os_started s" and s = s, simplified] same_paths_ops)

lemma registry_inv_start: "registry_inv ownership_start"
  by (simp add: registry_inv_def ownership_start_def process_start_def registry_default_def paths_of_def readers_of_def
      readers_in_def fresh_def)

lemma registry_reachable_inv: "registry_step\<^sup>*\<^sup>* ownership_start s \<Longrightarrow> registry_inv s"
  by (induction rule: rtranclp_induct) (auto intro: registry_inv_step registry_inv_start)

text \<open>
  C13. A physical index has one owner.  Whatever opens, read-only opens, resets, failures and
  releases of any number of environments are interleaved (with handles below 2 to the 32), a
  path is held by at most one writer, a path being reset is held by nobody else, and the
  registry's maps say exactly who holds what.
\<close>

theorem path_ownership_exclusive:
  assumes "registry_step\<^sup>*\<^sup>* ownership_start s"
  shows "(os_holds s h = Some (p, False) \<and> os_holds s k = Some (p, False) \<longrightarrow> h = k) \<and>
    (os_resets s h = Some p \<and> os_resets s k = Some p \<longrightarrow> h = k) \<and>
    (os_resets s h = Some p \<longrightarrow> os_holds s k \<noteq> Some (p, ro)) \<and>
    (rg_paths (ps_registry (os_state s)) p = Some (Open_By h) \<longleftrightarrow> os_holds s h = Some (p, False)) \<and>
    (rg_paths (ps_registry (os_state s)) p = Some (Reset_By h) \<longleftrightarrow> os_resets s h = Some p)"
proof -
  have i: "registry_inv s" using assms by (rule registry_reachable_inv)
  then have w: "paths_of s q = Some (Open_By a) \<longleftrightarrow> os_holds s a = Some (q, False)"
    and r: "paths_of s q = Some (Reset_By a) \<longleftrightarrow> os_resets s a = Some q"
    and d: "a \<in> readers_of s q \<longleftrightarrow> os_holds s a = Some (q, True)"
    and e: "paths_of s q = Some (Reset_By a) \<Longrightarrow> readers_of s q = {}" for q a
    unfolding registry_inv_def by blast+
  have one: "os_holds s h = Some (p, False) \<and> os_holds s k = Some (p, False) \<longrightarrow> h = k"
    using w [of p h] w [of p k] by auto
  have two: "os_resets s h = Some p \<and> os_resets s k = Some p \<longrightarrow> h = k"
    using r [of p h] r [of p k] by auto
  have three: "os_resets s h = Some p \<longrightarrow> os_holds s k \<noteq> Some (p, ro)"
    using r [of p h] w [of p k] d [of k p] e [of p h] by (cases ro) auto
  show ?thesis using one two three w r by (simp add: paths_of_def)
qed

definition sample_open :: ownership where
  "sample_open = ownership_start\<lparr>os_state := snd (begin_operation 0 None process_start), os_started := {1}\<rparr>"

theorem path_ownership_exclusive_witness:
  "\<exists>s. registry_step\<^sup>*\<^sup>* ownership_start s \<and> os_holds s 1 = Some (Unix 1 2, False) \<and>
     rg_paths (ps_registry (os_state s)) (Unix 1 2) = Some (Open_By 1) \<and>
     (\<forall>k. os_holds s k = Some (Unix 1 2, False) \<longrightarrow> 1 = k)"
proof -
  let ?w = "snd (reserve_open 1 ''/a'' (Unix 1 2) 0 False (os_state sample_open))"
  let ?s = "sample_open\<lparr>os_state := ?w, os_started := os_started sample_open - {1}, os_holds := (os_holds sample_open)(1 \<mapsto> (Unix 1 2, False))\<rparr>"
  have "begin_operation 0 None (os_state ownership_start) = (Ok 1, snd (begin_operation 0 None process_start))"
    "ps_next_handle (snd (begin_operation 0 None process_start)) \<noteq> 0"
    by (simp_all add: begin_operation_def next_handle_def Let_def process_start_def track_def on_registry_def ownership_start_def)
  then have "registry_step ownership_start sample_open"
    using began [of 0 ownership_start 1] by (simp add: sample_open_def ownership_start_def)
  moreover have "reserve_open 1 ''/a'' (Unix 1 2) 0 False (os_state sample_open) = (Ok (), ?w)"
    by (simp add: reserve_open_def sample_open_def begin_operation_def next_handle_def Let_def process_start_def track_def
        on_registry_def registry_default_def)
  then have "registry_step sample_open ?s"
    by (intro reserved) (simp_all add: sample_open_def)
  ultimately have r: "registry_step\<^sup>*\<^sup>* ownership_start ?s" by auto
  have h: "os_holds ?s 1 = Some (Unix 1 2, False)" by simp
  have "rg_paths (ps_registry (os_state ?s)) (Unix 1 2) = Some (Open_By 1)"
    using path_ownership_exclusive [OF r, of 1 "Unix 1 2"] h by blast
  moreover have "\<forall>k. os_holds ?s k = Some (Unix 1 2, False) \<longrightarrow> 1 = k"
    using path_ownership_exclusive [OF r, of 1 "Unix 1 2"] h by blast
  ultimately show ?thesis using r h by (intro exI [of _ ?s] conjI)
qed

lemma unproven_step: "registry_step s s' \<Longrightarrow>
    rg_unproven_paths (ps_registry (os_state s)) \<subseteq> rg_unproven_paths (ps_registry (os_state s'))"
proof (erule registry_step_cases)
  fix key env order waits w
  assume "s' = s\<lparr>os_state := w\<rparr>" "finish_environment_cleanup key env order (os_state s) = (waits, w)"
  moreover have "rg_unproven_paths (ps_registry w') = rg_unproven_paths (ps_registry v)"
    if "cleanup_handles hs v = (ws, w')" for hs v ws w'
    using that by (induction hs arbitrary: v ws) (auto simp: cleanup_handle_def Let_def split: prod.splits option.splits if_splits)
  ultimately show ?thesis
    by (auto simp: finish_environment_cleanup_def on_registry_def Let_def split: prod.splits if_splits)
qed (auto simp: begin_operation_def next_handle_def track_def untrack_def on_registry_def reserve_open_def publish_open_def
    finish_open_def release_runtime_def release_runtime_handle_def forget_open_def forget_reader_def reset_admission_def
    reserve_reset_def drop_reset_reservation_def finish_reset_def Let_def
    split: if_splits option.splits path_reservation.splits)

lemma unproven_steps: "registry_step\<^sup>*\<^sup>* s s' \<Longrightarrow>
    rg_unproven_paths (ps_registry (os_state s)) \<subseteq> rg_unproven_paths (ps_registry (os_state s'))"
  by (induction rule: rtranclp_induct) (auto dest: unproven_step)

text \<open>
  C23. An index whose teardown was not proven quiescent is never used again by the process.  From
  the moment its path is abandoned, through any further steps, every open (also read-only) and
  every reset of that path is refused with \<open>E_QUIESCENCE_FAILED\<close>, or with \<open>E_CLOSED\<close> when the
  environment itself is gone, and nothing is reserved.
\<close>

theorem unproven_path_refused:
  assumes "os_state s = release_runtime_handle h path p env w" "registry_step\<^sup>*\<^sup>* s s'"
    and "reserve_open h' path p' env' ro (os_state s') = (r, w')"
  shows "(\<exists>e. r = Err e \<and> (err_code e = ''E_QUIESCENCE_FAILED'' \<or> err_code e = ''E_CLOSED'')) \<and>
    rg_paths (ps_registry w') = rg_paths (ps_registry (os_state s')) \<and>
    reserve_reset h' path p' (os_state s') = (Err unproven_error, os_state s')"
proof -
  have "path \<in> rg_unproven_paths (ps_registry (os_state s))"
    by (simp add: assms(1) release_runtime_handle_def untrack_def on_registry_def)
  then have u: "path \<in> rg_unproven_paths (ps_registry (os_state s'))" using unproven_steps [OF assms(2)] by blast
  moreover have "err_code unproven_error = ''E_QUIESCENCE_FAILED''"
    by (simp add: unproven_error_def quiescence_error_def fulltext_error_new_def)
  ultimately show ?thesis
    using assms(3)
    by (auto simp: reserve_open_def reserve_reset_def Let_def fulltext_error_new_def on_registry_def split: if_splits)
qed

theorem unproven_path_refused_witness:
  "\<exists>e w'. reserve_open 2 ''/a'' (Unix 1 2) 0 True (release_runtime_handle 1 ''/a'' (Unix 1 2) 0 process_start) = (Err e, w') \<and>
     (err_code e = ''E_QUIESCENCE_FAILED'' \<or> err_code e = ''E_CLOSED'')"
proof -
  let ?w = "release_runtime_handle 1 ''/a'' (Unix 1 2) 0 process_start"
  obtain r w' where r: "reserve_open 2 ''/a'' (Unix 1 2) 0 True ?w = (r, w')" by fastforce
  let ?s = "ownership_start\<lparr>os_state := ?w\<rparr>"
  have "os_state ?s = ?w" "registry_step\<^sup>*\<^sup>* ?s ?s" by simp_all
  moreover have "reserve_open 2 ''/a'' (Unix 1 2) 0 True (os_state ?s) = (r, w')" using r by simp
  ultimately show ?thesis using unproven_path_refused r by blast
qed

text \<open>Handing out handles again and again.\<close>

fun nth_handle :: "nat \<Rightarrow> process_state \<Rightarrow> u32 res" where
  "nth_handle 0 w = fst (next_handle w)"
| "nth_handle (Suc n) w = nth_handle n (snd (next_handle w))"

lemma nth_handle_eq: "nth_handle n w = fst (next_handle (w\<lparr>ps_next_handle := ps_next_handle w + of_nat n\<rparr>))"
  by (induction n arbitrary: w) (auto simp: next_handle_def Let_def algebra_simps)

text \<open>
  C24. The counter of handles reports its exhaustion exactly once. Of the calls numbered from 0,
  call \<open>n\<close> fails when \<open>n + 1\<close> is a multiple of 2 to the 32 and otherwise returns \<open>n + 1\<close> modulo 2
  to the 32: the first 2 to the 32 minus 1 handles are distinct, and after the one failing call
  the numbers, and so the handles of indexes that may still be open, are handed out again.
\<close>

theorem handle_sequence:
  "nth_handle n process_start =
     (if (n + 1) mod 4294967296 = 0
      then Err (fulltext_error_new ''E_NATIVE_FAILURE'' ''native handle space exhausted'')
      else Ok (of_nat (n + 1))) \<and>
   nth_handle (n + 4294967296) process_start = nth_handle n process_start"
proof -
  have z: "(1 + of_nat n :: u32) = 0 \<longleftrightarrow> (n + 1) mod 4294967296 = 0" for n
    using word_of_nat_eq_0_iff [where 'a = 32, of "n + 1"] by (simp add: dvd_eq_mod_eq_0)
  have "(4294967296 :: u32) = 0" by simp
  then have p: "(of_nat (n + 4294967296) :: u32) = of_nat n" unfolding of_nat_add by simp
  show ?thesis
    using z [of n] unfolding nth_handle_eq next_handle_def Let_def process_start_def p by simp
qed

lemma cleanup_handles_result:
  "cleanup_handles hs w = (waits, w') \<Longrightarrow>
     ps_alive w' = ps_alive w \<and> ps_tracked w' = ps_tracked w \<and> rg_handles (ps_registry w') = rg_handles (ps_registry w) \<and>
     rg_environments (ps_registry w') = rg_environments (ps_registry w) \<and>
     rg_cancelled (ps_registry w) \<subseteq> rg_cancelled (ps_registry w') \<and>
     waits = filter (\<lambda>h. rg_handles (ps_registry w) h \<noteq> None) hs \<and>
     (\<forall>h\<in>set hs. rg_handles (ps_registry w) h = None \<and> h \<in> rg_opening (ps_registry w) \<longrightarrow> h \<in> rg_cancelled (ps_registry w'))"
proof (induction hs arbitrary: w waits)
  case (Cons h hs)
  obtain forced w1 where h: "cleanup_handle h w = (forced, w1)" by fastforce
  obtain rest where t: "cleanup_handles hs w1 = (rest, w')"
    using Cons.prems h by (auto split: prod.splits)
  have one: "ps_alive w1 = ps_alive w" "ps_tracked w1 = ps_tracked w" "rg_handles (ps_registry w1) = rg_handles (ps_registry w)"
    "rg_environments (ps_registry w1) = rg_environments (ps_registry w)"
    "rg_cancelled (ps_registry w) \<subseteq> rg_cancelled (ps_registry w1)" "forced \<longleftrightarrow> rg_handles (ps_registry w) h \<noteq> None"
    "rg_opening (ps_registry w) \<subseteq> rg_opening (ps_registry w1) \<union> rg_cancelled (ps_registry w1)"
    "rg_handles (ps_registry w) h = None \<and> h \<in> rg_opening (ps_registry w) \<longrightarrow> h \<in> rg_cancelled (ps_registry w1)"
    using h by (auto simp: cleanup_handle_def Let_def split: option.splits if_splits)
  show ?case
    using Cons.prems h t one Cons.IH [OF t] by (auto split: if_splits)
qed simp

text \<open>
  When a Node environment goes away, every runtime it tracks is forced closed and every open
  it still has running is cancelled: afterwards no open of that environment can reserve its path
  or publish its runtime, the tracked set is empty, and the environment is no longer found under
  its key.
\<close>

theorem environment_cleanup_closes:
  assumes "finish_environment_cleanup key env order w = (waits, w')"
  shows "waits = filter (\<lambda>h. rg_handles (ps_registry w) h \<noteq> None) order \<and> ps_tracked w' env = {} \<and>
    (\<forall>h\<in>set order. rg_handles (ps_registry w) h = None \<and> h \<in> rg_opening (ps_registry w) \<longrightarrow> h \<in> rg_cancelled (ps_registry w')) \<and>
    rg_environments (ps_registry w') key \<noteq> Some env \<and>
    (\<forall>h path p ro. err_code (case fst (reserve_open h path p env ro w') of Err e \<Rightarrow> e) = ''E_CLOSED'') \<and>
    (\<forall>h. fst (publish_open h env w') = Err (fulltext_error_new ''E_CLOSED'' ''Node environment closed during index open''))"
proof -
  let ?v = "w\<lparr>ps_alive := (ps_alive w)(env := False), ps_tracked := (ps_tracked w)(env := {})\<rparr>"
  obtain ws v' where v: "cleanup_handles order ?v = (ws, v')" by fastforce
  then have w': "waits = ws" "ps_alive w' = ps_alive v'" "ps_tracked w' = ps_tracked v'"
    "rg_cancelled (ps_registry w') = rg_cancelled (ps_registry v')" "rg_environments (ps_registry w') key \<noteq> Some env"
    using assms by (auto simp: finish_environment_cleanup_def Let_def on_registry_def split: if_splits)
  have a: "\<not> ps_alive w' env" using w'(2) cleanup_handles_result [OF v] by simp
  then have "err_code (case fst (reserve_open h path p env ro w') of Err e \<Rightarrow> e) = ''E_CLOSED''"
    "fst (publish_open h env w') = Err (fulltext_error_new ''E_CLOSED'' ''Node environment closed during index open'')" for h path p ro
    by (simp_all add: reserve_open_def publish_open_def Let_def)
  then show ?thesis using w' cleanup_handles_result [OF v] by auto
qed

theorem environment_cleanup_closes_witness:
  "\<exists>waits w'. finish_environment_cleanup 7 0 [1] (snd (begin_operation 0 None process_start)) = (waits, w') \<and>
     waits = [] \<and> 1 \<in> rg_cancelled (ps_registry w') \<and> ps_tracked w' 0 = {}"
proof -
  let ?w = "snd (begin_operation 0 None process_start)"
  obtain waits w' where r: "finish_environment_cleanup 7 0 [1] ?w = (waits, w')" by fastforce
  have "rg_handles (ps_registry ?w) 1 = None" "1 \<in> rg_opening (ps_registry ?w)"
    by (simp_all add: begin_operation_def next_handle_def Let_def process_start_def track_def on_registry_def registry_default_def)
  then show ?thesis using r environment_cleanup_closes [OF r] by auto
qed

end
