(* ===== verification/Response.thy ===== *)
theory Response
  imports Cursor Registry
begin

text \<open>
  The responses of \<^verbatim>\<open>src/src/native.rs\<close>: the success and error envelopes and the bodies that
  the native calls put into them, byte by byte as the code pushes them.  Lengths are written with
  \<open>as u32\<close> and \<open>as u16\<close>, which truncate, and so does \<open>to_le\<close>.  The theorems say that a reader of
  the bytes can recover what was written.
\<close>

unbundle bit_operations_syntax

section \<open>Results of the engine that are sent\<close>

datatype inspection_result = Missing | Cursorless | Payload string

datatype reset_result = Reset_Missing | Reset_Done string

datatype total_relation = Exact | Lower_Bound

record search_hit =
  hit_id :: string
  hit_score :: f32
  hit_version :: "string option"

record search_result =
  sr_encoded_aggregations :: "u8 list option"
  sr_total :: u64
  sr_total_relation :: total_relation
  sr_hits :: "search_hit list"
  sr_traversal :: "(string \<times> bool) option"

record trace_span =
  sp_start :: u32
  sp_end :: u32

record trace_value_match =
  tv_field :: string
  tv_value_index :: u32
  tv_spans :: "trace_span list"

record trace_record_match =
  tr_id :: string
  tr_values :: "trace_value_match list"

record trace_result =
  tr_complete :: bool
  tr_records :: "trace_record_match list"

record trace_record_state =
  ts_membership :: "bool option"
  ts_analysis_complete :: bool
  ts_spans_complete :: bool

record trace_page_result =
  tp_trace :: trace_result
  tp_next_record :: nat
  tp_states :: "trace_record_state list"

section \<open>Encoders\<close>

definition push_string :: "u8 list \<Rightarrow> string \<Rightarrow> u8 list" where
  "push_string bytes value = bytes @ to_le 4 (length value) @ str_bytes value"

definition push_u64 :: "u8 list \<Rightarrow> u64 \<Rightarrow> u8 list" where
  "push_u64 bytes value = bytes @ to_le 8 (unat value)"

definition success_envelope :: "u8 list \<Rightarrow> u8 list" where
  "success_envelope body = str_bytes ''FTRP'' @ to_le 2 PROTOCOL_VERSION @ [0] @ body"

definition error_envelope :: "fulltext_error \<Rightarrow> u8 list" where
  "error_envelope error =
     push_string (push_string (str_bytes ''FTRP'' @ to_le 2 PROTOCOL_VERSION @ [1]) (err_code error)) (err_message error)"

definition u32_body :: "u32 \<Rightarrow> u8 list" where
  "u32_body value = to_le 4 (unat value)"

definition u64_body :: "u64 \<Rightarrow> u8 list" where
  "u64_body value = to_le 8 (unat value)"

definition payload_body :: "string option \<Rightarrow> u8 list" where
  "payload_body payload = (case payload of None \<Rightarrow> [0] | Some p \<Rightarrow> push_string [1] p)"

definition open_body :: "u32 \<Rightarrow> string option \<Rightarrow> u8 list" where
  "open_body handle payload = u32_body handle @ payload_body payload"

definition inspection_body :: "inspection_result \<Rightarrow> u8 list" where
  "inspection_body result = (case result of Missing \<Rightarrow> [0] | Cursorless \<Rightarrow> [1] | Payload payload \<Rightarrow> push_string [2] payload)"

definition reset_body :: "reset_result \<Rightarrow> u8 list" where
  "reset_body result = (case result of Reset_Missing \<Rightarrow> [0] | Reset_Done path \<Rightarrow> push_string [1] path)"

definition push_flag :: "u8 list \<Rightarrow> bool \<Rightarrow> u8 list" where
  "push_flag bytes b = bytes @ [if b then 1 else 0]"

definition push_hit :: "u8 list \<Rightarrow> search_hit \<Rightarrow> u8 list" where
  "push_hit bytes hit =
     (let bytes = push_string (bytes @ to_le 4 (unat (hit_score hit))) (hit_id hit);
          bytes = push_flag bytes (hit_version hit \<noteq> None)
      in case hit_version hit of None \<Rightarrow> bytes | Some version \<Rightarrow> push_string bytes version)"

definition search_body :: "search_result \<Rightarrow> u8 list" where
  "search_body result =
     (let bytes = push_u64 [] (sr_total result);
          bytes = bytes @ [case sr_total_relation result of Exact \<Rightarrow> 0 | Lower_Bound \<Rightarrow> 1];
          bytes = bytes @ to_le 4 (length (sr_hits result));
          bytes = foldl push_hit bytes (sr_hits result);
          bytes = bytes @ (case sr_encoded_aggregations result of Some encoded \<Rightarrow> encoded | None \<Rightarrow> to_le 4 0)
      in case sr_traversal result of
           Some (snapshot, more_follows) \<Rightarrow> push_flag (push_string bytes snapshot) more_follows
         | None \<Rightarrow> bytes)"

definition push_span :: "u8 list \<Rightarrow> trace_span \<Rightarrow> u8 list" where
  "push_span bytes span = bytes @ to_le 4 (unat (sp_start span)) @ to_le 4 (unat (sp_end span))"

definition push_value_match :: "u8 list \<Rightarrow> trace_value_match \<Rightarrow> u8 list" where
  "push_value_match bytes v =
     foldl push_span (push_string bytes (tv_field v) @ to_le 4 (unat (tv_value_index v)) @ to_le 2 (length (tv_spans v)))
       (tv_spans v)"

definition push_record_match :: "u8 list \<Rightarrow> trace_record_match \<Rightarrow> u8 list" where
  "push_record_match bytes r =
     foldl push_value_match (push_string bytes (tr_id r) @ to_le 2 (length (tr_values r))) (tr_values r)"

definition trace_body :: "trace_result \<Rightarrow> u8 list" where
  "trace_body result =
     foldl push_record_match (push_flag [] (tr_complete result) @ to_le 2 (length (tr_records result))) (tr_records result)"

definition state_byte :: "trace_record_state \<Rightarrow> u8" where
  "state_byte s =
     (case ts_membership s of Some False \<Rightarrow> 0 | Some True \<Rightarrow> 1 | None \<Rightarrow> 2)
     OR push_bit 2 (if ts_analysis_complete s then 1 else 0) OR push_bit 3 (if ts_spans_complete s then 1 else 0)"

definition trace_page_body :: "trace_page_result \<Rightarrow> u8 list" where
  "trace_page_body result =
     foldl (\<lambda>bytes s. bytes @ [state_byte s])
       (trace_body (tp_trace result) @ to_le 2 (tp_next_record result)) (tp_states result)"

section \<open>Reading back\<close>

text \<open>Every piece is written after what is there already.\<close>

definition appends :: "(u8 list \<Rightarrow> 'a \<Rightarrow> u8 list) \<Rightarrow> ('a \<Rightarrow> u8 list) \<Rightarrow> bool" where
  "appends push enc \<longleftrightarrow> (\<forall>bytes x. push bytes x = bytes @ enc x)"

text \<open>What is written for well-formed values tells where it ends and what it was.\<close>

definition delimits :: "('a \<Rightarrow> u8 list) \<Rightarrow> ('a \<Rightarrow> bool) \<Rightarrow> bool" where
  "delimits enc good \<longleftrightarrow> (\<forall>x y r s. good x \<longrightarrow> good y \<longrightarrow> enc x @ r = enc y @ s \<longrightarrow> x = y \<and> r = s)"

lemma foldl_appends: "appends push enc \<Longrightarrow> foldl push bytes xs = bytes @ concat (map enc xs)"
  by (induction xs arbitrary: bytes) (simp_all add: appends_def)

lemma delimits_iff: "delimits enc good \<Longrightarrow> good x \<Longrightarrow> good y \<Longrightarrow> enc x @ r = enc y @ s \<longleftrightarrow> x = y \<and> r = s"
  unfolding delimits_def by blast

lemma delimits_many:
  assumes "delimits enc good"
  shows "length xs = length ys \<Longrightarrow> list_all good xs \<Longrightarrow> list_all good ys \<Longrightarrow>
    concat (map enc xs) @ r = concat (map enc ys) @ s \<longleftrightarrow> xs = ys \<and> r = s"
  by (induction xs ys rule: list_induct2) (auto simp: delimits_iff [OF assms])

lemma to_le_inj: "m < 256 ^ k \<Longrightarrow> n < 256 ^ k \<Longrightarrow> to_le k m = to_le k n \<longleftrightarrow> m = n"
  using le_nat_to_le by (metis mod_less)

lemma to_le_eq_iff [simp]:
  "m < 65536 \<Longrightarrow> n < 65536 \<Longrightarrow> to_le 2 m = to_le 2 n \<longleftrightarrow> m = n"
  "m < 4294967296 \<Longrightarrow> n < 4294967296 \<Longrightarrow> to_le 4 m = to_le 4 n \<longleftrightarrow> m = n"
  by (simp_all add: to_le_inj)

lemma word_le_eq_iff [simp]:
  "to_le 4 (unat (a :: u32)) = to_le 4 (unat b) \<longleftrightarrow> a = b"
  "to_le 8 (unat (c :: u64)) = to_le 8 (unat d) \<longleftrightarrow> c = d"
  using unsigned_less [of a, where 'a = nat] unsigned_less [of b, where 'a = nat]
    unsigned_less [of c, where 'a = nat] unsigned_less [of d, where 'a = nat]
  by (simp_all add: to_le_inj word_unat_eq_iff)

definition enc_text :: "string \<Rightarrow> u8 list" where
  "enc_text s = to_le 4 (length s) @ str_bytes s"

definition short :: "string \<Rightarrow> bool" where
  "short s \<longleftrightarrow> length s < 4294967296"

lemma push_string_eq: "push_string bytes s = bytes @ enc_text s"
  by (simp add: push_string_def enc_text_def)

lemma str_bytes_inj [simp]: "str_bytes s = str_bytes t \<longleftrightarrow> s = t"
  by (metis bytes_str_inverse)

lemma text_append_iff [simp]:
  "short s \<Longrightarrow> short t \<Longrightarrow> enc_text s @ r = enc_text t @ r' \<longleftrightarrow> s = t \<and> r = r'"
proof -
  assume h: "short s" "short t"
  have "enc_text s @ r = enc_text t @ r' \<longleftrightarrow> length s = length t \<and> str_bytes s @ r = str_bytes t @ r'"
    using h by (simp add: enc_text_def short_def)
  also have "\<dots> \<longleftrightarrow> s = t \<and> r = r'" by auto
  finally show ?thesis .
qed

lemma text_eq_iff [simp]: "short s \<Longrightarrow> short t \<Longrightarrow> enc_text s = enc_text t \<longleftrightarrow> s = t"
  using text_append_iff [of s t "[]" "[]"] by simp

definition wf_error :: "fulltext_error \<Rightarrow> bool" where
  "wf_error e \<longleftrightarrow> short (err_code e) \<and> short (err_message e)"


definition sample_error :: fulltext_error where
  "sample_error = fulltext_error_new ''E_CLOSED'' ''index is closing or closed''"


definition enc_span :: "trace_span \<Rightarrow> u8 list" where
  "enc_span span = to_le 4 (unat (sp_start span)) @ to_le 4 (unat (sp_end span))"

definition enc_value_match :: "trace_value_match \<Rightarrow> u8 list" where
  "enc_value_match v = enc_text (tv_field v) @ to_le 4 (unat (tv_value_index v)) @ to_le 2 (length (tv_spans v)) @
     concat (map enc_span (tv_spans v))"

definition enc_record_match :: "trace_record_match \<Rightarrow> u8 list" where
  "enc_record_match r = enc_text (tr_id r) @ to_le 2 (length (tr_values r)) @ concat (map enc_value_match (tr_values r))"

definition wf_value_match :: "trace_value_match \<Rightarrow> bool" where
  "wf_value_match v \<longleftrightarrow> short (tv_field v) \<and> length (tv_spans v) < 65536"

definition wf_record_match :: "trace_record_match \<Rightarrow> bool" where
  "wf_record_match r \<longleftrightarrow> short (tr_id r) \<and> length (tr_values r) < 65536 \<and> list_all wf_value_match (tr_values r)"

definition wf_trace :: "trace_result \<Rightarrow> bool" where
  "wf_trace t \<longleftrightarrow> length (tr_records t) < 65536 \<and> list_all wf_record_match (tr_records t)"

lemma span_delimits: "delimits enc_span (\<lambda>_. True)"
  by (auto simp: delimits_def enc_span_def intro: trace_span.equality)

lemma value_match_delimits: "delimits enc_value_match wf_value_match"
  unfolding delimits_def
proof (intro allI impI)
  fix x y r s
  assume h: "wf_value_match x" "wf_value_match y" "enc_value_match x @ r = enc_value_match y @ s"
  then have e: "tv_field x = tv_field y" "tv_value_index x = tv_value_index y" "length (tv_spans x) = length (tv_spans y)"
    "concat (map enc_span (tv_spans x)) @ r = concat (map enc_span (tv_spans y)) @ s"
    by (auto simp: enc_value_match_def wf_value_match_def)
  then have "tv_spans x = tv_spans y \<and> r = s"
    using delimits_many [OF span_delimits e(3)] by (simp add: list_all_iff)
  then show "x = y \<and> r = s" using e by (auto intro: trace_value_match.equality)
qed

lemma record_match_delimits: "delimits enc_record_match wf_record_match"
  unfolding delimits_def
proof (intro allI impI)
  fix x y r s
  assume h: "wf_record_match x" "wf_record_match y" "enc_record_match x @ r = enc_record_match y @ s"
  then have e: "tr_id x = tr_id y" "length (tr_values x) = length (tr_values y)"
    "concat (map enc_value_match (tr_values x)) @ r = concat (map enc_value_match (tr_values y)) @ s"
    by (auto simp: enc_record_match_def wf_record_match_def)
  then have "tr_values x = tr_values y \<and> r = s"
    using delimits_many [OF value_match_delimits e(2)] h(1,2) by (simp add: wf_record_match_def)
  then show "x = y \<and> r = s" using e by (auto intro: trace_record_match.equality)
qed

lemma push_span_appends: "appends push_span enc_span"
  by (simp add: appends_def push_span_def enc_span_def)

lemma push_value_appends: "appends push_value_match enc_value_match"
  by (simp add: appends_def push_value_match_def enc_value_match_def push_string_eq foldl_appends [OF push_span_appends])

lemma push_record_appends: "appends push_record_match enc_record_match"
  by (simp add: appends_def push_record_match_def enc_record_match_def push_string_eq foldl_appends [OF push_value_appends])

lemma trace_body_append_iff:
  assumes "wf_trace t" "wf_trace u"
  shows "trace_body t @ r = trace_body u @ s \<longleftrightarrow> t = u \<and> r = s"
proof -
  have "trace_body t @ r = trace_body u @ s \<longleftrightarrow> tr_complete t = tr_complete u \<and> length (tr_records t) = length (tr_records u) \<and>
      concat (map enc_record_match (tr_records t)) @ r = concat (map enc_record_match (tr_records u)) @ s"
    using assms by (auto simp: trace_body_def foldl_appends [OF push_record_appends] push_flag_def wf_trace_def)
  also have "\<dots> \<longleftrightarrow> t = u \<and> r = s"
    using assms delimits_many [OF record_match_delimits]
    by (auto simp: wf_trace_def intro: trace_result.equality)
  finally show ?thesis .
qed

lemma state_byte_inj: "state_byte a = state_byte b \<longleftrightarrow> a = b"
proof
  assume h: "state_byte a = state_byte b"
  show "a = b"
  proof (rule trace_record_state.equality)
    show "ts_membership a = ts_membership b" "ts_analysis_complete a = ts_analysis_complete b"
      "ts_spans_complete a = ts_spans_complete b"
      using h by (auto simp: state_byte_def split: option.splits bool.splits if_splits)
  qed simp
qed simp

text \<open>
  A trace response determines the trace. For results within the protocol's 16-bit counts,
  two trace bodies are equal only for equal traces, and two pages only if their traces, their
  next record and the state of every record agree: the three flags of a state fit into one byte
  without overlapping.
\<close>

theorem trace_bodies_exact:
  assumes "wf_trace (tp_trace p)" "wf_trace (tp_trace q)" "tp_next_record p < 65536" "tp_next_record q < 65536"
  shows "(trace_body (tp_trace p) = trace_body (tp_trace q) \<longleftrightarrow> tp_trace p = tp_trace q) \<and>
    (trace_page_body p = trace_page_body q \<longleftrightarrow> p = q)"
proof -
  have f: "foldl (\<lambda>bytes s. bytes @ [state_byte s]) bytes ss = bytes @ map state_byte ss" for bytes ss
    by (induction ss arbitrary: bytes) simp_all
  have "inj state_byte" using state_byte_inj by (simp add: inj_def)
  then have m: "map state_byte ss = map state_byte ts \<longleftrightarrow> ss = ts" for ss ts by (simp add: inj_map_eq_map)
  have "trace_page_body p = trace_page_body q \<longleftrightarrow>
      tp_trace p = tp_trace q \<and> tp_next_record p = tp_next_record q \<and> tp_states p = tp_states q"
    using trace_body_append_iff [OF assms(1,2)] assms(3,4) by (simp add: trace_page_body_def f m)
  also have "\<dots> \<longleftrightarrow> p = q" by (auto intro: trace_page_result.equality)
  finally show ?thesis using trace_body_append_iff [OF assms(1,2), of "[]" "[]"] by simp
qed

definition sample_page :: trace_page_result where
  "sample_page = \<lparr>tp_trace = \<lparr>tr_complete = True, tr_records = [\<lparr>tr_id = ''a'', tr_values =
     [\<lparr>tv_field = ''body'', tv_value_index = 0, tv_spans = [\<lparr>sp_start = 0, sp_end = 3\<rparr>]\<rparr>]\<rparr>]\<rparr>,
     tp_next_record = 1, tp_states = [\<lparr>ts_membership = Some True, ts_analysis_complete = True, ts_spans_complete = False\<rparr>]\<rparr>"

theorem trace_bodies_exact_witness:
  "trace_page_body sample_page \<noteq> trace_page_body (sample_page\<lparr>tp_states := []\<rparr>)"
proof -
  have "wf_trace (tp_trace sample_page)"
    by (simp add: sample_page_def wf_trace_def wf_record_match_def wf_value_match_def short_def)
  then show ?thesis
    using trace_bodies_exact [of sample_page "sample_page\<lparr>tp_states := []\<rparr>"] by (simp add: sample_page_def)
qed

definition enc_hit :: "search_hit \<Rightarrow> u8 list" where
  "enc_hit hit = to_le 4 (unat (hit_score hit)) @ enc_text (hit_id hit) @
     (case hit_version hit of None \<Rightarrow> [0] | Some version \<Rightarrow> 1 # enc_text version)"

definition wf_hit :: "search_hit \<Rightarrow> bool" where
  "wf_hit hit \<longleftrightarrow> short (hit_id hit) \<and> (\<forall>v. hit_version hit = Some v \<longrightarrow> short v)"

lemma push_hit_appends: "appends push_hit enc_hit"
  by (simp add: appends_def push_hit_def enc_hit_def push_string_eq push_flag_def Let_def split: option.split)

lemma hit_delimits: "delimits enc_hit wf_hit"
  unfolding delimits_def
  by (auto simp: enc_hit_def wf_hit_def split: option.splits intro: search_hit.equality)

definition wf_search_result :: "search_result \<Rightarrow> bool" where
  "wf_search_result r \<longleftrightarrow> length (sr_hits r) < 4294967296 \<and> list_all wf_hit (sr_hits r) \<and>
     sr_encoded_aggregations r = None \<and> (\<forall>s m. sr_traversal r = Some (s, m) \<longrightarrow> short s)"

text \<open>
  A search response determines the hits. Without aggregations, and between two requests that
  both ask or both do not ask for a traversal, equal bodies mean the same total with the same
  relation, the same hits in the same order with the same score bits and versions, and the same
  traversal state.
\<close>

theorem search_body_exact:
  assumes "wf_search_result a" "wf_search_result b" "sr_traversal a = None \<longleftrightarrow> sr_traversal b = None"
  shows "search_body a = search_body b \<longleftrightarrow> a = b"
proof
  assume e: "search_body a = search_body b"
  have body: "search_body r = to_le 8 (unat (sr_total r)) @ [case sr_total_relation r of Exact \<Rightarrow> 0 | Lower_Bound \<Rightarrow> 1] @
      to_le 4 (length (sr_hits r)) @ concat (map enc_hit (sr_hits r)) @ to_le 4 0 @
      (case sr_traversal r of None \<Rightarrow> [] | Some (s, m) \<Rightarrow> enc_text s @ [if m then 1 else 0])" if "wf_search_result r" for r
    using that
    by (auto simp: search_body_def Let_def foldl_appends [OF push_hit_appends] push_u64_def push_string_eq push_flag_def
        wf_search_result_def split: option.split)
  have e1: "sr_total a = sr_total b" "sr_total_relation a = sr_total_relation b" "length (sr_hits a) = length (sr_hits b)"
    "concat (map enc_hit (sr_hits a)) @ to_le 4 0 @ (case sr_traversal a of None \<Rightarrow> [] | Some (s, m) \<Rightarrow> enc_text s @ [if m then 1 else 0]) =
     concat (map enc_hit (sr_hits b)) @ to_le 4 0 @ (case sr_traversal b of None \<Rightarrow> [] | Some (s, m) \<Rightarrow> enc_text s @ [if m then 1 else 0])"
    using e assms(1,2) unfolding body [OF assms(1)] body [OF assms(2)]
    by (auto simp: wf_search_result_def split: total_relation.splits)
  then have h: "sr_hits a = sr_hits b"
    "(case sr_traversal a of None \<Rightarrow> [] | Some (s, m) \<Rightarrow> enc_text s @ [if m then 1 else 0]) =
     (case sr_traversal b of None \<Rightarrow> [] | Some (s, m) \<Rightarrow> enc_text s @ [if m then 1 else (0 :: u8)])"
    using delimits_many [OF hit_delimits e1(3)] assms(1,2) by (simp_all add: wf_search_result_def)
  then have "sr_traversal a = sr_traversal b"
    using assms by (auto simp: wf_search_result_def split: option.splits if_splits)
  then show "a = b"
    using e1 h assms(1,2) by (auto simp: wf_search_result_def intro: search_result.equality)
qed simp

definition sample_result :: search_result where
  "sample_result = \<lparr>sr_encoded_aggregations = None, sr_total = 1, sr_total_relation = Exact,
     sr_hits = [\<lparr>hit_id = ''a'', hit_score = f32_hundred, hit_version = Some ''v1''\<rparr>], sr_traversal = Some (''s'', False)\<rparr>"

theorem search_body_exact_witness:
  "search_body sample_result \<noteq> search_body (sample_result\<lparr>sr_total_relation := Lower_Bound\<rparr>)"
proof -
  have "wf_search_result sample_result" "wf_search_result (sample_result\<lparr>sr_total_relation := Lower_Bound\<rparr>)"
    by (simp_all add: sample_result_def wf_search_result_def wf_hit_def short_def)
  then show ?thesis
    using search_body_exact [of sample_result "sample_result\<lparr>sr_total_relation := Lower_Bound\<rparr>"]
    by (simp add: sample_result_def)
qed
end
