(* ===== verification/Runtime.thy ===== *)
theory Runtime
  imports Queue Budget Telemetry Response Batch_Codec
begin

text \<open>
  A native index runtime of \<^verbatim>\<open>src/src/native.rs\<close>: the completions that answer JavaScript
  callbacks, the native calls that admit commands to the queues, the writer thread with its state
  machine, poisoning, and the teardown that hands back the reservation and the path.  The index
  itself (\<open>Writer\<close>, \<open>Engine\<close> and the reader, wrappers of the third-party index library) is a
  parameter: what each of its calls returns, or that it panics, is an argument of the step.
  Every definition is what one thread does while it holds the locks the code takes; the step
  relation of the theory Lifecycle interleaves them.
\<close>

section \<open>Completions\<close>

text \<open>A callback is a number; \<open>callback.take()\<close> leaves \<open>None\<close>, so a callback is called at most once.\<close>

record completion =
  co_ticket :: "ticket option"
  co_callback :: "nat option"

datatype writer_operation =
    Apply "u8 list"
  | Commit
  | Publish string
  | Reload
  | Close_Writer bool

record writer_command =
  wc_operation :: writer_operation
  wc_completion :: completion

text \<open>
  \<open>rt_answers\<close> is history: the callbacks that were taken, with the bytes sent to them and whether
  the callback gate was still open, so that the call really happened.  The state byte of the
  runtime is the one of its metrics, which the code shares as well.
\<close>

record runtime =
  rt_metrics :: metrics
  rt_handle :: u32
  rt_path :: string
  rt_path_identity :: path_identity
  rt_environment :: nat
  rt_config :: engine_config
  rt_read_only :: bool
  rt_writer_present :: bool
  rt_writer :: "writer_command bounded_queue"
  rt_ordinary :: "completion search_command bounded_queue"
  rt_expensive :: "completion search_command bounded_queue option"
  rt_search_shared :: queue_shared
  rt_uncommitted :: u64
  rt_commit_opstamp :: u64
  rt_writer_queue_ns :: u64
  rt_writer_execution_ns :: u64
  rt_search_queue_ns :: u64
  rt_search_execution_ns :: u64
  rt_reservation :: "admission_kind option"
  rt_budget :: runtime_budget_state
  rt_process :: process_state
  rt_closed :: bool
  rt_answers :: "(nat \<times> u8 list \<times> bool) list"

definition rt_state :: "runtime \<Rightarrow> u8" where
  "rt_state r = me_state (rt_metrics r)"

definition set_state :: "u8 \<Rightarrow> runtime \<Rightarrow> runtime" where
  "set_state s r = r\<lparr>rt_metrics := (rt_metrics r)\<lparr>me_state := s\<rparr>\<rparr>"

definition gate_alive :: "runtime \<Rightarrow> bool" where
  "gate_alive r = ps_alive (rt_process r) (rt_environment r)"

definition with_ticket :: "(ticket \<times> metrics \<Rightarrow> ticket \<times> metrics) \<Rightarrow> completion \<times> runtime \<Rightarrow> completion \<times> runtime" where
  "with_ticket f s = (case s of (c, r) \<Rightarrow>
     (case co_ticket c of
        None \<Rightarrow> (c, r)
      | Some t \<Rightarrow> (case f (t, rt_metrics r) of (t, m) \<Rightarrow> (c\<lparr>co_ticket := Some t\<rparr>, r\<lparr>rt_metrics := m\<rparr>))))"

definition completion_send :: "u8 list \<Rightarrow> completion \<times> runtime \<Rightarrow> completion \<times> runtime" where
  "completion_send bytes s = (case s of (c, r) \<Rightarrow>
     (case co_callback c of
        None \<Rightarrow> (c, r)
      | Some k \<Rightarrow> (c\<lparr>co_callback := None\<rparr>, r\<lparr>rt_answers := rt_answers r @ [(k, bytes, gate_alive r)]\<rparr>)))"

definition completion_record :: "nat \<Rightarrow> string option \<Rightarrow> completion \<times> runtime \<Rightarrow> completion \<times> runtime" where
  "completion_record now error = with_ticket (settle_ticket now error)"

definition ended_error :: fulltext_error where
  "ended_error = fulltext_error_new ''E_CLOSED'' ''native operation ended before completion''"

text \<open>\<open>Drop for Completion\<close>: a completion that was never accepted is dropped silently (its call
  returned the error), any other is settled and its callback answered.\<close>

definition completion_drop :: "nat \<Rightarrow> completion \<times> runtime \<Rightarrow> runtime" where
  "completion_drop now s = (case s of (c, r) \<Rightarrow>
     if (case co_ticket c of Some t \<Rightarrow> \<not> ti_accepted t | None \<Rightarrow> False)
     then snd (with_ticket (drop_ticket now) (c, r))
     else (case completion_record now (Some ''E_CLOSED'') (c, r) of (c, r) \<Rightarrow>
       snd (if co_callback c \<noteq> None then completion_send (error_envelope ended_error) (c, r) else (c, r))))"

definition completion_success :: "nat \<Rightarrow> u8 list \<Rightarrow> completion \<times> runtime \<Rightarrow> runtime" where
  "completion_success now body s =
     completion_drop now (completion_send (success_envelope body) (completion_record now None s))"

definition completion_failure :: "nat \<Rightarrow> fulltext_error \<Rightarrow> completion \<times> runtime \<Rightarrow> runtime" where
  "completion_failure now error s =
     completion_drop now (completion_send (error_envelope error) (completion_record now (Some (err_code error)) s))"

definition settle :: "nat \<Rightarrow> u8 list res \<Rightarrow> completion \<times> runtime \<Rightarrow> runtime" where
  "settle now result s = (case result of
     Ok body \<Rightarrow> completion_success now body s
   | Err error \<Rightarrow> completion_failure now error s)"

definition arm_completion :: "nat \<Rightarrow> completion \<times> runtime \<Rightarrow> completion \<times> runtime" where
  "arm_completion enqueued = with_ticket (arm_at enqueued)"

section \<open>Guards\<close>

definition require_open :: "runtime \<Rightarrow> unit res" where
  "require_open r =
     (if rt_state r = STATE_OPEN then Ok ()
      else if rt_state r = STATE_POISONED then Err (fulltext_error_new ''E_POISONED'' ''index is poisoned'')
      else Err closed_error)"

definition require_writable :: "runtime \<Rightarrow> unit res" where
  "require_writable r = and_then (require_open r) (\<lambda>_.
     if rt_read_only r then Err (fulltext_error_new ''E_READ_ONLY'' ''index handle is read-only'') else Ok ())"

section \<open>Admission to the queues\<close>

definition no_shared :: queue_shared where
  "no_shared = \<lparr>shared_budget = None, shared_wake = None\<rparr>"

text \<open>The command as it sits in the queue has its ticket armed; arming counts it as accepted.\<close>

definition armed_writer :: "writer_command \<Rightarrow> nat \<Rightarrow> writer_command" where
  "armed_writer command now = command\<lparr>wc_completion := (wc_completion command)
     \<lparr>co_ticket := map_option (\<lambda>t. fst (arm_at now (t, metrics_new 0))) (co_ticket (wc_completion command))\<rparr>\<rparr>"

definition armed_search :: "completion search_command \<Rightarrow> nat \<Rightarrow> completion search_command" where
  "armed_search command now = command\<lparr>sc_completion := (sc_completion command)
     \<lparr>co_ticket := map_option (\<lambda>t. fst (arm_at now (t, metrics_new 0))) (co_ticket (sc_completion command))\<rparr>\<rparr>"

definition enqueue_writer :: "nat \<Rightarrow> writer_command \<Rightarrow> nat \<Rightarrow> runtime \<Rightarrow> unit res \<times> runtime" where
  "enqueue_writer now command bytes r =
     (let refuse = \<lambda>e. (Err e, completion_drop now (wc_completion command, r)) in
      case require_open r of
        Err e \<Rightarrow> refuse e
      | Ok () \<Rightarrow>
          (case try_push_tracked command bytes (require_open r) armed_writer now (rt_writer r, no_shared) of
             Err e \<Rightarrow> refuse e
           | Ok (q, _) \<Rightarrow> (Ok (), (snd (arm_completion now (wc_completion command, r)))\<lparr>rt_writer := q\<rparr>)))"

text \<open>A forced push that is refused drops its command.\<close>

definition force_writer :: "nat \<Rightarrow> writer_command \<Rightarrow> (writer_command \<Rightarrow> nat \<Rightarrow> writer_command) \<Rightarrow> unit res \<Rightarrow> runtime \<Rightarrow>
     unit res \<times> runtime" where
  "force_writer now command accepted admission r =
     (case push_force_tracked_if command 0 admission accepted now (rt_writer r, no_shared) of
        Err e \<Rightarrow> (Err e, completion_drop now (wc_completion command, r))
      | Ok (q, _) \<Rightarrow> (Ok (), r\<lparr>rt_writer := q\<rparr>))"

definition force_writer_armed :: "nat \<Rightarrow> writer_command \<Rightarrow> runtime \<Rightarrow> unit res \<times> runtime" where
  "force_writer_armed now command r =
     (case push_force_tracked command 0 armed_writer now (rt_writer r, no_shared) of
        Err e \<Rightarrow> (Err e, completion_drop now (wc_completion command, r))
      | Ok (q, _) \<Rightarrow> (Ok (), (snd (arm_completion now (wc_completion command, r)))\<lparr>rt_writer := q\<rparr>))"

definition search_lane :: "bool \<Rightarrow> runtime \<Rightarrow> completion search_command bounded_queue \<times> queue_shared" where
  "search_lane expensive r =
     (if expensive then (case rt_expensive r of Some q \<Rightarrow> q | None \<Rightarrow> rt_ordinary r) else rt_ordinary r,
      rt_search_shared r)"

definition set_search_lane :: "bool \<Rightarrow> completion search_command bounded_queue \<times> queue_shared \<Rightarrow> runtime \<Rightarrow> runtime" where
  "set_search_lane expensive s r =
     (let r = r\<lparr>rt_search_shared := snd s\<rparr> in
      if expensive \<and> rt_expensive r \<noteq> None then r\<lparr>rt_expensive := Some (fst s)\<rparr> else r\<lparr>rt_ordinary := fst s\<rparr>)"

definition enqueue_search :: "nat \<Rightarrow> bool \<Rightarrow> completion search_command \<Rightarrow> nat \<Rightarrow> runtime \<Rightarrow> unit res \<times> runtime" where
  "enqueue_search now expensive command bytes r =
     (case try_push_tracked command bytes (Ok ()) armed_search now (search_lane expensive r) of
        Err e \<Rightarrow> (Err e, completion_drop now (sc_completion command, r))
      | Ok s \<Rightarrow> (Ok (), set_search_lane expensive s (snd (arm_completion now (sc_completion command, r)))))"

section \<open>Poisoning and forced close\<close>

definition is_close :: "writer_command queued \<Rightarrow> bool" where
  "is_close item = (case wc_operation (q_value item) of Close_Writer _ \<Rightarrow> True | _ \<Rightarrow> False)"

definition force_rollback :: "writer_command \<Rightarrow> writer_command" where
  "force_rollback command = command\<lparr>wc_operation := Close_Writer True\<rparr>"

definition fail_command :: "nat \<Rightarrow> fulltext_error \<Rightarrow> writer_command \<Rightarrow> runtime \<Rightarrow> runtime" where
  "fail_command now error command r = completion_failure now error (wc_completion command, r)"

definition fail_search :: "nat \<Rightarrow> fulltext_error \<Rightarrow> completion search_command queued \<Rightarrow> runtime \<Rightarrow> runtime" where
  "fail_search now error item r = completion_failure now error (sc_completion (q_value item), r)"

text \<open>The loop over the drained writer queue keeps the first close and fails the others.\<close>

fun fail_all_but_close :: "nat \<Rightarrow> fulltext_error \<Rightarrow> writer_command queued list \<Rightarrow> writer_command option \<Rightarrow> runtime \<Rightarrow>
    writer_command option \<times> runtime" where
  "fail_all_but_close now error [] kept r = (kept, r)"
| "fail_all_but_close now error (item # items) kept r =
     (if is_close item \<and> kept = None then fail_all_but_close now error items (Some (q_value item)) r
      else fail_all_but_close now error items kept (fail_command now error (q_value item) r))"

definition close_lane :: "bool \<Rightarrow> nat \<Rightarrow> fulltext_error \<Rightarrow> runtime \<Rightarrow> runtime" where
  "close_lane expensive now error r =
     (case close_queue (search_lane expensive r) of (items, s) \<Rightarrow>
       fold (fail_search now error) items (set_search_lane expensive s r))"

definition poison :: "nat \<Rightarrow> fulltext_error \<Rightarrow> runtime \<Rightarrow> runtime" where
  "poison now error r =
     (let r = set_state STATE_POISONED r in
      case drain (rt_writer r, no_shared) of (items, q, _) \<Rightarrow>
      case fail_all_but_close now error items None (r\<lparr>rt_writer := q\<rparr>) of (kept, r) \<Rightarrow>
      let r = (case kept of None \<Rightarrow> r
               | Some command \<Rightarrow> snd (force_writer now (force_rollback command) (\<lambda>c _. c) (Ok ()) r));
          r = close_lane False now error r
      in if rt_expensive r \<noteq> None then close_lane True now error r else r)"

definition rollback_command :: writer_command where
  "rollback_command = \<lparr>wc_operation = Close_Writer True, wc_completion = \<lparr>co_ticket = None, co_callback = None\<rparr>\<rparr>"

text \<open>The check that \<open>force_close\<close> makes under the queue's lock moves the state to closing.\<close>

definition force_close :: "nat \<Rightarrow> runtime \<Rightarrow> runtime" where
  "force_close now r =
     (let admissible = \<not> (rt_state r = STATE_CLOSED \<or> rt_state r = STATE_CLOSING);
          admission = (if admissible then Ok () else Err closed_error)
      in case force_writer now rollback_command (\<lambda>c _. c) admission r of
           (Ok (), r) \<Rightarrow> set_state STATE_CLOSING r
         | (Err _, r) \<Rightarrow> r)"

section \<open>Native calls\<close>

definition on_metrics :: "(metrics \<Rightarrow> metrics) \<Rightarrow> runtime \<Rightarrow> runtime" where
  "on_metrics f r = r\<lparr>rt_metrics := f (rt_metrics r)\<rparr>"

text \<open>\<open>observe_operation\<close> around a call; the errors of the call are counted as rejections.\<close>

definition observed_call :: "nat \<Rightarrow> (runtime \<Rightarrow> unit res \<times> runtime) \<Rightarrow> runtime \<Rightarrow> unit res \<times> runtime" where
  "observed_call op run r =
     (case run (on_metrics (attempt_metric op) r) of
        (Ok (), r) \<Rightarrow> (Ok (), r)
      | (Err e, r) \<Rightarrow> (Err e, on_metrics (reject_metric op (err_code e)) r))"

definition new_completion :: "nat \<Rightarrow> nat \<Rightarrow> nat \<Rightarrow> completion" where
  "new_completion callback op bytes = \<lparr>co_ticket = Some (ticket_new op bytes), co_callback = Some callback\<rparr>"

text \<open>A check that fails returns before a completion exists.\<close>

definition checked :: "unit res \<Rightarrow> (runtime \<Rightarrow> unit res \<times> runtime) \<Rightarrow> runtime \<Rightarrow> unit res \<times> runtime" where
  "checked check f r = (case check of Err e \<Rightarrow> (Err e, r) | Ok () \<Rightarrow> f r)"

definition native_apply :: "nat \<Rightarrow> nat \<Rightarrow> u8 list \<Rightarrow> runtime \<Rightarrow> unit res \<times> runtime" where
  "native_apply now callback packed_batch = observed_call 0 (\<lambda>r.
     checked (require_writable r) (
     checked (validate_batch_header packed_batch (max_batch_bytes (ec_limits (rt_config r)))) (
     checked (check_capacity (rt_writer r) no_shared (length packed_batch)) (
       enqueue_writer now \<lparr>wc_operation = Apply packed_batch,
         wc_completion = new_completion callback 0 (length packed_batch)\<rparr> (length packed_batch)))) r)"

definition native_commit :: "nat \<Rightarrow> nat \<Rightarrow> runtime \<Rightarrow> unit res \<times> runtime" where
  "native_commit now callback = observed_call 1 (\<lambda>r.
     checked (require_writable r) (
       enqueue_writer now \<lparr>wc_operation = Commit, wc_completion = new_completion callback 1 0\<rparr> 0) r)"

definition payload_check :: "string \<Rightarrow> unit res" where
  "payload_check payload =
     (if MAX_COMMIT_PAYLOAD_BYTES < length payload
      then Err (invalid (''commit payload exceeds '' @ nat_digits MAX_COMMIT_PAYLOAD_BYTES @ '' UTF-8 bytes'')) else Ok ())"

definition native_publish :: "nat \<Rightarrow> nat \<Rightarrow> string \<Rightarrow> runtime \<Rightarrow> unit res \<times> runtime" where
  "native_publish now callback payload = observed_call 2 (\<lambda>r.
     checked (payload_check payload) (
     checked (require_writable r) (
       enqueue_writer now \<lparr>wc_operation = Publish payload,
         wc_completion = new_completion callback 2 (length payload)\<rparr> (length payload))) r)"

definition native_reload :: "nat \<Rightarrow> nat \<Rightarrow> runtime \<Rightarrow> unit res \<times> runtime" where
  "native_reload now callback = observed_call 3
     (enqueue_writer now \<lparr>wc_operation = Reload, wc_completion = new_completion callback 3 0\<rparr> 0)"

definition search_is_expensive_for_config :: "u8 list \<Rightarrow> engine_config \<Rightarrow> bool res" where
  "search_is_expensive_for_config bytes config =
     classify_search bytes (length (id_fields (ec_identity config))) (max_query_terms (ec_limits config))
       (max_query_clauses (ec_limits config))"

definition native_classification :: "u8 list \<Rightarrow> runtime \<Rightarrow> bool res" where
  "native_classification packed_request r =
     and_then (require_open r) (\<lambda>_.
     and_then (validate_search_header packed_request) (\<lambda>_.
       search_is_expensive_for_config packed_request (rt_config r)))"

definition search_metric_operation :: "bool res \<Rightarrow> nat" where
  "search_metric_operation classification = (case classification of Ok True \<Rightarrow> 6 | _ \<Rightarrow> 5)"

definition native_search :: "nat \<Rightarrow> nat \<Rightarrow> u8 list \<Rightarrow> runtime \<Rightarrow> unit res \<times> runtime" where
  "native_search now callback packed_request r =
     (let classification = native_classification packed_request r;
          metric_op = search_metric_operation classification
      in observed_call metric_op (\<lambda>r.
           case classification of
             Err e \<Rightarrow> (Err e, r)
           | Ok expensive \<Rightarrow>
               checked (check_capacity (fst (search_lane expensive r)) (snd (search_lane expensive r)) (length packed_request))
                 (enqueue_search now expensive \<lparr>sc_operation = Search_Operation packed_request expensive,
                    sc_completion = new_completion callback metric_op (length packed_request)\<rparr> (length packed_request)) r) r)"

definition native_trace_matches :: "nat \<Rightarrow> nat \<Rightarrow> u8 list \<Rightarrow> runtime \<Rightarrow> unit res \<times> runtime" where
  "native_trace_matches now callback packed_request = observed_call 7 (\<lambda>r.
     checked (require_open r) (
     checked (validate_trace_header packed_request) (
     checked (check_capacity (fst (search_lane True r)) (snd (search_lane True r)) (length packed_request)) (
       enqueue_search now True \<lparr>sc_operation = Trace_Operation packed_request,
         sc_completion = new_completion callback 7 (length packed_request)\<rparr> (length packed_request)))) r)"

definition close_command :: "nat \<Rightarrow> bool \<Rightarrow> writer_command" where
  "close_command callback rollback =
     \<lparr>wc_operation = Close_Writer rollback, wc_completion = new_completion callback 4 0\<rparr>"

definition native_close :: "nat \<Rightarrow> nat \<Rightarrow> bool \<Rightarrow> runtime \<Rightarrow> unit res \<times> runtime" where
  "native_close now callback rollback = observed_call 4 (\<lambda>r.
     if rt_state r = STATE_OPEN
     then force_writer_armed now (close_command callback rollback) (set_state STATE_CLOSING r)
     else if rt_state r = STATE_CLOSED
     then (Ok (), completion_success now [] (arm_completion now (new_completion callback 4 0, r)))
     else if rt_state r = STATE_POISONED
     then force_writer_armed now (close_command callback True) r
     else (Err (fulltext_error_new ''E_CLOSED'' ''index is closing or poisoned''),
           completion_drop now (new_completion callback 4 0, r)))"

definition status_bytes :: "runtime \<Rightarrow> u8 list" where
  "status_bytes r =
     (let expensive_commands = (case rt_expensive r of None \<Rightarrow> 0 | Some q \<Rightarrow> queued_commands q);
          expensive_bytes = (case rt_expensive r of None \<Rightarrow> 0 | Some q \<Rightarrow> queued_bytes q)
      in foldl push_u64 [rt_state r]
           [rt_uncommitted r, queued_commands (rt_writer r), queued_bytes (rt_writer r),
            queued_commands (rt_ordinary r) + expensive_commands, queued_bytes (rt_ordinary r) + expensive_bytes,
            rt_commit_opstamp r, rt_writer_queue_ns r, rt_writer_execution_ns r, rt_search_queue_ns r,
            rt_search_execution_ns r])"

definition native_status :: "runtime \<Rightarrow> u8 list" where
  "native_status r = success_envelope (status_bytes r)"

section \<open>The writer thread\<close>

record close_outcome =
  cl_quiesced :: bool
  cl_error :: "fulltext_error option"

datatype writer_outcome =
    Continue "u8 list res"
  | Stop close_outcome
  | Poison "u8 list res" fulltext_error

text \<open>What the index answers while one command runs; each call may panic.\<close>

record index_answers =
  an_prepare :: "mutation_batch \<Rightarrow> unit res unwind"
  an_apply :: "u64 res unwind"
  an_commit :: "u64 res unwind"
  an_commit_duration :: nat
  an_reload_owned :: "(unit, string) result unwind"
  an_reload :: "string option res unwind"
  an_reload_duration :: nat
  an_close :: "unit res unwind"

definition try_then :: "'a res unwind \<Rightarrow> ('a \<Rightarrow> 'b res unwind) \<Rightarrow> 'b res unwind" where
  "try_then m f = (case m of
     Panicked \<Rightarrow> Panicked
   | Returned (Err e) \<Rightarrow> Returned (Err e)
   | Returned (Ok x) \<Rightarrow> f x)"

definition active_writer :: "runtime \<Rightarrow> unit res" where
  "active_writer r =
     (if rt_writer_present r then Ok () else Err (fulltext_error_new ''E_POISONED'' ''writer is unavailable''))"

definition poisoned_generation :: "string \<Rightarrow> fulltext_error" where
  "poisoned_generation what = fulltext_error_new ''E_POISONED'' (what @ '' and the index generation is terminal'')"

definition run_apply :: "index_answers \<Rightarrow> u8 list \<Rightarrow> completion \<times> runtime \<Rightarrow> writer_outcome unwind \<times> completion \<times> runtime" where
  "run_apply an bytes s = (case s of (c, r) \<Rightarrow>
     (case try_then (Returned (decode_batch bytes)) (\<lambda>batch. try_then (Returned (active_writer r)) (\<lambda>_. an_prepare an batch)) of
        Panicked \<Rightarrow> (Panicked, s)
      | Returned (Err e) \<Rightarrow> (Returned (Continue (Err e)), s)
      | Returned (Ok ()) \<Rightarrow>
          (case try_then (Returned (active_writer r)) (\<lambda>_. an_apply an) of
             Panicked \<Rightarrow> (Panicked, s)
           | Returned (Err e) \<Rightarrow>
               (Returned (Poison (Err e) (poisoned_generation ''a mutation failed after writer state changed'')), s)
           | Returned (Ok mutated) \<Rightarrow>
               (case with_ticket (ticket_mutations mutated) s of (c, r) \<Rightarrow>
                 (Returned (Continue (Ok (u64_body mutated))), c, r\<lparr>rt_uncommitted := rt_uncommitted r + mutated\<rparr>)))))"

definition run_phase :: "nat \<Rightarrow> nat \<Rightarrow> 'a res unwind \<Rightarrow> runtime \<Rightarrow> 'a res unwind \<times> runtime" where
  "run_phase phase duration outcome r =
     (case observe_phase phase duration outcome (rt_metrics r) of (o', m) \<Rightarrow> (o', r\<lparr>rt_metrics := m\<rparr>))"

definition committed :: "u64 \<Rightarrow> runtime \<Rightarrow> runtime" where
  "committed opstamp r = r\<lparr>rt_uncommitted := 0, rt_commit_opstamp := opstamp\<rparr>"

definition run_commit :: "index_answers \<Rightarrow> runtime \<Rightarrow> writer_outcome unwind \<times> runtime" where
  "run_commit an r =
     (case (case active_writer r of
              Err e \<Rightarrow> (Returned (Err e), r)
            | Ok () \<Rightarrow> run_phase 0 (an_commit_duration an) (an_commit an) r) of
        (Panicked, r) \<Rightarrow> (Panicked, r)
      | (Returned (Ok opstamp), r) \<Rightarrow> (Returned (Continue (Ok (u64_body opstamp))), committed opstamp r)
      | (Returned (Err e), r) \<Rightarrow>
          (if err_code e = ''E_CHECKPOINT_REQUIRED'' then (Returned (Continue (Err e)), r)
           else (Returned (Poison (Err e) (poisoned_generation ''a prior commit failed'')), r)))"

definition native_result :: "(unit, string) result unwind \<Rightarrow> unit res unwind" where
  "native_result x = (case x of Panicked \<Rightarrow> Panicked | Returned (Ok ()) \<Rightarrow> Returned (Ok ()) | Returned (Err m) \<Rightarrow> Returned (Err (native m)))"

definition run_publish :: "index_answers \<Rightarrow> runtime \<Rightarrow> writer_outcome unwind \<times> runtime" where
  "run_publish an r =
     (let failed = \<lambda>e r. (Returned (Poison (Err e) (poisoned_generation ''a publish failed after writer state changed'')), r) in
      case (case active_writer r of
              Err e \<Rightarrow> (Returned (Err e), r)
            | Ok () \<Rightarrow> run_phase 0 (an_commit_duration an) (an_commit an) r) of
        (Panicked, r) \<Rightarrow> (Panicked, r)
      | (Returned (Err e), r) \<Rightarrow> failed e r
      | (Returned (Ok opstamp), r) \<Rightarrow>
          (case run_phase 1 (an_reload_duration an) (native_result (an_reload_owned an)) r of
             (Panicked, r) \<Rightarrow> (Panicked, r)
           | (Returned (Err e), r) \<Rightarrow> failed e r
           | (Returned (Ok ()), r) \<Rightarrow> (Returned (Continue (Ok (u64_body opstamp))), committed opstamp r)))"

definition run_reload :: "index_answers \<Rightarrow> runtime \<Rightarrow> writer_outcome unwind \<times> runtime" where
  "run_reload an r =
     (case run_phase 1 (an_reload_duration an) (an_reload an) r of
        (Panicked, r) \<Rightarrow> (Panicked, r)
      | (Returned (Err e), r) \<Rightarrow> (Returned (Continue (Err e)), r)
      | (Returned (Ok payload), r) \<Rightarrow> (Returned (Continue (Ok (payload_body payload))), r))"

text \<open>\<open>finish_writer_close\<close> takes the writer out before it closes it.\<close>

definition finish_writer_close :: "unit res unwind \<Rightarrow> runtime \<Rightarrow> close_outcome unwind \<times> runtime" where
  "finish_writer_close closing r =
     (if \<not> rt_writer_present r
      then (Returned (if rt_read_only r then \<lparr>cl_quiesced = True, cl_error = None\<rparr>
              else \<lparr>cl_quiesced = False, cl_error = Some (fulltext_error_new ''E_POISONED'' ''writer is unavailable'')\<rparr>), r)
      else (case closing of
              Panicked \<Rightarrow> Panicked
            | Returned (Ok ()) \<Rightarrow> Returned \<lparr>cl_quiesced = True, cl_error = None\<rparr>
            | Returned (Err e) \<Rightarrow> Returned \<lparr>cl_quiesced = False, cl_error = Some e\<rparr>,
            r\<lparr>rt_writer_present := False\<rparr>))"

definition close_writer :: "nat \<Rightarrow> unit res unwind \<Rightarrow> runtime \<Rightarrow> close_outcome unwind \<times> runtime" where
  "close_writer now closing r = finish_writer_close closing (on_metrics (begin_teardown_at now) r)"

definition dirty_close_error :: fulltext_error where
  "dirty_close_error = fulltext_error_new ''E_DIRTY_CLOSE''
     ''index has uncommitted mutations; publish (or commit if uncheckpointed), or close with rollback''"

definition run_close :: "nat \<Rightarrow> index_answers \<Rightarrow> bool \<Rightarrow> runtime \<Rightarrow> writer_outcome unwind \<times> runtime" where
  "run_close now an rollback r =
     (if \<not> rollback \<and> 0 < rt_uncommitted r \<and> rt_state r = STATE_CLOSING
      then (Returned (Continue (Err dirty_close_error)), set_state STATE_OPEN r)
      else (case close_writer now (an_close an) r of
              (Panicked, r) \<Rightarrow> (Panicked, r)
            | (Returned outcome, r) \<Rightarrow> (Returned (Stop outcome), r)))"

definition run_writer_operation ::
    "nat \<Rightarrow> index_answers \<Rightarrow> writer_operation \<Rightarrow> completion \<times> runtime \<Rightarrow> writer_outcome unwind \<times> completion \<times> runtime" where
  "run_writer_operation now an operation s = (case s of (c, r) \<Rightarrow>
     (case operation of
        Apply bytes \<Rightarrow> run_apply an bytes s
      | Commit \<Rightarrow> (case run_commit an r of (outcome, r) \<Rightarrow> (outcome, c, r))
      | Publish _ \<Rightarrow> (case run_publish an r of (outcome, r) \<Rightarrow> (outcome, c, r))
      | Reload \<Rightarrow> (case run_reload an r of (outcome, r) \<Rightarrow> (outcome, c, r))
      | Close_Writer rollback \<Rightarrow> (case run_close now an rollback r of (outcome, r) \<Rightarrow> (outcome, c, r))))"

section \<open>Teardown\<close>

definition release_reservation :: "runtime \<Rightarrow> runtime" where
  "release_reservation r = (case rt_reservation r of
     None \<Rightarrow> r
   | Some a \<Rightarrow> r\<lparr>rt_reservation := None, rt_budget := drop_admission a (rt_budget r)\<rparr>)"

definition retain_reservation :: "runtime \<Rightarrow> runtime" where
  "retain_reservation r = (case rt_reservation r of
     None \<Rightarrow> r
   | Some a \<Rightarrow> r\<lparr>rt_reservation := None, rt_budget := retain_until_restart a (rt_budget r)\<rparr>)"

definition shutdown_lane :: "bool \<Rightarrow> runtime \<Rightarrow> runtime" where
  "shutdown_lane expensive r = set_search_lane expensive (shutdown_after_drain (search_lane expensive r)) r"

definition shutdown_searches :: "runtime \<Rightarrow> runtime" where
  "shutdown_searches r =
     (let r = shutdown_lane False r in if rt_expensive r \<noteq> None then shutdown_lane True r else r)"

definition close_writer_queue :: "nat \<Rightarrow> runtime \<Rightarrow> runtime" where
  "close_writer_queue now r =
     (case close_queue (rt_writer r, no_shared) of (items, q, _) \<Rightarrow>
       fold (\<lambda>item r. completion_drop now (wc_completion (q_value item), r)) items (r\<lparr>rt_writer := q\<rparr>))"

text \<open>
  \<open>finish_runtime\<close> around the join of the search threads: \<open>finish_shutdown\<close> is what it does
  before, \<open>finish_joined\<close> after; \<open>panicked\<close> tells whether a search thread panicked and
  \<open>actors_released\<close> whether engine and reader are no longer shared.
\<close>

definition join_outcome :: "bool \<Rightarrow> bool \<Rightarrow> close_outcome \<Rightarrow> close_outcome" where
  "join_outcome panicked actors_released outcome =
     (let outcome = (if panicked \<and> cl_error outcome = None
            then outcome\<lparr>cl_error := Some (fulltext_error_new ''E_NATIVE_PANIC'' ''native search actor panicked'')\<rparr>
            else outcome)
      in if actors_released then outcome
         else outcome\<lparr>cl_quiesced := False, cl_error := Some (case cl_error outcome of
            Some e \<Rightarrow> e
          | None \<Rightarrow> fulltext_error_new ''E_NATIVE_FAILURE'' ''native actors retained index resources after shutdown'')\<rparr>)"

definition hand_back :: "bool \<Rightarrow> runtime \<Rightarrow> runtime" where
  "hand_back quiesced r =
     (if quiesced
      then (let r = release_reservation (set_state STATE_CLOSED r) in
            r\<lparr>rt_process := release_runtime (rt_handle r) (rt_path_identity r) (rt_environment r) (rt_process r)\<rparr>)
      else (let r = retain_reservation (set_state STATE_POISONED r) in
            r\<lparr>rt_process := release_runtime_handle (rt_handle r) (rt_path r) (rt_path_identity r) (rt_environment r) (rt_process r)\<rparr>))"

definition finish_joined :: "nat \<Rightarrow> bool \<Rightarrow> bool \<Rightarrow> close_outcome \<Rightarrow> runtime \<Rightarrow> close_outcome \<times> runtime" where
  "finish_joined now panicked actors_released outcome r =
     (let outcome = join_outcome panicked actors_released outcome;
          r = hand_back (cl_quiesced outcome) (close_writer_queue now r)
      in (outcome, on_metrics (finish_teardown_at now (cl_quiesced outcome \<and> cl_error outcome = None)) r))"

definition finish_unproven_joined :: "nat \<Rightarrow> runtime \<Rightarrow> runtime" where
  "finish_unproven_joined now r = on_metrics (finish_teardown_at now False) (hand_back False (close_writer_queue now r))"

definition close_result :: "close_outcome \<Rightarrow> u8 list res" where
  "close_result outcome = (case (cl_quiesced outcome, cl_error outcome) of
     (True, None) \<Rightarrow> Ok []
   | (True, Some error) \<Rightarrow> Err (fulltext_error_new ''E_CLOSE_FAILED''
       (''native resources were released, but shutdown reported: '' @ display_error error))
   | (False, Some error) \<Rightarrow> Err (quiescence_error error)
   | (False, None) \<Rightarrow> Err (quiescence_error (fulltext_error_new ''E_NATIVE_FAILURE'' ''native writer shutdown failed'')))"

section \<open>The turns of the threads\<close>

definition take_writer :: "nat \<Rightarrow> writer_command queued \<Rightarrow> runtime \<Rightarrow> completion \<times> runtime" where
  "take_writer now item r = with_ticket (start_at now)
     (wc_completion (q_value item), r\<lparr>rt_writer_queue_ns := rt_writer_queue_ns r + duration_ns (now - q_enqueued item)\<rparr>)"

text \<open>What the writer still has to say when its search threads are joined.\<close>

datatype farewell = After_Stop close_outcome | After_Panic close_outcome | After_Unproven | After_Close_Panic

definition writer_panic :: fulltext_error where
  "writer_panic = fulltext_error_new ''E_NATIVE_PANIC'' ''native writer actor panicked''"

datatype writer_next = Again runtime | Leave farewell completion runtime

text \<open>
  From the end of the command to the next turn of the loop, or to the join of the search threads
  (\<open>Leave\<close>); \<open>closing\<close> is what a second \<open>close_writer\<close>, after a panic, meets.
\<close>

definition end_command :: "nat \<Rightarrow> nat \<Rightarrow> unit res unwind \<Rightarrow> writer_outcome unwind \<Rightarrow> completion \<times> runtime \<Rightarrow> writer_next" where
  "end_command now elapsed closing outcome s = (case s of (c, r) \<Rightarrow>
     let r = r\<lparr>rt_writer_execution_ns := rt_writer_execution_ns r + duration_ns elapsed\<rparr> in
     (case outcome of
        Returned (Continue result) \<Rightarrow> Again (settle now result (c, r))
      | Returned (Stop closed) \<Rightarrow> Leave (After_Stop closed) c (shutdown_searches r)
      | Returned (Poison result error) \<Rightarrow> Again (poison now error (settle now result (c, r)))
      | Panicked \<Rightarrow>
          (case close_writer now closing (poison now writer_panic r) of
             (Returned closed, r) \<Rightarrow> Leave (After_Panic closed) c (shutdown_searches r)
           | (Panicked, r) \<Rightarrow> Leave After_Close_Panic c (shutdown_searches r))))"

definition panic_farewell :: "close_outcome \<Rightarrow> fulltext_error" where
  "panic_farewell outcome =
     (if cl_quiesced outcome then writer_panic
      else quiescence_error (case cl_error outcome of Some e \<Rightarrow> e
        | None \<Rightarrow> fulltext_error_new ''E_NATIVE_FAILURE'' ''native writer shutdown failed''))"

text \<open>After the join: \<open>finish_runtime\<close>, or \<open>finish_unproven_runtime\<close> when the teardown itself panicked.\<close>

definition say_farewell :: "nat \<Rightarrow> bool \<Rightarrow> bool \<Rightarrow> farewell \<Rightarrow> completion \<Rightarrow> runtime \<Rightarrow> runtime" where
  "say_farewell now panicked released f c r = (case f of
     After_Stop closed \<Rightarrow>
       (case finish_joined now panicked released closed r of (outcome, r) \<Rightarrow> settle now (close_result outcome) (c, r))
   | After_Panic closed \<Rightarrow>
       (case finish_joined now panicked released closed r of (outcome, r) \<Rightarrow> completion_failure now (panic_farewell outcome) (c, r))
   | After_Unproven \<Rightarrow> completion_failure now (quiescence_error (fulltext_error_new ''E_NATIVE_PANIC''
       ''native runtime teardown panicked'')) (c, finish_unproven_joined now r)
   | After_Close_Panic \<Rightarrow> completion_failure now (quiescence_error (fulltext_error_new ''E_NATIVE_PANIC''
       ''native writer shutdown panicked'')) (c, finish_unproven_joined now r))"

definition signal_closed :: "runtime \<Rightarrow> runtime" where
  "signal_closed r = r\<lparr>rt_closed := True\<rparr>"

text \<open>The search workers: \<open>execute_search_command\<close> before and after the engine runs.\<close>

definition take_search :: "nat \<Rightarrow> nat \<Rightarrow> completion search_command queued \<Rightarrow> runtime \<Rightarrow> completion \<times> runtime" where
  "take_search now worker item r =
     (let r = r\<lparr>rt_search_queue_ns := rt_search_queue_ns r + duration_ns (now - q_enqueued item)\<rparr> in
      with_ticket dispatch_ticket (with_ticket (\<lambda>(t, m). (bind_worker worker m t, m)) (sc_completion (q_value item), r)))"

definition search_panic :: fulltext_error where
  "search_panic = fulltext_error_new ''E_NATIVE_PANIC'' ''native search actor panicked''"

text \<open>\<open>operation_deadline\<close>: the budget minus the time in the queue, or a timeout.\<close>

definition operation_deadline :: "nat \<Rightarrow> nat \<Rightarrow> nat \<Rightarrow> nat res" where
  "operation_deadline now budget_milliseconds queued_for =
     (let budget = budget_milliseconds * 1000000 in
      if budget < queued_for then Err search_timeout else Ok (now + (budget - queued_for)))"

definition started_search :: "nat \<Rightarrow> completion \<times> runtime \<Rightarrow> completion \<times> runtime" where
  "started_search started = with_ticket (start_at started)"

definition finished_search :: "nat \<Rightarrow> nat \<Rightarrow> completion \<times> runtime \<Rightarrow> completion \<times> runtime" where
  "finished_search started finished s =
     (case with_ticket (\<lambda>(t, m). (finish_at finished t, m)) s of (c, r) \<Rightarrow>
       (c, r\<lparr>rt_search_execution_ns := rt_search_execution_ns r + duration_ns (finished - started)\<rparr>))"

definition end_search :: "nat \<Rightarrow> u8 list res unwind \<Rightarrow> completion \<times> runtime \<Rightarrow> bool \<times> runtime" where
  "end_search now result s = (case result of
     Returned (Ok response) \<Rightarrow> (True, completion_drop now (completion_send response (completion_record now None s)))
   | Returned (Err error) \<Rightarrow> (True, completion_failure now error s)
   | Panicked \<Rightarrow> (False, poison now search_panic (completion_failure now search_panic s)))"

section \<open>Completions answer exactly once\<close>

definition owed :: "completion \<Rightarrow> nat multiset" where
  "owed c = (case co_callback c of None \<Rightarrow> {#} | Some k \<Rightarrow> {#k#})"

definition accepted_completion :: "completion \<Rightarrow> bool" where
  "accepted_completion c \<longleftrightarrow> (\<forall>t. co_ticket c = Some t \<longrightarrow> ti_accepted t)"

definition answered :: "runtime \<Rightarrow> nat multiset" where
  "answered r = mset (map fst (rt_answers r))"

text \<open>All that a completion changes in its runtime is the metrics and the answers.\<close>

definition answers_only :: "runtime \<Rightarrow> runtime \<Rightarrow> nat multiset \<Rightarrow> bool" where
  "answers_only r r' ks \<longleftrightarrow> (\<exists>m as. r' = r\<lparr>rt_metrics := m, rt_answers := as\<rparr> \<and> me_state m = rt_state r) \<and>
     answered r' = answered r + ks"

lemma me_state_simps [simp]:
  "me_state (on_actor c f m) = me_state m" "me_state (on_admission op g m) = me_state m"
  "me_state (attempt_metric op m) = me_state m" "me_state (reject_metric op e m) = me_state m"
  "me_state (phase_metric p d b m) = me_state m" "me_state (begin_teardown_at n m) = me_state m"
  "me_state (finish_teardown_at n b m) = me_state m"
  by (simp_all add: on_actor_def on_admission_def attempt_metric_def reject_metric_def phase_metric_def Let_def
      begin_teardown_at_def finish_teardown_at_def split: option.split)

lemma ticket_ops_state:
  "me_state (snd (settle_ticket now e (t, m))) = me_state m" "me_state (snd (arm_at now (t, m))) = me_state m"
  "me_state (snd (dispatch_ticket (t, m))) = me_state m" "me_state (snd (start_at now (t, m))) = me_state m"
  "me_state (snd (ticket_mutations n (t, m))) = me_state m"
  by (auto simp: settle_ticket_def settle_durations_def record_queue_def record_execution_def arm_at_def dispatch_ticket_def
      start_at_def ticket_mutations_def Let_def split: option.splits prod.splits)

lemma ticket_ops_accepted:
  "ti_accepted (fst (settle_ticket now e (t, m))) = ti_accepted t" "ti_accepted (fst (arm_at now (t, m)))"
  "ti_accepted (fst (dispatch_ticket (t, m))) = ti_accepted t" "ti_accepted (fst (start_at now (t, m))) = ti_accepted t"
  "ti_accepted (fst (ticket_mutations n (t, m))) = ti_accepted t"
  "ti_accepted (bind_worker w m t) = ti_accepted t" "ti_accepted (finish_at now t) = ti_accepted t"
  by (auto simp: settle_ticket_def arm_at_def dispatch_ticket_def start_at_def ticket_mutations_def bind_worker_def
      finish_at_def Let_def split: option.splits prod.splits)

definition benign :: "(ticket \<times> metrics \<Rightarrow> ticket \<times> metrics) \<Rightarrow> bool" where
  "benign f \<longleftrightarrow> (\<forall>t m. me_state (snd (f (t, m))) = me_state m \<and> (ti_accepted t \<longrightarrow> ti_accepted (fst (f (t, m)))))"

lemma benign_ops [simp]:
  "benign (settle_ticket now e)" "benign (drop_ticket now)" "benign (arm_at now)" "benign dispatch_ticket"
  "benign (start_at now)" "benign (ticket_mutations n)" "benign (\<lambda>(t, m). (bind_worker w m t, m))"
  "benign (\<lambda>(t, m). (finish_at now t, m))"
  by (simp_all add: benign_def ticket_ops_state ticket_ops_accepted drop_ticket_def)

lemma answers_only_refl: "answers_only r r {#}"
  unfolding answers_only_def rt_state_def
  by (rule conjI, rule exI [of _ "rt_metrics r"], rule exI [of _ "rt_answers r"]) simp_all

lemma answers_only_trans: "answers_only r r' a \<Longrightarrow> answers_only r' r'' b \<Longrightarrow> answers_only r r'' (a + b)"
  unfolding answers_only_def rt_state_def by fastforce

lemma with_ticket_effect:
  assumes "benign f" "with_ticket f (c, r) = (c', r')"
  shows "co_callback c' = co_callback c \<and> (accepted_completion c \<longrightarrow> accepted_completion c') \<and> answers_only r r' {#}"
proof (cases "co_ticket c")
  case None
  then show ?thesis using assms(2) answers_only_refl by (auto simp: with_ticket_def)
next
  case (Some t)
  obtain t' m' where f: "f (t, rt_metrics r) = (t', m')" by fastforce
  then have "me_state m' = rt_state r" "ti_accepted t \<longrightarrow> ti_accepted t'"
    using assms(1) unfolding benign_def rt_state_def by (metis fst_conv snd_conv)+
  moreover have "answers_only r (r\<lparr>rt_metrics := m'\<rparr>) {#}"
    unfolding answers_only_def using calculation
    by (intro conjI exI [of _ m'] exI [of _ "rt_answers r"]) (simp_all add: answered_def)
  ultimately show ?thesis
    using assms(2) Some f by (auto simp: with_ticket_def accepted_completion_def)
qed

lemma completion_send_effect:
  assumes "completion_send bytes (c, r) = (c', r')"
  shows "co_callback c' = None \<and> co_ticket c' = co_ticket c \<and> answers_only r r' (owed c)"
proof (cases "co_callback c")
  case None
  then show ?thesis using assms answers_only_refl [of r] by (auto simp: completion_send_def owed_def)
next
  case (Some k)
  then have "c' = c\<lparr>co_callback := None\<rparr>" "r' = r\<lparr>rt_answers := rt_answers r @ [(k, bytes, gate_alive r)]\<rparr>"
    using assms by (auto simp: completion_send_def)
  then show ?thesis
    using Some unfolding answers_only_def
    by (auto simp: answered_def owed_def rt_state_def
        intro!: exI [of _ "rt_metrics r"] exI [of _ "rt_answers r @ [(k, bytes, gate_alive r)]"])
qed

lemma completion_record_effect:
  assumes "completion_record now e (c, r) = (c', r')"
  shows "co_callback c' = co_callback c \<and> (accepted_completion c \<longrightarrow> accepted_completion c') \<and> answers_only r r' {#}"
  using with_ticket_effect [of "settle_ticket now e" c r] assms by (simp add: completion_record_def)

lemma completion_drop_effect:
  shows "accepted_completion c \<Longrightarrow> answers_only r (completion_drop now (c, r)) (owed c)"
    and "\<not> accepted_completion c \<Longrightarrow> answers_only r (completion_drop now (c, r)) {#}"
proof -
  assume a: "accepted_completion c"
  obtain c1 r1 where rec: "completion_record now (Some ''E_CLOSED'') (c, r) = (c1, r1)" by fastforce
  note e1 = completion_record_effect [OF rec]
  obtain c2 r2 where send: "completion_send (error_envelope ended_error) (c1, r1) = (c2, r2)" by fastforce
  note e2 = completion_send_effect [OF send]
  have d: "completion_drop now (c, r) = (if co_callback c1 \<noteq> None then r2 else r1)"
    using a rec send by (auto simp: completion_drop_def accepted_completion_def split: option.splits)
  show "answers_only r (completion_drop now (c, r)) (owed c)"
  proof (cases "co_callback c1")
    case None
    then show ?thesis using d e1 by (simp add: owed_def)
  next
    case (Some k)
    then have "answers_only r r2 ({#} + owed c1)" using e1 e2 by (intro answers_only_trans [of r r1]) auto
    then show ?thesis using d e1 Some by (simp add: owed_def)
  qed
next
  assume a: "\<not> accepted_completion c"
  then have "completion_drop now (c, r) = snd (with_ticket (drop_ticket now) (c, r))"
    by (auto simp: completion_drop_def accepted_completion_def)
  then show "answers_only r (completion_drop now (c, r)) {#}"
    using with_ticket_effect [of "drop_ticket now" c r] by (metis benign_ops(2) prod.collapse)
qed

text \<open>Recording, sending and dropping a completion: its callback, if any, is answered once.\<close>

lemma answer_effect:
  assumes "accepted_completion c"
  shows "answers_only r (completion_drop now (completion_send bytes (completion_record now e (c, r)))) (owed c)"
proof -
  obtain c1 r1 where rec: "completion_record now e (c, r) = (c1, r1)" by fastforce
  note e1 = completion_record_effect [OF rec]
  obtain c2 r2 where send: "completion_send bytes (c1, r1) = (c2, r2)" by fastforce
  note e2 = completion_send_effect [OF send]
  have "answers_only r2 (completion_drop now (c2, r2)) {#}"
    using completion_drop_effect [of c2 r2 now] e2 by (cases "accepted_completion c2") (simp_all add: owed_def)
  then have "answers_only r (completion_drop now (c2, r2)) (({#} + owed c1) + {#})"
    using e1 e2 by (intro answers_only_trans [of r r2] answers_only_trans [of r r1]) auto
  then show ?thesis using e1 by (simp add: rec send owed_def)
qed

lemma completion_success_effect: "accepted_completion c \<Longrightarrow> answers_only r (completion_success now b (c, r)) (owed c)"
  unfolding completion_success_def by (rule answer_effect)

lemma completion_failure_effect: "accepted_completion c \<Longrightarrow> answers_only r (completion_failure now e (c, r)) (owed c)"
  unfolding completion_failure_def by (rule answer_effect)

lemma settle_effect: "accepted_completion c \<Longrightarrow> answers_only r (settle now x (c, r)) (owed c)"
  by (cases x) (simp_all add: settle_def completion_success_effect completion_failure_effect)

text \<open>The callbacks owed by a whole queue, and the effect of answering all of it.\<close>

definition owed_all :: "completion list \<Rightarrow> nat multiset" where
  "owed_all cs = sum_list (map owed cs)"

lemma owed_all_simps [simp]:
  "owed_all [] = {#}" "owed_all (c # cs) = owed c + owed_all cs" "owed_all (cs @ ds) = owed_all cs + owed_all ds"
  by (simp_all add: owed_all_def)

definition writer_completions :: "writer_command queued list \<Rightarrow> completion list" where
  "writer_completions items = map (wc_completion \<circ> q_value) items"

definition search_completions :: "completion search_command queued list \<Rightarrow> completion list" where
  "search_completions items = map (sc_completion \<circ> q_value) items"

lemma fold_effect:
  assumes "\<And>x r. x \<in> set xs \<Longrightarrow> answers_only r (f x r) (g x)"
  shows "answers_only r (fold f xs r) (sum_list (map g xs))"
  using assms
proof (induction xs arbitrary: r)
  case (Cons x xs)
  then have "answers_only r (f x r) (g x)" "answers_only (f x r) (fold f xs (f x r)) (sum_list (map g xs))" by simp_all
  then show ?case using answers_only_trans by fastforce
qed (simp add: answers_only_refl)

lemma fail_searches_effect:
  assumes "list_all accepted_completion (search_completions items)"
  shows "answers_only r (fold (fail_search now e) items r) (owed_all (search_completions items))"
proof -
  have "answers_only r (fold (fail_search now e) items r) (sum_list (map (\<lambda>x. owed (sc_completion (q_value x))) items))"
    using assms
    by (intro fold_effect) (auto simp: fail_search_def search_completions_def list_all_iff intro: completion_failure_effect)
  then show ?thesis by (simp add: owed_all_def search_completions_def comp_def)
qed

lemma drop_writers_effect:
  assumes "list_all accepted_completion (writer_completions items)"
  shows "answers_only r (fold (\<lambda>item r. completion_drop now (wc_completion (q_value item), r)) items r)
    (owed_all (writer_completions items))"
proof -
  have "answers_only r (fold (\<lambda>item r. completion_drop now (wc_completion (q_value item), r)) items r)
      (sum_list (map (\<lambda>x. owed (wc_completion (q_value x))) items))"
    using assms by (intro fold_effect completion_drop_effect) (auto simp: writer_completions_def list_all_iff)
  then show ?thesis by (simp add: owed_all_def writer_completions_def comp_def)
qed

definition owed_kept :: "writer_command option \<Rightarrow> nat multiset" where
  "owed_kept kept = (case kept of None \<Rightarrow> {#} | Some command \<Rightarrow> owed (wc_completion command))"

lemma fail_all_but_close_effect:
  assumes "fail_all_but_close now e items kept r = (kept', r')"
    "list_all accepted_completion (writer_completions items)"
  shows "\<exists>ks. answers_only r r' ks \<and> ks + owed_kept kept' = owed_all (writer_completions items) + owed_kept kept \<and>
    (kept' = kept \<or> (kept = None \<and> (\<exists>item\<in>set items. kept' = Some (q_value item))))"
  using assms
proof (induction items arbitrary: kept r)
  case Nil
  then show ?case using answers_only_refl by (auto simp: writer_completions_def)
next
  case (Cons item items)
  have a: "accepted_completion (wc_completion (q_value item))" "list_all accepted_completion (writer_completions items)"
    using Cons.prems(2) by (simp_all add: writer_completions_def)
  show ?case
  proof (cases "is_close item \<and> kept = None")
    case True
    then have "fail_all_but_close now e items (Some (q_value item)) r = (kept', r')" using Cons.prems(1) by simp
    from Cons.IH [OF this a(2)] obtain ks where "answers_only r r' ks"
      "ks + owed_kept kept' = owed_all (writer_completions items) + owed_kept (Some (q_value item))"
      "kept' = Some (q_value item)" by auto
    then show ?thesis using True by (intro exI [of _ ks]) (auto simp: writer_completions_def owed_kept_def)
  next
    case False
    let ?r = "fail_command now e (q_value item) r"
    have f: "answers_only r ?r (owed (wc_completion (q_value item)))"
      unfolding fail_command_def by (rule completion_failure_effect [OF a(1)])
    have "fail_all_but_close now e items kept ?r = (kept', r')" using Cons.prems(1) False by auto
    from Cons.IH [OF this a(2)] obtain ks where ks: "answers_only ?r r' ks"
      "ks + owed_kept kept' = owed_all (writer_completions items) + owed_kept kept"
      "kept' = kept \<or> (kept = None \<and> (\<exists>x\<in>set items. kept' = Some (q_value x)))" by auto
    have "answers_only r r' (owed (wc_completion (q_value item)) + ks)" by (rule answers_only_trans [OF f ks(1)])
    moreover have "(owed (wc_completion (q_value item)) + ks) + owed_kept kept' =
        owed_all (writer_completions (item # items)) + owed_kept kept"
      using ks(2) by (simp add: writer_completions_def add.assoc)
    moreover have "kept' = kept \<or> (kept = None \<and> (\<exists>x\<in>set (item # items). kept' = Some (q_value x)))"
      using ks(3) by auto
    ultimately show ?thesis by blast
  qed
qed

end
