(* ===== verification/Lifecycle.thy ===== *)
theory Lifecycle
  imports Runtime
begin

text \<open>
  The threads of one runtime together.  Native calls, the writer thread and the search workers
  act on the runtime of \<open>Runtime\<close> in any order; the first part proves what each of their
  operations does to the callbacks (\<open>effect\<close>), the second composes the operations to a step
  relation, and the third states what holds in every reachable state: no accepted callback is
  lost or answered twice, what a finished runtime has released, and which closes are refused.
\<close>

section \<open>Balance of the callbacks\<close>

definition queue_completions :: "runtime \<Rightarrow> completion list" where
  "queue_completions r = writer_completions (qs_items (rt_writer r)) @ search_completions (qs_items (rt_ordinary r)) @
     (case rt_expensive r of None \<Rightarrow> [] | Some q \<Rightarrow> search_completions (qs_items q))"

definition balance :: "runtime \<Rightarrow> nat multiset" where
  "balance r = answered r + owed_all (queue_completions r)"

definition queues_accepted :: "runtime \<Rightarrow> bool" where
  "queues_accepted r \<longleftrightarrow> list_all accepted_completion (queue_completions r)"

definition lane_sealed :: "'a bounded_queue \<Rightarrow> bool" where
  "lane_sealed q \<longleftrightarrow> qs_closed q \<and> qs_items q = []"

definition lanes_closed :: "runtime \<Rightarrow> bool" where
  "lanes_closed r \<longleftrightarrow> qs_closed (rt_ordinary r) \<and> (\<forall>q. rt_expensive r = Some q \<longrightarrow> qs_closed q)"

definition lanes_sealed :: "runtime \<Rightarrow> bool" where
  "lanes_sealed r \<longleftrightarrow> lane_sealed (rt_ordinary r) \<and> (\<forall>q. rt_expensive r = Some q \<longrightarrow> lane_sealed q)"

definition final :: "runtime \<Rightarrow> bool" where
  "final r \<longleftrightarrow> lane_sealed (rt_writer r) \<and> lanes_sealed r \<and> rt_state r \<in> {STATE_CLOSED, STATE_POISONED} \<and>
     rt_reservation r = None"

text \<open>What a step of some thread does to a runtime, with the callbacks it adds to the balance.\<close>

definition effect :: "runtime \<Rightarrow> runtime \<Rightarrow> nat multiset \<Rightarrow> bool" where
  "effect r r' ks \<longleftrightarrow> (queues_accepted r \<longrightarrow> queues_accepted r' \<and> balance r' = balance r + ks \<and>
     (rt_expensive r' = None \<longleftrightarrow> rt_expensive r = None) \<and>
     (lane_sealed (rt_ordinary r) \<longrightarrow> lane_sealed (rt_ordinary r')) \<and>
     (lanes_closed r \<longrightarrow> lanes_closed r') \<and> (lanes_sealed r \<longrightarrow> lanes_sealed r') \<and> (final r \<longrightarrow> final r'))"

lemma effect_refl: "effect r r {#}"
  by (simp add: effect_def)

lemma effect_trans: "effect r r' a \<Longrightarrow> effect r' r'' b \<Longrightarrow> effect r r'' (a + b)"
  by (auto simp: effect_def add.assoc)

lemma effect_trans0: "effect r r' {#} \<Longrightarrow> effect r' r'' b \<Longrightarrow> effect r r'' b"
  using effect_trans [of r r' "{#}"] by simp

lemma effect_trans1: "effect r r' a \<Longrightarrow> effect r' r'' {#} \<Longrightarrow> effect r r'' a"
  using effect_trans [of r r' a r'' "{#}"] by simp

lemmas runtime_view_defs = queue_completions_def lanes_closed_def lanes_sealed_def final_def rt_state_def

text \<open>Steps that leave queues, state and reservation alone.\<close>

definition same_view :: "runtime \<Rightarrow> runtime \<Rightarrow> bool" where
  "same_view r r' \<longleftrightarrow> rt_writer r' = rt_writer r \<and> rt_ordinary r' = rt_ordinary r \<and> rt_expensive r' = rt_expensive r \<and>
     rt_state r' = rt_state r \<and> rt_reservation r' = rt_reservation r"

lemma same_view_effect: "same_view r r' \<Longrightarrow> answered r' = answered r + ks \<Longrightarrow> effect r r' ks"
  by (auto simp: effect_def same_view_def queues_accepted_def balance_def runtime_view_defs add.assoc add.commute [of ks])

lemma answers_only_view: "answers_only r r' ks \<Longrightarrow> same_view r r' \<and> answered r' = answered r + ks"
  by (auto simp: answers_only_def same_view_def rt_state_def)

lemma answers_only_effect: "answers_only r r' ks \<Longrightarrow> effect r r' ks"
  using answers_only_view same_view_effect by blast

lemma on_metrics_effect: "me_state (f (rt_metrics r)) = me_state (rt_metrics r) \<Longrightarrow> effect r (on_metrics f r) {#}"
  by (rule same_view_effect) (simp_all add: same_view_def on_metrics_def rt_state_def answered_def)

section \<open>Pushing\<close>

lemma try_push_items:
  "try_push_tracked v bytes adm acc now (q, sh) = Ok (q', sh') \<Longrightarrow>
     \<not> qs_closed q \<and> \<not> qs_closed q' \<and> qs_items q' = qs_items q @ [\<lparr>q_value = acc v now, q_bytes = bytes, q_enqueued = now\<rparr>]"
  by (auto simp: try_push_tracked_def and_then_Ok_iff validate_capacity_def split: if_splits)

lemma push_force_items:
  "push_force_tracked_if v bytes adm acc now (q, sh) = Ok (q', sh') \<Longrightarrow>
     \<not> qs_closed q \<and> \<not> qs_closed q' \<and> adm = Ok () \<and>
     qs_items q' = qs_items q @ [\<lparr>q_value = acc v now, q_bytes = bytes, q_enqueued = now\<rparr>]"
  by (auto simp: push_force_tracked_if_def and_then_Ok_iff split: if_splits)

lemma arm_effect: "effect r (snd (arm_completion now (c, r))) {#}"
  using with_ticket_effect [of "arm_at now" c r] answers_only_effect
  unfolding arm_completion_def by (metis benign_ops(3) prod.collapse)

lemma armed_completion:
  "accepted_completion (c\<lparr>co_ticket := map_option (\<lambda>t. fst (arm_at now (t, m))) (co_ticket c)\<rparr>)"
  "owed (c\<lparr>co_ticket := x\<rparr>) = owed c"
  by (auto simp: accepted_completion_def ticket_ops_accepted owed_def)

lemma writer_append_effect:
  assumes "\<not> qs_closed (rt_writer r)" "\<not> qs_closed q" "qs_items q = qs_items (rt_writer r) @ [x]"
    "accepted_completion (wc_completion (q_value x))"
  shows "effect r (r\<lparr>rt_writer := q\<rparr>) (owed (wc_completion (q_value x)))"
  using assms
  by (auto simp: effect_def queues_accepted_def balance_def runtime_view_defs lane_sealed_def writer_completions_def
      answered_def ac_simps)

lemma unaccepted_effect: "\<not> accepted_completion c \<Longrightarrow> effect r (completion_drop now (c, r)) {#}"
  using completion_drop_effect(2) answers_only_effect by blast

definition call_result :: "nat multiset \<Rightarrow> runtime \<Rightarrow> unit res \<times> runtime \<Rightarrow> bool" where
  "call_result ks r x \<longleftrightarrow> effect r (snd x) (if is_ok (fst x) then ks else {#})"

lemma arm_writer_field: "rt_writer (snd (arm_completion now (c, r))) = rt_writer r"
  by (auto simp: arm_completion_def with_ticket_def split: option.splits prod.splits)

lemma arm_search_fields:
  "rt_ordinary (snd (arm_completion now (c, r))) = rt_ordinary r" "rt_expensive (snd (arm_completion now (c, r))) = rt_expensive r"
  "search_lane e (snd (arm_completion now (c, r))) = search_lane e r"
  by (auto simp: arm_completion_def with_ticket_def search_lane_def split: option.splits prod.splits)

lemma armed_push_effect:
  assumes "\<not> qs_closed (rt_writer r)" "\<not> qs_closed q"
    "qs_items q = qs_items (rt_writer r) @ [\<lparr>q_value = armed_writer command now, q_bytes = b, q_enqueued = now\<rparr>]"
  shows "effect r ((snd (arm_completion now (wc_completion command, r)))\<lparr>rt_writer := q\<rparr>) (owed (wc_completion command))"
proof -
  let ?r = "snd (arm_completion now (wc_completion command, r))"
  have "effect ?r (?r\<lparr>rt_writer := q\<rparr>) (owed (wc_completion (armed_writer command now)))"
    using writer_append_effect [of ?r q] assms by (simp add: arm_writer_field armed_writer_def armed_completion)
  then show ?thesis using effect_trans0 [OF arm_effect] by (simp add: armed_writer_def armed_completion)
qed

lemma enqueue_writer_result:
  assumes "\<not> accepted_completion (wc_completion command)"
  shows "call_result (owed (wc_completion command)) r (enqueue_writer now command bytes r)"
  using unaccepted_effect [OF assms, of r now]
  by (auto simp: call_result_def enqueue_writer_def Let_def split: result.split unit.split prod.split
      intro: armed_push_effect dest!: try_push_items)

lemma force_writer_armed_result:
  assumes "\<not> accepted_completion (wc_completion command)"
  shows "call_result (owed (wc_completion command)) r (force_writer_armed now command r)"
  using unaccepted_effect [OF assms, of r now]
  by (auto simp: call_result_def force_writer_armed_def push_force_tracked_def split: result.split prod.split
      intro: armed_push_effect dest!: push_force_items)

lemma search_lane_set:
  "rt_expensive (set_search_lane e s r) = None \<longleftrightarrow> rt_expensive r = None"
  "rt_writer (set_search_lane e s r) = rt_writer r" "rt_metrics (set_search_lane e s r) = rt_metrics r"
  "rt_reservation (set_search_lane e s r) = rt_reservation r" "rt_answers (set_search_lane e s r) = rt_answers r"
  by (simp_all add: set_search_lane_def Let_def)

lemma search_append_effect:
  assumes "\<not> qs_closed (fst (search_lane e r))" "\<not> qs_closed (fst s)" "qs_items (fst s) = qs_items (fst (search_lane e r)) @ [x]"
    "accepted_completion (sc_completion (q_value x))"
  shows "effect r (set_search_lane e s r) (owed (sc_completion (q_value x)))"
proof (cases "e \<and> rt_expensive r \<noteq> None")
  case True
  then obtain q where q: "rt_expensive r = Some q" "e" by auto
  then have "set_search_lane e s r = r\<lparr>rt_search_shared := snd s, rt_expensive := Some (fst s)\<rparr>"
    by (simp add: set_search_lane_def Let_def)
  then show ?thesis
    using assms q
    by (simp add: effect_def queues_accepted_def balance_def runtime_view_defs lane_sealed_def search_completions_def
        answered_def search_lane_def)
next
  case False
  then have "set_search_lane e s r = r\<lparr>rt_search_shared := snd s, rt_ordinary := fst s\<rparr>" "fst (search_lane e r) = rt_ordinary r"
    by (auto simp: set_search_lane_def search_lane_def Let_def)
  then show ?thesis
    using assms
    by (simp add: effect_def queues_accepted_def balance_def runtime_view_defs lane_sealed_def search_completions_def
        answered_def)
qed

lemma enqueue_search_result:
  assumes "\<not> accepted_completion (sc_completion command)"
  shows "call_result (owed (sc_completion command)) r (enqueue_search now e command bytes r)"
proof (cases "try_push_tracked command bytes (Ok ()) armed_search now (search_lane e r)")
  case (Err x)
  then show ?thesis using unaccepted_effect [OF assms, of r now] by (simp add: enqueue_search_def call_result_def)
next
  case (Ok s)
  obtain q sh where s: "s = (q, sh)" by (cases s)
  let ?r = "snd (arm_completion now (sc_completion command, r))"
  let ?x = "\<lparr>q_value = armed_search command now, q_bytes = bytes, q_enqueued = now\<rparr>"
  have q: "\<not> qs_closed (fst (search_lane e r))" "\<not> qs_closed q" "qs_items q = qs_items (fst (search_lane e r)) @ [?x]"
    using try_push_items [of command bytes _ _ now "fst (search_lane e r)" "snd (search_lane e r)" q sh] Ok s by auto
  have "effect ?r (set_search_lane e s ?r) (owed (sc_completion (armed_search command now)))"
    using search_append_effect [of e ?r s ?x] q s by (simp add: arm_search_fields armed_search_def armed_completion)
  then show ?thesis
    using effect_trans0 [OF arm_effect] Ok by (simp add: enqueue_search_def call_result_def armed_search_def armed_completion)
qed

section \<open>Native calls\<close>

lemma new_completion_owed [simp]: "owed (new_completion k op n) = {#k#}" "\<not> accepted_completion (new_completion k op n)"
  by (simp_all add: owed_def new_completion_def accepted_completion_def ticket_new_def)

lemma observed_call_result:
  assumes "\<And>r. call_result ks r (run r)"
  shows "call_result ks r (observed_call op run r)"
proof -
  obtain x r' where run: "run (on_metrics (attempt_metric op) r) = (x, r')" by fastforce
  have "effect (on_metrics (attempt_metric op) r) r' (if is_ok x then ks else {#})"
    using assms [of "on_metrics (attempt_metric op) r"] by (simp add: call_result_def run)
  then have e: "effect r r' (if is_ok x then ks else {#})"
    by (rule effect_trans0 [OF on_metrics_effect, rotated]) simp
  show ?thesis
  proof (cases x)
    case (Err err)
    have "effect r (on_metrics (reject_metric op (err_code err)) r') {#}"
      using effect_trans1 [OF e [unfolded Err, simplified] on_metrics_effect] by simp
    then show ?thesis using Err by (simp add: observed_call_def run call_result_def)
  next
    case (Ok u)
    then show ?thesis using e by (simp add: observed_call_def run call_result_def split: unit.split)
  qed
qed

lemma checked_result: "(check = Ok () \<Longrightarrow> call_result ks r (f r)) \<Longrightarrow> call_result ks r (checked check f r)"
  by (cases check) (auto simp: checked_def call_result_def effect_refl split: unit.split)

lemma call_result_Err: "effect r r' {#} \<Longrightarrow> call_result ks r (Err e, r')"
  by (simp add: call_result_def)

lemma set_closing_effect:
  assumes "rt_state r = STATE_OPEN"
  shows "effect r (set_state STATE_CLOSING r) {#}"
  using assms
  by (simp add: effect_def queues_accepted_def balance_def runtime_view_defs set_state_def answered_def STATE_OPEN_def
      STATE_CLOSED_def STATE_POISONED_def)

lemmas call_result_intros = observed_call_result checked_result enqueue_writer_result enqueue_search_result
  force_writer_armed_result

lemma writer_call_results:
  "call_result {#k#} r (native_apply now k bytes r)" "call_result {#k#} r (native_commit now k r)"
  "call_result {#k#} r (native_publish now k payload r)" "call_result {#k#} r (native_reload now k r)"
  unfolding native_apply_def native_commit_def native_publish_def native_reload_def
  by (intro observed_call_result checked_result;
      rule enqueue_writer_result [of "\<lparr>wc_operation = _, wc_completion = new_completion k _ _\<rparr>", simplified])+

lemma native_search_result: "call_result {#k#} r (native_search now k bytes r)"
proof -
  have "call_result {#k#} s (enqueue_search now e \<lparr>sc_operation = x, sc_completion = new_completion k op n\<rparr> m s)" for e x op n m s
    using enqueue_search_result [of "\<lparr>sc_operation = x, sc_completion = new_completion k op n\<rparr>" s now e m] by simp
  then show ?thesis
    unfolding native_search_def Let_def
    by (cases "native_classification bytes r")
      (auto intro!: observed_call_result checked_result simp: call_result_Err effect_refl)
qed

lemma native_trace_matches_result: "call_result {#k#} r (native_trace_matches now k bytes r)"
  unfolding native_trace_matches_def
  by (intro observed_call_result checked_result
      enqueue_search_result [of "\<lparr>sc_operation = _, sc_completion = new_completion k _ _\<rparr>", simplified])

lemma native_close_result: "call_result {#k#} r (native_close now k rollback r)"
proof -
  have forced: "call_result {#k#} s (force_writer_armed now (close_command k b) s)" for b s
    using force_writer_armed_result [of "close_command k b" s now] by (simp add: close_command_def)
  have closing: "call_result {#k#} s (force_writer_armed now (close_command k b) (set_state STATE_CLOSING s))"
    if "rt_state s = STATE_OPEN" for b s
    using forced [of "set_state STATE_CLOSING s" b] effect_trans0 [OF set_closing_effect [OF that]]
    by (simp add: call_result_def)
  have done_: "call_result {#k#} s (Ok (), completion_success now [] (arm_completion now (new_completion k 4 0, s)))" for s
  proof -
    obtain c r' where a: "arm_completion now (new_completion k 4 0, s) = (c, r')" by fastforce
    have "accepted_completion c" "owed c = {#k#}"
      using a by (auto simp: arm_completion_def with_ticket_def new_completion_def accepted_completion_def owed_def
          ticket_ops_accepted split: prod.splits) (metis fst_conv ticket_ops_accepted(2))
    then have "effect r' (completion_success now [] (c, r')) {#k#}"
      using completion_success_effect answers_only_effect by metis
    then show ?thesis using effect_trans0 [OF arm_effect [of s now "new_completion k 4 0"]] a by (simp add: call_result_def)
  qed
  show ?thesis
    unfolding native_close_def
    by (rule observed_call_result) (simp add: forced closing done_ call_result_Err unaccepted_effect)
qed

section \<open>Poisoning, forced close and teardown\<close>

lemma set_state_fields [simp]:
  "rt_writer (set_state x r) = rt_writer r" "rt_ordinary (set_state x r) = rt_ordinary r"
  "rt_expensive (set_state x r) = rt_expensive r" "rt_reservation (set_state x r) = rt_reservation r"
  "rt_state (set_state x r) = x" "answered (set_state x r) = answered r"
  by (simp_all add: set_state_def rt_state_def answered_def)

lemma set_state_effect: "\<not> final r \<or> x \<in> {STATE_CLOSED, STATE_POISONED} \<Longrightarrow> effect r (set_state x r) {#}"
  by (auto simp: effect_def queues_accepted_def balance_def queue_completions_def lanes_closed_def lanes_sealed_def final_def)

lemma close_queue_sealed:
  "close_queue (q, sh) = (items, q', sh') \<Longrightarrow> items = qs_items q \<and> lane_sealed q'"
  by (auto simp: close_queue_def drain_queue_def lane_sealed_def)

lemma same_view_queues: "same_view r r' \<Longrightarrow> queue_completions r' = queue_completions r"
  by (simp add: same_view_def queue_completions_def)

lemma same_view_flags:
  assumes "same_view r r'"
  shows "lanes_closed r' = lanes_closed r" "lanes_sealed r' = lanes_sealed r" "final r' = final r"
    "rt_expensive r' = rt_expensive r" "rt_ordinary r' = rt_ordinary r" "rt_state r' = rt_state r"
    "fst (search_lane e r') = fst (search_lane e r)" "rt_writer r' = rt_writer r" "rt_reservation r' = rt_reservation r"
  using assms by (simp_all add: same_view_def lanes_closed_def lanes_sealed_def final_def search_lane_def split: option.split)

lemma close_lane_effect:
  assumes "queues_accepted r"
  shows "effect r (close_lane e now err r) {#} \<and> lane_sealed (fst (search_lane e (close_lane e now err r))) \<and>
    rt_state (close_lane e now err r) = rt_state r"
proof -
  obtain items q sh where c: "close_queue (search_lane e r) = (items, q, sh)" by (metis prod_cases3)
  then have q: "items = qs_items (fst (search_lane e r))" "lane_sealed q"
    using close_queue_sealed [of "fst (search_lane e r)" "snd (search_lane e r)"] by auto
  let ?r = "set_search_lane e (q, sh) r"
  have cl: "close_lane e now err r = fold (fail_search now err) items ?r" by (simp add: close_lane_def c)
  have lane: "fst (search_lane e ?r) = q" "rt_state ?r = rt_state r"
    by (auto simp: search_lane_def set_search_lane_def rt_state_def Let_def)
  have bal: "queues_accepted ?r" "list_all accepted_completion (search_completions items)"
      "balance ?r + owed_all (search_completions items) = balance r"
    using q assms
    by (cases "e \<and> rt_expensive r \<noteq> None"; auto simp: queues_accepted_def balance_def queue_completions_def
        lane_sealed_def answered_def set_search_lane_def search_lane_def search_completions_def Let_def ac_simps)+
  have a: "answers_only ?r (close_lane e now err r) (owed_all (search_completions items))"
    unfolding cl by (rule fail_searches_effect [OF bal(2)])
  then have v: "same_view ?r (close_lane e now err r)" "answered (close_lane e now err r) = answered ?r + owed_all (search_completions items)"
    using answers_only_view by blast+
  then have "balance (close_lane e now err r) = balance r" "queues_accepted (close_lane e now err r)"
    using bal same_view_queues [OF v(1)] by (simp_all add: balance_def queues_accepted_def ac_simps)
  moreover have "lanes_closed r \<longrightarrow> lanes_closed ?r" "lanes_sealed r \<longrightarrow> lanes_sealed ?r" "final r \<longrightarrow> final ?r"
    "lane_sealed (rt_ordinary r) \<longrightarrow> lane_sealed (rt_ordinary ?r)"
    using q(2) by (auto simp: runtime_view_defs lane_sealed_def set_search_lane_def Let_def)
  ultimately show ?thesis
    using lane q(2) unfolding effect_def by (simp add: same_view_flags [OF v(1)] search_lane_set)
qed

lemma force_writer_kept:
  assumes "accepted_completion (wc_completion command)" "queues_accepted r"
    "force_writer now command (\<lambda>c _. c) admission r = (x, r')"
  shows "queues_accepted r' \<and> balance r' = balance r + owed (wc_completion command) \<and> rt_state r' = rt_state r \<and>
    rt_ordinary r' = rt_ordinary r \<and> rt_expensive r' = rt_expensive r \<and> rt_reservation r' = rt_reservation r \<and>
    (qs_closed (rt_writer r) \<longrightarrow> rt_writer r' = rt_writer r) \<and> qs_closed (rt_writer r') = qs_closed (rt_writer r) \<and>
    (x = Ok () \<longrightarrow> admission = Ok () \<and> \<not> qs_closed (rt_writer r))"
proof (cases "push_force_tracked_if command 0 admission (\<lambda>c _. c) now (rt_writer r, no_shared)")
  case (Err e)
  then have "x = Err e" "r' = completion_drop now (wc_completion command, r)"
    using assms(3) by (simp_all add: force_writer_def)
  then show ?thesis
    using completion_drop_effect(1) [OF assms(1), of r now] assms(2) answers_only_view same_view_queues
    by (fastforce simp: same_view_def queues_accepted_def balance_def queue_completions_def ac_simps)
next
  case (Ok s)
  obtain q sh where s: "s = (q, sh)" by (cases s)
  from push_force_items [OF Ok [unfolded s]] assms show ?thesis
    using Ok s by (auto simp: force_writer_def queues_accepted_def balance_def queue_completions_def writer_completions_def
        answered_def rt_state_def ac_simps)
qed

lemma drain_items:
  "drain (q, sh) = (items, q', sh') \<Longrightarrow> items = qs_items q \<and> qs_items q' = [] \<and> qs_closed q' = qs_closed q"
  by (auto simp: drain_def drain_queue_def)

lemma rollback_completion [simp]: "wc_completion (force_rollback c) = wc_completion c"
  by (simp add: force_rollback_def)

definition poison_writer :: "nat \<Rightarrow> fulltext_error \<Rightarrow> runtime \<Rightarrow> runtime" where
  "poison_writer now error r =
     (case drain (rt_writer r, no_shared) of (items, q, _) \<Rightarrow>
      case fail_all_but_close now error items None (r\<lparr>rt_writer := q\<rparr>) of (kept, r) \<Rightarrow>
      (case kept of None \<Rightarrow> r
       | Some command \<Rightarrow> snd (force_writer now (force_rollback command) (\<lambda>c _. c) (Ok ()) r)))"

lemma poison_parts:
  "poison now error r = (let r = close_lane False now error (poison_writer now error (set_state STATE_POISONED r))
     in if rt_expensive r \<noteq> None then close_lane True now error r else r)"
  by (simp add: poison_def poison_writer_def Let_def split: prod.splits)

lemma poison_writer_effect:
  assumes "queues_accepted r"
  shows "effect r (poison_writer now error r) {#} \<and> rt_state (poison_writer now error r) = rt_state r"
proof -
  obtain items q sh where d: "drain (rt_writer r, no_shared) = (items, q, sh)" by (metis prod_cases3)
  note q = drain_items [OF d]
  let ?r = "r\<lparr>rt_writer := q\<rparr>"
  obtain kept r1 where f: "fail_all_but_close now error items None ?r = (kept, r1)" by fastforce
  have acc: "list_all accepted_completion (writer_completions items)"
    using assms q by (simp add: queues_accepted_def queue_completions_def)
  from fail_all_but_close_effect [OF f acc] obtain ks where ks: "answers_only ?r r1 ks"
    "ks + owed_kept kept = owed_all (writer_completions items)" "\<forall>c. kept = Some c \<longrightarrow> (\<exists>item\<in>set items. c = q_value item)"
    by (auto simp: owed_kept_def)
  have v: "same_view ?r r1" "answered r1 = answered r + ks" using answers_only_view [OF ks(1)] by (auto simp: answered_def)
  have kept: "accepted_completion (wc_completion c)" if "kept = Some c" for c
    using ks(3) that acc by (auto simp: list_all_iff writer_completions_def)
  have r1: "queues_accepted r1" "balance r1 + owed_kept kept = balance r" "rt_ordinary r1 = rt_ordinary r"
    "rt_expensive r1 = rt_expensive r" "rt_state r1 = rt_state r" "rt_reservation r1 = rt_reservation r"
    "qs_closed (rt_writer r1) = qs_closed (rt_writer r)" "lane_sealed (rt_writer r) \<longrightarrow> lane_sealed (rt_writer r1)"
    using assms v ks(2) q
    by (auto simp: same_view_def queues_accepted_def balance_def queue_completions_def writer_completions_def rt_state_def
        lane_sealed_def ac_simps)
  obtain r2 where r2: "poison_writer now error r = r2" "r2 = (case kept of None \<Rightarrow> r1
       | Some command \<Rightarrow> snd (force_writer now (force_rollback command) (\<lambda>c _. c) (Ok ()) r1))"
    by (simp add: poison_writer_def d f)
  have "queues_accepted r2 \<and> balance r2 = balance r \<and> rt_ordinary r2 = rt_ordinary r \<and> rt_expensive r2 = rt_expensive r \<and>
      rt_state r2 = rt_state r \<and> rt_reservation r2 = rt_reservation r \<and> (lane_sealed (rt_writer r) \<longrightarrow> lane_sealed (rt_writer r2))"
  proof (cases kept)
    case None
    then show ?thesis using r1 r2 by (simp add: owed_kept_def)
  next
    case (Some c)
    obtain x where "force_writer now (force_rollback c) (\<lambda>c _. c) (Ok ()) r1 = (x, r2)" using r2 Some by (metis option.simps(5) prod.collapse)
    from force_writer_kept [OF _ r1(1) this] kept [OF Some] show ?thesis
      using r1 Some by (auto simp: owed_kept_def lane_sealed_def)
  qed
  then show ?thesis unfolding r2(1)
    by (auto simp: effect_def lanes_closed_def lanes_sealed_def final_def)
qed

lemma poison_effect:
  assumes "queues_accepted r"
  shows "effect r (poison now e r) {#} \<and> lanes_sealed (poison now e r) \<and> rt_state (poison now e r) = STATE_POISONED"
proof -
  let ?a = "set_state STATE_POISONED r"
  let ?b = "poison_writer now e ?a"
  let ?c = "close_lane False now e ?b"
  let ?d = "if rt_expensive ?c \<noteq> None then close_lane True now e ?c else ?c"
  have a: "effect r ?a {#}" by (rule set_state_effect) simp
  then have qa: "queues_accepted ?a" using assms by (simp add: effect_def)
  have b: "effect ?a ?b {#}" "rt_state ?b = STATE_POISONED" using poison_writer_effect [OF qa, of now e] by auto
  then have qb: "queues_accepted ?b" using qa by (simp add: effect_def)
  have c: "effect ?b ?c {#}" "lane_sealed (rt_ordinary ?c)" "rt_state ?c = STATE_POISONED"
    using close_lane_effect [OF qb, of False now e] b by (auto simp: search_lane_def)
  then have qc: "queues_accepted ?c" using qb by (simp add: effect_def)
  have d: "effect ?c ?d {#}" "lanes_sealed ?d" "rt_state ?d = STATE_POISONED"
  proof -
    have "effect ?c ?d {#} \<and> lanes_sealed ?d \<and> rt_state ?d = STATE_POISONED"
    proof (cases "rt_expensive ?c")
      case None
      then show ?thesis using c effect_refl by (simp add: lanes_sealed_def)
    next
      case (Some q)
      note e = close_lane_effect [OF qc, of True now e]
      then obtain q' where "rt_expensive (close_lane True now e ?c) = Some q'" "lane_sealed (rt_ordinary (close_lane True now e ?c))"
        using Some qc c(2) by (auto simp: effect_def)
      then show ?thesis using e Some c(3) by (simp add: lanes_sealed_def search_lane_def)
    qed
    then show "effect ?c ?d {#}" "lanes_sealed ?d" "rt_state ?d = STATE_POISONED" by blast+
  qed
  show ?thesis
    using d effect_trans0 [OF a effect_trans0 [OF b(1) effect_trans0 [OF c(1) d(1)]]]
    by (simp add: poison_parts Let_def)
qed

lemma force_close_effect: "effect r (force_close now r) {#}"
proof (cases "queues_accepted r")
  case False
  then show ?thesis by (simp add: effect_def)
next
  case True
  let ?adm = "if rt_state r = STATE_CLOSED \<or> rt_state r = STATE_CLOSING then Err closed_error else Ok ()"
  obtain x r' where f: "force_writer now rollback_command (\<lambda>c _. c) ?adm r = (x, r')" by fastforce
  have c: "accepted_completion (wc_completion rollback_command)" "owed (wc_completion rollback_command) = {#}"
    by (simp_all add: rollback_command_def accepted_completion_def owed_def)
  have e: "effect r r' {#}" "x = Ok () \<Longrightarrow> \<not> final r'"
    using force_writer_kept [OF c(1) True f] c(2)
    by (auto simp: effect_def lanes_closed_def lanes_sealed_def final_def lane_sealed_def)
  have "force_close now r = (case x of Ok () \<Rightarrow> set_state STATE_CLOSING r' | Err _ \<Rightarrow> r')"
    using f by (cases x) (auto simp: force_close_def split: if_splits unit.split)
  then show ?thesis
    using e effect_trans1 [OF e(1) set_state_effect] by (cases x) (auto split: unit.splits)
qed

lemma shutdown_lane_effect: "effect r (shutdown_lane e r) {#} \<and> qs_closed (fst (search_lane e (shutdown_lane e r)))"
proof (cases "e \<and> rt_expensive r \<noteq> None")
  case True
  then obtain q where q: "rt_expensive r = Some q" "e" by auto
  then have "shutdown_lane e r = r\<lparr>rt_search_shared := notify_shared (rt_search_shared r),
      rt_expensive := Some (q\<lparr>qs_closed := True\<rparr>)\<rparr>"
    by (simp add: shutdown_lane_def search_lane_def set_search_lane_def shutdown_after_drain_def Let_def)
  then show ?thesis
    using q by (simp add: effect_def queues_accepted_def balance_def runtime_view_defs lane_sealed_def answered_def search_lane_def)
next
  case False
  then have "shutdown_lane e r = r\<lparr>rt_search_shared := notify_shared (rt_search_shared r),
      rt_ordinary := (rt_ordinary r)\<lparr>qs_closed := True\<rparr>\<rparr>"
    by (auto simp: shutdown_lane_def search_lane_def set_search_lane_def shutdown_after_drain_def Let_def)
  then show ?thesis
    using False by (auto simp: effect_def queues_accepted_def balance_def runtime_view_defs lane_sealed_def answered_def search_lane_def)
qed

lemma shutdown_searches_effect:
  assumes "queues_accepted r"
  shows "effect r (shutdown_searches r) {#} \<and> lanes_closed (shutdown_searches r)"
proof -
  let ?a = "shutdown_lane False r"
  note a = shutdown_lane_effect [of r False] and b = shutdown_lane_effect [of ?a True]
  have "rt_ordinary (shutdown_lane True ?a) = rt_ordinary ?a" if "rt_expensive ?a \<noteq> None"
    using that by (auto simp: shutdown_lane_def set_search_lane_def search_lane_def shutdown_after_drain_def Let_def
        split: option.splits)
  then show ?thesis
    using a b effect_trans0 [of r ?a]
    by (auto simp: shutdown_searches_def Let_def lanes_closed_def search_lane_def split: option.splits)
qed

lemma close_writer_queue_effect:
  assumes "queues_accepted r"
  shows "effect r (close_writer_queue now r) {#} \<and> lane_sealed (rt_writer (close_writer_queue now r)) \<and>
    (lanes_sealed r \<longrightarrow> lanes_sealed (close_writer_queue now r))"
proof -
  obtain items q sh where c: "close_queue (rt_writer r, no_shared) = (items, q, sh)" by (metis prod_cases3)
  note q = close_queue_sealed [OF c]
  let ?r = "r\<lparr>rt_writer := q\<rparr>"
  have acc: "list_all accepted_completion (writer_completions items)" "queues_accepted ?r"
    "balance ?r + owed_all (writer_completions items) = balance r"
    using assms q
    by (auto simp: queues_accepted_def balance_def queue_completions_def lane_sealed_def answered_def
        writer_completions_def ac_simps)
  have eq: "close_writer_queue now r = fold (\<lambda>item r. completion_drop now (wc_completion (q_value item), r)) items ?r"
    by (simp add: close_writer_queue_def c)
  have a: "answers_only ?r (close_writer_queue now r) (owed_all (writer_completions items))"
    unfolding eq by (rule drop_writers_effect [OF acc(1)])
  then have v: "same_view ?r (close_writer_queue now r)" "answered (close_writer_queue now r) = answered ?r + owed_all (writer_completions items)"
    using answers_only_view by blast+
  have "balance (close_writer_queue now r) = balance r" "queues_accepted (close_writer_queue now r)"
    using acc same_view_queues [OF v(1)] v(2) by (simp_all add: balance_def queues_accepted_def ac_simps)
  moreover have "lanes_closed ?r = lanes_closed r" "lanes_sealed ?r = lanes_sealed r" "final r \<longrightarrow> final ?r"
    using q by (auto simp: lanes_closed_def lanes_sealed_def final_def rt_state_def)
  ultimately show ?thesis using q unfolding effect_def by (simp add: same_view_flags [OF v(1)])
qed

lemma hand_back_effect:
  assumes "lane_sealed (rt_writer r)" "lanes_sealed r"
  shows "effect r (hand_back quiesced r) {#} \<and> final (hand_back quiesced r)"
proof -
  have "rt_writer (hand_back quiesced r) = rt_writer r \<and> rt_ordinary (hand_back quiesced r) = rt_ordinary r \<and>
      rt_expensive (hand_back quiesced r) = rt_expensive r \<and> rt_reservation (hand_back quiesced r) = None \<and>
      rt_state (hand_back quiesced r) \<in> {STATE_CLOSED, STATE_POISONED} \<and> rt_answers (hand_back quiesced r) = rt_answers r"
    by (auto simp: hand_back_def release_reservation_def retain_reservation_def set_state_def rt_state_def Let_def
        split: option.splits)
  then show ?thesis using assms
    by (auto simp: effect_def queues_accepted_def balance_def queue_completions_def lanes_closed_def lanes_sealed_def
        final_def answered_def)
qed

section \<open>The turns of the threads\<close>

text \<open>A step that leaves the queues, the state and the answers as they are.\<close>

definition calm :: "runtime \<Rightarrow> runtime \<Rightarrow> bool" where
  "calm r r' \<longleftrightarrow> same_view r r' \<and> rt_answers r' = rt_answers r"

lemma calm_refl [simp]: "calm r r"
  by (simp add: calm_def same_view_def)

lemma calm_trans: "calm r r' \<Longrightarrow> calm r' r'' \<Longrightarrow> calm r r''"
  by (simp add: calm_def same_view_def)

lemma calm_effect: "calm r r' \<Longrightarrow> effect r r' {#}"
  by (simp add: calm_def same_view_effect answered_def)

lemma calm_updates [simp]:
  "calm r (r'\<lparr>rt_uncommitted := x\<rparr>) = calm r r'" "calm r (r'\<lparr>rt_commit_opstamp := x\<rparr>) = calm r r'"
  "calm r (r'\<lparr>rt_writer_present := b\<rparr>) = calm r r'" "calm r (r'\<lparr>rt_writer_queue_ns := x\<rparr>) = calm r r'"
  "calm r (r'\<lparr>rt_writer_execution_ns := x\<rparr>) = calm r r'" "calm r (r'\<lparr>rt_search_queue_ns := x\<rparr>) = calm r r'"
  "calm r (r'\<lparr>rt_search_execution_ns := x\<rparr>) = calm r r'" "calm r (r'\<lparr>rt_process := p\<rparr>) = calm r r'"
  "calm r (r'\<lparr>rt_closed := b\<rparr>) = calm r r'" "calm r (r'\<lparr>rt_budget := g\<rparr>) = calm r r'"
  by (simp_all add: calm_def same_view_def rt_state_def)

lemma calm_metrics: "me_state m = me_state (rt_metrics r) \<Longrightarrow> calm r (r\<lparr>rt_metrics := m\<rparr>)"
  by (simp add: calm_def same_view_def rt_state_def)

lemma run_phase_calm: "run_phase p d x r = (y, r') \<Longrightarrow> calm r r'"
  by (auto simp: run_phase_def observe_phase_def calm_def same_view_def rt_state_def split: prod.splits unwind.splits)

definition keeps :: "completion \<Rightarrow> completion \<Rightarrow> bool" where
  "keeps c c' \<longleftrightarrow> owed c' = owed c \<and> (accepted_completion c \<longrightarrow> accepted_completion c')"

lemma keeps_refl [simp]: "keeps c c"
  by (simp add: keeps_def)

lemma with_ticket_keeps:
  assumes "benign f" "with_ticket f (c, r) = (c', r')"
  shows "keeps c c'" "effect r r' {#}"
  using with_ticket_effect [OF assms] answers_only_effect by (auto simp: keeps_def owed_def)

lemma with_ticket_calm: "benign f \<Longrightarrow> with_ticket f (c, r) = (c', r') \<Longrightarrow> calm r r'"
  by (auto simp: with_ticket_def benign_def calm_def same_view_def rt_state_def split: option.splits prod.splits)
    (metis snd_conv)+

lemma run_apply_calm:
  assumes "run_apply an b (c, r) = (x, c', r')"
  shows "calm r r' \<and> keeps c c'"
proof (cases "c' = c \<and> r' = r")
  case False
  then obtain n r1 where "with_ticket (ticket_mutations n) (c, r) = (c', r1)"
    "r' = r1\<lparr>rt_uncommitted := rt_uncommitted r1 + n\<rparr>"
    using assms
    by (auto simp: run_apply_def split: unwind.splits result.splits prod.splits unit.splits)
  then show ?thesis
    using with_ticket_calm [OF benign_ops(6)] with_ticket_keeps(1) [OF benign_ops(6)] by simp
qed simp

lemma run_commit_calm: "run_commit an r = (x, r') \<Longrightarrow> calm r r'"
  using run_phase_calm
  by (fastforce simp: run_commit_def committed_def Let_def split: unwind.splits result.splits prod.splits unit.splits if_splits)

lemma run_reload_calm: "run_reload an r = (x, r') \<Longrightarrow> calm r r'"
  using run_phase_calm by (fastforce simp: run_reload_def split: unwind.splits result.splits prod.splits)

lemma run_publish_calm:
  assumes "run_publish an r = (x, r')"
  shows "calm r r'"
proof (cases "active_writer r")
  case (Err e)
  then show ?thesis using assms by (simp add: run_publish_def Let_def)
next
  case (Ok u)
  obtain y r1 where c: "run_phase 0 (an_commit_duration an) (an_commit an) r = (y, r1)" by fastforce
  obtain z r2 where l: "run_phase 1 (an_reload_duration an) (native_result (an_reload_owned an)) r1 = (z, r2)" by fastforce
  have "calm r r1" "calm r r2" using run_phase_calm [OF c] run_phase_calm [OF l] calm_trans by blast+
  moreover have "r' = r1 \<or> r' = r2 \<or> (\<exists>opstamp. r' = committed opstamp r2)"
    using assms Ok c l by (auto simp: run_publish_def Let_def split: unwind.splits result.splits unit.splits)
  ultimately show ?thesis by (auto simp: committed_def)
qed

lemma close_writer_calm: "close_writer now x r = (y, r') \<Longrightarrow> calm r r'"
  by (auto simp: close_writer_def finish_writer_close_def on_metrics_def calm_def same_view_def rt_state_def
      split: if_splits unwind.splits result.splits)

lemma run_close_effect: "run_close now an b r = (x, r') \<Longrightarrow> effect r r' {#}"
proof -
  assume run: "run_close now an b r = (x, r')"
  show ?thesis
  proof (cases "\<not> b \<and> 0 < rt_uncommitted r \<and> rt_state r = STATE_CLOSING")
    case True
    then have "\<not> final r" by (simp add: final_def STATE_CLOSING_def STATE_CLOSED_def STATE_POISONED_def)
    then show ?thesis using run True set_state_effect by (auto simp: run_close_def)
  next
    case False
    obtain y r1 where c: "close_writer now (an_close an) r = (y, r1)" by fastforce
    then have "r' = r1" using run False by (cases y) (auto simp: run_close_def)
    then show ?thesis using calm_effect [OF close_writer_calm [OF c]] by simp
  qed
qed

lemma run_writer_operation_effect:
  assumes "run_writer_operation now an op (c, r) = (x, c', r')"
  shows "effect r r' {#} \<and> keeps c c'"
proof (cases op)
  case (Apply b)
  then show ?thesis using assms run_apply_calm calm_effect by (fastforce simp: run_writer_operation_def)
next
  case Commit
  then show ?thesis using assms run_commit_calm calm_effect by (fastforce simp: run_writer_operation_def split: prod.splits)
next
  case (Publish p)
  then show ?thesis using assms run_publish_calm calm_effect by (fastforce simp: run_writer_operation_def split: prod.splits)
next
  case Reload
  then show ?thesis using assms run_reload_calm calm_effect by (fastforce simp: run_writer_operation_def split: prod.splits)
next
  case (Close_Writer b)
  then show ?thesis using assms run_close_effect by (fastforce simp: run_writer_operation_def split: prod.splits)
qed

lemma take_writer_effect:
  assumes "take_writer now item r = (c, r')"
  shows "effect r r' {#} \<and> keeps (wc_completion (q_value item)) c"
proof -
  note t = with_ticket_keeps [OF benign_ops(5) assms [unfolded take_writer_def]]
  have "effect r r' {#}" by (rule effect_trans0 [OF calm_effect t(2)]) simp
  then show ?thesis using t(1) by simp
qed

lemma take_search_effect:
  assumes "take_search now w item r = (c, r')"
  shows "effect r r' {#} \<and> keeps (sc_completion (q_value item)) c"
proof -
  let ?r = "r\<lparr>rt_search_queue_ns := rt_search_queue_ns r + duration_ns (now - q_enqueued item)\<rparr>"
  obtain c1 r1 where b: "with_ticket (\<lambda>(t, m). (bind_worker w m t, m)) (sc_completion (q_value item), ?r) = (c1, r1)"
    by fastforce
  have d: "with_ticket dispatch_ticket (c1, r1) = (c, r')" using assms b by (simp add: take_search_def Let_def)
  have "effect r r' {#}"
    by (rule effect_trans0 [OF calm_effect effect_trans0 [OF with_ticket_keeps(2) [OF benign_ops(7) b]
      with_ticket_keeps(2) [OF benign_ops(4) d]]]) simp
  then show ?thesis
    using with_ticket_keeps(1) [OF benign_ops(7) b] with_ticket_keeps(1) [OF benign_ops(4) d] by (simp add: keeps_def)
qed

lemma search_clocks_effect:
  "started_search n (c, r) = (c', r') \<Longrightarrow> effect r r' {#} \<and> keeps c c'"
  "finished_search m n (c, r) = (c', r') \<Longrightarrow> effect r r' {#} \<and> keeps c c'"
proof -
  assume "started_search n (c, r) = (c', r')"
  then show "effect r r' {#} \<and> keeps c c'" unfolding started_search_def using with_ticket_keeps [OF benign_ops(5)] by blast
next
  assume fin: "finished_search m n (c, r) = (c', r')"
  obtain r1 where f: "with_ticket (\<lambda>(t, m). (finish_at n t, m)) (c, r) = (c', r1)" "calm r1 r'"
    using fin by (auto simp: finished_search_def split: prod.splits)
  then show "effect r r' {#} \<and> keeps c c'"
    using with_ticket_keeps [OF benign_ops(8) f(1)] effect_trans1 calm_effect by blast
qed

lemma end_search_effect:
  assumes "accepted_completion c" "queues_accepted r" "end_search now x (c, r) = (go, r')"
  shows "effect r r' (owed c) \<and> (\<not> go \<longrightarrow> lanes_sealed r')"
proof (cases x)
  case Panicked
  let ?r = "completion_failure now search_panic (c, r)"
  have e: "effect r ?r (owed c)" using completion_failure_effect [OF assms(1)] answers_only_effect by blast
  then have "queues_accepted ?r" using assms(2) by (simp add: effect_def)
  then show ?thesis
    using poison_effect effect_trans1 [OF e] assms(3) Panicked by (auto simp: end_search_def)
next
  case (Returned y)
  then show ?thesis
    using assms(1,3) answer_effect completion_failure_effect answers_only_effect
    by (cases y) (auto simp: end_search_def)
qed

lemma settle_answers: "accepted_completion c \<Longrightarrow> effect r (settle now x (c, r)) (owed c)"
  using settle_effect answers_only_effect by blast

lemma end_command_effect:
  assumes "accepted_completion c" "queues_accepted r"
  shows "end_command now elapsed closing outcome (c, r) = Again r' \<Longrightarrow> effect r r' (owed c)"
    and "end_command now elapsed closing outcome (c, r) = Leave f c' r' \<Longrightarrow> effect r r' {#} \<and> c' = c \<and> lanes_closed r'"
proof -
  let ?r = "r\<lparr>rt_writer_execution_ns := rt_writer_execution_ns r + duration_ns elapsed\<rparr>"
  have r: "effect r ?r {#}" by (simp add: calm_effect)
  then have q: "queues_accepted ?r" using assms(2) by (simp add: effect_def)
  have settled: "effect r (settle now x (c, ?r)) (owed c)" for x
    by (rule effect_trans0 [OF r settle_answers [OF assms(1)]])
  have poisoned: "effect r (poison now e (settle now x (c, ?r))) (owed c)" for e x
    using effect_trans1 [OF settled] poison_effect settled [of x] assms(2) by (auto simp: effect_def)
  {
    assume "end_command now elapsed closing outcome (c, r) = Again r'"
    then show "effect r r' (owed c)"
      using settled poisoned
      by (auto simp: end_command_def Let_def split: unwind.splits writer_outcome.splits prod.splits)
  next
    assume l: "end_command now elapsed closing outcome (c, r) = Leave f c' r'"
    show "effect r r' {#} \<and> c' = c \<and> lanes_closed r'"
    proof (cases outcome)
      case Panicked
      let ?p = "poison now writer_panic ?r"
      obtain y r1 where w: "close_writer now closing ?p = (y, r1)" by fastforce
      have p: "effect r ?p {#}" using effect_trans0 [OF r] poison_effect [OF q] by blast
      have r1: "effect r r1 {#}" by (rule effect_trans0 [OF p calm_effect [OF close_writer_calm [OF w]]])
      then have "queues_accepted r1" using assms(2) by (simp add: effect_def)
      moreover have "r' = shutdown_searches r1" "c' = c"
        using l w by (auto simp: end_command_def Panicked Let_def split: unwind.splits)
      ultimately show ?thesis using shutdown_searches_effect effect_trans0 [OF r1] by blast
    next
      case (Returned o1)
      then obtain x where "o1 = Stop x" using l by (cases o1) (auto simp: end_command_def Let_def)
      then have "r' = shutdown_searches ?r" "c' = c" using l Returned by (auto simp: end_command_def Let_def)
      then show ?thesis using shutdown_searches_effect [OF q] effect_trans0 [OF r] by blast
    qed
  }
qed

lemma finish_joined_effect:
  assumes "queues_accepted r" "lanes_sealed r"
  shows "effect r (snd (finish_joined now p a x r)) {#} \<and> final (snd (finish_joined now p a x r))"
    "effect r (finish_unproven_joined now r) {#} \<and> final (finish_unproven_joined now r)"
proof -
  let ?w = "close_writer_queue now r"
  have w: "effect r ?w {#}" "lane_sealed (rt_writer ?w)" "lanes_sealed ?w"
    using close_writer_queue_effect [OF assms(1), of now] assms(2) by auto
  have h: "effect r (hand_back b ?w) {#}" "final (hand_back b ?w)" for b
    using hand_back_effect [OF w(2,3), of b] effect_trans0 [OF w(1)] by auto
  have m: "effect r (on_metrics (finish_teardown_at now b) (hand_back c ?w)) {#} \<and>
      final (on_metrics (finish_teardown_at now b) (hand_back c ?w))" for b c
  proof -
    have v: "effect (hand_back c ?w) (on_metrics (finish_teardown_at now b) (hand_back c ?w)) {#}"
      by (rule on_metrics_effect) simp
    then show ?thesis using effect_trans0 [OF h(1) v] h assms(1) by (auto simp: effect_def)
  qed
  show "effect r (snd (finish_joined now p a x r)) {#} \<and> final (snd (finish_joined now p a x r))"
    "effect r (finish_unproven_joined now r) {#} \<and> final (finish_unproven_joined now r)"
    using m by (simp_all add: finish_joined_def finish_unproven_joined_def Let_def)
qed

lemma say_farewell_effect:
  assumes "accepted_completion c" "queues_accepted r" "lanes_sealed r"
  shows "effect r (say_farewell now p a f c r) (owed c) \<and> final (say_farewell now p a f c r)"
proof -
  have answer: "effect r r'' (owed c) \<and> final r''" if "effect r r' {#}" "final r'" "effect r' r'' (owed c)" for r' r''
    using effect_trans0 [OF that(1) that(3)] that assms(2) by (auto simp: effect_def)
  note j = finish_joined_effect(1) [OF assms(2,3)] and u = finish_joined_effect(2) [OF assms(2,3), of now]
  have failed: "effect r' (completion_failure now e (c, r')) (owed c)" for e r'
    using completion_failure_effect [OF assms(1)] answers_only_effect by blast
  show ?thesis
  proof (cases f)
    case (After_Stop x)
    obtain y r' where "finish_joined now p a x r = (y, r')" by fastforce
    then show ?thesis using j [of now p a x] answer [OF _ _ settle_answers [OF assms(1)]]
      by (simp add: say_farewell_def After_Stop)
  next
    case (After_Panic x)
    obtain y r' where "finish_joined now p a x r = (y, r')" by fastforce
    then show ?thesis using j [of now p a x] answer [OF _ _ failed] by (simp add: say_farewell_def After_Panic)
  next
    case After_Unproven
    show ?thesis using u answer [OF _ _ failed] by (simp add: say_farewell_def After_Unproven)
  next
    case After_Close_Panic
    show ?thesis using u answer [OF _ _ failed] by (simp add: say_farewell_def After_Close_Panic)
  qed
qed

section \<open>The threads of a runtime\<close>

datatype native_call =
    Call_Apply "u8 list"
  | Call_Commit
  | Call_Publish string
  | Call_Reload
  | Call_Search "u8 list"
  | Call_Trace "u8 list"
  | Call_Close bool

definition perform :: "nat \<Rightarrow> nat \<Rightarrow> native_call \<Rightarrow> runtime \<Rightarrow> unit res \<times> runtime" where
  "perform now callback call = (case call of
     Call_Apply bytes \<Rightarrow> native_apply now callback bytes
   | Call_Commit \<Rightarrow> native_commit now callback
   | Call_Publish payload \<Rightarrow> native_publish now callback payload
   | Call_Reload \<Rightarrow> native_reload now callback
   | Call_Search bytes \<Rightarrow> native_search now callback bytes
   | Call_Trace bytes \<Rightarrow> native_trace_matches now callback bytes
   | Call_Close rollback \<Rightarrow> native_close now callback rollback)"

lemma perform_result: "call_result {#k#} r (perform now k call r)"
  by (cases call) (simp_all add: perform_def writer_call_results native_search_result native_trace_matches_result
      native_close_result)

text \<open>
  The writer waits in \<open>pop\<close>, runs a command, has run it, waits for the search threads, or is
  gone.  A search worker is between two commands (with the expired ones it still has to answer),
  runs one, or has left its loop, by a panic or not.
\<close>

datatype writer_phase =
    Listening
  | Executing writer_operation completion
  | Executed "writer_outcome unwind" completion
  | Joining farewell completion
  | Gone

datatype worker_phase =
    Serving "completion search_command queued list"
  | Searching completion "completion search_command queued list"
  | Left bool

text \<open>\<open>as_accepted\<close> is history: the callbacks of the calls that were accepted.\<close>

record actors =
  as_runtime :: runtime
  as_writer :: writer_phase
  as_workers :: "worker_phase list"
  as_accepted :: "nat multiset"

text \<open>\<open>Runtime::start\<close>: with two search threads or more the expensive searches have a lane of
  their own, and every worker but the first serves both.\<close>

definition runtime_start ::
    "u32 \<Rightarrow> string \<Rightarrow> path_identity \<Rightarrow> nat \<Rightarrow> engine_config \<Rightarrow> bool \<Rightarrow> admission_kind \<Rightarrow> runtime_budget_state \<Rightarrow>
     process_state \<Rightarrow> runtime" where
  "runtime_start handle path identity env config read_only reservation budget process =
     (let l = ec_limits config;
          workers = search_threads l;
          commands = max_queued_commands l;
          bytes = max_queued_bytes l
      in \<lparr>rt_metrics = metrics_new workers, rt_handle = handle, rt_path = path, rt_path_identity = identity,
          rt_environment = env, rt_config = config, rt_read_only = read_only, rt_writer_present = \<not> read_only,
          rt_writer = bounded_queue_new commands bytes,
          rt_ordinary = bounded_queue_new commands bytes,
          rt_expensive = (if 2 \<le> workers then Some (bounded_queue_new commands bytes) else None),
          rt_search_shared = (if 2 \<le> workers
            then \<lparr>shared_budget = Some (queue_budget_new commands bytes), shared_wake = Some 0\<rparr> else no_shared),
          rt_uncommitted = 0, rt_commit_opstamp = 0, rt_writer_queue_ns = 0, rt_writer_execution_ns = 0,
          rt_search_queue_ns = 0, rt_search_execution_ns = 0, rt_reservation = Some reservation,
          rt_budget = budget, rt_process = process, rt_closed = False, rt_answers = []\<rparr>)"

definition actors_start :: "runtime \<Rightarrow> actors" where
  "actors_start r = \<lparr>as_runtime = r, as_writer = Listening,
     as_workers = replicate (search_threads (ec_limits (rt_config r))) (Serving []), as_accepted = {#}\<rparr>"

definition flexible :: "runtime \<Rightarrow> nat \<Rightarrow> bool" where
  "flexible r worker \<longleftrightarrow> worker \<noteq> 0 \<and> rt_expensive r \<noteq> None"

text \<open>What the join of the search threads may still meet: the teardown itself panics.\<close>

definition unproven_after :: "farewell \<Rightarrow> farewell" where
  "unproven_after f = (case f of After_Stop _ \<Rightarrow> After_Unproven | After_Panic _ \<Rightarrow> After_Close_Panic | _ \<Rightarrow> f)"

definition drop_pending :: "nat \<Rightarrow> completion search_command queued list \<Rightarrow> runtime \<Rightarrow> runtime" where
  "drop_pending now = fold (\<lambda>item r. completion_drop now (sc_completion (q_value item), r))"

definition no_completion :: completion where
  "no_completion = \<lparr>co_ticket = None, co_callback = None\<rparr>"

text \<open>
  One step of one thread.  A flexible worker leaves its loop only after it found the closed
  expensive lane empty and then the closed ordinary one; the writer says farewell only when every
  worker has left.
\<close>

inductive runtime_step :: "actors \<Rightarrow> actors \<Rightarrow> bool" where
  called: "perform now k call (as_runtime s) = (x, r) \<Longrightarrow>
    runtime_step s (s\<lparr>as_runtime := r, as_accepted := as_accepted s + (if is_ok x then {#k#} else {#})\<rparr>)"
| forced: "runtime_step s (s\<lparr>as_runtime := force_close now (as_runtime s)\<rparr>)"
| environment: "runtime_step s (s\<lparr>as_runtime := (as_runtime s)\<lparr>rt_process := p, rt_budget := b\<rparr>\<rparr>)"
| confirmed: "rt_reservation (as_runtime s) = Some a \<Longrightarrow> confirm_open a (rt_budget (as_runtime s)) = (a', b) \<Longrightarrow>
    runtime_step s (s\<lparr>as_runtime := (as_runtime s)\<lparr>rt_reservation := Some a', rt_budget := b\<rparr>\<rparr>)"
| writer_took: "as_writer s = Listening \<Longrightarrow> pop_turn (rt_writer (as_runtime s), no_shared) = Item item (q, sh) \<Longrightarrow>
    take_writer now item ((as_runtime s)\<lparr>rt_writer := q\<rparr>) = (c, r) \<Longrightarrow>
    runtime_step s (s\<lparr>as_runtime := r, as_writer := Executing (wc_operation (q_value item)) c\<rparr>)"
| writer_ran: "as_writer s = Executing op c \<Longrightarrow> run_writer_operation now an op (c, as_runtime s) = (outcome, c', r) \<Longrightarrow>
    runtime_step s (s\<lparr>as_runtime := r, as_writer := Executed outcome c'\<rparr>)"
| writer_continued: "as_writer s = Executed outcome c \<Longrightarrow>
    end_command now elapsed closing outcome (c, as_runtime s) = Again r \<Longrightarrow>
    runtime_step s (s\<lparr>as_runtime := r, as_writer := Listening\<rparr>)"
| writer_stopped: "as_writer s = Executed outcome c \<Longrightarrow>
    end_command now elapsed closing outcome (c, as_runtime s) = Leave f c' r \<Longrightarrow>
    runtime_step s (s\<lparr>as_runtime := r, as_writer := Joining f c'\<rparr>)"
| writer_ended: "as_writer s = Listening \<Longrightarrow> pop_turn (rt_writer (as_runtime s), no_shared) = Ended \<Longrightarrow>
    close_writer now closing (as_runtime s) = (x, r) \<Longrightarrow>
    f = (case x of Returned closed \<Rightarrow> After_Stop closed | Panicked \<Rightarrow> After_Close_Panic) \<Longrightarrow>
    runtime_step s (s\<lparr>as_runtime := shutdown_searches r, as_writer := Joining f no_completion\<rparr>)"
| writer_left: "as_writer s = Joining f c \<Longrightarrow> (\<And>w. w < length (as_workers s) \<Longrightarrow> \<exists>b. as_workers s ! w = Left b) \<Longrightarrow>
    f' = f \<or> f' = unproven_after f \<Longrightarrow>
    r = say_farewell now (Left True \<in> set (as_workers s)) released f' c (as_runtime s) \<Longrightarrow>
    runtime_step s (s\<lparr>as_runtime := signal_closed r, as_writer := Gone\<rparr>)"
| search_took: "w < length (as_workers s) \<Longrightarrow> as_workers s ! w = Serving [] \<Longrightarrow>
    expensive \<longrightarrow> flexible (as_runtime s) w \<Longrightarrow>
    pop_turn (search_lane expensive (as_runtime s)) = Item item q \<Longrightarrow>
    take_search now w item (set_search_lane expensive q (as_runtime s)) = (c, r) \<Longrightarrow>
    runtime_step s (s\<lparr>as_runtime := r, as_workers := (as_workers s)[w := Searching c []]\<rparr>)"
| searches_expired: "w < length (as_workers s) \<Longrightarrow> as_workers s ! w = Serving [] \<Longrightarrow> flexible (as_runtime s) w \<Longrightarrow>
    inspect_and_take_expired clock (search_lane True (as_runtime s)) = (items, remaining, q) \<Longrightarrow>
    runtime_step s (s\<lparr>as_runtime := set_search_lane True q (as_runtime s), as_workers := (as_workers s)[w := Serving items]\<rparr>)"
| expired_took: "w < length (as_workers s) \<Longrightarrow> as_workers s ! w = Serving (item # items) \<Longrightarrow>
    take_search now w item (as_runtime s) = (c, r) \<Longrightarrow>
    runtime_step s (s\<lparr>as_runtime := r, as_workers := (as_workers s)[w := Searching c items]\<rparr>)"
| search_waited: "runtime_step s (s\<lparr>as_runtime := (as_runtime s)\<lparr>rt_search_queue_ns := n\<rparr>\<rparr>)"
| search_started: "w < length (as_workers s) \<Longrightarrow> as_workers s ! w = Searching c items \<Longrightarrow>
    started_search now (c, as_runtime s) = (c', r) \<Longrightarrow>
    runtime_step s (s\<lparr>as_runtime := r, as_workers := (as_workers s)[w := Searching c' items]\<rparr>)"
| search_finished: "w < length (as_workers s) \<Longrightarrow> as_workers s ! w = Searching c items \<Longrightarrow>
    finished_search started now (c, as_runtime s) = (c', r) \<Longrightarrow>
    runtime_step s (s\<lparr>as_runtime := r, as_workers := (as_workers s)[w := Searching c' items]\<rparr>)"
| search_answered: "w < length (as_workers s) \<Longrightarrow> as_workers s ! w = Searching c items \<Longrightarrow>
    end_search now x (c, as_runtime s) = (True, r) \<Longrightarrow>
    runtime_step s (s\<lparr>as_runtime := r, as_workers := (as_workers s)[w := Serving items]\<rparr>)"
| search_panicked: "w < length (as_workers s) \<Longrightarrow> as_workers s ! w = Searching c items \<Longrightarrow>
    end_search now x (c, as_runtime s) = (False, r) \<Longrightarrow>
    runtime_step s (s\<lparr>as_runtime := drop_pending now items r, as_workers := (as_workers s)[w := Left True]\<rparr>)"
| search_left: "w < length (as_workers s) \<Longrightarrow> as_workers s ! w = Serving [] \<Longrightarrow>
    pop_turn (search_lane False (as_runtime s)) = Ended \<Longrightarrow>
    flexible (as_runtime s) w \<longrightarrow> pop_turn (search_lane True (as_runtime s)) = Ended \<Longrightarrow>
    runtime_step s (s\<lparr>as_workers := (as_workers s)[w := Left False]\<rparr>)"

inductive_cases runtime_step_cases: "runtime_step s s'"

definition writer_hand :: "writer_phase \<Rightarrow> completion list" where
  "writer_hand p = (case p of Executing _ c \<Rightarrow> [c] | Executed _ c \<Rightarrow> [c] | Joining _ c \<Rightarrow> [c] | _ \<Rightarrow> [])"

definition worker_hand :: "worker_phase \<Rightarrow> completion list" where
  "worker_hand p = (case p of Serving items \<Rightarrow> search_completions items
     | Searching c items \<Rightarrow> c # search_completions items | Left _ \<Rightarrow> [])"

text \<open>Every completion that still exists: in a queue, with the writer or with a worker.\<close>

definition in_hand :: "actors \<Rightarrow> completion list" where
  "in_hand s = writer_hand (as_writer s) @ concat (map worker_hand (as_workers s))"

definition actors_inv :: "actors \<Rightarrow> bool" where
  "actors_inv s \<longleftrightarrow> queues_accepted (as_runtime s) \<and> list_all accepted_completion (in_hand s) \<and>
     balance (as_runtime s) + owed_all (in_hand s) = as_accepted s \<and>
     (\<forall>w<length (as_workers s). (\<exists>b. as_workers s ! w = Left b) \<longrightarrow> lane_sealed (rt_ordinary (as_runtime s)) \<and>
        (flexible (as_runtime s) w \<longrightarrow> lanes_sealed (as_runtime s))) \<and>
     as_workers s \<noteq> [] \<and> (rt_expensive (as_runtime s) \<noteq> None \<longrightarrow> 2 \<le> length (as_workers s)) \<and>
     ((\<exists>f c. as_writer s = Joining f c) \<longrightarrow> lanes_closed (as_runtime s)) \<and>
     (as_writer s = Gone \<longrightarrow> final (as_runtime s) \<and> (\<forall>w<length (as_workers s). \<exists>b. as_workers s ! w = Left b))"

lemma hands_update:
  assumes "w < length ws"
  shows "owed_all (concat (map worker_hand (ws[w := p]))) + owed_all (worker_hand (ws ! w)) =
      owed_all (concat (map worker_hand ws)) + owed_all (worker_hand p)"
    and "list_all accepted_completion (concat (map worker_hand ws)) \<Longrightarrow> list_all accepted_completion (worker_hand p) \<Longrightarrow>
      list_all accepted_completion (concat (map worker_hand (ws[w := p])))"
    and "list_all accepted_completion (concat (map worker_hand ws)) \<Longrightarrow> list_all accepted_completion (worker_hand (ws ! w))"
proof -
  have ws: "ws = take w ws @ ws ! w # drop (Suc w) ws" by (rule id_take_nth_drop [OF assms])
  have up: "ws[w := p] = take w ws @ p # drop (Suc w) ws" by (rule upd_conv_take_nth_drop [OF assms])
  have m: "concat (map worker_hand ws) =
      concat (map worker_hand (take w ws)) @ worker_hand (ws ! w) @ concat (map worker_hand (drop (Suc w) ws))"
    by (subst ws) (simp del: append_take_drop_id)
  have "owed_all (concat (map worker_hand (ws[w := p]))) + owed_all (worker_hand (ws ! w)) =
      owed_all (concat (map worker_hand ws)) + owed_all (worker_hand p)"
    by (simp add: up m ac_simps)
  then show "owed_all (concat (map worker_hand (ws[w := p]))) + owed_all (worker_hand (ws ! w)) =
      owed_all (concat (map worker_hand ws)) + owed_all (worker_hand p)" .
  show "list_all accepted_completion (concat (map worker_hand ws)) \<Longrightarrow> list_all accepted_completion (worker_hand p) \<Longrightarrow>
      list_all accepted_completion (concat (map worker_hand (ws[w := p])))"
    "list_all accepted_completion (concat (map worker_hand ws)) \<Longrightarrow> list_all accepted_completion (worker_hand (ws ! w))"
    by (simp_all add: up m)
qed

text \<open>A step that adds \<open>ins\<close> to the balance and takes completions that owe \<open>outs\<close> out of the queues.\<close>

definition shift :: "runtime \<Rightarrow> runtime \<Rightarrow> nat multiset \<Rightarrow> nat multiset \<Rightarrow> bool" where
  "shift r r' ins outs \<longleftrightarrow> (queues_accepted r \<longrightarrow> queues_accepted r' \<and> balance r' + outs = balance r + ins \<and>
     (rt_expensive r' = None \<longleftrightarrow> rt_expensive r = None) \<and>
     (lane_sealed (rt_ordinary r) \<longrightarrow> lane_sealed (rt_ordinary r')) \<and>
     (lanes_closed r \<longrightarrow> lanes_closed r') \<and> (lanes_sealed r \<longrightarrow> lanes_sealed r') \<and> (final r \<longrightarrow> final r'))"

lemma effect_shift: "effect r r' ks \<Longrightarrow> shift r r' ks {#}"
  by (simp add: effect_def shift_def)

lemma shift_effect: "shift r r' {#} outs \<Longrightarrow> effect r' r'' ks \<Longrightarrow> shift r r'' ks outs"
  unfolding shift_def effect_def by (auto simp: ac_simps)

lemma take_front_items:
  "take_front (q, sh) = Some (item, q', sh') \<Longrightarrow> qs_items q = item # qs_items q' \<and> qs_closed q' = qs_closed q"
  by (auto simp: take_front_def split: list.splits)

lemma pop_turn_items:
  "pop_turn (q, sh) = Item item (q', sh') \<Longrightarrow> qs_items q = item # qs_items q' \<and> qs_closed q' = qs_closed q"
  "pop_turn (q, sh) = Ended \<Longrightarrow> lane_sealed q"
  by (auto simp: pop_turn_def lane_sealed_def take_front_None_iff dest: take_front_items
      split: option.splits if_splits)

lemma writer_pop_shift:
  assumes "pop_turn (rt_writer r, sh) = Item item (q, sh')"
  shows "shift r (r\<lparr>rt_writer := q\<rparr>) {#} (owed (wc_completion (q_value item))) \<and>
    (queues_accepted r \<longrightarrow> accepted_completion (wc_completion (q_value item)))"
  using pop_turn_items(1) [OF assms]
  by (auto simp: shift_def queues_accepted_def balance_def runtime_view_defs lane_sealed_def writer_completions_def
      answered_def ac_simps)

text \<open>A search lane after some of its commands, \<open>out\<close>, were taken out of it.\<close>

lemma search_take_shift:
  assumes "mset (qs_items (fst (search_lane e r))) = mset out + mset (qs_items q)"
    "qs_closed q = qs_closed (fst (search_lane e r))"
  shows "shift r (set_search_lane e (q, sh) r) {#} (owed_all (search_completions out)) \<and>
    (queues_accepted r \<longrightarrow> list_all accepted_completion (search_completions out))"
proof -
  have all: "list_all accepted_completion (search_completions (qs_items (fst (search_lane e r)))) \<longleftrightarrow>
      list_all accepted_completion (search_completions out) \<and> list_all accepted_completion (search_completions (qs_items q))"
    using arg_cong [OF assms(1), of set_mset] by (auto simp: search_completions_def list_all_iff)
  have owes: "owed_all (search_completions xs) = (\<Sum>x\<in>#mset xs. owed (sc_completion (q_value x)))" for xs
    by (simp add: owed_all_def search_completions_def comp_def flip: sum_mset_sum_list)
  have owed: "owed_all (search_completions (qs_items (fst (search_lane e r)))) =
      owed_all (search_completions out) + owed_all (search_completions (qs_items q))"
    unfolding owes assms(1) by simp
  have empty: "qs_items (fst (search_lane e r)) = [] \<Longrightarrow> qs_items q = []"
    using assms(1) by simp
  show ?thesis
  proof (cases "e \<and> rt_expensive r \<noteq> None")
    case True
    then obtain p where p: "rt_expensive r = Some p" "e" by auto
    then have "set_search_lane e (q, sh) r = r\<lparr>rt_search_shared := sh, rt_expensive := Some q\<rparr>" "fst (search_lane e r) = p"
      by (simp_all add: set_search_lane_def search_lane_def Let_def)
    then show ?thesis
      using p all owed empty assms(2)
      by (simp add: shift_def queues_accepted_def balance_def runtime_view_defs lane_sealed_def answered_def ac_simps)
  next
    case False
    then have "set_search_lane e (q, sh) r = r\<lparr>rt_search_shared := sh, rt_ordinary := q\<rparr>" "fst (search_lane e r) = rt_ordinary r"
      by (auto simp: set_search_lane_def search_lane_def Let_def)
    then show ?thesis
      using all owed empty assms(2)
      by (simp add: shift_def queues_accepted_def balance_def runtime_view_defs lane_sealed_def answered_def ac_simps)
  qed
qed

lemma search_pop_shift:
  assumes "pop_turn (search_lane e r) = Item item q"
  shows "shift r (set_search_lane e q r) {#} (owed (sc_completion (q_value item))) \<and>
    (queues_accepted r \<longrightarrow> accepted_completion (sc_completion (q_value item)))"
proof -
  obtain p sh where q: "q = (p, sh)" by (cases q)
  have "qs_items (fst (search_lane e r)) = item # qs_items p" "qs_closed p = qs_closed (fst (search_lane e r))"
    using pop_turn_items(1) [of "fst (search_lane e r)" "snd (search_lane e r)" item p sh] assms q by auto
  then show ?thesis using search_take_shift [of e r "[item]" p sh] q by (simp add: search_completions_def)
qed

lemma inspect_one_conserves:
  "mset (in_items (inspect_one t s)) + mset (in_expired (inspect_one t s)) = mset (in_items s) + mset (in_expired s)"
  by (simp add: inspect_one_def Let_def split: list.split)

lemma inspect_loop_conserves:
  "mset (in_items (inspect_loop clock n s)) + mset (in_expired (inspect_loop clock n s)) = mset (in_items s) + mset (in_expired s)"
  by (induction n) (simp_all add: inspect_loop_def inspect_one_conserves)

lemma inspect_conserves:
  "inspect_and_take_expired clock (q, sh) = (items, remaining, q', sh') \<Longrightarrow>
    mset (qs_items q) = mset items + mset (qs_items q') \<and> qs_closed q' = qs_closed q"
  using inspect_loop_conserves [of clock "length (qs_items q)"
      "\<lparr>in_items = qs_items q, in_expired = [], in_minimum = None, in_expired_bytes = 0\<rparr>"]
  by (auto simp: inspect_and_take_expired_def Let_def ac_simps)

lemma search_expired_shift:
  assumes "inspect_and_take_expired clock (search_lane e r) = (items, remaining, q)"
  shows "shift r (set_search_lane e q r) {#} (owed_all (search_completions items)) \<and>
    (queues_accepted r \<longrightarrow> list_all accepted_completion (search_completions items))"
proof -
  obtain p sh where q: "q = (p, sh)" by (cases q)
  have "mset (qs_items (fst (search_lane e r))) = mset items + mset (qs_items p)" "qs_closed p = qs_closed (fst (search_lane e r))"
    using inspect_conserves [of clock "fst (search_lane e r)" "snd (search_lane e r)" items remaining p sh] assms q by auto
  then show ?thesis using search_take_shift [of e r items p sh] q by simp
qed

lemma drop_pending_effect:
  assumes "list_all accepted_completion (search_completions items)"
  shows "effect r (drop_pending now items r) (owed_all (search_completions items))"
proof -
  have "answers_only r (drop_pending now items r) (sum_list (map (\<lambda>x. owed (sc_completion (q_value x))) items))"
    unfolding drop_pending_def
    using assms by (intro fold_effect completion_drop_effect) (auto simp: search_completions_def list_all_iff)
  then have "effect r (drop_pending now items r) (sum_list (map (\<lambda>x. owed (sc_completion (q_value x))) items))"
    by (rule answers_only_effect)
  then show ?thesis by (simp add: owed_all_def search_completions_def comp_def)
qed

text \<open>What a step has to keep: the callbacks balance, and new departures find the lanes sealed.\<close>

lemma actors_inv_move:
  assumes inv: "actors_inv s"
    and r: "shift (as_runtime s) r ins outs"
    and balance: "owed_all (in_hand s') + ins = owed_all (in_hand s) + outs + x" "as_accepted s' = as_accepted s + x"
    and hands: "list_all accepted_completion (in_hand s')"
    and s': "as_runtime s' = r" "length (as_workers s') = length (as_workers s)"
    and left: "\<And>w b. w < length (as_workers s) \<Longrightarrow> as_workers s' ! w = Left b \<Longrightarrow>
      (\<exists>b. as_workers s ! w = Left b) \<or> lane_sealed (rt_ordinary r) \<and> (flexible r w \<longrightarrow> lanes_sealed r)"
    and stays: "\<And>w b. w < length (as_workers s) \<Longrightarrow> as_workers s ! w = Left b \<Longrightarrow> \<exists>b. as_workers s' ! w = Left b"
    and joining: "\<And>f c. as_writer s' = Joining f c \<Longrightarrow> as_writer s \<noteq> Joining f c \<Longrightarrow> lanes_closed r"
    and gone: "as_writer s' = Gone \<Longrightarrow> as_writer s \<noteq> Gone \<Longrightarrow> final r \<and> (\<forall>w<length (as_workers s). \<exists>b. as_workers s ! w = Left b)"
  shows "actors_inv s'"
proof -
  have q: "queues_accepted (as_runtime s)" "balance (as_runtime s) + owed_all (in_hand s) = as_accepted s"
    using inv by (auto simp: actors_inv_def)
  then have k: "queues_accepted r" "balance r + outs = balance (as_runtime s) + ins"
    "(rt_expensive r = None) = (rt_expensive (as_runtime s) = None)" "\<And>w. flexible r w = flexible (as_runtime s) w"
    "lane_sealed (rt_ordinary (as_runtime s)) \<Longrightarrow> lane_sealed (rt_ordinary r)" "lanes_closed (as_runtime s) \<Longrightarrow> lanes_closed r"
    "lanes_sealed (as_runtime s) \<Longrightarrow> lanes_sealed r" "final (as_runtime s) \<Longrightarrow> final r"
    using r by (auto simp: shift_def flexible_def)
  have "(balance r + owed_all (in_hand s')) + ins + outs = as_accepted s' + ins + outs"
    using k(2) balance q(2) by (metis (no_types, lifting) add.assoc add.commute)
  then have bal: "balance r + owed_all (in_hand s') = as_accepted s'" by simp
  have "\<forall>w<length (as_workers s'). (\<exists>b. as_workers s' ! w = Left b) \<longrightarrow> lane_sealed (rt_ordinary r) \<and>
        (flexible r w \<longrightarrow> lanes_sealed r)"
    using inv left s'(2) k(4,5,7) unfolding actors_inv_def by metis
  moreover have "as_writer s' = Gone \<longrightarrow> final r \<and> (\<forall>w<length (as_workers s'). \<exists>b. as_workers s' ! w = Left b)"
    using inv gone stays s'(2) k(8) unfolding actors_inv_def by metis
  moreover have "(\<exists>f c. as_writer s' = Joining f c) \<longrightarrow> lanes_closed r"
    using inv joining k(6) unfolding actors_inv_def by metis
  moreover have "as_workers s' \<noteq> []" "rt_expensive r \<noteq> None \<longrightarrow> 2 \<le> length (as_workers s')"
    using inv s'(2) k(3) by (auto simp: actors_inv_def)
  ultimately show ?thesis using k(1) bal hands s'(1) by (simp add: actors_inv_def)
qed

lemma actors_inv_runtime:
  assumes "actors_inv s" "effect (as_runtime s) r ks"
  shows "actors_inv (s\<lparr>as_runtime := r, as_accepted := as_accepted s + ks\<rparr>)"
  using assms(1)
  by (intro actors_inv_move [OF assms(1) effect_shift [OF assms(2)], where x = ks]) (auto simp: in_hand_def actors_inv_def)

lemma actors_inv_calm: "actors_inv s \<Longrightarrow> effect (as_runtime s) r {#} \<Longrightarrow> actors_inv (s\<lparr>as_runtime := r\<rparr>)"
  using actors_inv_runtime [of s r "{#}"] by simp

lemma actors_inv_writer:
  assumes "actors_inv s" "shift (as_runtime s) r ins outs"
    "owed_all (writer_hand p) + ins = owed_all (writer_hand (as_writer s)) + outs"
    "list_all accepted_completion (writer_hand p)"
    "\<And>f c. p = Joining f c \<Longrightarrow> lanes_closed r"
    "p = Gone \<Longrightarrow> final r \<and> (\<forall>w<length (as_workers s). \<exists>b. as_workers s ! w = Left b)"
  shows "actors_inv (s\<lparr>as_runtime := r, as_writer := p\<rparr>)"
  using assms(1,3-6)
  by (intro actors_inv_move [OF assms(1,2), where x = "{#}"]) (auto simp: in_hand_def actors_inv_def ac_simps)

lemma actors_inv_worker:
  assumes "actors_inv s" "shift (as_runtime s) r ins outs" "w < length (as_workers s)" "\<And>b. as_workers s ! w \<noteq> Left b"
    "owed_all (worker_hand p) + ins = owed_all (worker_hand (as_workers s ! w)) + outs"
    "list_all accepted_completion (worker_hand p)"
    "\<And>b. p = Left b \<Longrightarrow> lane_sealed (rt_ordinary r) \<and> (flexible r w \<longrightarrow> lanes_sealed r)"
  shows "actors_inv (s\<lparr>as_runtime := r, as_workers := (as_workers s)[w := p]\<rparr>)"
proof (rule actors_inv_move [OF assms(1,2), where x = "{#}"])
  let ?ws = "as_workers s"
  have acc: "list_all accepted_completion (concat (map worker_hand ?ws))" "list_all accepted_completion (writer_hand (as_writer s))"
    using assms(1) by (auto simp: actors_inv_def in_hand_def)
  note h = hands_update(1,2) [OF assms(3), of p]
  show "list_all accepted_completion (in_hand (s\<lparr>as_runtime := r, as_workers := ?ws[w := p]\<rparr>))"
    using h(2) [OF acc(1) assms(6)] acc(2) by (simp add: in_hand_def)
  have "owed_all (concat (map worker_hand (?ws[w := p]))) + ins + owed_all (worker_hand (?ws ! w)) =
      owed_all (concat (map worker_hand ?ws)) + outs + owed_all (worker_hand (?ws ! w))"
    using h(1) assms(5) by (metis (no_types, lifting) add.assoc add.commute)
  then have "owed_all (concat (map worker_hand (?ws[w := p]))) + ins = owed_all (concat (map worker_hand ?ws)) + outs" by simp
  then show "owed_all (in_hand (s\<lparr>as_runtime := r, as_workers := ?ws[w := p]\<rparr>)) + ins = owed_all (in_hand s) + outs + {#}"
    by (simp add: in_hand_def add.assoc)
  show "(\<exists>b. ?ws ! v = Left b) \<or> lane_sealed (rt_ordinary r) \<and> (flexible r v \<longrightarrow> lanes_sealed r)"
    if "v < length ?ws" "as_workers (s\<lparr>as_runtime := r, as_workers := ?ws[w := p]\<rparr>) ! v = Left b" for v b
    using that assms(7) by (cases "v = w") auto
  show "\<exists>b. as_workers (s\<lparr>as_runtime := r, as_workers := ?ws[w := p]\<rparr>) ! v = Left b"
    if "v < length ?ws" "?ws ! v = Left b" for v b
    using that assms(4) by (cases "v = w") auto
qed (use assms(1) in \<open>auto simp: actors_inv_def\<close>)

lemma Left_sealed:
  assumes "actors_inv s" "\<And>w. w < length (as_workers s) \<Longrightarrow> \<exists>b. as_workers s ! w = Left b"
  shows "lanes_sealed (as_runtime s)"
proof (cases "rt_expensive (as_runtime s) = None")
  case True
  have "0 < length (as_workers s)" using assms(1) by (simp add: actors_inv_def)
  then have "lane_sealed (rt_ordinary (as_runtime s))"
    using assms unfolding actors_inv_def by meson
  then show ?thesis using True by (simp add: lanes_sealed_def)
next
  case False
  then have "1 < length (as_workers s)" "flexible (as_runtime s) 1"
    using assms(1) by (auto simp: actors_inv_def flexible_def)
  then show ?thesis using assms unfolding actors_inv_def by meson
qed

lemma runtime_step_inv:
  assumes "runtime_step s s'" "actors_inv s"
  shows "actors_inv s'"
  using assms(1)
proof cases
  case (called now k call x r)
  have "effect (as_runtime s) r (if is_ok x then {#k#} else {#})"
    using perform_result [of k "as_runtime s" now call] called(2) by (simp add: call_result_def)
  then show ?thesis using called(1) actors_inv_runtime [OF assms(2)] by simp
next
  case (forced now)
  then show ?thesis using actors_inv_calm [OF assms(2) force_close_effect] by simp
next
  case (environment p b)
  then show ?thesis using actors_inv_calm [OF assms(2) calm_effect] by simp
next
  case (confirmed a a' b)
  have "effect (as_runtime s) ((as_runtime s)\<lparr>rt_reservation := Some a', rt_budget := b\<rparr>) {#}"
    using confirmed(2)
    by (simp add: effect_def queues_accepted_def balance_def runtime_view_defs answered_def)
  then show ?thesis using confirmed(1) actors_inv_calm [OF assms(2)] by simp
next
  case (writer_took item q sh now c r)
  note p = writer_pop_shift [OF writer_took(3)] and t = take_writer_effect [OF writer_took(4)]
  have "queues_accepted (as_runtime s)" using assms(2) by (simp add: actors_inv_def)
  then have "accepted_completion c" "owed c = owed (wc_completion (q_value item))" using p t by (auto simp: keeps_def)
  then show ?thesis
    unfolding writer_took(1)
    using writer_took(2)
    by (intro actors_inv_writer [OF assms(2) shift_effect [OF p [THEN conjunct1] t [THEN conjunct1]]]) (auto simp: writer_hand_def)
next
  case (writer_ran op c now an outcome c' r)
  note e = run_writer_operation_effect [OF writer_ran(3)]
  have "accepted_completion c" using assms(2) writer_ran(2) by (simp add: actors_inv_def in_hand_def writer_hand_def)
  then show ?thesis
    unfolding writer_ran(1)
    using e writer_ran(2) by (intro actors_inv_writer [OF assms(2) effect_shift]) (auto simp: writer_hand_def keeps_def)
next
  case (writer_continued outcome c now elapsed closing r)
  have a: "accepted_completion c" "queues_accepted (as_runtime s)"
    using assms(2) writer_continued(2) by (simp_all add: actors_inv_def in_hand_def writer_hand_def)
  show ?thesis
    unfolding writer_continued(1)
    using writer_continued(2)
    by (intro actors_inv_writer [OF assms(2) effect_shift [OF end_command_effect(1) [OF a writer_continued(3)]]]) (auto simp: writer_hand_def)
next
  case (writer_stopped outcome c now elapsed closing f c' r)
  have a: "accepted_completion c" "queues_accepted (as_runtime s)"
    using assms(2) writer_stopped(2) by (simp_all add: actors_inv_def in_hand_def writer_hand_def)
  note e = end_command_effect(2) [OF a writer_stopped(3)]
  show ?thesis
    unfolding writer_stopped(1)
    using e a writer_stopped(2) by (intro actors_inv_writer [OF assms(2) effect_shift]) (auto simp: writer_hand_def)
next
  case (writer_ended now closing x r f)
  have r: "effect (as_runtime s) r {#}" by (rule calm_effect [OF close_writer_calm [OF writer_ended(4)]])
  then have "queues_accepted r" using assms(2) by (simp add: actors_inv_def effect_def)
  note d = shutdown_searches_effect [OF this]
  show ?thesis
    unfolding writer_ended(1)
    using d writer_ended(2)
    by (intro actors_inv_writer [OF assms(2) effect_shift [OF effect_trans0 [OF r d [THEN conjunct1]]]])
      (auto simp: writer_hand_def no_completion_def accepted_completion_def owed_def)
next
  case (writer_left f c f' r now released)
  have a: "accepted_completion c" "queues_accepted (as_runtime s)"
    using assms(2) writer_left(2) by (simp_all add: actors_inv_def in_hand_def writer_hand_def)
  have e: "effect (as_runtime s) r (owed c)" "final r"
    using say_farewell_effect [OF a Left_sealed [OF assms(2) writer_left(3)]] writer_left(5) by auto
  have c: "calm r (signal_closed r)" by (simp add: signal_closed_def)
  have "effect (as_runtime s) (signal_closed r) (owed c)" by (rule effect_trans1 [OF e(1) calm_effect [OF c]])
  moreover have "final (signal_closed r)"
    using c e(2) same_view_flags(3) by (auto simp: calm_def)
  ultimately show ?thesis
    unfolding writer_left(1)
    using writer_left(2,3) by (intro actors_inv_writer [OF assms(2) effect_shift]) (auto simp: writer_hand_def)
next
  case (search_took w expensive item q now c r)
  note p = search_pop_shift [OF search_took(5)] and t = take_search_effect [OF search_took(6)]
  have "queues_accepted (as_runtime s)" using assms(2) by (simp add: actors_inv_def)
  then have "accepted_completion c" "owed c = owed (sc_completion (q_value item))" using p t by (auto simp: keeps_def)
  then show ?thesis
    unfolding search_took(1)
    using search_took(2,3)
    by (intro actors_inv_worker [OF assms(2) shift_effect [OF p [THEN conjunct1] t [THEN conjunct1]]]) (auto simp: worker_hand_def search_completions_def)
next
  case (searches_expired w clock items remaining q)
  note p = search_expired_shift [OF searches_expired(5)]
  have "queues_accepted (as_runtime s)" using assms(2) by (simp add: actors_inv_def)
  then show ?thesis
    unfolding searches_expired(1)
    using p searches_expired(2,3)
    by (intro actors_inv_worker [OF assms(2) p [THEN conjunct1]]) (auto simp: worker_hand_def search_completions_def)
next
  case (expired_took w item items now c r)
  note t = take_search_effect [OF expired_took(4)]
  have "list_all accepted_completion (worker_hand (as_workers s ! w))"
    using hands_update(3) [OF expired_took(2)] assms(2) by (auto simp: actors_inv_def in_hand_def)
  then have "accepted_completion c" "owed c = owed (sc_completion (q_value item))"
      "list_all accepted_completion (search_completions items)"
    using t expired_took(3) by (auto simp: keeps_def worker_hand_def search_completions_def)
  then show ?thesis
    unfolding expired_took(1)
    using t expired_took(2,3)
    by (intro actors_inv_worker [OF assms(2) effect_shift]) (auto simp: worker_hand_def search_completions_def)
next
  case (search_waited n)
  then show ?thesis using actors_inv_calm [OF assms(2) calm_effect] by simp
next
  case (search_started w c items now c' r)
  note t = search_clocks_effect(1) [OF search_started(4)]
  have "list_all accepted_completion (worker_hand (as_workers s ! w))"
    using hands_update(3) [OF search_started(2)] assms(2) by (auto simp: actors_inv_def in_hand_def)
  then show ?thesis
    unfolding search_started(1)
    using t search_started(2,3)
    by (intro actors_inv_worker [OF assms(2) effect_shift]) (auto simp: worker_hand_def keeps_def)
next
  case (search_finished w c items started now c' r)
  note t = search_clocks_effect(2) [OF search_finished(4)]
  have "list_all accepted_completion (worker_hand (as_workers s ! w))"
    using hands_update(3) [OF search_finished(2)] assms(2) by (auto simp: actors_inv_def in_hand_def)
  then show ?thesis
    unfolding search_finished(1)
    using t search_finished(2,3)
    by (intro actors_inv_worker [OF assms(2) effect_shift]) (auto simp: worker_hand_def keeps_def)
next
  case (search_answered w c items now x r)
  have a: "list_all accepted_completion (worker_hand (as_workers s ! w))" "queues_accepted (as_runtime s)"
    using hands_update(3) [OF search_answered(2)] assms(2) by (auto simp: actors_inv_def in_hand_def)
  then have "effect (as_runtime s) r (owed c)"
    using end_search_effect [OF _ _ search_answered(4)] search_answered(3) by (auto simp: worker_hand_def)
  then show ?thesis
    unfolding search_answered(1)
    using a search_answered(2,3)
    by (intro actors_inv_worker [OF assms(2) effect_shift]) (auto simp: worker_hand_def)
next
  case (search_panicked w c items now x r)
  have a: "list_all accepted_completion (worker_hand (as_workers s ! w))" "queues_accepted (as_runtime s)"
    using hands_update(3) [OF search_panicked(2)] assms(2) by (auto simp: actors_inv_def in_hand_def)
  then have items: "accepted_completion c" "list_all accepted_completion (search_completions items)"
    using search_panicked(3) by (auto simp: worker_hand_def)
  have e: "effect (as_runtime s) r (owed c)" "lanes_sealed r"
    using end_search_effect [OF items(1) a(2) search_panicked(4)] by auto
  then have "queues_accepted r" using a(2) by (simp add: effect_def)
  note d = drop_pending_effect [OF items(2), of r now]
  have "lanes_sealed (drop_pending now items r)" using d e(2) \<open>queues_accepted r\<close> by (simp add: effect_def)
  then show ?thesis
    unfolding search_panicked(1)
    using items(2) search_panicked(2,3)
    by (intro actors_inv_worker [OF assms(2) effect_shift [OF effect_trans [OF e(1) d]]]) (auto simp: worker_hand_def lanes_sealed_def)
next
  case (search_left w)
  have o': "lane_sealed (rt_ordinary (as_runtime s))"
    using pop_turn_items(2) [of "rt_ordinary (as_runtime s)"] search_left(4) by (simp add: search_lane_def)
  have "lanes_sealed (as_runtime s)" if "flexible (as_runtime s) w"
    using pop_turn_items(2) search_left(5) that o' by (auto simp: search_lane_def flexible_def lanes_sealed_def)
  then show ?thesis
    using actors_inv_worker [OF assms(2) effect_shift [OF effect_refl] search_left(2), of "Left False"] search_left(1,3) o'
    by (simp add: worker_hand_def search_completions_def)
qed

lemma actors_start_inv:
  assumes "0 < search_threads (ec_limits config)"
  shows "actors_inv (actors_start (runtime_start handle path identity env config read_only reservation budget process))"
proof -
  let ?r = "runtime_start handle path identity env config read_only reservation budget process"
  have r: "queue_completions ?r = []" "rt_answers ?r = []" "rt_config ?r = config"
      "rt_expensive ?r \<noteq> None \<longrightarrow> 2 \<le> search_threads (ec_limits config)"
    by (simp_all add: runtime_start_def queue_completions_def writer_completions_def search_completions_def
        bounded_queue_new_def Let_def)
  have "in_hand (actors_start ?r) = []"
    by (simp add: in_hand_def actors_start_def writer_hand_def worker_hand_def search_completions_def concat_replicate_trivial)
  then show ?thesis
    using r assms by (simp add: actors_inv_def actors_start_def queues_accepted_def balance_def answered_def)
qed

lemma actors_reachable_inv:
  assumes "runtime_step\<^sup>*\<^sup>* s s'" "actors_inv s"
  shows "actors_inv s'"
  using assms by (induction rule: rtranclp_induct) (auto intro: runtime_step_inv)

lemma final_queues: "final r \<Longrightarrow> queue_completions r = []"
  by (auto simp: final_def lane_sealed_def lanes_sealed_def queue_completions_def writer_completions_def
      search_completions_def split: option.split)

lemma gone_hands:
  assumes "actors_inv s" "as_writer s = Gone"
  shows "in_hand s = []"
proof -
  have "\<forall>w<length (as_workers s). \<exists>b. as_workers s ! w = Left b" using assms by (simp add: actors_inv_def)
  then have "\<forall>p\<in>set (as_workers s). \<exists>b. p = worker_phase.Left b" by (auto simp: in_set_conv_nth)
  then have "\<forall>p\<in>set (as_workers s). worker_hand p = []" by (auto simp: worker_hand_def)
  then show ?thesis by (simp add: in_hand_def assms(2) writer_hand_def)
qed

lemma gone_stays: "runtime_step s s' \<Longrightarrow> as_writer s = Gone \<Longrightarrow> as_writer s' = Gone"
  by (induction rule: runtime_step.induct) simp_all

text \<open>
  C7. Whatever native calls, forced closes, index answers, panics and thread interleavings a
  runtime meets after it started: the callbacks of the accepted calls are exactly those answered
  so far together with those that a queued command or a command in a thread's hands still owes,
  each as often as it was accepted.  So no accepted callback is lost, and none is answered twice.
\<close>

theorem callbacks_answered_once:
  assumes "0 < search_threads (ec_limits config)"
    "runtime_step\<^sup>*\<^sup>* (actors_start (runtime_start handle path identity env config read_only reservation budget process)) s"
  shows "mset (map fst (rt_answers (as_runtime s))) + owed_all (queue_completions (as_runtime s)) + owed_all (in_hand s) =
      as_accepted s \<and>
    (\<forall>k. count (mset (map fst (rt_answers (as_runtime s)))) k \<le> count (as_accepted s) k)"
proof -
  have "balance (as_runtime s) + owed_all (in_hand s) = as_accepted s"
    using actors_reachable_inv [OF assms(2) actors_start_inv [OF assms(1)]] by (simp add: actors_inv_def)
  then have b: "mset (map fst (rt_answers (as_runtime s))) + owed_all (queue_completions (as_runtime s)) + owed_all (in_hand s) =
      as_accepted s"
    by (simp add: balance_def answered_def)
  moreover have "count A k \<le> count (A + B + C) k" for A B C :: "nat multiset" and k by simp
  ultimately show ?thesis by metis
qed

text \<open>
  C14. When the writer thread is gone, every accepted callback was answered exactly once, the
  three queues are closed and empty, the runtime is in state closed or poisoned, and it holds no
  reservation of the process budget any more; and it stays so whatever is called later.
\<close>

theorem gone_runtime_settled:
  assumes "0 < search_threads (ec_limits config)"
    "runtime_step\<^sup>*\<^sup>* (actors_start (runtime_start handle path identity env config read_only reservation budget process)) s"
    "as_writer s = Gone" "runtime_step\<^sup>*\<^sup>* s s'"
  shows "as_writer s' = Gone \<and> mset (map fst (rt_answers (as_runtime s'))) = as_accepted s' \<and>
    qs_closed (rt_writer (as_runtime s')) \<and> queue_completions (as_runtime s') = [] \<and>
    rt_state (as_runtime s') \<in> {STATE_CLOSED, STATE_POISONED} \<and> rt_reservation (as_runtime s') = None"
proof -
  have inv: "actors_inv s" by (rule actors_reachable_inv [OF assms(2) actors_start_inv [OF assms(1)]])
  from assms(4) have "as_writer s' = Gone \<and> actors_inv s'"
  proof (induction rule: rtranclp_induct)
    case base
    then show ?case using assms(3) inv by simp
  next
    case (step t u)
    then show ?case using gone_stays [OF step(2)] runtime_step_inv [OF step(2)] by simp
  qed
  then have a: "as_writer s' = Gone" "actors_inv s'" by blast+
  then have f: "final (as_runtime s')" "balance (as_runtime s') + owed_all (in_hand s') = as_accepted s'"
    unfolding actors_inv_def by blast+
  then have "balance (as_runtime s') = as_accepted s'" using gone_hands [OF a(2,1)] by simp
  then show ?thesis
    using a(1) f(1) final_queues [OF f(1)] by (simp add: balance_def answered_def final_def lane_sealed_def)
qed

section \<open>Refused calls\<close>

lemma unaccepted_drop: "\<not> accepted_completion c \<Longrightarrow> completion_drop now (c, r) = r"
  by (cases "co_ticket c")
    (auto simp: completion_drop_def accepted_completion_def with_ticket_def drop_ticket_def settle_ticket_def)

text \<open>The operation a call is counted under: searches by their class.\<close>

definition call_operation :: "native_call \<Rightarrow> runtime \<Rightarrow> nat" where
  "call_operation call r = (case call of
     Call_Apply _ \<Rightarrow> 0 | Call_Commit \<Rightarrow> 1 | Call_Publish _ \<Rightarrow> 2 | Call_Reload \<Rightarrow> 3 | Call_Close _ \<Rightarrow> 4
   | Call_Search bytes \<Rightarrow> search_metric_operation (native_classification bytes r) | Call_Trace _ \<Rightarrow> 7)"

lemma checked_Err: "checked check f r = (Err e, r') \<Longrightarrow> (\<And>e r'. f r = (Err e, r') \<Longrightarrow> r' = r) \<Longrightarrow> r' = r"
  by (auto simp: checked_def split: result.splits unit.splits)

lemma observed_call_Err:
  assumes "observed_call op run r = (Err e, r')" "\<And>s s'. run s = (Err e, s') \<Longrightarrow> rt_state s = rt_state r \<Longrightarrow>
      qs_closed (rt_writer s) = qs_closed (rt_writer r) \<Longrightarrow> s' = s"
  shows "r' = on_metrics (reject_metric op (err_code e)) (on_metrics (attempt_metric op) r)"
proof -
  obtain x s where run: "run (on_metrics (attempt_metric op) r) = (x, s)" by fastforce
  have "rt_state (on_metrics (attempt_metric op) r) = rt_state r" "rt_writer (on_metrics (attempt_metric op) r) = rt_writer r"
    by (simp_all add: on_metrics_def rt_state_def)
  then show ?thesis using assms(1) assms(2) [of "on_metrics (attempt_metric op) r" s] run
    by (cases x) (auto simp: observed_call_def split: unit.splits)
qed

lemma enqueue_writer_Err:
  "enqueue_writer now command bytes r = (Err e, r') \<Longrightarrow> \<not> accepted_completion (wc_completion command) \<Longrightarrow> r' = r"
  by (auto simp: enqueue_writer_def Let_def unaccepted_drop split: result.splits unit.splits prod.splits)

lemma enqueue_search_Err:
  "enqueue_search now x command bytes r = (Err e, r') \<Longrightarrow> \<not> accepted_completion (sc_completion command) \<Longrightarrow> r' = r"
  by (auto simp: enqueue_search_def unaccepted_drop split: result.splits)

lemma force_writer_armed_Err:
  "force_writer_armed now command r = (Err e, r') \<Longrightarrow> \<not> accepted_completion (wc_completion command) \<Longrightarrow>
    qs_closed (rt_writer r) \<and> r' = r"
  by (auto simp: force_writer_armed_def push_force_tracked_def push_force_tracked_if_def no_shared_def unaccepted_drop
      split: result.splits prod.splits if_splits)

text \<open>
  A native call that is refused leaves the runtime exactly as it was, but for one attempt and
  one rejection with the error's code counted under its operation: nothing is queued, no state
  changes and the callback is not called.  (A close of an open runtime is the one call that
  changes the state first; it is only refused when the writer queue is closed, which no open
  runtime has.)
\<close>

theorem refused_call_counts_only:
  assumes "perform now k call r = (Err e, r')" "rt_state r = STATE_OPEN \<longrightarrow> \<not> qs_closed (rt_writer r)"
  shows "r' = r\<lparr>rt_metrics := reject_metric (call_operation call r) (err_code e)
    (attempt_metric (call_operation call r) (rt_metrics r))\<rparr>"
proof -
  have "r' = on_metrics (reject_metric (call_operation call r) (err_code e))
      (on_metrics (attempt_metric (call_operation call r)) r)"
  proof (cases call)
    case (Call_Apply b)
    show ?thesis
      using assms(1) unfolding Call_Apply perform_def native_apply_def native_call.case call_operation_def
      by (rule observed_call_Err) (auto dest!: checked_Err enqueue_writer_Err)
  next
    case (Call_Close b)
    show ?thesis
      using assms(1) unfolding Call_Close perform_def native_close_def native_call.case call_operation_def
      by (rule observed_call_Err)
        (use assms(2) in \<open>auto simp: unaccepted_drop close_command_def dest!: force_writer_armed_Err split: if_splits\<close>)
  next
    case (Call_Search b)
    show ?thesis
      using assms(1) unfolding Call_Search perform_def native_search_def native_call.case call_operation_def Let_def
      by (rule observed_call_Err) (auto dest!: checked_Err enqueue_search_Err split: result.splits)
  next
    case (Call_Trace b)
    show ?thesis
      using assms(1) unfolding Call_Trace perform_def native_trace_matches_def native_call.case call_operation_def
      by (rule observed_call_Err) (auto dest!: checked_Err enqueue_search_Err)
  next
    case Call_Commit
    show ?thesis
      using assms(1) unfolding Call_Commit perform_def native_commit_def native_call.case call_operation_def
      by (rule observed_call_Err) (auto dest!: checked_Err enqueue_writer_Err)
  next
    case (Call_Publish p)
    show ?thesis
      using assms(1) unfolding Call_Publish perform_def native_publish_def native_call.case call_operation_def
      by (rule observed_call_Err) (auto dest!: checked_Err enqueue_writer_Err)
  next
    case Call_Reload
    show ?thesis
      using assms(1) unfolding Call_Reload perform_def native_reload_def native_call.case call_operation_def
      by (rule observed_call_Err) (auto dest!: enqueue_writer_Err)
  qed
  then show ?thesis by (simp add: on_metrics_def)
qed

end
