(* ===== verification/Shutdown.thy ===== *)
theory Shutdown
  imports Lifecycle
begin

text \<open>
  What the threads of a runtime do when it ends: an idle runtime closes and answers its close, a
  failed publish poisons, a teardown hands back the reservation and the path, and a close without
  rollback over uncommitted mutations opens the runtime again, also when its environment is gone.
  The last section says where an accepted search is queued.  The sample runtime of the witnesses
  and its runs are built here too.
\<close>

section \<open>An idle runtime closes\<close>

definition idle_lane :: "'a bounded_queue \<Rightarrow> bool" where
  "idle_lane q \<longleftrightarrow> qs_items q = [] \<and> \<not> qs_closed q"

definition idle :: "actors \<Rightarrow> bool" where
  "idle s \<longleftrightarrow> as_writer s = Listening \<and> (\<forall>w<length (as_workers s). as_workers s ! w = Serving []) \<and>
     rt_state (as_runtime s) = STATE_OPEN \<and> idle_lane (rt_writer (as_runtime s)) \<and> idle_lane (rt_ordinary (as_runtime s)) \<and>
     (\<forall>q. rt_expensive (as_runtime s) = Some q \<longrightarrow> idle_lane q)"

text \<open>What every step of the shutdown leaves alone.\<close>

definition frame :: "runtime \<Rightarrow> runtime \<Rightarrow> bool" where
  "frame r r' \<longleftrightarrow> rt_ordinary r' = rt_ordinary r \<and> rt_expensive r' = rt_expensive r \<and> rt_uncommitted r' = rt_uncommitted r \<and>
     rt_writer_present r' = rt_writer_present r \<and> rt_read_only r' = rt_read_only r \<and> rt_answers r' = rt_answers r"

lemma with_ticket_metrics:
  assumes "benign f"
  obtains c' m where "with_ticket f (c, r) = (c', r\<lparr>rt_metrics := m\<rparr>)" "me_state m = rt_state r"
    "co_callback c' = co_callback c" "accepted_completion c \<Longrightarrow> accepted_completion c'"
proof (cases "co_ticket c")
  case None
  then show ?thesis using that [of c "rt_metrics r"] by (simp add: with_ticket_def rt_state_def)
next
  case (Some t)
  obtain t' m where f: "f (t, rt_metrics r) = (t', m)" by fastforce
  then have "me_state m = rt_state r" "ti_accepted t \<longrightarrow> ti_accepted t'"
    using assms unfolding benign_def rt_state_def by (metis fst_conv snd_conv)+
  then show ?thesis
    using that [of "c\<lparr>co_ticket := Some t'\<rparr>" m] Some f by (simp add: with_ticket_def accepted_completion_def)
qed

lemma close_call_queues:
  assumes "rt_state r = STATE_OPEN" "idle_lane (rt_writer r)"
  obtains r' c q where "perform now k (Call_Close b) r = (Ok (), r')" "frame r r'" "rt_state r' = STATE_CLOSING"
    "pop_turn (rt_writer r', no_shared) = Item \<lparr>q_value = \<lparr>wc_operation = Close_Writer b, wc_completion = c\<rparr>,
       q_bytes = 0, q_enqueued = now\<rparr> (q, no_shared)"
    "co_callback c = Some k" "accepted_completion c" "idle_lane q"
proof -
  let ?r = "set_state STATE_CLOSING (on_metrics (attempt_metric 4) r)"
  let ?c = "armed_writer (close_command k b) now"
  let ?q = "push_back \<lparr>q_value = ?c, q_bytes = 0, q_enqueued = now\<rparr> (rt_writer r)"
  obtain c' m where arm: "arm_completion now (new_completion k 4 0, ?r) = (c', ?r\<lparr>rt_metrics := m\<rparr>)" "me_state m = rt_state ?r"
    using with_ticket_metrics [OF benign_ops(3), of now "new_completion k 4 0" ?r] unfolding arm_completion_def by metis
  have c: "?c = \<lparr>wc_operation = Close_Writer b, wc_completion = wc_completion ?c\<rparr>"
    by (simp add: armed_writer_def close_command_def)
  have "perform now k (Call_Close b) r = (Ok (), ?r\<lparr>rt_metrics := m, rt_writer := ?q\<rparr>)"
    using assms arm(1)
    by (simp add: perform_def native_close_def observed_call_def force_writer_armed_def push_force_tracked_def
        push_force_tracked_if_def on_metrics_def rt_state_def idle_lane_def no_shared_def close_command_def set_state_def
        and_then_def split: unit.split)
  moreover have "frame r (?r\<lparr>rt_metrics := m, rt_writer := ?q\<rparr>)"
    by (simp add: frame_def set_state_def on_metrics_def)
  moreover have "rt_state (?r\<lparr>rt_metrics := m, rt_writer := ?q\<rparr>) = STATE_CLOSING"
    using arm(2) by (simp add: rt_state_def set_state_def)
  moreover have "\<exists>q'. pop_turn (?q, no_shared) = Item \<lparr>q_value = ?c, q_bytes = 0, q_enqueued = now\<rparr> (q', no_shared) \<and> idle_lane q'"
    using assms(2) by (simp add: pop_turn_def take_front_def push_back_def idle_lane_def release_shared_def no_shared_def)
  moreover have "co_callback (wc_completion ?c) = Some k" "accepted_completion (wc_completion ?c)"
    by (simp_all add: armed_writer_def close_command_def new_completion_def accepted_completion_def ticket_ops_accepted)
  ultimately show ?thesis using that c by fastforce
qed

definition quiet :: close_outcome where
  "quiet = \<lparr>cl_quiesced = True, cl_error = None\<rparr>"

definition good_answers :: index_answers where
  "good_answers = \<lparr>an_prepare = (\<lambda>_. Returned (Ok ())), an_apply = Returned (Ok 1), an_commit = Returned (Ok 1),
     an_commit_duration = 0, an_reload_owned = Returned (Ok ()), an_reload = Returned (Ok None), an_reload_duration = 0,
     an_close = Returned (Ok ())\<rparr>"

lemma close_run:
  assumes "b \<or> rt_uncommitted r = 0" "rt_writer_present r \<or> rt_read_only r"
  obtains r' where "run_writer_operation now good_answers (Close_Writer b) (c, r) = (Returned (Stop quiet), c, r')"
    "rt_ordinary r' = rt_ordinary r" "rt_expensive r' = rt_expensive r" "rt_answers r' = rt_answers r" "rt_writer r' = rt_writer r"
proof -
  let ?t = "on_metrics (begin_teardown_at now) r"
  define r' where "r' = (if rt_writer_present r then ?t\<lparr>rt_writer_present := False\<rparr> else ?t)"
  have "close_writer now (Returned (Ok ())) r = (Returned quiet, r')"
    by (cases "rt_writer_present r") (use assms(2) in \<open>simp_all add: close_writer_def finish_writer_close_def
        on_metrics_def quiet_def r'_def split: unit.split\<close>)
  then have "run_close now good_answers b r = (Returned (Stop quiet), r')"
    using assms(1) by (auto simp: run_close_def good_answers_def)
  then have "run_writer_operation now good_answers (Close_Writer b) (c, r) = (Returned (Stop quiet), c, r')"
    by (simp add: run_writer_operation_def)
  then show ?thesis using that by (simp add: r'_def on_metrics_def)
qed

lemma shutdown_idle:
  assumes "idle_lane (rt_ordinary r)" "\<forall>q. rt_expensive r = Some q \<longrightarrow> idle_lane q"
  shows "lanes_sealed (shutdown_searches r)" "rt_answers (shutdown_searches r) = rt_answers r"
    "rt_writer (shutdown_searches r) = rt_writer r"
  using assms
  by (cases "rt_expensive r"; simp add: shutdown_searches_def shutdown_lane_def set_search_lane_def search_lane_def
      shutdown_after_drain_def Let_def lanes_sealed_def lane_sealed_def idle_lane_def)+

lemma sealed_pop: "lane_sealed q \<Longrightarrow> pop_turn (q, sh) = Ended"
  by (simp add: pop_turn_def take_front_def lane_sealed_def)

lemma workers_leave:
  assumes "lanes_sealed (as_runtime s)" "\<forall>w<length (as_workers s). as_workers s ! w = Serving []"
  shows "runtime_step\<^sup>*\<^sup>* s (s\<lparr>as_workers := replicate (length (as_workers s)) (Left False)\<rparr>)"
proof -
  let ?ws = "as_workers s"
  have "runtime_step\<^sup>*\<^sup>* s (s\<lparr>as_workers := replicate k (Left False) @ drop k ?ws\<rparr>)" if "k \<le> length ?ws" for k
    using that
  proof (induction k)
    case (Suc k)
    let ?s = "s\<lparr>as_workers := replicate k (Left False) @ drop k ?ws\<rparr>"
    have k: "k < length (as_workers ?s)" "as_workers ?s ! k = Serving []"
      "(as_workers ?s)[k := Left False] = replicate (Suc k) (Left False) @ drop (Suc k) ?ws"
      using Suc.prems assms(2)
      by (simp_all add: nth_append list_update_append Cons_nth_drop_Suc [symmetric] replicate_append_same [symmetric])
    have e: "pop_turn (search_lane False (as_runtime ?s)) = Ended"
      "flexible (as_runtime ?s) k \<longrightarrow> pop_turn (search_lane True (as_runtime ?s)) = Ended"
      using assms(1) by (auto simp: search_lane_def lanes_sealed_def sealed_pop flexible_def split: option.split)
    have "runtime_step ?s (?s\<lparr>as_workers := (as_workers ?s)[k := Left False]\<rparr>)"
      by (rule runtime_step.search_left [OF k(1,2) e])
    then show ?case using Suc k(3) by (auto intro: rtranclp.rtrancl_into_rtrancl)
  qed simp
  from this [of "length ?ws"] show ?thesis by simp
qed

lemma farewell_quiet:
  assumes "accepted_completion c" "co_callback c = Some k" "lane_sealed (rt_writer r) \<or> idle_lane (rt_writer r)"
  shows "rt_state (say_farewell now False True (After_Stop quiet) c r) = STATE_CLOSED"
    "(\<exists>g. rt_answers (say_farewell now False True (After_Stop quiet) c r) = rt_answers r @ [(k, success_envelope [], g)])"
proof -
  let ?q = "fst (snd (close_queue (rt_writer r, no_shared)))"
  let ?r = "on_metrics (finish_teardown_at now True) (hand_back True (r\<lparr>rt_writer := ?q\<rparr>))"
  have w: "close_writer_queue now r = r\<lparr>rt_writer := ?q\<rparr>"
    using assms(3) by (auto simp: close_writer_queue_def close_queue_def drain_queue_def lane_sealed_def idle_lane_def)
  have f: "say_farewell now False True (After_Stop quiet) c r = completion_success now [] (c, ?r)"
    by (simp add: say_farewell_def finish_joined_def join_outcome_def quiet_def w close_result_def settle_def Let_def)
  have r: "rt_state ?r = STATE_CLOSED" "rt_answers ?r = rt_answers r"
    by (cases "rt_reservation r"; simp add: on_metrics_def hand_back_def release_reservation_def set_state_def rt_state_def
        Let_def)+
  show "rt_state (say_farewell now False True (After_Stop quiet) c r) = STATE_CLOSED"
    unfolding f using answers_only_view [OF completion_success_effect [OF assms(1)]] r(1) by (simp add: same_view_def)
  define r1 where "r1 = ?r"
  obtain c1 m1 where a: "completion_record now None (c, r1) = (c1, r1\<lparr>rt_metrics := m1\<rparr>)" "co_callback c1 = Some k"
      "accepted_completion c1"
    using with_ticket_metrics [OF benign_ops(1), of now None c r1] assms(1,2) unfolding completion_record_def by metis
  define r2 where "r2 = r1\<lparr>rt_metrics := m1, rt_answers := rt_answers r @ [(k, success_envelope [], gate_alive (r1\<lparr>rt_metrics := m1\<rparr>))]\<rparr>"
  define c2 where "c2 = c1\<lparr>co_callback := None\<rparr>"
  have s: "completion_success now [] (c, ?r) = completion_drop now (c2, r2)"
    using a r(2) by (simp add: completion_success_def completion_send_def c2_def r2_def flip: r1_def)
  obtain c3 m3 where b: "completion_record now (Some ''E_CLOSED'') (c2, r2) = (c3, r2\<lparr>rt_metrics := m3\<rparr>)"
      "co_callback c3 = co_callback c2"
    using with_ticket_metrics [OF benign_ops(1), of now "Some ''E_CLOSED''" c2 r2] unfolding completion_record_def by metis
  have "completion_drop now (c2, r2) = r2\<lparr>rt_metrics := m3\<rparr>"
    using b a(3) by (auto simp: completion_drop_def accepted_completion_def c2_def split: option.splits)
  then show "\<exists>g. rt_answers (say_farewell now False True (After_Stop quiet) c r) = rt_answers r @ [(k, success_envelope [], g)]"
    unfolding f s by (simp add: r2_def)
qed

lemma idle_close_run:
  assumes "idle s" "rollback \<or> rt_uncommitted (as_runtime s) = 0" "rt_writer_present (as_runtime s) \<or> rt_read_only (as_runtime s)"
  shows "\<exists>s'. runtime_step\<^sup>*\<^sup>* s s' \<and> as_writer s' = Gone \<and> rt_state (as_runtime s') = STATE_CLOSED \<and>
    as_accepted s' = as_accepted s + {#k#} \<and>
    (\<exists>gate. rt_answers (as_runtime s') = rt_answers (as_runtime s) @ [(k, success_envelope [], gate)])"
proof -
  let ?r = "as_runtime s" and ?n = "length (as_workers s)"
  have i: "as_writer s = Listening" "\<forall>w<?n. as_workers s ! w = Serving []" "rt_state ?r = STATE_OPEN" "idle_lane (rt_writer ?r)"
      "idle_lane (rt_ordinary ?r)" "\<forall>q. rt_expensive ?r = Some q \<longrightarrow> idle_lane q"
    using assms(1) by (simp_all add: idle_def)
  obtain r1 c q where call: "perform 0 k (Call_Close rollback) ?r = (Ok (), r1)" "frame ?r r1"
      "pop_turn (rt_writer r1, no_shared) = Item \<lparr>q_value = \<lparr>wc_operation = Close_Writer rollback, wc_completion = c\<rparr>,
         q_bytes = 0, q_enqueued = 0\<rparr> (q, no_shared)" "co_callback c = Some k" "accepted_completion c"
      "idle_lane q"
    using close_call_queues [OF i(3,4), of 0 k rollback] by metis
  define item where "item = \<lparr>q_value = \<lparr>wc_operation = Close_Writer rollback, wc_completion = c\<rparr>, q_bytes = 0, q_enqueued = 0\<rparr>"
  define r1q where "r1q = r1\<lparr>rt_writer := q, rt_writer_queue_ns := rt_writer_queue_ns r1 + duration_ns (0 - q_enqueued item)\<rparr>"
  obtain c2 m2 where t: "with_ticket (start_at 0) (c, r1q) = (c2, r1q\<lparr>rt_metrics := m2\<rparr>)" "co_callback c2 = Some k"
      "accepted_completion c2"
    using with_ticket_metrics [OF benign_ops(5), of 0 c r1q] call(4,5) by metis
  define r2 where "r2 = r1q\<lparr>rt_metrics := m2\<rparr>"
  have take: "take_writer 0 item (r1\<lparr>rt_writer := q\<rparr>) = (c2, r2)"
    using t(1) by (simp add: take_writer_def r1q_def r2_def item_def)
  have r2: "rollback \<or> rt_uncommitted r2 = 0" "rt_writer_present r2 \<or> rt_read_only r2"
    using assms(2,3) call(2) by (auto simp: r2_def r1q_def frame_def)
  obtain r3 where run: "run_writer_operation 0 good_answers (Close_Writer rollback) (c2, r2) = (Returned (Stop quiet), c2, r3)"
      "rt_ordinary r3 = rt_ordinary r2" "rt_expensive r3 = rt_expensive r2" "rt_answers r3 = rt_answers r2" "rt_writer r3 = rt_writer r2"
    using close_run [OF r2] by blast
  let ?r3e = "r3\<lparr>rt_writer_execution_ns := rt_writer_execution_ns r3 + duration_ns 0\<rparr>"
  define r4 where "r4 = shutdown_searches ?r3e"
  have leave: "end_command 0 0 Panicked (Returned (Stop quiet)) (c2, r3) = Leave (After_Stop quiet) c2 r4"
    by (simp add: end_command_def r4_def Let_def)
  have r4: "lanes_sealed r4" "rt_answers r4 = rt_answers ?r" "rt_writer r4 = q"
    using shutdown_idle [of ?r3e] run i(5,6) call(2) by (auto simp: r4_def r2_def r1q_def frame_def)
  let ?s1 = "s\<lparr>as_runtime := r1, as_accepted := as_accepted s + {#k#}\<rparr>"
  let ?s2 = "?s1\<lparr>as_runtime := r2, as_writer := Executing (Close_Writer rollback) c2\<rparr>"
  let ?s3 = "?s2\<lparr>as_runtime := r3, as_writer := Executed (Returned (Stop quiet)) c2\<rparr>"
  let ?s4 = "?s3\<lparr>as_runtime := r4, as_writer := Joining (After_Stop quiet) c2\<rparr>"
  let ?s5 = "?s4\<lparr>as_workers := replicate ?n (Left False)\<rparr>"
  let ?r5 = "say_farewell 0 (Left True \<in> set (as_workers ?s5)) True (After_Stop quiet) c2 r4"
  have "runtime_step s ?s1" using runtime_step.called [OF call(1)] by simp
  moreover have "runtime_step ?s1 ?s2"
    using runtime_step.writer_took [of ?s1 item q no_shared 0 c2 r2] call(3) take i(1) by (simp add: item_def)
  moreover have "runtime_step ?s2 ?s3" using runtime_step.writer_ran [of ?s2 _ c2 0 good_answers] run(1) by simp
  moreover have "runtime_step ?s3 ?s4" using runtime_step.writer_stopped [of ?s3 _ c2 0 0 Panicked] leave by simp
  moreover have "runtime_step\<^sup>*\<^sup>* ?s4 ?s5" using workers_leave [of ?s4] r4(1) i(2) by simp
  moreover have "runtime_step ?s5 (?s5\<lparr>as_runtime := signal_closed ?r5, as_writer := Gone\<rparr>)"
    by (rule runtime_step.writer_left [of _ "After_Stop quiet" c2 "After_Stop quiet" _ 0 True]) auto
  ultimately have run_all: "runtime_step\<^sup>*\<^sup>* s (?s5\<lparr>as_runtime := signal_closed ?r5, as_writer := Gone\<rparr>)"
    by (meson converse_rtranclp_into_rtranclp rtranclp.rtrancl_into_rtrancl)
  have "Left True \<notin> set (as_workers ?s5)" by simp
  then have r5: "rt_state ?r5 = STATE_CLOSED" "\<exists>gate. rt_answers ?r5 = rt_answers ?r @ [(k, success_envelope [], gate)]"
    using farewell_quiet [of c2 k r4 0] t(2,3) r4 call(6) by auto
  show ?thesis
    by (rule exI [of _ "?s5\<lparr>as_runtime := signal_closed ?r5, as_writer := Gone\<rparr>"])
      (use run_all r5 in \<open>auto simp: signal_closed_def rt_state_def\<close>)
qed

text \<open>The configuration of the samples, its runtime, and a run of it.\<close>

definition sample_runtime :: runtime where
  "sample_runtime = runtime_start 5 ''/d'' (Unix 1 2) 9 (oc_engine Config_Codec.sample_open) False (Unbudgeted False)
     OpenedWithoutBudget process_start"

lemma sample_idle: "idle (actors_start sample_runtime)"
  by (simp add: idle_def actors_start_def sample_runtime_def runtime_start_def rt_state_def metrics_new_def STATE_OPEN_def
      idle_lane_def bounded_queue_new_def Let_def)

lemma sample_fields [simp]:
  "rt_uncommitted sample_runtime = 0" "rt_writer_present sample_runtime" "rt_answers sample_runtime = []"
  "0 < search_threads (ec_limits (oc_engine Config_Codec.sample_open))"
  by (simp_all add: sample_runtime_def runtime_start_def Let_def Config_Codec.sample_open_def)

text \<open>
  C26. An idle open runtime (queues empty and open, writer listening, search workers waiting) with
  its writer in place can always be closed: when nothing is uncommitted, or the close asks for a
  rollback, the close call is accepted and there is a run of the threads that ends with the writer
  gone, the state closed, and the callback answered with the empty success response.
\<close>

theorem idle_close_completes:
  assumes "idle s" "rollback \<or> rt_uncommitted (as_runtime s) = 0" "rt_writer_present (as_runtime s) \<or> rt_read_only (as_runtime s)"
  shows "\<exists>s'. runtime_step\<^sup>*\<^sup>* s s' \<and> as_writer s' = Gone \<and> rt_state (as_runtime s') = STATE_CLOSED \<and>
    as_accepted s' = as_accepted s + {#k#} \<and>
    (\<exists>gate. rt_answers (as_runtime s') = rt_answers (as_runtime s) @ [(k, success_envelope [], gate)])"
  by (rule idle_close_run [OF assms])

theorem idle_close_completes_witness:
  "\<exists>s'. runtime_step\<^sup>*\<^sup>* (actors_start sample_runtime) s' \<and> as_writer s' = Gone \<and> rt_state (as_runtime s') = STATE_CLOSED \<and>
    (\<exists>gate. rt_answers (as_runtime s') = [(7, success_envelope [], gate)])"
  using idle_close_completes [OF sample_idle, of False 7] by (auto simp: actors_start_def)

lemma sample_closes:
  "\<exists>s'. runtime_step\<^sup>*\<^sup>* (actors_start sample_runtime) s' \<and> as_writer s' = Gone \<and> as_accepted s' = {#7#} \<and>
    rt_state (as_runtime s') = STATE_CLOSED"
  using idle_close_run [OF sample_idle, of False 7] by (auto simp: actors_start_def)

theorem callbacks_answered_once_witness:
  "\<exists>s. runtime_step\<^sup>*\<^sup>* (actors_start sample_runtime) s \<and>
    mset (map fst (rt_answers (as_runtime s))) + owed_all (queue_completions (as_runtime s)) + owed_all (in_hand s) = {#7#}"
proof -
  from sample_closes obtain s where s: "runtime_step\<^sup>*\<^sup>* (actors_start sample_runtime) s" "as_accepted s = {#7#}" by blast
  show ?thesis
    using callbacks_answered_once [OF sample_fields(4) s(1) [unfolded sample_runtime_def]] s by auto
qed

theorem gone_runtime_settled_witness:
  "\<exists>s. runtime_step\<^sup>*\<^sup>* (actors_start sample_runtime) s \<and> as_writer s = Gone \<and>
    mset (map fst (rt_answers (as_runtime s))) = {#7#} \<and> rt_reservation (as_runtime s) = None"
proof -
  from sample_closes obtain s where s: "runtime_step\<^sup>*\<^sup>* (actors_start sample_runtime) s" "as_writer s = Gone"
    "as_accepted s = {#7#}" by blast
  show ?thesis
    using gone_runtime_settled [OF sample_fields(4) s(1) [unfolded sample_runtime_def] s(2) rtranclp.rtrancl_refl] s by auto
qed

lemma poisoned_refuses:
  assumes "rt_state r = STATE_POISONED" "\<forall>b. call \<noteq> Call_Close b"
  shows "\<exists>e r'. perform now k call r = (Err e, r')"
proof -
  have s: "rt_state (on_metrics (attempt_metric op) r) = STATE_POISONED" for op
    using assms(1) by (simp add: on_metrics_def rt_state_def)
  have o': "require_open r' = Err (fulltext_error_new ''E_POISONED'' ''index is poisoned'')" if "rt_state r' = STATE_POISONED" for r'
    using that by (simp add: require_open_def STATE_OPEN_def STATE_POISONED_def)
  have w: "require_writable r' = Err (fulltext_error_new ''E_POISONED'' ''index is poisoned'')" if "rt_state r' = STATE_POISONED" for r'
    using o' [OF that] by (simp add: require_writable_def and_then_def)
  show ?thesis
    using assms
    by (cases call; cases "\<exists>p e. call = Call_Publish p \<and> payload_check p = Err e")
      (auto simp: perform_def native_apply_def native_commit_def native_publish_def native_reload_def native_search_def
        native_trace_matches_def observed_call_def checked_def o' w s enqueue_writer_def native_classification_def
        and_then_def Let_def split: result.splits unit.splits)
qed

theorem refused_call_counts_only_witness:
  "\<exists>e r'. perform 0 7 Call_Commit (set_state STATE_POISONED sample_runtime) = (Err e, r') \<and> rt_answers r' = [] \<and>
    rt_state r' = STATE_POISONED"
proof -
  let ?r = "set_state STATE_POISONED sample_runtime"
  obtain e r' where p: "perform 0 7 Call_Commit ?r = (Err e, r')"
    using poisoned_refuses [of ?r Call_Commit 0 7] by auto
  have "rt_state ?r = STATE_OPEN \<longrightarrow> \<not> qs_closed (rt_writer ?r)" by (simp add: STATE_OPEN_def STATE_POISONED_def)
  from refused_call_counts_only [OF p this] show ?thesis
    using p by (auto simp: set_state_def rt_state_def call_operation_def)
qed

section \<open>Failures\<close>



section \<open>Teardown\<close>

text \<open>Dropping completions leaves everything but metrics and answers alone.\<close>

lemma completion_drop_fields [simp]:
  "rt_process (completion_drop now (c, r)) = rt_process r" "rt_handle (completion_drop now (c, r)) = rt_handle r"
  "rt_path (completion_drop now (c, r)) = rt_path r" "rt_path_identity (completion_drop now (c, r)) = rt_path_identity r"
  "rt_environment (completion_drop now (c, r)) = rt_environment r" "rt_reservation (completion_drop now (c, r)) = rt_reservation r"
  "rt_budget (completion_drop now (c, r)) = rt_budget r"
  by (auto simp: completion_drop_def completion_record_def completion_send_def with_ticket_def
      split: option.splits prod.splits)

lemma drop_writers_fields [simp]:
  "rt_process (fold (\<lambda>item r. completion_drop now (wc_completion (q_value item), r)) items r) =
    rt_process r"
  "rt_handle (fold (\<lambda>item r. completion_drop now (wc_completion (q_value item), r)) items r) =
    rt_handle r"
  "rt_path (fold (\<lambda>item r. completion_drop now (wc_completion (q_value item), r)) items r) =
    rt_path r"
  "rt_path_identity (fold (\<lambda>item r. completion_drop now (wc_completion (q_value item), r)) items r) =
    rt_path_identity r"
  "rt_environment (fold (\<lambda>item r. completion_drop now (wc_completion (q_value item), r)) items r) =
    rt_environment r"
  "rt_reservation (fold (\<lambda>item r. completion_drop now (wc_completion (q_value item), r)) items r) =
    rt_reservation r"
  "rt_budget (fold (\<lambda>item r. completion_drop now (wc_completion (q_value item), r)) items r) =
    rt_budget r"
  by (induction items arbitrary: r) simp_all

lemma close_writer_queue_fields:
  "rt_process (close_writer_queue now r) = rt_process r" "rt_handle (close_writer_queue now r) = rt_handle r"
  "rt_path (close_writer_queue now r) = rt_path r" "rt_path_identity (close_writer_queue now r) = rt_path_identity r"
  "rt_environment (close_writer_queue now r) = rt_environment r" "rt_reservation (close_writer_queue now r) = rt_reservation r"
  "rt_budget (close_writer_queue now r) = rt_budget r"
  by (simp_all add: close_writer_queue_def split: prod.split)

lemma release_runtime_frees:
  "rg_handles (ps_registry (release_runtime h p env w)) h = None"
  "rg_paths (ps_registry (release_runtime h p env w)) p \<noteq> Some (Open_By h)"
  "h \<notin> ps_tracked (release_runtime h p env w) env"
  "rg_unproven_paths (ps_registry (release_runtime h p env w)) = rg_unproven_paths (ps_registry w)"
  by (auto simp: release_runtime_def untrack_def on_registry_def forget_open_def forget_reader_def Let_def split: option.splits)

lemma release_runtime_handle_frees:
  "rg_handles (ps_registry (release_runtime_handle h path p env w)) h = None"
  "rg_paths (ps_registry (release_runtime_handle h path p env w)) p \<noteq> Some (Open_By h)"
  "h \<notin> ps_tracked (release_runtime_handle h path p env w) env"
  "rg_unproven_paths (ps_registry (release_runtime_handle h path p env w)) = insert path (rg_unproven_paths (ps_registry w))"
  by (auto simp: release_runtime_handle_def untrack_def on_registry_def forget_open_def forget_reader_def Let_def
      split: option.splits)

text \<open>
  C28. The end of a teardown: the runtime is closed exactly when the writer quiesced and nobody else
  holds the engine, and then its budget reservation is given back; otherwise it is poisoned, the
  reservation is kept until restart, and its path is marked unproven, so that no later open and no
  reset of the path is admitted.  Either way the handle is unregistered and untracked, and the path
  is no longer reserved by it.
\<close>

theorem teardown_hands_back:
  assumes "finish_joined now panicked released outcome r = (outcome', r')" "rt_reservation r = Some a"
  shows "cl_quiesced outcome' = (cl_quiesced outcome \<and> released) \<and>
    rg_handles (ps_registry (rt_process r')) (rt_handle r) = None \<and>
    rg_paths (ps_registry (rt_process r')) (rt_path_identity r) \<noteq> Some (Open_By (rt_handle r)) \<and>
    rt_handle r \<notin> ps_tracked (rt_process r') (rt_environment r) \<and>
    (if cl_quiesced outcome'
     then rt_state r' = STATE_CLOSED \<and> rt_budget r' = drop_admission a (rt_budget r) \<and>
       rg_unproven_paths (ps_registry (rt_process r')) = rg_unproven_paths (ps_registry (rt_process r))
     else rt_state r' = STATE_POISONED \<and> rt_budget r' = retain_until_restart a (rt_budget r) \<and>
       (\<forall>h id env ro. fst (reserve_open h (rt_path r) id env ro (rt_process r')) \<noteq> Ok ()) \<and>
       (\<forall>h id. fst (reserve_reset h (rt_path r) id (rt_process r')) = Err unproven_error))"
proof -
  let ?q = "close_writer_queue now r"
  have o': "outcome' = join_outcome panicked released outcome" "r' = on_metrics (finish_teardown_at now
      (cl_quiesced outcome' \<and> cl_error outcome' = None)) (hand_back (cl_quiesced outcome') ?q)"
    using assms(1) by (auto simp: finish_joined_def Let_def)
  have q: "cl_quiesced outcome' = (cl_quiesced outcome \<and> released)"
    unfolding o'(1) by (simp add: join_outcome_def Let_def)
  show ?thesis
  proof (cases "cl_quiesced outcome'")
    case True
    then show ?thesis
      using q assms(2) unfolding o'(2)
      by (simp add: on_metrics_def hand_back_def release_reservation_def set_state_def rt_state_def close_writer_queue_fields
          release_runtime_frees Let_def)
  next
    case False
    have refused: "fst (reserve_open h path id env ro w) \<noteq> Ok ()" "fst (reserve_reset h path id w) = Err unproven_error"
      if "path \<in> rg_unproven_paths (ps_registry w)" for h path id env ro w
      using that by (auto simp: reserve_open_def reserve_reset_def Let_def)
    have "rt_state r' = STATE_POISONED" "rt_budget r' = retain_until_restart a (rt_budget r)"
      "rt_process r' = release_runtime_handle (rt_handle r) (rt_path r) (rt_path_identity r) (rt_environment r) (rt_process r)"
      using False assms(2) unfolding o'(2)
      by (simp_all add: on_metrics_def hand_back_def retain_reservation_def set_state_def rt_state_def close_writer_queue_fields Let_def)
    then show ?thesis
      using False q refused [of "rt_path r" "rt_process r'"] by (auto simp: release_runtime_handle_frees)
  qed
qed

theorem teardown_hands_back_witness:
  "rt_state (snd (finish_joined 0 False False quiet sample_runtime)) = STATE_POISONED \<and>
   fst (reserve_reset 6 ''/d'' (Unix 1 2) (rt_process (snd (finish_joined 0 False False quiet sample_runtime)))) = Err unproven_error"
proof -
  obtain outcome' r' where f: "finish_joined 0 False False quiet sample_runtime = (outcome', r')" by fastforce
  have "rt_reservation sample_runtime = Some (Unbudgeted False)" and path: "rt_path sample_runtime = ''/d''"
    by (simp_all add: sample_runtime_def runtime_start_def Let_def)
  note t = teardown_hands_back [OF f this(1), unfolded path]
  then have "\<not> cl_quiesced outcome'" by simp
  then show ?thesis using t f by auto
qed

section \<open>A dirty close and the cleanup of its environment\<close>

text \<open>An idle writable runtime with room for the batch takes it, runs it and is idle again.\<close>

lemma apply_call_queues:
  assumes "rt_state r = STATE_OPEN" "idle_lane (rt_writer r)" "\<not> rt_read_only r" "0 < max_commands (rt_writer r)"
    "qs_bytes (rt_writer r) = 0" "length bytes \<le> max_bytes (rt_writer r)" "max_bytes (rt_writer r) \<le> usize_max"
    "validate_batch_header bytes (max_batch_bytes (ec_limits (rt_config r))) = Ok ()"
  obtains r' c q where "perform now k (Call_Apply bytes) r = (Ok (), r')" "frame r r'" "rt_state r' = STATE_OPEN"
    "pop_turn (rt_writer r', no_shared) = Item \<lparr>q_value = \<lparr>wc_operation = Apply bytes, wc_completion = c\<rparr>,
       q_bytes = length bytes, q_enqueued = now\<rparr> (q, no_shared)"
    "co_callback c = Some k" "accepted_completion c" "idle_lane q"
proof -
  let ?r = "on_metrics (attempt_metric 0) r"
  let ?c = "\<lparr>wc_operation = Apply bytes, wc_completion = new_completion k 0 (length bytes)\<rparr>"
  let ?ac = "armed_writer ?c now"
  let ?q = "push_back \<lparr>q_value = ?ac, q_bytes = length bytes, q_enqueued = now\<rparr> (rt_writer r)"
  obtain c' m where arm: "arm_completion now (new_completion k 0 (length bytes), ?r) = (c', ?r\<lparr>rt_metrics := m\<rparr>)" "me_state m = rt_state ?r"
    using with_ticket_metrics [OF benign_ops(3), of now "new_completion k 0 (length bytes)" ?r] unfolding arm_completion_def by metis
  have room: "validate_capacity (rt_writer r) (length bytes) = Ok ()"
    using assms(2,4-7) by (simp add: validate_capacity_def idle_lane_def saturating_add_def)
  have st: "rt_state ?r = STATE_OPEN" "rt_read_only ?r = rt_read_only r" "rt_writer ?r = rt_writer r" "rt_config ?r = rt_config r"
    using assms(1) by (simp_all add: on_metrics_def rt_state_def)
  have opn: "require_open ?r = Ok ()" "require_writable ?r = Ok ()"
    using st assms(3) by (simp_all add: require_open_def require_writable_def and_then_def)
  have push: "try_push_tracked ?c (length bytes) (Ok ()) armed_writer now (rt_writer r, no_shared) =
      Ok (?q, notify_shared no_shared)"
    using room by (simp add: try_push_tracked_def and_then_def reserve_shared_def no_shared_def)
  have "enqueue_writer now ?c (length bytes) ?r = (Ok (), ?r\<lparr>rt_metrics := m, rt_writer := ?q\<rparr>)"
    using push opn arm(1) st by (simp add: enqueue_writer_def Let_def split: unit.split)
  then have "perform now k (Call_Apply bytes) r = (Ok (), ?r\<lparr>rt_metrics := m, rt_writer := ?q\<rparr>)"
    using opn st room assms(8)
    by (simp add: perform_def native_apply_def observed_call_def checked_def check_capacity_def and_then_def
        validate_shared_capacity_def no_shared_def split: unit.split)
  moreover have "frame r (?r\<lparr>rt_metrics := m, rt_writer := ?q\<rparr>)" by (simp add: frame_def on_metrics_def)
  moreover have "rt_state (?r\<lparr>rt_metrics := m, rt_writer := ?q\<rparr>) = STATE_OPEN" using arm(2) st by (simp add: rt_state_def)
  moreover have "\<exists>q'. pop_turn (?q, no_shared) = Item \<lparr>q_value = ?ac, q_bytes = length bytes, q_enqueued = now\<rparr> (q', no_shared) \<and> idle_lane q'"
    using assms(2) by (simp add: pop_turn_def take_front_def push_back_def idle_lane_def release_shared_def no_shared_def)
  moreover have "?ac = \<lparr>wc_operation = Apply bytes, wc_completion = wc_completion ?ac\<rparr>" by (simp add: armed_writer_def)
  moreover have "co_callback (wc_completion ?ac) = Some k" "accepted_completion (wc_completion ?ac)"
    by (simp_all add: armed_writer_def new_completion_def accepted_completion_def ticket_ops_accepted)
  ultimately show ?thesis using that by fastforce
qed

lemma take_writer_frame:
  assumes "co_callback (wc_completion (q_value item)) = Some k" "accepted_completion (wc_completion (q_value item))"
  obtains c r' where "take_writer now item r = (c, r')" "frame r r'" "rt_state r' = rt_state r" "rt_writer r' = rt_writer r"
    "co_callback c = Some k" "accepted_completion c"
proof -
  define s where "s = r\<lparr>rt_writer_queue_ns := rt_writer_queue_ns r + duration_ns (now - q_enqueued item)\<rparr>"
  obtain c m where t: "with_ticket (start_at now) (wc_completion (q_value item), s) = (c, s\<lparr>rt_metrics := m\<rparr>)"
      "me_state m = rt_state s" "co_callback c = Some k" "accepted_completion c"
    using with_ticket_metrics [OF benign_ops(5), of now "wc_completion (q_value item)" s] assms by metis
  then show ?thesis using that [of c "s\<lparr>rt_metrics := m\<rparr>"]
    by (simp add: take_writer_def s_def frame_def rt_state_def)
qed

lemma apply_turn:
  assumes "decode_batch bytes = Ok b" "rt_writer_present r" "accepted_completion c" "rt_state r = STATE_OPEN"
  obtains c' r1 r2 where "run_writer_operation 0 good_answers (Apply bytes) (c, r) = (Returned (Continue (Ok (u64_body 1))), c', r1)"
    "end_command 0 0 Panicked (Returned (Continue (Ok (u64_body 1)))) (c', r1) = Again r2"
    "rt_uncommitted r2 = rt_uncommitted r + 1" "rt_state r2 = STATE_OPEN" "rt_ordinary r2 = rt_ordinary r"
    "rt_expensive r2 = rt_expensive r" "rt_writer r2 = rt_writer r" "rt_writer_present r2" "rt_read_only r2 = rt_read_only r"
proof -
  obtain c' m where t: "with_ticket (ticket_mutations 1) (c, r) = (c', r\<lparr>rt_metrics := m\<rparr>)" "me_state m = rt_state r"
      "accepted_completion c'"
    using with_ticket_metrics [OF benign_ops(6), of 1 c r] assms(3) by metis
  define r1 where "r1 = r\<lparr>rt_metrics := m, rt_uncommitted := rt_uncommitted r + 1\<rparr>"
  have run: "run_writer_operation 0 good_answers (Apply bytes) (c, r) = (Returned (Continue (Ok (u64_body 1))), c', r1)"
    using assms(1,2) t(1)
    by (simp add: run_writer_operation_def run_apply_def try_then_def active_writer_def good_answers_def r1_def split: unit.split)
  let ?e = "r1\<lparr>rt_writer_execution_ns := rt_writer_execution_ns r1 + duration_ns 0\<rparr>"
  let ?r2 = "settle 0 (Ok (u64_body 1)) (c', ?e)"
  obtain m' as where s: "?r2 = ?e\<lparr>rt_metrics := m', rt_answers := as\<rparr>" "me_state m' = rt_state ?e"
    using settle_effect [OF t(3), of ?e 0 "Ok (u64_body 1)"] unfolding answers_only_def by blast
  have "end_command 0 0 Panicked (Returned (Continue (Ok (u64_body 1)))) (c', r1) = Again ?r2"
    by (simp add: end_command_def Let_def)
  then show ?thesis using that [OF run] s t(2) assms(2,4) by (simp add: r1_def rt_state_def)
qed

text \<open>
  C29. What a forced close does while a close of the caller is pending: nothing.  If that close was
  called without rollback while mutations are uncommitted, then the writer answers it with
  \<open>E_DIRTY_CLOSE\<close>, opens the runtime again and waits: no rollback is queued, although the
  environment is gone.  So the cleanup of an environment waits for a runtime that nothing closes.
\<close>

theorem cleanup_misses_dirty_close:
  assumes "as_writer s = Executing (Close_Writer False) c" "rt_state (as_runtime s) = STATE_CLOSING"
    "0 < rt_uncommitted (as_runtime s)" "\<not> gate_alive (as_runtime s)" "accepted_completion c"
  shows "force_close now (as_runtime s) = as_runtime s \<and>
    (\<exists>s'. runtime_step\<^sup>*\<^sup>* (s\<lparr>as_runtime := force_close now (as_runtime s)\<rparr>) s' \<and> as_writer s' = Listening \<and>
      rt_state (as_runtime s') = STATE_OPEN \<and> rt_writer (as_runtime s') = rt_writer (as_runtime s) \<and>
      rt_writer_present (as_runtime s') = rt_writer_present (as_runtime s) \<and>
      rt_reservation (as_runtime s') = rt_reservation (as_runtime s) \<and> \<not> gate_alive (as_runtime s'))"
proof -
  let ?r = "as_runtime s"
  have f: "force_close now ?r = ?r"
  proof -
    have "completion_drop now (\<lparr>co_ticket = None, co_callback = None\<rparr>, ?r) = ?r"
      by (simp add: completion_drop_def completion_record_def with_ticket_def)
    then show ?thesis
      using assms(2)
      by (simp add: force_close_def force_writer_def push_force_tracked_if_def no_shared_def rollback_command_def and_then_def)
  qed
  let ?o = "set_state STATE_OPEN ?r"
  have run: "run_writer_operation 0 good_answers (Close_Writer False) (c, ?r) = (Returned (Continue (Err dirty_close_error)), c, ?o)"
    using assms(2,3) by (simp add: run_writer_operation_def run_close_def)
  let ?e = "?o\<lparr>rt_writer_execution_ns := rt_writer_execution_ns ?o + duration_ns 0\<rparr>"
  let ?r2 = "settle 0 (Err dirty_close_error) (c, ?e)"
  obtain m' as where s: "?r2 = ?e\<lparr>rt_metrics := m', rt_answers := as\<rparr>" "me_state m' = rt_state ?e"
    using settle_effect [OF assms(5), of ?e 0 "Err dirty_close_error"] unfolding answers_only_def by blast
  have e: "end_command 0 0 Panicked (Returned (Continue (Err dirty_close_error))) (c, ?o) = Again ?r2"
    by (simp add: end_command_def Let_def)
  let ?s1 = "s\<lparr>as_runtime := ?o, as_writer := Executed (Returned (Continue (Err dirty_close_error))) c\<rparr>"
  have "runtime_step s ?s1" using runtime_step.writer_ran [OF assms(1) run] by simp
  moreover have "runtime_step ?s1 (?s1\<lparr>as_runtime := ?r2, as_writer := Listening\<rparr>)"
    using runtime_step.writer_continued [of ?s1 _ c 0 0 Panicked ?r2] e by simp
  ultimately have "runtime_step\<^sup>*\<^sup>* s (?s1\<lparr>as_runtime := ?r2, as_writer := Listening\<rparr>)" by (meson r_into_rtranclp rtranclp_trans)
  then show ?thesis
    using f s assms(4) by (intro conjI exI [of _ "?s1\<lparr>as_runtime := ?r2, as_writer := Listening\<rparr>"])
      (simp_all add: rt_state_def set_state_def gate_alive_def)
qed

lemma sample_batch_admitted:
  "decode_batch (enc_batch sample_batch) = Ok sample_batch" "length (enc_batch sample_batch) = 80"
  "validate_batch_header (enc_batch sample_batch) 100 = Ok ()"
proof -
  show len: "length (enc_batch sample_batch) = 80"
    by (simp add: enc_batch_def sample_batch_def enc_upsert_def enc_version_def enc_counted_def
        enc_field_values_def enc_named_filters_def)
  have "batch_wire sample_batch" by (simp add: sample_batch_defs)
  then show d: "decode_batch (enc_batch sample_batch) = Ok sample_batch"
    using decode_batch_iff [of "enc_batch sample_batch" sample_batch] len by (simp add: usize_max_def)
  show "validate_batch_header (enc_batch sample_batch) 100 = Ok ()"
    using header_of_decoded [OF d, of 100] len by simp
qed

text \<open>A run of the sample runtime to the moment when the writer has taken a close over a mutation
  that is not committed, with its environment gone.\<close>

lemma sample_dirty_close:
  "\<exists>s c. runtime_step\<^sup>*\<^sup>* (actors_start sample_runtime) s \<and> as_writer s = Executing (Close_Writer False) c \<and>
    rt_state (as_runtime s) = STATE_CLOSING \<and> 0 < rt_uncommitted (as_runtime s) \<and> \<not> gate_alive (as_runtime s) \<and>
    accepted_completion c"
proof -
  let ?b = "enc_batch sample_batch" and ?r = sample_runtime
  let ?s0 = "actors_start ?r"
  have i: "rt_state ?r = STATE_OPEN" "idle_lane (rt_writer ?r)"
    using sample_idle by (simp_all add: idle_def actors_start_def)
  have w: "\<not> rt_read_only ?r" "0 < max_commands (rt_writer ?r)" "qs_bytes (rt_writer ?r) = 0"
    "length ?b \<le> max_bytes (rt_writer ?r)" "max_bytes (rt_writer ?r) \<le> usize_max"
    "validate_batch_header ?b (max_batch_bytes (ec_limits (rt_config ?r))) = Ok ()"
    using sample_batch_admitted
    by (simp_all add: sample_runtime_def runtime_start_def bounded_queue_new_def Config_Codec.sample_open_def usize_max_def Let_def)
  obtain r1 c q where a: "perform 0 7 (Call_Apply ?b) ?r = (Ok (), r1)" "frame ?r r1" "rt_state r1 = STATE_OPEN"
    "pop_turn (rt_writer r1, no_shared) = Item \<lparr>q_value = \<lparr>wc_operation = Apply ?b, wc_completion = c\<rparr>,
       q_bytes = length ?b, q_enqueued = 0\<rparr> (q, no_shared)"
    "co_callback c = Some 7" "accepted_completion c" "idle_lane q"
    using apply_call_queues [OF i w, of 0 7] by metis
  define item where "item = \<lparr>q_value = \<lparr>wc_operation = Apply ?b, wc_completion = c\<rparr>, q_bytes = length ?b, q_enqueued = 0\<rparr>"
  obtain c1 r2 where t: "take_writer 0 item (r1\<lparr>rt_writer := q\<rparr>) = (c1, r2)" "frame (r1\<lparr>rt_writer := q\<rparr>) r2"
      "rt_state r2 = rt_state (r1\<lparr>rt_writer := q\<rparr>)" "rt_writer r2 = rt_writer (r1\<lparr>rt_writer := q\<rparr>)" "accepted_completion c1"
    using take_writer_frame [of item 7 0 "r1\<lparr>rt_writer := q\<rparr>"] a(5,6) unfolding item_def queued.simps writer_command.simps
    by metis
  have r2: "rt_writer_present r2" "rt_state r2 = STATE_OPEN" "rt_uncommitted r2 = 0"
    using t(2,3) a(2,3) by (simp_all add: frame_def rt_state_def)
  obtain c2 r3 r4 where u: "run_writer_operation 0 good_answers (Apply ?b) (c1, r2) = (Returned (Continue (Ok (u64_body 1))), c2, r3)"
    "end_command 0 0 Panicked (Returned (Continue (Ok (u64_body 1)))) (c2, r3) = Again r4"
    "rt_uncommitted r4 = rt_uncommitted r2 + 1" "rt_state r4 = STATE_OPEN" "rt_writer r4 = rt_writer r2"
    using apply_turn [OF sample_batch_admitted(1) r2(1) t(5) r2(2)] by metis
  have "idle_lane (rt_writer r4)" using u(5) t(4) a(7) by simp
  then obtain r5 c3 q' where k: "perform 0 8 (Call_Close False) r4 = (Ok (), r5)" "frame r4 r5" "rt_state r5 = STATE_CLOSING"
    "pop_turn (rt_writer r5, no_shared) = Item \<lparr>q_value = \<lparr>wc_operation = Close_Writer False, wc_completion = c3\<rparr>,
       q_bytes = 0, q_enqueued = 0\<rparr> (q', no_shared)" "co_callback c3 = Some 8" "accepted_completion c3"
    using close_call_queues [OF u(4), of 0 8 False] by metis
  define item' where "item' = \<lparr>q_value = \<lparr>wc_operation = Close_Writer False, wc_completion = c3\<rparr>, q_bytes = 0, q_enqueued = (0::nat)\<rparr>"
  obtain c4 r6 where v: "take_writer 0 item' (r5\<lparr>rt_writer := q'\<rparr>) = (c4, r6)" "frame (r5\<lparr>rt_writer := q'\<rparr>) r6"
      "rt_state r6 = rt_state (r5\<lparr>rt_writer := q'\<rparr>)" "accepted_completion c4"
    using take_writer_frame [of item' 8 0 "r5\<lparr>rt_writer := q'\<rparr>"] k(5,6)
    unfolding item'_def queued.simps writer_command.simps by metis
  let ?r7 = "r6\<lparr>rt_process := (rt_process r6)\<lparr>ps_alive := (\<lambda>_. False)\<rparr>, rt_budget := rt_budget r6\<rparr>"
  let ?s1 = "?s0\<lparr>as_runtime := r1, as_accepted := {#7#}\<rparr>"
  let ?s2 = "?s1\<lparr>as_runtime := r2, as_writer := Executing (Apply ?b) c1\<rparr>"
  let ?s3 = "?s2\<lparr>as_runtime := r3, as_writer := Executed (Returned (Continue (Ok (u64_body 1)))) c2\<rparr>"
  let ?s4 = "?s3\<lparr>as_runtime := r4, as_writer := Listening\<rparr>"
  let ?s5 = "?s4\<lparr>as_runtime := r5, as_accepted := {#7#} + {#8#}\<rparr>"
  let ?s6 = "?s5\<lparr>as_runtime := r6, as_writer := Executing (Close_Writer False) c4\<rparr>"
  let ?s7 = "?s6\<lparr>as_runtime := ?r7\<rparr>"
  have "runtime_step ?s0 ?s1" using runtime_step.called [of 0 7 "Call_Apply ?b" ?s0 "Ok ()" r1] a(1) by (simp add: actors_start_def)
  moreover have "runtime_step ?s1 ?s2"
    using runtime_step.writer_took [of ?s1 item q no_shared 0 c1 r2] a(4) t(1) by (simp add: item_def actors_start_def)
  moreover have "runtime_step ?s2 ?s3" using runtime_step.writer_ran [of ?s2 _ c1 0 good_answers] u(1) by simp
  moreover have "runtime_step ?s3 ?s4" using runtime_step.writer_continued [of ?s3 _ c2 0 0 Panicked] u(2) by simp
  moreover have "runtime_step ?s4 ?s5" using runtime_step.called [of 0 8 "Call_Close False" ?s4 "Ok ()" r5] k(1) by simp
  moreover have "runtime_step ?s5 ?s6"
    using runtime_step.writer_took [of ?s5 item' q' no_shared 0 c4 r6] k(4) v(1) by (simp add: item'_def)
  moreover have "runtime_step ?s6 ?s7"
    using runtime_step.environment [of ?s6 "rt_budget r6" "(rt_process r6)\<lparr>ps_alive := (\<lambda>_. False)\<rparr>"] by simp
  ultimately have "runtime_step\<^sup>*\<^sup>* ?s0 ?s7" by (meson rtranclp.rtrancl_into_rtrancl rtranclp.rtrancl_refl)
  moreover have "rt_state ?r7 = STATE_CLOSING" "0 < rt_uncommitted ?r7" "\<not> gate_alive ?r7"
    using v(2,3) k(2,3) u(3) r2(3) by (simp_all add: rt_state_def frame_def gate_alive_def)
  ultimately show ?thesis
    using v(4) by (intro exI [of _ ?s7] exI [of _ c4]) simp
qed

theorem cleanup_misses_dirty_close_witness:
  "\<exists>s s'. runtime_step\<^sup>*\<^sup>* (actors_start sample_runtime) s \<and> force_close 0 (as_runtime s) = as_runtime s \<and>
    runtime_step\<^sup>*\<^sup>* s s' \<and> as_writer s' = Listening \<and> rt_state (as_runtime s') = STATE_OPEN \<and> \<not> gate_alive (as_runtime s')"
proof -
  from sample_dirty_close obtain s c where s: "runtime_step\<^sup>*\<^sup>* (actors_start sample_runtime) s"
    "as_writer s = Executing (Close_Writer False) c" "rt_state (as_runtime s) = STATE_CLOSING"
    "0 < rt_uncommitted (as_runtime s)" "\<not> gate_alive (as_runtime s)" "accepted_completion c" by blast
  note m = cleanup_misses_dirty_close [OF s(2-6), of 0]
  then have "s\<lparr>as_runtime := force_close 0 (as_runtime s)\<rparr> = s" by simp
  then show ?thesis using m s(1) by metis
qed

section \<open>Where a search goes\<close>

text \<open>
  An accepted search was classified: the runtime was open, and the scan of its bytes against the
  index's configured limits answered whether it is expensive.  It is the last command of the lane
  of that class, with its bytes, its callback and the instant of its admission; that lane had room
  for one more command and for its bytes, and the writer queue and the other lane are as before.
\<close>

theorem search_lands_in_its_lane:
  assumes "native_search now k bytes r = (Ok (), r')"
  shows "\<exists>e x. rt_state r = STATE_OPEN \<and> search_is_expensive_for_config bytes (rt_config r) = Ok e \<and>
    qs_items (fst (search_lane e r')) = qs_items (fst (search_lane e r)) @ [x] \<and>
    sc_operation (q_value x) = Search_Operation bytes e \<and> co_callback (sc_completion (q_value x)) = Some k \<and>
    q_bytes x = length bytes \<and> q_enqueued x = now \<and>
    length (qs_items (fst (search_lane e r))) < max_commands (fst (search_lane e r)) \<and>
    saturating_add (qs_bytes (fst (search_lane e r))) (length bytes) \<le> max_bytes (fst (search_lane e r)) \<and>
    rt_writer r' = rt_writer r \<and> (rt_expensive r \<noteq> None \<longrightarrow> fst (search_lane (\<not> e) r') = fst (search_lane (\<not> e) r))"
proof -
  let ?op = "search_metric_operation (native_classification bytes r)"
  let ?r = "on_metrics (attempt_metric ?op) r"
  have same: "search_lane b ?r = search_lane b r" "rt_writer ?r = rt_writer r" "rt_expensive ?r = rt_expensive r" for b
    by (simp_all add: search_lane_def on_metrics_def split: option.split)
  obtain e where e: "native_classification bytes r = Ok e"
    using assms by (cases "native_classification bytes r")
      (auto simp: native_search_def observed_call_def Let_def split: prod.splits)
  let ?c = "\<lparr>sc_operation = Search_Operation bytes e, sc_completion = new_completion k ?op (length bytes)\<rparr>"
  have enq: "enqueue_search now e ?c (length bytes) ?r = (Ok (), r')"
    using assms e
    by (auto simp: native_search_def observed_call_def checked_def Let_def split: prod.splits result.splits unit.splits)
  then obtain s where push: "try_push_tracked ?c (length bytes) (Ok ()) armed_search now (search_lane e r) = Ok s"
      "r' = set_search_lane e s (snd (arm_completion now (sc_completion ?c, ?r)))"
    by (auto simp: enqueue_search_def same split: result.splits)
  obtain q sh where s: "s = (q, sh)" by (cases s)
  have cap: "validate_capacity (fst (search_lane e r)) (length bytes) = Ok ()"
    using push(1) by (auto simp: try_push_tracked_def and_then_Ok_iff split: prod.splits)
  have items: "qs_items q = qs_items (fst (search_lane e r)) @
      [\<lparr>q_value = armed_search ?c now, q_bytes = length bytes, q_enqueued = now\<rparr>]"
    using try_push_items [of ?c "length bytes" "Ok ()" armed_search now "fst (search_lane e r)" "snd (search_lane e r)" q sh]
      push(1) s by simp
  have lane: "fst (search_lane e r') = q" "rt_writer r' = rt_writer r"
      "rt_expensive r \<noteq> None \<longrightarrow> fst (search_lane (\<not> e) r') = fst (search_lane (\<not> e) r)"
    unfolding push(2) s
    using same arm_search_fields(1,2) [where c = "sc_completion ?c" and now = now and r = ?r]
    by (auto simp: set_search_lane_def search_lane_def arm_search_fields arm_writer_field on_metrics_def Let_def)
  have "rt_state r = STATE_OPEN" "search_is_expensive_for_config bytes (rt_config r) = Ok e"
    using e by (auto simp: native_classification_def and_then_Ok_iff require_open_def split: if_splits)
  then show ?thesis
    using lane items cap
    by (intro exI [of _ e] exI [of _ "\<lparr>q_value = armed_search ?c now, q_bytes = length bytes, q_enqueued = now\<rparr>"])
      (auto simp: armed_search_def new_completion_def validate_capacity_def split: if_splits)
qed

theorem search_lands_in_its_lane_witness:
  "\<exists>r' x. native_search 3 7 (enc_search sample_request) sample_runtime = (Ok (), r') \<and>
    qs_items (fst (search_lane True r')) = [x] \<and> sc_operation (q_value x) = Search_Operation (enc_search sample_request) True"
proof -
  let ?b = "enc_search sample_request" and ?r = sample_runtime
  have len: "length ?b \<le> 1000" by (simp add: sample_defs)
  have dec: "decode_search ?b = Ok sample_request"
    using len by (simp add: decode_search_iff usize_max_def) (simp add: sample_defs)
  have "structure_ok (rq_expression sample_request) 256 1" "list_all names_ok (rq_aggregations sample_request)"
    by (simp_all add: sample_defs)
  then have "classify_search ?b 1 64 256 = Ok (expensive_request (raised_profile 1 64 256) sample_request)"
    using classify_decoded [OF dec, of 64 256 1] len by (simp add: limit_defs usize_max_def)
  then have c: "classify_search ?b 1 64 256 = Ok True"
    by (simp add: expensive_request_def has_catalog_def sample_request_def)
  have header: "validate_search_header ?b = Ok ()"
    using dec len by (auto simp: decode_search_def validate_search_header_def and_then_Ok_iff limit_defs)
  have r: "rt_state ?r = STATE_OPEN" "rt_config ?r = oc_engine Config_Codec.sample_open"
    "search_lane True ?r = (bounded_queue_new 8 1000, \<lparr>shared_budget = Some (queue_budget_new 8 1000), shared_wake = Some 0\<rparr>)"
    "rt_expensive ?r = Some (bounded_queue_new 8 1000)"
    by (simp_all add: sample_runtime_def runtime_start_def rt_state_def metrics_new_def STATE_OPEN_def search_lane_def
        Config_Codec.sample_open_def Let_def)
  have cls: "native_classification ?b ?r = Ok True"
    using c header r by (simp add: native_classification_def require_open_def and_then_def search_is_expensive_for_config_def
        Config_Codec.sample_open_def sample_identity_def)
  let ?started = "on_metrics (attempt_metric 6) ?r"
  have lane: "search_lane True ?started = search_lane True ?r" by (simp add: search_lane_def on_metrics_def r)
  have "\<exists>r'. native_search 3 7 ?b ?r = (Ok (), r')"
    using cls lane r len
    by (simp add: native_search_def observed_call_def checked_def check_capacity_def validate_capacity_def bounded_queue_new_def
        validate_shared_capacity_def budget_validate_def queue_budget_new_def saturating_add_def and_then_def usize_max_def
        search_metric_operation_def enqueue_search_def try_push_tracked_def reserve_shared_def Let_def split: unit.split)
  then obtain r' where n: "native_search 3 7 ?b ?r = (Ok (), r')" by blast
  have "search_is_expensive_for_config ?b (rt_config ?r) = Ok True"
    using c r(2) by (simp add: search_is_expensive_for_config_def Config_Codec.sample_open_def sample_identity_def)
  then show ?thesis
    using search_lands_in_its_lane [OF n] n r(3) by (auto simp: bounded_queue_new_def)
qed


text \<open>
  C30. Poison is not for ever while a close is in the writer's hands: when the environment cleanup
  forces a close of a poisoned runtime, the state becomes closing, and the close without rollback
  that the writer had already taken finds it so and opens the runtime.  The forced rollback is in
  the queue then, so the writer closes it with its next command.
\<close>

theorem poisoned_runtime_reopens:
  assumes "as_writer s = Executing (Close_Writer False) c" "rt_state (as_runtime s) = STATE_POISONED"
    "0 < rt_uncommitted (as_runtime s)" "\<not> qs_closed (rt_writer (as_runtime s))"
  shows "\<exists>s'. runtime_step\<^sup>*\<^sup>* s s' \<and> rt_state (as_runtime s') = STATE_OPEN \<and>
    as_writer s' = Executed (Returned (Continue (Err dirty_close_error))) c \<and>
    map (wc_operation \<circ> q_value) (qs_items (rt_writer (as_runtime s'))) =
      map (wc_operation \<circ> q_value) (qs_items (rt_writer (as_runtime s))) @ [Close_Writer True]"
proof -
  let ?r = "as_runtime s"
  let ?q = "push_back \<lparr>q_value = rollback_command, q_bytes = 0, q_enqueued = 0\<rparr> (rt_writer ?r)"
  let ?f = "set_state STATE_CLOSING (?r\<lparr>rt_writer := ?q\<rparr>)"
  have f: "force_close 0 ?r = ?f"
    using assms(2,4)
    by (simp add: force_close_def force_writer_def push_force_tracked_if_def no_shared_def and_then_def
        STATE_CLOSED_def STATE_CLOSING_def STATE_POISONED_def split: unit.split)
  let ?s1 = "s\<lparr>as_runtime := ?f\<rparr>"
  have "runtime_step s ?s1" using runtime_step.forced [of s 0] f by simp
  moreover have "run_writer_operation 0 good_answers (Close_Writer False) (c, ?f) =
      (Returned (Continue (Err dirty_close_error)), c, set_state STATE_OPEN ?f)"
    using assms(3) by (simp add: run_writer_operation_def run_close_def rt_state_def set_state_def)
  then have "runtime_step ?s1 (?s1\<lparr>as_runtime := set_state STATE_OPEN ?f,
      as_writer := Executed (Returned (Continue (Err dirty_close_error))) c\<rparr>)"
    using runtime_step.writer_ran [of ?s1 _ c 0 good_answers] assms(1) by simp
  ultimately have "runtime_step\<^sup>*\<^sup>* s (?s1\<lparr>as_runtime := set_state STATE_OPEN ?f,
      as_writer := Executed (Returned (Continue (Err dirty_close_error))) c\<rparr>)" by (meson r_into_rtranclp rtranclp_trans)
  then show ?thesis
    by (intro exI [of _ "?s1\<lparr>as_runtime := set_state STATE_OPEN ?f,
      as_writer := Executed (Returned (Continue (Err dirty_close_error))) c\<rparr>"] conjI)
      (simp_all add: push_back_def rollback_command_def)
qed

theorem poisoned_runtime_reopens_witness:
  "\<exists>s s' c. as_writer s = Executing (Close_Writer False) c \<and> rt_state (as_runtime s) = STATE_POISONED \<and>
    runtime_step\<^sup>*\<^sup>* s s' \<and> rt_state (as_runtime s') = STATE_OPEN"
proof -
  define s where "s = (actors_start sample_runtime)\<lparr>as_writer := Executing (Close_Writer False) no_completion,
    as_runtime := (set_state STATE_POISONED sample_runtime)\<lparr>rt_uncommitted := 1\<rparr>\<rparr>"
  have "as_writer s = Executing (Close_Writer False) no_completion" "rt_state (as_runtime s) = STATE_POISONED"
      "0 < rt_uncommitted (as_runtime s)" "\<not> qs_closed (rt_writer (as_runtime s))"
    by (simp_all add: s_def rt_state_def set_state_def sample_runtime_def runtime_start_def bounded_queue_new_def Let_def)
  then show ?thesis using poisoned_runtime_reopens [of s no_completion] by blast
qed

end
