(* ===== verification/Unicode.thy ===== *)
theory Unicode
  imports Errors
begin

text \<open>
  What the engine uses of Rust's \<open>str\<close> and \<open>char\<close>: the characters of a UTF-8 string with their byte
  offsets, and the lengths of a character in UTF-8 and UTF-16.  A character is its code point.  The
  lemmas say that a valid string is the encoding of its characters.
\<close>

section \<open>Characters of a string\<close>

definition len_utf8 :: "nat \<Rightarrow> nat" where
  "len_utf8 c = (if c < 128 then 1 else if c < 2048 then 2 else if c < 65536 then 3 else 4)"

definition len_utf16 :: "nat \<Rightarrow> nat" where
  "len_utf16 c = (if c < 65536 then 1 else 2)"

definition byte_payload :: "u8 \<Rightarrow> nat" where
  "byte_payload b = unat b mod 64"

fun code_points :: "u8 list \<Rightarrow> nat list" where
  "code_points [] = []"
| "code_points (b1 # r1) =
     (if unat b1 < 128 then unat b1 # code_points r1
      else (case r1 of
        [] \<Rightarrow> []
      | b2 # r2 \<Rightarrow>
          (if unat b1 < 224 then (unat b1 mod 32 * 64 + byte_payload b2) # code_points r2
           else (case r2 of
             [] \<Rightarrow> []
           | b3 # r3 \<Rightarrow>
               (if unat b1 < 240
                then (unat b1 mod 16 * 4096 + byte_payload b2 * 64 + byte_payload b3) # code_points r3
                else (case r3 of
                  [] \<Rightarrow> []
                | b4 # r4 \<Rightarrow>
                    (unat b1 mod 8 * 262144 + byte_payload b2 * 4096 + byte_payload b3 * 64 + byte_payload b4)
                      # code_points r4))))))"

definition encode_utf8 :: "nat \<Rightarrow> u8 list" where
  "encode_utf8 c =
     (if c < 128 then [word_of_nat c]
      else if c < 2048 then [word_of_nat (192 + c div 64), word_of_nat (128 + c mod 64)]
      else if c < 65536
      then [word_of_nat (224 + c div 4096), word_of_nat (128 + c div 64 mod 64), word_of_nat (128 + c mod 64)]
      else [word_of_nat (240 + c div 262144), word_of_nat (128 + c div 4096 mod 64),
            word_of_nat (128 + c div 64 mod 64), word_of_nat (128 + c mod 64)])"

definition chars :: "string \<Rightarrow> nat list" where
  "chars s = code_points (str_bytes s)"

fun indices_from :: "nat \<Rightarrow> nat list \<Rightarrow> (nat \<times> nat) list" where
  "indices_from offset [] = []"
| "indices_from offset (c # cs) = (offset, c) # indices_from (offset + len_utf8 c) cs"

definition char_indices :: "string \<Rightarrow> (nat \<times> nat) list" where
  "char_indices s = indices_from 0 (chars s)"

definition string_of_chars :: "nat list \<Rightarrow> string" where
  "string_of_chars cs = bytes_str (concat (map encode_utf8 cs))"

definition is_ascii :: "string \<Rightarrow> bool" where
  "is_ascii s = list_all (\<lambda>b. unat b < 128) (str_bytes s)"

definition utf8_size :: "nat list \<Rightarrow> nat" where
  "utf8_size cs = sum_list (map len_utf8 cs)"

definition utf16_size :: "nat list \<Rightarrow> nat" where
  "utf16_size cs = sum_list (map len_utf16 cs)"

section \<open>A valid string is the encoding of its characters\<close>

lemma mod_digit: "a * q \<le> n \<Longrightarrow> n < a * q + q \<Longrightarrow> n mod q = n - a * (q :: nat)"
proof -
  assume "a * q \<le> n" "n < a * q + q"
  then have "(a * q + (n - a * q)) mod q = n - a * q" by (subst mod_mult_self3) simp
  then show ?thesis using \<open>a * q \<le> n\<close> by simp
qed

lemma payload_digit: "continuation_byte b \<Longrightarrow> byte_payload b = unat b - 128 \<and> 128 \<le> unat b \<and> byte_payload b < 64"
  using mod_digit [of 2 64 "unat b"] by (auto simp: continuation_byte_def byte_payload_def)

lemma payload_byte: "continuation_byte b \<Longrightarrow> word_of_nat (128 + byte_payload b) = b"
  using payload_digit [of b] by simp

lemma two_digits:
  assumes "y < (64 :: nat)"
  shows "(x * 64 + y) div 64 = x" "(x * 64 + y) mod 64 = y"
  using assms by simp_all

lemma three_digits:
  assumes "x < (64 :: nat)" "y < 64"
  shows "(h * 4096 + x * 64 + y) div 4096 = h" "(h * 4096 + x * 64 + y) div 64 = h * 64 + x"
    "(h * 4096 + x * 64 + y) mod 64 = y"
proof -
  have e: "h * 4096 + x * 64 + y = (h * 64 + x) * 64 + y" by simp
  show d: "(h * 4096 + x * 64 + y) div 64 = h * 64 + x" unfolding e using assms by (simp only: two_digits)
  have "(h * 4096 + x * 64 + y) div 4096 = (h * 4096 + x * 64 + y) div 64 div 64" by (simp add: div_mult2_eq [symmetric])
  then show "(h * 4096 + x * 64 + y) div 4096 = h" unfolding d using assms by (simp only: two_digits)
  show "(h * 4096 + x * 64 + y) mod 64 = y" unfolding e using assms by (simp only: two_digits)
qed

lemma four_digits:
  assumes "w < (64 :: nat)" "x < 64" "y < 64"
  shows "(h * 262144 + w * 4096 + x * 64 + y) div 262144 = h" "(h * 262144 + w * 4096 + x * 64 + y) div 4096 = h * 64 + w"
    "(h * 262144 + w * 4096 + x * 64 + y) div 64 = (h * 64 + w) * 64 + x" "(h * 262144 + w * 4096 + x * 64 + y) mod 64 = y"
proof -
  have e: "h * 262144 + w * 4096 + x * 64 + y = (h * 64 + w) * 4096 + x * 64 + y" by simp
  note d = three_digits [OF assms(2,3), of "h * 64 + w"]
  have "(h * 262144 + w * 4096 + x * 64 + y) div 262144 = (h * 262144 + w * 4096 + x * 64 + y) div 4096 div 64"
    by (simp add: div_mult2_eq [symmetric])
  then show "(h * 262144 + w * 4096 + x * 64 + y) div 262144 = h" unfolding e d using assms by (simp only: two_digits)
  show "(h * 262144 + w * 4096 + x * 64 + y) div 4096 = h * 64 + w"
    "(h * 262144 + w * 4096 + x * 64 + y) div 64 = (h * 64 + w) * 64 + x" "(h * 262144 + w * 4096 + x * 64 + y) mod 64 = y"
    unfolding e by (rule d)+
qed

lemma encode_two_digits:
  assumes "2 \<le> h" "h < 32" "x < 64"
  shows "encode_utf8 (h * 64 + x) = [word_of_nat (192 + h), word_of_nat (128 + x)]"
proof -
  have "128 \<le> h * 64 + x" "h * 64 + x < 2048" using assms by simp_all
  then have "encode_utf8 (h * 64 + x) = [word_of_nat (192 + (h * 64 + x) div 64), word_of_nat (128 + (h * 64 + x) mod 64)]"
    by (simp only: encode_utf8_def) simp
  then show ?thesis by (simp only: two_digits [OF assms(3)])
qed

lemma encode_three_digits:
  assumes "h < 16" "x < 64" "y < 64" "1 \<le> h \<or> 32 \<le> x"
  shows "encode_utf8 (h * 4096 + x * 64 + y) = [word_of_nat (224 + h), word_of_nat (128 + x), word_of_nat (128 + y)]"
proof -
  let ?c = "h * 4096 + x * 64 + y"
  have "2048 \<le> ?c" "?c < 65536" using assms by auto
  then have "encode_utf8 ?c = [word_of_nat (224 + ?c div 4096), word_of_nat (128 + ?c div 64 mod 64), word_of_nat (128 + ?c mod 64)]"
    by (simp only: encode_utf8_def) simp
  then show ?thesis by (simp only: three_digits [OF assms(2,3)] two_digits [OF assms(2)])
qed

lemma encode_four_digits:
  assumes "h < 8" "w < 64" "x < 64" "y < 64" "1 \<le> h \<or> 16 \<le> w"
  shows "encode_utf8 (h * 262144 + w * 4096 + x * 64 + y) =
    [word_of_nat (240 + h), word_of_nat (128 + w), word_of_nat (128 + x), word_of_nat (128 + y)]"
proof -
  let ?c = "h * 262144 + w * 4096 + x * 64 + y"
  have "65536 \<le> ?c" using assms by auto
  then have "encode_utf8 ?c = [word_of_nat (240 + ?c div 262144), word_of_nat (128 + ?c div 4096 mod 64),
      word_of_nat (128 + ?c div 64 mod 64), word_of_nat (128 + ?c mod 64)]"
    by (simp only: encode_utf8_def) simp
  then show ?thesis by (simp only: four_digits [OF assms(2-4)] two_digits [OF assms(2)] two_digits [OF assms(3)])
qed

lemma lead_byte: "d \<le> unat (b :: u8) \<Longrightarrow> word_of_nat (d + (unat b - d)) = b"
  by simp

lemma second_byte_continues: "second_byte_ok b1 b2 \<Longrightarrow> continuation_byte b2"
  by (auto simp: second_byte_ok_def continuation_byte_def split: if_splits)

lemma encode_two:
  assumes "194 \<le> unat (b1 :: u8)" "unat b1 \<le> 223" "continuation_byte b2"
  shows "encode_utf8 (unat b1 mod 32 * 64 + byte_payload b2) = [b1, b2]"
proof -
  have h: "unat b1 mod 32 = unat b1 - 192" using assms mod_digit [of 6 32 "unat b1"] by simp
  have "encode_utf8 ((unat b1 - 192) * 64 + byte_payload b2) =
      [word_of_nat (192 + (unat b1 - 192)), word_of_nat (128 + byte_payload b2)]"
    using assms payload_digit [OF assms(3)] by (intro encode_two_digits) auto
  then show ?thesis using assms by (simp only: h payload_byte lead_byte)
qed

lemma encode_three:
  assumes "224 \<le> unat (b1 :: u8)" "unat b1 \<le> 239" "second_byte_ok b1 b2" "continuation_byte b3"
  shows "encode_utf8 (unat b1 mod 16 * 4096 + byte_payload b2 * 64 + byte_payload b3) = [b1, b2, b3]"
proof -
  have h: "unat b1 mod 16 = unat b1 - 224" using assms mod_digit [of 14 16 "unat b1"] by simp
  note c2 = second_byte_continues [OF assms(3)]
  have "1 \<le> unat b1 - 224 \<or> 32 \<le> byte_payload b2"
    using assms(1,3) payload_digit [OF c2] by (cases "unat b1 = 224") (auto simp: second_byte_ok_def)
  then have "encode_utf8 ((unat b1 - 224) * 4096 + byte_payload b2 * 64 + byte_payload b3) =
      [word_of_nat (224 + (unat b1 - 224)), word_of_nat (128 + byte_payload b2), word_of_nat (128 + byte_payload b3)]"
    using assms payload_digit [OF c2] payload_digit [OF assms(4)] by (intro encode_three_digits) auto
  then show ?thesis using assms c2 by (simp only: h payload_byte lead_byte)
qed

lemma encode_four:
  assumes "240 \<le> unat (b1 :: u8)" "unat b1 \<le> 244" "second_byte_ok b1 b2" "continuation_byte b3" "continuation_byte b4"
  shows "encode_utf8 (unat b1 mod 8 * 262144 + byte_payload b2 * 4096 + byte_payload b3 * 64 + byte_payload b4) = [b1, b2, b3, b4]"
proof -
  have h: "unat b1 mod 8 = unat b1 - 240" using assms mod_digit [of 30 8 "unat b1"] by simp
  note c2 = second_byte_continues [OF assms(3)]
  have "1 \<le> unat b1 - 240 \<or> 16 \<le> byte_payload b2"
    using assms(1,3) payload_digit [OF c2] by (cases "unat b1 = 240") (auto simp: second_byte_ok_def)
  then have "encode_utf8 ((unat b1 - 240) * 262144 + byte_payload b2 * 4096 + byte_payload b3 * 64 + byte_payload b4) =
      [word_of_nat (240 + (unat b1 - 240)), word_of_nat (128 + byte_payload b2), word_of_nat (128 + byte_payload b3),
       word_of_nat (128 + byte_payload b4)]"
    using assms payload_digit [OF c2] payload_digit [OF assms(4)] payload_digit [OF assms(5)]
    by (intro encode_four_digits) auto
  then show ?thesis using assms c2 by (simp only: h payload_byte lead_byte)
qed

lemma valid_two:
  assumes "\<not> unat b1 \<le> 127" "unat b1 \<le> 223" "valid_utf8 (b1 # b2 # r2)"
  shows "194 \<le> unat b1 \<and> continuation_byte b2 \<and> valid_utf8 r2"
proof (cases "194 \<le> unat b1")
  case False
  then have "\<not> 224 \<le> unat b1" "\<not> 240 \<le> unat b1" by simp_all
  then show ?thesis using assms(1,3) False by (cases r2; cases "tl r2") simp_all
qed (use assms in simp)

lemma valid_three:
  assumes "\<not> unat b1 \<le> 223" "unat b1 \<le> 239" "valid_utf8 (b1 # b2 # b3 # r3)"
  shows "224 \<le> unat b1 \<and> second_byte_ok b1 b2 \<and> continuation_byte b3 \<and> valid_utf8 r3"
  using assms by simp

lemma valid_four:
  assumes "\<not> unat b1 \<le> 239" "valid_utf8 (b1 # b2 # b3 # b4 # r4)"
  shows "240 \<le> unat b1 \<and> unat b1 \<le> 244 \<and> second_byte_ok b1 b2 \<and> continuation_byte b3 \<and> continuation_byte b4 \<and> valid_utf8 r4"
  using assms by simp

lemma code_points_two:
  "\<not> unat b1 \<le> 127 \<Longrightarrow> unat b1 \<le> 223 \<Longrightarrow>
     code_points (b1 # b2 # r) = (unat b1 mod 32 * 64 + byte_payload b2) # code_points r"
  by (subst code_points.simps(2)) simp

lemma code_points_three:
  "\<not> unat b1 \<le> 223 \<Longrightarrow> unat b1 \<le> 239 \<Longrightarrow> code_points (b1 # b2 # b3 # r) =
     (unat b1 mod 16 * 4096 + byte_payload b2 * 64 + byte_payload b3) # code_points r"
  by (subst code_points.simps(2)) simp

lemma code_points_four:
  "\<not> unat b1 \<le> 239 \<Longrightarrow> code_points (b1 # b2 # b3 # b4 # r) =
     (unat b1 mod 8 * 262144 + byte_payload b2 * 4096 + byte_payload b3 * 64 + byte_payload b4) # code_points r"
  by (subst code_points.simps(2)) simp

lemma valid_shape:
  "valid_utf8 (b1 # r1) \<Longrightarrow> \<not> unat b1 \<le> 127 \<Longrightarrow> \<exists>b2 r2. r1 = b2 # r2 \<and> (unat b1 \<le> 223 \<or>
     (\<exists>b3 r3. r2 = b3 # r3 \<and> (unat b1 \<le> 239 \<or> (\<exists>b4 r4. r3 = b4 # r4))))"
  by (cases r1; cases "tl r1"; cases "tl (tl r1)") (auto split: if_splits)

lemma encode_code_points: "valid_utf8 bs \<Longrightarrow> concat (map encode_utf8 (code_points bs)) = bs"
proof (induction "length bs" arbitrary: bs rule: less_induct)
  case less
  show ?case
  proof (cases bs)
    case (Cons b1 r1)
    show ?thesis
    proof (cases "unat b1 \<le> 127")
      case True
      then show ?thesis using less(1) [of r1] less(2) Cons by (simp add: encode_utf8_def)
    next
      case False
      note v = less(2) [unfolded Cons]
      obtain b2 r2 where r1: "r1 = b2 # r2" and s: "unat b1 \<le> 223 \<or> (\<exists>b3 r3. r2 = b3 # r3 \<and> (unat b1 \<le> 239 \<or> (\<exists>b4 r4. r3 = b4 # r4)))"
        using valid_shape [OF v False] by blast
      show ?thesis
      proof (cases "unat b1 \<le> 223")
        case True
        note w = valid_two [OF False True v [unfolded r1]]
        show ?thesis using less(1) [of r2] w encode_two [of b1 b2] True False
          by (simp only: Cons r1 code_points_two list.map concat.simps) simp
      next
        case big: False
        then obtain b3 r3 where r2: "r2 = b3 # r3" and s: "unat b1 \<le> 239 \<or> (\<exists>b4 r4. r3 = b4 # r4)" using s by blast
        show ?thesis
        proof (cases "unat b1 \<le> 239")
          case True
          note w = valid_three [OF big True v [unfolded r1 r2]]
          show ?thesis using less(1) [of r3] w encode_three [of b1 b2 b3] big True
            by (simp only: Cons r1 r2 code_points_three list.map concat.simps) simp
        next
          case bigger: False
          then obtain b4 r4 where r3: "r3 = b4 # r4" using s by blast
          note w = valid_four [OF bigger v [unfolded r1 r2 r3]]
          show ?thesis using less(1) [of r4] w encode_four [of b1 b2 b3 b4] bigger
            by (simp only: Cons r1 r2 r3 code_points_four list.map concat.simps) simp
        qed
      qed
    qed
  qed simp
qed

lemma string_of_chars_chars [simp]: "utf8_string s \<Longrightarrow> string_of_chars (chars s) = s"
  by (simp add: string_of_chars_def chars_def encode_code_points utf8_string_def)

lemma chars_eq_iff: "utf8_string s \<Longrightarrow> utf8_string t \<Longrightarrow> chars s = chars t \<longleftrightarrow> s = t"
  by (metis string_of_chars_chars)

lemma length_encode_utf8 [simp]: "length (encode_utf8 c) = len_utf8 c"
  by (simp add: encode_utf8_def len_utf8_def)

lemma len_utf8_bounds: "0 < len_utf8 c" "len_utf8 c \<le> 4"
  by (simp_all add: len_utf8_def)

lemma utf8_size_simps [simp]:
  "utf8_size [] = 0" "utf8_size (c # cs) = len_utf8 c + utf8_size cs" "utf8_size (cs @ ds) = utf8_size cs + utf8_size ds"
  by (simp_all add: utf8_size_def)

lemma utf16_size_simps [simp]:
  "utf16_size [] = 0" "utf16_size (c # cs) = len_utf16 c + utf16_size cs" "utf16_size (cs @ ds) = utf16_size cs + utf16_size ds"
  by (simp_all add: utf16_size_def)

lemma utf8_size_chars: "utf8_string s \<Longrightarrow> utf8_size (chars s) = length s"
proof -
  assume "utf8_string s"
  then have "length (concat (map encode_utf8 (chars s))) = length s"
    by (simp add: chars_def utf8_string_def encode_code_points)
  moreover have "length (concat (map encode_utf8 cs)) = utf8_size cs" for cs by (induction cs) simp_all
  ultimately show ?thesis by simp
qed

lemma ascii_chars:
  assumes "is_ascii s"
  shows "chars s = map unat (str_bytes s)" "utf8_string s"
proof -
  have "list_all (\<lambda>b. unat b < 128) bs \<Longrightarrow> code_points bs = map unat bs \<and> valid_utf8 bs" for bs :: "u8 list"
    by (induction bs) auto
  then show "chars s = map unat (str_bytes s)" "utf8_string s"
    using assms by (auto simp: is_ascii_def chars_def utf8_string_def)
qed

end
