(* ===== verification/Edits.thy ===== *)
theory Edits
  imports Unicode "HOL-Library.List_Lexorder"
begin

text \<open>
  The approximate comparison of terms in \<^verbatim>\<open>src/src/engine.rs\<close>: \<open>within_one_edit\<close>, the fast path of
  fuzzy tracing for distance one with transpositions, against the edit operations it stands for, and
  \<open>prefix_end\<close>, the end of the dictionary range that a prefix query reads.
\<close>

section \<open>One edit\<close>

text \<open>
  The array of two differences and its counter: \<open>None\<close> is the early return on a third difference.
\<close>

fun collect_differences :: "nat \<Rightarrow> (nat \<times> nat \<times> nat) list \<Rightarrow> (nat \<times> nat) list \<Rightarrow> (nat \<times> nat \<times> nat) list option" where
  "collect_differences index differences [] = Some differences"
| "collect_differences index differences ((left, right) # rest) =
     (if left = right then collect_differences (index + 1) differences rest
      else if length differences = 2 then None
      else collect_differences (index + 1) (differences @ [(index, left, right)]) rest)"

definition adjacent_swap :: "nat \<times> nat \<times> nat \<Rightarrow> nat \<times> nat \<times> nat \<Rightarrow> bool" where
  "adjacent_swap first second \<longleftrightarrow>
     fst second = fst first + 1 \<and> fst (snd first) = snd (snd second) \<and> fst (snd second) = snd (snd first)"

fun skip_loop :: "nat \<Rightarrow> nat list \<Rightarrow> nat list \<Rightarrow> bool" where
  "skip_loop edits (short # shorter) (long # longer) =
     (if short = long then skip_loop edits shorter longer
      else if 1 < edits + 1 then False
      else skip_loop (edits + 1) (short # shorter) longer)"
| "skip_loop edits [] longer = True"
| "skip_loop edits shorter [] = True"

definition within_one_edit :: "string \<Rightarrow> string \<Rightarrow> bool" where
  "within_one_edit left right =
     (let left_length = length (chars left); right_length = length (chars right)
      in if 1 < (left_length - right_length) + (right_length - left_length) then False
      else if left = right then True
      else if left_length = right_length
      then (case collect_differences 0 [] (zip (chars left) (chars right)) of
              None \<Rightarrow> False
            | Some differences \<Rightarrow> length differences = 1 \<or>
                length differences = 2 \<and> adjacent_swap (differences ! 0) (differences ! 1))
      else if left_length < right_length then skip_loop 0 (chars left) (chars right)
      else skip_loop 0 (chars right) (chars left))"

text \<open>The edits of the reference: replace, insert or delete one character, or swap two neighbours.\<close>

definition replaced_at :: "nat list \<Rightarrow> nat list \<Rightarrow> bool" where
  "replaced_at xs ys \<longleftrightarrow> (\<exists>p a b q. xs = p @ a # q \<and> ys = p @ b # q \<and> a \<noteq> b)"

definition inserted_at :: "nat list \<Rightarrow> nat list \<Rightarrow> bool" where
  "inserted_at xs ys \<longleftrightarrow> (\<exists>p a q. xs = p @ q \<and> ys = p @ a # q)"

definition swapped_at :: "nat list \<Rightarrow> nat list \<Rightarrow> bool" where
  "swapped_at xs ys \<longleftrightarrow> (\<exists>p a b q. xs = p @ a # b # q \<and> ys = p @ b # a # q \<and> a \<noteq> b)"

definition one_edit :: "nat list \<Rightarrow> nat list \<Rightarrow> bool" where
  "one_edit xs ys \<longleftrightarrow> xs = ys \<or> replaced_at xs ys \<or> inserted_at xs ys \<or> inserted_at ys xs \<or> swapped_at xs ys"

lemma edit_lengths:
  "replaced_at xs ys \<Longrightarrow> length ys = length xs"
  "inserted_at xs ys \<Longrightarrow> length ys = Suc (length xs)"
  "swapped_at xs ys \<Longrightarrow> length ys = length xs"
  by (auto simp: replaced_at_def inserted_at_def swapped_at_def)

subsection \<open>Strings of the same length\<close>

fun differences_of :: "nat \<Rightarrow> nat list \<Rightarrow> nat list \<Rightarrow> (nat \<times> nat \<times> nat) list" where
  "differences_of i (x # xs) (y # ys) =
     (if x = y then differences_of (i + 1) xs ys else (i, x, y) # differences_of (i + 1) xs ys)"
| "differences_of i _ _ = []"

lemma collect_differences_eq:
  "length ds \<le> 2 \<Longrightarrow> collect_differences i ds (zip xs ys) =
     (if length ds + length (differences_of i xs ys) \<le> 2 then Some (ds @ differences_of i xs ys) else None)"
proof (induction i xs ys arbitrary: ds rule: differences_of.induct)
  case (1 i x xs y ys)
  show ?case
  proof (cases "x = y \<or> length ds = 2")
    case True
    then show ?thesis using 1 by auto
  next
    case False
    then show ?thesis using 1(2) [of "ds @ [(i, x, y)]"] 1(3) by simp
  qed
qed simp_all

lemma differences_none: "length xs = length ys \<Longrightarrow> differences_of i xs ys = [] \<longleftrightarrow> xs = ys"
  by (induction i xs ys rule: differences_of.induct) auto

lemma replaced_at_Cons: "replaced_at (x # xs) (y # ys) \<longleftrightarrow> (if x = y then replaced_at xs ys else xs = ys)"
proof
  assume "replaced_at (x # xs) (y # ys)"
  then obtain p a b q where "x # xs = p @ a # q" "y # ys = p @ b # q" "a \<noteq> b"
    unfolding replaced_at_def by blast
  then show "if x = y then replaced_at xs ys else xs = ys"
    unfolding replaced_at_def by (cases p) auto
next
  assume a: "if x = y then replaced_at xs ys else xs = ys"
  show "replaced_at (x # xs) (y # ys)"
  proof (cases "x = y")
    case True
    then obtain p a b q where "xs = p @ a # q" "ys = p @ b # q" "a \<noteq> b" using a by (auto simp: replaced_at_def)
    then show ?thesis using True unfolding replaced_at_def by (intro exI [of _ "x # p"]) auto
  next
    case False
    then show ?thesis using a unfolding replaced_at_def by (intro exI [of _ "[]"]) auto
  qed
qed

lemma differences_one: "length xs = length ys \<Longrightarrow> length (differences_of i xs ys) = 1 \<longleftrightarrow> replaced_at xs ys"
proof (induction i xs ys rule: differences_of.induct)
  case (1 i x xs y ys)
  then show ?case by (simp add: replaced_at_Cons differences_none)
qed (simp_all add: replaced_at_def)

lemma swapped_at_Cons: "swapped_at (x # xs) (y # ys) \<longleftrightarrow>
   x = y \<and> swapped_at xs ys \<or> x \<noteq> y \<and> (\<exists>q. xs = y # q \<and> ys = x # q)"
proof
  assume "swapped_at (x # xs) (y # ys)"
  then obtain p a b q where "x # xs = p @ a # b # q" "y # ys = p @ b # a # q" "a \<noteq> b"
    unfolding swapped_at_def by blast
  then show "x = y \<and> swapped_at xs ys \<or> x \<noteq> y \<and> (\<exists>q. xs = y # q \<and> ys = x # q)"
    unfolding swapped_at_def by (cases p) auto
next
  assume "x = y \<and> swapped_at xs ys \<or> x \<noteq> y \<and> (\<exists>q. xs = y # q \<and> ys = x # q)"
  then show "swapped_at (x # xs) (y # ys)"
    unfolding swapped_at_def by (metis append_Cons append_Nil)
qed

lemma differences_two:
  "length xs = length ys \<Longrightarrow> (\<exists>d e. differences_of i xs ys = [d, e] \<and> adjacent_swap d e) \<longleftrightarrow> swapped_at xs ys"
proof (induction i xs ys rule: differences_of.induct)
  case (1 i x xs y ys)
  show ?case
  proof (cases "x = y")
    case True
    then show ?thesis using 1 by (simp add: swapped_at_Cons)
  next
    case False
    have "(\<exists>e. differences_of (i + 1) xs ys = [e] \<and> adjacent_swap (i, x, y) e) \<longleftrightarrow> (\<exists>q. xs = y # q \<and> ys = x # q)"
    proof (cases xs; cases ys)
      fix x' xs' y' ys' assume xs: "xs = x' # xs'" "ys = y' # ys'"
      have later: "d \<in> set (differences_of n us vs) \<Longrightarrow> n \<le> fst d" for d n us vs
        by (induction n us vs rule: differences_of.induct) (auto split: if_splits)
      have "\<not> adjacent_swap (i, x, y) e" if "differences_of (Suc (Suc i)) xs' ys' = [e]" for e
        using later [of e "Suc (Suc i)" xs' ys'] that by (auto simp: adjacent_swap_def)
      then show ?thesis using xs False 1(3) by (auto simp: differences_none adjacent_swap_def)
    qed (use 1(3) in auto)
    then show ?thesis using False by (auto simp: swapped_at_Cons)
  qed
qed (simp_all add: swapped_at_def)

subsection \<open>Lengths that differ by one\<close>

lemma skip_loop_one: "length ys = length xs \<Longrightarrow> skip_loop 1 xs ys \<longleftrightarrow> xs = ys"
  by (induction ys xs rule: list_induct2) auto

lemma inserted_at_Cons: "inserted_at (x # xs) (y # ys) \<longleftrightarrow> x = y \<and> inserted_at xs ys \<or> ys = x # xs"
proof
  assume "inserted_at (x # xs) (y # ys)"
  then obtain p a q where "x # xs = p @ q" "y # ys = p @ a # q" unfolding inserted_at_def by blast
  then show "x = y \<and> inserted_at xs ys \<or> ys = x # xs" unfolding inserted_at_def by (cases p) auto
next
  assume "x = y \<and> inserted_at xs ys \<or> ys = x # xs"
  then show "inserted_at (x # xs) (y # ys)"
  proof
    assume "x = y \<and> inserted_at xs ys"
    then obtain p a q where "xs = p @ q" "ys = p @ a # q" "x = y" by (auto simp: inserted_at_def)
    then show ?thesis unfolding inserted_at_def by (intro exI [of _ "x # p"]) auto
  next
    assume "ys = x # xs"
    then show ?thesis unfolding inserted_at_def by (intro exI [of _ "[]"]) auto
  qed
qed

lemma inserted_repeat: "inserted_at xs (x # xs)"
  unfolding inserted_at_def by (intro exI [of _ "[]"]) auto

lemma skip_loop_iff: "length ys = Suc (length xs) \<Longrightarrow> skip_loop 0 xs ys \<longleftrightarrow> inserted_at xs ys"
proof (induction xs arbitrary: ys)
  case Nil
  then show ?case by (cases ys) (auto simp: inserted_at_def)
next
  case (Cons x xs)
  then obtain y zs where "ys = y # zs" "length zs = Suc (length xs)" by (cases ys) auto
  then show ?case
    using Cons skip_loop_one [of zs "x # xs"] inserted_repeat [of xs] by (auto simp: inserted_at_Cons)
qed

subsection \<open>The fast path decides one edit\<close>

lemma within_one_edit_iff:
  assumes "utf8_string left" "utf8_string right"
  shows "within_one_edit left right \<longleftrightarrow> one_edit (chars left) (chars right)"
proof -
  let ?l = "chars left" and ?r = "chars right"
  consider "length ?l = length ?r" | "length ?r = Suc (length ?l)" | "length ?l = Suc (length ?r)"
    | "1 < (length ?l - length ?r) + (length ?r - length ?l)" by linarith
  then show ?thesis
  proof cases
    case 1
    have none: "\<not> inserted_at ?l ?r" "\<not> inserted_at ?r ?l" using 1 edit_lengths(2) by fastforce+
    let ?d = "differences_of 0 ?l ?r"
    have two: "length ?d = 2 \<and> adjacent_swap (?d ! 0) (?d ! 1) \<longleftrightarrow> (\<exists>d e. ?d = [d, e] \<and> adjacent_swap d e)"
      by (auto simp: length_Suc_conv numeral_2_eq_2)
    have "within_one_edit left right \<longleftrightarrow> left = right \<or> length ?d = 1 \<or> (length ?d = 2 \<and> adjacent_swap (?d ! 0) (?d ! 1))"
      using 1 collect_differences_eq [of "[]" 0 ?l ?r] by (simp add: within_one_edit_def Let_def)
    then show ?thesis
      using 1 none assms two differences_one [of ?l ?r 0] differences_two [of ?l ?r 0]
      by (simp add: one_edit_def chars_eq_iff)
  next
    case 2
    then have "\<not> replaced_at ?l ?r" "\<not> inserted_at ?r ?l" "\<not> swapped_at ?l ?r" "?l \<noteq> ?r" "left \<noteq> right"
      using edit_lengths by fastforce+
    then show ?thesis using 2 skip_loop_iff [of ?r ?l] by (simp add: within_one_edit_def one_edit_def)
  next
    case 3
    then have "\<not> replaced_at ?l ?r" "\<not> inserted_at ?l ?r" "\<not> swapped_at ?l ?r" "?l \<noteq> ?r" "left \<noteq> right"
      using edit_lengths by fastforce+
    then show ?thesis using 3 skip_loop_iff [of ?l ?r] by (simp add: within_one_edit_def one_edit_def)
  next
    case 4
    then have "\<not> replaced_at ?l ?r" "\<not> inserted_at ?l ?r" "\<not> inserted_at ?r ?l" "\<not> swapped_at ?l ?r" "?l \<noteq> ?r"
      using edit_lengths by fastforce+
    then show ?thesis using 4 by (simp add: within_one_edit_def one_edit_def)
  qed
qed

section \<open>The dictionary range of a prefix\<close>

text \<open>The loop looks at the last byte, so it recurses on the reversed prefix.\<close>

fun prefix_end_loop :: "u8 list \<Rightarrow> u8 list option" where
  "prefix_end_loop [] = None"
| "prefix_end_loop (last_byte # rest) =
     (if last_byte \<noteq> 255 then Some (rev ((last_byte + 1) # rest)) else prefix_end_loop rest)"

definition prefix_end :: "u8 list \<Rightarrow> u8 list option" where
  "prefix_end bytes = prefix_end_loop (rev bytes)"

lemma prefix_end_loop_append:
  "prefix_end_loop (xs @ [b]) =
     (case prefix_end_loop xs of Some e \<Rightarrow> Some (b # e) | None \<Rightarrow> if b \<noteq> 255 then Some [b + 1] else None)"
  by (induction xs) auto

lemma prefix_end_simps [simp]:
  "prefix_end [] = None"
  "prefix_end (b # bs) = (case prefix_end bs of Some e \<Rightarrow> Some (b # e) | None \<Rightarrow> if b \<noteq> 255 then Some [b + 1] else None)"
  by (simp_all add: prefix_end_def prefix_end_loop_append)

lemma unat_byte_successor: "(b :: u8) \<noteq> 255 \<Longrightarrow> unat (b + 1) = unat b + 1"
proof -
  assume "b \<noteq> 255"
  then have "unat b \<noteq> unat (255 :: u8)" by (metis word_unat_eq_iff)
  moreover have "unat (255 :: u8) = 255" by simp
  ultimately have "unat b + 1 < 256" using unat_byte_bound [of b] by simp
  moreover have "b + 1 = word_of_nat (unat b + 1)" by simp
  ultimately show ?thesis by (simp only: unat_of_nat) simp
qed

lemma below_byte_successor: "(b :: u8) \<noteq> 255 \<Longrightarrow> c < b + 1 \<longleftrightarrow> c < b \<or> c = b"
  by (auto simp: word_less_nat_alt unat_byte_successor word_unat_eq_iff)

lemma no_byte_above: "\<not> (255 :: u8) < c"
  using unat_byte_bound [of c] by (simp add: word_less_nat_alt)

lemma prefix_range:
  "prefix p t \<longleftrightarrow> p \<le> t \<and> (case prefix_end p of None \<Rightarrow> True | Some e \<Rightarrow> t < e)"
proof (induction p arbitrary: t)
  case (Cons b bs)
  show ?case
  proof (cases t)
    case t: (Cons c cs)
    show ?thesis
      using Cons.IH [of cs] t no_byte_above [of c] below_byte_successor [of b c]
      by (cases "prefix_end bs"; cases "b = 255") auto
  qed simp
qed simp

section \<open>Properties\<close>

lemma replaced_at_sym: "replaced_at xs ys \<Longrightarrow> replaced_at ys xs"
  unfolding replaced_at_def by (elim exE conjE, (intro exI conjI, assumption+, rule not_sym, assumption))

lemma swapped_at_sym: "swapped_at xs ys \<Longrightarrow> swapped_at ys xs"
  unfolding swapped_at_def by (elim exE conjE, (intro exI conjI, assumption+, rule not_sym, assumption))

lemma one_edit_sym: "one_edit xs ys \<Longrightarrow> one_edit ys xs"
  unfolding one_edit_def using replaced_at_sym swapped_at_sym by blast

text \<open>
  C31. The fast path of fuzzy tracing decides the edit distance of its option: for two well-formed
  strings \<open>within_one_edit\<close> holds exactly when they are equal, one character is replaced, inserted or
  deleted, or two different neighbouring characters are swapped, in either argument order; characters
  are Unicode scalar values, not bytes.
\<close>

theorem fuzzy_fast_path_exact:
  assumes "utf8_string left" "utf8_string right"
  shows "(within_one_edit left right \<longleftrightarrow> one_edit (chars left) (chars right)) \<and>
    within_one_edit left right = within_one_edit right left"
  using assms one_edit_sym by (auto simp: within_one_edit_iff)

theorem fuzzy_fast_path_exact_witness:
  "within_one_edit ''harper'' ''haprer'' \<and> one_edit (chars ''harper'') (chars ''haprer'') \<and>
   \<not> within_one_edit ''ab'' ''ba'' \<noteq> one_edit (chars ''ab'') (chars ''ba'')"
proof -
  have "within_one_edit ''harper'' ''haprer''" by code_simp
  moreover have "utf8_string ''harper''" "utf8_string ''haprer''" "utf8_string ''ab''" "utf8_string ''ba''" by code_simp+
  ultimately show ?thesis
    using fuzzy_fast_path_exact [of "''harper''" "''haprer''"] fuzzy_fast_path_exact [of "''ab''" "''ba''"] by blast
qed

text \<open>
  A prefix query reads exactly the terms with its prefix: in the byte order of the term
  dictionary, a term starts with the prefix iff it is at or after the prefix and, when there is an
  end (\<open>prefix_end\<close> finds none only for a prefix of bytes 255), before that end.
\<close>

theorem prefix_range_exact:
  "(prefix p t \<longleftrightarrow> p \<le> t \<and> (case prefix_end p of None \<Rightarrow> True | Some e \<Rightarrow> t < e)) \<and>
   (prefix_end p = None \<longleftrightarrow> set p \<subseteq> {255})"
proof
  show "prefix_end p = None \<longleftrightarrow> set p \<subseteq> {255}" by (induction p) (auto split: option.splits)
qed (rule prefix_range)

end
