(* ===== verification/Engine.thy ===== *)
theory Engine
  imports Edits Requests Config_Codec
begin

text \<open>
  What the searches and the traces of \<^verbatim>\<open>src/src/engine.rs\<close> share: the configured engine, the
  analysis of query text under its limit on terms, the selection of fields and the limits on
  clauses and on the construction of queries.

  A tokenizer of the index library is the function from a text to its token stream.  The character
  tables behind \<open>char::is_alphabetic\<close> and \<open>char::is_numeric\<close> depend on the Unicode version of the
  toolchain and are fields of the engine too.
\<close>

section \<open>The engine\<close>

record source_token =
  tk_text :: string
  tk_start :: nat
  tk_end :: nat
  tk_position :: nat

type_synonym tokenizer = "string \<Rightarrow> source_token list"

record dfa =
  dfa_start :: nat
  dfa_accept :: "nat \<Rightarrow> u8 \<Rightarrow> nat"
  dfa_can_match :: "nat \<Rightarrow> bool"
  dfa_is_match :: "nat \<Rightarrow> bool"

type_synonym fuzzy_query = "string \<Rightarrow> query_options \<Rightarrow> bool \<Rightarrow> dfa res"

record engine_field =
  ef_name :: string
  ef_field :: nat
  ef_surface_field :: "nat option"
  ef_weight :: f32

record engine_filter_field =
  eff_name :: string
  eff_field :: nat
  eff_type :: filter_field_type

text \<open>The schema of an index: its entries in the order of their handles.\<close>

datatype record_option = Basic | With_Freqs | With_Freqs_Positions

record text_options =
  tx_indexing :: "(string \<times> record_option \<times> bool) option"
  tx_fast :: "string option"

datatype schema_entry =
    Text_Entry (entry_name: string) text_options
  | F64_Entry (entry_name: string)
  | Bool_Entry (entry_name: string)

type_synonym schema = "schema_entry list"

record engine =
  en_schema :: schema
  en_id_field :: nat
  en_version_field :: nat
  en_fields :: "engine_field list"
  en_field_lookup :: "string \<Rightarrow> nat option"
  en_filter_fields :: "engine_filter_field list"
  en_filter_field_lookup :: "string \<Rightarrow> nat option"
  en_analyzer :: tokenizer
  en_surface_analyzer :: tokenizer
  en_index_analyzer :: tokenizer
  en_surface_index_analyzer :: tokenizer
  en_final_analyzer :: tokenizer
  en_fuzzy_query :: fuzzy_query
  en_is_alphabetic :: "nat \<Rightarrow> bool"
  en_is_numeric :: "nat \<Rightarrow> bool"
  en_positions :: bool
  en_max_query_terms :: nat
  en_max_query_clauses :: nat

definition is_whitespace :: "nat \<Rightarrow> bool" where
  "is_whitespace c \<longleftrightarrow> 9 \<le> c \<and> c \<le> 13 \<or> c = 32 \<or> c = 133 \<or> c = 160 \<or> c = 5760 \<or> 8192 \<le> c \<and> c \<le> 8202 \<or>
     c = 8232 \<or> c = 8233 \<or> c = 8239 \<or> c = 8287 \<or> c = 12288"

definition ends_in_whitespace :: "string \<Rightarrow> bool" where
  "ends_in_whitespace text = (case rev (chars text) of [] \<Rightarrow> False | c # _ \<Rightarrow> is_whitespace c)"

definition fuzzy_eligible :: "engine \<Rightarrow> string \<Rightarrow> bool" where
  "fuzzy_eligible en term \<longleftrightarrow> 4 \<le> length (chars term) \<and> list_ex (en_is_alphabetic en) (chars term) \<and>
     \<not> list_ex (\<lambda>c. en_is_numeric en c \<or> c = 45 \<or> c = 95 \<or> c = 47) (chars term)"

section \<open>Query terms\<close>

definition too_many_terms :: "engine \<Rightarrow> fulltext_error" where
  "too_many_terms en = invalid (''search text produces more than '' @ nat_digits (en_max_query_terms en) @ '' terms'')"

fun analyze_loop :: "engine \<Rightarrow> bool \<Rightarrow> string list \<Rightarrow> string list \<Rightarrow> source_token list \<Rightarrow> string list res" where
  "analyze_loop en deduplicate seen terms [] = Ok terms"
| "analyze_loop en deduplicate seen terms (token # tokens) =
     (if \<not> deduplicate \<or> tk_text token \<notin> set seen
      then if length terms = en_max_query_terms en then Err (too_many_terms en)
        else analyze_loop en deduplicate (if deduplicate then tk_text token # seen else seen) (terms @ [tk_text token]) tokens
      else analyze_loop en deduplicate seen terms tokens)"

definition analyze :: "engine \<Rightarrow> string \<Rightarrow> bool \<Rightarrow> bool \<Rightarrow> string list res" where
  "analyze en text surface deduplicate =
     analyze_loop en deduplicate [] [] ((if surface then en_surface_analyzer en else en_analyzer en) text)"

fun positioned_loop :: "engine \<Rightarrow> (nat \<times> string) list \<Rightarrow> source_token list \<Rightarrow> (nat \<times> string) list res" where
  "positioned_loop en terms [] = Ok terms"
| "positioned_loop en terms (token # tokens) =
     (let terms = terms @ [(tk_position token, tk_text token)]
      in if en_max_query_terms en < length terms then Err (too_many_terms en) else positioned_loop en terms tokens)"

definition analyze_positioned :: "engine \<Rightarrow> string \<Rightarrow> (nat \<times> string) list res" where
  "analyze_positioned en text = positioned_loop en [] (en_analyzer en text)"

text \<open>The terms before the last position, each once, and the last surface term.\<close>

fun completed_terms :: "nat \<Rightarrow> string list \<Rightarrow> (nat \<times> string) list \<Rightarrow> string list" where
  "completed_terms final_position seen [] = []"
| "completed_terms final_position seen ((position, term) # terms) =
     (if position < final_position \<and> term \<notin> set seen
      then term # completed_terms final_position (term # seen) terms
      else completed_terms final_position seen terms)"

definition final_surface_term :: "engine \<Rightarrow> string \<Rightarrow> (string list \<times> string option) res" where
  "final_surface_term en text = (case rev (en_final_analyzer en text) of
     [] \<Rightarrow> Ok ([], None)
   | token # _ \<Rightarrow>
       if 40 \<le> length (tk_text token)
       then Err (invalid ''the final prefix token must be shorter than 40 UTF-8 bytes'')
       else and_then (analyze_positioned en text) (\<lambda>terms.
         Ok (completed_terms (tk_position token) [] terms, Some (tk_text token))))"

section \<open>Fields\<close>

fun selected_loop :: "engine \<Rightarrow> string list \<Rightarrow> engine_field list \<Rightarrow> string list \<Rightarrow> engine_field list res" where
  "selected_loop en seen chosen [] = Ok chosen"
| "selected_loop en seen chosen (name # names) =
     (if name \<in> set seen then Err (invalid (''duplicate search field '' @ name))
      else and_then (ok_or (invalid (''unknown search field '' @ name)) (en_field_lookup en name)) (\<lambda>index.
        selected_loop en (name # seen) (chosen @ [en_fields en ! index]) names))"

definition selected_fields :: "engine \<Rightarrow> string list \<Rightarrow> engine_field list res" where
  "selected_fields en requested =
     (if requested = [] then Ok (en_fields en) else selected_loop en [] [] requested)"

definition require_surface_fields :: "engine_field list \<Rightarrow> unit res" where
  "require_surface_fields chosen =
     (if list_ex (\<lambda>field. ef_surface_field field = None) chosen
      then Err (invalid ''prefix search and match tracing require surfaceTerms to be enabled'')
      else Ok ())"

section \<open>Limits on clauses and construction\<close>

definition too_many_clauses :: "engine \<Rightarrow> fulltext_error" where
  "too_many_clauses en = invalid (''search query exceeds '' @ nat_digits (en_max_query_clauses en) @ '' clauses'')"

definition check_clause_count :: "engine \<Rightarrow> nat \<Rightarrow> nat \<Rightarrow> unit res" where
  "check_clause_count en groups alternatives =
     (if en_max_query_clauses en < saturating_mul groups alternatives then Err (too_many_clauses en) else Ok ())"

definition check_total_clause_count :: "engine \<Rightarrow> nat \<Rightarrow> nat \<Rightarrow> unit res" where
  "check_total_clause_count en clauses additional =
     (if en_max_query_clauses en < saturating_add clauses additional then Err (too_many_clauses en) else Ok ())"

definition MAX_PHRASE_CONSTRUCTION_TERMS :: nat where "MAX_PHRASE_CONSTRUCTION_TERMS = 16384"
definition MAX_FUZZY_CONSTRUCTION_WORK_UNITS :: nat where "MAX_FUZZY_CONSTRUCTION_WORK_UNITS = 256"
definition MAX_FUZZY_TERMS :: nat where "MAX_FUZZY_TERMS = 16"
definition MAX_PREFIX_EXPANSIONS :: nat where "MAX_PREFIX_EXPANSIONS = 50"

record construction_budget =
  qb_phrase_terms :: nat
  qb_fuzzy_work_units :: nat

definition no_construction :: construction_budget where
  "no_construction = \<lparr>qb_phrase_terms = 0, qb_fuzzy_work_units = 0\<rparr>"

definition charge_phrase :: "nat \<Rightarrow> nat \<Rightarrow> construction_budget \<Rightarrow> construction_budget res" where
  "charge_phrase terms field_count b =
     (let b = b\<lparr>qb_phrase_terms := saturating_add (qb_phrase_terms b) (saturating_mul terms field_count)\<rparr>
      in if MAX_PHRASE_CONSTRUCTION_TERMS < qb_phrase_terms b
         then Err (invalid ''phrase construction exceeds 16384 term-field positions'')
         else Ok b)"

definition charge_fuzzy :: "nat \<Rightarrow> nat \<Rightarrow> u8 \<Rightarrow> construction_budget \<Rightarrow> construction_budget res" where
  "charge_fuzzy terms field_count distance b =
     (if distance = 0 then Ok b
      else let weight = (if distance = 2 then 4 else 1);
               b = b\<lparr>qb_fuzzy_work_units :=
                 saturating_add (qb_fuzzy_work_units b) (saturating_mul (saturating_mul terms field_count) weight)\<rparr>
        in if MAX_FUZZY_CONSTRUCTION_WORK_UNITS < qb_fuzzy_work_units b
           then Err (invalid ''fuzzy construction exceeds 256 construction work units'')
           else Ok b)"

end
