(* ===== verification/Trace_Plan.thy ===== *)
theory Trace_Plan
  imports Engine Response Budget "HOL-Library.Product_Lexorder"
begin

text \<open>
  How \<^verbatim>\<open>src/src/engine.rs\<close> matches the values of one record against one clause of a traced search:
  the plan of a clause (\<open>trace_plan\<close>), the tokens of a value (\<open>source_tokens\<close>) and the scan of the
  tokens (\<open>trace_tokens\<close>) with its limit on spans.

  The fuzzy automaton is the index library's and a parameter.  A deadline is the number of checks that still
  find it in the future, \<open>None\<close> when there is none: time does not run backwards, so the checks that
  pass come first.  Spans have 32-bit ends, as the code stores them.
\<close>

section \<open>Tokens, terms and automata\<close>

type_synonym patience = "nat option"

definition check_deadline :: "patience \<Rightarrow> patience res" where
  "check_deadline p = (case p of
     None \<Rightarrow> Ok None
   | Some checks \<Rightarrow> if checks = 0 then Err search_timeout else Ok (Some (checks - 1)))"

datatype trace_terms = Small "string list" | Large "string set"

definition terms_from :: "string list \<Rightarrow> trace_terms" where
  "terms_from terms = (if length terms \<le> 8 then Small terms else Large (set terms))"

fun terms_len :: "trace_terms \<Rightarrow> nat" where
  "terms_len (Small terms) = length terms"
| "terms_len (Large terms) = card terms"

fun terms_contains :: "trace_terms \<Rightarrow> string \<Rightarrow> bool" where
  "terms_contains (Small terms) term = list_ex (\<lambda>candidate. candidate = term) terms"
| "terms_contains (Large terms) term = (term \<in> terms)"

record fuzzy_matcher =
  fm_text :: string
  fm_options :: query_options
  fm_prefix :: bool

definition starts_with :: "string \<Rightarrow> string \<Rightarrow> bool" where
  "starts_with text start = prefix start text"

fun dfa_run :: "dfa \<Rightarrow> nat \<Rightarrow> u8 list \<Rightarrow> bool" where
  "dfa_run automaton state [] = dfa_is_match automaton state"
| "dfa_run automaton state (byte # bytes) =
     (let state = dfa_accept automaton state byte
      in if \<not> dfa_can_match automaton state then False else dfa_run automaton state bytes)"

definition fuzzy_matches :: "fuzzy_query \<Rightarrow> fuzzy_matcher \<Rightarrow> string \<Rightarrow> bool res" where
  "fuzzy_matches query m candidate =
     (if candidate = fm_text m \<or> fm_prefix m \<and> starts_with candidate (fm_text m) then Ok True
      else if fuzzy_distance (fm_options m) = 0 then Ok False
      else and_then (query (fm_text m) (fm_options m) (fm_prefix m)) (\<lambda>automaton.
        Ok (dfa_run automaton (dfa_start automaton) (str_bytes candidate))))"

record fuzzy_trace_matchers =
  fx_analyzed :: fuzzy_matcher
  fx_surface :: "fuzzy_matcher option"

record fuzzy_trace_term =
  ft_analyzed :: string
  ft_surface :: string
  ft_matchers :: "fuzzy_trace_matchers option"

definition fuzzy_trace_term_new :: "string \<Rightarrow> string \<Rightarrow> query_options \<Rightarrow> fuzzy_trace_term" where
  "fuzzy_trace_term_new analyzed surface options =
     \<lparr>ft_analyzed = analyzed, ft_surface = surface,
      ft_matchers =
        (if fuzzy_distance options \<noteq> 1 \<or> \<not> fuzzy_transpositions options
         then Some \<lparr>fx_analyzed = \<lparr>fm_text = analyzed, fm_options = options, fm_prefix = False\<rparr>,
           fx_surface = (if analyzed \<noteq> surface
             then Some \<lparr>fm_text = surface, fm_options = options, fm_prefix = False\<rparr> else None)\<rparr>
         else None)\<rparr>"

definition surface_matcher :: "fuzzy_trace_matchers \<Rightarrow> fuzzy_matcher" where
  "surface_matcher m = (case fx_surface m of Some s \<Rightarrow> s | None \<Rightarrow> fx_analyzed m)"

text \<open>The first term that the test accepts; an error of the test ends the search.\<close>

fun any_ok :: "('a \<Rightarrow> bool res) \<Rightarrow> 'a list \<Rightarrow> bool res" where
  "any_ok test [] = Ok False"
| "any_ok test (x # xs) = and_then (test x) (\<lambda>yes. if yes then Ok True else any_ok test xs)"

definition term_matches_analyzed :: "fuzzy_query \<Rightarrow> fuzzy_trace_term \<Rightarrow> string list option \<Rightarrow> bool res" where
  "term_matches_analyzed query t analyzed = (case analyzed of
     None \<Rightarrow> Ok False
   | Some terms \<Rightarrow> any_ok (\<lambda>term. case ft_matchers t of
         Some matchers \<Rightarrow> fuzzy_matches query (fx_analyzed matchers) term
       | None \<Rightarrow> Ok (within_one_edit (ft_analyzed t) term)) terms)"

definition term_matches :: "fuzzy_query \<Rightarrow> fuzzy_trace_term \<Rightarrow> string list option \<Rightarrow> string \<Rightarrow> bool res" where
  "term_matches query t analyzed surface = (case ft_matchers t of
     Some matchers \<Rightarrow>
       and_then (case analyzed of None \<Rightarrow> Ok False | Some terms \<Rightarrow> any_ok (fuzzy_matches query (fx_analyzed matchers)) terms)
         (\<lambda>yes. if yes then Ok True else fuzzy_matches query (surface_matcher matchers) surface)
   | None \<Rightarrow>
       Ok ((case analyzed of None \<Rightarrow> False | Some terms \<Rightarrow> list_ex (within_one_edit (ft_analyzed t)) terms) \<or>
           within_one_edit (ft_surface t) surface))"

section \<open>Plans\<close>

datatype trace_plan =
    Plan_Any trace_terms
  | Plan_All trace_terms
  | Plan_Phrase "(nat \<times> string) list"
  | Plan_Prefix trace_terms string "fuzzy_matcher option"
  | Plan_Fuzzy trace_terms "fuzzy_trace_term list"

definition needs_surface :: "trace_plan \<Rightarrow> bool \<Rightarrow> bool" where
  "needs_surface plan analyzed_fuzzy = (case plan of
     Plan_Prefix _ _ _ \<Rightarrow> True | Plan_Fuzzy _ _ \<Rightarrow> \<not> analyzed_fuzzy | _ \<Rightarrow> False)"

definition record_matches :: "trace_plan \<Rightarrow> string set \<Rightarrow> bool" where
  "record_matches plan found = (case plan of
     Plan_Any _ \<Rightarrow> found \<noteq> {}
   | Plan_Fuzzy _ _ \<Rightarrow> found \<noteq> {}
   | Plan_All terms \<Rightarrow> terms_len terms \<noteq> 0 \<and> card found = terms_len terms
   | Plan_Phrase terms \<Rightarrow> terms \<noteq> [] \<and> ''__phrase'' \<in> found
   | Plan_Prefix completed start _ \<Rightarrow>
       start \<noteq> [] \<and> ''__prefix'' \<in> found \<and> card found = terms_len completed + 1)"

section \<open>Spans\<close>

definition fill_offsets :: "u32 list \<times> u32 \<Rightarrow> nat \<times> nat \<Rightarrow> u32 list \<times> u32" where
  "fill_offsets st entry = (case (st, entry) of ((offsets, utf16_offset), (byte_offset, character)) \<Rightarrow>
     let offsets = offsets[byte_offset := utf16_offset];
         utf16_offset = utf16_offset + of_nat (len_utf16 character)
     in (offsets[byte_offset + len_utf8 character := utf16_offset], utf16_offset))"

definition utf16_offsets :: "string \<Rightarrow> u32 list option" where
  "utf16_offsets source =
     (if is_ascii source then None
      else Some (fst (foldl fill_offsets (replicate (length source + 1) 0, 0) (char_indices source))))"

definition get :: "'a list \<Rightarrow> nat \<Rightarrow> 'a option" where
  "get xs i = (if i < length xs then Some (xs ! i) else None)"

definition try_u32 :: "nat \<Rightarrow> u32 option" where
  "try_u32 n = (if n < 4294967296 then Some (of_nat n) else None)"

definition source_span :: "u32 list option \<Rightarrow> nat \<Rightarrow> nat \<Rightarrow> trace_span option" where
  "source_span offsets start end =
     (if end < start then None
      else (case (case offsets of
              Some offsets \<Rightarrow> (get offsets start, get offsets end)
            | None \<Rightarrow> (try_u32 start, try_u32 end)) of
          (Some s, Some e) \<Rightarrow> if s \<le> e then Some \<lparr>sp_start = s, sp_end = e\<rparr> else None
        | _ \<Rightarrow> None))"

definition push_trace_span ::
  "trace_span list \<Rightarrow> trace_span set \<Rightarrow> trace_span option \<Rightarrow> nat \<Rightarrow> bool \<times> trace_span list \<times> trace_span set" where
  "push_trace_span kept seen span max_spans = (case span of
     None \<Rightarrow> (False, kept, seen)
   | Some span \<Rightarrow>
       if span \<in> seen then (False, kept, seen)
       else if length kept < max_spans then (False, kept @ [span], insert span seen)
       else (True, kept, seen))"

section \<open>The scan of a value\<close>

record trace_source =
  so_field :: string
  so_value_index :: u32
  so_analyzed :: "source_token list"
  so_surface :: "source_token list"
  so_utf16 :: "u32 list option"
  so_analyzed_truncated :: bool
  so_surface_truncated :: bool

record scan_state =
  sc_spans :: "trace_span list"
  sc_seen :: "trace_span set"
  sc_found :: "string set"
  sc_truncated :: bool

definition scan_start :: scan_state where
  "scan_start = \<lparr>sc_spans = [], sc_seen = {}, sc_found = {}, sc_truncated = False\<rparr>"

definition note_match :: "nat \<Rightarrow> string \<Rightarrow> trace_span option \<Rightarrow> scan_state \<Rightarrow> scan_state" where
  "note_match max_spans name span st =
     (case push_trace_span (sc_spans st) (sc_seen st) span max_spans of (truncated, kept, seen) \<Rightarrow>
        \<lparr>sc_spans = kept, sc_seen = seen, sc_found = insert name (sc_found st),
         sc_truncated = sc_truncated st \<or> truncated\<rparr>)"

text \<open>
  The loops over the tokens.  \<open>due index\<close> says whether the iteration looks at the clock; \<open>hit token
  later\<close> answers the name and the span that a match records, where \<open>later\<close> are the tokens that
  follow.  A loop ends early when spans were cut off and the plan already matches.  (The fuzzy loop
  tests this after every token; without a match in the iteration nothing has changed.)
\<close>

fun scan_loop ::
  "(nat \<Rightarrow> bool) \<Rightarrow> (source_token \<Rightarrow> source_token list \<Rightarrow> (string \<times> trace_span option) option res) \<Rightarrow> trace_plan \<Rightarrow> nat
     \<Rightarrow> nat \<Rightarrow> source_token list \<Rightarrow> scan_state \<times> patience \<Rightarrow> (scan_state \<times> patience) res" where
  "scan_loop due hit plan max_spans index [] st = Ok st"
| "scan_loop due hit plan max_spans index (token # later) (st, p) =
     and_then (if due index then check_deadline p else Ok p) (\<lambda>p.
     and_then (hit token later) (\<lambda>matched. case matched of
         None \<Rightarrow> scan_loop due hit plan max_spans (index + 1) later (st, p)
       | Some (name, span) \<Rightarrow>
           (let st = note_match max_spans name span st
            in if sc_truncated st \<and> record_matches plan (sc_found st) then Ok (st, p)
               else scan_loop due hit plan max_spans (index + 1) later (st, p))))"

definition every_256 :: "nat \<Rightarrow> bool" where
  "every_256 index \<longleftrightarrow> index mod 256 = 0"

definition token_span :: "trace_source \<Rightarrow> source_token \<Rightarrow> trace_span option" where
  "token_span source token = source_span (so_utf16 source) (tk_start token) (tk_end token)"

definition term_hit :: "trace_terms \<Rightarrow> trace_source \<Rightarrow> source_token \<Rightarrow> (string \<times> trace_span option) option" where
  "term_hit terms source token =
     (if terms_contains terms (tk_text token) then Some (tk_text token, token_span source token) else None)"

fun phrase_rest :: "nat \<Rightarrow> nat \<Rightarrow> source_token list \<Rightarrow> source_token \<Rightarrow> (nat \<times> string) list \<Rightarrow> source_token option" where
  "phrase_rest first_source first_query source final_token [] = Some final_token"
| "phrase_rest first_source first_query source final_token ((position, term) # terms) =
     (let expected = first_source + (position - first_query);
          source = dropWhile (\<lambda>t. tk_position t < expected) source;
          here = takeWhile (\<lambda>t. tk_position t = expected) source;
          source = dropWhile (\<lambda>t. tk_position t = expected) source
      in case find (\<lambda>t. tk_text t = term) here of
           None \<Rightarrow> None
         | Some token \<Rightarrow> phrase_rest first_source first_query source token terms)"

definition phrase_hit ::
  "(nat \<times> string) list \<Rightarrow> trace_source \<Rightarrow> source_token \<Rightarrow> source_token list \<Rightarrow> (string \<times> trace_span option) option" where
  "phrase_hit terms source anchor later = (case terms of
     [] \<Rightarrow> None
   | (first_position, first_term) # more_terms \<Rightarrow>
       if tk_text anchor \<noteq> first_term then None
       else (case phrase_rest (tk_position anchor) first_position later anchor more_terms of
           None \<Rightarrow> None
         | Some final_token \<Rightarrow>
             Some (''__phrase'', source_span (so_utf16 source) (tk_start anchor) (tk_end final_token))))"

definition prefix_hit ::
  "fuzzy_query \<Rightarrow> string \<Rightarrow> fuzzy_matcher option \<Rightarrow> trace_source \<Rightarrow> source_token \<Rightarrow> (string \<times> trace_span option) option res" where
  "prefix_hit query start m source token =
     and_then (if starts_with (tk_text token) start then Ok True
       else case m of Some m \<Rightarrow> fuzzy_matches query m (tk_text token) | None \<Rightarrow> Ok False) (\<lambda>yes.
     Ok (if yes then Some (''__prefix'', token_span source token) else None))"

definition analyzed_at :: "source_token list \<Rightarrow> nat \<Rightarrow> string list option" where
  "analyzed_at analyzed position =
     (case filter (\<lambda>t. tk_position t = position) analyzed of [] \<Rightarrow> None | ts \<Rightarrow> Some (map tk_text ts))"

fun first_fuzzy :: "(fuzzy_trace_term \<Rightarrow> bool res) \<Rightarrow> fuzzy_trace_term list \<Rightarrow> string option res" where
  "first_fuzzy test [] = Ok None"
| "first_fuzzy test (alternative # rest) =
     and_then (test alternative) (\<lambda>yes. if yes then Ok (Some (ft_analyzed alternative)) else first_fuzzy test rest)"

definition fuzzy_hit ::
  "fuzzy_query \<Rightarrow> trace_terms \<Rightarrow> fuzzy_trace_term list \<Rightarrow> bool \<Rightarrow> trace_source \<Rightarrow> source_token \<Rightarrow>
     (string \<times> trace_span option) option res" where
  "fuzzy_hit query exact fuzzy analyzed_fuzzy source token =
     (let source_terms =
            (if analyzed_fuzzy then Some [tk_text token] else analyzed_at (so_analyzed source) (tk_position token));
          exact_match = (case source_terms of None \<Rightarrow> None | Some terms \<Rightarrow> find (terms_contains exact) terms)
      in and_then (if exact_match = None
           then first_fuzzy (\<lambda>alternative. if analyzed_fuzzy then term_matches_analyzed query alternative source_terms
             else term_matches query alternative source_terms (tk_text token)) fuzzy
           else Ok None) (\<lambda>fuzzy_match.
         Ok (case exact_match of
             Some term \<Rightarrow> Some (term, token_span source token)
           | None \<Rightarrow> (case fuzzy_match of
                 Some term \<Rightarrow> Some (term, token_span source token)
               | None \<Rightarrow> None))))"

definition sorted_spans :: "trace_span list \<Rightarrow> trace_span list" where
  "sorted_spans kept =
     remdups_adj (sort_key (\<lambda>span. (unat (sp_start span), unat (sp_end span))) kept)"

record trace_outcome =
  to_spans :: "trace_span list"
  to_found :: "string set"
  to_spans_truncated :: bool
  to_analysis_truncated :: bool

definition trace_tokens ::
  "fuzzy_query \<Rightarrow> trace_plan \<Rightarrow> trace_source \<Rightarrow> nat \<Rightarrow> bool \<Rightarrow> patience \<Rightarrow> (trace_outcome \<times> patience) res" where
  "trace_tokens query plan source max_spans analyzed_fuzzy p =
     (let analyzed = so_analyzed source; surface = so_surface source;
          analysis_truncated = so_analyzed_truncated source \<or>
            (needs_surface plan analyzed_fuzzy \<and> so_surface_truncated source)
      in and_then (case plan of
             Plan_Any terms \<Rightarrow>
               scan_loop every_256 (\<lambda>token _. Ok (term_hit terms source token)) plan max_spans 0 analyzed (scan_start, p)
           | Plan_All terms \<Rightarrow>
               scan_loop every_256 (\<lambda>token _. Ok (term_hit terms source token)) plan max_spans 0 analyzed (scan_start, p)
           | Plan_Phrase terms \<Rightarrow>
               if terms = [] then Ok (scan_start, p)
               else scan_loop (\<lambda>_. True) (\<lambda>anchor later. Ok (phrase_hit terms source anchor later)) plan max_spans 0
                 analyzed (scan_start, p)
           | Plan_Prefix completed start m \<Rightarrow>
               and_then (scan_loop every_256 (\<lambda>token _. Ok (term_hit completed source token)) plan max_spans 0
                   analyzed (scan_start, p)) (\<lambda>st.
                 scan_loop every_256 (\<lambda>token _. prefix_hit query start m source token) plan max_spans 0 surface st)
           | Plan_Fuzzy exact fuzzy \<Rightarrow>
               scan_loop every_256 (\<lambda>token _. fuzzy_hit query exact fuzzy analyzed_fuzzy source token) plan max_spans 0
                 (if analyzed_fuzzy then analyzed else surface) (scan_start, p)) (\<lambda>(st, p).
         Ok (\<lparr>to_spans = sorted_spans (sc_spans st), to_found = sc_found st,
               to_spans_truncated = sc_truncated st, to_analysis_truncated = analysis_truncated\<rparr>, p)))"

definition MAX_TRACE_TOKENS_PER_VALUE :: nat where "MAX_TRACE_TOKENS_PER_VALUE = 262144"

fun source_loop :: "source_token list \<Rightarrow> nat \<Rightarrow> source_token list \<Rightarrow> patience \<Rightarrow> ((source_token list \<times> bool) \<times> patience) res" where
  "source_loop [] count tokens p = Ok ((tokens, False), p)"
| "source_loop (token # stream) count tokens p =
     and_then (if count mod 256 = 0 then check_deadline p else Ok p) (\<lambda>p.
       if count = MAX_TRACE_TOKENS_PER_VALUE then Ok ((tokens, True), p)
       else source_loop stream (count + 1) (tokens @ [token]) p)"

definition source_tokens :: "tokenizer \<Rightarrow> string \<Rightarrow> patience \<Rightarrow> ((source_token list \<times> bool) \<times> patience) res" where
  "source_tokens analyzer text p = source_loop (analyzer text) 0 [] p"

definition trace_value ::
  "engine \<Rightarrow> trace_plan \<Rightarrow> string \<Rightarrow> nat \<Rightarrow> patience \<Rightarrow> (trace_outcome \<times> patience) res" where
  "trace_value en plan text max_spans p =
     and_then (source_tokens (en_index_analyzer en) text p) (\<lambda>((analyzed, analyzed_truncated), p).
     and_then (if needs_surface plan False then source_tokens (en_surface_index_analyzer en) text p
       else Ok (([], False), p)) (\<lambda>((surface, surface_truncated), p).
     trace_tokens (en_fuzzy_query en) plan
       \<lparr>so_field = '''', so_value_index = 0, so_analyzed = analyzed, so_surface = surface,
        so_utf16 = utf16_offsets text, so_analyzed_truncated = analyzed_truncated,
        so_surface_truncated = surface_truncated\<rparr> max_spans False p))"

section \<open>The plan of a clause\<close>

fun fuzzy_pairs :: "engine \<Rightarrow> string list \<Rightarrow> (string \<times> string) list res" where
  "fuzzy_pairs en [] = Ok []"
| "fuzzy_pairs en (surface # rest) =
     and_then (analyze en surface False False) (\<lambda>analyzed.
     and_then (fuzzy_pairs en rest) (\<lambda>pairs.
     Ok (case analyzed of [term] \<Rightarrow> (term, surface) # pairs | _ \<Rightarrow> pairs)))"

definition too_many_fuzzy_terms :: fulltext_error where
  "too_many_fuzzy_terms = invalid ''fuzzy search contains more than 16 eligible terms''"

definition prefix_too_short :: "bool \<Rightarrow> nat \<Rightarrow> fulltext_error" where
  "prefix_too_short fuzzy minimum =
     invalid ((if fuzzy then ''fuzzy'' else ''exact'') @ '' prefix must contain at least '' @
       nat_digits minimum @ '' Unicode characters'')"

definition trace_plan :: "engine \<Rightarrow> search_clause \<Rightarrow> trace_plan res" where
  "trace_plan en clause = (case cl_mode clause of
     ModeAny \<Rightarrow> and_then (analyze en (cl_text clause) False True) (\<lambda>terms. Ok (Plan_Any (terms_from terms)))
   | ModeAll \<Rightarrow> and_then (analyze en (cl_text clause) False True) (\<lambda>terms. Ok (Plan_All (terms_from terms)))
   | Phrase \<Rightarrow>
       if \<not> en_positions en then Err (invalid ''phrase search requires positions to be enabled'')
       else and_then (analyze_positioned en (cl_text clause)) (\<lambda>terms. Ok (Plan_Phrase terms))
   | Fuzzy \<Rightarrow>
       and_then (analyze en (cl_text clause) True True) (\<lambda>surface.
       and_then (fuzzy_pairs en surface) (\<lambda>terms.
       if MAX_FUZZY_TERMS < length (filter (\<lambda>(_, surface). fuzzy_eligible en surface) terms)
       then Err too_many_fuzzy_terms
       else Ok (Plan_Fuzzy (terms_from (map fst terms))
         (map (\<lambda>(analyzed, surface). fuzzy_trace_term_new analyzed surface (cl_options clause))
           (filter (\<lambda>(_, surface). fuzzy_eligible en surface) terms)))))
   | _ \<Rightarrow>
       if ends_in_whitespace (cl_text clause)
       then and_then (analyze en (cl_text clause) False True) (\<lambda>terms. Ok (Plan_All (terms_from terms)))
       else and_then (final_surface_term en (cl_text clause)) (\<lambda>(completed, start).
         let start = (case start of Some start \<Rightarrow> start | None \<Rightarrow> []);
             fuzzy = (cl_mode clause = FuzzyPrefix);
             minimum = (if fuzzy then 4 else 3)
         in if start \<noteq> [] \<and> length (chars start) < minimum then Err (prefix_too_short fuzzy minimum)
            else Ok (Plan_Prefix (terms_from completed) start
              (if fuzzy \<and> fuzzy_eligible en start
               then Some \<lparr>fm_text = start, fm_options = cl_options clause, fm_prefix = True\<rparr> else None))))"

end
