(* ===== verification/Trace_Sound.thy ===== *)
theory Trace_Sound
  imports Trace_Plan
begin

text \<open>
  What a plan means (\<open>plan_holds\<close>), and that the scans of \<open>Trace_Plan\<close> decide it: neither the limit
  on spans nor the early exit changes the decision, and a value of which only a prefix was tokenized
  never makes a plan hold that does not hold on the whole value.
\<close>

section \<open>The meaning of a plan\<close>

fun terms_set :: "trace_terms \<Rightarrow> string set" where
  "terms_set (Small terms) = set terms"
| "terms_set (Large terms) = terms"

fun distinct_terms :: "trace_terms \<Rightarrow> bool" where
  "distinct_terms (Small terms) = distinct terms"
| "distinct_terms (Large terms) = finite terms"

lemma terms_contains_iff [simp]: "terms_contains ts x \<longleftrightarrow> x \<in> terms_set ts"
  by (cases ts) (auto simp: list_ex_iff)

lemma terms_len_card: "distinct_terms ts \<Longrightarrow> terms_len ts = card (terms_set ts) \<and> finite (terms_set ts)"
  by (cases ts) (simp_all add: distinct_card)

lemma terms_from_simps [simp]:
  "terms_set (terms_from xs) = set xs" "distinct xs \<Longrightarrow> distinct_terms (terms_from xs)"
  by (simp_all add: terms_from_def)

definition phrase_in :: "(nat \<times> string) list \<Rightarrow> source_token list \<Rightarrow> bool" where
  "phrase_in terms tokens \<longleftrightarrow> (\<exists>base. \<forall>(position, term) \<in> set terms. \<exists>token \<in> set tokens.
     tk_position token = base + (position - fst (hd terms)) \<and> tk_text token = term)"

definition fuzzy_accepts :: "fuzzy_query \<Rightarrow> fuzzy_matcher \<Rightarrow> string \<Rightarrow> bool" where
  "fuzzy_accepts query m candidate \<longleftrightarrow> fuzzy_matches query m candidate = Ok True"

definition close_analyzed :: "fuzzy_query \<Rightarrow> fuzzy_trace_term \<Rightarrow> string \<Rightarrow> bool" where
  "close_analyzed query t term = (case ft_matchers t of
     Some matchers \<Rightarrow> fuzzy_accepts query (fx_analyzed matchers) term
   | None \<Rightarrow> within_one_edit (ft_analyzed t) term)"

definition close_surface :: "fuzzy_query \<Rightarrow> fuzzy_trace_term \<Rightarrow> string \<Rightarrow> bool" where
  "close_surface query t surface = (case ft_matchers t of
     Some matchers \<Rightarrow> fuzzy_accepts query (surface_matcher matchers) surface
   | None \<Rightarrow> within_one_edit (ft_surface t) surface)"

text \<open>
  A fuzzy plan holds at a token of the analyzed value, or at a token of the surface value together
  with the analyzed tokens at its position.
\<close>

definition fuzzy_at :: "fuzzy_query \<Rightarrow> trace_terms \<Rightarrow> fuzzy_trace_term list \<Rightarrow> string set \<Rightarrow> bool" where
  "fuzzy_at query exact fuzzy terms \<longleftrightarrow>
     terms \<inter> terms_set exact \<noteq> {} \<or> (\<exists>t \<in> set fuzzy. \<exists>term \<in> terms. close_analyzed query t term)"

definition fuzzy_in :: "fuzzy_query \<Rightarrow> trace_terms \<Rightarrow> fuzzy_trace_term list \<Rightarrow> bool \<Rightarrow> trace_source \<Rightarrow> bool" where
  "fuzzy_in query exact fuzzy analyzed_fuzzy source \<longleftrightarrow>
     (if analyzed_fuzzy then \<exists>token \<in> set (so_analyzed source). fuzzy_at query exact fuzzy {tk_text token}
      else \<exists>token \<in> set (so_surface source).
        fuzzy_at query exact fuzzy {tk_text t |t. t \<in> set (so_analyzed source) \<and> tk_position t = tk_position token} \<or>
        (\<exists>t \<in> set fuzzy. close_surface query t (tk_text token)))"

definition prefix_in :: "fuzzy_query \<Rightarrow> string \<Rightarrow> fuzzy_matcher option \<Rightarrow> trace_source \<Rightarrow> bool" where
  "prefix_in query start m source \<longleftrightarrow> (\<exists>token \<in> set (so_surface source).
     starts_with (tk_text token) start \<or> (\<exists>f. m = Some f \<and> fuzzy_accepts query f (tk_text token)))"

definition source_texts :: "trace_source \<Rightarrow> string set" where
  "source_texts source = tk_text ` set (so_analyzed source)"

definition plan_holds :: "fuzzy_query \<Rightarrow> trace_plan \<Rightarrow> bool \<Rightarrow> trace_source list \<Rightarrow> bool" where
  "plan_holds query plan analyzed_fuzzy sources = (case plan of
     Plan_Any terms \<Rightarrow> \<exists>source \<in> set sources. source_texts source \<inter> terms_set terms \<noteq> {}
   | Plan_All terms \<Rightarrow> terms_set terms \<noteq> {} \<and> terms_set terms \<subseteq> \<Union> (source_texts ` set sources)
   | Plan_Phrase terms \<Rightarrow> terms \<noteq> [] \<and> (\<exists>source \<in> set sources. phrase_in terms (so_analyzed source))
   | Plan_Prefix completed start m \<Rightarrow>
       start \<noteq> [] \<and> terms_set completed \<subseteq> \<Union> (source_texts ` set sources) \<and>
       (\<exists>source \<in> set sources. prefix_in query start m source)
   | Plan_Fuzzy exact fuzzy \<Rightarrow> \<exists>source \<in> set sources. fuzzy_in query exact fuzzy analyzed_fuzzy source)"

text \<open>Plans as \<open>trace_plan\<close> builds them, and token streams as tokenizers emit them.\<close>

definition wf_plan :: "trace_plan \<Rightarrow> bool" where
  "wf_plan plan = (case plan of
     Plan_All terms \<Rightarrow> distinct_terms terms
   | Plan_Phrase terms \<Rightarrow> sorted_wrt (<) (map fst terms)
   | Plan_Prefix completed _ _ \<Rightarrow> distinct_terms completed \<and> ''__prefix'' \<notin> terms_set completed
   | _ \<Rightarrow> True)"

definition wf_source :: "trace_source \<Rightarrow> bool" where
  "wf_source source \<longleftrightarrow> sorted (map tk_position (so_analyzed source))"

section \<open>The scans record what they hit\<close>

fun hit_names :: "(source_token \<Rightarrow> source_token list \<Rightarrow> (string \<times> trace_span option) option res) \<Rightarrow> source_token list \<Rightarrow> string set" where
  "hit_names hit [] = {}"
| "hit_names hit (token # later) =
     (case hit token later of Ok (Some (name, _)) \<Rightarrow> {name} | _ \<Rightarrow> {}) \<union> hit_names hit later"

fun hits_ok :: "(source_token \<Rightarrow> source_token list \<Rightarrow> (string \<times> trace_span option) option res) \<Rightarrow> source_token list \<Rightarrow> bool" where
  "hits_ok hit [] = True"
| "hits_ok hit (token # later) = (is_ok (hit token later) \<and> hits_ok hit later)"

lemma note_match_found [simp]: "sc_found (note_match max_spans name span st) = insert name (sc_found st)"
  by (simp add: note_match_def split: prod.splits)

lemma scan_loop_found:
  assumes "scan_loop due hit plan max_spans i tokens (st, p) = Ok (st', p')"
  shows "sc_found st \<subseteq> sc_found st' \<and> sc_found st' \<subseteq> sc_found st \<union> hit_names hit tokens \<and>
    (sc_found st' = sc_found st \<union> hit_names hit tokens \<and> hits_ok hit tokens \<or> record_matches plan (sc_found st'))"
  using assms
proof (induction tokens arbitrary: i st p)
  case (Cons token later)
  obtain q m where h: "hit token later = Ok m" and
    r: "(case m of None \<Rightarrow> scan_loop due hit plan max_spans (i + 1) later (st, q)
       | Some (name, span) \<Rightarrow>
           (let st = note_match max_spans name span st
            in if sc_truncated st \<and> record_matches plan (sc_found st) then Ok (st, q)
               else scan_loop due hit plan max_spans (i + 1) later (st, q))) = Ok (st', p')"
    using Cons.prems by (simp only: scan_loop.simps and_then_Ok_iff) blast
  show ?case
  proof (cases m)
    case None
    then show ?thesis using Cons.IH [of "i + 1" st q] r h by simp
  next
    case (Some a)
    obtain name span where a: "a = (name, span)" by (cases a)
    let ?st = "note_match max_spans name span st"
    show ?thesis
    proof (cases "sc_truncated ?st \<and> record_matches plan (sc_found ?st)")
      case True
      then have "st' = ?st" using r Some a by (simp add: Let_def)
      then show ?thesis using True h Some a by auto
    next
      case False
      then have "scan_loop due hit plan max_spans (i + 1) later (?st, q) = Ok (st', p')" using r Some a by (auto simp: Let_def split: if_splits)
      then show ?thesis using Cons.IH [of "i + 1" ?st q] h Some a by auto
    qed
  qed
qed simp

section \<open>What the hits of a value are\<close>

lemma term_hit_names:
  "hit_names (\<lambda>token _. Ok (term_hit terms source token)) tokens = tk_text ` set tokens \<inter> terms_set terms"
  by (induction tokens) (auto simp: term_hit_def)

lemma hit_names_const:
  assumes "\<And>token later n span. hit token later = Ok (Some (n, span)) \<Longrightarrow> n = name"
  shows "hit_names hit tokens = (if \<exists>i < length tokens. \<exists>span. hit (tokens ! i) (drop (Suc i) tokens) = Ok (Some (name, span)) then {name} else {})"
proof (induction tokens)
  case (Cons token later)
  have "(\<exists>i < length (token # later). \<exists>span. hit ((token # later) ! i) (drop (Suc i) (token # later)) = Ok (Some (name, span))) \<longleftrightarrow>
      (\<exists>span. hit token later = Ok (Some (name, span))) \<or>
      (\<exists>i < length later. \<exists>span. hit (later ! i) (drop (Suc i) later) = Ok (Some (name, span)))"
    by (auto simp: less_Suc_eq_0_disj)
  then show ?case using Cons assms [of token later] by (auto split: result.splits option.splits)
qed simp

lemma hit_names_nonempty:
  "hit_names hit tokens \<noteq> {} \<longleftrightarrow> (\<exists>i < length tokens. \<exists>h. hit (tokens ! i) (drop (Suc i) tokens) = Ok (Some h))"
proof (induction tokens)
  case (Cons token later)
  then show ?case by (auto simp: less_Suc_eq_0_disj split: result.splits option.splits)
qed simp

lemma hits_ok_nth: "hits_ok hit tokens \<longleftrightarrow> (\<forall>i < length tokens. is_ok (hit (tokens ! i) (drop (Suc i) tokens)))"
  by (induction tokens) (auto simp: less_Suc_eq_0_disj)

lemma find_SomeD: "find P xs = Some x \<Longrightarrow> x \<in> set xs \<and> P x"
  by (induction xs) (auto split: if_splits)

subsection \<open>Phrases\<close>

lemma sorted_positions:
  assumes "sorted (map tk_position tokens)"
  shows "takeWhile (\<lambda>t. tk_position t = e) (dropWhile (\<lambda>t. tk_position t < e) tokens) = filter (\<lambda>t. tk_position t = e) tokens \<and>
    dropWhile (\<lambda>t. tk_position t = e) (dropWhile (\<lambda>t. tk_position t < e) tokens) = filter (\<lambda>t. e < tk_position t) tokens"
  using assms
proof (induction tokens)
  case (Cons t ts)
  have above: "filter (\<lambda>t. e < tk_position t) ts = ts \<and> filter (\<lambda>t. tk_position t = e) ts = []" if "e < tk_position t"
    using Cons.prems that by (auto simp: filter_id_conv filter_empty_conv)
  have same: "dropWhile (\<lambda>t. tk_position t < e) ts = ts" if "tk_position t = e"
    using Cons.prems that by (cases ts) auto
  show ?case using Cons above same by (cases "tk_position t" e rule: linorder_cases) auto
qed simp

lemmas sorted_positions_split = sorted_positions [THEN conjunct1] sorted_positions [THEN conjunct2]

lemma phrase_rest_iff:
  assumes "sorted (map tk_position tokens)" "sorted_wrt (<) (map fst terms)" "\<forall>(position, term) \<in> set terms. first \<le> position"
  shows "phrase_rest base first tokens final_token terms \<noteq> None \<longleftrightarrow>
    (\<forall>(position, term) \<in> set terms. \<exists>token \<in> set tokens. tk_position token = base + (position - first) \<and> tk_text token = term)"
  using assms
proof (induction terms arbitrary: tokens final_token)
  case (Cons a terms)
  obtain position x where a: "a = (position, x)" by (cases a)
  let ?e = "base + (position - first)"
  let ?rest = "filter (\<lambda>t. ?e < tk_position t) tokens"
  have later: "\<And>p t. (p, t) \<in> set terms \<Longrightarrow> ?e < base + (p - first)"
    using Cons.prems(2,3) a by fastforce
  have sorted_rest: "sorted (map tk_position ?rest)" using Cons.prems(1) by (simp add: sorted_filter)
  have there: "(\<exists>token \<in> set ?rest. tk_position token = base + (p - first) \<and> tk_text token = y) \<longleftrightarrow>
      (\<exists>token \<in> set tokens. tk_position token = base + (p - first) \<and> tk_text token = y)" if "(p, y) \<in> set terms" for p y
    using later [OF that] by auto
  have rest: "phrase_rest base first ?rest token terms \<noteq> None \<longleftrightarrow>
      (\<forall>(position, term) \<in> set terms. \<exists>token \<in> set tokens. tk_position token = base + (position - first) \<and> tk_text token = term)" for token
  proof -
    have "phrase_rest base first ?rest token terms \<noteq> None \<longleftrightarrow>
        (\<forall>(position, term) \<in> set terms. \<exists>token \<in> set ?rest. tk_position token = base + (position - first) \<and> tk_text token = term)"
      by (rule Cons.IH [OF sorted_rest]) (use Cons.prems(2,3) in auto)
    also have "\<dots> \<longleftrightarrow> (\<forall>(position, term) \<in> set terms. \<exists>token \<in> set tokens. tk_position token = base + (position - first) \<and> tk_text token = term)"
      using there by (intro ball_cong [OF refl]) (simp only: split_paired_all prod.case)
    finally show ?thesis .
  qed
  have step: "phrase_rest base first tokens final_token (a # terms) =
      (case find (\<lambda>t. tk_text t = x) (filter (\<lambda>t. tk_position t = ?e) tokens) of
         None \<Rightarrow> None | Some token \<Rightarrow> phrase_rest base first ?rest token terms)"
    by (simp add: a Let_def sorted_positions_split [OF Cons.prems(1)] cong: option.case_cong)
  show ?case
  proof (cases "find (\<lambda>t. tk_text t = x) (filter (\<lambda>t. tk_position t = ?e) tokens)")
    case None
    then have "\<not> (\<exists>token \<in> set tokens. tk_position token = ?e \<and> tk_text token = x)" by (auto simp: find_None_iff)
    then show ?thesis using step None by (simp add: a)
  next
    case (Some token)
    then have "token \<in> set (filter (\<lambda>t. tk_position t = ?e) tokens)" "tk_text token = x"
      using find_SomeD by fastforce+
    then have "\<exists>token \<in> set tokens. tk_position token = ?e \<and> tk_text token = x" by auto
    then show ?thesis using step Some rest [of token] by (simp add: a)
  qed
qed simp

lemma phrase_hits:
  assumes "sorted (map tk_position tokens)" "sorted_wrt (<) (map fst terms)" "terms \<noteq> []"
  shows "(\<exists>i < length tokens. phrase_hit terms source (tokens ! i) (drop (Suc i) tokens) \<noteq> None) \<longleftrightarrow> phrase_in terms tokens"
proof -
  obtain fp ft more where terms: "terms = (fp, ft) # more" using assms(3) by (cases terms) auto
  have above: "\<forall>(p, x) \<in> set more. fp < p" using assms(2) by (auto simp: terms)
  have hit: "phrase_hit terms source (tokens ! i) (drop (Suc i) tokens) \<noteq> None \<longleftrightarrow> tk_text (tokens ! i) = ft \<and>
      (\<forall>(p, x) \<in> set more. \<exists>t \<in> set (drop (Suc i) tokens). tk_position t = tk_position (tokens ! i) + (p - fp) \<and> tk_text t = x)" for i
  proof -
    have "sorted (map tk_position (drop (Suc i) tokens))" using assms(1) by (simp add: drop_map [symmetric])
    moreover have "sorted_wrt (<) (map fst more)" "\<forall>(p, x) \<in> set more. fp \<le> p" using assms(2) above by (auto simp: terms)
    ultimately have "phrase_rest (tk_position (tokens ! i)) fp (drop (Suc i) tokens) (tokens ! i) more \<noteq> None \<longleftrightarrow>
      (\<forall>(p, x) \<in> set more. \<exists>t \<in> set (drop (Suc i) tokens). tk_position t = tk_position (tokens ! i) + (p - fp) \<and> tk_text t = x)"
      by (rule phrase_rest_iff)
    moreover have "phrase_hit terms source (tokens ! i) (drop (Suc i) tokens) \<noteq> None \<longleftrightarrow> tk_text (tokens ! i) = ft \<and>
        phrase_rest (tk_position (tokens ! i)) fp (drop (Suc i) tokens) (tokens ! i) more \<noteq> None"
      by (simp add: phrase_hit_def terms split: option.split)
    ultimately show ?thesis by (simp only:)
  qed
  show ?thesis
  proof
    assume "\<exists>i < length tokens. phrase_hit terms source (tokens ! i) (drop (Suc i) tokens) \<noteq> None"
    then obtain i where i: "i < length tokens" "phrase_hit terms source (tokens ! i) (drop (Suc i) tokens) \<noteq> None" by blast
    note h = hit [THEN iffD1, OF i(2)]
    have "\<exists>t \<in> set tokens. tk_position t = tk_position (tokens ! i) + (p - fp) \<and> tk_text t = x" if "(p, x) \<in> set more" for p x
      using bspec [OF conjunct2 [OF h] that] by (auto dest: in_set_dropD)
    then show "phrase_in terms tokens"
      unfolding phrase_in_def using i(1) h by (intro exI [of _ "tk_position (tokens ! i)"]) (auto simp: terms)
  next
    assume "phrase_in terms tokens"
    then obtain base where base: "\<forall>(p, x) \<in> set terms. \<exists>t \<in> set tokens. tk_position t = base + (p - fp) \<and> tk_text t = x"
      by (auto simp: phrase_in_def terms)
    then obtain t where "t \<in> set tokens" "tk_position t = base" "tk_text t = ft" by (auto simp: terms)
    then obtain i where i: "i < length tokens" "tk_position (tokens ! i) = base" "tk_text (tokens ! i) = ft"
      by (metis in_set_conv_nth)
    have "\<exists>t \<in> set (drop (Suc i) tokens). tk_position t = base + (p - fp) \<and> tk_text t = x" if m: "(p, x) \<in> set more" for p x
    proof -
      have "\<exists>t \<in> set tokens. tk_position t = base + (p - fp) \<and> tk_text t = x"
        using bspec [OF base, of "(p, x)"] m by (simp add: terms)
      then obtain j where j: "j < length tokens" "tk_position (tokens ! j) = base + (p - fp)" "tk_text (tokens ! j) = x"
        by (metis in_set_conv_nth)
      have "i < j"
      proof (rule ccontr)
        assume "\<not> i < j"
        then have "tk_position (tokens ! j) \<le> tk_position (tokens ! i)"
          using assms(1) i(1) sorted_nth_mono [of "map tk_position tokens" j i] by simp
        then show False using bspec [OF above m] i(2) j(2) by simp
      qed
      then have "tokens ! j \<in> set (drop (Suc i) tokens)"
        using j(1) nth_mem [of "j - Suc i" "drop (Suc i) tokens"] by simp
      then show ?thesis using j by blast
    qed
    then have "tk_text (tokens ! i) = ft \<and> (\<forall>(p, x) \<in> set more. \<exists>t \<in> set (drop (Suc i) tokens).
        tk_position t = tk_position (tokens ! i) + (p - fp) \<and> tk_text t = x)" unfolding i(2) i(3) by auto
    then show "\<exists>i < length tokens. phrase_hit terms source (tokens ! i) (drop (Suc i) tokens) \<noteq> None"
      unfolding hit [symmetric] using i(1) by blast
  qed
qed

subsection \<open>Fuzzy terms and prefixes\<close>

lemma any_ok_iff: "any_ok test xs = Ok b \<Longrightarrow> b \<longleftrightarrow> (\<exists>x \<in> set xs. test x = Ok True)"
  by (induction xs) (auto simp: and_then_Ok_iff split: if_splits)

lemma term_matches_analyzed_iff:
  "term_matches_analyzed query t terms = Ok b \<Longrightarrow> b \<longleftrightarrow> (\<exists>xs. terms = Some xs \<and> (\<exists>x \<in> set xs. close_analyzed query t x))"
  by (auto simp: term_matches_analyzed_def close_analyzed_def fuzzy_accepts_def dest!: any_ok_iff split: option.splits)

lemma term_matches_iff:
  assumes "term_matches query t terms surface = Ok b"
  shows "b \<longleftrightarrow> (\<exists>xs. terms = Some xs \<and> (\<exists>x \<in> set xs. close_analyzed query t x)) \<or> close_surface query t surface"
proof (cases "ft_matchers t")
  case None
  then show ?thesis using assms
    by (auto simp: term_matches_def close_analyzed_def close_surface_def list_ex_iff split: option.splits)
next
  case (Some m)
  then obtain yes where y: "(case terms of None \<Rightarrow> Ok False | Some terms \<Rightarrow> any_ok (fuzzy_matches query (fx_analyzed m)) terms) = Ok yes"
    "(if yes then Ok True else fuzzy_matches query (surface_matcher m) surface) = Ok b"
    using assms by (auto simp: term_matches_def and_then_Ok_iff)
  have "yes \<longleftrightarrow> (\<exists>xs. terms = Some xs \<and> (\<exists>x \<in> set xs. close_analyzed query t x))"
    using y(1) Some by (auto simp: close_analyzed_def fuzzy_accepts_def dest!: any_ok_iff split: option.splits)
  then show ?thesis using y(2) Some by (auto simp: close_surface_def fuzzy_accepts_def split: if_splits)
qed

lemma first_fuzzy_iff: "first_fuzzy test ts = Ok r \<Longrightarrow> r \<noteq> None \<longleftrightarrow> (\<exists>t \<in> set ts. test t = Ok True)"
  by (induction ts) (auto simp: and_then_Ok_iff split: if_splits)

lemma first_fuzzy_ok: "first_fuzzy test ts = Ok None \<Longrightarrow> t \<in> set ts \<Longrightarrow> test t = Ok False"
  by (induction ts) (auto simp: and_then_Ok_iff split: if_splits)

section \<open>The scans decide the plan\<close>

definition facts :: "fuzzy_query \<Rightarrow> trace_plan \<Rightarrow> bool \<Rightarrow> trace_source \<Rightarrow> string set" where
  "facts query plan analyzed_fuzzy source = (case plan of
     Plan_Any terms \<Rightarrow> source_texts source \<inter> terms_set terms
   | Plan_All terms \<Rightarrow> source_texts source \<inter> terms_set terms
   | Plan_Phrase terms \<Rightarrow> if terms \<noteq> [] \<and> phrase_in terms (so_analyzed source) then {''__phrase''} else {}
   | Plan_Prefix completed start m \<Rightarrow> (source_texts source \<inter> terms_set completed) \<union>
       (if prefix_in query start m source then {''__prefix''} else {})
   | Plan_Fuzzy exact fuzzy \<Rightarrow> if fuzzy_in query exact fuzzy analyzed_fuzzy source then {''__fuzzy''} else {})"

definition below :: "trace_plan \<Rightarrow> string set \<Rightarrow> string set \<Rightarrow> bool" where
  "below plan a b = (case plan of Plan_Fuzzy _ _ \<Rightarrow> a \<noteq> {} \<longrightarrow> b \<noteq> {} | _ \<Rightarrow> a \<subseteq> b)"

definition settles :: "trace_plan \<Rightarrow> string set \<Rightarrow> string set \<Rightarrow> bool" where
  "settles plan found fs \<longleftrightarrow> below plan found fs \<and> (below plan fs found \<or> record_matches plan found)"

definition bound :: "trace_plan \<Rightarrow> string set" where
  "bound plan = (case plan of
     Plan_All terms \<Rightarrow> terms_set terms
   | Plan_Prefix completed _ _ \<Rightarrow> insert ''__prefix'' (terms_set completed)
   | _ \<Rightarrow> UNIV)"

lemma facts_bound: "facts query plan af source \<subseteq> bound plan"
  by (auto simp: facts_def bound_def split: trace_plan.split if_splits)

lemma record_matches_mono:
  assumes "wf_plan plan" "record_matches plan a" "a \<subseteq> b" "b \<subseteq> bound plan"
  shows "record_matches plan b"
proof (cases plan)
  case (Plan_All terms)
  have t: "terms_len terms = card (terms_set terms)" "finite (terms_set terms)"
    using assms(1) Plan_All terms_len_card by (auto simp: wf_plan_def)
  have b: "b \<subseteq> terms_set terms" using assms(4) Plan_All by (simp add: bound_def)
  then have "card a \<le> card b" "card b \<le> card (terms_set terms)"
    using assms(3) t(2) by (auto intro: card_mono dest: finite_subset)
  then show ?thesis using assms(2) by (simp add: record_matches_def Plan_All t(1))
next
  case (Plan_Prefix completed start m)
  have t: "terms_len completed = card (terms_set completed)" "finite (terms_set completed)" "''__prefix'' \<notin> terms_set completed"
    using assms(1) Plan_Prefix terms_len_card by (auto simp: wf_plan_def)
  have b: "b \<subseteq> insert ''__prefix'' (terms_set completed)" using assms(4) Plan_Prefix by (simp add: bound_def)
  then have "card a \<le> card b" "card b \<le> card (insert ''__prefix'' (terms_set completed))"
    using assms(3) t(2) by (auto intro!: card_mono dest: finite_subset simp del: card_insert_disjoint)
  then show ?thesis using assms(2,3) t by (auto simp: record_matches_def Plan_Prefix)
qed (use assms(2,3) in \<open>auto simp: record_matches_def\<close>)

lemma plan_holds_facts:
  assumes "wf_plan plan"
  shows "record_matches plan (\<Union> (facts query plan af ` set sources)) \<longleftrightarrow> plan_holds query plan af sources"
proof (cases plan)
  case (Plan_All terms)
  let ?t = "\<Union> (source_texts ` set sources)"
  have e: "\<Union> (facts query plan af ` set sources) = ?t \<inter> terms_set terms" by (auto simp: facts_def Plan_All)
  have t: "terms_len terms = card (terms_set terms)" "finite (terms_set terms)"
    using assms Plan_All terms_len_card by (auto simp: wf_plan_def)
  have "card (?t \<inter> terms_set terms) = card (terms_set terms) \<longleftrightarrow> terms_set terms \<subseteq> ?t"
    using t(2) by (metis card_subset_eq inf.absorb_iff2 inf.cobounded2)
  then show ?thesis using t by (auto simp: e) (auto simp: record_matches_def plan_holds_def Plan_All)
next
  case (Plan_Prefix completed start m)
  let ?t = "\<Union> (source_texts ` set sources)"
  let ?p = "\<exists>source \<in> set sources. prefix_in query start m source"
  have e: "\<Union> (facts query plan af ` set sources) = (?t \<inter> terms_set completed) \<union> (if ?p then {''__prefix''} else {})"
    by (auto simp: facts_def Plan_Prefix split: if_splits)
  have t: "terms_len completed = card (terms_set completed)" "finite (terms_set completed)" "''__prefix'' \<notin> terms_set completed"
    using assms Plan_Prefix terms_len_card by (auto simp: wf_plan_def)
  have c: "card (?t \<inter> terms_set completed) = card (terms_set completed) \<longleftrightarrow> terms_set completed \<subseteq> ?t"
    using t(2) by (metis card_subset_eq inf.absorb_iff2 inf.cobounded2)
  have "record_matches plan ((?t \<inter> terms_set completed) \<union> (if ?p then {''__prefix''} else {})) \<longleftrightarrow> plan_holds query plan af sources"
  proof (cases ?p)
    case True
    have "card (insert ''__prefix'' (?t \<inter> terms_set completed)) = Suc (card (?t \<inter> terms_set completed))"
      using t(2,3) by simp
    then show ?thesis using True t c by (simp add: record_matches_def plan_holds_def Plan_Prefix)
  next
    case False
    then show ?thesis using t by (simp add: record_matches_def plan_holds_def Plan_Prefix)
  qed
  then show ?thesis unfolding e .
qed (auto simp: record_matches_def plan_holds_def facts_def split: if_splits)

lemma below_Un: "below plan a b \<Longrightarrow> below plan c d \<Longrightarrow> below plan (a \<union> c) (b \<union> d)"
  by (cases plan) (auto simp: below_def)

lemma settled_union:
  assumes "wf_plan plan" "list_all2 (\<lambda>found source. settles plan found (facts query plan af source)) founds sources"
  shows "record_matches plan (\<Union> (set founds)) \<longleftrightarrow> plan_holds query plan af sources"
proof -
  let ?f = "\<Union> (set founds)" and ?g = "\<Union> (facts query plan af ` set sources)"
  have "below plan ?f ?g \<and> (below plan ?g ?f \<or> (\<exists>a \<in> set founds. record_matches plan a))"
    using assms(2)
  proof (induction rule: list_all2_induct)
    case (Cons found founds source sources)
    then show ?case unfolding settles_def by (auto intro: below_Un)
  qed (simp add: below_def split: trace_plan.split)
  then have b: "below plan ?f ?g" and d: "below plan ?g ?f \<or> (\<exists>a \<in> set founds. record_matches plan a)" by blast+
  have g: "?g \<subseteq> bound plan" using facts_bound by blast
  have f: "?f \<subseteq> bound plan" using b g by (auto simp: below_def bound_def split: trace_plan.splits)
  have "record_matches plan ?f \<Longrightarrow> record_matches plan ?g"
    using b record_matches_mono [OF assms(1) _ _ g, of ?f] by (cases plan) (auto simp: below_def record_matches_def)
  moreover have "record_matches plan ?f" if r: "record_matches plan ?g"
  proof (cases "\<exists>a \<in> set founds. record_matches plan a")
    case True
    then show ?thesis using record_matches_mono [OF assms(1) _ _ f] by blast
  next
    case False
    then have "below plan ?g ?f" using d by blast
    then show ?thesis
      using r record_matches_mono [OF assms(1) r _ f] by (cases plan) (auto simp: below_def record_matches_def)
  qed
  ultimately show ?thesis using plan_holds_facts [OF assms(1)] by metis
qed

section \<open>One value\<close>

lemma scan_settled:
  assumes "scan_loop due hit plan max_spans 0 tokens (scan_start, p) = Ok (st', p')"
  shows "sc_found st' \<subseteq> hit_names hit tokens \<and>
    (sc_found st' = hit_names hit tokens \<and> hits_ok hit tokens \<or> record_matches plan (sc_found st'))"
  using scan_loop_found [OF assms] by (simp add: scan_start_def)

lemma fuzzy_hit_iff:
  assumes "fuzzy_hit query exact fuzzy af source token = Ok h"
  shows "h \<noteq> None \<longleftrightarrow>
    (if af then fuzzy_at query exact fuzzy {tk_text token}
     else fuzzy_at query exact fuzzy {tk_text t |t. t \<in> set (so_analyzed source) \<and> tk_position t = tk_position token} \<or>
       (\<exists>t \<in> set fuzzy. close_surface query t (tk_text token)))"
proof -
  define terms where "terms = (if af then Some [tk_text token] else analyzed_at (so_analyzed source) (tk_position token))"
  define here where "here = (case terms of None \<Rightarrow> {} | Some xs \<Rightarrow> set xs)"
  define exact_match where "exact_match = (case terms of None \<Rightarrow> None | Some xs \<Rightarrow> find (terms_contains exact) xs)"
  define test where "test = (\<lambda>alternative. if af then term_matches_analyzed query alternative terms
             else term_matches query alternative terms (tk_text token))"
  obtain m where m: "(if exact_match = None then first_fuzzy test fuzzy else Ok None) = Ok m" and
    h: "h \<noteq> None \<longleftrightarrow> exact_match \<noteq> None \<or> m \<noteq> None"
    using assms unfolding fuzzy_hit_def terms_def [symmetric] Let_def exact_match_def [symmetric] test_def [symmetric]
    by (auto simp: and_then_Ok_iff split: option.splits)
  have e: "exact_match \<noteq> None \<longleftrightarrow> here \<inter> terms_set exact \<noteq> {}"
  proof (cases terms)
    case (Some xs)
    then show ?thesis using find_None_iff [of "terms_contains exact" xs] by (auto simp: exact_match_def here_def)
  qed (simp add: exact_match_def here_def)
  have t: "test a = Ok b \<Longrightarrow> b \<longleftrightarrow> (\<exists>x \<in> here. close_analyzed query a x) \<or> (\<not> af \<and> close_surface query a (tk_text token))" for a b
    by (auto simp: test_def here_def dest!: term_matches_analyzed_iff term_matches_iff split: if_splits option.splits)
  have f: "exact_match = None \<Longrightarrow> m \<noteq> None \<longleftrightarrow> (\<exists>a \<in> set fuzzy. (\<exists>x \<in> here. close_analyzed query a x) \<or> (\<not> af \<and> close_surface query a (tk_text token)))"
  proof (cases m)
    case None
    assume "exact_match = None"
    then have "first_fuzzy test fuzzy = Ok None" using m None by simp
    then show ?thesis using None t first_fuzzy_ok by blast
  next
    case (Some x)
    assume "exact_match = None"
    then have "first_fuzzy test fuzzy = Ok (Some x)" using m Some by simp
    then have "\<exists>a \<in> set fuzzy. test a = Ok True" using first_fuzzy_iff by blast
    then show ?thesis using Some t by blast
  qed
  have here: "here = (if af then {tk_text token} else {tk_text t |t. t \<in> set (so_analyzed source) \<and> tk_position t = tk_position token})"
  proof -
    have "(case analyzed_at tokens n of None \<Rightarrow> {} | Some xs \<Rightarrow> set xs) = set (map tk_text (filter (\<lambda>t. tk_position t = n) tokens))" for tokens n
      unfolding analyzed_at_def by (cases "filter (\<lambda>t. tk_position t = n) tokens") (simp_all only: list.case option.case list.map list.set)
    moreover have "set (map tk_text (filter (\<lambda>t. tk_position t = n) tokens)) = {tk_text t |t. t \<in> set tokens \<and> tk_position t = n}" for tokens n
      by auto
    ultimately have "(case analyzed_at tokens n of None \<Rightarrow> {} | Some xs \<Rightarrow> set xs) = {tk_text t |t. t \<in> set tokens \<and> tk_position t = n}" for tokens n
      by metis
    then show ?thesis by (simp add: here_def terms_def)
  qed
  show ?thesis using h e f unfolding here fuzzy_at_def by (cases af) auto
qed

lemma prefix_hit_iff:
  "prefix_hit query start m source token = Ok h \<Longrightarrow>
     h \<noteq> None \<longleftrightarrow> starts_with (tk_text token) start \<or> (\<exists>f. m = Some f \<and> fuzzy_accepts query f (tk_text token))"
  by (auto simp: prefix_hit_def and_then_Ok_iff fuzzy_accepts_def split: if_splits option.splits)

text \<open>A loop whose hits are decided by a predicate of the token.\<close>

lemma hits_decided:
  assumes "\<And>token later h. hit token later = Ok h \<Longrightarrow> h \<noteq> None \<longleftrightarrow> Q token"
  shows "hit_names hit tokens \<noteq> {} \<Longrightarrow> \<exists>token \<in> set tokens. Q token"
    and "hits_ok hit tokens \<Longrightarrow> token \<in> set tokens \<Longrightarrow> Q token \<Longrightarrow> hit_names hit tokens \<noteq> {}"
proof -
  show "\<exists>token \<in> set tokens. Q token" if "hit_names hit tokens \<noteq> {}"
    using that assms unfolding hit_names_nonempty by (metis nth_mem option.distinct(1))
  show "hit_names hit tokens \<noteq> {}" if ok: "hits_ok hit tokens" and t: "token \<in> set tokens" "Q token"
  proof -
    obtain i where i: "i < length tokens" "tokens ! i = token" using t(1) by (metis in_set_conv_nth)
    then obtain h where "hit (tokens ! i) (drop (Suc i) tokens) = Ok h" using ok by (auto simp: hits_ok_nth is_ok_iff)
    then show ?thesis using assms i t(2) unfolding hit_names_nonempty by (metis option.exhaust)
  qed
qed

lemma trace_tokens_settled:
  assumes "trace_tokens query plan source max_spans af p = Ok (outcome, p')" "wf_plan plan" "wf_source source"
  shows "settles plan (to_found outcome) (facts query plan af source)"
proof (cases plan)
  case (Plan_Any terms)
  then obtain st where "scan_loop every_256 (\<lambda>token _. Ok (term_hit terms source token)) plan max_spans 0
      (so_analyzed source) (scan_start, p) = Ok (st, p')" "to_found outcome = sc_found st"
    using assms(1) by (auto simp: trace_tokens_def Let_def and_then_Ok_iff)
  then show ?thesis
    using scan_settled by (fastforce simp: settles_def below_def facts_def Plan_Any term_hit_names source_texts_def)
next
  case (Plan_All terms)
  then obtain st where "scan_loop every_256 (\<lambda>token _. Ok (term_hit terms source token)) plan max_spans 0
      (so_analyzed source) (scan_start, p) = Ok (st, p')" "to_found outcome = sc_found st"
    using assms(1) by (auto simp: trace_tokens_def Let_def and_then_Ok_iff)
  then show ?thesis
    using scan_settled by (fastforce simp: settles_def below_def facts_def Plan_All term_hit_names source_texts_def)
next
  case (Plan_Phrase terms)
  let ?hit = "\<lambda>anchor later. Ok (phrase_hit terms source anchor later)"
  show ?thesis
  proof (cases "terms = []")
    case True
    then show ?thesis using assms(1) Plan_Phrase
      by (auto simp: trace_tokens_def Let_def scan_start_def settles_def below_def facts_def)
  next
    case False
    then obtain st where st: "scan_loop (\<lambda>_. True) ?hit plan max_spans 0 (so_analyzed source) (scan_start, p) = Ok (st, p')"
        "to_found outcome = sc_found st"
      using assms(1) Plan_Phrase by (auto simp: trace_tokens_def Let_def and_then_Ok_iff)
    have "hit_names ?hit (so_analyzed source) = (if phrase_in terms (so_analyzed source) then {''__phrase''} else {})"
    proof -
      have "hit_names ?hit (so_analyzed source) = (if \<exists>i < length (so_analyzed source).
          phrase_hit terms source (so_analyzed source ! i) (drop (Suc i) (so_analyzed source)) \<noteq> None then {''__phrase''} else {})"
      proof -
        have name: "phrase_hit terms source t l = Some (n, s) \<Longrightarrow> n = ''__phrase''" for t l n s
          by (auto simp: phrase_hit_def split: list.splits if_splits option.splits)
        have some: "phrase_hit terms source t l \<noteq> None \<longleftrightarrow> (\<exists>s. Ok (phrase_hit terms source t l) = (Ok (Some (''__phrase'', s)) :: _ res))" for t l
          using name by (cases "phrase_hit terms source t l") auto
        show ?thesis unfolding some by (rule hit_names_const) (use name in auto)
      qed
      then show ?thesis
        using phrase_hits [of "so_analyzed source" terms source] assms(2,3) False by (simp add: wf_source_def wf_plan_def Plan_Phrase)
    qed
    then show ?thesis using scan_settled [OF st(1)] st(2) False
      by (auto simp: settles_def below_def facts_def Plan_Phrase split: if_splits)
  qed
next
  case (Plan_Fuzzy exact fuzzy)
  let ?tokens = "if af then so_analyzed source else so_surface source"
  let ?hit = "\<lambda>token _. fuzzy_hit query exact fuzzy af source token"
  obtain st where st: "scan_loop every_256 ?hit plan max_spans 0 ?tokens (scan_start, p) = Ok (st, p')"
      "to_found outcome = sc_found st"
    using assms(1) Plan_Fuzzy by (auto simp: trace_tokens_def Let_def and_then_Ok_iff)
  let ?Q = "\<lambda>token. if af then fuzzy_at query exact fuzzy {tk_text token}
     else fuzzy_at query exact fuzzy {tk_text t |t. t \<in> set (so_analyzed source) \<and> tk_position t = tk_position token} \<or>
       (\<exists>t \<in> set fuzzy. close_surface query t (tk_text token))"
  have fi: "fuzzy_in query exact fuzzy af source \<longleftrightarrow> (\<exists>token \<in> set ?tokens. ?Q token)"
    by (simp add: fuzzy_in_def)
  have d: "hit_names ?hit ?tokens \<noteq> {} \<Longrightarrow> fuzzy_in query exact fuzzy af source"
    "hits_ok ?hit ?tokens \<Longrightarrow> fuzzy_in query exact fuzzy af source \<Longrightarrow> hit_names ?hit ?tokens \<noteq> {}"
    unfolding fi using hits_decided [of ?hit ?Q, OF fuzzy_hit_iff [where source = source]] by blast+
  show ?thesis using scan_settled [OF st(1)] d unfolding st(2)
    by (auto simp: settles_def below_def facts_def Plan_Fuzzy record_matches_def)
next
  case (Plan_Prefix completed start m)
  let ?hit = "\<lambda>token _. prefix_hit query start m source token"
  obtain st1 p1 st where st: "scan_loop every_256 (\<lambda>token _. Ok (term_hit completed source token)) plan max_spans 0
        (so_analyzed source) (scan_start, p) = Ok (st1, p1)"
      "scan_loop every_256 ?hit plan max_spans 0 (so_surface source) (st1, p1) = Ok (st, p')"
      "to_found outcome = sc_found st"
    using assms(1) Plan_Prefix by (auto simp: trace_tokens_def Let_def and_then_Ok_iff)
  let ?N1 = "source_texts source \<inter> terms_set completed" and ?N2 = "hit_names ?hit (so_surface source)"
  have "''__prefix'' \<notin> terms_set completed" using assms(2) by (simp add: wf_plan_def Plan_Prefix)
  then have s1: "sc_found st1 = ?N1"
    using scan_settled [OF st(1)] by (auto simp: term_hit_names source_texts_def record_matches_def Plan_Prefix)
  have name: "?N2 \<subseteq> {''__prefix''}"
  proof -
    have "\<And>token later n span. ?hit token later = Ok (Some (n, span)) \<Longrightarrow> n = ''__prefix''"
      by (auto simp: prefix_hit_def and_then_Ok_iff split: if_splits)
    from hit_names_const [of ?hit "''__prefix''", OF this] show ?thesis by simp
  qed
  let ?Q = "\<lambda>token. starts_with (tk_text token) start \<or> (\<exists>f. m = Some f \<and> fuzzy_accepts query f (tk_text token))"
  have d: "?N2 \<noteq> {} \<Longrightarrow> prefix_in query start m source"
    "hits_ok ?hit (so_surface source) \<Longrightarrow> prefix_in query start m source \<Longrightarrow> ?N2 \<noteq> {}"
    unfolding prefix_in_def using hits_decided [of ?hit ?Q, OF prefix_hit_iff [where source = source]] by blast+
  show ?thesis using scan_loop_found [OF st(2)] name d unfolding st(3) s1
    by (auto simp: settles_def below_def facts_def Plan_Prefix)
qed

end
