(* ===== verification/Trace_Page.thy ===== *)
theory Trace_Page
  imports Trace_Sound "HOL-Library.AList"
begin

text \<open>
  A trace of \<^verbatim>\<open>src/src/engine.rs\<close>: which of the given records match a search and where.
  \<open>trace_matches_inner\<close> traces a single clause, \<open>trace_expression\<close> a boolean expression of clauses.
  Both work under limits on spans, response bytes and tokens; in recovery mode they stop before the
  record that exhausts a shared limit, unless it is the first, and say where to go on.  The
  loops over records, fields, values, leaves and sources are functions of their own here.
\<close>

section \<open>Progress\<close>

record trace_progress =
  pr_recovery :: bool
  pr_states :: "trace_record_state list"

definition progress_new :: "bool \<Rightarrow> trace_progress" where
  "progress_new recovery = \<lparr>pr_recovery = recovery, pr_states = []\<rparr>"

definition progress_defer :: "trace_progress \<Rightarrow> bool \<Rightarrow> bool" where
  "progress_defer progress exhausted \<longleftrightarrow> pr_recovery progress \<and> exhausted \<and> pr_states progress \<noteq> []"

definition progress_consume :: "trace_record_state \<Rightarrow> trace_progress \<Rightarrow> trace_progress" where
  "progress_consume state progress =
     (if pr_recovery progress then progress\<lparr>pr_states := pr_states progress @ [state]\<rparr> else progress)"

definition progress_finish :: "trace_result \<Rightarrow> trace_progress \<Rightarrow> trace_page_result" where
  "progress_finish trace progress =
     \<lparr>tp_trace = trace, tp_next_record = length (pr_states progress), tp_states = pr_states progress\<rparr>"

text \<open>Whether a loop over records goes on with the next record.\<close>

datatype 'a turn = Stay 'a | Leave 'a

fun turn_state :: "'a turn \<Rightarrow> 'a" where
  "turn_state (Stay s) = s"
| "turn_state (Leave s) = s"

fun turns :: "('a \<Rightarrow> 's \<Rightarrow> 's turn res) \<Rightarrow> 'a list \<Rightarrow> 's \<Rightarrow> 's turn res" where
  "turns step [] s = Ok (Stay s)"
| "turns step (x # xs) s = and_then (step x s) (\<lambda>t. case t of Stay s \<Rightarrow> turns step xs s | Leave s \<Rightarrow> Ok (Leave s))"

definition not_candidate :: trace_record_state where
  "not_candidate = \<lparr>ts_membership = Some False, ts_analysis_complete = True, ts_spans_complete = True\<rparr>"

definition excluded :: "string list option \<Rightarrow> trace_record \<Rightarrow> bool" where
  "excluded candidates r \<longleftrightarrow> (case candidates of None \<Rightarrow> False | Some ids \<Rightarrow> trace_record.tr_id r \<notin> set ids)"

definition unknown_trace_field :: "string \<Rightarrow> fulltext_error" where
  "unknown_trace_field field = invalid (''unknown trace field '' @ field)"

section \<open>A single clause\<close>

subsection \<open>The values of a record\<close>

record value_state =
  va_pending :: "(string \<times> u32 \<times> trace_span list) list"
  va_found :: "string set"
  va_span_budget :: nat
  va_truncated :: bool
  va_analysis_truncated :: bool
  va_exhausted :: bool

definition value_start :: "nat \<Rightarrow> value_state" where
  "value_start budget = \<lparr>va_pending = [], va_found = {}, va_span_budget = budget, va_truncated = False,
     va_analysis_truncated = False, va_exhausted = False\<rparr>"

definition note_value :: "string \<Rightarrow> nat \<Rightarrow> trace_outcome \<Rightarrow> value_state \<Rightarrow> value_state" where
  "note_value field value_index outcome st =
     (let st = st\<lparr>va_truncated := va_truncated st \<or> to_spans_truncated outcome \<or> to_analysis_truncated outcome,
                 va_analysis_truncated := va_analysis_truncated st \<or> to_analysis_truncated outcome,
                 va_exhausted := va_exhausted st \<or> to_spans_truncated outcome,
                 va_found := va_found st \<union> to_found outcome\<rparr>
      in if to_spans outcome = [] then st
         else st\<lparr>va_span_budget := va_span_budget st - length (to_spans outcome),
                 va_pending := va_pending st @ [(field, of_nat value_index, to_spans outcome)]\<rparr>)"

fun value_loop :: "engine \<Rightarrow> trace_plan \<Rightarrow> string \<Rightarrow> nat \<Rightarrow> string list \<Rightarrow> value_state \<times> patience \<Rightarrow> (value_state \<times> patience) res" where
  "value_loop en plan field value_index [] s = Ok s"
| "value_loop en plan field value_index (text # texts) (st, p) =
     and_then (check_deadline p) (\<lambda>p.
     and_then (trace_value en plan text (va_span_budget st) p) (\<lambda>(outcome, p).
     value_loop en plan field (value_index + 1) texts (note_value field value_index outcome st, p)))"

fun field_loop :: "engine \<Rightarrow> trace_plan \<Rightarrow> string set \<Rightarrow> (string \<times> string list) list \<Rightarrow> value_state \<times> patience \<Rightarrow> (value_state \<times> patience) res" where
  "field_loop en plan selected [] s = Ok s"
| "field_loop en plan selected ((field, texts) # rest) s =
     (if en_field_lookup en field = None then Err (unknown_trace_field field)
      else if field \<notin> selected then field_loop en plan selected rest s
      else and_then (value_loop en plan field 0 texts s) (field_loop en plan selected rest))"

subsection \<open>What fits into the response\<close>

record page_state =
  pg_complete :: bool
  pg_spans :: nat
  pg_bytes :: nat
  pg_progress :: trace_progress
  pg_records :: "trace_record_match list"

record keep_state =
  ke_spans :: nat
  ke_record_bytes :: nat
  ke_values :: "trace_value_match list"
  ke_exhausted :: bool
  ke_complete :: bool

definition keep_value :: "nat \<Rightarrow> nat \<Rightarrow> keep_state \<Rightarrow> string \<times> u32 \<times> trace_span list \<Rightarrow> keep_state" where
  "keep_value response_bytes record_header k entry = (case entry of (field, value_index, found) \<Rightarrow>
     let value_header = saturating_add 10 (length field);
         available = MAX_SEARCH_RESPONSE_BYTES - response_bytes - record_header - ke_record_bytes k;
         byte_limited = (available - value_header) div 8;
         keep = min (min (length found) (ke_spans k)) byte_limited;
         k = (if keep < length found then k\<lparr>ke_exhausted := True, ke_complete := False\<rparr> else k)
     in if keep = 0 then k
        else k\<lparr>ke_values := ke_values k @ [\<lparr>tv_field = field, tv_value_index = value_index, tv_spans = take keep found\<rparr>],
               ke_spans := ke_spans k - keep,
               ke_record_bytes := saturating_add (ke_record_bytes k) (value_header + keep * 8)\<rparr>)"

definition clause_state :: "bool \<Rightarrow> bool \<Rightarrow> bool \<Rightarrow> trace_record_state" where
  "clause_state matched analysis_truncated exhausted =
     \<lparr>ts_membership = (if matched then Some True else if analysis_truncated then None else Some False),
      ts_analysis_complete = (\<not> analysis_truncated),
      ts_spans_complete = (\<not> analysis_truncated \<and> (\<not> matched \<or> \<not> exhausted))\<rparr>"

definition clause_matched :: "trace_record \<Rightarrow> value_state \<Rightarrow> page_state \<Rightarrow> page_state turn" where
  "clause_matched r st pg =
     (let recovery = pr_recovery (pg_progress pg);
          pg = pg\<lparr>pg_complete := pg_complete pg \<and> \<not> va_truncated st\<rparr>
      in if \<not> recovery \<and> va_pending st = [] then Stay pg
         else
           let record_header = saturating_add 6 (length (trace_record.tr_id r));
               k = foldl (keep_value (pg_bytes pg) record_header)
                 \<lparr>ke_spans = pg_spans pg, ke_record_bytes = 0, ke_values = [], ke_exhausted = va_exhausted st,
                  ke_complete = pg_complete pg\<rparr> (va_pending st);
               pg = pg\<lparr>pg_spans := ke_spans k, pg_complete := ke_complete k\<rparr>
           in if \<not> recovery \<and> ke_values k = [] then Stay pg
              else
                let exhausted = ke_exhausted k \<or>
                      MAX_SEARCH_RESPONSE_BYTES - pg_bytes pg < record_header + ke_record_bytes k
                in if progress_defer (pg_progress pg) exhausted then Leave (pg\<lparr>pg_complete := False\<rparr>)
                   else
                     let pg = pg\<lparr>pg_bytes := saturating_add (pg_bytes pg) (record_header + ke_record_bytes k),
                           pg_records := pg_records pg @ [\<lparr>trace_record_match.tr_id = trace_record.tr_id r, tr_values = ke_values k\<rparr>],
                           pg_progress := progress_consume (clause_state True (va_analysis_truncated st) exhausted) (pg_progress pg)\<rparr>
                     in if recovery \<and> exhausted then Leave pg else Stay pg)"

definition clause_record ::
  "engine \<Rightarrow> trace_plan \<Rightarrow> string set \<Rightarrow> string list option \<Rightarrow> trace_record \<Rightarrow> page_state \<times> patience \<Rightarrow> (page_state \<times> patience) turn res" where
  "clause_record en plan selected candidates r s = (case s of (pg, p) \<Rightarrow>
     and_then (check_deadline p) (\<lambda>p.
     if excluded candidates r then Ok (Stay (pg\<lparr>pg_progress := progress_consume not_candidate (pg_progress pg)\<rparr>, p))
     else
       and_then (field_loop en plan selected (tr_fields r) (value_start (pg_spans pg), p)) (\<lambda>(st, p).
       let pg = pg\<lparr>pg_complete := pg_complete pg \<and> \<not> va_analysis_truncated st\<rparr>
       in Ok (if record_matches plan (va_found st)
          then (case clause_matched r st pg of Stay pg \<Rightarrow> Stay (pg, p) | Leave pg \<Rightarrow> Leave (pg, p))
          else Stay (pg\<lparr>pg_progress := progress_consume
            (clause_state False (va_analysis_truncated st) (va_exhausted st)) (pg_progress pg)\<rparr>, p)))))"

subsection \<open>The page of a clause\<close>

definition finish_page :: "bool \<Rightarrow> trace_record list \<Rightarrow> page_state \<Rightarrow> trace_page_result" where
  "finish_page recovery records pg =
     progress_finish \<lparr>tr_complete = (pg_complete pg \<and> (\<not> recovery \<or> length (pr_states (pg_progress pg)) = length records)),
       tr_records = pg_records pg\<rparr> (pg_progress pg)"

definition trace_clause ::
  "engine \<Rightarrow> search_request \<Rightarrow> search_clause \<Rightarrow> trace_record list \<Rightarrow> patience \<Rightarrow> bool \<Rightarrow> (trace_page_result \<times> patience) res" where
  "trace_clause en request clause records p recovery =
     and_then (selected_fields en (cl_fields clause)) (\<lambda>selected.
     and_then (require_surface_fields selected) (\<lambda>_.
     if \<not> recovery \<and> rq_candidate_ids request = Some []
     then Ok (progress_finish \<lparr>tr_complete = True, tr_records = []\<rparr> (progress_new False), p)
     else
       and_then (trace_plan en clause) (\<lambda>plan.
       and_then (turns (clause_record en plan (set (map ef_name selected)) (rq_candidate_ids request)) records
         (\<lparr>pg_complete = True, pg_spans = MAX_TRACE_SPANS,
           pg_bytes = 3 + (if recovery then 2 + length records else 0),
           pg_progress = progress_new recovery, pg_records = []\<rparr>, p)) (\<lambda>t.
       case turn_state t of (pg, p) \<Rightarrow> Ok (finish_page recovery records pg, p)))))"

section \<open>Boolean expressions\<close>

record trace_leaf =
  lf_plan :: trace_plan
  lf_fields :: "string set"
  lf_analyzed_fuzzy :: bool

definition leaf_needs_surface :: "trace_leaf \<Rightarrow> bool" where
  "leaf_needs_surface leaf = needs_surface (lf_plan leaf) (lf_analyzed_fuzzy leaf)"

datatype trace_expression =
    T_Leaf nat
  | T_And "trace_expression list"
  | T_Or "trace_expression list"
  | T_Not trace_expression
  | T_Optional trace_expression "trace_expression list"

record trace_decision =
  de_matched :: "bool option"
  de_leaves :: "nat list"

definition combine :: "bool \<Rightarrow> trace_decision list \<Rightarrow> trace_decision" where
  "combine conjunctive decisions =
     (let matched =
            (if list_ex (\<lambda>child. de_matched child = Some (\<not> conjunctive)) decisions then Some (\<not> conjunctive)
             else if list_ex (\<lambda>child. de_matched child = None) decisions then None
             else Some conjunctive)
      in \<lparr>de_matched = matched,
          de_leaves =
            (if matched = Some True
             then concat (map de_leaves (filter (\<lambda>child. de_matched child = Some True) decisions))
             else [])\<rparr>)"

fun evaluate :: "trace_expression \<Rightarrow> bool option list \<Rightarrow> trace_decision" where
  "evaluate (T_Leaf index) membership =
     \<lparr>de_matched = membership ! index, de_leaves = (if membership ! index = Some True then [index] else [])\<rparr>"
| "evaluate (T_Not child) membership =
     \<lparr>de_matched = map_option Not (de_matched (evaluate child membership)), de_leaves = []\<rparr>"
| "evaluate (T_And children) membership = combine True (map (\<lambda>child. evaluate child membership) children)"
| "evaluate (T_Or children) membership = combine False (map (\<lambda>child. evaluate child membership) children)"
| "evaluate (T_Optional required optional) membership =
     (let result = evaluate required membership
      in if de_matched result = Some True
         then result\<lparr>de_leaves := de_leaves result @ concat (map de_leaves
           (filter (\<lambda>child. de_matched child = Some True) (map (\<lambda>child. evaluate child membership) optional)))\<rparr>
         else result)"

definition charge_plan :: "trace_plan \<Rightarrow> nat \<Rightarrow> u8 \<Rightarrow> construction_budget \<Rightarrow> construction_budget res" where
  "charge_plan plan field_count distance b = (case plan of
     Plan_Phrase terms \<Rightarrow> charge_phrase (length terms) field_count b
   | Plan_Fuzzy _ fuzzy \<Rightarrow> charge_fuzzy (length fuzzy) field_count distance b
   | Plan_Prefix _ _ m \<Rightarrow> charge_fuzzy (if m \<noteq> None then 1 else 0) field_count distance b
   | _ \<Rightarrow> Ok b)"

definition prepare_clause ::
  "engine \<Rightarrow> search_clause \<Rightarrow> bool \<Rightarrow> trace_leaf list \<times> construction_budget \<Rightarrow>
     (trace_expression \<times> trace_leaf list \<times> construction_budget) res" where
  "prepare_clause en clause negative s = (case s of (leaves, budget) \<Rightarrow>
     and_then (selected_fields en (cl_fields clause)) (\<lambda>selected.
     and_then (require_surface_fields selected) (\<lambda>_.
     and_then (trace_plan en clause) (\<lambda>plan.
     and_then (charge_plan plan (length selected) (fuzzy_distance (cl_options clause)) budget) (\<lambda>budget.
     Ok (T_Leaf (length leaves),
         leaves @ [\<lparr>lf_plan = plan, lf_fields = set (map ef_name selected), lf_analyzed_fuzzy = negative\<rparr>],
         budget))))))"

fun prepare :: "engine \<Rightarrow> search_expression \<Rightarrow> bool \<Rightarrow> trace_leaf list \<times> construction_budget \<Rightarrow>
     (trace_expression \<times> trace_leaf list \<times> construction_budget) res"
and prepare_list :: "engine \<Rightarrow> search_expression list \<Rightarrow> bool \<Rightarrow> trace_leaf list \<times> construction_budget \<Rightarrow>
     (trace_expression list \<times> trace_leaf list \<times> construction_budget) res" where
  "prepare en (Clause clause) negative s = prepare_clause en clause negative s"
| "prepare en (AndE children) negative s = and_then (prepare_list en children negative s) (\<lambda>(ts, s). Ok (T_And ts, s))"
| "prepare en (OrE children) negative s = and_then (prepare_list en children negative s) (\<lambda>(ts, s). Ok (T_Or ts, s))"
| "prepare en (NotE child) negative s = and_then (prepare en child True s) (\<lambda>(t, s). Ok (T_Not t, s))"
| "prepare en (Boost boost child) negative s = prepare en child negative s"
| "prepare en (Optional required optional) negative s =
     and_then (prepare en required negative s) (\<lambda>(t, s).
     and_then (prepare_list en optional negative s) (\<lambda>(ts, s). Ok (T_Optional t ts, s)))"
| "prepare_list en [] negative s = Ok ([], s)"
| "prepare_list en (child # children) negative s =
     and_then (prepare en child negative s) (\<lambda>(t, s).
     and_then (prepare_list en children negative s) (\<lambda>(ts, s). Ok (t # ts, s)))"

subsection \<open>The sources of a record\<close>

definition MAX_TRACE_EXPRESSION_TOKENS :: nat where "MAX_TRACE_EXPRESSION_TOKENS = 524288"
definition MAX_TRACE_EXPRESSION_VALUES :: nat where "MAX_TRACE_EXPRESSION_VALUES = 4096"
definition MAX_TRACE_WORK_TOKENS :: nat where "MAX_TRACE_WORK_TOKENS = 8388608"

record sources_state =
  ss_sources :: "trace_source list"
  ss_tokens :: nat
  ss_missing :: "string set"

text \<open>Tokens beyond the remaining budget of the record are cut off.\<close>

definition cut_tokens :: "nat \<Rightarrow> source_token list \<times> bool \<Rightarrow> source_token list \<times> bool" where
  "cut_tokens remaining t = (case t of (tokens, truncated) \<Rightarrow>
     if remaining < length tokens then (take remaining tokens, True) else (tokens, truncated))"

definition source_value ::
  "engine \<Rightarrow> string set \<Rightarrow> string \<Rightarrow> nat \<Rightarrow> string \<Rightarrow> sources_state \<times> patience \<Rightarrow> (sources_state \<times> patience) res" where
  "source_value en surface_fields field value_index text s = (case s of (ss, p) \<Rightarrow>
     if length (ss_sources ss) = MAX_TRACE_EXPRESSION_VALUES \<or> ss_tokens ss = 0 \<and> text \<noteq> []
     then Ok (ss\<lparr>ss_missing := insert field (ss_missing ss)\<rparr>, p)
     else
       and_then (source_tokens (en_index_analyzer en) text p) (\<lambda>(t, p).
       case cut_tokens (ss_tokens ss) t of (analyzed, analyzed_truncated) \<Rightarrow>
       let remaining = ss_tokens ss - length analyzed
       in and_then (if field \<notin> surface_fields then Ok (([], False), p)
            else if remaining = 0 then Ok (([], text \<noteq> []), p)
            else source_tokens (en_surface_index_analyzer en) text p) (\<lambda>(t, p).
          case cut_tokens remaining t of (surface, surface_truncated) \<Rightarrow>
          let ss = ss\<lparr>ss_tokens := remaining - length surface\<rparr>
          in Ok (if analyzed = [] \<and> surface = [] \<and> \<not> analyzed_truncated \<and> \<not> surface_truncated then ss
             else ss\<lparr>ss_sources := ss_sources ss @ [\<lparr>so_field = field, so_value_index = of_nat value_index, so_analyzed = analyzed,
               so_surface = surface, so_utf16 = utf16_offsets text, so_analyzed_truncated = analyzed_truncated,
               so_surface_truncated = surface_truncated\<rparr>]\<rparr>, p))))"

fun source_values ::
  "engine \<Rightarrow> string set \<Rightarrow> string \<Rightarrow> nat \<Rightarrow> string list \<Rightarrow> sources_state \<times> patience \<Rightarrow> (sources_state \<times> patience) res" where
  "source_values en surface_fields field value_index [] s = Ok s"
| "source_values en surface_fields field value_index (text # texts) s =
     and_then (source_value en surface_fields field value_index text s)
       (source_values en surface_fields field (value_index + 1) texts)"

fun source_fields ::
  "engine \<Rightarrow> string set \<Rightarrow> string set \<Rightarrow> (string \<times> string list) list \<Rightarrow> sources_state \<times> patience \<Rightarrow> (sources_state \<times> patience) res" where
  "source_fields en surface_fields selected [] s = Ok s"
| "source_fields en surface_fields selected ((field, texts) # rest) s =
     (if en_field_lookup en field = None then Err (unknown_trace_field field)
      else if field \<notin> selected then source_fields en surface_fields selected rest s
      else and_then (source_values en surface_fields field 0 texts s)
        (source_fields en surface_fields selected rest))"

subsection \<open>Membership\<close>

record member_state =
  me_work :: nat
  me_exhausted :: bool
  me_found :: "string set"
  me_unknown :: bool

definition source_cost :: "trace_leaf \<Rightarrow> trace_source \<Rightarrow> nat" where
  "source_cost leaf source = length (so_analyzed source) + (if leaf_needs_surface leaf then length (so_surface source) else 0)"

definition member_source ::
  "engine \<Rightarrow> trace_progress \<Rightarrow> trace_leaf \<Rightarrow> trace_source \<Rightarrow> member_state \<times> patience \<Rightarrow> (member_state \<times> patience) turn res" where
  "member_source en progress leaf source s = (case s of (me, p) \<Rightarrow>
     if so_field source \<notin> lf_fields leaf then Ok (Stay (me, p))
     else if me_work me < source_cost leaf source
     then if progress_defer progress True then Ok (Leave (me, p))
       else Ok (Stay (me\<lparr>me_exhausted := True, me_unknown := True\<rparr>, p))
     else
       and_then (trace_tokens (en_fuzzy_query en) (lf_plan leaf) source 0 (lf_analyzed_fuzzy leaf) p) (\<lambda>(outcome, p).
       Ok (Stay (me\<lparr>me_work := me_work me - source_cost leaf source,
         me_found := me_found me \<union> to_found outcome,
         me_unknown := me_unknown me \<or> to_analysis_truncated outcome\<rparr>, p))))"

record members_state =
  ms_work :: nat
  ms_exhausted :: bool
  ms_membership :: "bool option list"
  ms_any_unknown :: bool

definition member_leaf ::
  "engine \<Rightarrow> trace_progress \<Rightarrow> string set \<Rightarrow> trace_source list \<Rightarrow> trace_leaf \<Rightarrow> members_state \<times> patience \<Rightarrow>
     (members_state \<times> patience) turn res" where
  "member_leaf en progress missing sources leaf s = (case s of (ms, p) \<Rightarrow>
     and_then (turns (member_source en progress leaf) sources
       (\<lparr>me_work = ms_work ms, me_exhausted = ms_exhausted ms, me_found = {},
         me_unknown = (lf_fields leaf \<inter> missing \<noteq> {})\<rparr>, p)) (\<lambda>t.
     Ok (case t of
         Leave (me, p) \<Rightarrow> Leave (ms\<lparr>ms_work := me_work me\<rparr>, p)
       | Stay (me, p) \<Rightarrow> Stay (ms\<lparr>ms_work := me_work me, ms_exhausted := me_exhausted me,
           ms_membership := ms_membership ms @
             [if record_matches (lf_plan leaf) (me_found me) then Some True else if me_unknown me then None else Some False],
           ms_any_unknown := ms_any_unknown ms \<or> me_unknown me\<rparr>, p))))"

subsection \<open>Spans\<close>

type_synonym span_entries = "((string \<times> u32) \<times> (u32 \<times> u32) set) list"

definition entry_of :: "span_entries \<Rightarrow> string \<times> u32 \<Rightarrow> (u32 \<times> u32) set" where
  "entry_of entries key = (case map_of entries key of Some e \<Rightarrow> e | None \<Rightarrow> {})"

definition set_entry :: "span_entries \<Rightarrow> string \<times> u32 \<Rightarrow> (u32 \<times> u32) set \<Rightarrow> span_entries" where
  "set_entry entries key e = AList.update key e entries"

record collect_state =
  cs_work :: nat
  cs_exhausted :: bool
  cs_spans_complete :: bool
  cs_complete :: bool
  cs_entries :: span_entries
  cs_pending :: nat

fun insert_spans :: "trace_progress \<Rightarrow> string \<times> u32 \<Rightarrow> trace_span list \<Rightarrow> collect_state \<Rightarrow> collect_state turn" where
  "insert_spans progress key [] cs = Stay cs"
| "insert_spans progress key (span # rest) cs =
     (let entry = entry_of (cs_entries cs) key; pair = (sp_start span, sp_end span)
      in if pair \<in> entry then insert_spans progress key rest cs
         else if cs_pending cs = 0
         then if progress_defer progress True then Leave cs
           else Stay (cs\<lparr>cs_exhausted := True, cs_spans_complete := False, cs_complete := False\<rparr>)
         else insert_spans progress key rest
           (cs\<lparr>cs_entries := set_entry (cs_entries cs) key (insert pair entry), cs_pending := cs_pending cs - 1\<rparr>))"

definition collect_source ::
  "engine \<Rightarrow> trace_progress \<Rightarrow> trace_leaf \<Rightarrow> trace_source \<Rightarrow> collect_state \<times> patience \<Rightarrow> (collect_state \<times> patience) turn res" where
  "collect_source en progress leaf source s = (case s of (cs, p) \<Rightarrow>
     if so_field source \<notin> lf_fields leaf then Ok (Stay (cs, p))
     else if cs_work cs < source_cost leaf source
     then if progress_defer progress True then Ok (Leave (cs, p))
       else Ok (Stay (cs\<lparr>cs_exhausted := True, cs_spans_complete := False, cs_complete := False\<rparr>, p))
     else
       let key = (so_field source, so_value_index source);
           entry = entry_of (cs_entries cs) key;
           cs = cs\<lparr>cs_work := cs_work cs - source_cost leaf source, cs_entries := set_entry (cs_entries cs) key entry\<rparr>
       in and_then (trace_tokens (en_fuzzy_query en) (lf_plan leaf) source (cs_pending cs + card entry) False p) (\<lambda>(outcome, p).
          let truncated = to_spans_truncated outcome
          in if truncated \<and> progress_defer progress True then Ok (Leave (cs, p))
             else
               let cs = cs\<lparr>cs_complete := cs_complete cs \<and> \<not> truncated, cs_exhausted := cs_exhausted cs \<or> truncated,
                     cs_spans_complete := cs_spans_complete cs \<and> \<not> truncated\<rparr>
               in Ok (case insert_spans progress key (to_spans outcome) cs of
                   Stay cs \<Rightarrow> Stay (cs, p) | Leave cs \<Rightarrow> Leave (cs, p))))"

definition collect_leaf ::
  "engine \<Rightarrow> trace_progress \<Rightarrow> trace_leaf list \<Rightarrow> trace_source list \<Rightarrow> nat \<Rightarrow> collect_state \<times> patience \<Rightarrow>
     (collect_state \<times> patience) turn res" where
  "collect_leaf en progress leaves sources index s = turns (collect_source en progress (leaves ! index)) sources s"

subsection \<open>The response of a record\<close>

record fit_state =
  fi_bytes :: nat
  fi_spans :: nat
  fi_values :: "trace_value_match list"
  fi_exhausted :: bool
  fi_spans_complete :: bool
  fi_complete :: bool

definition fit_value :: "nat \<Rightarrow> fit_state \<Rightarrow> (string \<times> u32) \<times> (u32 \<times> u32) set \<Rightarrow> fit_state" where
  "fit_value remaining_bytes fi entry = (case entry of ((field, value_index), pairs) \<Rightarrow>
     let header = 10 + length field;
         keep = min (card pairs) ((remaining_bytes - (fi_bytes fi + header)) div 8);
         fi = (if keep < card pairs then fi\<lparr>fi_exhausted := True, fi_spans_complete := False, fi_complete := False\<rparr> else fi)
     in if keep = 0 then fi
        else fi\<lparr>fi_bytes := fi_bytes fi + (header + keep * 8), fi_spans := fi_spans fi - keep,
          fi_values := fi_values fi @ [\<lparr>tv_field = field, tv_value_index = value_index,
            tv_spans = map (\<lambda>(s, e). \<lparr>sp_start = s, sp_end = e\<rparr>) (take keep (sorted_list_of_set pairs))\<rparr>]\<rparr>)"

definition entries_in_order :: "span_entries \<Rightarrow> span_entries" where
  "entries_in_order entries = sort_key (\<lambda>((field, value_index), _). (str_bytes field, value_index)) entries"

record expression_state =
  ex_complete :: bool
  ex_records :: "trace_record_match list"
  ex_spans :: nat
  ex_bytes :: nat
  ex_progress :: trace_progress
  ex_work :: nat

definition expression_undecided ::
  "bool option \<Rightarrow> bool \<Rightarrow> bool \<Rightarrow> expression_state \<Rightarrow> expression_state turn" where
  "expression_undecided matched analysis_complete exhausted ex =
     (let recovery = pr_recovery (ex_progress ex);
          ex = ex\<lparr>ex_progress := progress_consume \<lparr>ts_membership = matched, ts_analysis_complete = analysis_complete,
            ts_spans_complete = analysis_complete\<rparr> (ex_progress ex)\<rparr>
      in if recovery \<and> exhausted then Leave ex else Stay ex)"

definition expression_matched ::
  "trace_record \<Rightarrow> bool \<Rightarrow> collect_state \<Rightarrow> expression_state \<Rightarrow> expression_state turn" where
  "expression_matched r analysis_complete cs ex =
     (let recovery = pr_recovery (ex_progress ex);
          fi = foldl (fit_value (ex_bytes ex))
            \<lparr>fi_bytes = 6 + length (trace_record.tr_id r), fi_spans = ex_spans ex, fi_values = [], fi_exhausted = cs_exhausted cs,
             fi_spans_complete = cs_spans_complete cs, fi_complete = cs_complete cs\<rparr> (entries_in_order (cs_entries cs));
          ex = ex\<lparr>ex_spans := fi_spans fi, ex_complete := fi_complete fi\<rparr>;
          over = ex_bytes ex < fi_bytes fi;
          ex = (if over then ex\<lparr>ex_complete := False\<rparr> else ex)
      in if over \<and> \<not> recovery then Stay ex
         else
           let exhausted = fi_exhausted fi \<or> over;
               spans_complete = fi_spans_complete fi \<and> \<not> over
           in if progress_defer (ex_progress ex) exhausted then Leave (ex\<lparr>ex_complete := False\<rparr>)
              else
                let ex = ex\<lparr>ex_bytes := ex_bytes ex - fi_bytes fi,
                      ex_records := ex_records ex @ [\<lparr>trace_record_match.tr_id = trace_record.tr_id r, tr_values = fi_values fi\<rparr>],
                      ex_progress := progress_consume \<lparr>ts_membership = Some True, ts_analysis_complete = analysis_complete,
                        ts_spans_complete = (spans_complete \<and> analysis_complete)\<rparr> (ex_progress ex)\<rparr>
                in if recovery \<and> exhausted then Leave ex else Stay ex)"

definition with_patience :: "patience \<Rightarrow> 's turn \<Rightarrow> ('s \<times> patience) turn" where
  "with_patience p t = (case t of Stay s \<Rightarrow> Stay (s, p) | Leave s \<Rightarrow> Leave (s, p))"

text \<open>The spans of a record that matches, and what follows the decision about a record.\<close>

definition expression_spans ::
  "engine \<Rightarrow> trace_leaf list \<Rightarrow> trace_source list \<Rightarrow> trace_record \<Rightarrow> nat list \<Rightarrow> bool \<Rightarrow> bool \<Rightarrow> expression_state \<times> patience \<Rightarrow>
     (expression_state \<times> patience) turn res" where
  "expression_spans en leaves sources r indices analysis_complete exhausted s = (case s of (ex, p) \<Rightarrow>
     and_then (turns (collect_leaf en (ex_progress ex) leaves sources) indices
       (\<lparr>cs_work = ex_work ex, cs_exhausted = exhausted, cs_spans_complete = True, cs_complete = ex_complete ex,
         cs_entries = [], cs_pending = ex_spans ex\<rparr>, p)) (\<lambda>t.
     Ok (case t of
         Leave (cs, p) \<Rightarrow> Leave (ex\<lparr>ex_complete := False\<rparr>, p)
       | Stay (cs, p) \<Rightarrow> with_patience p (expression_matched r analysis_complete cs (ex\<lparr>ex_work := cs_work cs\<rparr>)))))"

definition expression_decided ::
  "engine \<Rightarrow> trace_leaf list \<Rightarrow> trace_expression \<Rightarrow> trace_source list \<Rightarrow> trace_record \<Rightarrow> members_state \<Rightarrow>
     expression_state \<times> patience \<Rightarrow> (expression_state \<times> patience) turn res" where
  "expression_decided en leaves expression sources r ms s = (case s of (ex, p) \<Rightarrow>
     let ex = ex\<lparr>ex_complete := ex_complete ex \<and> \<not> ms_any_unknown ms, ex_work := ms_work ms\<rparr>;
         analysis_complete = (\<not> ms_any_unknown ms);
         decision = evaluate expression (ms_membership ms)
     in if progress_defer (ex_progress ex) (ms_exhausted ms) then Ok (Leave (ex\<lparr>ex_complete := False\<rparr>, p))
        else if de_matched decision \<noteq> Some True
        then Ok (with_patience p (expression_undecided (de_matched decision) analysis_complete (ms_exhausted ms) ex))
        else expression_spans en leaves sources r (de_leaves decision) analysis_complete (ms_exhausted ms) (ex, p))"

definition expression_record ::
  "engine \<Rightarrow> trace_leaf list \<Rightarrow> trace_expression \<Rightarrow> string set \<Rightarrow> string set \<Rightarrow> string list option \<Rightarrow> trace_record \<Rightarrow>
     expression_state \<times> patience \<Rightarrow> (expression_state \<times> patience) turn res" where
  "expression_record en leaves expression selected surface_fields candidates r s = (case s of (ex, p) \<Rightarrow>
     and_then (check_deadline p) (\<lambda>p.
     if excluded candidates r then Ok (Stay (ex\<lparr>ex_progress := progress_consume not_candidate (ex_progress ex)\<rparr>, p))
     else
       and_then (source_fields en surface_fields selected (tr_fields r)
         (\<lparr>ss_sources = [], ss_tokens = MAX_TRACE_EXPRESSION_TOKENS, ss_missing = {}\<rparr>, p)) (\<lambda>(ss, p).
       and_then (turns (member_leaf en (ex_progress ex) (ss_missing ss) (ss_sources ss)) leaves
         (\<lparr>ms_work = ex_work ex, ms_exhausted = False, ms_membership = [], ms_any_unknown = False\<rparr>, p)) (\<lambda>t.
       case t of
         Leave (ms, p) \<Rightarrow> Ok (Leave (ex\<lparr>ex_complete := False\<rparr>, p))
       | Stay (ms, p) \<Rightarrow> expression_decided en leaves expression (ss_sources ss) r ms (ex, p)))))"

definition trace_expression_page ::
  "engine \<Rightarrow> search_request \<Rightarrow> trace_record list \<Rightarrow> patience \<Rightarrow> bool \<Rightarrow> (trace_page_result \<times> patience) res" where
  "trace_expression_page en request records p recovery =
     and_then (validate_search_structure (rq_expression request) (en_max_query_clauses en) (length (en_fields en))) (\<lambda>_.
     and_then (prepare en (rq_expression request) False ([], no_construction)) (\<lambda>(expression, leaves, _).
     let selected = \<Union> (lf_fields ` set leaves);
         surface_fields = \<Union> (lf_fields ` set (filter leaf_needs_surface leaves))
     in and_then (turns (expression_record en leaves expression selected surface_fields (rq_candidate_ids request)) records
          (\<lparr>ex_complete = True, ex_records = [], ex_spans = MAX_TRACE_SPANS,
            ex_bytes = MAX_SEARCH_RESPONSE_BYTES - 3 - (if recovery then 2 + length records else 0),
            ex_progress = progress_new recovery, ex_work = MAX_TRACE_WORK_TOKENS\<rparr>, p)) (\<lambda>t.
        case turn_state t of (ex, p) \<Rightarrow>
          Ok (progress_finish
            \<lparr>tr_complete = (ex_complete ex \<and> (\<not> recovery \<or> length (pr_states (ex_progress ex)) = length records)),
             tr_records = ex_records ex\<rparr> (ex_progress ex), p))))"

definition trace_matches_inner ::
  "engine \<Rightarrow> search_request \<Rightarrow> trace_record list \<Rightarrow> patience \<Rightarrow> bool \<Rightarrow> (trace_page_result \<times> patience) res" where
  "trace_matches_inner en request records p recovery =
     and_then (check_deadline p) (\<lambda>p.
     and_then (validate_trace_admission request records) (\<lambda>_.
     case rq_expression request of
       Clause clause \<Rightarrow> trace_clause en request clause records p recovery
     | _ \<Rightarrow> trace_expression_page en request records p recovery))"

definition trace_matches :: "engine \<Rightarrow> search_request \<Rightarrow> trace_record list \<Rightarrow> patience \<Rightarrow> trace_result res" where
  "trace_matches en request records p =
     and_then (trace_matches_inner en request records p False) (\<lambda>(page, _). Ok (tp_trace page))"

definition trace_matches_page :: "engine \<Rightarrow> search_request \<Rightarrow> trace_record list \<Rightarrow> patience \<Rightarrow> trace_page_result res" where
  "trace_matches_page en request records p =
     and_then (trace_matches_inner en request records p True) (\<lambda>(page, _). Ok page)"

end
