(* ===== verification/Trace_Correct.thy ===== *)
theory Trace_Correct
  imports Trace_Page
begin

text \<open>
  What a trace answers: a decided membership is the truth of the search expression on the whole
  record, whatever was cut off; the evaluation of expressions is sound and complete for their
  two-valued reading; and a page advances and stays within its limits.
\<close>

section \<open>Expressions\<close>

fun truth :: "trace_expression \<Rightarrow> (nat \<Rightarrow> bool) \<Rightarrow> bool" where
  "truth (T_Leaf index) v = v index"
| "truth (T_Not child) v = (\<not> truth child v)"
| "truth (T_And children) v = list_all (\<lambda>child. truth child v) children"
| "truth (T_Or children) v = list_ex (\<lambda>child. truth child v) children"
| "truth (T_Optional required optional) v = truth required v"

fun expression_leaves :: "trace_expression \<Rightarrow> nat set" where
  "expression_leaves (T_Leaf index) = {index}"
| "expression_leaves (T_Not child) = expression_leaves child"
| "expression_leaves (T_And children) = \<Union> (expression_leaves ` set children)"
| "expression_leaves (T_Or children) = \<Union> (expression_leaves ` set children)"
| "expression_leaves (T_Optional required optional) = expression_leaves required \<union> \<Union> (expression_leaves ` set optional)"

definition agrees :: "bool option list \<Rightarrow> (nat \<Rightarrow> bool) \<Rightarrow> bool" where
  "agrees membership v \<longleftrightarrow> (\<forall>i < length membership. \<forall>b. membership ! i = Some b \<longrightarrow> v i = b)"

lemma combine_sound:
  assumes "de_matched (combine conjunctive (map f xs)) = Some b"
    and child: "\<And>x b. x \<in> set xs \<Longrightarrow> de_matched (f x) = Some b \<Longrightarrow> P x = b"
  shows "b \<longleftrightarrow> (if conjunctive then \<forall>x \<in> set xs. P x else \<exists>x \<in> set xs. P x)"
proof (cases "\<exists>x \<in> set xs. de_matched (f x) = Some (\<not> conjunctive)")
  case True
  then obtain x where x: "x \<in> set xs" "P x = (\<not> conjunctive)" using child by blast
  have "b = (\<not> conjunctive)" using assms(1) True by (auto simp: combine_def Let_def list_ex_iff split: if_splits)
  then show ?thesis using x by auto
next
  case False
  then have b: "b = conjunctive \<and> (\<forall>x \<in> set xs. de_matched (f x) \<noteq> None)"
    using assms(1) by (auto simp: combine_def Let_def list_ex_iff split: if_splits)
  have "P x = conjunctive" if "x \<in> set xs" for x
  proof -
    have "de_matched (f x) \<noteq> None" using b that by blast
    then obtain c where "de_matched (f x) = Some c" by blast
    then show ?thesis using False child that by (cases "c = conjunctive") auto
  qed
  then show ?thesis using b by auto
qed

lemma evaluate_sound:
  "agrees membership v \<Longrightarrow> expression_leaves e \<subseteq> {..< length membership} \<Longrightarrow>
     de_matched (evaluate e membership) = Some b \<Longrightarrow> truth e v = b"
proof (induction e arbitrary: b)
  case (T_And children)
  have "\<And>x b. x \<in> set children \<Longrightarrow> de_matched (evaluate x membership) = Some b \<Longrightarrow> truth x v = b"
    using T_And by (auto simp: SUP_le_iff)
  from combine_sound [OF T_And.prems(3) [simplified] this] show ?case by (simp add: list_all_iff)
next
  case (T_Or children)
  have "\<And>x b. x \<in> set children \<Longrightarrow> de_matched (evaluate x membership) = Some b \<Longrightarrow> truth x v = b"
    using T_Or by (auto simp: SUP_le_iff)
  from combine_sound [OF T_Or.prems(3) [simplified] this] show ?case by (simp add: list_ex_iff)
qed (auto simp: agrees_def Let_def split: if_splits)

text \<open>When every membership is known, so is the decision.\<close>

lemma combine_decided:
  "\<forall>d \<in> set ds. de_matched d \<noteq> None \<Longrightarrow> de_matched (combine conjunctive ds) \<noteq> None"
  by (auto simp: combine_def Let_def list_ex_iff)

lemma evaluate_decided:
  "None \<notin> set membership \<Longrightarrow> expression_leaves e \<subseteq> {..< length membership} \<Longrightarrow>
     de_matched (evaluate e membership) \<noteq> None"
proof (induction e)
  case (T_Leaf i)
  then have "membership ! i \<in> set membership" by simp
  then have "membership ! i \<noteq> None" using T_Leaf(1) by metis
  then show ?case by simp
next
  case (T_And children)
  then have "\<forall>d \<in> set (map (\<lambda>c. evaluate c membership) children). de_matched d \<noteq> None" by (auto simp: SUP_le_iff)
  then show ?case using combine_decided by simp
next
  case (T_Or children)
  then have "\<forall>d \<in> set (map (\<lambda>c. evaluate c membership) children). de_matched d \<noteq> None" by (auto simp: SUP_le_iff)
  then show ?case using combine_decided by simp
qed (auto simp: Let_def split: if_splits)

text \<open>The leaves of a match are leaves that match.\<close>

lemma evaluate_leaves:
  "i \<in> set (de_leaves (evaluate e membership)) \<Longrightarrow> membership ! i = Some True \<and> i \<in> expression_leaves e"
proof (induction e)
  case (T_And children)
  then show ?case by (fastforce simp: combine_def Let_def split: if_splits)
next
  case (T_Or children)
  then show ?case by (fastforce simp: combine_def Let_def split: if_splits)
next
  case (T_Optional required optional)
  then show ?case by (fastforce simp: Let_def split: if_splits)
qed (auto split: if_splits)

section \<open>What a search expression means for a record\<close>

definition full_source :: "engine \<Rightarrow> string \<Rightarrow> trace_source" where
  "full_source en text = \<lparr>so_field = [], so_value_index = 0, so_analyzed = en_index_analyzer en text,
     so_surface = en_surface_index_analyzer en text, so_utf16 = None, so_analyzed_truncated = False,
     so_surface_truncated = False\<rparr>"

definition full_sources :: "engine \<Rightarrow> string set \<Rightarrow> trace_record \<Rightarrow> trace_source list" where
  "full_sources en names r =
     concat (map (\<lambda>(field, texts). if field \<in> names then map (full_source en) texts else []) (tr_fields r))"

definition clause_holds :: "engine \<Rightarrow> trace_record \<Rightarrow> bool \<Rightarrow> search_clause \<Rightarrow> bool" where
  "clause_holds en r analyzed_fuzzy clause = (case (trace_plan en clause, selected_fields en (cl_fields clause)) of
     (Ok plan, Ok selected) \<Rightarrow>
       plan_holds (en_fuzzy_query en) plan analyzed_fuzzy (full_sources en (set (map ef_name selected)) r)
   | _ \<Rightarrow> False)"

fun holds :: "engine \<Rightarrow> trace_record \<Rightarrow> bool \<Rightarrow> search_expression \<Rightarrow> bool" where
  "holds en r negative (Clause clause) = clause_holds en r negative clause"
| "holds en r negative (AndE children) = list_all (holds en r negative) children"
| "holds en r negative (OrE children) = list_ex (holds en r negative) children"
| "holds en r negative (NotE child) = (\<not> holds en r True child)"
| "holds en r negative (Boost boost child) = holds en r negative child"
| "holds en r negative (Optional required optional) = holds en r negative required"

text \<open>Token streams as the tokenizers of the engine emit them.\<close>

definition wf_tokenizers :: "engine \<Rightarrow> bool" where
  "wf_tokenizers en \<longleftrightarrow>
     (\<forall>text. sorted_wrt (<) (map tk_position (en_analyzer en text)) \<and>
       ''__prefix'' \<notin> tk_text ` set (en_analyzer en text) \<and> sorted (map tk_position (en_index_analyzer en text))) \<and>
     en_index_analyzer en [] = [] \<and> en_surface_index_analyzer en [] = []"

subsection \<open>Plans are well-formed\<close>

lemma analyze_loop_distinct:
  "analyze_loop en True seen terms tokens = Ok r \<Longrightarrow> distinct terms \<Longrightarrow> set terms = set seen \<Longrightarrow> distinct r"
  by (induction tokens arbitrary: seen terms) (auto split: if_splits)

lemma analyze_distinct: "analyze en text surface True = Ok r \<Longrightarrow> distinct r"
  using analyze_loop_distinct [of en "[]" "[]"] by (simp add: analyze_def)

lemma positioned_loop_eq:
  "positioned_loop en terms tokens = Ok r \<Longrightarrow> r = terms @ map (\<lambda>t. (tk_position t, tk_text t)) tokens"
proof (induction tokens arbitrary: terms)
  case (Cons token tokens)
  then show ?case using Cons.IH [of "terms @ [(tk_position token, tk_text token)]"] by (simp add: Let_def split: if_splits)
qed simp

lemma completed_terms_props:
  "distinct (completed_terms n seen terms) \<and> set (completed_terms n seen terms) \<inter> set seen = {} \<and>
     set (completed_terms n seen terms) \<subseteq> snd ` set terms"
  by (induction n seen terms rule: completed_terms.induct) auto

lemma trace_plan_wf:
  assumes "wf_tokenizers en" "trace_plan en clause = Ok plan"
  shows "wf_plan plan"
proof (cases plan)
  case (Plan_All terms)
  then show ?thesis using assms(2) analyze_distinct
    by (auto simp: trace_plan_def wf_plan_def and_then_Ok_iff Let_def split: search_mode.splits if_splits)
next
  case (Plan_Phrase terms)
  then have "analyze_positioned en (cl_text clause) = Ok terms" using assms(2)
    by (auto simp: trace_plan_def and_then_Ok_iff Let_def split: search_mode.splits if_splits)
  then have "terms = map (\<lambda>t. (tk_position t, tk_text t)) (en_analyzer en (cl_text clause))"
    using positioned_loop_eq by (fastforce simp: analyze_positioned_def)
  then show ?thesis using assms(1) Plan_Phrase by (simp add: wf_plan_def wf_tokenizers_def comp_def)
next
  case (Plan_Prefix completed start m)
  then obtain names t where f: "final_surface_term en (cl_text clause) = Ok (names, t)" "completed = terms_from names"
    using assms(2) by (auto simp: trace_plan_def and_then_Ok_iff Let_def split: search_mode.splits if_splits)
  have "distinct names \<and> ''__prefix'' \<notin> set names"
  proof (cases "rev (en_final_analyzer en (cl_text clause))")
    case Nil
    then show ?thesis using f(1) by (simp add: final_surface_term_def)
  next
    case (Cons token rest)
    then obtain terms where t: "analyze_positioned en (cl_text clause) = Ok terms"
        "names = completed_terms (tk_position token) [] terms"
      using f(1) by (auto simp: final_surface_term_def and_then_Ok_iff split: if_splits)
    have "terms = map (\<lambda>t. (tk_position t, tk_text t)) (en_analyzer en (cl_text clause))"
      using t(1) positioned_loop_eq by (fastforce simp: analyze_positioned_def)
    then have "snd ` set terms = tk_text ` set (en_analyzer en (cl_text clause))" by (simp add: image_image)
    then have "''__prefix'' \<notin> snd ` set terms" using assms(1) unfolding wf_tokenizers_def by metis
    then show ?thesis using t(2) completed_terms_props [of "tk_position token" "[]" terms] by auto
  qed
  then show ?thesis using f(2) Plan_Prefix by (simp add: wf_plan_def)
qed (simp_all add: wf_plan_def)

subsection \<open>Leaves\<close>

definition leaf_holds :: "engine \<Rightarrow> trace_record \<Rightarrow> trace_leaf \<Rightarrow> bool" where
  "leaf_holds en r leaf =
     plan_holds (en_fuzzy_query en) (lf_plan leaf) (lf_analyzed_fuzzy leaf) (full_sources en (lf_fields leaf) r)"

definition prepared :: "engine \<Rightarrow> trace_leaf list \<Rightarrow> trace_leaf list \<Rightarrow> bool" where
  "prepared en leaves leaves' \<longleftrightarrow>
     (\<exists>new. leaves' = leaves @ new \<and> (\<forall>leaf \<in> set new. \<exists>clause. trace_plan en clause = Ok (lf_plan leaf)))"

lemma prepared_trans: "prepared en a b \<Longrightarrow> prepared en b c \<Longrightarrow> prepared en a c"
  unfolding prepared_def by (auto simp: ball_Un)

lemma prepared_length: "prepared en a b \<Longrightarrow> length a \<le> length b"
  by (auto simp: prepared_def)

definition leaf_values :: "engine \<Rightarrow> trace_record \<Rightarrow> trace_leaf list \<Rightarrow> nat \<Rightarrow> bool" where
  "leaf_values en r leaves i = leaf_holds en r (leaves ! i)"

lemma truth_cong: "(\<And>i. i \<in> expression_leaves t \<Longrightarrow> v i = w i) \<Longrightarrow> truth t v = truth t w"
proof (induction t)
  case (T_And ts)
  have "truth c v = truth c w" if "c \<in> set ts" for c by (rule T_And.IH [OF that]) (use T_And.prems that in auto)
  then show ?case by (simp add: list_all_iff)
next
  case (T_Or ts)
  have "truth c v = truth c w" if "c \<in> set ts" for c by (rule T_Or.IH [OF that]) (use T_Or.prems that in auto)
  then show ?case by (simp add: list_ex_iff)
qed auto

lemma prepared_truth:
  assumes "prepared en a b" "expression_leaves t \<subseteq> {..< length a}"
  shows "truth t (leaf_values en r b) = truth t (leaf_values en r a)"
  using assms by (intro truth_cong) (auto simp: prepared_def leaf_values_def nth_append)

lemma prepare_clause_holds:
  assumes "prepare_clause en clause negative (leaves, budget) = Ok (t, leaves', budget')"
  shows "prepared en leaves leaves' \<and> expression_leaves t \<subseteq> {..< length leaves'} \<and>
    truth t (leaf_values en r leaves') = clause_holds en r negative clause"
proof -
  obtain selected plan where p: "selected_fields en (cl_fields clause) = Ok selected" "trace_plan en clause = Ok plan"
      "t = T_Leaf (length leaves)"
      "leaves' = leaves @ [\<lparr>lf_plan = plan, lf_fields = set (map ef_name selected), lf_analyzed_fuzzy = negative\<rparr>]"
    using assms by (auto simp: prepare_clause_def and_then_Ok_iff)
  then show ?thesis by (auto simp: prepared_def leaf_values_def leaf_holds_def clause_holds_def nth_append)
qed

lemma map_eq_list_all: "map f xs = map g ys \<Longrightarrow> list_all f xs = list_all g ys \<and> list_ex f xs = list_ex g ys"
proof (induction xs arbitrary: ys)
  case (Cons x xs)
  then show ?case by (cases ys) auto
qed simp

lemma prepare_holds:
  "prepare en e negative (leaves, budget) = Ok (t, leaves', budget') \<Longrightarrow>
     prepared en leaves leaves' \<and> expression_leaves t \<subseteq> {..< length leaves'} \<and>
     truth t (leaf_values en r leaves') = holds en r negative e"
  "prepare_list en es negative (leaves, budget) = Ok (ts, leaves', budget') \<Longrightarrow>
     prepared en leaves leaves' \<and> \<Union> (expression_leaves ` set ts) \<subseteq> {..< length leaves'} \<and>
     map (\<lambda>t. truth t (leaf_values en r leaves')) ts = map (holds en r negative) es"
proof (induction en e negative "(leaves, budget)" and en es negative "(leaves, budget)"
    arbitrary: leaves budget t leaves' budget' and leaves budget ts leaves' budget' rule: prepare_prepare_list.induct)
  case (1 en clause negative)
  then show ?case using prepare_clause_holds by simp
next
  case (2 en children negative)
  then obtain ts where ts: "prepare_list en children negative (leaves, budget) = Ok (ts, leaves', budget')" "t = T_And ts"
    by (auto simp: and_then_Ok_iff)
  note h = 2(1) [OF ts(1)]
  then show ?case using map_eq_list_all [OF h [THEN conjunct2, THEN conjunct2]] ts(2) by simp
next
  case (3 en children negative)
  then obtain ts where ts: "prepare_list en children negative (leaves, budget) = Ok (ts, leaves', budget')" "t = T_Or ts"
    by (auto simp: and_then_Ok_iff)
  note h = 3(1) [OF ts(1)]
  then show ?case using map_eq_list_all [OF h [THEN conjunct2, THEN conjunct2]] ts(2) by simp
next
  case (4 en child negative)
  then obtain u where u: "prepare en child True (leaves, budget) = Ok (u, leaves', budget')" "t = T_Not u"
    by (auto simp: and_then_Ok_iff)
  then show ?case using 4(1) [OF u(1)] by simp
next
  case (5 en boost child negative)
  then show ?case by simp
next
  case (6 en required optional negative)
  then obtain u l b ts where u: "prepare en required negative (leaves, budget) = Ok (u, l, b)"
      "prepare_list en optional negative (l, b) = Ok (ts, leaves', budget')" "t = T_Optional u ts"
    by (auto simp: and_then_Ok_iff)
  note p = 6(1) [OF u(1)] 6(2) [OF u(1) refl u(2)]
  note p1 = p(1) [THEN conjunct1] p(1) [THEN conjunct2, THEN conjunct1] and p2 = p(2) [THEN conjunct1]
  have "prepared en leaves leaves'" by (rule prepared_trans [OF p1(1) p2])
  moreover have "truth u (leaf_values en r leaves') = truth u (leaf_values en r l)" by (rule prepared_truth [OF p2 p1(2)])
  moreover have "expression_leaves u \<subseteq> {..< length leaves'}"
    using p1(2) prepared_length [OF p2] by (meson lessThan_subset_iff subset_trans)
  ultimately show ?case using u(3) p by simp
next
  case (7 en negative)
  then show ?case by (simp add: prepared_def)
next
  case (8 en child children negative)
  then obtain u l b us where u: "prepare en child negative (leaves, budget) = Ok (u, l, b)"
      "prepare_list en children negative (l, b) = Ok (us, leaves', budget')" "ts = u # us"
    by (auto simp: and_then_Ok_iff)
  note p = 8(1) [OF u(1)] 8(2) [OF u(1) refl u(2)]
  note p1 = p(1) [THEN conjunct1] p(1) [THEN conjunct2, THEN conjunct1] and p2 = p(2) [THEN conjunct1]
  have "prepared en leaves leaves'" by (rule prepared_trans [OF p1(1) p2])
  moreover have "truth u (leaf_values en r leaves') = truth u (leaf_values en r l)" by (rule prepared_truth [OF p2 p1(2)])
  moreover have "expression_leaves u \<subseteq> {..< length leaves'}"
    using p1(2) prepared_length [OF p2] by (meson lessThan_subset_iff subset_trans)
  ultimately show ?case using u(3) p by simp
qed

section \<open>The evaluation of expressions\<close>

text \<open>
  C32. The three-valued evaluation of a search expression is right: when every known membership of a
  leaf agrees with a valuation, a decision is the truth of the expression under it; when all
  memberships are known, there is a decision; and the leaves whose spans are then collected are
  leaves of the expression that match.
\<close>

theorem evaluate_exact:
  assumes "agrees membership v" "expression_leaves e \<subseteq> {..< length membership}"
  shows "(de_matched (evaluate e membership) = Some b \<longrightarrow> truth e v = b) \<and>
    (None \<notin> set membership \<longrightarrow> de_matched (evaluate e membership) = Some (truth e v)) \<and>
    (i \<in> set (de_leaves (evaluate e membership)) \<longrightarrow> i \<in> expression_leaves e \<and> v i)"
proof (intro conjI impI)
  show "truth e v = b" if "de_matched (evaluate e membership) = Some b" using evaluate_sound [OF assms that] .
  show "de_matched (evaluate e membership) = Some (truth e v)" if "None \<notin> set membership"
    using evaluate_decided [OF that assms(2)] evaluate_sound [OF assms] by auto
  assume i: "i \<in> set (de_leaves (evaluate e membership))"
  show "i \<in> expression_leaves e" using evaluate_leaves [OF i] by simp
  then show "v i" using evaluate_leaves [OF i] assms by (auto simp: agrees_def)
qed

theorem evaluate_exact_witness:
  "de_matched (evaluate (T_Or [T_Leaf 0, T_And [T_Leaf 1, T_Not (T_Leaf 2)]]) [None, Some True, Some False]) = Some True \<and>
   truth (T_Or [T_Leaf 0, T_And [T_Leaf 1, T_Not (T_Leaf 2)]]) (\<lambda>i. i = 1)"
proof -
  have m: "de_matched (evaluate (T_Or [T_Leaf 0, T_And [T_Leaf 1, T_Not (T_Leaf 2)]]) [None, Some True, Some False]) = Some True"
    by (simp add: combine_def)
  have "agrees [None, Some True, Some False] (\<lambda>i. i = 1)" by (auto simp: agrees_def less_Suc_eq nth_Cons')
  then show ?thesis
    using evaluate_exact [of "[None, Some True, Some False]" "\<lambda>i. i = 1" "T_Or [T_Leaf 0, T_And [T_Leaf 1, T_Not (T_Leaf 2)]]" True 0] m
    by simp
qed

end
