(* ===== verification/Trace_Decide.thy ===== *)
theory Trace_Decide
  imports Trace_Correct
begin

text \<open>
  Every decided membership of a trace is the truth of the search expression on the whole record.
  The tokens that a trace looks at are a part of the tokens of the record, which is enough for a
  match; and they are all of them when nothing was cut off, which is what a rejection needs.
\<close>

section \<open>Parts of a source\<close>

definition covered :: "trace_plan \<Rightarrow> bool \<Rightarrow> trace_source \<Rightarrow> trace_source \<Rightarrow> bool" where
  "covered plan af s f \<longleftrightarrow> set (so_analyzed s) \<subseteq> set (so_analyzed f) \<and>
     (needs_surface plan af \<longrightarrow> set (so_surface s) \<subseteq> set (so_surface f))"

definition empty_source :: "trace_plan \<Rightarrow> bool \<Rightarrow> trace_source \<Rightarrow> bool" where
  "empty_source plan af s \<longleftrightarrow> so_analyzed s = [] \<and> (needs_surface plan af \<longrightarrow> so_surface s = [])"

definition covers :: "trace_plan \<Rightarrow> bool \<Rightarrow> trace_source list \<Rightarrow> trace_source list \<Rightarrow> bool" where
  "covers plan af sources fulls \<longleftrightarrow>
     (\<forall>s \<in> set sources. empty_source plan af s \<or> (\<exists>f \<in> set fulls. covered plan af s f))"

lemma covers_texts: "covers plan af sources fulls \<Longrightarrow> \<Union> (source_texts ` set sources) \<subseteq> \<Union> (source_texts ` set fulls)"
  unfolding covers_def covered_def empty_source_def source_texts_def by fastforce

lemma phrase_in_mono: "phrase_in terms ts \<Longrightarrow> set ts \<subseteq> set us \<Longrightarrow> phrase_in terms us"
  unfolding phrase_in_def by fastforce

lemma fuzzy_at_mono: "fuzzy_at query exact fuzzy a \<Longrightarrow> a \<subseteq> b \<Longrightarrow> fuzzy_at query exact fuzzy b"
  unfolding fuzzy_at_def by blast

lemma fuzzy_in_mono:
  assumes "fuzzy_in query exact fuzzy af s" "covered (Plan_Fuzzy exact fuzzy) af s f"
  shows "fuzzy_in query exact fuzzy af f"
proof (cases af)
  case True
  then show ?thesis using assms by (auto simp: fuzzy_in_def covered_def)
next
  case False
  then have sub: "set (so_analyzed s) \<subseteq> set (so_analyzed f)" "set (so_surface s) \<subseteq> set (so_surface f)"
    using assms(2) by (auto simp: covered_def needs_surface_def)
  obtain token where t: "token \<in> set (so_surface s)"
      "fuzzy_at query exact fuzzy {tk_text t |t. t \<in> set (so_analyzed s) \<and> tk_position t = tk_position token} \<or>
        (\<exists>t \<in> set fuzzy. close_surface query t (tk_text token))"
    using assms(1) False by (auto simp: fuzzy_in_def)
  have "{tk_text t |t. t \<in> set (so_analyzed s) \<and> tk_position t = tk_position token}
      \<subseteq> {tk_text t |t. t \<in> set (so_analyzed f) \<and> tk_position t = tk_position token}" using sub(1) by blast
  then have "fuzzy_at query exact fuzzy {tk_text t |t. t \<in> set (so_analyzed f) \<and> tk_position t = tk_position token} \<or>
      (\<exists>t \<in> set fuzzy. close_surface query t (tk_text token))" using t(2) fuzzy_at_mono by blast
  then show ?thesis using t(1) sub(2) False unfolding fuzzy_in_def by auto
qed

lemma empty_source_fails:
  "empty_source (Plan_Fuzzy exact fuzzy) af s \<Longrightarrow> \<not> fuzzy_in query exact fuzzy af s"
  "empty_source (Plan_Prefix completed start m) af s \<Longrightarrow> \<not> prefix_in query start m s"
  by (auto simp: empty_source_def fuzzy_in_def prefix_in_def needs_surface_def split: if_splits)

lemma empty_phrase: "empty_source plan af s \<Longrightarrow> terms \<noteq> [] \<Longrightarrow> \<not> phrase_in terms (so_analyzed s)"
  by (cases terms) (auto simp: empty_source_def phrase_in_def)

lemma plan_holds_mono:
  assumes c: "covers plan af sources fulls" and h: "plan_holds query plan af sources"
  shows "plan_holds query plan af fulls"
proof (cases plan)
  case (Plan_Any terms)
  then show ?thesis using h covers_texts [OF c] unfolding plan_holds_def by (simp add: disjoint_iff) blast
next
  case (Plan_All terms)
  then show ?thesis using h subset_trans [OF _ covers_texts [OF c]] by (simp add: plan_holds_def)
next
  case (Plan_Phrase terms)
  then obtain s where s: "s \<in> set sources" "phrase_in terms (so_analyzed s)" "terms \<noteq> []" using h by (auto simp: plan_holds_def)
  then obtain f where "f \<in> set fulls" "covered plan af s f" using c empty_phrase unfolding covers_def by blast
  then show ?thesis using s phrase_in_mono Plan_Phrase by (auto simp: plan_holds_def covered_def)
next
  case (Plan_Prefix completed start m)
  then obtain s where s: "s \<in> set sources" "prefix_in query start m s" using h by (auto simp: plan_holds_def)
  then obtain f where f: "f \<in> set fulls" "covered plan af s f" using c empty_source_fails(2) Plan_Prefix unfolding covers_def by blast
  then have "prefix_in query start m f" using s(2) Plan_Prefix by (auto simp: prefix_in_def covered_def needs_surface_def)
  then have "\<exists>f \<in> set fulls. prefix_in query start m f" using f(1) by blast
  then show ?thesis using h subset_trans [OF _ covers_texts [OF c]] Plan_Prefix by (simp add: plan_holds_def)
next
  case (Plan_Fuzzy exact fuzzy)
  then obtain s where s: "s \<in> set sources" "fuzzy_in query exact fuzzy af s" using h by (auto simp: plan_holds_def)
  then obtain f where "f \<in> set fulls" "covered plan af s f" using c empty_source_fails(1) Plan_Fuzzy unfolding covers_def by blast
  then have "\<exists>f \<in> set fulls. fuzzy_in query exact fuzzy af f" using fuzzy_in_mono s(2) Plan_Fuzzy by blast
  then show ?thesis using Plan_Fuzzy by (simp add: plan_holds_def)
qed

lemma source_loop_prefix:
  "source_loop stream n tokens p = Ok ((result, truncated), p') \<Longrightarrow>
     \<exists>k. result = tokens @ take k stream \<and> (\<not> truncated \<longrightarrow> result = tokens @ stream)"
proof (induction stream arbitrary: n tokens p)
  case (Cons token stream)
  show ?case
  proof (cases "n = MAX_TRACE_TOKENS_PER_VALUE")
    case True
    then have "result = tokens \<and> truncated" using Cons.prems by (auto simp: and_then_Ok_iff split: if_splits)
    then show ?thesis by (intro exI [of _ 0]) simp
  next
    case False
    then obtain q where "source_loop stream (n + 1) (tokens @ [token]) q = Ok ((result, truncated), p')"
      using Cons.prems by (auto simp: and_then_Ok_iff split: if_splits)
    from Cons.IH [OF this] obtain k where "result = (tokens @ [token]) @ take k stream" "\<not> truncated \<longrightarrow> result = (tokens @ [token]) @ stream" by blast
    then show ?thesis by (intro exI [of _ "Suc k"]) simp
  qed
qed simp

lemma source_tokens_prefix:
  "source_tokens analyzer text p = Ok ((tokens, truncated), p') \<Longrightarrow>
     \<exists>k. tokens = take k (analyzer text) \<and> (\<not> truncated \<longrightarrow> tokens = analyzer text)"
  using source_loop_prefix [of "analyzer text" 0 "[]"] by (simp add: source_tokens_def)

lemma sorted_take_positions: "sorted (map tk_position ts) \<Longrightarrow> sorted (map tk_position (take k ts))"
  by (metis sorted_wrt_take take_map)

section \<open>A clause\<close>

text \<open>
  Values traced so far: what was found at which sources, which whole values the sources are parts
  of, and that nothing was cut off unless the state says so.
\<close>

definition traced :: "fuzzy_query \<Rightarrow> trace_plan \<Rightarrow> bool \<Rightarrow> string set \<Rightarrow> bool \<Rightarrow> trace_source list \<Rightarrow> bool" where
  "traced query plan af found clipped fulls \<longleftrightarrow> (\<exists>founds sources. found = \<Union> (set founds) \<and>
     list_all2 (\<lambda>a s. settles plan a (facts query plan af s)) founds sources \<and>
     list_all2 (covered plan af) sources fulls \<and> (\<not> clipped \<longrightarrow> list_all2 (covered plan af) fulls sources))"

lemma traced_empty: "traced query plan af {} False []"
  unfolding traced_def by (intro exI [of _ "[]"]) auto

lemma traced_append:
  assumes "traced query plan af found clipped fulls" "settles plan a (facts query plan af s)"
    "covered plan af s f" "\<not> c \<longrightarrow> covered plan af f s"
  shows "traced query plan af (found \<union> a) (clipped \<or> c) (fulls @ [f])"
proof -
  obtain founds sources where t: "found = \<Union> (set founds)" "list_all2 (\<lambda>a s. settles plan a (facts query plan af s)) founds sources"
     "list_all2 (covered plan af) sources fulls" "\<not> clipped \<longrightarrow> list_all2 (covered plan af) fulls sources"
    using assms(1) unfolding traced_def by blast
  show ?thesis unfolding traced_def
    by (intro exI [of _ "founds @ [a]"] exI [of _ "sources @ [s]"])
      (use t assms(2-4) in \<open>auto intro!: list_all2_appendI\<close>)
qed

lemma list_all2_covers: "list_all2 (covered plan af) sources fulls \<Longrightarrow> covers plan af sources fulls"
  unfolding covers_def by (metis list_all2_conv_all_nth in_set_conv_nth)

lemma traced_decides:
  assumes "traced query plan af found clipped fulls" "wf_plan plan"
  shows "record_matches plan found \<Longrightarrow> plan_holds query plan af fulls"
    and "\<not> record_matches plan found \<Longrightarrow> \<not> clipped \<Longrightarrow> \<not> plan_holds query plan af fulls"
proof -
  obtain founds sources where t: "found = \<Union> (set founds)" "list_all2 (\<lambda>a s. settles plan a (facts query plan af s)) founds sources"
     "list_all2 (covered plan af) sources fulls" "\<not> clipped \<longrightarrow> list_all2 (covered plan af) fulls sources"
    using assms(1) unfolding traced_def by blast
  note d = settled_union [OF assms(2) t(2)]
  show "plan_holds query plan af fulls" if "record_matches plan found"
    using that d t(1,3) plan_holds_mono list_all2_covers by blast
  show "\<not> plan_holds query plan af fulls" if "\<not> record_matches plan found" "\<not> clipped"
    using that d t(1,4) plan_holds_mono list_all2_covers by blast
qed

lemma trace_value_source:
  assumes "trace_value en plan text max_spans p = Ok (outcome, p')" "wf_plan plan" "wf_tokenizers en"
  shows "\<exists>s. settles plan (to_found outcome) (facts (en_fuzzy_query en) plan False s) \<and>
    covered plan False s (full_source en text) \<and>
    (\<not> to_analysis_truncated outcome \<longrightarrow> covered plan False (full_source en text) s)"
proof -
  obtain analyzed ac q surface sc r where
    a: "source_tokens (en_index_analyzer en) text p = Ok ((analyzed, ac), q)" and
    s: "(if needs_surface plan False then source_tokens (en_surface_index_analyzer en) text q else Ok (([], False), q)) =
      Ok ((surface, sc), r)" and
    t: "trace_tokens (en_fuzzy_query en) plan
       \<lparr>so_field = [], so_value_index = 0, so_analyzed = analyzed, so_surface = surface,
        so_utf16 = utf16_offsets text, so_analyzed_truncated = ac, so_surface_truncated = sc\<rparr> max_spans False r = Ok (outcome, p')"
    (is "trace_tokens _ _ ?s _ _ _ = _")
    using assms(1) by (auto simp: trace_value_def and_then_Ok_iff)
  obtain k where k: "analyzed = take k (en_index_analyzer en text)" "\<not> ac \<longrightarrow> analyzed = en_index_analyzer en text"
    using source_tokens_prefix [OF a] by blast
  have "wf_source ?s" using assms(3) k(1) sorted_take_positions [of "en_index_analyzer en text" k] by (simp add: wf_source_def wf_tokenizers_def)
  then have "settles plan (to_found outcome) (facts (en_fuzzy_query en) plan False ?s)"
    using trace_tokens_settled [OF t assms(2)] by blast
  moreover have "to_analysis_truncated outcome = (ac \<or> needs_surface plan False \<and> sc)"
    using t by (auto simp: trace_tokens_def Let_def and_then_Ok_iff)
  moreover have "needs_surface plan False \<Longrightarrow> \<exists>k. surface = take k (en_surface_index_analyzer en text) \<and>
      (\<not> sc \<longrightarrow> surface = en_surface_index_analyzer en text)"
    using s source_tokens_prefix by (auto split: if_splits)
  ultimately show ?thesis
    using k by (intro exI [of _ ?s]) (auto simp: covered_def full_source_def dest: in_set_takeD)
qed

lemma value_loop_traced:
  assumes "wf_plan plan" "wf_tokenizers en"
  shows "value_loop en plan field i texts (st, p) = Ok (st', p') \<Longrightarrow>
    traced (en_fuzzy_query en) plan False (va_found st) (va_analysis_truncated st) fulls \<Longrightarrow>
    traced (en_fuzzy_query en) plan False (va_found st') (va_analysis_truncated st') (fulls @ map (full_source en) texts)"
proof (induction texts arbitrary: i st p fulls)
  case (Cons v vs)
  obtain q outcome q' where o: "trace_value en plan v (va_span_budget st) q = Ok (outcome, q')"
      "value_loop en plan field (i + 1) vs (note_value field i outcome st, q') = Ok (st', p')"
    using Cons.prems(1) by (auto simp: and_then_Ok_iff)
  obtain s where s: "settles plan (to_found outcome) (facts (en_fuzzy_query en) plan False s)"
      "covered plan False s (full_source en v)" "\<not> to_analysis_truncated outcome \<longrightarrow> covered plan False (full_source en v) s"
    using trace_value_source [OF o(1) assms] by blast
  have "va_found (note_value field i outcome st) = va_found st \<union> to_found outcome"
    "va_analysis_truncated (note_value field i outcome st) = (va_analysis_truncated st \<or> to_analysis_truncated outcome)"
    by (simp_all add: note_value_def Let_def)
  then have "traced (en_fuzzy_query en) plan False (va_found (note_value field i outcome st))
      (va_analysis_truncated (note_value field i outcome st)) (fulls @ [full_source en v])"
    using traced_append [OF Cons.prems(2) s] by simp
  from Cons.IH [OF o(2) this] show ?case by simp
qed simp

lemma field_loop_traced:
  assumes "wf_plan plan" "wf_tokenizers en"
  shows "field_loop en plan selected fs (st, p) = Ok (st', p') \<Longrightarrow>
    traced (en_fuzzy_query en) plan False (va_found st) (va_analysis_truncated st) fulls \<Longrightarrow>
    traced (en_fuzzy_query en) plan False (va_found st') (va_analysis_truncated st')
      (fulls @ concat (map (\<lambda>(field, texts). if field \<in> selected then map (full_source en) texts else []) fs))"
proof (induction fs arbitrary: st p fulls)
  case (Cons f fs)
  obtain field texts where f: "f = (field, texts)" by (cases f)
  show ?case
  proof (cases "field \<in> selected")
    case True
    then obtain st1 p1 where "value_loop en plan field 0 texts (st, p) = Ok (st1, p1)"
        "field_loop en plan selected fs (st1, p1) = Ok (st', p')"
      using Cons.prems(1) f by (auto simp: and_then_Ok_iff split: if_splits)
    then show ?thesis using Cons.IH value_loop_traced [OF assms _ Cons.prems(2)] f True by fastforce
  next
    case False
    then show ?thesis using Cons f by (auto split: if_splits)
  qed
qed simp

lemma field_loop_decides:
  assumes "field_loop en plan selected (tr_fields r) (value_start budget, p) = Ok (st, p')" "wf_plan plan" "wf_tokenizers en"
  shows "record_matches plan (va_found st) \<Longrightarrow> plan_holds (en_fuzzy_query en) plan False (full_sources en selected r)"
    and "\<not> record_matches plan (va_found st) \<Longrightarrow> \<not> va_analysis_truncated st \<Longrightarrow>
      \<not> plan_holds (en_fuzzy_query en) plan False (full_sources en selected r)"
proof -
  have "traced (en_fuzzy_query en) plan False (va_found st) (va_analysis_truncated st) (full_sources en selected r)"
    using field_loop_traced [OF assms(2,3,1), of "[]"] traced_empty by (simp add: value_start_def full_sources_def)
  note d = traced_decides [OF this assms(2)]
  show "record_matches plan (va_found st) \<Longrightarrow> plan_holds (en_fuzzy_query en) plan False (full_sources en selected r)" by (rule d(1))
  show "\<not> record_matches plan (va_found st) \<Longrightarrow> \<not> va_analysis_truncated st \<Longrightarrow>
      \<not> plan_holds (en_fuzzy_query en) plan False (full_sources en selected r)" by (rule d(2))
qed

section \<open>The sources of an expression\<close>

text \<open>The values of the selected fields, in order.\<close>

definition record_values :: "string set \<Rightarrow> (string \<times> string list) list \<Rightarrow> (string \<times> string) list" where
  "record_values selected fs =
     concat (map (\<lambda>(field, texts). if field \<in> selected then map (Pair field) texts else []) fs)"

definition part_of :: "engine \<Rightarrow> trace_source \<Rightarrow> string \<times> string \<Rightarrow> bool" where
  "part_of en s v \<longleftrightarrow> so_field s = fst v \<and> wf_source s \<and> set (so_analyzed s) \<subseteq> set (en_index_analyzer en (snd v)) \<and>
     set (so_surface s) \<subseteq> set (en_surface_index_analyzer en (snd v))"

definition whole_of :: "engine \<Rightarrow> string set \<Rightarrow> trace_source \<Rightarrow> string \<times> string \<Rightarrow> bool" where
  "whole_of en surface_fields s v \<longleftrightarrow> so_field s = fst v \<and>
     (\<not> so_analyzed_truncated s \<longrightarrow> so_analyzed s = en_index_analyzer en (snd v)) \<and>
     (fst v \<in> surface_fields \<and> \<not> so_surface_truncated s \<longrightarrow> so_surface s = en_surface_index_analyzer en (snd v))"

definition empty_value :: "engine \<Rightarrow> string set \<Rightarrow> string \<times> string \<Rightarrow> bool" where
  "empty_value en surface_fields v \<longleftrightarrow> en_index_analyzer en (snd v) = [] \<and>
     (fst v \<in> surface_fields \<longrightarrow> en_surface_index_analyzer en (snd v) = [])"

definition sources_ok :: "engine \<Rightarrow> string set \<Rightarrow> (string \<times> string) list \<Rightarrow> sources_state \<Rightarrow> bool" where
  "sources_ok en surface_fields vs ss \<longleftrightarrow>
     (\<forall>s \<in> set (ss_sources ss). \<exists>v \<in> set vs. part_of en s v) \<and>
     (\<forall>v \<in> set vs. fst v \<in> ss_missing ss \<or> empty_value en surface_fields v \<or>
       (\<exists>s \<in> set (ss_sources ss). whole_of en surface_fields s v))"

lemma cut_tokens_prefix:
  assumes "cut_tokens n (take k ts, c) = (us, d)" "\<not> c \<longrightarrow> take k ts = ts"
  shows "\<exists>m. us = take m ts \<and> (\<not> d \<longrightarrow> us = ts)"
  using assms by (auto simp: cut_tokens_def split: if_splits)

lemma source_value_ok:
  assumes "source_value en surface_fields field i v (ss, p) = Ok (ss', p')" "sources_ok en surface_fields vs ss" "wf_tokenizers en"
  shows "sources_ok en surface_fields (vs @ [(field, v)]) ss'"
proof (cases "length (ss_sources ss) = MAX_TRACE_EXPRESSION_VALUES \<or> ss_tokens ss = 0 \<and> v \<noteq> []")
  case True
  then have "ss' = ss\<lparr>ss_missing := insert field (ss_missing ss)\<rparr>" using assms(1) by (auto simp: source_value_def)
  then show ?thesis using assms(2) by (auto simp: sources_ok_def)
next
  case False
  obtain a ac q where a1: "source_tokens (en_index_analyzer en) v p = Ok ((a, ac), q)"
    using assms(1) False by (cases "source_tokens (en_index_analyzer en) v p") (auto simp: source_value_def)
  obtain analyzed atr where a2: "cut_tokens (ss_tokens ss) (a, ac) = (analyzed, atr)"
    by (cases "cut_tokens (ss_tokens ss) (a, ac)") auto
  note a = a1 a2
  define second where "second = (if field \<notin> surface_fields then Ok (([], False), q)
         else if ss_tokens ss - length analyzed = 0 then Ok (([], v \<noteq> []), q)
         else source_tokens (en_surface_index_analyzer en) v q)"
  have rest: "and_then second (\<lambda>(t, p).
          case cut_tokens (ss_tokens ss - length analyzed) t of (surface, surface_truncated) \<Rightarrow>
          let ss = ss\<lparr>ss_tokens := ss_tokens ss - length analyzed - length surface\<rparr>
          in Ok (if analyzed = [] \<and> surface = [] \<and> \<not> atr \<and> \<not> surface_truncated then ss
             else ss\<lparr>ss_sources := ss_sources ss @ [\<lparr>so_field = field, so_value_index = of_nat i, so_analyzed = analyzed,
               so_surface = surface, so_utf16 = utf16_offsets v, so_analyzed_truncated = atr,
               so_surface_truncated = surface_truncated\<rparr>]\<rparr>, p)) = Ok (ss', p')"
    using assms(1) False a unfolding source_value_def second_def by (simp only: prod.case if_False and_then_simps Let_def)
  obtain s sc r where s1: "second = Ok ((s, sc), r)" using rest by (cases second) auto
  obtain surface str where s2: "cut_tokens (ss_tokens ss - length analyzed) (s, sc) = (surface, str)"
    by (cases "cut_tokens (ss_tokens ss - length analyzed) (s, sc)") auto
  have ss': "ss' = (let ss = ss\<lparr>ss_tokens := ss_tokens ss - length analyzed - length surface\<rparr>
          in if analyzed = [] \<and> surface = [] \<and> \<not> atr \<and> \<not> str then ss
             else ss\<lparr>ss_sources := ss_sources ss @ [\<lparr>so_field = field, so_value_index = of_nat i, so_analyzed = analyzed,
               so_surface = surface, so_utf16 = utf16_offsets v, so_analyzed_truncated = atr, so_surface_truncated = str\<rparr>]\<rparr>)"
    using rest by (simp add: s1 s2 Let_def split: if_splits)
  note s = s1 [unfolded second_def] s2
  let ?s = "\<lparr>so_field = field, so_value_index = of_nat i, so_analyzed = analyzed, so_surface = surface,
    so_utf16 = utf16_offsets v, so_analyzed_truncated = atr, so_surface_truncated = str\<rparr> :: trace_source"
  obtain k where k: "a = take k (en_index_analyzer en v)" "\<not> ac \<longrightarrow> a = en_index_analyzer en v"
    using source_tokens_prefix [OF a(1)] by blast
  obtain m where m: "analyzed = take m (en_index_analyzer en v)" "\<not> atr \<longrightarrow> analyzed = en_index_analyzer en v"
    using cut_tokens_prefix [OF a(2) [unfolded k(1)] k(2) [unfolded k(1)]] by blast
  have surf: "\<exists>n. surface = take n (en_surface_index_analyzer en v) \<and>
      (field \<in> surface_fields \<and> \<not> str \<longrightarrow> surface = en_surface_index_analyzer en v)"
  proof (cases "field \<in> surface_fields \<and> ss_tokens ss - length analyzed \<noteq> 0")
    case True
    then have t: "source_tokens (en_surface_index_analyzer en) v q = Ok ((s, sc), r)" using s(1) by auto
    obtain k where k: "s = take k (en_surface_index_analyzer en v)" "\<not> sc \<longrightarrow> s = en_surface_index_analyzer en v"
      using source_tokens_prefix [OF t] by blast
    then show ?thesis
      using cut_tokens_prefix [OF s(2) [unfolded k(1)] k(2) [unfolded k(1)]] by blast
  next
    case False
    then have "s = []" "field \<in> surface_fields \<longrightarrow> sc = (v \<noteq> [])" using s(1) by (auto split: if_splits)
    then have "surface = []" "field \<in> surface_fields \<longrightarrow> str = (v \<noteq> [])" using s(2) by (auto simp: cut_tokens_def)
    then show ?thesis using assms(3) by (auto simp: wf_tokenizers_def intro!: exI [of _ 0])
  qed
  have "part_of en ?s (field, v)" "whole_of en surface_fields ?s (field, v)"
    using m surf assms(3) sorted_take_positions [of "en_index_analyzer en v" m]
    by (auto simp: part_of_def whole_of_def wf_source_def wf_tokenizers_def dest: in_set_takeD)
  moreover have "empty_value en surface_fields (field, v)" if "analyzed = []" "surface = []" "\<not> atr" "\<not> str"
    using that m surf by (auto simp: empty_value_def)
  ultimately show ?thesis using assms(2) unfolding ss' Let_def sources_ok_def by auto
qed

lemma source_values_ok:
  assumes "wf_tokenizers en"
  shows "source_values en surface_fields field i texts (ss, p) = Ok (ss', p') \<Longrightarrow> sources_ok en surface_fields vs ss \<Longrightarrow>
    sources_ok en surface_fields (vs @ map (Pair field) texts) ss'"
proof (induction texts arbitrary: i ss p vs)
  case (Cons v texts)
  then obtain ss1 p1 where "source_value en surface_fields field i v (ss, p) = Ok (ss1, p1)"
      "source_values en surface_fields field (i + 1) texts (ss1, p1) = Ok (ss', p')"
    by (auto simp: and_then_Ok_iff)
  then show ?case using Cons.IH source_value_ok [OF _ Cons.prems(2) assms] by fastforce
qed simp

lemma source_fields_ok:
  assumes "wf_tokenizers en"
  shows "source_fields en surface_fields selected fs (ss, p) = Ok (ss', p') \<Longrightarrow> sources_ok en surface_fields vs ss \<Longrightarrow>
    sources_ok en surface_fields (vs @ record_values selected fs) ss'"
proof (induction fs arbitrary: ss p vs)
  case (Cons f fs)
  obtain field texts where f: "f = (field, texts)" by (cases f)
  show ?case
  proof (cases "field \<in> selected")
    case True
    then obtain ss1 p1 where "source_values en surface_fields field 0 texts (ss, p) = Ok (ss1, p1)"
        "source_fields en surface_fields selected fs (ss1, p1) = Ok (ss', p')"
      using Cons.prems(1) f by (auto simp: and_then_Ok_iff split: if_splits)
    then show ?thesis using Cons.IH source_values_ok [OF assms _ Cons.prems(2)] f True by (fastforce simp: record_values_def)
  next
    case False
    then show ?thesis using Cons f by (auto simp: record_values_def split: if_splits)
  qed
qed (simp add: record_values_def)

section \<open>Membership\<close>

lemma turns_Cons_Stay:
  "turns step (x # xs) s = Ok (Stay s') \<longleftrightarrow> (\<exists>s1. step x s = Ok (Stay s1) \<and> turns step xs s1 = Ok (Stay s'))"
proof (cases "step x s")
  case (Ok t)
  then show ?thesis by (cases t) auto
qed simp

definition analysis_cut :: "trace_plan \<Rightarrow> bool \<Rightarrow> trace_source \<Rightarrow> bool" where
  "analysis_cut plan af s \<longleftrightarrow> so_analyzed_truncated s \<or> needs_surface plan af \<and> so_surface_truncated s"

lemma trace_tokens_cut:
  "trace_tokens query plan s max_spans af p = Ok (outcome, p') \<Longrightarrow> to_analysis_truncated outcome = analysis_cut plan af s"
  by (auto simp: trace_tokens_def Let_def and_then_Ok_iff analysis_cut_def)

definition leaf_sources :: "trace_leaf \<Rightarrow> trace_source list \<Rightarrow> trace_source set" where
  "leaf_sources leaf sources = {s \<in> set sources. so_field s \<in> lf_fields leaf}"

definition members :: "engine \<Rightarrow> trace_leaf \<Rightarrow> trace_source list \<Rightarrow> string set \<Rightarrow> bool \<Rightarrow> bool" where
  "members en leaf sources found unknown \<longleftrightarrow> (\<exists>ps founds. set ps \<subseteq> leaf_sources leaf sources \<and> found = \<Union> (set founds) \<and>
     list_all2 (\<lambda>a s. settles (lf_plan leaf) a (facts (en_fuzzy_query en) (lf_plan leaf) (lf_analyzed_fuzzy leaf) s)) founds ps \<and>
     (\<not> unknown \<longrightarrow> leaf_sources leaf sources \<subseteq> set ps \<and>
       (\<forall>s \<in> set ps. \<not> analysis_cut (lf_plan leaf) (lf_analyzed_fuzzy leaf) s)))"

lemma member_sources:
  assumes "wf_plan (lf_plan leaf)" "\<forall>s \<in> set sources. wf_source s"
  shows "turns (member_source en progress leaf) sources (me, p) = Ok (Stay (me', p')) \<Longrightarrow>
    members en leaf before (me_found me) (me_unknown me) \<Longrightarrow>
    members en leaf (before @ sources) (me_found me') (me_unknown me')"
  using assms(2)
proof (induction sources arbitrary: me p before)
  case (Cons s sources)
  obtain me1 p1 where step: "member_source en progress leaf s (me, p) = Ok (Stay (me1, p1))" and
    more: "turns (member_source en progress leaf) sources (me1, p1) = Ok (Stay (me', p'))"
    using Cons.prems(1) unfolding turns_Cons_Stay by auto
  obtain ps founds where b: "set ps \<subseteq> leaf_sources leaf before" "me_found me = \<Union> (set founds)"
    "list_all2 (\<lambda>a s. settles (lf_plan leaf) a (facts (en_fuzzy_query en) (lf_plan leaf) (lf_analyzed_fuzzy leaf) s)) founds ps"
    "\<not> me_unknown me \<longrightarrow> leaf_sources leaf before \<subseteq> set ps \<and>
       (\<forall>s \<in> set ps. \<not> analysis_cut (lf_plan leaf) (lf_analyzed_fuzzy leaf) s)"
    using Cons.prems(2) unfolding members_def by blast
  have "members en leaf (before @ [s]) (me_found me1) (me_unknown me1)"
  proof (cases "so_field s \<in> lf_fields leaf")
    case False
    then have "me1 = me" using step by (simp add: member_source_def)
    then show ?thesis unfolding members_def
      by (intro exI [of _ ps] exI [of _ founds]) (use b False in \<open>auto simp: leaf_sources_def\<close>)
  next
    case True
    show ?thesis
    proof (cases "me_work me < source_cost leaf s")
      case True
      then have "me1 = me\<lparr>me_exhausted := True, me_unknown := True\<rparr>"
        using step \<open>so_field s \<in> lf_fields leaf\<close> by (simp add: member_source_def split: if_splits)
      then show ?thesis unfolding members_def
        by (intro exI [of _ ps] exI [of _ founds]) (use b in \<open>auto simp: leaf_sources_def\<close>)
    next
      case False
      then obtain outcome where o: "trace_tokens (en_fuzzy_query en) (lf_plan leaf) s 0 (lf_analyzed_fuzzy leaf) p = Ok (outcome, p1)"
          "me_found me1 = me_found me \<union> to_found outcome" "me_unknown me1 = (me_unknown me \<or> to_analysis_truncated outcome)"
        using step True by (auto simp: member_source_def and_then_Ok_iff)
      have st: "settles (lf_plan leaf) (to_found outcome) (facts (en_fuzzy_query en) (lf_plan leaf) (lf_analyzed_fuzzy leaf) s)"
        using trace_tokens_settled [OF o(1) assms(1)] Cons.prems(3) by simp
      show ?thesis unfolding members_def
        by (intro exI [of _ "ps @ [s]"] exI [of _ "founds @ [to_found outcome]"])
          (use b o st True trace_tokens_cut [OF o(1)] in \<open>auto simp: leaf_sources_def intro!: list_all2_appendI\<close>)
    qed
  qed
  from Cons.IH [OF more this] Cons.prems(3) show ?case by simp
qed simp

lemma leaf_membership:
  assumes "sources_ok en surface_fields (record_values selected (tr_fields r)) ss" "wf_plan (lf_plan leaf)"
    and leaf: "lf_fields leaf \<subseteq> selected" "leaf_needs_surface leaf \<Longrightarrow> lf_fields leaf \<subseteq> surface_fields"
    and m: "members en leaf (ss_sources ss) found unknown" "\<not> unknown \<longrightarrow> lf_fields leaf \<inter> ss_missing ss = {}"
  shows "record_matches (lf_plan leaf) found \<Longrightarrow> leaf_holds en r leaf"
    and "\<not> record_matches (lf_plan leaf) found \<Longrightarrow> \<not> unknown \<Longrightarrow> \<not> leaf_holds en r leaf"
proof -
  let ?plan = "lf_plan leaf" and ?af = "lf_analyzed_fuzzy leaf"
  let ?vs = "record_values selected (tr_fields r)" and ?fulls = "full_sources en (lf_fields leaf) r"
  have fulls: "set ?fulls = (full_source en \<circ> snd) ` {v \<in> set ?vs. fst v \<in> lf_fields leaf}"
    using leaf(1) by (force simp: full_sources_def record_values_def split: if_splits)
  obtain ps founds where b: "set ps \<subseteq> leaf_sources leaf (ss_sources ss)" "found = \<Union> (set founds)"
    "list_all2 (\<lambda>a s. settles ?plan a (facts (en_fuzzy_query en) ?plan ?af s)) founds ps"
    "\<not> unknown \<longrightarrow> leaf_sources leaf (ss_sources ss) \<subseteq> set ps \<and> (\<forall>s \<in> set ps. \<not> analysis_cut ?plan ?af s)"
    using m(1) unfolding members_def by blast
  note d = settled_union [OF assms(2) b(3)]
  have "covers ?plan ?af ps ?fulls" unfolding covers_def
  proof
    fix s assume "s \<in> set ps"
    then have s: "s \<in> set (ss_sources ss)" "so_field s \<in> lf_fields leaf" using b(1) by (auto simp: leaf_sources_def)
    then obtain v where "v \<in> set ?vs" "part_of en s v" using assms(1) by (auto simp: sources_ok_def)
    then have "full_source en (snd v) \<in> set ?fulls" "covered ?plan ?af s (full_source en (snd v))"
      using s(2) by (auto simp: fulls part_of_def covered_def full_source_def)
    then show "empty_source ?plan ?af s \<or> (\<exists>f \<in> set ?fulls. covered ?plan ?af s f)" by blast
  qed
  then show "leaf_holds en r leaf" if "record_matches ?plan found"
    using that d b(2) plan_holds_mono unfolding leaf_holds_def by blast
  show "\<not> leaf_holds en r leaf" if n: "\<not> record_matches ?plan found" "\<not> unknown"
  proof -
    have "covers ?plan ?af ?fulls ps" unfolding covers_def
    proof
      fix f assume "f \<in> set ?fulls"
      then obtain v where v: "v \<in> set ?vs" "fst v \<in> lf_fields leaf" "f = full_source en (snd v)" by (auto simp: fulls)
      then have surf: "needs_surface ?plan ?af \<Longrightarrow> fst v \<in> surface_fields" using leaf(2) by (auto simp: leaf_needs_surface_def)
      have "fst v \<notin> ss_missing ss" using m(2) n(2) v(2) by blast
      then consider "empty_value en surface_fields v" | s where "s \<in> set (ss_sources ss)" "whole_of en surface_fields s v"
        using assms(1) v(1) by (auto simp: sources_ok_def)
      then show "empty_source ?plan ?af f \<or> (\<exists>s \<in> set ps. covered ?plan ?af f s)"
      proof cases
        case 1
        then show ?thesis using v(3) surf by (auto simp: empty_value_def empty_source_def full_source_def)
      next
        case 2
        then have "s \<in> set ps" "\<not> analysis_cut ?plan ?af s"
          using b(4) n(2) v(2) by (auto simp: leaf_sources_def whole_of_def)
        moreover have "covered ?plan ?af f s"
          using 2(2) surf v(3) \<open>\<not> analysis_cut ?plan ?af s\<close> by (auto simp: whole_of_def covered_def full_source_def analysis_cut_def)
        ultimately show ?thesis by blast
      qed
    qed
    then show ?thesis using n(1) d b(2) plan_holds_mono unfolding leaf_holds_def by blast
  qed
qed

end
