(* ===== verification/Trace_Answers.thy ===== *)
theory Trace_Answers
  imports Trace_Decide
begin

text \<open>
  The pages of a trace: the memberships it decides are the answers of the search, the matched records
  are those with a positive membership, and a page stays within its limits and takes at least one record.
\<close>

section \<open>Memberships of the leaves\<close>

definition leaf_fits :: "string set \<Rightarrow> string set \<Rightarrow> trace_leaf \<Rightarrow> bool" where
  "leaf_fits selected surface_fields leaf \<longleftrightarrow> wf_plan (lf_plan leaf) \<and> lf_fields leaf \<subseteq> selected \<and>
     (leaf_needs_surface leaf \<longrightarrow> lf_fields leaf \<subseteq> surface_fields)"

definition member_right :: "engine \<Rightarrow> trace_record \<Rightarrow> trace_leaf \<Rightarrow> bool option \<Rightarrow> bool" where
  "member_right en r leaf v \<longleftrightarrow> (\<forall>b. v = Some b \<longrightarrow> leaf_holds en r leaf = b)"

lemma member_unknown_mono:
  "turns (member_source en progress leaf) sources (me, p) = Ok (Stay (me', p')) \<Longrightarrow> me_unknown me \<Longrightarrow> me_unknown me'"
proof (induction sources arbitrary: me p)
  case (Cons s sources)
  obtain me1 p1 where "member_source en progress leaf s (me, p) = Ok (Stay (me1, p1))"
    "turns (member_source en progress leaf) sources (me1, p1) = Ok (Stay (me', p'))"
    using Cons.prems(1) unfolding turns_Cons_Stay by auto
  moreover from this have "me_unknown me1" using Cons.prems(2)
    by (auto simp: member_source_def and_then_Ok_iff split: if_splits)
  ultimately show ?case using Cons.IH by blast
qed simp

lemma member_leaves:
  assumes "sources_ok en surface_fields (record_values selected (tr_fields r)) ss"
  shows "turns (member_leaf en progress (ss_missing ss) (ss_sources ss)) leaves (ms, p) = Ok (Stay (ms', p')) \<Longrightarrow>
    \<forall>leaf \<in> set leaves. leaf_fits selected surface_fields leaf \<Longrightarrow>
    \<exists>new. ms_membership ms' = ms_membership ms @ new \<and> list_all2 (member_right en r) leaves new \<and>
      (\<not> ms_any_unknown ms' \<longrightarrow> \<not> ms_any_unknown ms \<and> None \<notin> set new)"
proof (induction leaves arbitrary: ms p)
  case (Cons leaf leaves)
  obtain ms1 p1 where step: "member_leaf en progress (ss_missing ss) (ss_sources ss) leaf (ms, p) = Ok (Stay (ms1, p1))" and
    more: "turns (member_leaf en progress (ss_missing ss) (ss_sources ss)) leaves (ms1, p1) = Ok (Stay (ms', p'))"
    using Cons.prems(1) unfolding turns_Cons_Stay by auto
  let ?me = "\<lparr>me_work = ms_work ms, me_exhausted = ms_exhausted ms, me_found = {},
         me_unknown = (lf_fields leaf \<inter> ss_missing ss \<noteq> {})\<rparr>"
  let ?v = "\<lambda>me. if record_matches (lf_plan leaf) (me_found me) then Some True else if me_unknown me then None else Some False"
  obtain me q where t: "turns (member_source en progress leaf) (ss_sources ss) (?me, p) = Ok (Stay (me, q))"
      "ms_membership ms1 = ms_membership ms @ [?v me]" "ms_any_unknown ms1 = (ms_any_unknown ms \<or> me_unknown me)"
  proof -
    obtain t0 where t0: "turns (member_source en progress leaf) (ss_sources ss) (?me, p) = Ok t0"
      using step by (auto simp: member_leaf_def and_then_Ok_iff)
    then obtain me q where "t0 = Stay (me, q)" using step by (cases t0) (auto simp: member_leaf_def)
    then show ?thesis using that step t0 by (auto simp: member_leaf_def)
  qed
  have leaf: "leaf_fits selected surface_fields leaf" using Cons.prems(2) by simp
  have wf: "\<forall>s \<in> set (ss_sources ss). wf_source s" using assms by (auto simp: sources_ok_def part_of_def)
  have "members en leaf [] (me_found ?me) (me_unknown ?me)" unfolding members_def
    by (intro exI [of _ "[]"]) (simp add: leaf_sources_def)
  from member_sources [OF _ wf t(1) this] leaf
  have m: "members en leaf (ss_sources ss) (me_found me) (me_unknown me)" by (simp add: leaf_fits_def)
  have missing: "\<not> me_unknown me \<longrightarrow> lf_fields leaf \<inter> ss_missing ss = {}"
    using member_unknown_mono [OF t(1)] by auto
  have "member_right en r leaf (?v me)"
    using leaf_membership [OF assms _ _ _ m missing] leaf by (auto simp: member_right_def leaf_fits_def)
  moreover obtain new where "ms_membership ms' = ms_membership ms1 @ new" "list_all2 (member_right en r) leaves new"
      "\<not> ms_any_unknown ms' \<longrightarrow> \<not> ms_any_unknown ms1 \<and> None \<notin> set new"
    using Cons.IH [OF more] Cons.prems(2) by auto
  ultimately show ?case using t(2,3) by (intro exI [of _ "?v me # new"]) auto
qed simp

section \<open>The invariant of a page\<close>

definition answer :: "engine \<Rightarrow> search_request \<Rightarrow> trace_record \<Rightarrow> bool" where
  "answer en request r \<longleftrightarrow> \<not> excluded (rq_candidate_ids request) r \<and> holds en r False (rq_expression request)"

definition state_right :: "engine \<Rightarrow> search_request \<Rightarrow> trace_record \<Rightarrow> trace_record_state \<Rightarrow> bool" where
  "state_right en request r st \<longleftrightarrow> (case ts_membership st of
     Some b \<Rightarrow> b = answer en request r | None \<Rightarrow> \<not> ts_analysis_complete st)"

definition matched_ids :: "trace_record list \<Rightarrow> trace_record_state list \<Rightarrow> string list" where
  "matched_ids rs states = map (trace_record.tr_id \<circ> fst) (filter (\<lambda>(r, st). ts_membership st = Some True) (zip rs states))"

definition value_size :: "trace_value_match \<Rightarrow> nat" where
  "value_size v = 10 + length (tv_field v) + 8 * length (tv_spans v)"

definition record_size :: "trace_record_match \<Rightarrow> nat" where
  "record_size m = 6 + length (trace_record_match.tr_id m) + sum_list (map value_size (tr_values m))"

definition span_count :: "trace_record_match list \<Rightarrow> nat" where
  "span_count ms = sum_list (map (\<lambda>m. sum_list (map (length \<circ> tv_spans) (tr_values m))) ms)"

record page_view =
  vw_progress :: trace_progress
  vw_records :: "trace_record_match list"
  vw_spans :: nat
  vw_bytes :: nat
  vw_complete :: bool

definition state_complete :: "trace_record_state \<Rightarrow> bool" where
  "state_complete st \<longleftrightarrow> ts_analysis_complete st \<and> ts_spans_complete st"

definition page_inv :: "engine \<Rightarrow> search_request \<Rightarrow> bool \<Rightarrow> nat \<Rightarrow> trace_record list \<Rightarrow> page_view \<Rightarrow> bool" where
  "page_inv en request recovery base ys v \<longleftrightarrow>
     pr_recovery (vw_progress v) = recovery \<and>
     (if recovery then list_all2 (state_right en request) ys (pr_states (vw_progress v)) \<and>
        map trace_record_match.tr_id (vw_records v) = matched_ids ys (pr_states (vw_progress v)) \<and>
        (vw_complete v \<longrightarrow> (\<forall>st \<in> set (pr_states (vw_progress v)). state_complete st))
      else pr_states (vw_progress v) = []) \<and>
     (\<forall>m \<in> set (vw_records v). \<exists>r \<in> set ys. trace_record_match.tr_id m = trace_record.tr_id r \<and> answer en request r) \<and>
     span_count (vw_records v) + vw_spans v \<le> MAX_TRACE_SPANS \<and>
     base + sum_list (map record_size (vw_records v)) + vw_bytes v = MAX_SEARCH_RESPONSE_BYTES"

lemma page_start:
  "base \<le> MAX_SEARCH_RESPONSE_BYTES \<Longrightarrow> page_inv en request recovery base []
     \<lparr>vw_progress = progress_new recovery, vw_records = [], vw_spans = MAX_TRACE_SPANS,
      vw_bytes = MAX_SEARCH_RESPONSE_BYTES - base, vw_complete = c\<rparr>"
  by (simp add: page_inv_def progress_new_def matched_ids_def span_count_def)

lemma matched_ids_append:
  "length rs = length sts \<Longrightarrow> matched_ids (rs @ [r]) (sts @ [st]) =
     matched_ids rs sts @ (if ts_membership st = Some True then [trace_record.tr_id r] else [])"
  by (simp add: matched_ids_def)

definition same_page :: "page_view \<Rightarrow> page_view \<Rightarrow> bool" where
  "same_page v w \<longleftrightarrow> vw_records w = vw_records v \<and> vw_spans w \<le> vw_spans v \<and> vw_bytes w = vw_bytes v \<and>
     (vw_complete w \<longrightarrow> vw_complete v)"

lemma page_skip:
  assumes "page_inv en request recovery base ys v" "same_page v w" "vw_progress w = progress_consume st (vw_progress v)"
    and "recovery \<Longrightarrow> state_right en request r st" "recovery \<Longrightarrow> ts_membership st \<noteq> Some True"
    and "recovery \<Longrightarrow> vw_complete w \<Longrightarrow> state_complete st"
  shows "page_inv en request recovery base (ys @ [r]) w"
  using assms
  by (cases recovery) (auto simp: page_inv_def same_page_def progress_consume_def matched_ids_append list_all2_appendI list_all2_lengthD)

lemma page_silent:
  "page_inv en request False base ys v \<Longrightarrow> same_page v w \<Longrightarrow> vw_progress w = vw_progress v \<Longrightarrow>
     page_inv en request False base (ys @ [r]) w"
  by (auto simp: page_inv_def same_page_def)

lemma page_leave:
  "page_inv en request recovery base ys v \<Longrightarrow> same_page v w \<Longrightarrow> vw_progress w = vw_progress v \<Longrightarrow>
     page_inv en request recovery base ys w"
  by (auto simp: page_inv_def same_page_def)

lemma page_push:
  assumes "page_inv en request recovery base ys v" "answer en request r" "ts_membership st = Some True"
    and "trace_record_match.tr_id m = trace_record.tr_id r"
    and w: "vw_progress w = progress_consume st (vw_progress v)" "vw_records w = vw_records v @ [m]"
    and "sum_list (map (length \<circ> tv_spans) (tr_values m)) + vw_spans w = vw_spans v" "record_size m + vw_bytes w = vw_bytes v"
    and "vw_complete w \<longrightarrow> vw_complete v \<and> state_complete st"
  shows "page_inv en request recovery base (ys @ [r]) w"
proof -
  have "state_right en request r st" using assms(2,3) by (simp add: state_right_def)
  then show ?thesis using assms
    by (cases recovery)
      (auto simp: page_inv_def progress_consume_def matched_ids_append span_count_def list_all2_appendI list_all2_lengthD)
qed

lemma page_first:
  assumes "page_inv en request recovery base ys v" "recovery"
  shows "pr_states (vw_progress v) = [] \<longleftrightarrow> ys = []"
    and "ys = [] \<Longrightarrow> vw_bytes v = MAX_SEARCH_RESPONSE_BYTES - base"
  using assms by (auto simp: page_inv_def matched_ids_def)

lemma page_defer:
  assumes "page_inv en request recovery base ys v" "progress_defer (vw_progress v) exhausted"
  shows "ys \<noteq> []"
  using assms page_first(1) [OF assms(1)] by (auto simp: progress_defer_def page_inv_def)

lemma turns_rule:
  assumes "turns step xs s = Ok t" "I [] s"
    and step: "\<And>ys x s t. prefix (ys @ [x]) xs \<Longrightarrow> I ys s \<Longrightarrow> step x s = Ok t \<Longrightarrow>
      (case t of Stay s' \<Rightarrow> I (ys @ [x]) s' | Leave s' \<Rightarrow> I (ys @ [x]) s' \<or> ys \<noteq> [] \<and> I ys s')"
  shows "\<exists>ys. prefix ys xs \<and> (xs \<noteq> [] \<longrightarrow> ys \<noteq> []) \<and> I ys (turn_state t)"
proof -
  have "\<exists>ys. prefix ys (zs @ xs) \<and> (zs @ xs \<noteq> [] \<longrightarrow> ys \<noteq> []) \<and> I ys (turn_state t)"
    if "turns step xs s = Ok t" "I zs s"
      "\<And>ys x s t. prefix (ys @ [x]) (zs @ xs) \<Longrightarrow> I ys s \<Longrightarrow> step x s = Ok t \<Longrightarrow>
        (case t of Stay s' \<Rightarrow> I (ys @ [x]) s' | Leave s' \<Rightarrow> I (ys @ [x]) s' \<or> ys \<noteq> [] \<and> I ys s')" for zs s
    using that
  proof (induction xs arbitrary: zs s)
    case Nil
    then show ?case by (intro exI [of _ zs]) auto
  next
    case (Cons x xs)
    obtain u where u: "step x s = Ok u" using Cons.prems(1) by (auto simp: and_then_Ok_iff)
    have p: "prefix (zs @ [x]) (zs @ x # xs)" by (simp add: prefix_def)
    note c = Cons.prems(3) [OF p Cons.prems(2) u]
    show ?case
    proof (cases u)
      case (Stay s1)
      have "turns step xs s1 = Ok t" using Cons.prems(1) u Stay by simp
      from Cons.IH [OF this, of "zs @ [x]"] c Stay Cons.prems(3) show ?thesis by simp
    next
      case (Leave s1)
      then have "t = Leave s1" using Cons.prems(1) u by simp
      then show ?thesis using c Leave p by (auto intro: exI [of _ "zs @ [x]"] exI [of _ zs])
    qed
  qed
  from this [of s "[]"] assms show ?thesis by simp
qed

section \<open>Records under a single clause\<close>

definition values_size :: "trace_value_match list \<Rightarrow> nat" where
  "values_size vs = sum_list (map value_size vs)"

definition values_spans :: "trace_value_match list \<Rightarrow> nat" where
  "values_spans vs = sum_list (map (length \<circ> tv_spans) vs)"

lemma values_simps [simp]:
  "values_size [] = 0" "values_size (vs @ [v]) = values_size vs + value_size v"
  "values_spans [] = 0" "values_spans (vs @ [v]) = values_spans vs + length (tv_spans v)"
  by (simp_all add: values_size_def values_spans_def)

definition kept :: "nat \<Rightarrow> nat \<Rightarrow> nat \<Rightarrow> bool \<Rightarrow> keep_state \<Rightarrow> bool" where
  "kept bytes header start complete k \<longleftrightarrow> values_spans (ke_values k) + ke_spans k = start \<and>
     ke_record_bytes k = values_size (ke_values k) \<and>
     (ke_values k \<noteq> [] \<longrightarrow> bytes + header + ke_record_bytes k \<le> MAX_SEARCH_RESPONSE_BYTES) \<and>
     (ke_complete k \<longrightarrow> complete \<and> \<not> ke_exhausted k)"

lemma keep_value_kept:
  assumes "kept bytes header start complete k"
  shows "kept bytes header start complete (keep_value bytes header k entry)"
proof -
  obtain field i found where e: "entry = (field, i, found)" by (cases entry)
  define vh where "vh = saturating_add 10 (length field)"
  define available where "available = MAX_SEARCH_RESPONSE_BYTES - bytes - header - ke_record_bytes k"
  define keep where "keep = min (min (length found) (ke_spans k)) ((available - vh) div 8)"
  define k' where "k' = (if keep < length found then k\<lparr>ke_exhausted := True, ke_complete := False\<rparr> else k)"
  have result: "keep_value bytes header k entry = (if keep = 0 then k'
      else k'\<lparr>ke_values := ke_values k' @ [\<lparr>tv_field = field, tv_value_index = i, tv_spans = take keep found\<rparr>],
        ke_spans := ke_spans k' - keep, ke_record_bytes := saturating_add (ke_record_bytes k') (vh + keep * 8)\<rparr>)"
    unfolding keep_value_def e Let_def prod.case k'_def keep_def available_def vh_def by (rule refl)
  have k': "kept bytes header start complete k'" "ke_spans k' = ke_spans k" "ke_record_bytes k' = ke_record_bytes k"
    "ke_values k' = ke_values k"
    using assms by (auto simp: kept_def k'_def)
  show ?thesis
  proof (cases "keep = 0")
    case True
    then show ?thesis using k' result by simp
  next
    case False
    have max: "MAX_SEARCH_RESPONSE_BYTES < usize_max" by (simp add: limit_defs usize_max_def)
    have keep: "keep \<le> length found" "keep \<le> ke_spans k" "keep \<le> (available - vh) div 8" by (simp_all add: keep_def)
    have fit: "vh + keep * 8 \<le> available" using False keep(3) by linarith
    then have "vh < usize_max" using max by (simp add: available_def)
    then have vh: "vh = 10 + length field" by (auto simp: vh_def saturating_add_def min_def split: if_splits)
    have room: "bytes + header + ke_record_bytes k + vh + keep * 8 \<le> MAX_SEARCH_RESPONSE_BYTES"
      using fit vh by (simp add: available_def)
    then have sum: "saturating_add (ke_record_bytes k) (vh + keep * 8) = ke_record_bytes k + (vh + keep * 8)"
      using max by (intro saturating_add_eq) linarith
    show ?thesis using k' keep(1,2) room vh False unfolding result k'(3) sum
      by (simp add: kept_def value_size_def k'(2-4))
  qed
qed

lemma keep_fold: "kept bytes header start complete k \<Longrightarrow>
    kept bytes header start complete (foldl (keep_value bytes header) k es)"
  by (induction es arbitrary: k) (auto simp: keep_value_kept)

definition clause_view :: "page_state \<Rightarrow> page_view" where
  "clause_view pg = \<lparr>vw_progress = pg_progress pg, vw_records = pg_records pg, vw_spans = pg_spans pg,
     vw_bytes = MAX_SEARCH_RESPONSE_BYTES - pg_bytes pg, vw_complete = pg_complete pg\<rparr>"

definition clause_inv :: "engine \<Rightarrow> search_request \<Rightarrow> bool \<Rightarrow> nat \<Rightarrow> trace_record list \<Rightarrow> page_state \<Rightarrow> bool" where
  "clause_inv en request recovery base ys pg \<longleftrightarrow>
     page_inv en request recovery base ys (clause_view pg) \<and> pg_bytes pg \<le> MAX_SEARCH_RESPONSE_BYTES"

text \<open>What a loop over records may do with its invariant.\<close>

definition turn_inv :: "(trace_record list \<Rightarrow> 's \<Rightarrow> bool) \<Rightarrow> trace_record list \<Rightarrow> trace_record \<Rightarrow> 's turn \<Rightarrow> bool" where
  "turn_inv I ys r t \<longleftrightarrow> (case t of Stay s \<Rightarrow> I (ys @ [r]) s | Leave s \<Rightarrow> I (ys @ [r]) s \<or> ys \<noteq> [] \<and> I ys s)"

lemma value_loop_flags:
  "value_loop en plan field i texts (st, p) = Ok (st', p') \<Longrightarrow> va_exhausted st \<longrightarrow> va_truncated st \<Longrightarrow>
     va_exhausted st' \<longrightarrow> va_truncated st'"
proof (induction texts arbitrary: i st p)
  case (Cons x texts)
  obtain q outcome q' where "value_loop en plan field (i + 1) texts (note_value field i outcome st, q') = Ok (st', p')"
    using Cons.prems(1) by (auto simp: and_then_Ok_iff)
  from Cons.IH [OF this] Cons.prems(2) show ?case by (auto simp: note_value_def Let_def split: if_splits)
qed simp

lemma field_loop_flags:
  "field_loop en plan selected fs (st, p) = Ok (st', p') \<Longrightarrow> va_exhausted st \<longrightarrow> va_truncated st \<Longrightarrow>
     va_exhausted st' \<longrightarrow> va_truncated st'"
proof (induction fs arbitrary: st p)
  case (Cons f fs)
  obtain field texts where f: "f = (field, texts)" by (cases f)
  show ?case
  proof (cases "field \<in> selected")
    case True
    then obtain st1 p1 where "value_loop en plan field 0 texts (st, p) = Ok (st1, p1)"
        "field_loop en plan selected fs (st1, p1) = Ok (st', p')"
      using Cons.prems(1) f by (auto simp: and_then_Ok_iff split: if_splits)
    then show ?thesis using Cons.IH value_loop_flags Cons.prems(2) by blast
  next
    case False
    then show ?thesis using Cons f by (auto split: if_splits)
  qed
qed simp

lemma clause_matched_inv:
  assumes I: "clause_inv en request recovery base ys pg"
    and id: "length (trace_record.tr_id r) \<le> MAX_RECORD_ID_BYTES"
    and base: "base + 6 + MAX_RECORD_ID_BYTES \<le> MAX_SEARCH_RESPONSE_BYTES"
    and r: "answer en request r" and flags: "va_exhausted st \<longrightarrow> va_truncated st" "va_analysis_truncated st \<longrightarrow> \<not> pg_complete pg"
  shows "turn_inv (clause_inv en request recovery base) ys r (clause_matched r st pg)"
proof -
  define pg1 where "pg1 = pg\<lparr>pg_complete := pg_complete pg \<and> \<not> va_truncated st\<rparr>"
  define header where "header = saturating_add 6 (length (trace_record.tr_id r))"
  define k where "k = foldl (keep_value (pg_bytes pg1) header)
    \<lparr>ke_spans = pg_spans pg1, ke_record_bytes = 0, ke_values = [], ke_exhausted = va_exhausted st, ke_complete = pg_complete pg1\<rparr>
    (va_pending st)"
  define pg2 where "pg2 = pg1\<lparr>pg_spans := ke_spans k, pg_complete := ke_complete k\<rparr>"
  define exhausted where
    "exhausted \<longleftrightarrow> ke_exhausted k \<or> MAX_SEARCH_RESPONSE_BYTES - pg_bytes pg2 < header + ke_record_bytes k"
  define pg3 where "pg3 = pg2\<lparr>pg_bytes := saturating_add (pg_bytes pg2) (header + ke_record_bytes k),
    pg_records := pg_records pg2 @ [\<lparr>trace_record_match.tr_id = trace_record.tr_id r, tr_values = ke_values k\<rparr>],
    pg_progress := progress_consume (clause_state True (va_analysis_truncated st) exhausted) (pg_progress pg2)\<rparr>"
  have rec: "pr_recovery (pg_progress pg) = recovery" using I by (simp add: clause_inv_def page_inv_def clause_view_def)
  have result: "clause_matched r st pg = (if \<not> recovery \<and> va_pending st = [] then Stay pg1
    else if \<not> recovery \<and> ke_values k = [] then Stay pg2
    else if progress_defer (pg_progress pg2) exhausted then Leave (pg2\<lparr>pg_complete := False\<rparr>)
    else if recovery \<and> exhausted then Leave pg3 else Stay pg3)"
    unfolding clause_matched_def Let_def rec pg3_def exhausted_def pg2_def k_def header_def pg1_def by (simp cong: if_cong)
  have header: "header = 6 + length (trace_record.tr_id r)"
    using id unfolding header_def by (intro saturating_add_eq) (simp add: limit_defs usize_max_def)
  have "kept (pg_bytes pg1) header (pg_spans pg1) (pg_complete pg1) k"
    unfolding k_def using flags by (intro keep_fold) (auto simp: kept_def pg1_def)
  then have k: "values_spans (ke_values k) + ke_spans k = pg_spans pg" "ke_record_bytes k = values_size (ke_values k)"
    "ke_values k \<noteq> [] \<longrightarrow> pg_bytes pg + header + ke_record_bytes k \<le> MAX_SEARCH_RESPONSE_BYTES"
    "ke_complete k \<longrightarrow> pg_complete pg1 \<and> \<not> ke_exhausted k"
    by (auto simp: kept_def pg1_def)
  have fits: "header + ke_record_bytes k \<le> MAX_SEARCH_RESPONSE_BYTES - pg_bytes pg"
    if "recovery \<or> ke_values k \<noteq> []" "\<not> progress_defer (pg_progress pg2) exhausted"
  proof (cases "ke_values k = []")
    case True
    then have "recovery" "ke_record_bytes k = 0" using that k(2) by auto
    show ?thesis
    proof (rule ccontr)
      assume over: "\<not> ?thesis"
      then have "exhausted" by (simp add: exhausted_def pg2_def pg1_def)
      then have "pr_states (pg_progress pg) = []" using that(2) rec \<open>recovery\<close> by (simp add: progress_defer_def pg2_def pg1_def)
      then have "MAX_SEARCH_RESPONSE_BYTES - pg_bytes pg = MAX_SEARCH_RESPONSE_BYTES - base"
        using I page_first [of en request recovery base ys "clause_view pg"] \<open>recovery\<close> by (simp add: clause_inv_def clause_view_def)
      then show False using over id base header \<open>ke_record_bytes k = 0\<close> by linarith
    qed
  next
    case False
    then show ?thesis using k(3) by linarith
  qed
  let ?v = "clause_view pg" and ?I = "clause_inv en request recovery base"
  have I': "page_inv en request recovery base ys ?v" "pg_bytes pg \<le> MAX_SEARCH_RESPONSE_BYTES" using I by (simp_all add: clause_inv_def)
  consider (silent) "\<not> recovery" "va_pending st = [] \<or> ke_values k = []"
    | (leave) "recovery \<or> ke_values k \<noteq> []" "progress_defer (pg_progress pg2) exhausted"
        "clause_matched r st pg = Leave (pg2\<lparr>pg_complete := False\<rparr>)"
    | (push) "recovery \<or> ke_values k \<noteq> []" "\<not> progress_defer (pg_progress pg2) exhausted"
        "clause_matched r st pg = Leave pg3 \<or> clause_matched r st pg = Stay pg3"
    unfolding result by (cases recovery; cases "va_pending st = []"; cases "ke_values k = []";
      cases "progress_defer (pg_progress pg2) exhausted"; cases exhausted) simp_all
  then show ?thesis
  proof cases
    case silent
    have "?I (ys @ [r]) pg1 \<and> (ke_values k = [] \<longrightarrow> ?I (ys @ [r]) pg2)"
      using page_silent [of en request base ys ?v "clause_view pg1" r] page_silent [of en request base ys ?v "clause_view pg2" r] I' silent(1) k
      by (auto simp: clause_inv_def same_page_def clause_view_def pg1_def pg2_def)
    then show ?thesis using silent result by (auto simp: turn_inv_def)
  next
    case leave
    have "?I ys (pg2\<lparr>pg_complete := False\<rparr>)"
      using page_leave [of en request recovery base ys ?v "clause_view (pg2\<lparr>pg_complete := False\<rparr>)"] I' k(1)
      by (auto simp: clause_inv_def same_page_def clause_view_def pg1_def pg2_def)
    moreover have "ys \<noteq> []"
      using page_defer [OF I'(1), of exhausted] leave(2) by (simp add: clause_view_def pg1_def pg2_def)
    ultimately show ?thesis using leave(3) by (simp add: turn_inv_def)
  next
    case push
    note fits = fits [OF push(1,2)]
    have not_over: "exhausted \<longleftrightarrow> ke_exhausted k" using fits by (auto simp: exhausted_def pg2_def pg1_def)
    have sum: "saturating_add (pg_bytes pg) (header + ke_record_bytes k) = pg_bytes pg + (header + ke_record_bytes k)"
      using fits I'(2) by (intro saturating_add_eq) (simp add: limit_defs usize_max_def)
    have "page_inv en request recovery base (ys @ [r]) (clause_view pg3)"
      by (rule page_push [OF I'(1) r, where st = "clause_state True (va_analysis_truncated st) exhausted"
              and m = "\<lparr>trace_record_match.tr_id = trace_record.tr_id r, tr_values = ke_values k\<rparr>"])
        (use k fits header flags sum not_over I'(2) in
          \<open>auto simp: clause_view_def pg3_def pg2_def pg1_def clause_state_def record_size_def values_size_def values_spans_def state_complete_def\<close>)
    moreover have "pg_bytes pg3 \<le> MAX_SEARCH_RESPONSE_BYTES" using sum fits I'(2) by (simp add: pg3_def pg2_def pg1_def)
    ultimately show ?thesis using push(3) by (auto simp: turn_inv_def clause_inv_def)
  qed
qed

lemma clause_skip:
  assumes "clause_inv en request recovery base ys pg" "pg_complete pg' \<longrightarrow> pg_complete pg \<and> state_complete st"
    and "pg' = pg\<lparr>pg_complete := pg_complete pg', pg_progress := progress_consume st (pg_progress pg)\<rparr>"
    and "state_right en request r st" "ts_membership st \<noteq> Some True"
  shows "clause_inv en request recovery base (ys @ [r]) pg'"
proof -
  have "pg_bytes pg' = pg_bytes pg" "pg_records pg' = pg_records pg" "pg_spans pg' = pg_spans pg"
    "pg_progress pg' = progress_consume st (pg_progress pg)" by (subst assms(3), simp)+
  then show ?thesis
    using assms(1,2,4,5) page_skip [of en request recovery base ys "clause_view pg" "clause_view pg'" st r]
    by (auto simp: clause_inv_def clause_view_def same_page_def)
qed

lemma clause_record_inv:
  assumes step: "clause_record en plan selected (rq_candidate_ids request) r (pg, p) = Ok t"
    and I: "clause_inv en request recovery base ys pg" and wf: "wf_plan plan" "wf_tokenizers en"
    and meaning: "holds en r False (rq_expression request) \<longleftrightarrow>
      plan_holds (en_fuzzy_query en) plan False (full_sources en selected r)"
    and id: "length (trace_record.tr_id r) \<le> MAX_RECORD_ID_BYTES"
    and base: "base + 6 + MAX_RECORD_ID_BYTES \<le> MAX_SEARCH_RESPONSE_BYTES"
  shows "turn_inv (\<lambda>ys s. clause_inv en request recovery base ys (fst s)) ys r t"
proof (cases "excluded (rq_candidate_ids request) r")
  case True
  then obtain q where t: "t = Stay (pg\<lparr>pg_progress := progress_consume not_candidate (pg_progress pg)\<rparr>, q)"
    using step by (auto simp: clause_record_def and_then_Ok_iff)
  show ?thesis unfolding t turn_inv_def turn.case fst_conv
    by (rule clause_skip [OF I, where st = not_candidate])
      (use True in \<open>simp_all add: not_candidate_def state_complete_def state_right_def answer_def\<close>)
next
  case False
  obtain q st q' where f: "field_loop en plan selected (tr_fields r) (value_start (pg_spans pg), q) = Ok (st, q')" and
    t: "t = (let pg = pg\<lparr>pg_complete := pg_complete pg \<and> \<not> va_analysis_truncated st\<rparr>
       in if record_matches plan (va_found st)
          then (case clause_matched r st pg of Stay pg \<Rightarrow> Stay (pg, q') | Leave pg \<Rightarrow> Leave (pg, q'))
          else Stay (pg\<lparr>pg_progress := progress_consume
            (clause_state False (va_analysis_truncated st) (va_exhausted st)) (pg_progress pg)\<rparr>, q'))"
    using step False by (auto simp: clause_record_def and_then_Ok_iff Let_def)
  let ?pg = "pg\<lparr>pg_complete := pg_complete pg \<and> \<not> va_analysis_truncated st\<rparr>"
  have I': "clause_inv en request recovery base ys ?pg"
    using I page_leave [of en request recovery base ys "clause_view pg" "clause_view ?pg"]
    by (auto simp: clause_inv_def clause_view_def same_page_def)
  have answer: "answer en request r \<longleftrightarrow> plan_holds (en_fuzzy_query en) plan False (full_sources en selected r)"
    using False meaning by (simp add: answer_def)
  show ?thesis
  proof (cases "record_matches plan (va_found st)")
    case True
    have yes: "answer en request r" using field_loop_decides(1) [OF f wf True] answer by simp
    have "va_exhausted st \<longrightarrow> va_truncated st" using field_loop_flags [OF f] by (simp add: value_start_def)
    from clause_matched_inv [OF I' id base yes this]
    have "turn_inv (clause_inv en request recovery base) ys r (clause_matched r st ?pg)" by simp
    then show ?thesis using True t by (cases "clause_matched r st ?pg") (auto simp: turn_inv_def)
  next
    case no: False
    then have t: "t = Stay (?pg\<lparr>pg_progress := progress_consume
        (clause_state False (va_analysis_truncated st) (va_exhausted st)) (pg_progress pg)\<rparr>, q')"
      using t by simp
    have "\<not> va_analysis_truncated st \<Longrightarrow> \<not> answer en request r" using field_loop_decides(2) [OF f wf no] answer by simp
    then show ?thesis unfolding t turn_inv_def turn.case fst_conv
      by (intro clause_skip [OF I', where st = "clause_state False (va_analysis_truncated st) (va_exhausted st)"])
        (simp_all add: clause_state_def state_complete_def state_right_def)
  qed
qed

section \<open>Records under an expression\<close>

lemma turns_Leave:
  "turns step xs s = Ok (Leave s') \<Longrightarrow> \<exists>x \<in> set xs. \<exists>s1. step x s1 = Ok (Leave s')"
proof (induction xs arbitrary: s)
  case (Cons x xs)
  obtain u where u: "step x s = Ok u" using Cons.prems by (auto simp: and_then_Ok_iff)
  then show ?case using Cons by (cases u) auto
qed simp

lemma member_leaf_leave:
  assumes "turns (member_leaf en progress missing sources) leaves s = Ok (Leave s')"
  shows "progress_defer progress True"
proof -
  obtain leaf ms p where "member_leaf en progress missing sources leaf (ms, p) = Ok (Leave s')"
    using turns_Leave [OF assms] by auto
  then obtain u where u: "turns (member_source en progress leaf) sources (\<lparr>me_work = ms_work ms, me_exhausted = ms_exhausted ms,
      me_found = {}, me_unknown = (lf_fields leaf \<inter> missing \<noteq> {})\<rparr>, p) = Ok u" and
    v: "(case u of Leave (me, p) \<Rightarrow> Leave (ms\<lparr>ms_work := me_work me\<rparr>, p)
       | Stay (me, p) \<Rightarrow> Stay (ms\<lparr>ms_work := me_work me, ms_exhausted := me_exhausted me,
           ms_membership := ms_membership ms @
             [if record_matches (lf_plan leaf) (me_found me) then Some True else if me_unknown me then None else Some False],
           ms_any_unknown := ms_any_unknown ms \<or> me_unknown me\<rparr>, p)) = Leave s'"
    unfolding member_leaf_def by (simp only: prod.case and_then_Ok_iff result.inject) blast
  obtain l where "u = Leave l" using v by (cases u) auto
  from turns_Leave [OF u(1) [unfolded this]] show ?thesis
    by (auto simp: member_source_def and_then_Ok_iff split: if_splits)
qed

subsection \<open>Collecting spans\<close>

definition entries_count :: "span_entries \<Rightarrow> nat" where
  "entries_count es = sum_list (map (card \<circ> snd) es)"

definition collected :: "nat \<Rightarrow> bool \<Rightarrow> collect_state \<Rightarrow> bool" where
  "collected start complete cs \<longleftrightarrow> entries_count (cs_entries cs) + cs_pending cs = start \<and>
     (\<forall>e \<in> set (cs_entries cs). finite (snd e)) \<and> (cs_complete cs \<longrightarrow> complete \<and> cs_spans_complete cs)"

lemma entry_of_finite: "\<forall>e \<in> set es. finite (snd e) \<Longrightarrow> finite (entry_of es key)"
  by (auto simp: entry_of_def split: option.splits dest: map_of_SomeD)

lemma set_entry_finite: "\<forall>e \<in> set es. finite (snd e) \<Longrightarrow> finite s \<Longrightarrow> \<forall>e \<in> set (set_entry es key s). finite (snd e)"
  unfolding set_entry_def by (induction es) auto

lemma set_entry_count: "entries_count (set_entry es key s) + card (entry_of es key) = entries_count es + card s"
  unfolding set_entry_def entries_count_def entry_of_def by (induction es) auto

lemma set_entry_same: "entry_of (set_entry es key s) key = s"
  by (simp add: set_entry_def entry_of_def update_conv)

lemma insert_spans_collected:
  "insert_spans progress key new cs = t \<Longrightarrow> collected start complete cs \<Longrightarrow>
     (case t of Stay cs' \<Rightarrow> collected start complete cs' | Leave _ \<Rightarrow> progress_defer progress True)"
proof (induction new arbitrary: cs)
  case Nil
  then show ?case by auto
next
  case (Cons span rest)
  let ?pair = "(sp_start span, sp_end span)" and ?entry = "entry_of (cs_entries cs) key"
  let ?cs = "cs\<lparr>cs_entries := set_entry (cs_entries cs) key (insert ?pair ?entry), cs_pending := cs_pending cs - 1\<rparr>"
  consider "?pair \<in> ?entry" | "?pair \<notin> ?entry" "cs_pending cs = 0" | "?pair \<notin> ?entry" "cs_pending cs \<noteq> 0" by blast
  then show ?case
  proof cases
    case 1
    then show ?thesis using Cons by (simp add: Let_def)
  next
    case 2
    then show ?thesis using Cons.prems by (auto simp: Let_def collected_def)
  next
    case 3
    have "finite ?entry" using Cons.prems(2) entry_of_finite by (auto simp: collected_def)
    then have "collected start complete ?cs"
      using Cons.prems(2) 3 set_entry_count [of "cs_entries cs" key "insert ?pair ?entry"]
        set_entry_finite [of "cs_entries cs" "insert ?pair ?entry" key]
      by (auto simp: collected_def)
    then show ?thesis using Cons 3 by (simp add: Let_def)
  qed
qed

lemma collect_source_collected:
  assumes "collect_source en progress leaf source (cs, p) = Ok t" "collected start complete cs"
  shows "case t of Stay (cs', q) \<Rightarrow> collected start complete cs' | Leave _ \<Rightarrow> progress_defer progress True"
proof -
  let ?key = "(so_field source, so_value_index source)"
  let ?entry = "entry_of (cs_entries cs) ?key"
  let ?cs = "cs\<lparr>cs_work := cs_work cs - source_cost leaf source, cs_entries := set_entry (cs_entries cs) ?key ?entry\<rparr>"
  consider (skip) "so_field source \<notin> lf_fields leaf" | (broke) "so_field source \<in> lf_fields leaf" "cs_work cs < source_cost leaf source"
    | (trace) "so_field source \<in> lf_fields leaf" "\<not> cs_work cs < source_cost leaf source" by blast
  then show ?thesis
  proof cases
    case trace
    have cs: "collected start complete ?cs"
      using assms(2) set_entry_count [of "cs_entries cs" ?key ?entry] set_entry_finite [of "cs_entries cs" ?entry ?key]
        entry_of_finite [of "cs_entries cs" ?key]
      by (auto simp: collected_def)
    obtain outcome q where o: "trace_tokens (en_fuzzy_query en) (lf_plan leaf) source (cs_pending cs + card ?entry) False p = Ok (outcome, q)"
      "(let truncated = to_spans_truncated outcome
          in if truncated \<and> progress_defer progress True then Leave (?cs, q)
             else
               let cs = ?cs\<lparr>cs_complete := cs_complete ?cs \<and> \<not> truncated, cs_exhausted := cs_exhausted ?cs \<or> truncated,
                     cs_spans_complete := cs_spans_complete ?cs \<and> \<not> truncated\<rparr>
               in (case insert_spans progress ?key (to_spans outcome) cs of
                   Stay cs \<Rightarrow> Stay (cs, q) | Leave cs \<Rightarrow> Leave (cs, q))) = t"
      using assms(1) trace by (auto simp: collect_source_def Let_def and_then_Ok_iff split: if_splits)
    let ?tr = "to_spans_truncated outcome"
    let ?cs1 = "?cs\<lparr>cs_complete := cs_complete ?cs \<and> \<not> ?tr, cs_exhausted := cs_exhausted ?cs \<or> ?tr,
                     cs_spans_complete := cs_spans_complete ?cs \<and> \<not> ?tr\<rparr>"
    have "collected start complete ?cs1" using cs by (auto simp: collected_def)
    note ins = insert_spans_collected [OF refl this, of progress ?key "to_spans outcome"]
    show ?thesis using o(2) ins by (auto simp: Let_def split: turn.splits if_splits)
  qed (use assms in \<open>auto simp: collect_source_def collected_def split: if_splits\<close>)
qed

lemma turns_keep:
  assumes step: "\<And>x s t. step x s = Ok t \<Longrightarrow> I s \<Longrightarrow> case t of Stay s' \<Rightarrow> I s' | Leave _ \<Rightarrow> L"
  shows "turns step xs s = Ok t \<Longrightarrow> I s \<Longrightarrow> case t of Stay s' \<Rightarrow> I s' | Leave _ \<Rightarrow> L"
proof (induction xs arbitrary: s)
  case (Cons x xs)
  obtain u where u: "step x s = Ok u" using Cons.prems(1) by (auto simp: and_then_Ok_iff)
  show ?case using Cons step [OF u Cons.prems(2)] u by (cases u) auto
qed auto

lemma collect_collected:
  assumes "turns (collect_leaf en progress leaves sources) indices (cs, p) = Ok t" "collected start complete cs"
  shows "case t of Stay s \<Rightarrow> collected start complete (fst s) | Leave _ \<Rightarrow> progress_defer progress True"
proof (rule turns_keep [OF _ assms(1)])
  fix index s t assume s: "collect_leaf en progress leaves sources index s = Ok t" "collected start complete (fst s)"
  show "case t of Stay s \<Rightarrow> collected start complete (fst s) | Leave _ \<Rightarrow> progress_defer progress True"
  proof (rule turns_keep [OF _ s(1) [unfolded collect_leaf_def]])
    fix source s t assume "collect_source en progress (leaves ! index) source s = Ok t" "collected start complete (fst s)"
    then show "case t of Stay s \<Rightarrow> collected start complete (fst s) | Leave _ \<Rightarrow> progress_defer progress True"
      using collect_source_collected [of en progress "leaves ! index" source "fst s" "snd s" t start complete]
      by (cases t) auto
  qed (use s(2) in simp)
qed (use assms(2) in simp)

subsection \<open>Fitting the response\<close>

definition fitted :: "nat \<Rightarrow> nat \<Rightarrow> nat \<Rightarrow> bool \<Rightarrow> fit_state \<Rightarrow> bool" where
  "fitted remaining header start complete fi \<longleftrightarrow> values_spans (fi_values fi) + fi_spans fi = start \<and>
     fi_bytes fi = header + values_size (fi_values fi) \<and> (fi_values fi \<noteq> [] \<longrightarrow> fi_bytes fi \<le> remaining) \<and>
     (fi_complete fi \<longrightarrow> complete \<and> fi_spans_complete fi)"

lemma fit_value_fitted:
  assumes "fitted remaining header start complete fi" "card (snd entry) \<le> fi_spans fi"
  shows "fitted remaining header start complete (fit_value remaining fi entry) \<and>
    fi_spans fi \<le> fi_spans (fit_value remaining fi entry) + card (snd entry)"
proof -
  obtain field i pairs where e: "entry = ((field, i), pairs)" by (metis prod.exhaust)
  define h where "h = 10 + length field"
  define keep where "keep = min (card pairs) ((remaining - (fi_bytes fi + h)) div 8)"
  define fi' where "fi' = (if keep < card pairs then fi\<lparr>fi_exhausted := True, fi_spans_complete := False, fi_complete := False\<rparr> else fi)"
  define kept_spans where "kept_spans = map (\<lambda>(s, e). \<lparr>sp_start = s, sp_end = e\<rparr>) (take keep (sorted_list_of_set pairs))"
  have result: "fit_value remaining fi entry = (if keep = 0 then fi'
      else fi'\<lparr>fi_bytes := fi_bytes fi' + (h + keep * 8), fi_spans := fi_spans fi' - keep,
        fi_values := fi_values fi' @ [\<lparr>tv_field = field, tv_value_index = i, tv_spans = kept_spans\<rparr>]\<rparr>)"
    unfolding fit_value_def e Let_def prod.case fi'_def keep_def h_def kept_spans_def by (rule refl)
  have fi': "fitted remaining header start complete fi'" "fi_spans fi' = fi_spans fi" "fi_bytes fi' = fi_bytes fi"
      "fi_values fi' = fi_values fi"
    using assms(1) by (auto simp: fitted_def fi'_def)
  show ?thesis
  proof (cases "keep = 0")
    case True
    then show ?thesis using fi' result e by simp
  next
    case False
    have keep: "keep \<le> card pairs" "keep \<le> (remaining - (fi_bytes fi + h)) div 8" by (simp_all add: keep_def)
    then have "length kept_spans = keep" by (simp add: kept_spans_def)
    moreover have "fi_bytes fi + h + keep * 8 \<le> remaining" using False keep(2) by linarith
    moreover have "keep \<le> fi_spans fi" using keep(1) assms(2) e by simp
    ultimately show ?thesis using fi' keep(1) False unfolding result
      by (simp add: fitted_def value_size_def h_def e fi'(2-4))
  qed
qed

lemma fit_fold:
  "fitted remaining header start complete fi \<Longrightarrow> entries_count es \<le> fi_spans fi \<Longrightarrow>
     fitted remaining header start complete (foldl (fit_value remaining) fi es)"
proof (induction es arbitrary: fi)
  case (Cons e es)
  have "card (snd e) \<le> fi_spans fi" using Cons.prems(2) by (simp add: entries_count_def)
  note f = fit_value_fitted [OF Cons.prems(1) this]
  have "entries_count es \<le> fi_spans (fit_value remaining fi e)" using f Cons.prems(2) by (simp add: entries_count_def)
  then show ?case using Cons.IH f by simp
qed simp

lemma sum_list_insort: "sum_list (map f (insort_key k x xs)) = f x + sum_list (map f xs)" for f :: "'a \<Rightarrow> nat"
  by (induction xs) auto

lemma sum_list_sort: "sum_list (map f (sort_key k xs)) = sum_list (map f xs)" for f :: "'a \<Rightarrow> nat"
  by (induction xs) (simp_all add: sum_list_insort)

lemma entries_in_order_count: "entries_count (entries_in_order es) = entries_count es"
  by (simp add: entries_count_def entries_in_order_def sum_list_sort)

subsection \<open>A record of the page\<close>

definition expression_view :: "expression_state \<Rightarrow> page_view" where
  "expression_view ex = \<lparr>vw_progress = ex_progress ex, vw_records = ex_records ex, vw_spans = ex_spans ex,
     vw_bytes = ex_bytes ex, vw_complete = ex_complete ex\<rparr>"

definition expression_inv :: "engine \<Rightarrow> search_request \<Rightarrow> bool \<Rightarrow> nat \<Rightarrow> trace_record list \<Rightarrow> expression_state \<Rightarrow> bool" where
  "expression_inv en request recovery base ys ex = page_inv en request recovery base ys (expression_view ex)"

lemma expression_matched_inv:
  assumes I: "expression_inv en request recovery base ys ex"
    and id: "length (trace_record.tr_id r) \<le> MAX_RECORD_ID_BYTES"
    and base: "base + 6 + MAX_RECORD_ID_BYTES \<le> MAX_SEARCH_RESPONSE_BYTES"
    and r: "answer en request r" and cs: "collected (ex_spans ex) complete cs"
    and complete: "complete \<longrightarrow> ex_complete ex \<and> analysis_complete"
  shows "turn_inv (expression_inv en request recovery base) ys r (expression_matched r analysis_complete cs ex)"
proof -
  define header where "header = 6 + length (trace_record.tr_id r)"
  define fi where "fi = foldl (fit_value (ex_bytes ex))
    \<lparr>fi_bytes = header, fi_spans = ex_spans ex, fi_values = [], fi_exhausted = cs_exhausted cs,
     fi_spans_complete = cs_spans_complete cs, fi_complete = cs_complete cs\<rparr> (entries_in_order (cs_entries cs))"
  define over where "over \<longleftrightarrow> ex_bytes ex < fi_bytes fi"
  define ex1 where "ex1 = ex\<lparr>ex_spans := fi_spans fi, ex_complete := fi_complete fi \<and> \<not> over\<rparr>"
  define exhausted where "exhausted \<longleftrightarrow> fi_exhausted fi \<or> over"
  define spans_complete where "spans_complete \<longleftrightarrow> fi_spans_complete fi \<and> \<not> over"
  define state where "state = \<lparr>ts_membership = Some True, ts_analysis_complete = analysis_complete,
    ts_spans_complete = (spans_complete \<and> analysis_complete)\<rparr>"
  define ex2 where "ex2 = ex1\<lparr>ex_bytes := ex_bytes ex1 - fi_bytes fi,
    ex_records := ex_records ex1 @ [\<lparr>trace_record_match.tr_id = trace_record.tr_id r, tr_values = fi_values fi\<rparr>],
    ex_progress := progress_consume state (ex_progress ex1)\<rparr>"
  let ?v = "expression_view ex" and ?I = "expression_inv en request recovery base"
  have I': "page_inv en request recovery base ys ?v" using I by (simp add: expression_inv_def)
  have rec: "pr_recovery (ex_progress ex) = recovery" using I' by (simp add: page_inv_def expression_view_def)
  have result: "expression_matched r analysis_complete cs ex = (if over \<and> \<not> recovery then Stay ex1
      else if progress_defer (ex_progress ex1) exhausted then Leave (ex1\<lparr>ex_complete := False\<rparr>)
      else if recovery \<and> exhausted then Leave ex2 else Stay ex2)"
    by (simp add: expression_matched_def Let_def rec ex2_def state_def spans_complete_def exhausted_def ex1_def
        over_def fi_def header_def)
  have "fitted (ex_bytes ex) header (ex_spans ex) complete fi" unfolding fi_def
    by (rule fit_fold) (use cs in \<open>auto simp: fitted_def collected_def entries_in_order_count\<close>)
  then have fi: "values_spans (fi_values fi) + fi_spans fi = ex_spans ex" "fi_bytes fi = header + values_size (fi_values fi)"
    "fi_values fi \<noteq> [] \<longrightarrow> fi_bytes fi \<le> ex_bytes ex" "fi_complete fi \<longrightarrow> complete \<and> fi_spans_complete fi"
    by (auto simp: fitted_def)
  have fits: "fi_bytes fi \<le> ex_bytes ex" if "\<not> (over \<and> \<not> recovery)" "\<not> progress_defer (ex_progress ex1) exhausted"
  proof (rule ccontr)
    assume h: "\<not> ?thesis"
    then have "over" "recovery" using that by (auto simp: over_def)
    then have "pr_states (ex_progress ex) = []" using that(2) rec by (auto simp: progress_defer_def ex1_def exhausted_def)
    then have "ex_bytes ex = MAX_SEARCH_RESPONSE_BYTES - base"
      using page_first [OF I' \<open>recovery\<close>] by (simp add: expression_view_def)
    moreover have "fi_values fi = []" using fi(3) h by auto
    ultimately show False using h id base fi(2) by (simp add: header_def)
  qed
  consider (silent) "over" "\<not> recovery" "expression_matched r analysis_complete cs ex = Stay ex1"
    | (leave) "progress_defer (ex_progress ex1) exhausted"
        "expression_matched r analysis_complete cs ex = Leave (ex1\<lparr>ex_complete := False\<rparr>)"
    | (push) "\<not> (over \<and> \<not> recovery)" "\<not> progress_defer (ex_progress ex1) exhausted"
        "expression_matched r analysis_complete cs ex = Leave ex2 \<or> expression_matched r analysis_complete cs ex = Stay ex2"
    unfolding result by (cases "over \<and> \<not> recovery"; cases "progress_defer (ex_progress ex1) exhausted"; cases "recovery \<and> exhausted") simp_all
  then show ?thesis
  proof cases
    case silent
    have "?I (ys @ [r]) ex1" using page_silent [of en request base ys ?v "expression_view ex1" r] I' silent(2) fi complete
      by (auto simp: expression_inv_def same_page_def expression_view_def ex1_def)
    then show ?thesis using silent by (simp add: turn_inv_def)
  next
    case leave
    have "?I ys (ex1\<lparr>ex_complete := False\<rparr>)"
      using page_leave [of en request recovery base ys ?v "expression_view (ex1\<lparr>ex_complete := False\<rparr>)"] I' fi(1)
      by (auto simp: expression_inv_def same_page_def expression_view_def ex1_def)
    moreover have "ys \<noteq> []" using page_defer [OF I', of exhausted] leave(1) by (simp add: expression_view_def ex1_def)
    ultimately show ?thesis using leave(2) by (simp add: turn_inv_def)
  next
    case push
    note fits = fits [OF push(1,2)]
    have "page_inv en request recovery base (ys @ [r]) (expression_view ex2)"
      by (rule page_push [OF I' r, where st = state
              and m = "\<lparr>trace_record_match.tr_id = trace_record.tr_id r, tr_values = fi_values fi\<rparr>"])
        (use fi fits complete in \<open>auto simp: expression_view_def ex2_def ex1_def state_def record_size_def header_def
          values_size_def values_spans_def state_complete_def spans_complete_def over_def\<close>)
    then show ?thesis using push(3) by (auto simp: turn_inv_def expression_inv_def)
  qed
qed

lemma expression_skip:
  assumes "expression_inv en request recovery base ys ex" "ex_complete ex' \<longrightarrow> ex_complete ex \<and> state_complete st"
    and "ex_progress ex' = progress_consume st (ex_progress ex)" "ex_records ex' = ex_records ex" "ex_spans ex' = ex_spans ex"
      "ex_bytes ex' = ex_bytes ex"
    and "state_right en request r st" "ts_membership st \<noteq> Some True"
  shows "expression_inv en request recovery base (ys @ [r]) ex'"
  using assms page_skip [of en request recovery base ys "expression_view ex" "expression_view ex'" st r]
  by (auto simp: expression_inv_def expression_view_def same_page_def)

lemma memberships_right:
  assumes ok: "sources_ok en surface_fields (record_values selected (tr_fields r)) ss"
    and turns: "turns (member_leaf en progress (ss_missing ss) (ss_sources ss)) leaves (ms, p) = Ok (Stay (ms', p'))"
    and fits: "\<forall>leaf \<in> set leaves. leaf_fits selected surface_fields leaf" "expression_leaves e \<subseteq> {..< length leaves}"
    and start: "ms_membership ms = []"
  shows "de_matched (evaluate e (ms_membership ms')) = Some b \<Longrightarrow> b = truth e (leaf_values en r leaves)"
    and "\<not> ms_any_unknown ms' \<Longrightarrow> de_matched (evaluate e (ms_membership ms')) \<noteq> None"
proof -
  obtain new where new: "ms_membership ms' = new" "list_all2 (member_right en r) leaves new" "\<not> ms_any_unknown ms' \<longrightarrow> None \<notin> set new"
    using member_leaves [OF ok turns fits(1)] start by auto
  have len: "length new = length leaves" using list_all2_lengthD [OF new(2)] by simp
  have "agrees new (leaf_values en r leaves)"
    using list_all2_nthD2 [OF new(2)] by (auto simp: agrees_def member_right_def leaf_values_def)
  from evaluate_sound [OF this] fits(2) len
  show "de_matched (evaluate e (ms_membership ms')) = Some b \<Longrightarrow> b = truth e (leaf_values en r leaves)"
    unfolding new(1) by auto
  show "\<not> ms_any_unknown ms' \<Longrightarrow> de_matched (evaluate e (ms_membership ms')) \<noteq> None"
    using evaluate_decided [of new e] new fits(2) len by simp
qed

lemma expression_leave:
  assumes "expression_inv en request recovery base ys ex" "progress_defer (ex_progress ex) exhausted"
    and "ex_progress ex' = ex_progress ex" "ex_records ex' = ex_records ex" "ex_spans ex' = ex_spans ex" "ex_bytes ex' = ex_bytes ex"
      "\<not> ex_complete ex'"
  shows "turn_inv (\<lambda>ys s. expression_inv en request recovery base ys (fst s)) ys r (Leave (ex', q))"
  using assms page_defer [of en request recovery base ys "expression_view ex" exhausted]
    page_leave [of en request recovery base ys "expression_view ex" "expression_view ex'"]
  by (auto simp: turn_inv_def expression_inv_def expression_view_def same_page_def)

lemma expression_same:
  assumes "expression_inv en request recovery base ys ex" "ex_progress ex' = ex_progress ex" "ex_records ex' = ex_records ex"
    "ex_spans ex' = ex_spans ex" "ex_bytes ex' = ex_bytes ex" "ex_complete ex' \<longrightarrow> ex_complete ex"
  shows "expression_inv en request recovery base ys ex'"
  using assms page_leave [of en request recovery base ys "expression_view ex" "expression_view ex'"]
  by (auto simp: expression_inv_def expression_view_def same_page_def)

lemma with_patience_inv:
  "turn_inv I ys r t \<Longrightarrow> turn_inv (\<lambda>ys s. I ys (fst s)) ys r (with_patience p t)"
  by (cases t) (auto simp: turn_inv_def with_patience_def)

lemma expression_spans_inv:
  assumes step: "expression_spans en leaves sources r indices analysis_complete exhausted (ex, p) = Ok t"
    and I: "expression_inv en request recovery base ys ex"
    and id: "length (trace_record.tr_id r) \<le> MAX_RECORD_ID_BYTES"
    and base: "base + 6 + MAX_RECORD_ID_BYTES \<le> MAX_SEARCH_RESPONSE_BYTES"
    and r: "answer en request r" and complete: "ex_complete ex \<longrightarrow> analysis_complete"
  shows "turn_inv (\<lambda>ys s. expression_inv en request recovery base ys (fst s)) ys r t"
proof -
  let ?cs = "\<lparr>cs_work = ex_work ex, cs_exhausted = exhausted, cs_spans_complete = True, cs_complete = ex_complete ex,
         cs_entries = [], cs_pending = ex_spans ex\<rparr>"
  obtain u where u: "turns (collect_leaf en (ex_progress ex) leaves sources) indices (?cs, p) = Ok u"
    "t = (case u of Leave (cs, p) \<Rightarrow> Leave (ex\<lparr>ex_complete := False\<rparr>, p)
       | Stay (cs, p) \<Rightarrow> with_patience p (expression_matched r analysis_complete cs (ex\<lparr>ex_work := cs_work cs\<rparr>)))"
    using step by (auto simp: expression_spans_def and_then_Ok_iff)
  have "collected (ex_spans ex) (ex_complete ex) ?cs" by (simp add: collected_def entries_count_def)
  note c = collect_collected [OF u(1) this]
  show ?thesis
  proof (cases u)
    case (Leave l)
    then obtain q where t: "t = Leave (ex\<lparr>ex_complete := False\<rparr>, q)" using u(2) by (cases l) auto
    have "progress_defer (ex_progress ex) True" using c Leave by simp
    then show ?thesis unfolding t by (intro expression_leave [OF I]) simp_all
  next
    case (Stay l)
    obtain cs q where l: "l = (cs, q)" by (cases l)
    have "expression_inv en request recovery base ys (ex\<lparr>ex_work := cs_work cs\<rparr>)"
      by (rule expression_same [OF I]) simp_all
    from expression_matched_inv [OF this id base r, of "ex_complete ex" cs analysis_complete]
    show ?thesis using u(2) Stay l c complete by (auto intro: with_patience_inv)
  qed
qed

lemma expression_decided_inv:
  assumes step: "expression_decided en leaves e sources r ms (ex, p) = Ok t"
    and I: "expression_inv en request recovery base ys ex"
    and id: "length (trace_record.tr_id r) \<le> MAX_RECORD_ID_BYTES"
    and base: "base + 6 + MAX_RECORD_ID_BYTES \<le> MAX_SEARCH_RESPONSE_BYTES"
    and right: "\<And>b. de_matched (evaluate e (ms_membership ms)) = Some b \<Longrightarrow> answer en request r = b"
      "\<not> ms_any_unknown ms \<Longrightarrow> de_matched (evaluate e (ms_membership ms)) \<noteq> None"
  shows "turn_inv (\<lambda>ys s. expression_inv en request recovery base ys (fst s)) ys r t"
proof -
  let ?ex = "ex\<lparr>ex_complete := ex_complete ex \<and> \<not> ms_any_unknown ms, ex_work := ms_work ms\<rparr>"
  let ?d = "evaluate e (ms_membership ms)"
  let ?st = "\<lparr>ts_membership = de_matched ?d, ts_analysis_complete = (\<not> ms_any_unknown ms),
      ts_spans_complete = (\<not> ms_any_unknown ms)\<rparr>"
  have I': "expression_inv en request recovery base ys ?ex" by (rule expression_same [OF I]) simp_all
  consider (leave) "progress_defer (ex_progress ex) (ms_exhausted ms)" "t = Leave (?ex\<lparr>ex_complete := False\<rparr>, p)"
    | (no) "de_matched ?d \<noteq> Some True"
        "t = with_patience p (expression_undecided (de_matched ?d) (\<not> ms_any_unknown ms) (ms_exhausted ms) ?ex)"
    | (yes) "de_matched ?d = Some True"
        "expression_spans en leaves sources r (de_leaves ?d) (\<not> ms_any_unknown ms) (ms_exhausted ms) (?ex, p) = Ok t"
    using step by (auto simp: expression_decided_def Let_def split: if_splits)
  then show ?thesis
  proof cases
    case leave
    show ?thesis unfolding leave(2) by (rule expression_leave [OF I leave(1)]) simp_all
  next
    case no
    have "state_right en request r ?st" using right by (cases "ms_any_unknown ms") (auto simp: state_right_def split: option.splits)
    then have "expression_inv en request recovery base (ys @ [r]) (?ex\<lparr>ex_progress := progress_consume ?st (ex_progress ex)\<rparr>)"
      using no(1) by (intro expression_skip [OF I', where st = ?st]) (simp_all add: state_complete_def)
    then have "turn_inv (expression_inv en request recovery base) ys r
        (expression_undecided (de_matched ?d) (\<not> ms_any_unknown ms) (ms_exhausted ms) ?ex)"
      by (simp add: turn_inv_def expression_undecided_def Let_def)
    then show ?thesis unfolding no(2) by (rule with_patience_inv)
  next
    case yes
    show ?thesis by (rule expression_spans_inv [OF yes(2) I' id base]) (use right(1) yes(1) in simp_all)
  qed
qed

lemma expression_record_inv:
  assumes step: "expression_record en leaves e selected surface_fields (rq_candidate_ids request) r (ex, p) = Ok t"
    and I: "expression_inv en request recovery base ys ex" and wf: "wf_tokenizers en"
    and fits: "\<forall>leaf \<in> set leaves. leaf_fits selected surface_fields leaf" "expression_leaves e \<subseteq> {..< length leaves}"
    and meaning: "truth e (leaf_values en r leaves) = holds en r False (rq_expression request)"
    and id: "length (trace_record.tr_id r) \<le> MAX_RECORD_ID_BYTES"
    and base: "base + 6 + MAX_RECORD_ID_BYTES \<le> MAX_SEARCH_RESPONSE_BYTES"
  shows "turn_inv (\<lambda>ys s. expression_inv en request recovery base ys (fst s)) ys r t"
proof (cases "excluded (rq_candidate_ids request) r")
  case True
  then obtain q where t: "t = Stay (ex\<lparr>ex_progress := progress_consume not_candidate (ex_progress ex)\<rparr>, q)"
    using step by (auto simp: expression_record_def and_then_Ok_iff)
  show ?thesis unfolding t turn_inv_def turn.case fst_conv
    by (rule expression_skip [OF I, where st = not_candidate])
      (use True in \<open>simp_all add: not_candidate_def state_complete_def state_right_def answer_def\<close>)
next
  case False
  obtain q0 ss q1 u where ss: "source_fields en surface_fields selected (tr_fields r)
        (\<lparr>ss_sources = [], ss_tokens = MAX_TRACE_EXPRESSION_TOKENS, ss_missing = {}\<rparr>, q0) = Ok (ss, q1)"
    and u: "turns (member_leaf en (ex_progress ex) (ss_missing ss) (ss_sources ss)) leaves
        (\<lparr>ms_work = ex_work ex, ms_exhausted = False, ms_membership = [], ms_any_unknown = False\<rparr>, q1) = Ok u"
    and t: "(case u of Leave (ms, p) \<Rightarrow> Ok (Leave (ex\<lparr>ex_complete := False\<rparr>, p))
       | Stay (ms, p) \<Rightarrow> expression_decided en leaves e (ss_sources ss) r ms (ex, p)) = Ok t"
    using step False by (auto simp: expression_record_def and_then_Ok_iff)
  have ok: "sources_ok en surface_fields (record_values selected (tr_fields r)) ss"
    using source_fields_ok [OF wf ss, of "[]"] by (simp add: sources_ok_def)
  show ?thesis
  proof (cases u)
    case (Leave l)
    then obtain ms q where t: "t = Leave (ex\<lparr>ex_complete := False\<rparr>, q)" using t by (cases l) auto
    show ?thesis unfolding t by (rule expression_leave [OF I member_leaf_leave [OF u [unfolded Leave]]]) simp_all
  next
    case (Stay l)
    obtain ms q where l: "l = (ms, q)" by (cases l)
    note right = memberships_right [OF ok u [unfolded Stay l] fits]
    have "expression_decided en leaves e (ss_sources ss) r ms (ex, q) = Ok t" using t Stay l by simp
    then show ?thesis
    proof (rule expression_decided_inv [OF _ I id base])
      show "de_matched (evaluate e (ms_membership ms)) = Some b \<Longrightarrow> answer en request r = b" for b
        using right(1) [of b] meaning False by (simp add: answer_def)
      show "\<not> ms_any_unknown ms \<Longrightarrow> de_matched (evaluate e (ms_membership ms)) \<noteq> None" using right(2) by simp
    qed
  qed
qed

section \<open>The whole trace\<close>

definition page_base :: "bool \<Rightarrow> trace_record list \<Rightarrow> nat" where
  "page_base recovery records = 3 + (if recovery then 2 + length records else 0)"

definition page_of :: "bool \<Rightarrow> trace_record list \<Rightarrow> page_view \<Rightarrow> trace_page_result" where
  "page_of recovery records v = progress_finish
     \<lparr>tr_complete = (vw_complete v \<and> (\<not> recovery \<or> length (pr_states (vw_progress v)) = length records)),
      tr_records = vw_records v\<rparr> (vw_progress v)"

definition page_ok :: "engine \<Rightarrow> search_request \<Rightarrow> bool \<Rightarrow> trace_record list \<Rightarrow> trace_page_result \<Rightarrow> bool" where
  "page_ok en request recovery records page \<longleftrightarrow> (\<exists>ys v. prefix ys records \<and> (recovery \<and> records \<noteq> [] \<longrightarrow> ys \<noteq> []) \<and>
     page_inv en request recovery (page_base recovery records) ys v \<and> page = page_of recovery records v)"

lemma admitted_records:
  assumes "validate_trace_admission request records = Ok ()"
  shows "r \<in> set records \<Longrightarrow> length (trace_record.tr_id r) \<le> MAX_RECORD_ID_BYTES"
    and "page_base recovery records + 6 + MAX_RECORD_ID_BYTES \<le> MAX_SEARCH_RESPONSE_BYTES"
proof -
  have ok: "trace_records_ok records" using assms is_ok_trace_admission [of request records] by (simp add: trace_admissible_def)
  then show "r \<in> set records \<Longrightarrow> length (trace_record.tr_id r) \<le> MAX_RECORD_ID_BYTES"
    by (simp add: trace_records_ok_def list_all_iff)
  have "length records \<le> 100" using ok by (simp add: trace_records_ok_def limit_defs)
  then show "page_base recovery records + 6 + MAX_RECORD_ID_BYTES \<le> MAX_SEARCH_RESPONSE_BYTES"
    by (simp add: page_base_def limit_defs)
qed

lemma trace_clause_ok:
  assumes "trace_clause en request clause records p recovery = Ok (page, p')" "rq_expression request = Clause clause"
    and wf: "wf_tokenizers en" and admitted: "validate_trace_admission request records = Ok ()"
  shows "page_ok en request recovery records page"
proof -
  note adm = admitted_records [OF admitted]
  have base: "page_base recovery records \<le> MAX_SEARCH_RESPONSE_BYTES" using adm(2) [of recovery] by simp
  obtain selected where sel: "selected_fields en (cl_fields clause) = Ok selected"
    using assms(1) by (auto simp: trace_clause_def and_then_Ok_iff)
  show ?thesis
  proof (cases "\<not> recovery \<and> rq_candidate_ids request = Some []")
    case True
    let ?v = "\<lparr>vw_progress = progress_new recovery, vw_records = [], vw_spans = MAX_TRACE_SPANS,
      vw_bytes = MAX_SEARCH_RESPONSE_BYTES - page_base recovery records, vw_complete = True\<rparr>"
    have "page = page_of recovery records ?v"
      using True assms(1) sel by (auto simp: trace_clause_def and_then_Ok_iff page_of_def)
    then show ?thesis unfolding page_ok_def using page_start [OF base] True by (intro exI [of _ "[]"] exI [of _ ?v]) auto
  next
    case False
    let ?names = "set (map ef_name selected)"
    let ?pg = "\<lparr>pg_complete = True, pg_spans = MAX_TRACE_SPANS, pg_bytes = page_base recovery records,
           pg_progress = progress_new recovery, pg_records = []\<rparr>"
    obtain plan t where plan: "trace_plan en clause = Ok plan" and
      t: "turns (clause_record en plan ?names (rq_candidate_ids request)) records (?pg, p) = Ok t" and
      page: "page = finish_page recovery records (fst (turn_state t))"
      using assms(1) sel False by (auto simp: trace_clause_def and_then_Ok_iff page_base_def case_prod_beta)
    let ?I = "\<lambda>ys s. clause_inv en request recovery (page_base recovery records) ys (fst s)"
    have "\<exists>ys. prefix ys records \<and> (records \<noteq> [] \<longrightarrow> ys \<noteq> []) \<and> ?I ys (turn_state t)"
    proof (rule turns_rule [OF t])
      show "?I [] (?pg, p)" using page_start [OF base, of en request recovery True] base by (simp add: clause_inv_def clause_view_def)
      fix ys r s u
      assume h: "prefix (ys @ [r]) records" "?I ys s" "clause_record en plan ?names (rq_candidate_ids request) r s = Ok u"
      then have r: "r \<in> set records" by (auto dest: set_mono_prefix)
      have meaning: "holds en r False (rq_expression request) \<longleftrightarrow>
          plan_holds (en_fuzzy_query en) plan False (full_sources en ?names r)"
        using plan sel assms(2) by (simp add: clause_holds_def)
      obtain pg q where s: "s = (pg, q)" by (cases s)
      have "turn_inv ?I ys r u"
        by (rule clause_record_inv [OF _ _ trace_plan_wf [OF wf plan] wf meaning adm(1) [OF r] adm(2)]) (use h s in simp_all)
      then show "case u of Stay s' \<Rightarrow> ?I (ys @ [r]) s' | Leave s' \<Rightarrow> ?I (ys @ [r]) s' \<or> ys \<noteq> [] \<and> ?I ys s'"
        by (simp add: turn_inv_def)
    qed
    then obtain ys where ys: "prefix ys records" "records \<noteq> [] \<longrightarrow> ys \<noteq> []" "?I ys (turn_state t)" by blast
    let ?v = "clause_view (fst (turn_state t))"
    have "page = page_of recovery records ?v" by (simp add: page finish_page_def page_of_def clause_view_def)
    then show ?thesis using ys unfolding page_ok_def clause_inv_def by (intro exI [of _ ys] exI [of _ ?v]) auto
  qed
qed

lemma prepared_leaf_fits:
  assumes "prepared en [] leaves" "wf_tokenizers en"
  shows "\<forall>leaf \<in> set leaves.
    leaf_fits (\<Union> (lf_fields ` set leaves)) (\<Union> (lf_fields ` set (filter leaf_needs_surface leaves))) leaf"
  using assms trace_plan_wf [OF assms(2)] by (fastforce simp: prepared_def leaf_fits_def)

lemma trace_expression_page_ok:
  assumes "trace_expression_page en request records p recovery = Ok (page, p')"
    and wf: "wf_tokenizers en" and admitted: "validate_trace_admission request records = Ok ()"
  shows "page_ok en request recovery records page"
proof -
  note adm = admitted_records [OF admitted]
  have base: "page_base recovery records \<le> MAX_SEARCH_RESPONSE_BYTES" using adm(2) [of recovery] by simp
  let ?ex = "\<lparr>ex_complete = True, ex_records = [], ex_spans = MAX_TRACE_SPANS,
            ex_bytes = MAX_SEARCH_RESPONSE_BYTES - page_base recovery records,
            ex_progress = progress_new recovery, ex_work = MAX_TRACE_WORK_TOKENS\<rparr>"
  let ?selected = "\<lambda>leaves. \<Union> (lf_fields ` set leaves)"
  let ?surface = "\<lambda>leaves. \<Union> (lf_fields ` set (filter leaf_needs_surface leaves))"
  obtain e leaves b t where prep: "prepare en (rq_expression request) False ([], no_construction) = Ok (e, leaves, b)" and
    t: "turns (expression_record en leaves e (?selected leaves) (?surface leaves) (rq_candidate_ids request)) records (?ex, p) = Ok t" and
    page: "page = page_of recovery records (expression_view (fst (turn_state t)))"
    using assms(1) by (auto simp: trace_expression_page_def and_then_Ok_iff page_base_def case_prod_beta Let_def page_of_def
        expression_view_def diff_diff_left)
  note holds = prepare_holds(1) [OF prep]
  let ?I = "\<lambda>ys s. expression_inv en request recovery (page_base recovery records) ys (fst s)"
  have "\<exists>ys. prefix ys records \<and> (records \<noteq> [] \<longrightarrow> ys \<noteq> []) \<and> ?I ys (turn_state t)"
  proof (rule turns_rule [OF t])
    show "?I [] (?ex, p)" using page_start [OF base, of en request recovery True] by (simp add: expression_inv_def expression_view_def)
    fix ys r s u
    assume h: "prefix (ys @ [r]) records" "?I ys s"
      "expression_record en leaves e (?selected leaves) (?surface leaves) (rq_candidate_ids request) r s = Ok u"
    then have r: "r \<in> set records" by (auto dest: set_mono_prefix)
    obtain ex q where s: "s = (ex, q)" by (cases s)
    have "turn_inv ?I ys r u"
      by (rule expression_record_inv [OF _ _ wf prepared_leaf_fits [OF _ wf] _ _ adm(1) [OF r] adm(2)])
        (use h s holds [of r, THEN conjunct1] holds [of r, THEN conjunct2, THEN conjunct1]
          holds [of r, THEN conjunct2, THEN conjunct2] in simp_all)
    then show "case u of Stay s' \<Rightarrow> ?I (ys @ [r]) s' | Leave s' \<Rightarrow> ?I (ys @ [r]) s' \<or> ys \<noteq> [] \<and> ?I ys s'"
      by (simp add: turn_inv_def)
  qed
  then show ?thesis unfolding page_ok_def page expression_inv_def by blast
qed

lemma trace_inner_ok:
  assumes "trace_matches_inner en request records p recovery = Ok (page, p')" "wf_tokenizers en"
  shows "page_ok en request recovery records page"
proof -
  obtain q where q: "validate_trace_admission request records = Ok ()"
    "(case rq_expression request of Clause clause \<Rightarrow> trace_clause en request clause records q recovery
     | _ \<Rightarrow> trace_expression_page en request records q recovery) = Ok (page, p')"
    using assms(1) by (auto simp: trace_matches_inner_def and_then_Ok_iff)
  then show ?thesis using trace_clause_ok assms(2) trace_expression_page_ok [OF _ assms(2) q(1)]
    by (cases "rq_expression request") auto
qed

end
