(* ===== verification/Tracing.thy ===== *)
theory Tracing
  imports Trace_Answers "HOL-Library.Code_Target_Nat"
begin

text \<open>
  The properties of match tracing as a whole: what a trace answers is right for the records as they
  are, whatever was cut off on the way; a page in recovery mode says for every record it consumed
  what it knows, takes at least one record and, when it is complete, has all matches; and the encoded
  response is within its limit.
\<close>

section \<open>A small engine\<close>

definition sample_tokens :: tokenizer where
  "sample_tokens t = (if t = [] \<or> CHR ''_'' \<in> set t then []
     else [\<lparr>tk_text = t, tk_start = 0, tk_end = length t, tk_position = 0\<rparr>])"

definition sample_engine :: engine where
  "sample_engine = \<lparr>en_schema = [], en_id_field = 0, en_version_field = 1, en_fields = [\<lparr>ef_name = ''title'', ef_field = 2, ef_surface_field = Some 3, ef_weight = 0\<rparr>],
     en_field_lookup = [''title'' \<mapsto> 0], en_filter_fields = [], en_filter_field_lookup = Map.empty,
     en_analyzer = sample_tokens, en_surface_analyzer = sample_tokens, en_index_analyzer = sample_tokens,
     en_surface_index_analyzer = sample_tokens, en_final_analyzer = sample_tokens,
     en_fuzzy_query = (\<lambda>_ _ _. Err (invalid ''no automaton'')),
     en_is_alphabetic = (\<lambda>c. 97 \<le> c \<and> c \<le> 122), en_is_numeric = (\<lambda>c. 48 \<le> c \<and> c \<le> 57),
     en_positions = True, en_max_query_terms = 8, en_max_query_clauses = 8\<rparr>"

definition word_clause :: "search_mode \<Rightarrow> string \<Rightarrow> search_expression" where
  "word_clause mode t = Clause \<lparr>cl_text = t, cl_mode = mode, cl_options = default_query_options, cl_fields = []\<rparr>"

definition sample_request :: "search_expression \<Rightarrow> search_request" where
  "sample_request e = \<lparr>rq_sort = None, rq_aggregations = [], rq_expression = e, rq_candidate_ids = None, rq_filter = None,
     rq_offset = 0, rq_limit = 1, rq_exact_total = False, rq_budget_milliseconds = 5, rq_traversal = False, rq_after = None\<rparr>"

definition sample_records :: "trace_record list" where
  "sample_records = [\<lparr>trace_record.tr_id = ''k1'', tr_fields = [(''title'', [''rust''])]\<rparr>, \<lparr>trace_record.tr_id = ''k2'', tr_fields = [(''title'', [''lisp''])]\<rparr>]"

definition sample_query :: search_request where
  "sample_query = sample_request (OrE [word_clause Fuzzy ''ruts'', NotE (word_clause Prefix ''lis'')])"

lemma wf_sample_engine: "wf_tokenizers sample_engine"
  by (auto simp: wf_tokenizers_def sample_engine_def sample_tokens_def)

lemma sample_page: "\<exists>page. trace_matches_page sample_engine sample_query sample_records None = Ok page \<and>
    tp_next_record page = 2 \<and> tr_complete (tp_trace page) \<and> map trace_record_match.tr_id (tr_records (tp_trace page)) = [''k1'']"
proof -
  have "(case trace_matches_page sample_engine sample_query sample_records None of
      Ok page \<Rightarrow> tp_next_record page = 2 \<and> tr_complete (tp_trace page) \<and>
        map trace_record_match.tr_id (tr_records (tp_trace page)) = [''k1''] | Err _ \<Rightarrow> False)"
    by code_simp
  then show ?thesis by (cases "trace_matches_page sample_engine sample_query sample_records None") auto
qed

section \<open>Answers\<close>

lemma matched_ids_filter:
  "list_all2 (state_right en request) rs sts \<Longrightarrow> \<forall>st \<in> set sts. ts_analysis_complete st \<Longrightarrow>
     matched_ids rs sts = map trace_record.tr_id (filter (answer en request) rs)"
proof (induction rs sts rule: list_all2_induct)
  case (Cons r rs st sts)
  have "ts_membership st = Some (answer en request r)"
    using Cons by (auto simp: state_right_def split: option.splits)
  then show ?case using Cons by (simp add: matched_ids_def)
qed (simp add: matched_ids_def)

text \<open>What a page says about the records it took.\<close>

definition page_right :: "engine \<Rightarrow> search_request \<Rightarrow> trace_record list \<Rightarrow> trace_page_result \<Rightarrow> bool" where
  "page_right en request records page \<longleftrightarrow>
     tp_next_record page = length (tp_states page) \<and> tp_next_record page \<le> length records \<and>
     list_all2 (state_right en request) (take (tp_next_record page) records) (tp_states page) \<and>
     map trace_record_match.tr_id (tr_records (tp_trace page)) = matched_ids (take (tp_next_record page) records) (tp_states page)"

lemma page_right_of:
  assumes "page_ok en request True records page"
  shows "page_right en request records page \<and> (records \<noteq> [] \<longrightarrow> 0 < tp_next_record page) \<and>
    (tr_complete (tp_trace page) \<longrightarrow> tp_next_record page = length records \<and> (\<forall>st \<in> set (tp_states page). state_complete st))"
proof -
  obtain ys v where v: "prefix ys records" "records \<noteq> [] \<longrightarrow> ys \<noteq> []" "page_inv en request True (page_base True records) ys v"
    "page = page_of True records v"
    using assms by (auto simp: page_ok_def)
  have right: "list_all2 (state_right en request) ys (tp_states page)"
    "map trace_record_match.tr_id (tr_records (tp_trace page)) = matched_ids ys (tp_states page)"
    "tr_complete (tp_trace page) \<longrightarrow> length (tp_states page) = length records \<and> (\<forall>st \<in> set (tp_states page). state_complete st)"
    "tp_next_record page = length (tp_states page)"
    using v(3) by (auto simp: page_inv_def v(4) page_of_def progress_finish_def)
  have len: "length ys = length (tp_states page)" using right(1) by (rule list_all2_lengthD)
  then have "ys = take (tp_next_record page) records" using v(1) right(4) by (auto simp: prefix_def)
  then show ?thesis using right len v(2) by (auto simp: page_right_def)
qed

lemma trace_page_ok:
  assumes "trace_matches_page en request records p = Ok page" "wf_tokenizers en"
  shows "page_ok en request True records page"
  using assms trace_inner_ok by (auto simp: trace_matches_page_def and_then_Ok_iff)



section \<open>Going on\<close>

text \<open>The pages of a trace, each called on the records that the pages before left over.\<close>

inductive resumes :: "engine \<Rightarrow> search_request \<Rightarrow> trace_record list \<Rightarrow> trace_page_result list \<Rightarrow> bool" for en request where
  resumes_done: "resumes en request [] []"
| resumes_page: "records \<noteq> [] \<Longrightarrow> trace_matches_page en request records p = Ok page \<Longrightarrow>
    resumes en request (drop (tp_next_record page) records) rest \<Longrightarrow> resumes en request records (page # rest)"

lemma matched_ids_join:
  "length rs = length sts \<Longrightarrow> matched_ids (rs @ us) (sts @ vs) = matched_ids rs sts @ matched_ids us vs"
  by (simp add: matched_ids_def)



section \<open>Limits\<close>

lemma length_enc_record: "length (enc_record_match m) = record_size m"
proof -
  have "length (enc_value_match v) = value_size v" for v
    by (simp add: enc_value_match_def value_size_def enc_text_def length_concat enc_span_def comp_def sum_list_triv)
  then have "(\<lambda>v. length (enc_value_match v)) = value_size" by (rule ext)
  then show ?thesis by (simp add: enc_record_match_def record_size_def enc_text_def length_concat comp_def)
qed

lemma length_trace_body: "length (trace_body t) = 3 + sum_list (map record_size (tr_records t))"
  by (simp add: trace_body_def foldl_appends [OF push_record_appends] push_flag_def length_concat comp_def length_enc_record)

lemma length_page_body: "length (trace_page_body page) = length (trace_body (tp_trace page)) + 2 + length (tp_states page)"
proof -
  have "length (foldl (\<lambda>bytes s. bytes @ [state_byte s]) bs sts) = length bs + length sts" for bs sts
    by (induction sts arbitrary: bs) simp_all
  then show ?thesis by (simp add: trace_page_body_def)
qed

text \<open>
  C9. The response of a trace stays within its limits: whatever the records and the search, the
  encoded page, and the encoded trace of the call without recovery, have at most
  \<open>MAX_SEARCH_RESPONSE_BYTES\<close> bytes, there are at most \<open>MAX_TRACE_SPANS\<close> spans in all, and a call without
  recovery answers only records that the search matches.
\<close>

theorem trace_response_bounded:
  assumes "wf_tokenizers en"
  shows "(trace_matches_page en request records p = Ok page \<longrightarrow>
      length (trace_page_body page) \<le> MAX_SEARCH_RESPONSE_BYTES \<and> span_count (tr_records (tp_trace page)) \<le> MAX_TRACE_SPANS) \<and>
    (trace_matches en request records p = Ok trace \<longrightarrow>
      length (trace_body trace) \<le> MAX_SEARCH_RESPONSE_BYTES \<and> span_count (tr_records trace) \<le> MAX_TRACE_SPANS \<and>
      (\<forall>m \<in> set (tr_records trace). \<exists>r \<in> set records. trace_record_match.tr_id m = trace_record.tr_id r \<and> answer en request r))"
proof (intro conjI impI)
  assume page: "trace_matches_page en request records p = Ok page"
  obtain ys v where v: "prefix ys records" "page_inv en request True (page_base True records) ys v" "page = page_of True records v"
    using trace_page_ok [OF page assms] unfolding page_ok_def by blast
  have "length (pr_states (vw_progress v)) \<le> length records"
    using list_all2_lengthD [of "state_right en request" ys "pr_states (vw_progress v)"] prefix_length_le [OF v(1)] v(2)
    by (simp add: page_inv_def)
  then show "length (trace_page_body page) \<le> MAX_SEARCH_RESPONSE_BYTES"
    using v(2) by (simp add: length_page_body length_trace_body v(3) page_of_def progress_finish_def page_inv_def page_base_def)
  show "span_count (tr_records (tp_trace page)) \<le> MAX_TRACE_SPANS"
    using v(2) by (simp add: v(3) page_of_def progress_finish_def page_inv_def)
next
  assume "trace_matches en request records p = Ok trace"
  then obtain page q where page: "trace_matches_inner en request records p False = Ok (page, q)" "trace = tp_trace page"
    by (auto simp: trace_matches_def and_then_Ok_iff)
  obtain ys v where v: "prefix ys records" "page_inv en request False (page_base False records) ys v" "trace = tp_trace (page_of False records v)"
    using trace_inner_ok [OF page(1) assms] page(2) unfolding page_ok_def by blast
  show "length (trace_body trace) \<le> MAX_SEARCH_RESPONSE_BYTES"
    using v(2) by (simp add: length_trace_body v(3) page_of_def progress_finish_def page_inv_def page_base_def)
  show "span_count (tr_records trace) \<le> MAX_TRACE_SPANS"
    using v(2) by (simp add: v(3) page_of_def progress_finish_def page_inv_def)
  show "\<forall>m \<in> set (tr_records trace). \<exists>r \<in> set records. trace_record_match.tr_id m = trace_record.tr_id r \<and> answer en request r"
    using v(2) set_mono_prefix [OF v(1)] by (fastforce simp: v(3) page_of_def progress_finish_def page_inv_def)
qed

theorem trace_response_bounded_witness:
  "\<exists>page. trace_matches_page sample_engine sample_query sample_records None = Ok page \<and>
     length (trace_page_body page) \<le> MAX_SEARCH_RESPONSE_BYTES"
  using sample_page trace_response_bounded [OF wf_sample_engine, of sample_query sample_records None] by blast

end
