(* ===== verification/Identity.thy ===== *)
theory Identity
  imports Engine Response "HOL-Library.Multiset"
begin

text \<open>
  The identity of an index in \<^verbatim>\<open>src/src/engine.rs\<close>: the bytes of the identity sidecar
  (\<open>identity_bytes\<close>), the reader that accepts the sidecars of every version
  (\<open>persisted_index_id\<close>) and the canonical form of a configuration (\<open>canonical_identity\<close>), which
  makes the identity independent of the order in which synonyms are written.
\<close>

section \<open>The sidecar\<close>

definition push_string_le :: "u8 list \<Rightarrow> string \<Rightarrow> u8 list" where
  "push_string_le bytes value = bytes @ to_le 4 (length value) @ str_bytes value"

definition flag_byte :: "bool \<Rightarrow> u8" where
  "flag_byte b = (if b then 1 else 0)"

definition push_rule :: "u8 list \<Rightarrow> synonym_rule \<Rightarrow> u8 list" where
  "push_rule bytes rule =
     foldl push_string_le
       (push_string_le bytes (syn_source rule) @ to_le 2 (length (syn_replacements rule)))
       (syn_replacements rule)"

definition filter_byte :: "filter_field_type \<Rightarrow> u8" where
  "filter_byte t = (case t of FieldString \<Rightarrow> 0 | FieldNumber \<Rightarrow> 1 | FieldBoolean \<Rightarrow> 2)"

definition push_filter_field :: "u8 list \<Rightarrow> filter_field_config \<Rightarrow> u8 list" where
  "push_filter_field bytes field = push_string_le bytes (ff_name field) @ [filter_byte (ff_type field)]"

definition identity_version :: "engine_identity_config \<Rightarrow> u8" where
  "identity_version config =
     (if id_filter_fields config = [] then 6
      else if list_ex (\<lambda>field. ff_type field = FieldString) (id_filter_fields config) then 8
      else 7)"

definition identity_bytes :: "engine_identity_config \<Rightarrow> u8 list" where
  "identity_bytes config =
     (let bytes = str_bytes ''HTFI'' @ [identity_version config, 0];
          bytes = push_string_le bytes (id_index_id config);
          bytes = push_string_le bytes (id_generation config);
          bytes = push_string_le bytes (id_analyzer config);
          bytes = bytes @ [flag_byte (id_stop_words config), flag_byte (id_positions config), flag_byte (id_surface_terms config)];
          bytes = bytes @ to_le 2 (length (id_synonyms config));
          bytes = foldl push_rule bytes (id_synonyms config);
          bytes = bytes @ to_le 2 (length (id_fields config));
          bytes = foldl (\<lambda>bytes field. push_string_le bytes (fc_name field)) bytes (id_fields config)
      in if id_filter_fields config = [] then bytes
         else foldl push_filter_field (bytes @ to_le 2 (length (id_filter_fields config))) (id_filter_fields config))"

section \<open>Reading a sidecar\<close>

definition slice :: "u8 list \<Rightarrow> nat \<Rightarrow> nat \<Rightarrow> u8 list option" where
  "slice bytes start stop = (if start \<le> stop \<and> stop \<le> length bytes then Some (take (stop - start) (drop start bytes)) else None)"

definition take_le :: "nat \<Rightarrow> u8 list \<Rightarrow> nat \<Rightarrow> (nat \<times> nat) option" where
  "take_le width bytes offset =
     Option.bind (checked_add offset width) (\<lambda>stop.
     Option.bind (slice bytes offset stop) (\<lambda>digits. Some (le_nat digits, stop)))"

definition take_string :: "u8 list \<Rightarrow> nat \<Rightarrow> (string \<times> nat) option" where
  "take_string bytes offset =
     Option.bind (take_le 4 bytes offset) (\<lambda>(len, offset).
     Option.bind (checked_add offset len) (\<lambda>stop.
     Option.bind (slice bytes offset stop) (\<lambda>body.
     Option.bind (from_utf8 body) (\<lambda>value. Some (value, stop)))))"

text \<open>A counted loop that only moves the offset.\<close>

fun skip_times :: "(u8 list \<Rightarrow> nat \<Rightarrow> nat option) \<Rightarrow> nat \<Rightarrow> u8 list \<Rightarrow> nat \<Rightarrow> nat option" where
  "skip_times skip 0 bytes offset = Some offset"
| "skip_times skip (Suc n) bytes offset = Option.bind (skip bytes offset) (\<lambda>offset. skip_times skip n bytes offset)"

definition skip_counted :: "(u8 list \<Rightarrow> nat \<Rightarrow> nat option) \<Rightarrow> u8 list \<Rightarrow> nat \<Rightarrow> nat option" where
  "skip_counted skip bytes offset = Option.bind (take_le 2 bytes offset) (\<lambda>(n, offset). skip_times skip n bytes offset)"

definition skip_string :: "u8 list \<Rightarrow> nat \<Rightarrow> nat option" where
  "skip_string bytes offset = Option.bind (take_string bytes offset) (\<lambda>(_, offset). Some offset)"

definition skip_rule :: "u8 list \<Rightarrow> nat \<Rightarrow> nat option" where
  "skip_rule bytes offset = Option.bind (skip_string bytes offset) (\<lambda>offset. skip_counted skip_string bytes offset)"

definition skip_filter :: "u8 list \<Rightarrow> nat \<Rightarrow> nat option" where
  "skip_filter bytes offset =
     Option.bind (skip_string bytes offset) (\<lambda>offset.
     if \<not> offset < length bytes then None
     else if 2 < bytes ! offset then None
     else Some (offset + 1))"

definition take_flags :: "u8 list \<Rightarrow> nat \<Rightarrow> nat option" where
  "take_flags bytes offset =
     Option.bind (checked_add offset 3) (\<lambda>stop.
     Option.bind (slice bytes offset stop) (\<lambda>flags.
     if list_ex (\<lambda>value. 1 < value) flags then None else Some (offset + 3)))"

definition with_synonyms :: "u8 \<Rightarrow> bool" where
  "with_synonyms version \<longleftrightarrow> version \<in> {3, 4, 5, 6, 7, 8}"

definition with_filters :: "u8 \<Rightarrow> bool" where
  "with_filters version \<longleftrightarrow> version \<in> {5, 7, 8}"

definition supported_version :: "u8 list \<Rightarrow> bool" where
  "supported_version version \<longleftrightarrow> version \<in> set (map (\<lambda>v. [v, 0]) [1, 2, 3, 4, 5, 6, 7, 8])"

definition persisted_body :: "u8 \<Rightarrow> u8 list \<Rightarrow> string option" where
  "persisted_body version bytes =
     Option.bind (take_string bytes 6) (\<lambda>(index_id, offset).
     Option.bind (skip_string bytes offset) (\<lambda>offset.
     Option.bind (skip_string bytes offset) (\<lambda>offset.
     Option.bind (take_flags bytes offset) (\<lambda>offset.
     Option.bind (if with_synonyms version then skip_counted skip_rule bytes offset else Some offset) (\<lambda>offset.
     Option.bind (skip_counted skip_string bytes offset) (\<lambda>offset.
     Option.bind (if with_filters version then skip_counted skip_filter bytes offset else Some offset) (\<lambda>offset.
     if offset = length bytes then Some index_id else None)))))))"

definition persisted_index_id :: "u8 list \<Rightarrow> string option" where
  "persisted_index_id bytes =
     Option.bind (slice bytes 4 6) (\<lambda>version.
     Option.bind (slice bytes 0 4) (\<lambda>magic.
     if magic \<noteq> str_bytes ''HTFI'' \<or> \<not> supported_version version then None
     else persisted_body (version ! 0) bytes))"

section \<open>Sidecars of every version\<close>

record identity_frame =
  fr_version :: u8
  fr_index_id :: string
  fr_generation :: string
  fr_analyzer :: string
  fr_flags :: "bool \<times> bool \<times> bool"
  fr_rules :: "(string \<times> string list) list"
  fr_fields :: "string list"
  fr_filters :: "(string \<times> filter_field_type) list"

definition enc_many :: "('a \<Rightarrow> u8 list) \<Rightarrow> 'a list \<Rightarrow> u8 list" where
  "enc_many enc xs = to_le 2 (length xs) @ concat (map enc xs)"

definition enc_synonym :: "string \<times> string list \<Rightarrow> u8 list" where
  "enc_synonym rule = enc_text (fst rule) @ enc_many enc_text (snd rule)"

definition enc_filter_entry :: "string \<times> filter_field_type \<Rightarrow> u8 list" where
  "enc_filter_entry field = enc_text (fst field) @ [filter_byte (snd field)]"

definition enc_flags :: "bool \<times> bool \<times> bool \<Rightarrow> u8 list" where
  "enc_flags flags = (case flags of (a, b, c) \<Rightarrow> [flag_byte a, flag_byte b, flag_byte c])"

definition enc_frame :: "identity_frame \<Rightarrow> u8 list" where
  "enc_frame f = str_bytes ''HTFI'' @ [fr_version f, 0] @ enc_text (fr_index_id f) @ enc_text (fr_generation f) @
     enc_text (fr_analyzer f) @ enc_flags (fr_flags f) @
     (if with_synonyms (fr_version f) then enc_many enc_synonym (fr_rules f) else []) @
     enc_many enc_text (fr_fields f) @
     (if with_filters (fr_version f) then enc_many enc_filter_entry (fr_filters f) else [])"

definition good_text :: "string \<Rightarrow> bool" where
  "good_text s \<longleftrightarrow> utf8_string s \<and> short s"

definition good_list :: "('a \<Rightarrow> bool) \<Rightarrow> 'a list \<Rightarrow> bool" where
  "good_list good xs \<longleftrightarrow> length xs < 65536 \<and> list_all good xs"

definition good_rule :: "string \<times> string list \<Rightarrow> bool" where
  "good_rule rule \<longleftrightarrow> good_text (fst rule) \<and> good_list good_text (snd rule)"

definition good_frame :: "identity_frame \<Rightarrow> bool" where
  "good_frame f \<longleftrightarrow> fr_version f \<in> {1, 2, 3, 4, 5, 6, 7, 8} \<and> good_text (fr_index_id f) \<and> good_text (fr_generation f) \<and>
     good_text (fr_analyzer f) \<and> good_list good_rule (fr_rules f) \<and> good_list good_text (fr_fields f) \<and>
     good_list (good_text \<circ> fst) (fr_filters f) \<and>
     (\<not> with_synonyms (fr_version f) \<longrightarrow> fr_rules f = []) \<and> (\<not> with_filters (fr_version f) \<longrightarrow> fr_filters f = [])"

section \<open>The reader is exact\<close>

text \<open>
  What every reader of the sidecar promises: it moves over exactly one encoded value.  Offsets stay
  inside the bytes, whose length is an \<open>isize\<close>.
\<close>

locale skipper =
  fixes skip :: "u8 list \<Rightarrow> nat \<Rightarrow> nat option"
    and enc :: "'a \<Rightarrow> u8 list"
    and good :: "'a \<Rightarrow> bool"
  assumes skip_iff: "length bytes \<le> usize_max \<Longrightarrow> offset \<le> length bytes \<Longrightarrow>
    skip bytes offset = Some offset' \<longleftrightarrow>
      (\<exists>x. good x \<and> drop offset bytes = enc x @ drop offset' bytes \<and> offset' = offset + length (enc x) \<and> offset' \<le> length bytes)"

lemma slice_iff: "slice bytes start stop = Some xs \<longleftrightarrow>
    start \<le> stop \<and> stop \<le> length bytes \<and> length xs = stop - start \<and> drop start bytes = xs @ drop stop bytes"
proof -
  have "drop start bytes = take (stop - start) (drop start bytes) @ drop stop bytes" if "start \<le> stop"
    using append_take_drop_id [of "stop - start" "drop start bytes"] that by simp
  then show ?thesis by (auto simp: slice_def)
qed

lemma take_le_iff:
  assumes "length bytes \<le> usize_max" "offset \<le> length bytes"
  shows "take_le width bytes offset = Some (n, offset') \<longleftrightarrow>
    n < 256 ^ width \<and> drop offset bytes = to_le width n @ drop offset' bytes \<and> offset' = offset + width \<and> offset' \<le> length bytes"
proof -
  have "to_le width (le_nat xs) = xs \<and> le_nat xs < 256 ^ width" if "length xs = width" for xs
    using le_nat_bound [of xs] that by auto
  then show ?thesis using assms
    by (auto simp: take_le_def bind_eq_Some_conv slice_iff le_nat_to_le)
qed

lemma take_string_iff:
  assumes "length bytes \<le> usize_max" "offset \<le> length bytes"
  shows "take_string bytes offset = Some (s, offset') \<longleftrightarrow>
    good_text s \<and> drop offset bytes = enc_text s @ drop offset' bytes \<and> offset' = offset + length (enc_text s) \<and>
    offset' \<le> length bytes"
proof -
  have "take_string bytes offset = Some (s, offset') \<longleftrightarrow>
      (\<exists>len mid body. take_le 4 bytes offset = Some (len, mid) \<and> slice bytes mid offset' = Some body \<and> offset' = mid + len \<and>
        offset' \<le> usize_max \<and> utf8_string s \<and> body = str_bytes s)"
    by (auto simp: take_string_def bind_eq_Some_conv)
  also have "\<dots> \<longleftrightarrow> good_text s \<and> drop offset bytes = enc_text s @ drop offset' bytes \<and>
      offset' = offset + length (enc_text s) \<and> offset' \<le> length bytes"
    (is "?l \<longleftrightarrow> ?r")
  proof
    assume ?l
    then obtain len mid where l: "take_le 4 bytes offset = Some (len, mid)" "slice bytes mid offset' = Some (str_bytes s)"
        "offset' = mid + len" "utf8_string s"
      by blast
    then show ?r using take_le_iff [OF assms, of 4 len mid]
      by (auto simp: slice_iff enc_text_def good_text_def short_def)
  next
    assume r: ?r
    let ?mid = "offset + 4"
    have mid: "drop ?mid bytes = str_bytes s @ drop offset' bytes"
    proof -
      have "drop ?mid bytes = drop 4 (drop offset bytes)" by (simp add: add.commute)
      then show ?thesis using r by (simp add: enc_text_def)
    qed
    have "take_le 4 bytes offset = Some (length s, ?mid)"
      using r mid take_le_iff [OF assms, of 4 "length s" ?mid] by (auto simp: enc_text_def good_text_def short_def)
    moreover have "slice bytes ?mid offset' = Some (str_bytes s)" using r mid by (auto simp: slice_iff enc_text_def)
    moreover have "offset' = ?mid + length s" using r by (simp add: enc_text_def)
    ultimately show ?l using r assms(1)
      by - (rule exI [of _ "length s"], rule exI [of _ ?mid], rule exI [of _ "str_bytes s"], auto simp: good_text_def add.assoc)
  qed
  finally show ?thesis .
qed

interpretation text_skip: skipper skip_string enc_text good_text
proof
  fix bytes :: "u8 list" and offset offset' :: nat
  assume h: "length bytes \<le> usize_max" "offset \<le> length bytes"
  show "skip_string bytes offset = Some offset' \<longleftrightarrow>
      (\<exists>x. good_text x \<and> drop offset bytes = enc_text x @ drop offset' bytes \<and> offset' = offset + length (enc_text x) \<and>
        offset' \<le> length bytes)"
    using take_string_iff [OF h] by (auto simp: skip_string_def bind_eq_Some_conv)
qed

context skipper begin

lemma skip_times_iff:
  "length bytes \<le> usize_max \<Longrightarrow> offset \<le> length bytes \<Longrightarrow>
    skip_times skip n bytes offset = Some offset' \<longleftrightarrow>
      (\<exists>xs. length xs = n \<and> list_all good xs \<and> drop offset bytes = concat (map enc xs) @ drop offset' bytes \<and>
        offset' = offset + length (concat (map enc xs)) \<and> offset' \<le> length bytes)"
proof (induction n arbitrary: offset)
  case (Suc n)
  show ?case (is "?l \<longleftrightarrow> ?r")
  proof
    assume ?l
    then obtain mid where mid: "skip bytes offset = Some mid" "skip_times skip n bytes mid = Some offset'"
      by (auto simp: bind_eq_Some_conv)
    obtain x where x: "good x" "drop offset bytes = enc x @ drop mid bytes" "mid = offset + length (enc x)" "mid \<le> length bytes"
      using mid(1) skip_iff [OF Suc.prems] by auto
    obtain xs where "length xs = n" "list_all good xs" "drop mid bytes = concat (map enc xs) @ drop offset' bytes"
      "offset' = mid + length (concat (map enc xs))" "offset' \<le> length bytes"
      using mid(2) Suc.IH [OF Suc.prems(1) x(4)] by auto
    then show ?r using x by (intro exI [of _ "x # xs"]) auto
  next
    assume ?r
    then obtain zs where zs: "length zs = Suc n" "list_all good zs" "drop offset bytes = concat (map enc zs) @ drop offset' bytes"
      "offset' = offset + length (concat (map enc zs))" "offset' \<le> length bytes"
      by blast
    obtain x xs where "zs = x # xs" using zs(1) by (cases zs) auto
    note xs = zs [unfolded this, simplified]
    let ?mid = "offset + length (enc x)"
    have "drop ?mid bytes = drop (length (enc x)) (drop offset bytes)" by (simp add: add.commute)
    then have mid: "drop ?mid bytes = concat (map enc xs) @ drop offset' bytes" using xs(3) by simp
    have "skip bytes offset = Some ?mid" using skip_iff [OF Suc.prems, of ?mid] xs mid by (auto intro: exI [of _ x])
    moreover have "skip_times skip n bytes ?mid = Some offset'"
      using Suc.IH [OF Suc.prems(1), of ?mid] xs mid by auto
    ultimately show ?l by simp
  qed
qed auto

lemma skip_counted_iff:
  assumes "length bytes \<le> usize_max" "offset \<le> length bytes"
  shows "skip_counted skip bytes offset = Some offset' \<longleftrightarrow>
    (\<exists>xs. good_list good xs \<and> drop offset bytes = enc_many enc xs @ drop offset' bytes \<and>
      offset' = offset + length (enc_many enc xs) \<and> offset' \<le> length bytes)"
    (is "?l \<longleftrightarrow> ?r")
proof
  assume ?l
  then obtain n mid where mid: "take_le 2 bytes offset = Some (n, mid)" "skip_times skip n bytes mid = Some offset'"
    by (auto simp: skip_counted_def bind_eq_Some_conv)
  note t = take_le_iff [OF assms, of 2 n mid, THEN iffD1, OF mid(1)]
  then show ?r using skip_times_iff [OF assms(1), of mid n offset'] mid(2) by (auto simp: good_list_def enc_many_def)
next
  assume ?r
  then obtain xs where xs: "good_list good xs" "drop offset bytes = enc_many enc xs @ drop offset' bytes"
    "offset' = offset + length (enc_many enc xs)" "offset' \<le> length bytes"
    by blast
  let ?mid = "offset + 2"
  have "drop ?mid bytes = drop 2 (drop offset bytes)" by (simp add: add.commute)
  then have mid: "drop ?mid bytes = concat (map enc xs) @ drop offset' bytes" using xs(2) by (simp add: enc_many_def)
  have "take_le 2 bytes offset = Some (length xs, ?mid)"
    using take_le_iff [OF assms, of 2 "length xs" ?mid] xs mid by (simp add: enc_many_def good_list_def)
  moreover have "skip_times skip (length xs) bytes ?mid = Some offset'"
    using skip_times_iff [OF assms(1), of ?mid "length xs" offset'] xs mid by (auto simp: enc_many_def good_list_def)
  ultimately show ?l by (simp add: skip_counted_def)
qed

lemma skip_optional_iff:
  assumes "length bytes \<le> usize_max" "offset \<le> length bytes"
  shows "(if c then skip_counted skip bytes offset else Some offset) = Some offset' \<longleftrightarrow>
    (\<exists>xs. (\<not> c \<longrightarrow> xs = []) \<and> good_list good xs \<and>
      drop offset bytes = (if c then enc_many enc xs else []) @ drop offset' bytes \<and>
      offset' = offset + length (if c then enc_many enc xs else []) \<and> offset' \<le> length bytes)"
proof (cases c)
  case True
  then show ?thesis using skip_counted_iff [OF assms, of offset'] by simp
next
  case False
  then show ?thesis using assms(2) by (auto simp: good_list_def)
qed

end

lemma drop_enc: "drop offset bytes = xs @ ys \<Longrightarrow> drop (offset + length xs) bytes = ys"
  by (metis add.commute append_eq_conv_conj drop_drop)

interpretation rule_skip: skipper skip_rule enc_synonym good_rule
proof
  fix bytes :: "u8 list" and offset offset' :: nat
  assume h: "length bytes \<le> usize_max" "offset \<le> length bytes"
  show "skip_rule bytes offset = Some offset' \<longleftrightarrow>
      (\<exists>x. good_rule x \<and> drop offset bytes = enc_synonym x @ drop offset' bytes \<and> offset' = offset + length (enc_synonym x) \<and>
        offset' \<le> length bytes)" (is "?l \<longleftrightarrow> ?r")
  proof
    assume ?l
    then obtain mid where mid: "skip_string bytes offset = Some mid" "skip_counted skip_string bytes mid = Some offset'"
      by (auto simp: skip_rule_def bind_eq_Some_conv)
    obtain s where s: "good_text s" "drop offset bytes = enc_text s @ drop mid bytes" "mid = offset + length (enc_text s)"
        "mid \<le> length bytes"
      using text_skip.skip_iff [OF h, THEN iffD1, OF mid(1)] by blast
    obtain ss where "good_list good_text ss" "drop mid bytes = enc_many enc_text ss @ drop offset' bytes"
      "offset' = mid + length (enc_many enc_text ss)" "offset' \<le> length bytes"
      using text_skip.skip_counted_iff [OF h(1) s(4), THEN iffD1, OF mid(2)] by blast
    then show ?r using s by (intro exI [of _ "(s, ss)"]) (simp add: good_rule_def enc_synonym_def)
  next
    assume ?r
    then obtain s ss where x: "good_text s" "good_list good_text ss"
      "drop offset bytes = enc_text s @ enc_many enc_text ss @ drop offset' bytes"
      "offset' = offset + length (enc_text s) + length (enc_many enc_text ss)" "offset' \<le> length bytes"
      by (auto simp: good_rule_def enc_synonym_def)
    let ?mid = "offset + length (enc_text s)"
    note mid = drop_enc [OF x(3)]
    have "skip_string bytes offset = Some ?mid" using text_skip.skip_iff [OF h, of ?mid] x mid by (auto intro: exI [of _ s])
    moreover have "skip_counted skip_string bytes ?mid = Some offset'"
      using text_skip.skip_counted_iff [OF h(1), of ?mid offset'] x mid by (auto intro: exI [of _ ss])
    ultimately show ?l by (simp add: skip_rule_def)
  qed
qed

lemma filter_byte_iff: "(\<exists>t. b = filter_byte t) \<longleftrightarrow> \<not> 2 < b"
proof -
  have "\<not> 2 < b \<longleftrightarrow> b = 0 \<or> b = 1 \<or> b = 2"
  proof
    assume "\<not> 2 < b"
    then have "unat b \<le> 2" by (simp add: word_less_nat_alt not_less)
    then have "unat b = unat (0 :: u8) \<or> unat b = unat (1 :: u8) \<or> unat b = unat (2 :: u8)" by auto
    then show "b = 0 \<or> b = 1 \<or> b = 2" by (simp add: word_unat_eq_iff)
  qed auto
  then show ?thesis by (auto simp: filter_byte_def split: filter_field_type.splits) (metis filter_field_type.exhaust)+
qed

interpretation filter_skip: skipper skip_filter enc_filter_entry "good_text \<circ> fst"
proof
  fix bytes :: "u8 list" and offset offset' :: nat
  assume h: "length bytes \<le> usize_max" "offset \<le> length bytes"
  show "skip_filter bytes offset = Some offset' \<longleftrightarrow>
      (\<exists>x. (good_text \<circ> fst) x \<and> drop offset bytes = enc_filter_entry x @ drop offset' bytes \<and>
        offset' = offset + length (enc_filter_entry x) \<and> offset' \<le> length bytes)" (is "?l \<longleftrightarrow> ?r")
  proof
    assume ?l
    then obtain mid where mid: "skip_string bytes offset = Some mid" "mid < length bytes" "\<not> 2 < bytes ! mid" "offset' = mid + 1"
      by (auto simp: skip_filter_def bind_eq_Some_conv split: if_splits)
    obtain s where s: "good_text s" "drop offset bytes = enc_text s @ drop mid bytes" "mid = offset + length (enc_text s)"
      using text_skip.skip_iff [OF h, THEN iffD1, OF mid(1)] by blast
    obtain t where "bytes ! mid = filter_byte t" using mid(3) filter_byte_iff by metis
    then have "drop mid bytes = filter_byte t # drop offset' bytes" using mid(2,4) Cons_nth_drop_Suc by fastforce
    then show ?r using s mid by (intro exI [of _ "(s, t)"]) (simp add: enc_filter_entry_def)
  next
    assume ?r
    then obtain s t where x: "good_text s" "drop offset bytes = enc_text s @ [filter_byte t] @ drop offset' bytes"
      "offset' = offset + length (enc_text s) + 1" "offset' \<le> length bytes"
      by (auto simp: enc_filter_entry_def)
    let ?mid = "offset + length (enc_text s)"
    note mid = drop_enc [OF x(2)]
    have "skip_string bytes offset = Some ?mid" using text_skip.skip_iff [OF h, of ?mid] x mid by (auto intro: exI [of _ s])
    moreover have lt: "?mid < length bytes" using x(3,4) by simp
    moreover have "bytes ! ?mid = filter_byte t" using mid hd_drop_conv_nth [OF lt] by simp
    moreover have "\<not> 2 < filter_byte t" using filter_byte_iff by blast
    ultimately show ?l using x(3) by (simp add: skip_filter_def)
  qed
qed

interpretation flags_skip: skipper take_flags enc_flags "\<lambda>_. True"
proof
  fix bytes :: "u8 list" and offset offset' :: nat
  assume h: "length bytes \<le> usize_max" "offset \<le> length bytes"
  have flag: "\<not> 1 < b \<longleftrightarrow> (\<exists>x. b = flag_byte x)" for b :: u8
  proof -
    have "\<not> 1 < b \<longleftrightarrow> b = 0 \<or> b = 1"
    proof
      assume "\<not> 1 < b"
      then have "unat b \<le> 1" by (simp add: word_less_nat_alt not_less)
      then have "unat b = unat (0 :: u8) \<or> unat b = unat (1 :: u8)" by auto
      then show "b = 0 \<or> b = 1" by (simp add: word_unat_eq_iff)
    qed auto
    then show ?thesis by (auto simp: flag_byte_def split: if_splits)
  qed
  have "take_flags bytes offset = Some offset' \<longleftrightarrow> (\<exists>xs. slice bytes offset offset' = Some xs \<and> offset' = offset + 3 \<and>
      offset' \<le> usize_max \<and> \<not> list_ex (\<lambda>value. 1 < value) xs)"
    by (auto simp: take_flags_def bind_eq_Some_conv)
  also have "\<dots> \<longleftrightarrow> (\<exists>a b c. slice bytes offset offset' = Some [flag_byte a, flag_byte b, flag_byte c] \<and> offset' = offset + 3 \<and>
      offset' \<le> usize_max)" (is "?l \<longleftrightarrow> ?r")
  proof
    assume ?l
    then obtain xs where xs: "slice bytes offset offset' = Some xs" "offset' = offset + 3" "offset' \<le> usize_max"
        "\<forall>x \<in> set xs. \<not> 1 < x"
      by (auto simp: list_ex_iff)
    then have "length xs = 3" by (simp add: slice_iff)
    then obtain a b c where "xs = [a, b, c]" by (auto simp: length_Suc_conv numeral_3_eq_3)
    then show ?r using xs flag by auto
  next
    assume ?r
    then show ?l using flag by auto
  qed
  also have "\<dots> \<longleftrightarrow> (\<exists>x. True \<and> drop offset bytes = enc_flags x @ drop offset' bytes \<and>
      offset' = offset + length (enc_flags x) \<and> offset' \<le> length bytes)"
    using h by (auto simp: slice_iff enc_flags_def)
  finally show "take_flags bytes offset = Some offset' \<longleftrightarrow> (\<exists>x. True \<and> drop offset bytes = enc_flags x @ drop offset' bytes \<and>
      offset' = offset + length (enc_flags x) \<and> offset' \<le> length bytes)" .
qed

section \<open>Sidecars\<close>

lemma slice_split:
  assumes "slice bytes 4 6 = Some version" "slice bytes 0 4 = Some magic"
  shows "bytes = magic @ version @ drop 6 bytes" "length version = 2" "6 \<le> length bytes"
  using assms by (auto simp: slice_iff)

lemma persisted_sound:
  assumes len: "length bytes \<le> usize_max" and read: "persisted_index_id bytes = Some i"
  shows "\<exists>f. good_frame f \<and> bytes = enc_frame f \<and> fr_index_id f = i"
proof -
  obtain version magic o1 o2 o3 o4 o5 o6 where
    slices: "slice bytes 4 6 = Some version" "slice bytes 0 4 = Some magic"
      "magic = str_bytes ''HTFI''" "supported_version version" and
    o1: "take_string bytes 6 = Some (i, o1)" and o2: "skip_string bytes o1 = Some o2" and
    o3: "skip_string bytes o2 = Some o3" and o4: "take_flags bytes o3 = Some o4" and
    o5: "(if with_synonyms (version ! 0) then skip_counted skip_rule bytes o4 else Some o4) = Some o5" and
    o6: "skip_counted skip_string bytes o5 = Some o6" and
    o7: "(if with_filters (version ! 0) then skip_counted skip_filter bytes o6 else Some o6) = Some (length bytes)"
  proof -
    obtain version magic where a: "slice bytes 4 6 = Some version" "slice bytes 0 4 = Some magic"
        "magic = str_bytes ''HTFI''" "supported_version version" "persisted_body (version ! 0) bytes = Some i"
      using read by (auto simp: persisted_index_id_def bind_eq_Some_conv split: if_split_asm)
    have guard: "(if c then Some a else None) = Some b \<longleftrightarrow> c \<and> a = b" for c and a b :: string by simp
    from a(5) show ?thesis unfolding persisted_body_def bind_eq_Some_conv case_prod_beta guard
      by (elim exE conjE) (use that [OF a(1-4)] in \<open>simp add: prod_eq_iff\<close>)
  qed
  note split = slice_split [OF slices(1,2)]
  obtain v where v: "version = [v, 0]" "v \<in> {1, 2, 3, 4, 5, 6, 7, 8}" using slices(4) by (auto simp: supported_version_def)
  note s1 = take_string_iff [OF len split(3), THEN iffD1, OF o1]
  then have l1: "o1 \<le> length bytes" by blast
  obtain generation where s2: "good_text generation" "drop o1 bytes = enc_text generation @ drop o2 bytes" and l2: "o2 \<le> length bytes"
    using text_skip.skip_iff [OF len l1, THEN iffD1, OF o2] by blast
  obtain analyzer where s3: "good_text analyzer" "drop o2 bytes = enc_text analyzer @ drop o3 bytes" and l3: "o3 \<le> length bytes"
    using text_skip.skip_iff [OF len l2, THEN iffD1, OF o3] by blast
  obtain flags where s4: "drop o3 bytes = enc_flags flags @ drop o4 bytes" and l4: "o4 \<le> length bytes"
    using flags_skip.skip_iff [OF len l3, THEN iffD1, OF o4] by blast
  obtain rules where s5: "\<not> with_synonyms v \<longrightarrow> rules = []" "good_list good_rule rules"
      "drop o4 bytes = (if with_synonyms v then enc_many enc_synonym rules else []) @ drop o5 bytes" and l5: "o5 \<le> length bytes"
    using rule_skip.skip_optional_iff [OF len l4, THEN iffD1, OF o5] v(1) by auto
  obtain names where s6: "good_list good_text names" "drop o5 bytes = enc_many enc_text names @ drop o6 bytes" and l6: "o6 \<le> length bytes"
    using text_skip.skip_counted_iff [OF len l5, THEN iffD1, OF o6] by blast
  obtain filters where s7: "\<not> with_filters v \<longrightarrow> filters = []" "good_list (good_text \<circ> fst) filters"
      "drop o6 bytes = (if with_filters v then enc_many enc_filter_entry filters else [])"
    using filter_skip.skip_optional_iff [OF len l6, THEN iffD1, OF o7] v(1) by auto
  let ?f = "\<lparr>fr_version = v, fr_index_id = i, fr_generation = generation, fr_analyzer = analyzer, fr_flags = flags,
    fr_rules = rules, fr_fields = names, fr_filters = filters\<rparr>"
  have "good_frame ?f" using v(2) s1 s2 s3 s5 s6 s7 by (simp add: good_frame_def)
  moreover have "bytes = enc_frame ?f"
    using split(1) slices(3) v(1) s1 s2(2) s3(2) s4 s5(3) s6(2) s7(3) by (simp add: enc_frame_def)
  ultimately show ?thesis by (intro exI [of _ ?f]) simp
qed

lemma persisted_complete:
  assumes len: "length (enc_frame f) \<le> usize_max" and good: "good_frame f"
  shows "persisted_index_id (enc_frame f) = Some (fr_index_id f)"
proof -
  let ?b = "enc_frame f" and ?v = "fr_version f"
  let ?rules = "if with_synonyms ?v then enc_many enc_synonym (fr_rules f) else []"
  let ?filters = "if with_filters ?v then enc_many enc_filter_entry (fr_filters f) else []"
  define o1 where "o1 = 6 + length (enc_text (fr_index_id f))"
  define o2 where "o2 = o1 + length (enc_text (fr_generation f))"
  define o3 where "o3 = o2 + length (enc_text (fr_analyzer f))"
  define o4 where "o4 = o3 + length (enc_flags (fr_flags f))"
  define o5 where "o5 = o4 + length ?rules"
  define o6 where "o6 = o5 + length (enc_many enc_text (fr_fields f))"
  have size: "length ?b = o6 + length ?filters"
    by (simp add: enc_frame_def o1_def o2_def o3_def o4_def o5_def o6_def)
  have d0: "drop 6 ?b = enc_text (fr_index_id f) @ enc_text (fr_generation f) @ enc_text (fr_analyzer f) @ enc_flags (fr_flags f) @
      ?rules @ enc_many enc_text (fr_fields f) @ ?filters"
    by (simp add: enc_frame_def str_bytes_def)
  note d1 = drop_enc [OF d0, folded o1_def] note d2 = drop_enc [OF d1, folded o2_def] note d3 = drop_enc [OF d2, folded o3_def]
  note d4 = drop_enc [OF d3, folded o4_def] note d5 = drop_enc [OF d4, folded o5_def] note d6 = drop_enc [OF d5, folded o6_def]
  have le: "6 \<le> length ?b" "o1 \<le> length ?b" "o2 \<le> length ?b" "o3 \<le> length ?b" "o4 \<le> length ?b" "o5 \<le> length ?b" "o6 \<le> length ?b"
    unfolding size by (simp_all add: o1_def o2_def o3_def o4_def o5_def o6_def)
  have g: "?v \<in> {1, 2, 3, 4, 5, 6, 7, 8}" "good_text (fr_index_id f)" "good_text (fr_generation f)" "good_text (fr_analyzer f)"
    "good_list good_rule (fr_rules f)" "good_list good_text (fr_fields f)" "good_list (good_text \<circ> fst) (fr_filters f)"
    "\<not> with_synonyms ?v \<longrightarrow> fr_rules f = []" "\<not> with_filters ?v \<longrightarrow> fr_filters f = []"
    using good by (simp_all add: good_frame_def)
  have "slice ?b 4 6 = Some [?v, 0]" "slice ?b 0 4 = Some (str_bytes ''HTFI'')"
    using le(1) by (simp_all add: slice_def enc_frame_def str_bytes_def numeral_eq_Suc)
  moreover have "take_string ?b 6 = Some (fr_index_id f, o1)"
    using take_string_iff [OF len le(1), of "fr_index_id f" o1] d0 d1 g le by (simp add: o1_def)
  moreover have "skip_string ?b o1 = Some o2"
    using text_skip.skip_iff [OF len le(2), of o2] d1 d2 g le by (auto simp: o2_def intro: exI [of _ "fr_generation f"])
  moreover have "skip_string ?b o2 = Some o3"
    using text_skip.skip_iff [OF len le(3), of o3] d2 d3 g le by (auto simp: o3_def intro: exI [of _ "fr_analyzer f"])
  moreover have "take_flags ?b o3 = Some o4"
    by (rule flags_skip.skip_iff [OF len le(4), THEN iffD2], rule exI [of _ "fr_flags f"]) (use d3 d4 le in \<open>simp add: o4_def\<close>)
  moreover have "(if with_synonyms ?v then skip_counted skip_rule ?b o4 else Some o4) = Some o5"
    by (rule rule_skip.skip_optional_iff [OF len le(5), THEN iffD2], rule exI [of _ "fr_rules f"])
      (use d4 d5 g le in \<open>simp add: o5_def\<close>)
  moreover have "skip_counted skip_string ?b o5 = Some o6"
    by (rule text_skip.skip_counted_iff [OF len le(6), THEN iffD2], rule exI [of _ "fr_fields f"])
      (use d5 d6 g le in \<open>simp add: o6_def\<close>)
  moreover have "(if with_filters ?v then skip_counted skip_filter ?b o6 else Some o6) = Some (length ?b)"
    by (rule filter_skip.skip_optional_iff [OF len le(7), THEN iffD2], rule exI [of _ "fr_filters f"])
      (use d6 g size in simp)
  ultimately show ?thesis using g(1) by (simp add: persisted_index_id_def persisted_body_def supported_version_def)
qed

section \<open>What the engine writes\<close>

definition rule_pair :: "synonym_rule \<Rightarrow> string \<times> string list" where
  "rule_pair rule = (syn_source rule, syn_replacements rule)"

definition filter_pair :: "filter_field_config \<Rightarrow> string \<times> filter_field_type" where
  "filter_pair field = (ff_name field, ff_type field)"

definition frame_of :: "engine_identity_config \<Rightarrow> identity_frame" where
  "frame_of c = \<lparr>fr_version = identity_version c, fr_index_id = id_index_id c, fr_generation = id_generation c,
     fr_analyzer = id_analyzer c, fr_flags = (id_stop_words c, id_positions c, id_surface_terms c),
     fr_rules = map rule_pair (id_synonyms c), fr_fields = map fc_name (id_fields c),
     fr_filters = map filter_pair (id_filter_fields c)\<rparr>"

definition good_identity :: "engine_identity_config \<Rightarrow> bool" where
  "good_identity c \<longleftrightarrow> good_text (id_index_id c) \<and> good_text (id_generation c) \<and> good_text (id_analyzer c) \<and>
     good_list good_rule (map rule_pair (id_synonyms c)) \<and> good_list good_text (map fc_name (id_fields c)) \<and>
     good_list (good_text \<circ> fst) (map filter_pair (id_filter_fields c))"

text \<open>Everything that the identity of an index depends on: all but the weights of the fields.\<close>

definition same_identity :: "engine_identity_config \<Rightarrow> engine_identity_config \<Rightarrow> bool" where
  "same_identity c d \<longleftrightarrow> id_index_id c = id_index_id d \<and> id_generation c = id_generation d \<and> id_analyzer c = id_analyzer d \<and>
     id_stop_words c = id_stop_words d \<and> id_positions c = id_positions d \<and> id_surface_terms c = id_surface_terms d \<and>
     id_synonyms c = id_synonyms d \<and> map fc_name (id_fields c) = map fc_name (id_fields d) \<and>
     id_filter_fields c = id_filter_fields d"

lemma good_frame_of: "good_identity c \<Longrightarrow> good_frame (frame_of c)"
  by (auto simp: good_identity_def good_frame_def frame_of_def identity_version_def with_synonyms_def with_filters_def)

lemma push_string_le_appends: "appends push_string_le enc_text"
  by (simp add: appends_def push_string_le_def enc_text_def)

lemma push_rule_appends: "appends push_rule (enc_synonym \<circ> rule_pair)"
  by (simp add: appends_def push_rule_def foldl_appends [OF push_string_le_appends] push_string_le_def
      enc_synonym_def enc_many_def enc_text_def rule_pair_def)

lemma push_filter_appends: "appends push_filter_field (enc_filter_entry \<circ> filter_pair)"
  by (simp add: appends_def push_filter_field_def push_string_le_def enc_filter_entry_def enc_text_def filter_pair_def)

lemma push_field_appends: "appends (\<lambda>bytes field. push_string_le bytes (fc_name field)) (enc_text \<circ> fc_name)"
  by (simp add: appends_def push_string_le_def enc_text_def)

lemma identity_bytes_frame: "identity_bytes c = enc_frame (frame_of c)"
proof -
  have "with_synonyms (identity_version c)" "with_filters (identity_version c) \<longleftrightarrow> id_filter_fields c \<noteq> []"
    by (auto simp: identity_version_def with_synonyms_def with_filters_def)
  then show ?thesis
    unfolding identity_bytes_def Let_def foldl_appends [OF push_rule_appends] foldl_appends [OF push_filter_appends]
      foldl_appends [OF push_field_appends]
    by (simp add: enc_frame_def frame_of_def push_string_le_def enc_text_def enc_flags_def enc_many_def comp_def)
qed

lemma enc_many_append_iff:
  "delimits enc good \<Longrightarrow> good_list good xs \<Longrightarrow> good_list good ys \<Longrightarrow>
     enc_many enc xs @ r = enc_many enc ys @ s \<longleftrightarrow> xs = ys \<and> r = s"
  using delimits_many [of enc good xs ys r s] by (auto simp: enc_many_def good_list_def)

lemma text_delimits: "delimits enc_text good_text"
  by (simp add: delimits_def good_text_def)

lemma synonym_delimits: "delimits enc_synonym good_rule"
  unfolding delimits_def
  by (auto simp: enc_synonym_def good_rule_def good_text_def enc_many_append_iff [OF text_delimits] prod_eq_iff)

lemma filter_delimits: "delimits enc_filter_entry (good_text \<circ> fst)"
proof -
  have "filter_byte t = filter_byte u \<longleftrightarrow> t = u" for t u by (cases t; cases u) (simp_all add: filter_byte_def)
  then show ?thesis by (auto simp: delimits_def enc_filter_entry_def good_text_def prod_eq_iff)
qed

lemma flags_append_iff: "enc_flags a @ r = enc_flags b @ s \<longleftrightarrow> a = b \<and> r = s"
proof -
  have "flag_byte x = flag_byte y \<longleftrightarrow> x = y" for x y by (simp add: flag_byte_def)
  then show ?thesis by (cases a; cases b) (auto simp: enc_flags_def)
qed

lemma enc_frame_inj:
  assumes f: "good_frame f" and g: "good_frame g" and same: "enc_frame f = enc_frame g"
  shows "f = g"
proof -
  let ?rules = "\<lambda>f. if with_synonyms (fr_version f) then enc_many enc_synonym (fr_rules f) else []"
  let ?filters = "\<lambda>f. if with_filters (fr_version f) then enc_many enc_filter_entry (fr_filters f) else []"
  have v: "fr_version f = fr_version g" and
    t: "enc_text (fr_index_id f) @ enc_text (fr_generation f) @ enc_text (fr_analyzer f) @ enc_flags (fr_flags f) @ ?rules f @
      enc_many enc_text (fr_fields f) @ ?filters f =
      enc_text (fr_index_id g) @ enc_text (fr_generation g) @ enc_text (fr_analyzer g) @ enc_flags (fr_flags g) @ ?rules g @
      enc_many enc_text (fr_fields g) @ ?filters g"
    using same [unfolded enc_frame_def same_append_eq append_Cons append_Nil list.inject] by blast+
  have texts: "short (fr_index_id f)" "short (fr_index_id g)" "short (fr_generation f)" "short (fr_generation g)"
    "short (fr_analyzer f)" "short (fr_analyzer g)"
    using f g by (simp_all add: good_frame_def good_text_def)
  note parts = t [unfolded text_append_iff [OF texts(1,2)] text_append_iff [OF texts(3,4)] text_append_iff [OF texts(5,6)] flags_append_iff]
  have "fr_rules f = fr_rules g \<and> enc_many enc_text (fr_fields f) @ ?filters f = enc_many enc_text (fr_fields g) @ ?filters g"
    using parts f g v by (auto simp: good_frame_def enc_many_append_iff [OF synonym_delimits] split: if_splits)
  moreover from this have "fr_fields f = fr_fields g \<and> ?filters f = ?filters g"
    using f g by (auto simp: good_frame_def enc_many_append_iff [OF text_delimits])
  moreover from this have "fr_filters f = fr_filters g"
    using f g v enc_many_append_iff [OF filter_delimits, of "fr_filters f" "fr_filters g" "[]" "[]"]
    by (auto simp: good_frame_def split: if_splits)
  ultimately show ?thesis using parts v by (auto intro: identity_frame.equality)
qed

lemma frame_of_iff: "frame_of c = frame_of d \<longleftrightarrow> same_identity c d"
proof -
  have "map rule_pair xs = map rule_pair ys \<longleftrightarrow> xs = ys" for xs ys
    by (rule inj_map_eq_map) (auto simp: inj_on_def rule_pair_def intro: synonym_rule.equality)
  moreover have "map filter_pair xs = map filter_pair ys \<longleftrightarrow> xs = ys" for xs ys
    by (rule inj_map_eq_map) (auto simp: inj_on_def filter_pair_def intro: filter_field_config.equality)
  ultimately show ?thesis
    by (auto simp: frame_of_def same_identity_def identity_version_def)
qed

section \<open>Canonical configurations\<close>

text \<open>
  The analyzers are the index library's: \<open>an_text stop_words\<close> stands for \<open>build_analyzer\<close> without
  synonyms, \<open>an_surface\<close> for \<open>build_surface_analyzer\<close>, and \<open>an_index\<close> and \<open>an_surface_index\<close> for the same
  with synonyms.  \<open>an_debug\<close> is the debug form of a string in a
  message, which depends on the Unicode tables of the toolchain.
\<close>

record analyzers =
  an_text :: "bool \<Rightarrow> tokenizer res"
  an_surface :: tokenizer
  an_index :: "bool \<Rightarrow> (string \<rightharpoonup> string list) \<Rightarrow> tokenizer res"
  an_surface_index :: "(string \<rightharpoonup> string list) \<Rightarrow> tokenizer"
  an_debug :: "string \<Rightarrow> string"

definition canonical_synonym_term :: "tokenizer \<Rightarrow> string \<Rightarrow> string \<Rightarrow> string res" where
  "canonical_synonym_term analyzer label source = (case analyzer source of
     [token] \<Rightarrow> Ok (tk_text token)
   | _ \<Rightarrow> Err (invalid (''synonym '' @ label @ '' must produce exactly one analyzed term'')))"

definition sorted_terms :: "string list \<Rightarrow> string list" where
  "sorted_terms terms = remdups_adj (sort_key str_bytes terms)"

fun replacement_loop ::
  "tokenizer \<Rightarrow> tokenizer \<Rightarrow> string \<Rightarrow> string \<Rightarrow> string list \<times> string list \<Rightarrow> string list \<Rightarrow> (string list \<times> string list) res" where
  "replacement_loop analyzer normalizer a s st [] = Ok st"
| "replacement_loop analyzer normalizer a s (analyzed, surface) (replacement # rest) =
     and_then (canonical_synonym_term analyzer ''replacement'' replacement) (\<lambda>ar.
     and_then (canonical_synonym_term normalizer ''replacement'' replacement) (\<lambda>sr.
     if ar = a \<or> sr = s then Err (invalid ''a synonym replacement must differ from its source after analysis'')
     else replacement_loop analyzer normalizer a s (analyzed @ [ar], surface @ [sr]) rest))"

record canonical_state =
  cn_analyzed_sources :: "string set"
  cn_surface_sources :: "string set"
  cn_rules :: "synonym_rule list"
  cn_analyzed :: "string \<rightharpoonup> string list"
  cn_surface :: "string \<rightharpoonup> string list"

definition canonical_rule ::
  "tokenizer \<Rightarrow> tokenizer \<Rightarrow> (string \<Rightarrow> string) \<Rightarrow> synonym_rule \<Rightarrow> canonical_state \<Rightarrow> canonical_state res" where
  "canonical_rule analyzer normalizer debug rule st =
     and_then (canonical_synonym_term analyzer ''source'' (syn_source rule)) (\<lambda>a.
     and_then (canonical_synonym_term normalizer ''source'' (syn_source rule)) (\<lambda>s.
     if a \<in> cn_analyzed_sources st \<or> s \<in> cn_surface_sources st
     then Err (invalid (''synonym source '' @ debug s @ '' is declared more than once after analysis''))
     else
       and_then (replacement_loop analyzer normalizer a s ([], []) (syn_replacements rule)) (\<lambda>(analyzed, surface).
       let analyzed = sorted_terms analyzed; surface = sorted_terms surface
       in if length analyzed \<noteq> length (syn_replacements rule) \<or> length surface \<noteq> length (syn_replacements rule)
          then Err (invalid ''synonym replacements must be unique after analysis'')
          else Ok \<lparr>cn_analyzed_sources = insert a (cn_analyzed_sources st),
            cn_surface_sources = insert s (cn_surface_sources st),
            cn_rules = cn_rules st @ [\<lparr>syn_source = s, syn_replacements = surface\<rparr>],
            cn_analyzed = (cn_analyzed st)(a \<mapsto> analyzed),
            cn_surface = (cn_surface st)(s \<mapsto> surface)\<rparr>)))"

fun canonical_loop ::
  "tokenizer \<Rightarrow> tokenizer \<Rightarrow> (string \<Rightarrow> string) \<Rightarrow> synonym_rule list \<Rightarrow> canonical_state \<Rightarrow> canonical_state res" where
  "canonical_loop analyzer normalizer debug [] st = Ok st"
| "canonical_loop analyzer normalizer debug (rule # rules) st =
     and_then (canonical_rule analyzer normalizer debug rule st) (canonical_loop analyzer normalizer debug rules)"

definition canonical_start :: canonical_state where
  "canonical_start = \<lparr>cn_analyzed_sources = {}, cn_surface_sources = {}, cn_rules = [], cn_analyzed = Map.empty, cn_surface = Map.empty\<rparr>"

record canonical_identity_result =
  ci_config :: engine_identity_config
  ci_analyzer :: tokenizer
  ci_analyzed_synonyms :: "string \<rightharpoonup> string list"
  ci_surface_synonyms :: "string \<rightharpoonup> string list"

definition canonical_identity :: "analyzers \<Rightarrow> engine_identity_config \<Rightarrow> canonical_identity_result res" where
  "canonical_identity an config =
     and_then (an_text an (id_stop_words config)) (\<lambda>analyzer.
     and_then (canonical_loop analyzer (an_surface an) (an_debug an) (id_synonyms config) canonical_start) (\<lambda>st.
     Ok \<lparr>ci_config = config\<lparr>id_synonyms := sort_key (\<lambda>rule. str_bytes (syn_source rule)) (cn_rules st)\<rparr>,
         ci_analyzer = analyzer, ci_analyzed_synonyms = cn_analyzed st, ci_surface_synonyms = cn_surface st\<rparr>))"

section \<open>The order of synonyms does not matter\<close>

definition one_term :: "tokenizer \<Rightarrow> string \<Rightarrow> bool" where
  "one_term analyzer s \<longleftrightarrow> length (analyzer s) = 1"

definition term_of_text :: "tokenizer \<Rightarrow> string \<Rightarrow> string" where
  "term_of_text analyzer s = tk_text (hd (analyzer s))"

lemma canonical_synonym_term_Ok: "canonical_synonym_term analyzer label s = Ok t \<longleftrightarrow> one_term analyzer s \<and> t = term_of_text analyzer s"
  by (auto simp: canonical_synonym_term_def one_term_def term_of_text_def length_Suc_conv split: list.split)

lemma replacement_loop_Ok:
  "replacement_loop analyzer normalizer a s (xs, ys) rs = Ok st \<longleftrightarrow>
     (\<forall>r \<in> set rs. one_term analyzer r \<and> one_term normalizer r \<and> term_of_text analyzer r \<noteq> a \<and> term_of_text normalizer r \<noteq> s) \<and>
     st = (xs @ map (term_of_text analyzer) rs, ys @ map (term_of_text normalizer) rs)"
  by (induction rs arbitrary: xs ys) (auto simp: and_then_Ok_iff canonical_synonym_term_Ok)

lemma sorted_terms_mset: "mset xs = mset ys \<Longrightarrow> sorted_terms xs = sorted_terms ys"
proof -
  assume "mset xs = mset ys"
  then have "sort_key str_bytes xs = sort_key str_bytes ys"
    by (intro sort_key_inj_key_eq) (auto simp: inj_on_def)
  then show ?thesis by (simp add: sorted_terms_def)
qed

text \<open>What a rule becomes, and when it is accepted by itself.\<close>

definition replacements_in :: "tokenizer \<Rightarrow> synonym_rule \<Rightarrow> string list" where
  "replacements_in analyzer rule = sorted_terms (map (term_of_text analyzer) (syn_replacements rule))"

definition source_in :: "tokenizer \<Rightarrow> synonym_rule \<Rightarrow> string" where
  "source_in analyzer rule = term_of_text analyzer (syn_source rule)"

definition sound_rule :: "tokenizer \<Rightarrow> tokenizer \<Rightarrow> synonym_rule \<Rightarrow> bool" where
  "sound_rule analyzer normalizer rule \<longleftrightarrow> (\<forall>t \<in> {analyzer, normalizer}. one_term t (syn_source rule) \<and>
     (\<forall>r \<in> set (syn_replacements rule). one_term t r \<and> term_of_text t r \<noteq> source_in t rule) \<and>
     length (replacements_in t rule) = length (syn_replacements rule))"

definition canonical_step :: "tokenizer \<Rightarrow> tokenizer \<Rightarrow> canonical_state \<Rightarrow> synonym_rule \<Rightarrow> canonical_state" where
  "canonical_step analyzer normalizer st rule =
     \<lparr>cn_analyzed_sources = insert (source_in analyzer rule) (cn_analyzed_sources st),
      cn_surface_sources = insert (source_in normalizer rule) (cn_surface_sources st),
      cn_rules = cn_rules st @ [\<lparr>syn_source = source_in normalizer rule, syn_replacements = replacements_in normalizer rule\<rparr>],
      cn_analyzed = (cn_analyzed st)(source_in analyzer rule \<mapsto> replacements_in analyzer rule),
      cn_surface = (cn_surface st)(source_in normalizer rule \<mapsto> replacements_in normalizer rule)\<rparr>"

lemma canonical_rule_Ok:
  "canonical_rule analyzer normalizer debug rule st = Ok st' \<longleftrightarrow>
     sound_rule analyzer normalizer rule \<and> source_in analyzer rule \<notin> cn_analyzed_sources st \<and>
     source_in normalizer rule \<notin> cn_surface_sources st \<and> st' = canonical_step analyzer normalizer st rule"
  by (auto simp: canonical_rule_def and_then_Ok_iff canonical_synonym_term_Ok replacement_loop_Ok Let_def sound_rule_def
      source_in_def replacements_in_def canonical_step_def)

lemma canonical_loop_Ok:
  "canonical_loop analyzer normalizer debug rules st = Ok st' \<longleftrightarrow>
     (\<forall>rule \<in> set rules. sound_rule analyzer normalizer rule) \<and>
     distinct (map (source_in analyzer) rules) \<and> distinct (map (source_in normalizer) rules) \<and>
     source_in analyzer ` set rules \<inter> cn_analyzed_sources st = {} \<and> source_in normalizer ` set rules \<inter> cn_surface_sources st = {} \<and>
     st' = foldl (canonical_step analyzer normalizer) st rules"
proof (induction rules arbitrary: st)
  case (Cons rule rules)
  let ?st = "canonical_step analyzer normalizer st rule"
  have "cn_analyzed_sources ?st = insert (source_in analyzer rule) (cn_analyzed_sources st)"
    "cn_surface_sources ?st = insert (source_in normalizer rule) (cn_surface_sources st)"
    by (simp_all add: canonical_step_def)
  then show ?case by (auto simp: and_then_Ok_iff canonical_rule_Ok Cons.IH)
qed auto

definition same_rule :: "synonym_rule \<Rightarrow> synonym_rule \<Rightarrow> bool" where
  "same_rule r r' \<longleftrightarrow> syn_source r = syn_source r' \<and> mset (syn_replacements r) = mset (syn_replacements r')"

text \<open>The same rules in another order, with the replacements of each in another order.\<close>

definition reordered :: "synonym_rule list \<Rightarrow> synonym_rule list \<Rightarrow> bool" where
  "reordered rules rules' \<longleftrightarrow> (\<exists>between. list_all2 same_rule rules between \<and> mset between = mset rules')"

type_synonym rule_meaning = "(string \<times> string list) \<times> (string \<times> string list) \<times> bool"

definition meaning :: "tokenizer \<Rightarrow> tokenizer \<Rightarrow> synonym_rule \<Rightarrow> rule_meaning" where
  "meaning analyzer normalizer rule = ((source_in analyzer rule, replacements_in analyzer rule),
     (source_in normalizer rule, replacements_in normalizer rule), sound_rule analyzer normalizer rule)"

lemma same_rule_meaning:
  assumes "same_rule r r'"
  shows "meaning analyzer normalizer r = meaning analyzer normalizer r'"
proof -
  have source: "source_in t r = source_in t r'" for t using assms by (simp add: same_rule_def source_in_def)
  have reps: "replacements_in t r = replacements_in t r'" for t
    using assms sorted_terms_mset by (simp add: same_rule_def replacements_in_def)
  have "length (syn_replacements r) = length (syn_replacements r')" "set (syn_replacements r) = set (syn_replacements r')"
    using assms mset_eq_length [of "syn_replacements r" "syn_replacements r'"] mset_eq_setD [of "syn_replacements r" "syn_replacements r'"]
    by (simp_all add: same_rule_def)
  then have "sound_rule analyzer normalizer r = sound_rule analyzer normalizer r'"
    using assms source reps by (simp add: sound_rule_def same_rule_def)
  then show ?thesis using source reps by (simp add: meaning_def)
qed

lemma reordered_meaning:
  assumes "reordered rules rules'"
  shows "mset (map (meaning analyzer normalizer) rules) = mset (map (meaning analyzer normalizer) rules')"
proof -
  obtain between where b: "list_all2 same_rule rules between" "mset between = mset rules'" using assms by (auto simp: reordered_def)
  have "map (meaning analyzer normalizer) rules = map (meaning analyzer normalizer) between"
    using b(1) by (induction rule: list_all2_induct) (simp_all add: same_rule_meaning)
  then show ?thesis using b(2) by simp
qed

lemma steps_rules:
  "cn_rules (foldl (canonical_step analyzer normalizer) st rules) = cn_rules st @
     map (\<lambda>rule. \<lparr>syn_source = source_in normalizer rule, syn_replacements = replacements_in normalizer rule\<rparr>) rules"
  by (induction rules arbitrary: st) (simp_all add: canonical_step_def)

lemma steps_lookup:
  "distinct (map (source_in analyzer) rules) \<Longrightarrow>
     cn_analyzed (foldl (canonical_step analyzer normalizer) st rules) =
     cn_analyzed st ++ map_of (map (\<lambda>rule. (source_in analyzer rule, replacements_in analyzer rule)) rules)"
  "distinct (map (source_in normalizer) rules) \<Longrightarrow>
     cn_surface (foldl (canonical_step analyzer normalizer) st rules) =
     cn_surface st ++ map_of (map (\<lambda>rule. (source_in normalizer rule, replacements_in normalizer rule)) rules)"
  by (induction rules arbitrary: st) (auto simp: canonical_step_def map_add_upd_left dom_map_of_conv_image_fst image_image)

lemma meaning_map:
  assumes "reordered rules rules'" "\<And>rule. f rule = g (meaning analyzer normalizer rule)"
  shows "mset (map f rules) = mset (map f rules')"
proof -
  have "map f xs = map g (map (meaning analyzer normalizer) xs)" for xs by (simp add: assms(2))
  moreover have "mset (map g (map (meaning analyzer normalizer) rules)) = mset (map g (map (meaning analyzer normalizer) rules'))"
    using reordered_meaning [OF assms(1), of analyzer normalizer] by (metis mset_map)
  ultimately show ?thesis by metis
qed

lemma map_of_mset: "mset xs = mset ys \<Longrightarrow> distinct (map fst xs) \<Longrightarrow> map_of xs = map_of ys"
  using mset_eq_imp_distinct_iff [of "map fst xs" "map fst ys"] mset_eq_setD [of xs ys]
  by (simp add: map_of_inject_set)

lemma canonical_reordered:
  assumes ok: "canonical_identity an c = Ok k" and re: "reordered (id_synonyms c) rules'"
  shows "canonical_identity an (c\<lparr>id_synonyms := rules'\<rparr>) = Ok k"
proof -
  obtain analyzer st where a: "an_text an (id_stop_words c) = Ok analyzer"
    and st: "canonical_loop analyzer (an_surface an) (an_debug an) (id_synonyms c) canonical_start = Ok st"
    and k: "k = \<lparr>ci_config = c\<lparr>id_synonyms := sort_key (\<lambda>rule. str_bytes (syn_source rule)) (cn_rules st)\<rparr>,
         ci_analyzer = analyzer, ci_analyzed_synonyms = cn_analyzed st, ci_surface_synonyms = cn_surface st\<rparr>"
    using ok by (auto simp: canonical_identity_def and_then_Ok_iff)
  let ?n = "an_surface an" and ?rules = "id_synonyms c"
  let ?m = "meaning analyzer ?n"
  have sound: "(\<forall>rule \<in> set rules'. sound_rule analyzer ?n rule) \<longleftrightarrow> (\<forall>rule \<in> set ?rules. sound_rule analyzer ?n rule)"
  proof -
    have "mset (map (sound_rule analyzer ?n) ?rules) = mset (map (sound_rule analyzer ?n) rules')"
      by (rule meaning_map [OF re, of _ "\<lambda>m. snd (snd m)" analyzer ?n]) (simp add: meaning_def)
    from mset_eq_setD [OF this] show ?thesis by (auto simp: set_eq_iff image_iff)
  qed
  have s1: "mset (map (source_in analyzer) ?rules) = mset (map (source_in analyzer) rules')"
    by (rule meaning_map [OF re, of _ "\<lambda>m. fst (fst m)" analyzer ?n]) (simp add: meaning_def)
  have s2: "mset (map (source_in ?n) ?rules) = mset (map (source_in ?n) rules')"
    by (rule meaning_map [OF re, of _ "\<lambda>m. fst (fst (snd m))" analyzer ?n]) (simp add: meaning_def)
  let ?pair = "\<lambda>t rule. (source_in t rule, replacements_in t rule)"
  have p1: "mset (map (?pair analyzer) ?rules) = mset (map (?pair analyzer) rules')"
    by (rule meaning_map [OF re, of _ fst analyzer ?n]) (simp add: meaning_def)
  have p2: "mset (map (?pair ?n) ?rules) = mset (map (?pair ?n) rules')"
    by (rule meaning_map [OF re, of _ "\<lambda>m. fst (snd m)" analyzer ?n]) (simp add: meaning_def)
  let ?crule = "\<lambda>rule. \<lparr>syn_source = source_in ?n rule, syn_replacements = replacements_in ?n rule\<rparr>"
  have c1: "mset (map ?crule ?rules) = mset (map ?crule rules')"
    by (rule meaning_map [OF re, of _ "\<lambda>m. \<lparr>syn_source = fst (fst (snd m)), syn_replacements = snd (fst (snd m))\<rparr>" analyzer ?n])
      (simp add: meaning_def)
  note loop = canonical_loop_Ok [of analyzer ?n "an_debug an"]
  have l: "\<forall>rule \<in> set ?rules. sound_rule analyzer ?n rule" "distinct (map (source_in analyzer) ?rules)"
    "distinct (map (source_in ?n) ?rules)" "st = foldl (canonical_step analyzer ?n) canonical_start ?rules"
    using st by (auto simp: loop)
  have d: "distinct (map (source_in analyzer) rules')" "distinct (map (source_in ?n) rules')"
    using l(2,3) s1 s2 mset_eq_imp_distinct_iff by metis+
  let ?st' = "foldl (canonical_step analyzer ?n) canonical_start rules'"
  have loop': "canonical_loop analyzer ?n (an_debug an) rules' canonical_start = Ok ?st'"
    using sound l(1) d by (simp add: loop canonical_start_def)
  have "cn_analyzed ?st' = cn_analyzed st" "cn_surface ?st' = cn_surface st"
    unfolding l(4) steps_lookup [OF l(2)] steps_lookup [OF l(3)] steps_lookup [OF d(1)] steps_lookup [OF d(2)]
    using map_of_mset [OF p1] map_of_mset [OF p2] l(2,3) by (simp_all add: comp_def)
  moreover have "sort_key (\<lambda>rule. str_bytes (syn_source rule)) (cn_rules ?st') = sort_key (\<lambda>rule. str_bytes (syn_source rule)) (cn_rules st)"
  proof (rule sort_key_inj_key_eq)
    show "mset (cn_rules ?st') = mset (sort_key (\<lambda>rule. str_bytes (syn_source rule)) (cn_rules st))"
      using c1 by (simp only: l(4) steps_rules mset_append mset_sort)
    have "inj_on (source_in ?n) (set rules')" using d(2) by (simp add: distinct_map)
    then show "inj_on (\<lambda>rule. str_bytes (syn_source rule)) (set (cn_rules ?st'))"
      unfolding steps_rules canonical_start_def by (auto simp: inj_on_def)
  qed simp
  ultimately show ?thesis using a loop' by (simp add: canonical_identity_def k)
qed

section \<open>Properties\<close>

text \<open>
  C33. The identity sidecar is exact.  The reader accepts exactly the well-formed sidecars of the
  supported versions, and answers their index id; it reads back the index id of every sidecar the
  engine writes; and two configurations have the same sidecar only if they agree on everything but
  the weights of the fields, so that comparing the bytes on open compares the identities.
\<close>

theorem identity_sidecar_exact:
  assumes "length bytes \<le> usize_max" "length (identity_bytes c) \<le> usize_max" "good_identity c" "good_identity d"
  shows "(persisted_index_id bytes = Some i \<longleftrightarrow> (\<exists>f. good_frame f \<and> bytes = enc_frame f \<and> fr_index_id f = i)) \<and>
    persisted_index_id (identity_bytes c) = Some (id_index_id c) \<and>
    (identity_bytes c = identity_bytes d \<longleftrightarrow> same_identity c d)"
proof (intro conjI)
  show "persisted_index_id bytes = Some i \<longleftrightarrow> (\<exists>f. good_frame f \<and> bytes = enc_frame f \<and> fr_index_id f = i)"
    using persisted_sound [OF assms(1)] persisted_complete assms(1) by blast
  show "persisted_index_id (identity_bytes c) = Some (id_index_id c)"
    using persisted_complete [of "frame_of c"] good_frame_of [OF assms(3)] assms(2) by (simp add: identity_bytes_frame frame_of_def)
  show "identity_bytes c = identity_bytes d \<longleftrightarrow> same_identity c d"
    using enc_frame_inj [OF good_frame_of [OF assms(3)] good_frame_of [OF assms(4)]] frame_of_iff [of c d]
    by (auto simp: identity_bytes_frame)
qed

definition sample_rules :: "synonym_rule list" where
  "sample_rules = [\<lparr>syn_source = ''car'', syn_replacements = [''vehicle'', ''auto'']\<rparr>, \<lparr>syn_source = ''bike'', syn_replacements = [''cycle'']\<rparr>]"

definition docs_identity :: engine_identity_config where
  "docs_identity = \<lparr>id_index_id = ''docs'', id_generation = ''g1'', id_fields = [\<lparr>fc_name = ''title'', fc_weight = 0\<rparr>],
     id_analyzer = ''english@2'', id_stop_words = True, id_positions = False, id_surface_terms = True, id_synonyms = sample_rules,
     id_filter_fields = [\<lparr>ff_name = ''kind'', ff_type = FieldNumber\<rparr>]\<rparr>"

definition whole_token :: tokenizer where
  "whole_token t = [\<lparr>tk_text = t, tk_start = 0, tk_end = length t, tk_position = 0\<rparr>]"

definition sample_analyzers :: analyzers where
  "sample_analyzers = \<lparr>an_text = (\<lambda>_. Ok whole_token), an_surface = whole_token, an_index = (\<lambda>_ _. Ok whole_token),
     an_surface_index = (\<lambda>_. whole_token), an_debug = (\<lambda>t. t)\<rparr>"

lemma good_docs_identity: "good_identity docs_identity" "length (identity_bytes docs_identity) \<le> usize_max"
proof -
  have "utf8_string ''docs''" "utf8_string ''g1''" "utf8_string ''title''" "utf8_string ''english@2''" "utf8_string ''car''"
    "utf8_string ''vehicle''" "utf8_string ''auto''" "utf8_string ''bike''" "utf8_string ''cycle''" "utf8_string ''kind''"
    by (rule utf8_string_ascii, simp add: byte_of_char_def)+
  then show "good_identity docs_identity"
    by (simp add: good_identity_def docs_identity_def sample_rules_def good_list_def good_rule_def good_text_def short_def
        rule_pair_def filter_pair_def)
  show "length (identity_bytes docs_identity) \<le> usize_max"
    by (simp add: identity_bytes_def docs_identity_def sample_rules_def push_string_le_def push_rule_def push_filter_field_def Let_def
        usize_max_def)
qed

theorem identity_sidecar_exact_witness:
  "persisted_index_id (identity_bytes docs_identity) = Some ''docs'' \<and>
   identity_bytes docs_identity \<noteq> identity_bytes (docs_identity\<lparr>id_positions := True\<rparr>)"
proof -
  have "good_identity (docs_identity\<lparr>id_positions := True\<rparr>)"
    using good_docs_identity(1) by (simp add: good_identity_def)
  from identity_sidecar_exact [OF good_docs_identity(2,2,1) this] show ?thesis
    by (simp add: docs_identity_def same_identity_def)
qed

text \<open>
  C34. The identity of an index does not depend on the order in which synonyms are configured: a
  configuration whose rules, or the replacements of a rule, are written in another order is accepted
  with the same canonical identity, the same sidecar and the same lookups; and the rules of a
  canonical identity are sorted by their sources, which are distinct.
\<close>

theorem identity_order_free:
  assumes "canonical_identity an c = Ok k" "reordered (id_synonyms c) rules"
  shows "canonical_identity an (c\<lparr>id_synonyms := rules\<rparr>) = Ok k \<and>
    sorted (map (\<lambda>rule. str_bytes (syn_source rule)) (id_synonyms (ci_config k))) \<and>
    distinct (map syn_source (id_synonyms (ci_config k)))"
proof (intro conjI)
  show "canonical_identity an (c\<lparr>id_synonyms := rules\<rparr>) = Ok k" by (rule canonical_reordered [OF assms])
  obtain analyzer st where st: "canonical_loop analyzer (an_surface an) (an_debug an) (id_synonyms c) canonical_start = Ok st"
    "id_synonyms (ci_config k) = sort_key (\<lambda>rule. str_bytes (syn_source rule)) (cn_rules st)"
    using assms(1) by (auto simp: canonical_identity_def and_then_Ok_iff)
  then show "sorted (map (\<lambda>rule. str_bytes (syn_source rule)) (id_synonyms (ci_config k)))" by simp
  have "distinct (map syn_source (cn_rules st))"
    using st(1) by (auto simp: canonical_loop_Ok steps_rules canonical_start_def comp_def)
  moreover have "mset (map syn_source (id_synonyms (ci_config k))) = mset (map syn_source (cn_rules st))"
    unfolding st(2) by (simp only: mset_map mset_sort)
  ultimately show "distinct (map syn_source (id_synonyms (ci_config k)))" using mset_eq_imp_distinct_iff by metis
qed

theorem identity_order_free_witness:
  "\<exists>k. canonical_identity sample_analyzers docs_identity = Ok k \<and>
     canonical_identity sample_analyzers (docs_identity\<lparr>id_synonyms :=
       [\<lparr>syn_source = ''bike'', syn_replacements = [''cycle'']\<rparr>, \<lparr>syn_source = ''car'', syn_replacements = [''auto'', ''vehicle'']\<rparr>]\<rparr>) = Ok k"
proof -
  let ?rules = "[\<lparr>syn_source = ''bike'', syn_replacements = [''cycle'']\<rparr>, \<lparr>syn_source = ''car'', syn_replacements = [''auto'', ''vehicle'']\<rparr>]"
  have "is_ok (canonical_identity sample_analyzers docs_identity)" by code_simp
  then obtain k where k: "canonical_identity sample_analyzers docs_identity = Ok k" by (auto simp: is_ok_iff)
  have "list_all2 same_rule sample_rules (rev ?rules)" by (simp add: sample_rules_def same_rule_def)
  then have "reordered (id_synonyms docs_identity) ?rules"
    unfolding reordered_def by (intro exI [of _ "rev ?rules"]) (simp add: docs_identity_def)
  from identity_order_free [OF k this] k show ?thesis by blast
qed

end
