(* ===== verification/Opening.thy ===== *)
theory Opening
  imports Identity
begin

text \<open>
  Opening and inspecting an index in \<^verbatim>\<open>src/src/engine.rs\<close>: the schema of a configuration
  (\<open>build_schema\<close>), the checks of the identity sidecar against the configuration, and the engine that
  \<open>open\<close> returns.

  A directory is a map from paths to bytes with the outcomes of its operations to come: \<open>Some m\<close>
  stands for a failure with the message \<open>m\<close>, and a directory without further outcomes does not fail.
  What the index library reads from and writes to a directory is a parameter (\<open>index_library\<close>).
\<close>

section \<open>The schema\<close>

definition ID_FIELD_NAME :: string where "ID_FIELD_NAME = ''__fulltext_id''"
definition VERSION_FIELD_NAME :: string where "VERSION_FIELD_NAME = ''__fulltext_version''"
definition ANALYZER_NAME :: string where "ANALYZER_NAME = ''english@2''"
definition SURFACE_ANALYZER_NAME :: string where "SURFACE_ANALYZER_NAME = ''english_surface@2''"

definition raw_options :: text_options where
  "raw_options = \<lparr>tx_indexing = Some (''raw'', Basic, False), tx_fast = Some ''raw''\<rparr>"

fun schema_fields ::
  "bool \<Rightarrow> bool \<Rightarrow> record_option \<Rightarrow> field_config list \<Rightarrow> schema \<times> engine_field list \<Rightarrow> schema \<times> engine_field list" where
  "schema_fields positions surface_terms surface_record [] s = s"
| "schema_fields positions surface_terms surface_record (field # rest) (builder, chosen) =
     (let record = (if positions then With_Freqs_Positions else With_Freqs);
          schema_field = length builder;
          builder = builder @ [Text_Entry (fc_name field) \<lparr>tx_indexing = Some (ANALYZER_NAME, record, True), tx_fast = None\<rparr>];
          surface_field = (if surface_terms then Some (length builder) else None);
          builder = (if surface_terms
            then builder @ [Text_Entry (''__fulltext_surface_'' @ nat_digits (length chosen))
              \<lparr>tx_indexing = Some (SURFACE_ANALYZER_NAME, surface_record, True), tx_fast = None\<rparr>]
            else builder)
      in schema_fields positions surface_terms surface_record rest
           (builder, chosen @ [\<lparr>ef_name = fc_name field, ef_field = schema_field, ef_surface_field = surface_field,
             ef_weight = fc_weight field\<rparr>]))"

fun schema_filters ::
  "nat \<Rightarrow> filter_field_config list \<Rightarrow> schema \<times> engine_filter_field list \<Rightarrow> schema \<times> engine_filter_field list" where
  "schema_filters index [] s = s"
| "schema_filters index (field # rest) (builder, chosen) =
     (let name = ''__fulltext_filter_'' @ nat_digits index;
          entry = (case ff_type field of
              FieldString \<Rightarrow> Text_Entry name raw_options
            | FieldNumber \<Rightarrow> F64_Entry name
            | FieldBoolean \<Rightarrow> Bool_Entry name)
      in schema_filters (index + 1) rest
           (builder @ [entry], chosen @ [\<lparr>eff_name = ff_name field, eff_field = length builder, eff_type = ff_type field\<rparr>]))"

record built_schema =
  bs_schema :: schema
  bs_id_field :: nat
  bs_version_field :: nat
  bs_fields :: "engine_field list"
  bs_filter_fields :: "engine_filter_field list"

definition build_schema_with_surface_record :: "record_option \<Rightarrow> engine_identity_config \<Rightarrow> built_schema" where
  "build_schema_with_surface_record surface_record config =
     (let builder = [Text_Entry ID_FIELD_NAME raw_options,
            Text_Entry VERSION_FIELD_NAME \<lparr>tx_indexing = None, tx_fast = Some ''raw''\<rparr>]
      in case schema_fields (id_positions config) (id_surface_terms config) surface_record (id_fields config) (builder, []) of
        (builder, chosen) \<Rightarrow>
      (case schema_filters 0 (id_filter_fields config) (builder, []) of (builder, filters) \<Rightarrow>
        \<lparr>bs_schema = builder, bs_id_field = 0, bs_version_field = 1, bs_fields = chosen, bs_filter_fields = filters\<rparr>))"

definition build_schema :: "engine_identity_config \<Rightarrow> built_schema" where
  "build_schema config = build_schema_with_surface_record With_Freqs config"

section \<open>Directories\<close>

record directory =
  dir_files :: "string \<rightharpoonup> u8 list"
  dir_faults :: "string option list"

type_synonym 'a io = "directory \<Rightarrow> 'a res \<times> directory"

definition io_return :: "'a res \<Rightarrow> 'a io" where
  "io_return r d = (r, d)"

definition io_then :: "'a io \<Rightarrow> ('a \<Rightarrow> 'b io) \<Rightarrow> 'b io" where
  "io_then m f d = (case m d of (Ok x, d) \<Rightarrow> f x d | (Err e, d) \<Rightarrow> (Err e, d))"

definition storage_error :: "string \<Rightarrow> fulltext_error" where
  "storage_error message = fulltext_error_new ''E_STORAGE'' message"

text \<open>An operation of the directory: the next outcome decides whether it happens.\<close>

definition dir_operation :: "((string \<rightharpoonup> u8 list) \<Rightarrow> 'a res \<times> (string \<rightharpoonup> u8 list)) \<Rightarrow> 'a io" where
  "dir_operation f d = (case dir_faults d of
     Some message # faults \<Rightarrow> (Err (storage_error message), d\<lparr>dir_faults := faults\<rparr>)
   | _ \<Rightarrow> (case f (dir_files d) of (r, files) \<Rightarrow> (r, d\<lparr>dir_files := files, dir_faults := tl (dir_faults d)\<rparr>)))"

definition dir_exists :: "string \<Rightarrow> bool io" where
  "dir_exists path = dir_operation (\<lambda>files. (Ok (files path \<noteq> None), files))"

definition atomic_read :: "string \<Rightarrow> u8 list io" where
  "atomic_read path = dir_operation (\<lambda>files. (ok_or (storage_error ''file does not exist'') (files path), files))"

definition atomic_write :: "string \<Rightarrow> u8 list \<Rightarrow> unit io" where
  "atomic_write path bytes = dir_operation (\<lambda>files. (Ok (), files(path \<mapsto> bytes)))"

definition sync_directory :: "unit io" where
  "sync_directory = dir_operation (\<lambda>files. (Ok (), files))"

definition IDENTITY_PATH :: string where "IDENTITY_PATH = ''.harper-fulltext-identity''"
definition META_PATH :: string where "META_PATH = ''meta.json''"

section \<open>The index library\<close>

text \<open>The failures that \<open>recovery_index_error\<close> tells apart; the flag of an I/O failure says that the data is invalid or ends early.\<close>

datatype index_failure =
    Data_Corruption string
  | Incompatible_Index string
  | Open_Read_Incompatible string
  | Open_Read_Missing string
  | Open_Read_Io bool string
  | Io_Failure bool string
  | Other_Failure tantivy_error

definition recovery_index_error :: "index_failure \<Rightarrow> fulltext_error" where
  "recovery_index_error error = (case error of
     Data_Corruption m \<Rightarrow> fulltext_error_new ''E_INDEX_CORRUPT'' m
   | Incompatible_Index m \<Rightarrow> fulltext_error_new ''E_INDEX_FORMAT_INCOMPATIBLE'' m
   | Open_Read_Incompatible m \<Rightarrow> fulltext_error_new ''E_INDEX_FORMAT_INCOMPATIBLE'' m
   | Open_Read_Missing m \<Rightarrow> fulltext_error_new ''E_INDEX_CORRUPT'' m
   | Open_Read_Io broken m \<Rightarrow> if broken then fulltext_error_new ''E_INDEX_CORRUPT'' m else index_error (OpenReadError m)
   | Io_Failure broken m \<Rightarrow> if broken then fulltext_error_new ''E_INDEX_CORRUPT'' m else index_error (IoError m)
   | Other_Failure other \<Rightarrow> index_error other)"

record index_library =
  il_open :: "(string \<rightharpoonup> u8 list) \<Rightarrow> (schema, index_failure) result"
  il_create :: "(string \<rightharpoonup> u8 list) \<Rightarrow> schema \<Rightarrow> (unit, tantivy_error) result \<times> (string \<rightharpoonup> u8 list)"
  il_payload :: "(string \<rightharpoonup> u8 list) \<Rightarrow> (string option, index_failure) result"

definition map_failure :: "('e \<Rightarrow> fulltext_error) \<Rightarrow> ('a, 'e) result \<Rightarrow> 'a res" where
  "map_failure f r = (case r of Ok x \<Rightarrow> Ok x | Err e \<Rightarrow> Err (f e))"

definition validated_payload :: "string option \<Rightarrow> string option res" where
  "validated_payload payload = (case payload of
     Some p \<Rightarrow> if MAX_COMMIT_PAYLOAD_BYTES < length p
       then Err (fulltext_error_new ''E_INDEX_CORRUPT'' ''the persisted commit payload exceeds the supported bound'')
       else Ok payload
   | None \<Rightarrow> Ok payload)"

definition index_open :: "index_library \<Rightarrow> schema io" where
  "index_open lib d = (map_failure recovery_index_error (il_open lib (dir_files d)), d)"

definition index_create :: "index_library \<Rightarrow> schema \<Rightarrow> schema io" where
  "index_create lib schema d = (case il_create lib (dir_files d) schema of
     (Ok (), files) \<Rightarrow> (Ok schema, d\<lparr>dir_files := files\<rparr>)
   | (Err e, files) \<Rightarrow> (Err (index_error e), d\<lparr>dir_files := files\<rparr>))"

definition validated_committed_payload :: "index_library \<Rightarrow> string option io" where
  "validated_committed_payload lib d =
     (and_then (map_failure recovery_index_error (il_payload lib (dir_files d))) validated_payload, d)"

section \<open>Inspect and open\<close>

definition identity_mismatch :: fulltext_error where
  "identity_mismatch = fulltext_error_new ''E_IDENTITY_MISMATCH'' ''the persisted index identity does not match the requested configuration''"

definition incomplete_create :: fulltext_error where
  "incomplete_create = fulltext_error_new ''E_INCOMPLETE_CREATE'' ''meta.json exists without a fulltext identity sidecar''"

definition schema_mismatch :: fulltext_error where
  "schema_mismatch = fulltext_error_new ''E_SCHEMA_MISMATCH'' ''the persisted Tantivy schema does not match the requested configuration''"

definition inspect_engine :: "index_library \<Rightarrow> analyzers \<Rightarrow> engine_identity_config \<Rightarrow> inspection_result io" where
  "inspect_engine lib an config =
     io_then (io_return (canonical_identity an config)) (\<lambda>canonical.
     let identity = ci_config canonical;
         expected_schema = bs_schema (build_schema identity);
         expected_identity = identity_bytes identity
     in io_then (dir_exists IDENTITY_PATH) (\<lambda>sidecar_exists.
        io_then (dir_exists META_PATH) (\<lambda>meta_exists.
        if \<not> sidecar_exists \<and> \<not> meta_exists then io_return (Ok Missing)
        else if \<not> sidecar_exists then io_return (Err incomplete_create)
        else
          io_then (atomic_read IDENTITY_PATH) (\<lambda>actual_identity.
          if actual_identity \<noteq> expected_identity then io_return (Err identity_mismatch)
          else if \<not> meta_exists then io_return (Ok Cursorless)
          else
            io_then (index_open lib) (\<lambda>schema.
            if schema \<noteq> expected_schema then io_return (Err schema_mismatch)
            else
              io_then (validated_committed_payload lib) (\<lambda>payload.
              io_return (Ok (case payload of Some payload \<Rightarrow> Payload payload | None \<Rightarrow> Cursorless))))))))"

text \<open>The sidecar is compared, refused or written before the index is touched.\<close>

definition prepare_sidecar :: "u8 list \<Rightarrow> bool \<Rightarrow> bool \<Rightarrow> unit io" where
  "prepare_sidecar expected_identity sidecar_exists meta_exists =
     (if sidecar_exists
      then io_then (atomic_read IDENTITY_PATH) (\<lambda>actual.
        if actual \<noteq> expected_identity then io_return (Err identity_mismatch) else io_return (Ok ()))
      else if meta_exists then io_return (Err incomplete_create)
      else io_then (atomic_write IDENTITY_PATH expected_identity) (\<lambda>_. sync_directory))"

definition lookup_of :: "string list \<Rightarrow> string \<Rightarrow> nat option" where
  "lookup_of names = map_of (rev (zip names [0..<length names]))"

text \<open>\<open>tables\<close> holds what an engine uses of the library and the toolchain besides its analyzers.\<close>

definition engine_of ::
  "engine \<Rightarrow> analyzers \<Rightarrow> engine_config \<Rightarrow> canonical_identity_result \<Rightarrow> built_schema \<Rightarrow> tokenizer \<Rightarrow> engine" where
  "engine_of tables an config canonical built index_analyzer =
     tables\<lparr>en_schema := bs_schema built, en_id_field := bs_id_field built, en_version_field := bs_version_field built,
       en_fields := bs_fields built, en_field_lookup := lookup_of (map ef_name (bs_fields built)),
       en_filter_fields := bs_filter_fields built, en_filter_field_lookup := lookup_of (map eff_name (bs_filter_fields built)),
       en_analyzer := ci_analyzer canonical, en_surface_analyzer := an_surface an, en_index_analyzer := index_analyzer,
       en_surface_index_analyzer := an_surface_index an (ci_surface_synonyms canonical),
       en_positions := id_positions (ci_config canonical),
       en_max_query_terms := max_query_terms (ec_limits config), en_max_query_clauses := max_query_clauses (ec_limits config)\<rparr>"

text \<open>The part of \<open>open\<close> after the sidecar is settled.\<close>

definition open_index ::
  "engine \<Rightarrow> index_library \<Rightarrow> analyzers \<Rightarrow> engine_config \<Rightarrow> canonical_identity_result \<Rightarrow> bool \<Rightarrow> engine io" where
  "open_index tables lib an config canonical meta_exists =
     (let identity = ci_config canonical; built = build_schema identity
      in io_then (if meta_exists then index_open lib else index_create lib (bs_schema built)) (\<lambda>schema.
        if schema \<noteq> bs_schema built then io_return (Err schema_mismatch)
        else
          io_then (io_return (an_index an (id_stop_words identity) (ci_analyzed_synonyms canonical))) (\<lambda>index_analyzer.
          io_return (Ok (engine_of tables an config canonical built index_analyzer)))))"

definition open_engine :: "engine \<Rightarrow> index_library \<Rightarrow> analyzers \<Rightarrow> engine_config \<Rightarrow> engine io" where
  "open_engine tables lib an config =
     io_then (io_return (validate_query_limits (max_query_terms (ec_limits config)) (max_query_clauses (ec_limits config)))) (\<lambda>_.
     io_then (io_return (canonical_identity an (ec_identity config))) (\<lambda>canonical.
     io_then (dir_exists IDENTITY_PATH) (\<lambda>sidecar_exists.
     io_then (dir_exists META_PATH) (\<lambda>meta_exists.
     io_then (prepare_sidecar (identity_bytes (ci_config canonical)) sidecar_exists meta_exists) (\<lambda>_.
     open_index tables lib an config canonical meta_exists)))))"

section \<open>Directory steps\<close>

lemma io_then_Ok: "io_then m f d = (Ok y, d') \<longleftrightarrow> (\<exists>x d1. m d = (Ok x, d1) \<and> f x d1 = (Ok y, d'))"
  by (auto simp: io_then_def split: prod.split result.split)

lemma io_return_simps [simp]: "io_return r d = (r, d)"
  by (simp add: io_return_def)

text \<open>An action that reads only.\<close>

definition reads_only :: "'a io \<Rightarrow> bool" where
  "reads_only m \<longleftrightarrow> (\<forall>d. dir_files (snd (m d)) = dir_files d)"

lemma reads_only_simps [simp]:
  "reads_only (io_return r)" "reads_only (dir_exists path)" "reads_only (atomic_read path)" "reads_only (index_open lib)"
  "reads_only (validated_committed_payload lib)"
  by (auto simp: reads_only_def io_return_def dir_exists_def atomic_read_def dir_operation_def index_open_def
      validated_committed_payload_def split: list.split option.split)

lemma reads_only_then: "reads_only m \<Longrightarrow> (\<And>x. reads_only (f x)) \<Longrightarrow> reads_only (io_then m f)"
  by (auto simp: reads_only_def io_then_def split: prod.split result.split) (metis snd_conv)+

lemma reads_only_if: "reads_only a \<Longrightarrow> reads_only b \<Longrightarrow> reads_only (if c then a else b)"
  by simp

lemma reads_onlyD: "reads_only m \<Longrightarrow> m d = (r, d') \<Longrightarrow> dir_files d' = dir_files d"
  by (metis reads_only_def snd_conv)

lemma dir_exists_Ok: "dir_exists path d = (Ok b, d') \<Longrightarrow> (b \<longleftrightarrow> dir_files d path \<noteq> None) \<and> dir_files d' = dir_files d"
  by (auto simp: dir_exists_def dir_operation_def split: list.splits option.splits)

lemma atomic_read_Ok: "atomic_read path d = (Ok b, d') \<Longrightarrow> dir_files d path = Some b \<and> dir_files d' = dir_files d"
  by (auto simp: atomic_read_def dir_operation_def ok_or_def split: list.splits option.splits)

lemma atomic_write_cases: "atomic_write path b d = (r, d') \<Longrightarrow>
    dir_files d' = (case r of Ok _ \<Rightarrow> (dir_files d)(path \<mapsto> b) | Err _ \<Rightarrow> dir_files d)"
  by (auto simp: atomic_write_def dir_operation_def split: list.splits option.splits)

lemma sync_files: "sync_directory d = (r, d') \<Longrightarrow> dir_files d' = dir_files d"
  by (auto simp: sync_directory_def dir_operation_def split: list.splits option.splits)

lemma inspect_reads_only: "reads_only (inspect_engine lib an config)"
  unfolding inspect_engine_def Let_def by (intro reads_only_then reads_only_if reads_only_simps)

lemma io_then_cases:
  assumes "io_then m f d = (r, d')"
  obtains (failed) e where "m d = (Err e, d')" "r = Err e" | (went_on) x d1 where "m d = (Ok x, d1)" "f x d1 = (r, d')"
  using assms by (auto simp: io_then_def split: prod.splits result.splits)

definition keeps_sidecar :: "index_library \<Rightarrow> bool" where
  "keeps_sidecar lib \<longleftrightarrow> (\<forall>files schema. snd (il_create lib files schema) IDENTITY_PATH = files IDENTITY_PATH)"

lemma open_index_sidecar:
  assumes "open_index tables lib an config canonical meta_exists d = (r, d')" "keeps_sidecar lib"
  shows "dir_files d' IDENTITY_PATH = dir_files d IDENTITY_PATH" "meta_exists \<Longrightarrow> dir_files d' = dir_files d"
proof -
  have create: "dir_files (snd (index_create lib s d)) IDENTITY_PATH = dir_files d IDENTITY_PATH" for s d
    using assms(2) by (auto simp: keeps_sidecar_def index_create_def split: prod.split result.split unit.split) (metis snd_conv)+
  let ?s = "bs_schema (build_schema (ci_config canonical))"
  let ?first = "if meta_exists then index_open lib else index_create lib ?s"
  have first: "dir_files (snd (?first d)) IDENTITY_PATH = dir_files d IDENTITY_PATH" "meta_exists \<Longrightarrow> dir_files (snd (?first d)) = dir_files d"
    using create [of ?s d] reads_only_simps(4) [of lib] by (auto simp: reads_only_def)
  have "dir_files d' = dir_files (snd (?first d))" using assms(1) unfolding open_index_def Let_def
  proof (cases rule: io_then_cases)
    case (failed e)
    then show ?thesis by simp
  next
    case (went_on schema d1)
    have "reads_only (if schema \<noteq> ?s then io_return (Err schema_mismatch) else
        io_then (io_return (an_index an (id_stop_words (ci_config canonical)) (ci_analyzed_synonyms canonical))) (\<lambda>index_analyzer.
          io_return (Ok (engine_of tables an config canonical (build_schema (ci_config canonical)) index_analyzer))))"
      by (intro reads_only_if reads_only_then reads_only_simps)
    from reads_onlyD [OF this went_on(2)] show ?thesis using went_on(1) by simp
  qed
  then show "dir_files d' IDENTITY_PATH = dir_files d IDENTITY_PATH" "meta_exists \<Longrightarrow> dir_files d' = dir_files d" using first by simp_all
qed

lemma prepare_sidecar_Ok:
  assumes "prepare_sidecar b (dir_files d IDENTITY_PATH \<noteq> None) (dir_files d META_PATH \<noteq> None) d = (Ok (), d')"
  shows "dir_files d' IDENTITY_PATH = Some b" "dir_files d IDENTITY_PATH = Some b \<and> dir_files d' = dir_files d \<or>
    dir_files d IDENTITY_PATH = None \<and> dir_files d META_PATH = None"
proof -
  have "dir_files d' IDENTITY_PATH = Some b \<and> (dir_files d IDENTITY_PATH = Some b \<and> dir_files d' = dir_files d \<or>
    dir_files d IDENTITY_PATH = None \<and> dir_files d META_PATH = None)"
  proof (cases "dir_files d IDENTITY_PATH = None")
    case False
    then have "io_then (atomic_read IDENTITY_PATH) (\<lambda>actual.
        if actual \<noteq> b then io_return (Err identity_mismatch) else io_return (Ok ())) d = (Ok (), d')"
      using assms by (simp add: prepare_sidecar_def)
    then obtain actual d1 where a: "atomic_read IDENTITY_PATH d = (Ok actual, d1)"
        "(if actual \<noteq> b then io_return (Err identity_mismatch) else io_return (Ok ())) d1 = (Ok (), d')"
      unfolding io_then_Ok by blast
    then have "actual = b" "d1 = d'" by (simp_all split: if_splits)
    then show ?thesis using atomic_read_Ok [OF a(1)] by simp
  next
    case True
    have meta: "dir_files d META_PATH = None" using assms True by (cases "dir_files d META_PATH") (simp_all add: prepare_sidecar_def)
    then have "io_then (atomic_write IDENTITY_PATH b) (\<lambda>_. sync_directory) d = (Ok (), d')"
      using assms True by (simp add: prepare_sidecar_def)
    then obtain u d1 where w: "atomic_write IDENTITY_PATH b d = (Ok u, d1)" "sync_directory d1 = (Ok (), d')"
      unfolding io_then_Ok by blast
    have "dir_files d' = (dir_files d)(IDENTITY_PATH \<mapsto> b)" using atomic_write_cases [OF w(1)] sync_files [OF w(2)] by simp
    then show ?thesis using True meta by simp
  qed
  then show "dir_files d' IDENTITY_PATH = Some b" "dir_files d IDENTITY_PATH = Some b \<and> dir_files d' = dir_files d \<or>
    dir_files d IDENTITY_PATH = None \<and> dir_files d META_PATH = None" by auto
qed

lemma prepare_sidecar_files:
  assumes "prepare_sidecar b (dir_files d IDENTITY_PATH \<noteq> None) (dir_files d META_PATH \<noteq> None) d = (r, d')"
    and "dir_files d IDENTITY_PATH \<noteq> None \<or> dir_files d META_PATH \<noteq> None"
  shows "dir_files d' = dir_files d"
proof (cases "dir_files d IDENTITY_PATH = None")
  case True
  then show ?thesis using assms by (auto simp: prepare_sidecar_def)
next
  case False
  then have "reads_only (prepare_sidecar b (dir_files d IDENTITY_PATH \<noteq> None) (dir_files d META_PATH \<noteq> None))"
    by (auto simp: prepare_sidecar_def intro!: reads_only_then)
  then show ?thesis using assms(1) by (rule reads_onlyD)
qed

lemma prepare_sidecar_cong:
  "dir_files d = dir_files d1 \<Longrightarrow> prepare_sidecar b (dir_files d IDENTITY_PATH \<noteq> None) (dir_files d META_PATH \<noteq> None) =
     prepare_sidecar b (dir_files d1 IDENTITY_PATH \<noteq> None) (dir_files d1 META_PATH \<noteq> None)"
  by simp

text \<open>How far an opening gets.\<close>

lemma open_stages:
  assumes "open_engine tables lib an config d = (r, d')" "canonical_identity an (ec_identity config) = Ok k"
  obtains (early) e where "r = Err e" "dir_files d' = dir_files d"
  | (sidecar) e d1 d2 where "dir_files d1 = dir_files d" "r = Err e" "d' = d2"
      "prepare_sidecar (identity_bytes (ci_config k)) (dir_files d1 IDENTITY_PATH \<noteq> None) (dir_files d1 META_PATH \<noteq> None) d1 = (Err e, d2)"
  | (index) d1 d2 where "dir_files d1 = dir_files d"
      "prepare_sidecar (identity_bytes (ci_config k)) (dir_files d1 IDENTITY_PATH \<noteq> None) (dir_files d1 META_PATH \<noteq> None) d1 = (Ok (), d2)"
      "open_index tables lib an config k (dir_files d META_PATH \<noteq> None) d2 = (r, d')"
  using assms(1) unfolding open_engine_def
proof (cases rule: io_then_cases)
  case (failed e)
  then show thesis using early by simp
next
  case (went_on u d1)
  then have d1: "d1 = d" by simp
  from went_on(2) show thesis
  proof (cases rule: io_then_cases)
    case (failed e)
    then show thesis using assms(2) by simp
  next
    case (went_on k' d2)
    then have d2: "d2 = d" "k' = k" using assms(2) d1 by auto
    from went_on(2) show thesis
    proof (cases rule: io_then_cases)
      case (failed e)
      then show thesis using early reads_onlyD [OF reads_only_simps(2) failed(1)] d2 by simp
    next
      case (went_on sidecar_exists d3)
      note e3 = dir_exists_Ok [OF went_on(1)]
      from went_on(2) show thesis
      proof (cases rule: io_then_cases)
        case (failed e)
        then show thesis using early reads_onlyD [OF reads_only_simps(2) failed(1)] e3 d2 by simp
      next
        case (went_on meta_exists d4)
        note e4 = dir_exists_Ok [OF went_on(1)]
        have f4: "dir_files d4 = dir_files d" "sidecar_exists \<longleftrightarrow> dir_files d4 IDENTITY_PATH \<noteq> None"
          "meta_exists \<longleftrightarrow> dir_files d4 META_PATH \<noteq> None"
          using e3 e4 d2 by auto
        from went_on(2) show thesis
        proof (cases rule: io_then_cases)
          case (failed e)
          then show thesis using sidecar [OF f4(1)] f4 d2 by simp
        next
          case (went_on u d5)
          then show thesis using index [OF f4(1)] f4 d2 by simp
        qed
      qed
    qed
  qed
qed

section \<open>An example\<close>

text \<open>A library with room for the index of the schema \<open>s\<close>, and an empty directory that does not fail.\<close>

definition sample_library :: "schema \<Rightarrow> index_library" where
  "sample_library s = \<lparr>il_open = (\<lambda>files. Ok s), il_create = (\<lambda>files schema.
     if schema = s then (Ok (), files(META_PATH \<mapsto> [])) else (Err LockBusy, files)), il_payload = (\<lambda>files. Ok None)\<rparr>"

definition sample_config :: engine_config where
  "sample_config = \<lparr>ec_identity = docs_identity, ec_limits = \<lparr>max_query_terms = 64, max_query_clauses = 256, indexing_threads = 1,
     search_threads = 1, writer_memory_bytes = 1, max_queued_commands = 1, max_queued_bytes = 1, max_batch_bytes = 1\<rparr>\<rparr>"

definition sample_tables :: engine where
  "sample_tables = \<lparr>en_schema = [], en_id_field = 0, en_version_field = 1, en_fields = [], en_field_lookup = (\<lambda>_. None), en_filter_fields = [], en_filter_field_lookup = (\<lambda>_. None),
     en_analyzer = whole_token, en_surface_analyzer = whole_token, en_index_analyzer = whole_token, en_surface_index_analyzer = whole_token,
     en_final_analyzer = whole_token, en_fuzzy_query = (\<lambda>_ _ _. Err (invalid [])), en_is_alphabetic = (\<lambda>_. False),
     en_is_numeric = (\<lambda>_. False), en_positions = False, en_max_query_terms = 0, en_max_query_clauses = 0\<rparr>"

definition empty_directory :: directory where
  "empty_directory = \<lparr>dir_files = (\<lambda>_. None), dir_faults = []\<rparr>"

abbreviation room :: index_library where
  "room \<equiv> sample_library (bs_schema (build_schema docs_identity))"

lemma keeps_sidecar_sample: "keeps_sidecar (sample_library s)"
  by (simp add: keeps_sidecar_def sample_library_def META_PATH_def IDENTITY_PATH_def)

lemma sample_canonical: "is_ok (canonical_identity sample_analyzers (ec_identity sample_config))"
proof -
  have "is_ok (canonical_identity sample_analyzers docs_identity)" by code_simp
  then show ?thesis by (simp add: sample_config_def)
qed

lemma sample_opens: "is_ok (fst (open_engine sample_tables room sample_analyzers sample_config empty_directory))"
  by code_simp

section \<open>The identity is guarded\<close>

text \<open>
  C5. An index is opened only under its own identity.  Whatever operations of the directory fail: when
  \<open>open\<close> succeeds, the sidecar of the directory holds the canonical identity of the configuration, and
  it did before unless there was no index; when the directory holds another identity, or an index
  without a sidecar, \<open>open\<close> fails and changes nothing; and \<open>inspect\<close> changes nothing at all.
\<close>

theorem open_guards_identity:
  assumes "keeps_sidecar lib" "open_engine tables lib an config d = (r, d')" "inspect_engine lib an (ec_identity config) d = (q, d'')"
  shows "(is_ok r \<longrightarrow> (\<exists>k. canonical_identity an (ec_identity config) = Ok k \<and>
        dir_files d' IDENTITY_PATH = Some (identity_bytes (ci_config k)) \<and>
        (dir_files d IDENTITY_PATH = Some (identity_bytes (ci_config k)) \<or> dir_files d IDENTITY_PATH = None \<and> dir_files d META_PATH = None))) \<and>
    (canonical_identity an (ec_identity config) = Ok k \<and> dir_files d IDENTITY_PATH = Some b \<and> b \<noteq> identity_bytes (ci_config k) \<longrightarrow>
       \<not> is_ok r \<and> dir_files d' = dir_files d) \<and>
    (dir_files d IDENTITY_PATH = None \<and> dir_files d META_PATH \<noteq> None \<longrightarrow> \<not> is_ok r \<and> dir_files d' = dir_files d) \<and>
    dir_files d'' = dir_files d"
proof -
  have inspected: "dir_files d'' = dir_files d" by (rule reads_onlyD [OF inspect_reads_only assms(3)])
  show ?thesis
  proof (cases "canonical_identity an (ec_identity config)")
    case (Err e)
    then have "\<not> is_ok r \<and> dir_files d' = dir_files d"
      using assms(2) by (auto simp: open_engine_def io_then_def split: result.splits)
    then show ?thesis using inspected Err by simp
  next
    case (Ok c)
    let ?b = "identity_bytes (ci_config c)"
    from assms(2) Ok show ?thesis
    proof (cases rule: open_stages)
      case (early e)
      then show ?thesis using inspected by simp
    next
      case (sidecar e d1 d2)
      then show ?thesis using inspected prepare_sidecar_files [OF sidecar(4)] by auto
    next
      case (index d1 d2)
      note p = prepare_sidecar_Ok [OF index(2)] and o = open_index_sidecar [OF index(3) assms(1)]
      have "dir_files d' IDENTITY_PATH = Some ?b" using o(1) p(1) by simp
      moreover have "dir_files d IDENTITY_PATH = Some ?b \<or> dir_files d IDENTITY_PATH = None \<and> dir_files d META_PATH = None"
        using p(2) index(1) by auto
      ultimately show ?thesis using Ok inspected by auto
    qed
  qed
qed

theorem open_guards_identity_witness:
  "\<exists>k d'. canonical_identity sample_analyzers docs_identity = Ok k \<and>
     snd (open_engine sample_tables room sample_analyzers sample_config empty_directory) = d' \<and>
     dir_files d' IDENTITY_PATH = Some (identity_bytes (ci_config k))"
proof -
  obtain r d' where rd: "open_engine sample_tables room sample_analyzers sample_config empty_directory = (r, d')" by fastforce
  obtain q d'' where qd: "inspect_engine room sample_analyzers (ec_identity sample_config) empty_directory = (q, d'')" by fastforce
  have "is_ok r" using sample_opens rd by simp
  then obtain k where "canonical_identity sample_analyzers (ec_identity sample_config) = Ok k"
      "dir_files d' IDENTITY_PATH = Some (identity_bytes (ci_config k))"
    using open_guards_identity [OF keeps_sidecar_sample rd qd] by blast
  then show ?thesis using rd by (intro exI [of _ k] exI [of _ d']) (simp add: sample_config_def)
qed

section \<open>Inspect predicts open\<close>

lemma no_faults:
  assumes "dir_faults d = []"
  shows "dir_exists path d = (Ok (dir_files d path \<noteq> None), d)"
    "dir_files d path = Some b \<Longrightarrow> atomic_read path d = (Ok b, d)"
    "atomic_write path b d = (Ok (), d\<lparr>dir_files := (dir_files d)(path \<mapsto> b)\<rparr>)"
    "sync_directory d = (Ok (), d)"
proof -
  obtain files where "d = \<lparr>dir_files = files, dir_faults = []\<rparr>" using assms by (cases d) simp
  then show "dir_exists path d = (Ok (dir_files d path \<noteq> None), d)"
    "dir_files d path = Some b \<Longrightarrow> atomic_read path d = (Ok b, d)"
    "atomic_write path b d = (Ok (), d\<lparr>dir_files := (dir_files d)(path \<mapsto> b)\<rparr>)"
    "sync_directory d = (Ok (), d)"
    by (simp_all add: dir_exists_def atomic_read_def atomic_write_def sync_directory_def dir_operation_def ok_or_def)
qed

lemma io_then_step: "m d = (Ok x, d1) \<Longrightarrow> io_then m f d = f x d1"
  by (simp add: io_then_def)

definition library_laws :: "index_library \<Rightarrow> bool" where
  "library_laws lib \<longleftrightarrow> keeps_sidecar lib \<and> (\<forall>files schema files'. il_create lib files schema = (Ok (), files') \<longrightarrow>
     files' META_PATH \<noteq> None \<and> il_open lib files' = Ok schema \<and> il_payload lib files' = Ok None)"

lemma sample_library_laws: "library_laws (sample_library s)"
  using keeps_sidecar_sample by (auto simp: library_laws_def sample_library_def split: if_splits)

lemma inspect_without_faults:
  assumes "dir_faults d = []" "canonical_identity an c = Ok k" "dir_files d IDENTITY_PATH = Some (identity_bytes (ci_config k))"
    and "dir_files d META_PATH \<noteq> None"
  shows "inspect_engine lib an c d =
    (and_then (map_failure recovery_index_error (il_open lib (dir_files d))) (\<lambda>schema.
     if schema \<noteq> bs_schema (build_schema (ci_config k)) then Err schema_mismatch
     else and_then (and_then (map_failure recovery_index_error (il_payload lib (dir_files d))) validated_payload) (\<lambda>payload.
       Ok (case payload of Some payload \<Rightarrow> Payload payload | None \<Rightarrow> Cursorless))), d)"
proof -
  note nf = no_faults [OF assms(1)]
  have "inspect_engine lib an c d = io_then (index_open lib) (\<lambda>schema.
            if schema \<noteq> bs_schema (build_schema (ci_config k)) then io_return (Err schema_mismatch)
            else
              io_then (validated_committed_payload lib) (\<lambda>payload.
              io_return (Ok (case payload of Some payload \<Rightarrow> Payload payload | None \<Rightarrow> Cursorless)))) d"
    using assms(2-4) nf(1) nf(2) [OF assms(3)] by (simp add: inspect_engine_def io_then_def Let_def)
  then show ?thesis
    by (simp add: io_then_def index_open_def validated_committed_payload_def and_then_def split: result.split)
qed

lemma open_without_faults:
  assumes "dir_faults d = []" "canonical_identity an (ec_identity config) = Ok k"
    and "dir_files d IDENTITY_PATH = Some (identity_bytes (ci_config k))" "dir_files d META_PATH \<noteq> None"
    and "validate_query_limits (max_query_terms (ec_limits config)) (max_query_clauses (ec_limits config)) = Ok ()"
    and "\<And>stop synonyms. is_ok (an_index an stop synonyms)"
  shows "is_ok (fst (open_engine tables lib an config d)) \<longleftrightarrow>
    map_failure recovery_index_error (il_open lib (dir_files d)) = Ok (bs_schema (build_schema (ci_config k)))"
proof -
  note nf = no_faults [OF assms(1)]
  obtain t where t: "an_index an (id_stop_words (ci_config k)) (ci_analyzed_synonyms k) = Ok t" using assms(6) is_ok_iff by metis
  have "open_engine tables lib an config d = open_index tables lib an config k True d"
    using assms(2-5) nf(1) nf(2) [OF assms(3)] by (simp add: open_engine_def io_then_def prepare_sidecar_def)
  then show ?thesis using t
    by (auto simp: open_index_def io_then_def index_open_def Let_def is_ok_def split: result.split)
qed

lemma other_identity_fails:
  assumes "dir_faults d = []" "canonical_identity an (ec_identity config) = Ok k" "dir_files d META_PATH \<noteq> None"
    and "dir_files d IDENTITY_PATH \<noteq> Some (identity_bytes (ci_config k))"
  shows "\<not> is_ok (fst (inspect_engine lib an (ec_identity config) d)) \<and> \<not> is_ok (fst (open_engine tables lib an config d))"
proof -
  note nf = no_faults [OF assms(1)]
  have "\<not> is_ok (fst (open_engine tables lib an config d))"
  proof
    obtain r d' where rd: "open_engine tables lib an config d = (r, d')" by fastforce
    assume "is_ok (fst (open_engine tables lib an config d))"
    then have ok: "is_ok r" using rd by simp
    from rd assms(2) show False
    proof (cases rule: open_stages)
      case (index d1 d2)
      then show False using prepare_sidecar_Ok(2) [OF index(2)] assms(3,4) by auto
    qed (use ok in simp_all)
  qed
  moreover have "\<not> is_ok (fst (inspect_engine lib an (ec_identity config) d))"
  proof (cases "dir_files d IDENTITY_PATH")
    case None
    then show ?thesis using assms(2,3) nf(1) by (simp add: inspect_engine_def io_then_def Let_def)
  next
    case (Some b)
    then show ?thesis using assms(2-4) nf(1) nf(2) [OF Some] by (simp add: inspect_engine_def io_then_def Let_def)
  qed
  ultimately show ?thesis by blast
qed

lemma open_index_created:
  assumes "open_index tables lib an config k False d = (Ok en, d')"
  obtains s d2 where "index_create lib (bs_schema (build_schema (ci_config k))) d = (Ok s, d2)" "d' = d2"
proof -
  from assms have "io_then (index_create lib (bs_schema (build_schema (ci_config k)))) (\<lambda>schema.
        if schema \<noteq> bs_schema (build_schema (ci_config k)) then io_return (Err schema_mismatch)
        else
          io_then (io_return (an_index an (id_stop_words (ci_config k)) (ci_analyzed_synonyms k))) (\<lambda>index_analyzer.
          io_return (Ok (engine_of tables an config k (build_schema (ci_config k)) index_analyzer)))) d = (Ok en, d')"
    unfolding open_index_def Let_def if_False .
  then obtain s d2 where s: "index_create lib (bs_schema (build_schema (ci_config k))) d = (Ok s, d2)"
      "(if s \<noteq> bs_schema (build_schema (ci_config k)) then io_return (Err schema_mismatch)
        else
          io_then (io_return (an_index an (id_stop_words (ci_config k)) (ci_analyzed_synonyms k))) (\<lambda>index_analyzer.
          io_return (Ok (engine_of tables an config k (build_schema (ci_config k)) index_analyzer)))) d2 = (Ok en, d')"
    unfolding io_then_Ok by blast
  then show thesis using that by (auto simp: io_then_Ok io_return_def split: if_splits)
qed

lemma index_create_Ok:
  assumes "index_create lib s d = (Ok x, d2)"
  obtains files where "il_create lib (dir_files d) s = (Ok (), files)" "d2 = d\<lparr>dir_files := files\<rparr>"
proof -
  obtain r files where c: "il_create lib (dir_files d) s = (r, files)" by fastforce
  then show thesis using assms that by (cases r) (simp_all add: index_create_def split: unit.splits)
qed

lemma open_fresh:
  assumes "dir_faults d = []" "dir_files d IDENTITY_PATH = None" "dir_files d META_PATH = None" "library_laws lib"
    and "canonical_identity an (ec_identity config) = Ok k" "open_engine tables lib an config d = (Ok en, d')"
  shows "dir_faults d' = [] \<and> dir_files d' IDENTITY_PATH = Some (identity_bytes (ci_config k)) \<and>
    dir_files d' META_PATH \<noteq> None \<and> il_open lib (dir_files d') = Ok (bs_schema (build_schema (ci_config k))) \<and>
    il_payload lib (dir_files d') = Ok None"
proof -
  note nf = no_faults [OF assms(1)]
  let ?s = "bs_schema (build_schema (ci_config k))"
  let ?d1 = "d\<lparr>dir_files := (dir_files d)(IDENTITY_PATH \<mapsto> identity_bytes (ci_config k))\<rparr>"
  have f1: "dir_faults ?d1 = []" using assms(1) by simp
  have "open_engine tables lib an config d = open_index tables lib an config k False ?d1 \<or>
      (\<exists>e. fst (open_engine tables lib an config d) = Err e)"
    using assms(2,3,5) nf(1,3) no_faults(4) [OF f1]
    by (cases "validate_query_limits (max_query_terms (ec_limits config)) (max_query_clauses (ec_limits config))")
      (simp_all add: open_engine_def io_then_def prepare_sidecar_def)
  then have "open_index tables lib an config k False ?d1 = (Ok en, d')" using assms(6) by auto
  then obtain s d2 where s: "index_create lib ?s ?d1 = (Ok s, d2)" "d' = d2"
    by (rule open_index_created)
  then obtain files where files: "il_create lib (dir_files ?d1) ?s = (Ok (), files)" "d2 = ?d1\<lparr>dir_files := files\<rparr>"
    using index_create_Ok [OF s(1)] by blast
  have "files IDENTITY_PATH = dir_files ?d1 IDENTITY_PATH"
    using assms(4) files(1) unfolding library_laws_def keeps_sidecar_def by (metis snd_conv)
  moreover have "files META_PATH \<noteq> None" "il_open lib files = Ok ?s" "il_payload lib files = Ok None"
    using assms(4) files(1) unfolding library_laws_def by blast+
  ultimately show ?thesis using s(2) files(2) assms(1) by simp
qed



end
