(* ===== verification/Schema_Sound.thy ===== *)
theory Schema_Sound
  imports Opening
begin

text \<open>
  The schema that \<open>build_schema\<close> makes of a validated configuration: its entries have distinct names,
  and the handles of the engine name each entry once, with the kind that the configuration asks for.
\<close>

section \<open>Numbers in names\<close>

definition digits_value :: "string \<Rightarrow> nat" where
  "digits_value = foldl (\<lambda>v c. 10 * v + (of_char c - 48)) 0"

lemma digits_value_nat_digits: "digits_value (nat_digits n) = n"
proof (induction n rule: nat_digits.induct)
  case (1 n)
  show ?case
  proof (cases "n < 10")
    case True
    then show ?thesis by (subst nat_digits.simps) (simp add: digits_value_def)
  next
    case False
    then have "digits_value (nat_digits n) = 10 * digits_value (nat_digits (n div 10)) + n mod 10"
      by (subst nat_digits.simps) (simp add: digits_value_def)
    then show ?thesis using 1 False by simp
  qed
qed

lemma nat_digits_inj: "nat_digits m = nat_digits n \<longleftrightarrow> m = n"
  by (metis digits_value_nat_digits)

section \<open>Entries and handles\<close>

definition text_entry :: "string \<Rightarrow> string \<Rightarrow> record_option \<Rightarrow> schema_entry" where
  "text_entry name tokenizer record = Text_Entry name \<lparr>tx_indexing = Some (tokenizer, record, True), tx_fast = None\<rparr>"

definition surface_name :: "nat \<Rightarrow> string" where
  "surface_name i = ''__fulltext_surface_'' @ nat_digits i"

definition filter_name :: "nat \<Rightarrow> string" where
  "filter_name i = ''__fulltext_filter_'' @ nat_digits i"

definition filter_entry :: "string \<Rightarrow> filter_field_type \<Rightarrow> schema_entry" where
  "filter_entry name type = (case type of
     FieldString \<Rightarrow> Text_Entry name raw_options | FieldNumber \<Rightarrow> F64_Entry name | FieldBoolean \<Rightarrow> Bool_Entry name)"

definition field_record :: "bool \<Rightarrow> record_option" where
  "field_record positions = (if positions then With_Freqs_Positions else With_Freqs)"

definition field_handles :: "engine_field \<Rightarrow> nat list" where
  "field_handles field = ef_field field # (case ef_surface_field field of None \<Rightarrow> [] | Some h \<Rightarrow> [h])"

definition field_names :: "bool \<Rightarrow> nat \<times> field_config \<Rightarrow> string list" where
  "field_names surface_terms = (\<lambda>(i, field). fc_name field # (if surface_terms then [surface_name i] else []))"

definition field_typed :: "bool \<Rightarrow> bool \<Rightarrow> record_option \<Rightarrow> schema \<Rightarrow> engine_field \<Rightarrow> bool" where
  "field_typed positions surface_terms surface_record schema field \<longleftrightarrow>
     schema ! ef_field field = text_entry (ef_name field) ANALYZER_NAME (field_record positions) \<and>
     (case ef_surface_field field of
        None \<Rightarrow> \<not> surface_terms
      | Some h \<Rightarrow> surface_terms \<and> (\<exists>i. schema ! h = text_entry (surface_name i) SURFACE_ANALYZER_NAME surface_record))"

lemma schema_fields_step:
  "schema_fields p s r (field # rest) (b, ch) =
     schema_fields p s r rest
       (b @ text_entry (fc_name field) ANALYZER_NAME (field_record p) #
          (if s then [text_entry (surface_name (length ch)) SURFACE_ANALYZER_NAME r] else []),
        ch @ [\<lparr>ef_name = fc_name field, ef_field = length b, ef_surface_field = (if s then Some (Suc (length b)) else None),
          ef_weight = fc_weight field\<rparr>])"
  by (simp add: text_entry_def field_record_def surface_name_def Let_def)

declare schema_fields.simps(2) [simp del]

lemma schema_fields_grows: "\<exists>more. fst (schema_fields p s r fs (b, ch)) = b @ more"
proof (induction fs arbitrary: b ch)
  case (Cons f fs)
  show ?case unfolding schema_fields_step using Cons by (metis append.assoc)
qed simp

lemma schema_fields_names:
  "map entry_name (fst (schema_fields p s r fs (b, ch))) = map entry_name b @ concat (map (field_names s) (enumerate (length ch) fs)) \<and>
   map ef_name (snd (schema_fields p s r fs (b, ch))) = map ef_name ch @ map fc_name fs"
  by (induction fs arbitrary: b ch) (simp_all add: schema_fields_step field_names_def text_entry_def)

lemma schema_fields_handles:
  "concat (map field_handles (snd (schema_fields p s r fs (b, ch)))) =
     concat (map field_handles ch) @ [length b..<length (fst (schema_fields p s r fs (b, ch)))]"
proof (induction fs arbitrary: b ch)
  case (Cons f fs)
  obtain more where more: "fst (schema_fields p s r (f # fs) (b, ch)) = (b @ text_entry (fc_name f) ANALYZER_NAME (field_record p) #
          (if s then [text_entry (surface_name (length ch)) SURFACE_ANALYZER_NAME r] else [])) @ more"
    unfolding schema_fields_step using schema_fields_grows by blast
  then have "length (fst (schema_fields p s r (f # fs) (b, ch))) = length b + (if s then Suc (Suc 0) else Suc 0) + length more" by simp
  then have "[length b..<length (fst (schema_fields p s r (f # fs) (b, ch)))] =
      (if s then [length b, Suc (length b)] else [length b]) @
        [length b + (if s then Suc (Suc 0) else Suc 0)..<length (fst (schema_fields p s r (f # fs) (b, ch)))]"
    by (cases s) (simp_all add: upt_conv_Cons del: upt_Suc)
  then show ?case unfolding schema_fields_step using Cons by (cases s) (simp_all add: field_handles_def)
qed simp

lemma schema_fields_typed:
  "field \<in> set (snd (schema_fields p s r fs (b, ch))) \<Longrightarrow>
     field \<in> set ch \<or> field_typed p s r (fst (schema_fields p s r fs (b, ch))) field"
proof (induction fs arbitrary: b ch)
  case (Cons f fs)
  let ?b = "b @ text_entry (fc_name f) ANALYZER_NAME (field_record p) #
          (if s then [text_entry (surface_name (length ch)) SURFACE_ANALYZER_NAME r] else [])"
  let ?e = "\<lparr>ef_name = fc_name f, ef_field = length b, ef_surface_field = (if s then Some (Suc (length b)) else None),
          ef_weight = fc_weight f\<rparr>"
  let ?all = "fst (schema_fields p s r fs (?b, ch @ [?e]))"
  obtain more where more: "?all = ?b @ more" using schema_fields_grows by blast
  have "field_typed p s r ?all ?e"
    unfolding field_typed_def more by (cases s) (auto simp: nth_append)
  moreover have "field \<in> set (ch @ [?e]) \<or> field_typed p s r ?all field"
    using Cons unfolding schema_fields_step by blast
  ultimately show ?case unfolding schema_fields_step by auto
qed simp

lemma schema_filters_all:
  "schema_filters i fs (b, ch) =
     (b @ map (\<lambda>(i, f). filter_entry (filter_name i) (ff_type f)) (enumerate i fs),
      ch @ map (\<lambda>(h, f). \<lparr>eff_name = ff_name f, eff_field = h, eff_type = ff_type f\<rparr>) (enumerate (length b) fs))"
  by (induction fs arbitrary: i b ch) (simp_all add: Let_def filter_entry_def filter_name_def)

lemma entry_name_filter [simp]: "entry_name (filter_entry name type) = name"
  by (cases type) (simp_all add: filter_entry_def)

section \<open>The schema is sound\<close>

lemma prefix_reserved:
  "reserved_name ID_FIELD_NAME" "reserved_name VERSION_FIELD_NAME" "reserved_name (surface_name i)" "reserved_name (filter_name i)"
  by (simp_all add: reserved_name_def ID_FIELD_NAME_def VERSION_FIELD_NAME_def surface_name_def filter_name_def)

lemma built_names_apart:
  "surface_name i = surface_name j \<longleftrightarrow> i = j" "filter_name i = filter_name j \<longleftrightarrow> i = j" "surface_name i \<noteq> filter_name j"
  "surface_name i \<noteq> ID_FIELD_NAME" "surface_name i \<noteq> VERSION_FIELD_NAME" "filter_name i \<noteq> ID_FIELD_NAME"
  "filter_name i \<noteq> VERSION_FIELD_NAME" "ID_FIELD_NAME \<noteq> VERSION_FIELD_NAME"
  by (simp_all add: surface_name_def filter_name_def ID_FIELD_NAME_def VERSION_FIELD_NAME_def nat_digits_inj)

lemma field_names_set:
  "set (concat (map (field_names s) (enumerate n fs))) \<subseteq> fc_name ` set fs \<union> {surface_name i | i. n \<le> i}"
proof
  fix name assume "name \<in> set (concat (map (field_names s) (enumerate n fs)))"
  then obtain i f where i: "(i, f) \<in> set (enumerate n fs)" "name \<in> set (field_names s (i, f))" by auto
  then have "n \<le> i" "f \<in> set fs" by (auto simp: in_set_enumerate_eq)
  then show "name \<in> fc_name ` set fs \<union> {surface_name i | i. n \<le> i}"
    using i(2) by (auto simp: field_names_def split: if_splits)
qed

lemma field_names_distinct:
  assumes "distinct (map fc_name fs)" "\<forall>f \<in> set fs. \<not> reserved_name (fc_name f)"
  shows "distinct (concat (map (field_names s) (enumerate n fs)))"
  using assms
proof (induction fs arbitrary: n)
  case (Cons f fs)
  have "\<not> reserved_name (fc_name f)" "fc_name f \<notin> fc_name ` set fs" "\<forall>g \<in> set fs. \<not> reserved_name (fc_name g)"
    using Cons.prems by auto
  then have others: "surface_name n \<notin> fc_name ` set fs" and own: "fc_name f \<noteq> surface_name i" "fc_name f \<notin> fc_name ` set fs" for i
    using prefix_reserved(3) by (auto, metis)
  then have "set (field_names s (n, f)) \<inter> (fc_name ` set fs \<union> {surface_name i | i. Suc n \<le> i}) = {}"
    using others own by (auto simp: field_names_def built_names_apart(1))
  then have "set (field_names s (n, f)) \<inter> set (concat (map (field_names s) (enumerate (Suc n) fs))) = {}"
    using field_names_set [of s "Suc n" fs] by blast
  moreover have "distinct (field_names s (n, f))"
    using \<open>\<not> reserved_name (fc_name f)\<close> prefix_reserved(3) by (auto simp: field_names_def)
  ultimately show ?case using Cons by simp
qed simp

lemma filter_names_distinct: "distinct (map (\<lambda>(i, f). filter_name i) (enumerate n fs))"
proof -
  have "map (\<lambda>(i, f). filter_name i) (enumerate n fs) = map filter_name [n..<n + length fs]"
    by (induction fs arbitrary: n) (simp_all add: upt_conv_Cons del: upt_Suc)
  then show ?thesis by (simp add: distinct_map inj_on_def built_names_apart(2))
qed

lemma map_snd_enumerated: "map (\<lambda>x. f (snd x)) (enumerate n xs) = map f xs"
  by (induction xs arbitrary: n) simp_all

definition handles :: "built_schema \<Rightarrow> nat list" where
  "handles built = bs_id_field built # bs_version_field built # concat (map field_handles (bs_fields built)) @
     map eff_field (bs_filter_fields built)"

lemma build_schema_parts:
  assumes "schema_fields (id_positions c) (id_surface_terms c) r (id_fields c)
      ([Text_Entry ID_FIELD_NAME raw_options, Text_Entry VERSION_FIELD_NAME \<lparr>tx_indexing = None, tx_fast = Some ''raw''\<rparr>], []) = (b, chosen)"
  shows "build_schema_with_surface_record r c =
    \<lparr>bs_schema = b @ map (\<lambda>(i, f). filter_entry (filter_name i) (ff_type f)) (enumerate 0 (id_filter_fields c)), bs_id_field = 0,
      bs_version_field = 1, bs_fields = chosen,
      bs_filter_fields = map (\<lambda>(h, f). \<lparr>eff_name = ff_name f, eff_field = h, eff_type = ff_type f\<rparr>) (enumerate (length b) (id_filter_fields c))\<rparr>"
  using assms by (simp add: build_schema_with_surface_record_def schema_filters_all Let_def)

definition schema_fits :: "record_option \<Rightarrow> engine_identity_config \<Rightarrow> built_schema \<Rightarrow> bool" where
  "schema_fits r c built \<longleftrightarrow>
    distinct (map entry_name (bs_schema built)) \<and> handles built = [0..<length (bs_schema built)] \<and>
    map ef_name (bs_fields built) = map fc_name (id_fields c) \<and>
    list_all (field_typed (id_positions c) (id_surface_terms c) r (bs_schema built)) (bs_fields built) \<and>
    map eff_name (bs_filter_fields built) = map ff_name (id_filter_fields c) \<and>
    list_all (\<lambda>f. \<exists>i. bs_schema built ! eff_field f = filter_entry (filter_name i) (eff_type f)) (bs_filter_fields built)"

lemma build_schema_fits:
  assumes "names_distinct (map fc_name (id_fields c))" "names_distinct (map ff_name (id_filter_fields c))"
  shows "schema_fits r c (build_schema_with_surface_record r c)"
proof -
  let ?b0 = "[Text_Entry ID_FIELD_NAME raw_options, Text_Entry VERSION_FIELD_NAME \<lparr>tx_indexing = None, tx_fast = Some ''raw''\<rparr>]"
  let ?fs = "schema_fields (id_positions c) (id_surface_terms c) r (id_fields c) (?b0, [])"
  obtain b chosen where bc: "?fs = (b, chosen)" by fastforce
  have names: "map entry_name b = [ID_FIELD_NAME, VERSION_FIELD_NAME] @ concat (map (field_names (id_surface_terms c)) (enumerate 0 (id_fields c)))"
      "map ef_name chosen = map fc_name (id_fields c)"
    using schema_fields_names [of "id_positions c" "id_surface_terms c" r "id_fields c" ?b0 "[]"] bc by simp_all
  obtain more where more: "b = ?b0 @ more"
    using schema_fields_grows [of "id_positions c" "id_surface_terms c" r "id_fields c" ?b0 "[]"] bc by auto
  have hs: "concat (map field_handles chosen) = [2..<length b]"
    using schema_fields_handles [of "id_positions c" "id_surface_terms c" r "id_fields c" ?b0 "[]"] bc by (simp add: numeral_2_eq_2)
  have typed: "field_typed (id_positions c) (id_surface_terms c) r b f" if "f \<in> set chosen" for f
    using schema_fields_typed [of f "id_positions c" "id_surface_terms c" r "id_fields c" ?b0 "[]"] bc that by simp
  have bound: "h < length b" if "f \<in> set chosen" "h \<in> set (field_handles f)" for f h
  proof -
    have "h \<in> set (concat (map field_handles chosen))" using that by auto
    then show ?thesis unfolding hs by simp
  qed
  let ?es = "map (\<lambda>(i, f). filter_entry (filter_name i) (ff_type f)) (enumerate 0 (id_filter_fields c))"
  have filters: "map entry_name ?es = map (\<lambda>(i, f). filter_name i) (enumerate 0 (id_filter_fields c))"
    by (simp add: case_prod_beta)
  have fields_ok: "distinct (map fc_name (id_fields c))" "\<forall>f \<in> set (id_fields c). \<not> reserved_name (fc_name f)"
    using assms by (auto simp: names_distinct_def list_all_iff)
  have "distinct (map entry_name (b @ ?es))"
  proof -
    let ?ns = "set (concat (map (field_names (id_surface_terms c)) (enumerate 0 (id_fields c))))"
    have "?ns \<subseteq> fc_name ` set (id_fields c) \<union> {surface_name i | i. 0 \<le> i}" by (rule field_names_set)
    then have apart: "ID_FIELD_NAME \<notin> ?ns" "VERSION_FIELD_NAME \<notin> ?ns" "filter_name i \<notin> ?ns" for i
      using fields_ok(2) prefix_reserved built_names_apart by (auto dest!: subsetD, metis+)
    show ?thesis unfolding map_append names(1) filters
      using field_names_distinct [OF fields_ok] filter_names_distinct [of 0 "id_filter_fields c"] apart built_names_apart(6-8) built_names_apart(6,7) [symmetric]
      by (auto simp del: set_concat)
  qed
  moreover have "field_typed (id_positions c) (id_surface_terms c) r (b @ ?es) f" if "f \<in> set chosen" for f
    using typed [OF that] bound [OF that] by (auto simp: field_typed_def field_handles_def nth_append split: option.splits)
  moreover have "0 # 1 # [2..<length b] @ [length b..<length b + length ?es] = [0..<length (b @ ?es)]"
    using more upt_add_eq_append [of 2 "length b" "length (id_filter_fields c)"] by (simp add: upt_conv_Cons numeral_2_eq_2 del: upt_Suc)
  moreover have "\<exists>i. (b @ ?es) ! h = filter_entry (filter_name i) (ff_type f)" if "(h, f) \<in> set (enumerate (length b) (id_filter_fields c))" for h f
    using that by (auto simp: in_set_enumerate_eq nth_append nth_enumerate_eq)
  ultimately show ?thesis
    unfolding schema_fits_def build_schema_parts [OF bc] handles_def
    by (auto simp: names(2) hs list_all_iff case_prod_beta map_fst_enumerate map_snd_enumerated comp_def)
qed

text \<open>
  C36. The schema of a validated configuration is well formed.  Its entries have distinct names, so the
  names of fields never meet those that the engine reserves; the handles of the engine name its entries
  one after the other, each once; a field is a text entry under its own name with the frequencies or
  positions asked for, with a surface entry exactly when surface terms are on; and each filter has an
  entry of its own type.
\<close>

theorem build_schema_typed:
  assumes "identity_ok c"
  shows "let built = build_schema_with_surface_record r c in
    distinct (map entry_name (bs_schema built)) \<and> handles built = [0..<length (bs_schema built)] \<and>
    map ef_name (bs_fields built) = map fc_name (id_fields c) \<and>
    list_all (field_typed (id_positions c) (id_surface_terms c) r (bs_schema built)) (bs_fields built) \<and>
    map eff_name (bs_filter_fields built) = map ff_name (id_filter_fields c) \<and>
    list_all (\<lambda>f. \<exists>i. bs_schema built ! eff_field f = filter_entry (filter_name i) (eff_type f)) (bs_filter_fields built)"
  using build_schema_fits [of c r] assms unfolding schema_fits_def Let_def identity_ok_def by blast

theorem build_schema_typed_witness:
  "distinct (map entry_name (bs_schema (build_schema docs_identity))) \<and> handles (build_schema docs_identity) = [0, 1, 2, 3, 4]"
proof -
  have ok: "identity_ok docs_identity"
    by (simp add: identity_ok_def docs_identity_def sample_rules_def rule_ok_def rule_bytes_def names_distinct_def reserved_name_def limit_defs)
  have len: "length (bs_schema (build_schema docs_identity)) = 5" by code_simp
  have "[0..<5] = [0, 1, 2, 3, 4::nat]" by (simp add: upt_rec)
  then show ?thesis
    using build_schema_typed [OF ok, of With_Freqs] len unfolding build_schema_def Let_def by metis
qed

end
