(* ===== verification/Writer.thy ===== *)
theory Writer
  imports Schema_Sound Batch_Codec
begin

text \<open>
  The writer of \<^verbatim>\<open>src/src/engine.rs\<close>: a mutation batch becomes documents (\<open>prepare\<close>), which
  replace those of the same id (\<open>apply_prepared\<close>), and commits keep the checkpoint of the index
  (\<open>commit_with_payload\<close>, \<open>rollback\<close>, \<open>close\<close>).

  The index writer of the library is a parameter (\<open>writer_library\<close>), and so is the length of the
  longest token that the library indexes (\<open>MAX_TOKEN_LEN\<close>).
\<close>

section \<open>Documents\<close>

datatype doc_value = Text_Value string | F64_Value f64 | Bool_Value bool

type_synonym document = "(nat \<times> doc_value) list"

definition f64_eq :: "f64 \<Rightarrow> f64 \<Rightarrow> bool" where
  "f64_eq x y \<longleftrightarrow> \<not> f64_is_nan x \<and> \<not> f64_is_nan y \<and> f64_key x = f64_key y"

definition canonical_number :: "f64 \<Rightarrow> f64" where
  "canonical_number v = (if f64_eq v 0 then 0 else v)"

record prepared_batch =
  pb_mutation_count :: nat
  pb_deletes :: "string list"
  pb_documents :: "(string \<times> document) list"

record 'w writer =
  wr_inner :: 'w
  wr_checkpoint_required :: bool
  wr_worker_ownership_unproven :: bool
  wr_id_field :: nat
  wr_version_field :: nat
  wr_fields :: "engine_field list"
  wr_field_lookup :: "string \<Rightarrow> nat option"
  wr_filter_fields :: "engine_filter_field list"
  wr_filter_field_lookup :: "string \<Rightarrow> nat option"

section \<open>Preparing a batch\<close>

definition add_value :: "engine_field \<Rightarrow> document \<Rightarrow> string \<Rightarrow> document" where
  "add_value field document value =
     document @ (ef_field field, Text_Value value) #
       (case ef_surface_field field of Some surface_field \<Rightarrow> [(surface_field, Text_Value value)] | None \<Rightarrow> [])"

fun mutation_fields :: "'w writer \<Rightarrow> string list \<Rightarrow> document \<Rightarrow> (string \<times> string list) list \<Rightarrow> document res" where
  "mutation_fields w seen document [] = Ok document"
| "mutation_fields w seen document ((name, values) # rest) =
     (if name \<in> set seen then Err (invalid (''duplicate mutation field '' @ name))
      else and_then (ok_or (invalid (''unknown mutation field '' @ name)) (wr_field_lookup w name)) (\<lambda>index.
        mutation_fields w (name # seen) (foldl (add_value (wr_fields w ! index)) document values) rest))"

definition filter_too_long :: "nat \<Rightarrow> string \<Rightarrow> fulltext_error" where
  "filter_too_long max_token_len name =
     invalid (''mutation filter '' @ name @ '' exceeds '' @ nat_digits max_token_len @ '' UTF-8 bytes'')"

fun mutation_filter_values ::
  "nat \<Rightarrow> string \<Rightarrow> engine_filter_field \<Rightarrow> bool \<Rightarrow> string list \<Rightarrow> document \<Rightarrow> filter_value list \<Rightarrow> document res" where
  "mutation_filter_values max_token_len name field deduplicate seen document [] = Ok document"
| "mutation_filter_values max_token_len name field deduplicate seen document (value # rest) =
     (case (eff_type field, value) of
        (FieldString, FString s) \<Rightarrow>
          if max_token_len < length s then Err (filter_too_long max_token_len name)
          else if deduplicate \<and> s \<in> set seen
          then mutation_filter_values max_token_len name field deduplicate seen document rest
          else mutation_filter_values max_token_len name field deduplicate (if deduplicate then s # seen else seen)
            (document @ [(eff_field field, Text_Value s)]) rest
      | (FieldNumber, FNumber x) \<Rightarrow>
          mutation_filter_values max_token_len name field deduplicate seen
            (document @ [(eff_field field, F64_Value (canonical_number x))]) rest
      | (FieldBoolean, FBoolean b) \<Rightarrow>
          mutation_filter_values max_token_len name field deduplicate seen
            (document @ [(eff_field field, Bool_Value b)]) rest
      | _ \<Rightarrow> Err (invalid (''mutation filter '' @ name @ '' has the wrong value type'')))"

fun mutation_filters ::
  "nat \<Rightarrow> 'w writer \<Rightarrow> string list \<Rightarrow> document \<Rightarrow> (string \<times> filter_value list) list \<Rightarrow> document res" where
  "mutation_filters max_token_len w seen document [] = Ok document"
| "mutation_filters max_token_len w seen document ((name, values) # rest) =
     (if name \<in> set seen then Err (invalid (''duplicate mutation filter '' @ name))
      else and_then (ok_or (fulltext_error_new ''E_SCHEMA_MISMATCH'' (''unknown mutation filter '' @ name))
          (wr_filter_field_lookup w name)) (\<lambda>index.
        and_then (mutation_filter_values max_token_len name (wr_filter_fields w ! index) (1 < length values) [] document values) (\<lambda>document.
        mutation_filters max_token_len w (name # seen) document rest)))"

definition upsert_start :: "'w writer \<Rightarrow> upsert \<Rightarrow> document" where
  "upsert_start w u = (wr_id_field w, Text_Value (up_id u)) #
     (case up_version u of Some version \<Rightarrow> [(wr_version_field w, Text_Value version)] | None \<Rightarrow> [])"

definition prepare_upsert :: "nat \<Rightarrow> 'w writer \<Rightarrow> upsert \<Rightarrow> document res" where
  "prepare_upsert max_token_len w u =
     and_then (validate_record_id (up_id u)) (\<lambda>_.
     and_then (mutation_fields w [] (upsert_start w u) (up_fields u)) (\<lambda>document.
     mutation_filters max_token_len w [] document (up_filters u)))"

fun prepare_upserts ::
  "nat \<Rightarrow> 'w writer \<Rightarrow> (string \<times> document) list \<Rightarrow> upsert list \<Rightarrow> (string \<times> document) list res" where
  "prepare_upserts max_token_len w documents [] = Ok documents"
| "prepare_upserts max_token_len w documents (u # rest) =
     and_then (prepare_upsert max_token_len w u) (\<lambda>document.
     prepare_upserts max_token_len w (documents @ [(up_id u, document)]) rest)"

fun check_deletes :: "string list \<Rightarrow> unit res" where
  "check_deletes [] = Ok ()"
| "check_deletes (rid # rest) = and_then (validate_record_id rid) (\<lambda>_. check_deletes rest)"

definition prepare_batch :: "nat \<Rightarrow> 'w writer \<Rightarrow> mutation_batch \<Rightarrow> prepared_batch res" where
  "prepare_batch max_token_len w batch =
     and_then (check_deletes (mb_deletes batch)) (\<lambda>_.
     and_then (prepare_upserts max_token_len w [] (mb_upserts batch)) (\<lambda>documents.
     Ok \<lparr>pb_mutation_count = length (mb_upserts batch) + length (mb_deletes batch), pb_deletes = mb_deletes batch,
       pb_documents = documents\<rparr>))"

section \<open>Applying, committing and closing\<close>

record 'w writer_library =
  wl_delete_term :: "nat \<Rightarrow> string \<Rightarrow> 'w \<Rightarrow> 'w"
  wl_add_document :: "document \<Rightarrow> 'w \<Rightarrow> (unit, tantivy_error) result \<times> 'w"
  wl_prepare_commit :: "'w \<Rightarrow> (unit, tantivy_error) result \<times> 'w"
  wl_commit :: "string option \<Rightarrow> 'w \<Rightarrow> (nat, tantivy_error) result \<times> 'w"
  wl_rollback :: "'w \<Rightarrow> (nat, tantivy_error) result \<times> 'w"
  wl_wait_merging_threads :: "'w \<Rightarrow> (unit, tantivy_error) result"

fun apply_documents :: "'w writer_library \<Rightarrow> nat \<Rightarrow> (string \<times> document) list \<Rightarrow> 'w \<Rightarrow> unit res \<times> 'w" where
  "apply_documents lib id_field [] inner = (Ok (), inner)"
| "apply_documents lib id_field ((rid, document) # rest) inner =
     (case wl_add_document lib document (wl_delete_term lib id_field rid inner) of
        (Ok _, inner) \<Rightarrow> apply_documents lib id_field rest inner
      | (Err e, inner) \<Rightarrow> (Err (index_error e), inner))"

definition apply_prepared :: "'w writer_library \<Rightarrow> 'w writer \<Rightarrow> prepared_batch \<Rightarrow> nat res \<times> 'w writer" where
  "apply_prepared lib w prepared =
     (let inner = foldl (\<lambda>inner rid. wl_delete_term lib (wr_id_field w) rid inner) (wr_inner w) (pb_deletes prepared)
      in case apply_documents lib (wr_id_field w) (pb_documents prepared) inner of (r, inner) \<Rightarrow>
        (and_then r (\<lambda>_. Ok (pb_mutation_count prepared)), w\<lparr>wr_inner := inner\<rparr>))"

definition apply_batch :: "nat \<Rightarrow> 'w writer_library \<Rightarrow> 'w writer \<Rightarrow> mutation_batch \<Rightarrow> nat res \<times> 'w writer" where
  "apply_batch max_token_len lib w batch = (case prepare_batch max_token_len w batch of
     Ok prepared \<Rightarrow> apply_prepared lib w prepared
   | Err e \<Rightarrow> (Err e, w))"

definition checkpoint_required_error :: fulltext_error where
  "checkpoint_required_error = fulltext_error_new ''E_CHECKPOINT_REQUIRED'' ''index has a checkpoint; use publish with a payload''"

definition commit_error :: "string \<Rightarrow> tantivy_error \<Rightarrow> fulltext_error" where
  "commit_error operation e = (let error = index_error e
     in error\<lparr>err_message := ''Tantivy '' @ operation @ '': '' @ err_message error\<rparr>)"

definition commit_with_payload :: "'w writer_library \<Rightarrow> 'w writer \<Rightarrow> string option \<Rightarrow> nat res \<times> 'w writer" where
  "commit_with_payload lib w payload =
     (if wr_checkpoint_required w \<and> payload = None then (Err checkpoint_required_error, w)
      else if (case payload of Some p \<Rightarrow> MAX_COMMIT_PAYLOAD_BYTES < length p | None \<Rightarrow> False)
      then (Err (invalid (''commit payload exceeds '' @ nat_digits MAX_COMMIT_PAYLOAD_BYTES @ '' UTF-8 bytes'')), w)
      else
        (let previously_unproven = wr_worker_ownership_unproven w; w = w\<lparr>wr_worker_ownership_unproven := True\<rparr>
         in case wl_prepare_commit lib (wr_inner w) of
           (Err e, inner) \<Rightarrow> (Err (commit_error ''prepare_commit'' e), w\<lparr>wr_inner := inner\<rparr>)
         | (Ok _, inner) \<Rightarrow>
             (let w = w\<lparr>wr_worker_ownership_unproven := previously_unproven,
                    wr_checkpoint_required := (wr_checkpoint_required w \<or> payload \<noteq> None)\<rparr>
              in case wl_commit lib payload inner of
                (Ok opstamp, inner) \<Rightarrow> (Ok opstamp, w\<lparr>wr_inner := inner\<rparr>)
              | (Err e, inner) \<Rightarrow> (Err (commit_error ''commit'' e), w\<lparr>wr_inner := inner\<rparr>))))"

definition commit_plain :: "'w writer_library \<Rightarrow> 'w writer \<Rightarrow> nat res \<times> 'w writer" where
  "commit_plain lib w = commit_with_payload lib w None"

definition rollback_writer :: "'w writer_library \<Rightarrow> 'w writer \<Rightarrow> nat res \<times> 'w writer" where
  "rollback_writer lib w = (case wl_rollback lib (wr_inner w) of
     (Ok opstamp, inner) \<Rightarrow> (Ok opstamp, w\<lparr>wr_inner := inner\<rparr>)
   | (Err e, inner) \<Rightarrow> (Err (index_error e), w\<lparr>wr_inner := inner\<rparr>))"

definition ownership_unproven :: "fulltext_error option \<Rightarrow> fulltext_error" where
  "ownership_unproven join = fulltext_error_new ''E_QUIESCENCE_FAILED''
     (''Tantivy commit preparation left worker ownership unproven; restart before reusing this generation'' @
      (case join of Some error \<Rightarrow> ''; writer join also reported: '' @ display_error error | None \<Rightarrow> []))"

definition close_engine_writer :: "'w writer_library \<Rightarrow> 'w writer \<Rightarrow> unit res" where
  "close_engine_writer lib w =
     (let r = map_failure index_error (wl_wait_merging_threads lib (wr_inner w))
      in if wr_worker_ownership_unproven w
         then Err (ownership_unproven (case r of Err e \<Rightarrow> Some e | Ok _ \<Rightarrow> None))
         else r)"

text \<open>A writer of an engine; \<open>created\<close> is the writer that the library makes, with the merge policy set.\<close>

definition writer_with_payload ::
  "engine \<Rightarrow> ('e \<Rightarrow> fulltext_error) \<Rightarrow> ('w, 'e) result \<Rightarrow> string option res \<Rightarrow> ('w writer \<times> string option) res" where
  "writer_with_payload en map_error created committed_payload =
     and_then (map_failure map_error created) (\<lambda>inner.
     and_then committed_payload (\<lambda>payload.
     Ok (\<lparr>wr_inner = inner, wr_checkpoint_required = (payload \<noteq> None), wr_worker_ownership_unproven = False,
          wr_id_field = en_id_field en, wr_version_field = en_version_field en, wr_fields = en_fields en,
          wr_field_lookup = en_field_lookup en, wr_filter_fields = en_filter_fields en,
          wr_filter_field_lookup = en_filter_field_lookup en\<rparr>, payload)))"

end
