(* ===== verification/Writer_Prepare.thy ===== *)
theory Writer_Prepare
  imports Writer
begin

text \<open>
  What \<open>prepare\<close> accepts and the documents it makes, which have the types that the schema gives to
  their handles.
\<close>

section \<open>Filter values\<close>

definition value_ok :: "nat \<Rightarrow> filter_field_type \<Rightarrow> filter_value \<Rightarrow> bool" where
  "value_ok max_token_len t v = (case (t, v) of
     (FieldString, FString s) \<Rightarrow> length s \<le> max_token_len
   | (FieldNumber, FNumber _) \<Rightarrow> True
   | (FieldBoolean, FBoolean _) \<Rightarrow> True
   | _ \<Rightarrow> False)"

definition stored_value :: "filter_value \<Rightarrow> doc_value" where
  "stored_value v = (case v of FString s \<Rightarrow> Text_Value s | FNumber x \<Rightarrow> F64_Value (canonical_number x) | FBoolean b \<Rightarrow> Bool_Value b)"

lemma value_ok_cases:
  assumes "value_ok n t v"
  obtains s where "t = FieldString" "v = FString s" "length s \<le> n" | x where "t = FieldNumber" "v = FNumber x"
  | b where "t = FieldBoolean" "v = FBoolean b"
  using assms by (cases t; cases v) (auto simp: value_ok_def)

lemma mutation_filter_values_step:
  "mutation_filter_values n name f d seen doc (v # vs) =
     (if value_ok n (eff_type f) v
      then if eff_type f = FieldString \<and> d \<and> v \<in> FString ` set seen then mutation_filter_values n name f d seen doc vs
        else mutation_filter_values n name f d
          (case v of FString s \<Rightarrow> if d then s # seen else seen | _ \<Rightarrow> seen) (doc @ [(eff_field f, stored_value v)]) vs
      else Err (if eff_type f = FieldString \<and> (\<exists>s. v = FString s) then filter_too_long n name
        else invalid (''mutation filter '' @ name @ '' has the wrong value type'')))"
  by (cases "eff_type f"; cases v) (auto simp: value_ok_def stored_value_def)

declare mutation_filter_values.simps(2) [simp del]

lemma mutation_filter_values_ok:
  "is_ok (mutation_filter_values n name f d seen doc vs) \<longleftrightarrow> list_all (value_ok n (eff_type f)) vs"
  by (induction vs arbitrary: seen doc) (auto simp: mutation_filter_values_step)

text \<open>The values that are kept: of equal strings, the first one.\<close>

fun first_kept :: "string list \<Rightarrow> filter_value list \<Rightarrow> filter_value list" where
  "first_kept seen [] = []"
| "first_kept seen (v # vs) = (case v of
     FString s \<Rightarrow> if s \<in> set seen then first_kept seen vs else v # first_kept (s # seen) vs
   | _ \<Rightarrow> v # first_kept seen vs)"

lemma kept_set: "set (first_kept seen vs) = set vs - FString ` set seen"
  by (induction seen vs rule: first_kept.induct) (auto split: filter_value.splits)

lemma kept_distinct: "\<forall>v \<in> set vs. \<exists>s. v = FString s \<Longrightarrow> distinct (first_kept seen vs)"
  by (induction seen vs rule: first_kept.induct) (auto simp: kept_set split: filter_value.splits)

definition kept_values :: "filter_field_type \<Rightarrow> filter_value list \<Rightarrow> filter_value list" where
  "kept_values t vs = (if t = FieldString then first_kept [] vs else vs)"

lemma kept_values_set [simp]: "set (kept_values t vs) = set vs"
  by (simp add: kept_values_def kept_set)

lemma mutation_filter_values_Ok:
  assumes "mutation_filter_values n name f True seen doc vs = Ok doc'"
  shows "doc' = doc @ map (\<lambda>v. (eff_field f, stored_value v)) (if eff_type f = FieldString then first_kept seen vs else vs)"
  using assms
proof (induction vs arbitrary: seen doc)
  case (Cons v vs)
  then have "value_ok n (eff_type f) v" by (simp add: mutation_filter_values_step split: if_splits)
  then show ?case
    by (cases rule: value_ok_cases)
      (use Cons.prems in \<open>auto simp: mutation_filter_values_step value_ok_def split: if_splits dest!: Cons.IH\<close>)
qed simp

lemma mutation_filter_values_single:
  assumes "mutation_filter_values n name f False seen doc vs = Ok doc'"
  shows "doc' = doc @ map (\<lambda>v. (eff_field f, stored_value v)) vs"
  using assms
proof (induction vs arbitrary: seen doc)
  case (Cons v vs)
  then show ?case by (cases v) (auto simp: mutation_filter_values_step split: if_splits dest!: Cons.IH)
qed simp

lemma mutation_filter_values_result:
  assumes "mutation_filter_values n name f (1 < length vs) [] doc vs = Ok doc'"
  shows "doc' = doc @ map (\<lambda>v. (eff_field f, stored_value v)) (kept_values (eff_type f) vs)"
proof (cases "1 < length vs")
  case True
  then show ?thesis using mutation_filter_values_Ok assms by (simp add: kept_values_def)
next
  case False
  then have "vs = [] \<or> (\<exists>v. vs = [v])" by (cases vs) auto
  then have "kept_values (eff_type f) vs = vs" by (auto simp: kept_values_def split: filter_value.split)
  then show ?thesis using mutation_filter_values_single assms False by simp
qed

section \<open>Documents of upserts\<close>

definition field_entries_of :: "engine_field \<Rightarrow> string list \<Rightarrow> document" where
  "field_entries_of f values = concat (map (\<lambda>v. map (\<lambda>h. (h, Text_Value v)) (field_handles f)) values)"

lemma add_values: "foldl (add_value f) doc vs = doc @ field_entries_of f vs"
  by (induction vs arbitrary: doc) (auto simp: add_value_def field_entries_of_def field_handles_def split: option.splits)

definition fields_document :: "'w writer \<Rightarrow> (string \<times> string list) list \<Rightarrow> document" where
  "fields_document w chosen = concat (map (\<lambda>(name, values). field_entries_of (wr_fields w ! the (wr_field_lookup w name)) values) chosen)"

definition filters_document :: "'w writer \<Rightarrow> (string \<times> filter_value list) list \<Rightarrow> document" where
  "filters_document w chosen = concat (map (\<lambda>(name, values). let f = wr_filter_fields w ! the (wr_filter_field_lookup w name)
     in map (\<lambda>v. (eff_field f, stored_value v)) (kept_values (eff_type f) values)) chosen)"

definition document_of :: "'w writer \<Rightarrow> upsert \<Rightarrow> document" where
  "document_of w u = upsert_start w u @ fields_document w (up_fields u) @ filters_document w (up_filters u)"

definition names_known :: "(string \<Rightarrow> nat option) \<Rightarrow> (string \<times> 'a) list \<Rightarrow> bool" where
  "names_known lookup chosen \<longleftrightarrow> distinct (map fst chosen) \<and> (\<forall>(name, _) \<in> set chosen. lookup name \<noteq> None)"

definition filters_ok :: "nat \<Rightarrow> 'w writer \<Rightarrow> (string \<times> filter_value list) list \<Rightarrow> bool" where
  "filters_ok n w chosen \<longleftrightarrow> names_known (wr_filter_field_lookup w) chosen \<and>
     (\<forall>(name, values) \<in> set chosen. list_all (value_ok n (eff_type (wr_filter_fields w ! the (wr_filter_field_lookup w name)))) values)"

definition upsert_ok :: "nat \<Rightarrow> 'w writer \<Rightarrow> upsert \<Rightarrow> bool" where
  "upsert_ok n w u \<longleftrightarrow> is_ok (validate_record_id (up_id u)) \<and> names_known (wr_field_lookup w) (up_fields u) \<and>
     filters_ok n w (up_filters u)"

lemma mutation_fields_ok:
  "is_ok (mutation_fields w seen doc chosen) \<longleftrightarrow> names_known (wr_field_lookup w) chosen \<and> fst ` set chosen \<inter> set seen = {}"
proof (induction chosen arbitrary: seen doc)
  case (Cons c chosen)
  show ?case by (cases c; cases "wr_field_lookup w (fst c)") (auto simp: Cons names_known_def ok_or_def)
qed (simp add: names_known_def)

lemma mutation_fields_Ok:
  "mutation_fields w seen doc chosen = Ok doc' \<Longrightarrow> doc' = doc @ fields_document w chosen"
proof (induction chosen arbitrary: seen doc)
  case (Cons c chosen)
  then show ?case
    by (cases c) (auto simp: and_then_Ok_iff ok_or_Ok_iff add_values fields_document_def split: if_splits dest!: Cons.IH)
qed (simp add: fields_document_def)

lemma mutation_filters_ok:
  "is_ok (mutation_filters n w seen doc chosen) \<longleftrightarrow> filters_ok n w chosen \<and> fst ` set chosen \<inter> set seen = {}"
proof (induction chosen arbitrary: seen doc)
  case (Cons c chosen)
  obtain name vs where c: "c = (name, vs)" by (cases c)
  show ?case
  proof (cases "wr_filter_field_lookup w name")
    case None
    then show ?thesis by (simp add: c ok_or_def filters_ok_def names_known_def)
  next
    case (Some i)
    let ?m = "mutation_filter_values n name (wr_filter_fields w ! i) (1 < length vs) [] doc vs"
    have "is_ok ?m \<longleftrightarrow> list_all (value_ok n (eff_type (wr_filter_fields w ! i))) vs" by (rule mutation_filter_values_ok)
    then show ?thesis using Some
      by (cases ?m) (auto simp: c ok_or_def Cons filters_ok_def names_known_def)
  qed
qed (simp add: filters_ok_def names_known_def)

lemma mutation_filters_Ok:
  "mutation_filters n w seen doc chosen = Ok doc' \<Longrightarrow> doc' = doc @ filters_document w chosen"
proof (induction chosen arbitrary: seen doc)
  case (Cons c chosen)
  obtain name vs where c: "c = (name, vs)" by (cases c)
  obtain i d1 where i: "wr_filter_field_lookup w name = Some i" and
      d1: "mutation_filter_values n name (wr_filter_fields w ! i) (1 < length vs) [] doc vs = Ok d1"
      "mutation_filters n w (name # seen) d1 chosen = Ok doc'"
    using Cons.prems by (auto simp: c and_then_Ok_iff ok_or_Ok_iff split: if_splits)
  then show ?case using Cons.IH [OF d1(2)] mutation_filter_values_result [OF d1(1)]
    by (simp add: c filters_document_def Let_def)
qed (simp add: filters_document_def)

lemma prepare_upsert_exact:
  "prepare_upsert n w u = Ok doc \<longleftrightarrow> upsert_ok n w u \<and> doc = document_of w u"
proof -
  have "is_ok (prepare_upsert n w u) \<longleftrightarrow> upsert_ok n w u"
    using mutation_fields_ok [of w "[]" "upsert_start w u" "up_fields u"] mutation_filters_ok [of n w "[]" _ "up_filters u"]
    by (cases "validate_record_id (up_id u)"; cases "mutation_fields w [] (upsert_start w u) (up_fields u)")
      (simp_all add: prepare_upsert_def upsert_ok_def)
  moreover have "doc = document_of w u" if "prepare_upsert n w u = Ok doc" for doc
    using that by (auto simp: prepare_upsert_def and_then_Ok_iff document_of_def dest!: mutation_fields_Ok mutation_filters_Ok)
  ultimately show ?thesis by (auto simp: is_ok_iff)
qed

lemma prepare_upserts_exact:
  "prepare_upserts n w documents us = Ok ds \<longleftrightarrow> list_all (upsert_ok n w) us \<and> ds = documents @ map (\<lambda>u. (up_id u, document_of w u)) us"
  by (induction us arbitrary: documents) (auto simp: and_then_Ok_iff prepare_upsert_exact)

lemma check_deletes_ok: "is_ok (check_deletes ids) \<longleftrightarrow> list_all (\<lambda>rid. is_ok (validate_record_id rid)) ids"
  by (induction ids) (auto simp: is_ok_and_then unit_Ok_iff)

section \<open>The batch\<close>

definition batch_ok :: "nat \<Rightarrow> 'w writer \<Rightarrow> mutation_batch \<Rightarrow> bool" where
  "batch_ok n w b \<longleftrightarrow> list_all (\<lambda>rid. is_ok (validate_record_id rid)) (mb_deletes b) \<and> list_all (upsert_ok n w) (mb_upserts b)"

definition prepared_of :: "'w writer \<Rightarrow> mutation_batch \<Rightarrow> prepared_batch" where
  "prepared_of w b = \<lparr>pb_mutation_count = length (mb_upserts b) + length (mb_deletes b), pb_deletes = mb_deletes b,
     pb_documents = map (\<lambda>u. (up_id u, document_of w u)) (mb_upserts b)\<rparr>"

lemma prepare_batch_Ok: "prepare_batch n w b = Ok p \<longleftrightarrow> batch_ok n w b \<and> p = prepared_of w b"
  by (auto simp: prepare_batch_def and_then_Ok_iff prepare_upserts_exact batch_ok_def prepared_of_def unit_Ok_iff check_deletes_ok)

definition batch_codes :: "string set" where
  "batch_codes = {''E_INVALID_ARGUMENT'', ''E_SCHEMA_MISMATCH''}"

lemma invalid_code: "''E_INVALID_ARGUMENT'' \<in> batch_codes" "''E_SCHEMA_MISMATCH'' \<in> batch_codes"
  by (simp_all add: batch_codes_def)

lemma validate_record_id_code: "validate_record_id rid = Err e \<Longrightarrow> err_code e \<in> batch_codes"
  by (auto simp: validate_record_id_def invalid_code split: if_splits)

lemma mutation_fields_code: "mutation_fields w seen doc chosen = Err e \<Longrightarrow> err_code e \<in> batch_codes"
  by (induction w seen doc chosen rule: mutation_fields.induct)
    (auto simp: and_then_Err_iff ok_or_def invalid_code split: if_splits option.splits)

lemma mutation_filter_values_code: "mutation_filter_values n name f d seen doc vs = Err e \<Longrightarrow> err_code e \<in> batch_codes"
  by (induction vs arbitrary: seen doc) (auto simp: mutation_filter_values_step filter_too_long_def invalid_code split: if_splits)

lemma mutation_filters_code: "mutation_filters n w seen doc chosen = Err e \<Longrightarrow> err_code e \<in> batch_codes"
  by (induction n w seen doc chosen rule: mutation_filters.induct)
    (auto simp: and_then_Err_iff ok_or_def invalid_code split: if_splits option.splits dest: mutation_filter_values_code)

lemma prepare_upserts_code: "prepare_upserts n w ds us = Err e \<Longrightarrow> err_code e \<in> batch_codes"
  by (induction us arbitrary: ds)
    (auto simp: and_then_Err_iff prepare_upsert_def dest: validate_record_id_code mutation_fields_code mutation_filters_code)

lemma check_deletes_code: "check_deletes ids = Err e \<Longrightarrow> err_code e \<in> batch_codes"
  by (induction ids) (auto simp: and_then_Err_iff dest: validate_record_id_code)

text \<open>
  C37. \<open>prepare\<close> accepts exactly the batches whose ids are valid, whose upserts name known fields and
  filters once each, and whose filter values have the type of their filter and fit into a token.  Its
  documents then hold the id, the version, every value of every field (in the surface field too) and
  every filter value, numbers in canonical form and equal strings once.  Every other batch is refused
  with an argument or schema error before the index is touched.
\<close>

theorem prepare_exact:
  "case prepare_batch n w b of
     Ok p \<Rightarrow> batch_ok n w b \<and> p = prepared_of w b
   | Err e \<Rightarrow> \<not> batch_ok n w b \<and> err_code e \<in> {''E_INVALID_ARGUMENT'', ''E_SCHEMA_MISMATCH''}"
proof (cases "prepare_batch n w b")
  case (Ok p)
  then have "batch_ok n w b \<and> p = prepared_of w b" by (simp add: prepare_batch_Ok)
  then show ?thesis using Ok by simp
next
  case (Err e)
  then have "\<not> batch_ok n w b" using prepare_batch_Ok [of n w b "prepared_of w b"] by auto
  moreover have "err_code e \<in> batch_codes"
    using Err by (auto simp: prepare_batch_def and_then_Err_iff dest: check_deletes_code prepare_upserts_code)
  ultimately show ?thesis using Err by (simp add: batch_codes_def)
qed

section \<open>The types of documents\<close>

definition entry_accepts :: "schema_entry \<Rightarrow> doc_value \<Rightarrow> bool" where
  "entry_accepts entry v = (case (entry, v) of
     (Text_Entry _ _, Text_Value _) \<Rightarrow> True
   | (F64_Entry _, F64_Value x) \<Rightarrow> x \<noteq> 0x8000000000000000
   | (Bool_Entry _, Bool_Value _) \<Rightarrow> True
   | _ \<Rightarrow> False)"

definition document_typed :: "schema \<Rightarrow> document \<Rightarrow> bool" where
  "document_typed schema document \<longleftrightarrow> (\<forall>(h, v) \<in> set document. h < length schema \<and> entry_accepts (schema ! h) v)"

definition writer_fits :: "built_schema \<Rightarrow> 'w writer \<Rightarrow> bool" where
  "writer_fits built w \<longleftrightarrow> wr_id_field w = bs_id_field built \<and> wr_version_field w = bs_version_field built \<and>
     wr_fields w = bs_fields built \<and> wr_field_lookup w = lookup_of (map ef_name (bs_fields built)) \<and>
     wr_filter_fields w = bs_filter_fields built \<and> wr_filter_field_lookup w = lookup_of (map eff_name (bs_filter_fields built))"

lemma lookup_of_Some:
  assumes "lookup_of names n = Some i"
  shows "i < length names" "names ! i = n"
proof -
  have "(n, i) \<in> set (zip names [0..<length names])" using map_of_SomeD [of "rev (zip names [0..<length names])"] assms
    by (simp add: lookup_of_def)
  then show "i < length names" "names ! i = n" by (auto simp: set_zip)
qed

lemma lookup_of_known: "n \<in> set names \<longleftrightarrow> lookup_of names n \<noteq> None"
proof -
  have "fst ` set (zip names [0..<length names]) = set (map fst (zip names [0..<length names]))" by (rule set_map [symmetric])
  also have "\<dots> = set names" by (subst map_fst_zip) simp_all
  finally show ?thesis by (simp add: lookup_of_def map_of_eq_None_iff)
qed

lemma handles_members:
  "f \<in> set (bs_fields built) \<Longrightarrow> h \<in> set (field_handles f) \<Longrightarrow> h \<in> set (handles built)"
  "f' \<in> set (bs_filter_fields built) \<Longrightarrow> eff_field f' \<in> set (handles built)"
  "bs_id_field built \<in> set (handles built)" "bs_version_field built \<in> set (handles built)"
  by (auto simp: handles_def)

lemma canonical_number_key: "canonical_number x \<noteq> 0x8000000000000000"
proof
  assume c: "canonical_number x = 0x8000000000000000"
  then have "x = 0x8000000000000000" by (auto simp: canonical_number_def split: if_splits)
  moreover have "f64_eq 0x8000000000000000 0"
    by (simp add: f64_eq_def f64_is_nan_def f64_key_def f64_magnitude_def)
  ultimately show False using c by (simp add: canonical_number_def)
qed

lemma value_ok_accepted: "value_ok n t v \<Longrightarrow> entry_accepts (filter_entry name t) (stored_value v)"
  by (elim value_ok_cases) (simp_all add: entry_accepts_def filter_entry_def stored_value_def canonical_number_key)

lemma build_schema_heads:
  "bs_id_field (build_schema_with_surface_record r c) = 0" "bs_version_field (build_schema_with_surface_record r c) = 1"
  "\<exists>tx. bs_schema (build_schema_with_surface_record r c) ! 0 = Text_Entry ID_FIELD_NAME tx"
  "\<exists>tx. bs_schema (build_schema_with_surface_record r c) ! 1 = Text_Entry VERSION_FIELD_NAME tx"
proof -
  let ?b0 = "[Text_Entry ID_FIELD_NAME raw_options, Text_Entry VERSION_FIELD_NAME \<lparr>tx_indexing = None, tx_fast = Some ''raw''\<rparr>]"
  obtain b chosen where bc: "schema_fields (id_positions c) (id_surface_terms c) r (id_fields c) (?b0, []) = (b, chosen)" by fastforce
  then obtain more where "b = ?b0 @ more"
    using schema_fields_grows [of "id_positions c" "id_surface_terms c" r "id_fields c" ?b0 "[]"] by auto
  then show "bs_id_field (build_schema_with_surface_record r c) = 0" "bs_version_field (build_schema_with_surface_record r c) = 1"
    "\<exists>tx. bs_schema (build_schema_with_surface_record r c) ! 0 = Text_Entry ID_FIELD_NAME tx"
    "\<exists>tx. bs_schema (build_schema_with_surface_record r c) ! 1 = Text_Entry VERSION_FIELD_NAME tx"
    by (simp_all add: build_schema_parts [OF bc])
qed

lemma handles_bound: "schema_fits r c built \<Longrightarrow> h \<in> set (handles built) \<Longrightarrow> h < length (bs_schema built)"
  by (simp add: schema_fits_def)

lemma field_handle_text:
  assumes "schema_fits r c built" "f \<in> set (bs_fields built)" "h \<in> set (field_handles f)"
  shows "entry_accepts (bs_schema built ! h) (Text_Value v)"
proof -
  have "field_typed (id_positions c) (id_surface_terms c) r (bs_schema built) f"
    using assms(1,2) by (auto simp: schema_fits_def list_all_iff)
  then show ?thesis using assms(3)
    by (auto simp: field_typed_def field_handles_def text_entry_def entry_accepts_def split: option.splits)
qed

lemma field_looked_up:
  assumes "writer_fits built w" "names_known (wr_field_lookup w) chosen" "(name, vs) \<in> set chosen"
  shows "wr_fields w ! the (wr_field_lookup w name) \<in> set (bs_fields built)"
    "ef_name (wr_fields w ! the (wr_field_lookup w name)) = name"
proof -
  obtain i where i: "wr_field_lookup w name = Some i" using assms(2,3) by (auto simp: names_known_def)
  then have "lookup_of (map ef_name (bs_fields built)) name = Some i" using assms(1) by (simp add: writer_fits_def)
  from lookup_of_Some [OF this] i assms(1)
  show "wr_fields w ! the (wr_field_lookup w name) \<in> set (bs_fields built)"
    "ef_name (wr_fields w ! the (wr_field_lookup w name)) = name"
    by (simp_all add: writer_fits_def)
qed

lemma filter_looked_up:
  assumes "writer_fits built w" "names_known (wr_filter_field_lookup w) chosen" "(name, vs) \<in> set chosen"
  shows "wr_filter_fields w ! the (wr_filter_field_lookup w name) \<in> set (bs_filter_fields built)"
    "eff_name (wr_filter_fields w ! the (wr_filter_field_lookup w name)) = name"
proof -
  obtain i where i: "wr_filter_field_lookup w name = Some i" using assms(2,3) by (auto simp: names_known_def)
  then have "lookup_of (map eff_name (bs_filter_fields built)) name = Some i" using assms(1) by (simp add: writer_fits_def)
  from lookup_of_Some [OF this] i assms(1)
  show "wr_filter_fields w ! the (wr_filter_field_lookup w name) \<in> set (bs_filter_fields built)"
    "eff_name (wr_filter_fields w ! the (wr_filter_field_lookup w name)) = name"
    by (simp_all add: writer_fits_def)
qed

lemma document_of_typed:
  assumes fits: "schema_fits r c built" and built: "built = build_schema_with_surface_record r c" and w: "writer_fits built w" and u: "upsert_ok n w u"
  shows "document_typed (bs_schema built) (document_of w u)"
proof -
  have "h < length (bs_schema built) \<and> entry_accepts (bs_schema built ! h) v" if "(h, v) \<in> set (upsert_start w u)" for h v
  proof -
    have "h \<in> {0, 1} \<and> (\<exists>s. v = Text_Value s)" "h \<in> set (handles built)"
      using that w build_schema_heads(1,2) [of r c] handles_members(3,4) [of built]
      by (auto simp: upsert_start_def writer_fits_def built split: option.splits)
    then show ?thesis using build_schema_heads(3,4) [of r c] handles_bound [OF fits]
      by (auto simp: built entry_accepts_def)
  qed
  moreover have "h < length (bs_schema built) \<and> entry_accepts (bs_schema built ! h) v" if entry: "(h, v) \<in> set (fields_document w (up_fields u))" for h v
  proof -
    obtain name vs where nv: "(name, vs) \<in> set (up_fields u)"
        "(h, v) \<in> set (field_entries_of (wr_fields w ! the (wr_field_lookup w name)) vs)"
      using entry by (auto simp: fields_document_def)
    let ?f = "wr_fields w ! the (wr_field_lookup w name)"
    have f: "?f \<in> set (bs_fields built)" using field_looked_up(1) [OF w _ nv(1)] u by (simp add: upsert_ok_def)
    have "h \<in> set (field_handles ?f)" "\<exists>s. v = Text_Value s" using nv(2) by (auto simp: field_entries_of_def)
    then show ?thesis using handles_bound [OF fits] handles_members(1) [OF f] field_handle_text [OF fits f] by auto
  qed
  moreover have "h < length (bs_schema built) \<and> entry_accepts (bs_schema built ! h) v" if entry: "(h, v) \<in> set (filters_document w (up_filters u))" for h v
  proof -
    obtain name vs where nv: "(name, vs) \<in> set (up_filters u)" and
        hv: "h = eff_field (wr_filter_fields w ! the (wr_filter_field_lookup w name))" "v \<in> stored_value ` set vs"
      using entry by (auto simp: filters_document_def Let_def)
    let ?f = "wr_filter_fields w ! the (wr_filter_field_lookup w name)"
    have known: "names_known (wr_filter_field_lookup w) (up_filters u)" and ok: "list_all (value_ok n (eff_type ?f)) vs"
      using u nv by (auto simp: upsert_ok_def filters_ok_def)
    have f: "?f \<in> set (bs_filter_fields built)" using filter_looked_up(1) [OF w known nv] by simp
    then obtain i where "bs_schema built ! eff_field ?f = filter_entry (filter_name i) (eff_type ?f)"
      using fits by (auto simp: schema_fits_def list_all_iff)
    moreover obtain x where "x \<in> set vs" "v = stored_value x" using hv(2) by auto
    then have "entry_accepts (filter_entry (filter_name i) (eff_type ?f)) v"
      using value_ok_accepted ok by (auto simp: list_all_iff)
    ultimately show ?thesis using handles_bound [OF fits] handles_members(2) [OF f] hv(1) by simp
  qed
  ultimately show ?thesis by (auto simp: document_typed_def document_of_def)
qed

end
