(* ===== verification/Writer_Apply.thy ===== *)
theory Writer_Apply
  imports Writer_Prepare "HOL-Library.Code_Target_Nat"
begin

text \<open>
  Applying batches refines the replacement of documents by their ids, and the flags of the writer are
  right over every sequence of its calls.
\<close>

section \<open>Engines and their writers\<close>

definition engine_fits :: "built_schema \<Rightarrow> engine \<Rightarrow> bool" where
  "engine_fits built en \<longleftrightarrow> en_schema en = bs_schema built \<and> en_id_field en = bs_id_field built \<and>
     en_version_field en = bs_version_field built \<and> en_fields en = bs_fields built \<and>
     en_field_lookup en = lookup_of (map ef_name (bs_fields built)) \<and> en_filter_fields en = bs_filter_fields built \<and>
     en_filter_field_lookup en = lookup_of (map eff_name (bs_filter_fields built))"

definition writes_for :: "engine \<Rightarrow> 'w writer \<Rightarrow> bool" where
  "writes_for en w \<longleftrightarrow> wr_id_field w = en_id_field en \<and> wr_version_field w = en_version_field en \<and> wr_fields w = en_fields en \<and>
     wr_field_lookup w = en_field_lookup en \<and> wr_filter_fields w = en_filter_fields en \<and>
     wr_filter_field_lookup w = en_filter_field_lookup en"

lemma engine_of_fits: "engine_fits built (engine_of tables an config k built t)"
  by (simp add: engine_fits_def engine_of_def)

lemma writes_for_fits: "engine_fits built en \<Longrightarrow> writes_for en w \<Longrightarrow> writer_fits built w"
  by (simp add: engine_fits_def writes_for_def writer_fits_def)

lemma writer_with_payload_writes:
  "writer_with_payload en f created payload = Ok (w, p) \<Longrightarrow>
     writes_for en w \<and> payload = Ok p \<and> wr_checkpoint_required w = (p \<noteq> None) \<and> \<not> wr_worker_ownership_unproven w"
  by (auto simp: writer_with_payload_def and_then_Ok_iff writes_for_def)

lemma open_index_fits:
  assumes "open_index tables lib an config k meta_exists d = (Ok en, d')"
  shows "engine_fits (build_schema (ci_config k)) en"
proof -
  let ?built = "build_schema (ci_config k)"
  from assms have "io_then (if meta_exists then index_open lib else index_create lib (bs_schema ?built)) (\<lambda>schema.
        if schema \<noteq> bs_schema ?built then io_return (Err schema_mismatch)
        else
          io_then (io_return (an_index an (id_stop_words (ci_config k)) (ci_analyzed_synonyms k))) (\<lambda>index_analyzer.
          io_return (Ok (engine_of tables an config k ?built index_analyzer)))) d = (Ok en, d')"
    unfolding open_index_def Let_def .
  then obtain s d2 where "(if s \<noteq> bs_schema ?built then io_return (Err schema_mismatch)
        else
          io_then (io_return (an_index an (id_stop_words (ci_config k)) (ci_analyzed_synonyms k))) (\<lambda>index_analyzer.
          io_return (Ok (engine_of tables an config k ?built index_analyzer)))) d2 = (Ok en, d')"
    unfolding io_then_Ok by blast
  then obtain t where "en = engine_of tables an config k ?built t"
    by (auto simp: io_then_Ok io_return_def split: if_splits)
  then show ?thesis using engine_of_fits by simp
qed

lemma opened_fits:
  assumes "open_engine tables lib an config d = (Ok en, d')" "identity_ok (ec_identity config)"
  obtains c where "schema_fits With_Freqs c (build_schema c)" "engine_fits (build_schema c) en"
    "distinct (map ef_name (bs_fields (build_schema c)))" "distinct (map eff_name (bs_filter_fields (build_schema c)))"
proof -
  obtain k where k: "canonical_identity an (ec_identity config) = Ok k"
    using assms(1) by (cases "canonical_identity an (ec_identity config)") (auto simp: open_engine_def io_then_def split: result.splits)
  have "id_fields (ci_config k) = id_fields (ec_identity config)" "id_filter_fields (ci_config k) = id_filter_fields (ec_identity config)"
    using k by (auto simp: canonical_identity_def and_then_Ok_iff)
  then have "schema_fits With_Freqs (ci_config k) (build_schema (ci_config k))"
    using assms(2) build_schema_fits [of "ci_config k" With_Freqs] by (simp add: identity_ok_def build_schema_def)
  moreover from assms(1) k have "engine_fits (build_schema (ci_config k)) en"
  proof (cases rule: open_stages)
    case (index d1 d2)
    then show ?thesis using open_index_fits by blast
  qed simp_all
  moreover from calculation(1) \<open>id_fields (ci_config k) = _\<close> \<open>id_filter_fields (ci_config k) = _\<close>
  have "distinct (map ef_name (bs_fields (build_schema (ci_config k))))" "distinct (map eff_name (bs_filter_fields (build_schema (ci_config k))))"
    using assms(2) by (simp_all add: schema_fits_def identity_ok_def names_distinct_def)
  ultimately show thesis by (rule that)
qed

section \<open>What the library promises\<close>

definition document_laws :: "'w writer_library \<Rightarrow> ('w \<Rightarrow> document list) \<Rightarrow> bool" where
  "document_laws lib docs \<longleftrightarrow>
     (\<forall>f t w. docs (wl_delete_term lib f t w) = filter (\<lambda>d. (f, Text_Value t) \<notin> set d) (docs w)) \<and>
     (\<forall>d w w'. wl_add_document lib d w = (Ok (), w') \<longrightarrow> docs w' = docs w @ [d]) \<and>
     (\<forall>d w w' e. wl_add_document lib d w = (Err e, w') \<longrightarrow> docs w' = docs w \<or> docs w' = docs w @ [d])"

definition payload_laws :: "'w writer_library \<Rightarrow> ('w \<Rightarrow> string option) \<Rightarrow> bool" where
  "payload_laws lib payload \<longleftrightarrow>
     (\<forall>f t w. payload (wl_delete_term lib f t w) = payload w) \<and> (\<forall>d w. payload (snd (wl_add_document lib d w)) = payload w) \<and>
     (\<forall>w. payload (snd (wl_prepare_commit lib w)) = payload w) \<and> (\<forall>w. payload (snd (wl_rollback lib w)) = payload w) \<and>
     (\<forall>p w w' s. wl_commit lib p w = (Ok s, w') \<longrightarrow> payload w' = p) \<and>
     (\<forall>p w w' e. wl_commit lib p w = (Err e, w') \<longrightarrow> payload w' = payload w \<or> payload w' = p)"

section \<open>An example\<close>

text \<open>A library that keeps its documents in a list; \<open>prepares\<close> tells whether commits can be prepared.\<close>

record list_writer =
  lw_docs :: "document list"
  lw_payload :: "string option"

definition list_library :: "bool \<Rightarrow> list_writer writer_library" where
  "list_library prepares = \<lparr>wl_delete_term = (\<lambda>f t w. w\<lparr>lw_docs := filter (\<lambda>d. (f, Text_Value t) \<notin> set d) (lw_docs w)\<rparr>),
     wl_add_document = (\<lambda>d w. (Ok (), w\<lparr>lw_docs := lw_docs w @ [d]\<rparr>)),
     wl_prepare_commit = (\<lambda>w. (if prepares then Ok () else Err LockBusy, w)),
     wl_commit = (\<lambda>p w. (Ok 1, w\<lparr>lw_payload := p\<rparr>)),
     wl_rollback = (\<lambda>w. (Ok 1, w)), wl_wait_merging_threads = (\<lambda>w. Ok ())\<rparr>"

lemma list_library_laws: "document_laws (list_library p) lw_docs" "payload_laws (list_library p) lw_payload"
  by (simp_all add: list_library_def document_laws_def payload_laws_def)

definition car_batch :: mutation_batch where
  "car_batch = \<lparr>mb_upserts = [\<lparr>up_id = ''k1'', up_version = None, up_fields = [(''title'', [''red car''])],
     up_filters = [(''kind'', [FNumber 0x8000000000000000])]\<rparr>], mb_deletes = [''k2'']\<rparr>"

definition sample_writer :: "engine \<Rightarrow> list_writer writer" where
  "sample_writer en = (case writer_with_payload en index_error (Ok \<lparr>lw_docs = [], lw_payload = None\<rparr>) (Ok None) of Ok (w, _) \<Rightarrow> w)"

lemma sample_writer_made:
  "writer_with_payload en index_error (Ok \<lparr>lw_docs = [], lw_payload = None\<rparr>) (Ok None) = Ok (sample_writer en, None)"
  by (simp add: sample_writer_def writer_with_payload_def map_failure_def)

lemma sample_writes: "writes_for en (sample_writer en)"
  using writer_with_payload_writes [OF sample_writer_made] by blast

lemma sample_writer_inner: "wr_inner (sample_writer en) = \<lparr>lw_docs = [], lw_payload = None\<rparr>"
  by (simp add: sample_writer_def writer_with_payload_def map_failure_def)

lemma docs_identity_ok: "identity_ok (ec_identity sample_config)"
  by (simp add: sample_config_def identity_ok_def docs_identity_def sample_rules_def rule_ok_def rule_bytes_def names_distinct_def
      reserved_name_def limit_defs)

lemma sample_engine_opened:
  obtains en d' where "open_engine sample_tables room sample_analyzers sample_config empty_directory = (Ok en, d')"
    "is_ok (prepare_batch 100 (sample_writer en) car_batch)"
proof -
  obtain en d' where e: "open_engine sample_tables room sample_analyzers sample_config empty_directory = (Ok en, d')"
    using sample_opens unfolding is_ok_iff by (metis prod.collapse)
  have "case fst (open_engine sample_tables room sample_analyzers sample_config empty_directory) of
      Ok en \<Rightarrow> is_ok (prepare_batch 100 (sample_writer en) car_batch) | Err _ \<Rightarrow> False" by code_simp
  then show thesis using that e by simp
qed

text \<open>
  C38. Documents are typed by the schema.  For the writer of an engine that \<open>open\<close> returned for a
  validated configuration, every entry of every document that \<open>prepare\<close> makes names an entry of the
  schema and has its type, a number is never a negative zero.
\<close>

theorem prepared_documents_typed:
  assumes "open_engine tables lib an config d = (Ok en, d')" "identity_ok (ec_identity config)" "writes_for en w"
    and "prepare_batch n w b = Ok p"
  shows "list_all (\<lambda>(rid, document). document_typed (en_schema en) document) (pb_documents p)"
proof -
  obtain c where c: "schema_fits With_Freqs c (build_schema c)" "engine_fits (build_schema c) en"
    using opened_fits [OF assms(1,2)] by blast
  have w: "writer_fits (build_schema c) w" using writes_for_fits [OF c(2) assms(3)] .
  have "batch_ok n w b" "p = prepared_of w b" using assms(4) by (simp_all add: prepare_batch_Ok)
  moreover have "document_typed (bs_schema (build_schema c)) (document_of w u)" if "upsert_ok n w u" for u
    using document_of_typed [OF c(1) _ w that] by (simp add: build_schema_def)
  ultimately show ?thesis using c(2) by (auto simp: list_all_iff batch_ok_def prepared_of_def engine_fits_def)
qed

theorem prepared_documents_typed_witness:
  "\<exists>en d' p. open_engine sample_tables room sample_analyzers sample_config empty_directory = (Ok en, d') \<and>
     prepare_batch 100 (sample_writer en) car_batch = Ok p \<and>
     list_all (\<lambda>(rid, document). document_typed (en_schema en) document) (pb_documents p)"
proof -
  obtain en d' where e: "open_engine sample_tables room sample_analyzers sample_config empty_directory = (Ok en, d')"
    "is_ok (prepare_batch 100 (sample_writer en) car_batch)" by (rule sample_engine_opened)
  then obtain p where p: "prepare_batch 100 (sample_writer en) car_batch = Ok p" by (auto simp: is_ok_iff)
  show ?thesis using prepared_documents_typed [OF e(1) docs_identity_ok sample_writes p] e(1) p by blast
qed

section \<open>Documents by id\<close>

type_synonym store = "string \<Rightarrow> document list"

definition store_of :: "nat \<Rightarrow> document list \<Rightarrow> store" where
  "store_of id_field ds rid = filter (\<lambda>d. (id_field, Text_Value rid) \<in> set d) ds"

definition spec_apply :: "'w writer \<Rightarrow> mutation_batch \<Rightarrow> store \<Rightarrow> store" where
  "spec_apply w b s = foldl (\<lambda>s u. s(up_id u := [document_of w u])) (\<lambda>rid. if rid \<in> set (mb_deletes b) then [] else s rid) (mb_upserts b)"

lemma document_lawsD:
  assumes "document_laws lib docs"
  shows "docs (wl_delete_term lib f t w) = filter (\<lambda>d. (f, Text_Value t) \<notin> set d) (docs w)"
    "wl_add_document lib d w = (Ok (), w') \<Longrightarrow> docs w' = docs w @ [d]"
    "wl_add_document lib d w = (Err e, w') \<Longrightarrow> docs w' = docs w \<or> docs w' = docs w @ [d]"
  using assms by (auto simp: document_laws_def)

definition identified :: "nat \<Rightarrow> string \<times> document \<Rightarrow> bool" where
  "identified id_field = (\<lambda>(rid, d). \<forall>i. (id_field, Text_Value i) \<in> set d \<longleftrightarrow> i = rid)"

lemma document_id:
  assumes "writer_fits built w" "distinct (handles built)" "upsert_ok n w u"
  shows "identified (wr_id_field w) (up_id u, document_of w u)"
proof -
  let ?h = "wr_id_field w"
  have apart: "?h \<noteq> wr_version_field w" "\<And>f. f \<in> set (bs_fields built) \<Longrightarrow> ?h \<notin> set (field_handles f)"
      "\<And>f. f \<in> set (bs_filter_fields built) \<Longrightarrow> ?h \<noteq> eff_field f"
    using assms(1,2) by (auto simp: writer_fits_def handles_def)
  have known: "names_known (wr_field_lookup w) (up_fields u)" "names_known (wr_filter_field_lookup w) (up_filters u)"
    using assms(3) by (auto simp: upsert_ok_def filters_ok_def)
  have "?h \<notin> fst ` set (fields_document w (up_fields u))"
    using field_looked_up(1) [OF assms(1) known(1)] apart(2) by (force simp: fields_document_def field_entries_of_def)
  moreover have "?h \<notin> fst ` set (filters_document w (up_filters u))"
    using filter_looked_up(1) [OF assms(1) known(2)] apart(3) by (force simp: filters_document_def Let_def)
  ultimately show ?thesis using apart(1)
    by (force simp: identified_def document_of_def upsert_start_def split: option.splits)
qed

definition single_id :: "nat \<Rightarrow> document \<Rightarrow> bool" where
  "single_id id_field d \<longleftrightarrow> (\<forall>i j. (id_field, Text_Value i) \<in> set d \<and> (id_field, Text_Value j) \<in> set d \<longrightarrow> i = j)"

lemma identified_single: "identified h (rid, d) \<Longrightarrow> single_id h d"
  by (auto simp: identified_def single_id_def)

lemma store_after_delete:
  assumes "document_laws lib docs" "list_all (single_id h) (docs inner)"
  shows "store_of h (docs (wl_delete_term lib h rid inner)) = (store_of h (docs inner))(rid := [])"
    "list_all (single_id h) (docs (wl_delete_term lib h rid inner))"
proof
  fix i
  have "filter (\<lambda>d. (h, Text_Value i) \<in> set d) (filter (\<lambda>d. (h, Text_Value rid) \<notin> set d) (docs inner)) =
      (if i = rid then [] else filter (\<lambda>d. (h, Text_Value i) \<in> set d) (docs inner))"
    using assms(2) by (auto simp: list_all_iff single_id_def intro!: filter_cong)
  then show "store_of h (docs (wl_delete_term lib h rid inner)) i = ((store_of h (docs inner))(rid := [])) i"
    by (simp add: store_of_def document_lawsD(1) [OF assms(1)])
next
  show "list_all (single_id h) (docs (wl_delete_term lib h rid inner))"
    using assms(2) by (auto simp: document_lawsD(1) [OF assms(1)] list_all_iff)
qed

lemma store_after_add:
  assumes "identified h (rid, d)"
  shows "store_of h (ds @ [d]) = (store_of h ds)(rid := store_of h ds rid @ [d])"
proof
  fix i
  have "(h, Text_Value i) \<in> set d \<longleftrightarrow> i = rid" using assms by (simp add: identified_def)
  then show "store_of h (ds @ [d]) i = ((store_of h ds)(rid := store_of h ds rid @ [d])) i" by (simp add: store_of_def)
qed

lemma store_after_upsert:
  assumes "document_laws lib docs" "list_all (single_id h) (docs inner)" "identified h (rid, d)"
    and "wl_add_document lib d (wl_delete_term lib h rid inner) = (r, inner')"
  shows "list_all (single_id h) (docs inner')" "is_ok r \<Longrightarrow> store_of h (docs inner') = (store_of h (docs inner))(rid := [d])"
    "i \<noteq> rid \<Longrightarrow> store_of h (docs inner') i = store_of h (docs inner) i"
proof -
  let ?del = "wl_delete_term lib h rid inner"
  note del = store_after_delete [OF assms(1,2), of rid] and laws = document_lawsD [OF assms(1)]
  note added = store_after_add [OF assms(3), of "docs ?del"]
  have cases: "docs inner' = docs ?del @ [d] \<or> \<not> is_ok r \<and> docs inner' = docs ?del"
  proof (cases r)
    case (Ok u)
    then show ?thesis using laws(2) assms(4) by simp
  next
    case (Err e)
    then show ?thesis using laws(3) assms(4) by auto
  qed
  then show "list_all (single_id h) (docs inner')" using del(2) identified_single [OF assms(3)] by auto
  show "is_ok r \<Longrightarrow> store_of h (docs inner') = (store_of h (docs inner))(rid := [d])"
    using cases added del(1) by auto
  show "i \<noteq> rid \<Longrightarrow> store_of h (docs inner') i = store_of h (docs inner) i"
    using cases added del(1) by auto
qed

lemma apply_documents_refines:
  assumes "document_laws lib docs" "list_all (identified h) ds" "apply_documents lib h ds inner = (r, inner')"
    and "list_all (single_id h) (docs inner)"
  shows "list_all (single_id h) (docs inner') \<and>
    (is_ok r \<longrightarrow> store_of h (docs inner') = foldl (\<lambda>s (rid, d). s(rid := [d])) (store_of h (docs inner)) ds) \<and>
    (\<forall>i. i \<notin> fst ` set ds \<longrightarrow> store_of h (docs inner') i = store_of h (docs inner) i)"
  using assms(2-4)
proof (induction ds arbitrary: inner)
  case (Cons c ds)
  obtain rid d where c: "c = (rid, d)" by (cases c)
  obtain r1 inner1 where a: "wl_add_document lib d (wl_delete_term lib h rid inner) = (r1, inner1)" by fastforce
  have d: "identified h (rid, d)" using Cons.prems(1) c by simp
  note up = store_after_upsert [OF assms(1) Cons.prems(3) d a]
  show ?case
  proof (cases r1)
    case (Err e)
    then show ?thesis using Cons.prems(2) a c up(1,3) by auto
  next
    case (Ok u)
    then have "apply_documents lib h ds inner1 = (r, inner')" using Cons.prems(2) a c by simp
    from Cons.IH [OF _ this up(1)] show ?thesis using Cons.prems(1) c up(2,3) Ok by auto
  qed
qed simp

lemma delete_all:
  assumes "document_laws lib docs" "list_all (single_id h) (docs inner)"
  shows "list_all (single_id h) (docs (foldl (\<lambda>inner rid. wl_delete_term lib h rid inner) inner ids)) \<and>
    store_of h (docs (foldl (\<lambda>inner rid. wl_delete_term lib h rid inner) inner ids)) =
      (\<lambda>rid. if rid \<in> set ids then [] else store_of h (docs inner) rid)"
  using assms(2)
proof (induction ids arbitrary: inner)
  case (Cons rid ids)
  show ?case using Cons.IH [OF store_after_delete(2) [OF assms(1) Cons.prems, of rid]] store_after_delete(1) [OF assms(1) Cons.prems, of rid]
    by auto
qed simp

definition batch_ids :: "mutation_batch \<Rightarrow> string set" where
  "batch_ids b = set (mb_deletes b) \<union> up_id ` set (mb_upserts b)"

lemma apply_batch_refines:
  assumes laws: "document_laws lib docs" and w: "writer_fits built w" "distinct (handles built)"
    and single: "list_all (single_id (wr_id_field w)) (docs (wr_inner w))" and run: "apply_batch n lib w b = (r, w')"
  shows "list_all (single_id (wr_id_field w)) (docs (wr_inner w'))" "w' = w\<lparr>wr_inner := wr_inner w'\<rparr>"
    "r = Ok m \<Longrightarrow> batch_ok n w b \<and> m = length (mb_upserts b) + length (mb_deletes b) \<and>
       store_of (wr_id_field w) (docs (wr_inner w')) = spec_apply w b (store_of (wr_id_field w) (docs (wr_inner w)))"
    "rid \<notin> batch_ids b \<Longrightarrow> store_of (wr_id_field w) (docs (wr_inner w')) rid = store_of (wr_id_field w) (docs (wr_inner w)) rid"
    "\<not> batch_ok n w b \<Longrightarrow> w' = w \<and> \<not> is_ok r"
proof -
  let ?h = "wr_id_field w"
  let ?ds = "map (\<lambda>u. (up_id u, document_of w u)) (mb_upserts b)"
  let ?del = "foldl (\<lambda>inner rid. wl_delete_term lib ?h rid inner) (wr_inner w) (mb_deletes b)"
  have all: "list_all (single_id ?h) (docs (wr_inner w')) \<and> w' = w\<lparr>wr_inner := wr_inner w'\<rparr> \<and>
    (\<forall>m. r = Ok m \<longrightarrow> batch_ok n w b \<and> m = length (mb_upserts b) + length (mb_deletes b) \<and>
       store_of ?h (docs (wr_inner w')) = spec_apply w b (store_of ?h (docs (wr_inner w)))) \<and>
    (\<forall>rid. rid \<notin> batch_ids b \<longrightarrow> store_of ?h (docs (wr_inner w')) rid = store_of ?h (docs (wr_inner w)) rid) \<and>
    (\<not> batch_ok n w b \<longrightarrow> w' = w \<and> \<not> is_ok r)"
  proof (cases "prepare_batch n w b")
    case (Err e)
    have "\<not> batch_ok n w b" using Err prepare_batch_Ok [of n w b "prepared_of w b"] by auto
    moreover have "r = Err e" "w' = w" using Err run by (simp_all add: apply_batch_def)
    ultimately show ?thesis using single by simp
  next
    case (Ok p)
    then have ok: "batch_ok n w b" and p: "p = prepared_of w b" by (simp_all add: prepare_batch_Ok)
    have ids: "list_all (identified ?h) ?ds"
      using ok document_id [OF w] by (auto simp: batch_ok_def list_all_iff)
    obtain r1 inner1 where a: "apply_documents lib ?h ?ds ?del = (r1, inner1)" by fastforce
    have res: "r = and_then r1 (\<lambda>_. Ok (length (mb_upserts b) + length (mb_deletes b)))" "w' = w\<lparr>wr_inner := inner1\<rparr>"
      using run a Ok p by (simp_all add: apply_batch_def apply_prepared_def prepared_of_def Let_def)
    have deleted: "list_all (single_id ?h) (docs ?del)"
        "store_of ?h (docs ?del) = (\<lambda>rid. if rid \<in> set (mb_deletes b) then [] else store_of ?h (docs (wr_inner w)) rid)"
      using delete_all [OF laws single] by blast+
    note ref = apply_documents_refines [OF laws ids a deleted(1)]
    have "foldl (\<lambda>s (rid, d). s(rid := [d])) s ?ds = foldl (\<lambda>s u. s(up_id u := [document_of w u])) s (mb_upserts b)" for s :: store
      by (simp add: foldl_map)
    moreover have "fst ` set ?ds = up_id ` set (mb_upserts b)" by (simp add: image_image)
    ultimately show ?thesis using ref res ok deleted(2)
      by (auto simp: and_then_Ok_iff spec_apply_def batch_ids_def is_ok_iff)
  qed
  then show "list_all (single_id ?h) (docs (wr_inner w'))" "w' = w\<lparr>wr_inner := wr_inner w'\<rparr>"
    "r = Ok m \<Longrightarrow> batch_ok n w b \<and> m = length (mb_upserts b) + length (mb_deletes b) \<and>
       store_of ?h (docs (wr_inner w')) = spec_apply w b (store_of ?h (docs (wr_inner w)))"
    "rid \<notin> batch_ids b \<Longrightarrow> store_of ?h (docs (wr_inner w')) rid = store_of ?h (docs (wr_inner w)) rid"
    "\<not> batch_ok n w b \<Longrightarrow> w' = w \<and> \<not> is_ok r" by blast+
qed

text \<open>
  C2. Applying a batch replaces documents by id.  On an engine opened for a validated configuration,
  and an index in which a document has at most one id, an accepted batch leaves under each id what the
  specification says: nothing for a deleted id, and for an upserted id exactly the document of its last
  upsert; it answers the number of mutations.  Whatever fails, the documents of other ids are as before
  and every document has at most one id; and a batch that is not in order changes nothing.
\<close>

theorem apply_replaces_documents:
  assumes "open_engine tables library an config d = (Ok en, d')" "identity_ok (ec_identity config)" "writes_for en w"
    and "document_laws lib docs" "list_all (single_id (wr_id_field w)) (docs (wr_inner w))" "apply_batch n lib w b = (r, w')"
  shows "list_all (single_id (wr_id_field w)) (docs (wr_inner w')) \<and> writes_for en w' \<and>
    (\<forall>m. r = Ok m \<longrightarrow> m = length (mb_upserts b) + length (mb_deletes b) \<and>
       store_of (wr_id_field w) (docs (wr_inner w')) = spec_apply w b (store_of (wr_id_field w) (docs (wr_inner w)))) \<and>
    (\<forall>rid. rid \<notin> batch_ids b \<longrightarrow> store_of (wr_id_field w) (docs (wr_inner w')) rid = store_of (wr_id_field w) (docs (wr_inner w)) rid) \<and>
    (\<not> batch_ok n w b \<longrightarrow> w' = w \<and> \<not> is_ok r)"
proof -
  obtain c where c: "schema_fits With_Freqs c (build_schema c)" "engine_fits (build_schema c) en"
    using opened_fits [OF assms(1,2)] by blast
  have w: "writer_fits (build_schema c) w" using writes_for_fits [OF c(2) assms(3)] .
  have "distinct (handles (build_schema c))" using c(1) by (simp add: schema_fits_def)
  note ref = apply_batch_refines [OF assms(4) w this assms(5,6)]
  have "writes_for en w'" using assms(3) by (subst ref(2)) (simp add: writes_for_def)
  then show ?thesis using ref(1,3,4,5) by blast
qed

theorem apply_replaces_documents_witness:
  "\<exists>en d' w'. open_engine sample_tables room sample_analyzers sample_config empty_directory = (Ok en, d') \<and>
     apply_batch 100 (list_library True) (sample_writer en) car_batch = (Ok 2, w') \<and>
     length (store_of (en_id_field en) (lw_docs (wr_inner w')) ''k1'') = 1 \<and> store_of (en_id_field en) (lw_docs (wr_inner w')) ''k2'' = []"
proof -
  obtain en d' where e: "open_engine sample_tables room sample_analyzers sample_config empty_directory = (Ok en, d')"
    "is_ok (prepare_batch 100 (sample_writer en) car_batch)" by (rule sample_engine_opened)
  obtain r w' where a: "apply_batch 100 (list_library True) (sample_writer en) car_batch = (r, w')" by fastforce
  obtain p where p: "prepare_batch 100 (sample_writer en) car_batch = Ok p" using e(2) by (auto simp: is_ok_iff)
  have added: "is_ok (fst (apply_documents (list_library True) h ds inner))" for h ds inner
    by (induction ds arbitrary: inner) (auto simp: list_library_def)
  let ?w = "sample_writer en" and ?lib = "list_library True"
  let ?del = "foldl (\<lambda>inner rid. wl_delete_term ?lib (wr_id_field ?w) rid inner) (wr_inner ?w) (pb_deletes p)"
  have "is_ok (fst (apply_prepared ?lib ?w p))"
    using added [of "wr_id_field ?w" "pb_documents p" ?del]
    by (cases "apply_documents ?lib (wr_id_field ?w) (pb_documents p) ?del") (auto simp: apply_prepared_def Let_def is_ok_and_then is_ok_iff)
  then have "is_ok r" using a p by (simp add: apply_batch_def)
  then obtain m where m: "r = Ok m" by (auto simp: is_ok_iff)
  have none: "list_all (single_id (wr_id_field (sample_writer en))) (lw_docs (wr_inner (sample_writer en)))"
    by (simp add: sample_writer_inner)
  have h: "wr_id_field (sample_writer en) = en_id_field en" using sample_writes by (simp add: writes_for_def)
  have s: "m = 2" "store_of (en_id_field en) (lw_docs (wr_inner w')) =
      spec_apply (sample_writer en) car_batch (store_of (en_id_field en) (lw_docs (wr_inner (sample_writer en))))"
    using apply_replaces_documents [OF e(1) docs_identity_ok sample_writes list_library_laws(1) none a] m
    by (simp_all add: h car_batch_def)
  show ?thesis using e(1) a m s
    by (intro exI [of _ en] exI [of _ d'] exI [of _ w']) (simp add: spec_apply_def car_batch_def)
qed

section \<open>The calls of a writer\<close>

datatype writer_call = Apply_Call mutation_batch | Commit_Call "string option" | Rollback_Call

definition run_call :: "nat \<Rightarrow> 'w writer_library \<Rightarrow> 'w writer \<Rightarrow> writer_call \<Rightarrow> 'w writer" where
  "run_call n lib w call = (case call of
     Apply_Call b \<Rightarrow> snd (apply_batch n lib w b)
   | Commit_Call payload \<Rightarrow> snd (commit_with_payload lib w payload)
   | Rollback_Call \<Rightarrow> snd (rollback_writer lib w))"

definition commit_admitted :: "'w writer \<Rightarrow> string option \<Rightarrow> bool" where
  "commit_admitted w payload \<longleftrightarrow> (wr_checkpoint_required w \<longrightarrow> payload \<noteq> None) \<and>
     (case payload of Some p \<Rightarrow> length p \<le> MAX_COMMIT_PAYLOAD_BYTES | None \<Rightarrow> True)"

definition preparation_fails :: "'w writer_library \<Rightarrow> 'w writer \<Rightarrow> writer_call \<Rightarrow> bool" where
  "preparation_fails lib w call = (case call of
     Commit_Call payload \<Rightarrow> commit_admitted w payload \<and> \<not> is_ok (fst (wl_prepare_commit lib (wr_inner w)))
   | _ \<Rightarrow> False)"

fun some_preparation_failed :: "nat \<Rightarrow> 'w writer_library \<Rightarrow> 'w writer \<Rightarrow> writer_call list \<Rightarrow> bool" where
  "some_preparation_failed n lib w [] \<longleftrightarrow> False"
| "some_preparation_failed n lib w (call # calls) \<longleftrightarrow>
     preparation_fails lib w call \<or> some_preparation_failed n lib (run_call n lib w call) calls"

lemma commit_cases:
  assumes "commit_with_payload lib w payload = (r, w')"
  obtains (refused) e where "\<not> commit_admitted w payload" "r = Err e" "w' = w"
    "err_code e = (if wr_checkpoint_required w \<and> payload = None then ''E_CHECKPOINT_REQUIRED'' else ''E_INVALID_ARGUMENT'')"
  | (unprepared) e inner where "commit_admitted w payload" "wl_prepare_commit lib (wr_inner w) = (Err e, inner)"
      "w' = w\<lparr>wr_worker_ownership_unproven := True, wr_inner := inner\<rparr>" "r = Err (commit_error ''prepare_commit'' e)"
  | (uncommitted) u inner1 e inner where "commit_admitted w payload" "wl_prepare_commit lib (wr_inner w) = (Ok u, inner1)"
      "wl_commit lib payload inner1 = (Err e, inner)" "r = Err (commit_error ''commit'' e)"
      "w' = w\<lparr>wr_checkpoint_required := (wr_checkpoint_required w \<or> payload \<noteq> None), wr_inner := inner\<rparr>"
  | (committed) u inner1 s inner where "commit_admitted w payload" "wl_prepare_commit lib (wr_inner w) = (Ok u, inner1)"
      "wl_commit lib payload inner1 = (Ok s, inner)" "r = Ok s"
      "w' = w\<lparr>wr_checkpoint_required := (wr_checkpoint_required w \<or> payload \<noteq> None), wr_inner := inner\<rparr>"
proof (cases "commit_admitted w payload")
  case False
  then show thesis using assms refused
    by (auto simp: commit_with_payload_def commit_admitted_def checkpoint_required_error_def fulltext_error_new_def split: if_splits option.splits)
next
  case True
  obtain r1 inner1 where p: "wl_prepare_commit lib (wr_inner w) = (r1, inner1)" by fastforce
  obtain r2 inner2 where c: "wl_commit lib payload inner1 = (r2, inner2)" by fastforce
  have guards: "\<not> (wr_checkpoint_required w \<and> payload = None)" "\<not> (case payload of Some p \<Rightarrow> MAX_COMMIT_PAYLOAD_BYTES < length p | None \<Rightarrow> False)"
    using True by (auto simp: commit_admitted_def split: option.splits)
  show thesis
  proof (cases r1)
    case (Err e)
    then have "w' = w\<lparr>wr_worker_ownership_unproven := True, wr_inner := inner1\<rparr>" "r = Err (commit_error ''prepare_commit'' e)"
      using assms guards p by (simp_all add: commit_with_payload_def)
    then show thesis using unprepared True p Err by simp
  next
    case (Ok u)
    show thesis
    proof (cases r2)
      case (Err e)
      then have "w' = w\<lparr>wr_checkpoint_required := (wr_checkpoint_required w \<or> payload \<noteq> None), wr_inner := inner2\<rparr>" "r = Err (commit_error ''commit'' e)"
        using assms guards p Ok c by (simp_all add: commit_with_payload_def)
      then show thesis using uncommitted True p Ok c Err by simp
    next
      case (Ok s)
      then have "w' = w\<lparr>wr_checkpoint_required := (wr_checkpoint_required w \<or> payload \<noteq> None), wr_inner := inner2\<rparr>" "r = Ok s"
        using assms guards p \<open>r1 = Ok u\<close> c by (simp_all add: commit_with_payload_def)
      then show thesis using committed True p \<open>r1 = Ok u\<close> c Ok by simp
    qed
  qed
qed

lemma apply_documents_payload:
  "payload_laws lib payload \<Longrightarrow> payload (snd (apply_documents lib h ds inner)) = payload inner"
proof (induction ds arbitrary: inner)
  case (Cons c ds)
  obtain rid d where c: "c = (rid, d)" by (cases c)
  obtain r1 inner1 where a: "wl_add_document lib d (wl_delete_term lib h rid inner) = (r1, inner1)" by fastforce
  have "payload inner1 = payload inner"
    using Cons.prems a unfolding payload_laws_def by (metis snd_conv)
  then show ?case using Cons.IH [OF Cons.prems, of inner1] a c by (cases r1) simp_all
qed simp

lemma deletes_payload:
  "payload_laws lib payload \<Longrightarrow> payload (foldl (\<lambda>inner rid. wl_delete_term lib h rid inner) inner ids) = payload inner"
  by (induction ids arbitrary: inner) (simp_all add: payload_laws_def)

lemma apply_batch_keeps:
  obtains inner where "snd (apply_batch n lib w b) = w\<lparr>wr_inner := inner\<rparr>"
    "\<And>payload. payload_laws lib payload \<Longrightarrow> payload inner = payload (wr_inner w)"
proof (cases "prepare_batch n w b")
  case (Err e)
  then have "snd (apply_batch n lib w b) = w\<lparr>wr_inner := wr_inner w\<rparr>" by (simp add: apply_batch_def)
  then show thesis using that by blast
next
  case (Ok p)
  let ?inner = "snd (apply_documents lib (wr_id_field w) (pb_documents p)
    (foldl (\<lambda>inner rid. wl_delete_term lib (wr_id_field w) rid inner) (wr_inner w) (pb_deletes p)))"
  have "snd (apply_batch n lib w b) = w\<lparr>wr_inner := ?inner\<rparr>"
    using Ok by (simp add: apply_batch_def apply_prepared_def Let_def split: prod.split)
  then show thesis
  proof (rule that)
    fix payload assume laws: "payload_laws lib payload"
    show "payload ?inner = payload (wr_inner w)" unfolding apply_documents_payload [OF laws] deletes_payload [OF laws] by (rule refl)
  qed
qed

lemma rollback_keeps:
  obtains inner where "snd (rollback_writer lib w) = w\<lparr>wr_inner := inner\<rparr>" "inner = snd (wl_rollback lib (wr_inner w))"
  by (rule that) (auto simp: rollback_writer_def split: prod.split result.split)

lemma run_call_unproven:
  "wr_worker_ownership_unproven (run_call n lib w call) \<longleftrightarrow> wr_worker_ownership_unproven w \<or> preparation_fails lib w call"
proof (cases call)
  case (Apply_Call b)
  obtain inner where "snd (apply_batch n lib w b) = w\<lparr>wr_inner := inner\<rparr>" using apply_batch_keeps [of n lib w b] by blast
  then show ?thesis using Apply_Call by (simp add: run_call_def preparation_fails_def)
next
  case (Commit_Call payload)
  obtain r w' where c: "commit_with_payload lib w payload = (r, w')" by fastforce
  then show ?thesis
    by (cases rule: commit_cases) (use Commit_Call c in \<open>simp_all add: run_call_def preparation_fails_def\<close>)
next
  case Rollback_Call
  obtain inner where "snd (rollback_writer lib w) = w\<lparr>wr_inner := inner\<rparr>" using rollback_keeps [of lib w] by blast
  then show ?thesis using Rollback_Call by (simp add: run_call_def preparation_fails_def)
qed

lemma run_calls_unproven:
  "wr_worker_ownership_unproven (foldl (run_call n lib) w calls) \<longleftrightarrow>
     wr_worker_ownership_unproven w \<or> some_preparation_failed n lib w calls"
  by (induction calls arbitrary: w) (auto simp: run_call_unproven)

definition checkpoint_known :: "('w \<Rightarrow> string option) \<Rightarrow> 'w writer \<Rightarrow> bool" where
  "checkpoint_known payload w \<longleftrightarrow> (payload (wr_inner w) \<noteq> None \<longrightarrow> wr_checkpoint_required w)"

lemma run_call_checkpoint:
  assumes "payload_laws lib payload" "checkpoint_known payload w"
  shows "checkpoint_known payload (run_call n lib w call)" "wr_checkpoint_required w \<Longrightarrow> wr_checkpoint_required (run_call n lib w call)"
    "payload (wr_inner w) \<noteq> None \<Longrightarrow> payload (wr_inner (run_call n lib w call)) \<noteq> None"
proof -
  have "checkpoint_known payload (run_call n lib w call) \<and> (wr_checkpoint_required w \<longrightarrow> wr_checkpoint_required (run_call n lib w call)) \<and>
    (payload (wr_inner w) \<noteq> None \<longrightarrow> payload (wr_inner (run_call n lib w call)) \<noteq> None)"
  proof (cases call)
    case (Apply_Call b)
    obtain inner where "snd (apply_batch n lib w b) = w\<lparr>wr_inner := inner\<rparr>" "payload inner = payload (wr_inner w)"
      using apply_batch_keeps [of n lib w b] assms(1) by blast
    then show ?thesis using Apply_Call assms(2) by (simp add: run_call_def checkpoint_known_def)
  next
    case (Commit_Call p)
    have prepared: "payload inner1 = payload (wr_inner w)" if "wl_prepare_commit lib (wr_inner w) = (r1, inner1)" for r1 inner1
      using assms(1) that unfolding payload_laws_def by (metis snd_conv)
    obtain r w' where "commit_with_payload lib w p = (r, w')" by fastforce
    then show ?thesis
    proof (cases rule: commit_cases)
      case (refused e)
      then show ?thesis using Commit_Call assms(2) \<open>commit_with_payload lib w p = (r, w')\<close> by (simp add: run_call_def)
    next
      case (unprepared e inner)
      then show ?thesis using Commit_Call assms(2) prepared [OF unprepared(2)] \<open>commit_with_payload lib w p = (r, w')\<close>
        by (simp add: run_call_def checkpoint_known_def)
    next
      case (uncommitted u inner1 e inner)
      have "payload inner = payload inner1 \<or> payload inner = p"
        using assms(1) uncommitted(3) unfolding payload_laws_def by blast
      then show ?thesis using Commit_Call assms(2) uncommitted prepared [OF uncommitted(2)] \<open>commit_with_payload lib w p = (r, w')\<close>
        by (auto simp: run_call_def checkpoint_known_def commit_admitted_def)
    next
      case (committed u inner1 s inner)
      have "payload inner = p"
        using assms(1) committed(3) unfolding payload_laws_def by blast
      then show ?thesis using Commit_Call assms(2) committed prepared [OF committed(2)] \<open>commit_with_payload lib w p = (r, w')\<close>
        by (auto simp: run_call_def checkpoint_known_def commit_admitted_def)
    qed
  next
    case Rollback_Call
    obtain inner where "snd (rollback_writer lib w) = w\<lparr>wr_inner := inner\<rparr>" "payload inner = payload (wr_inner w)"
      using rollback_keeps [of lib w] assms(1) unfolding payload_laws_def by metis
    then show ?thesis using Rollback_Call assms(2) by (simp add: run_call_def checkpoint_known_def)
  qed
  then show "checkpoint_known payload (run_call n lib w call)" "wr_checkpoint_required w \<Longrightarrow> wr_checkpoint_required (run_call n lib w call)"
    "payload (wr_inner w) \<noteq> None \<Longrightarrow> payload (wr_inner (run_call n lib w call)) \<noteq> None" by blast+
qed

lemma run_calls_checkpoint:
  assumes "payload_laws lib payload" "checkpoint_known payload w"
  shows "checkpoint_known payload (foldl (run_call n lib) w calls) \<and>
    (payload (wr_inner w) \<noteq> None \<longrightarrow> payload (wr_inner (foldl (run_call n lib) w calls)) \<noteq> None)"
  using assms(2)
proof (induction calls arbitrary: w)
  case (Cons call calls)
  show ?case using Cons.IH [OF run_call_checkpoint(1) [OF assms(1) Cons.prems]] run_call_checkpoint(3) [OF assms(1) Cons.prems] by auto
qed simp

text \<open>
  C39. A checkpoint is never lost.  For a writer as it is made over an index whose committed payload it
  read, whatever calls were made before and whichever of them failed: once the index has a payload it
  keeps one, a commit without a payload over it is refused with \<open>E_CHECKPOINT_REQUIRED\<close>, and a refused
  commit changes nothing.
\<close>

theorem checkpoint_never_lost:
  assumes "payload_laws lib payload" "writer_with_payload en f (Ok inner) (Ok p) = Ok (w0, q)" "payload inner = p"
    and "w = foldl (run_call n lib) w0 calls" "w' = foldl (run_call n lib) w more_calls"
  shows "(payload (wr_inner w) \<noteq> None \<longrightarrow> payload (wr_inner w') \<noteq> None \<and>
      (\<exists>e. commit_plain lib w' = (Err e, w') \<and> err_code e = ''E_CHECKPOINT_REQUIRED'')) \<and>
    (\<not> commit_admitted w' pay \<longrightarrow> (\<exists>e. commit_with_payload lib w' pay = (Err e, w')))"
proof -
  have "checkpoint_known payload w0"
    using assms(2,3) by (auto simp: writer_with_payload_def checkpoint_known_def map_failure_def)
  then have known: "checkpoint_known payload w" "checkpoint_known payload w'"
    using run_calls_checkpoint [OF assms(1)] assms(4,5) by blast+
  have refused: "\<exists>e. commit_with_payload lib w' pay = (Err e, w') \<and>
      (wr_checkpoint_required w' \<and> pay = None \<longrightarrow> err_code e = ''E_CHECKPOINT_REQUIRED'')" if no: "\<not> commit_admitted w' pay" for pay
  proof -
    obtain r w'' where c: "commit_with_payload lib w' pay = (r, w'')" by fastforce
    then show ?thesis by (cases rule: commit_cases) (use no c in auto)
  qed
  show ?thesis
  proof (intro conjI impI)
    assume some: "payload (wr_inner w) \<noteq> None"
    then show kept: "payload (wr_inner w') \<noteq> None" using run_calls_checkpoint [OF assms(1) known(1)] assms(5) by blast
    then have "wr_checkpoint_required w'" using known(2) by (simp add: checkpoint_known_def)
    then show "\<exists>e. commit_plain lib w' = (Err e, w') \<and> err_code e = ''E_CHECKPOINT_REQUIRED''"
      using refused [of None] by (auto simp: commit_plain_def commit_admitted_def)
  next
    assume "\<not> commit_admitted w' pay"
    then show "\<exists>e. commit_with_payload lib w' pay = (Err e, w')" using refused by blast
  qed
qed

theorem checkpoint_never_lost_witness:
  "\<exists>e. commit_plain (list_library True) (snd (commit_with_payload (list_library True) (sample_writer sample_tables) (Some ''c1''))) =
      (Err e, snd (commit_with_payload (list_library True) (sample_writer sample_tables) (Some ''c1''))) \<and> err_code e = ''E_CHECKPOINT_REQUIRED''"
proof -
  let ?calls = "[Commit_Call (Some ''c1'')]"
  let ?w = "foldl (run_call 100 (list_library True)) (sample_writer sample_tables) ?calls"
  have w: "?w = snd (commit_with_payload (list_library True) (sample_writer sample_tables) (Some ''c1''))" by (simp add: run_call_def)
  have "lw_payload (wr_inner ?w) = Some ''c1''"
    unfolding w by (simp add: commit_with_payload_def list_library_def MAX_COMMIT_PAYLOAD_BYTES_def)
  then show ?thesis
    using checkpoint_never_lost [OF list_library_laws(2) [of True] sample_writer_made [of sample_tables] _ refl refl, of 100 ?calls "[]"] w by (simp add: sample_writer_inner)
qed

text \<open>
  C40. Closing a writer reports unproven ownership of its workers exactly when the preparation of a
  commit failed at any time in its life, whatever succeeded since; otherwise it answers as the library's
  join does.
\<close>

theorem close_reports_unproven:
  assumes "writer_with_payload en f created p = Ok (w0, q)" "w = foldl (run_call n lib) w0 calls"
  shows "if some_preparation_failed n lib w0 calls
    then \<exists>e. close_engine_writer lib w = Err e \<and> err_code e = ''E_QUIESCENCE_FAILED''
    else close_engine_writer lib w = map_failure index_error (wl_wait_merging_threads lib (wr_inner w))"
proof -
  have "\<not> wr_worker_ownership_unproven w0" using writer_with_payload_writes [OF assms(1)] by blast
  then have "wr_worker_ownership_unproven w \<longleftrightarrow> some_preparation_failed n lib w0 calls"
    using run_calls_unproven assms(2) by blast
  then show ?thesis by (simp add: close_engine_writer_def ownership_unproven_def fulltext_error_new_def Let_def)
qed

theorem close_reports_unproven_witness:
  "\<exists>e. close_engine_writer (list_library False)
      (foldl (run_call 100 (list_library False)) (sample_writer sample_tables) [Commit_Call None, Rollback_Call]) = Err e \<and>
      err_code e = ''E_QUIESCENCE_FAILED''"
proof -
  have "wr_checkpoint_required (sample_writer sample_tables) = False"
    using writer_with_payload_writes [OF sample_writer_made] by simp
  then have "some_preparation_failed 100 (list_library False) (sample_writer sample_tables) [Commit_Call None, Rollback_Call]"
    by (simp add: preparation_fails_def commit_admitted_def list_library_def)
  then show ?thesis
    using close_reports_unproven [OF sample_writer_made refl, of 100 "list_library False" sample_tables "[Commit_Call None, Rollback_Call]"] by simp
qed

end
