(* ===== verification/Query.thy ===== *)
theory Query
  imports Writer_Apply Trace_Correct
begin

text \<open>
  The queries that \<^verbatim>\<open>src/src/engine.rs\<close> builds for a search: the expression over the terms of
  the selected fields (\<open>expression_query\<close>), its candidate ids and its filter.

  The query objects of the index library are the constructors of \<open>query\<close>.  Products and maxima of
  \<open>f32\<close> scores are parameters (\<open>score_ops\<close>), since a query matches whatever its scores are.  A searcher
  is its list of segments, each of which gives the sorted dictionary of a field or fails.
\<close>

section \<open>The objects of the index library\<close>

datatype query_term = Text_Term nat string | Bytes_Term nat "u8 list" | F64_Term nat f64 | Bool_Term nat bool

datatype occur = Should | Must | Must_Not

datatype term_bound = Unbounded | Included query_term | Excluded query_term

datatype query =
    Empty_Query
  | All_Query
  | Term_Query query_term record_option
  | Phrase_Query "(nat \<times> query_term) list"
  | Term_Set_Query "query_term list"
  | Range_Query term_bound term_bound
  | Exists_Query string
  | Fuzzy_Term_Query query_term u8 bool bool
  | Boolean_Query "(occur \<times> query) list"
  | Const_Score query f32
  | Boost_Query query f32
  | Disjunction_Max "query list"

type_synonym searcher = "(nat \<Rightarrow> u8 list list res) list"

record score_ops =
  sp_times :: "f32 \<Rightarrow> f32 \<Rightarrow> f32"
  sp_exact_bonus :: "f32 list \<Rightarrow> f32"

definition f32_one :: f32 where "f32_one = 0x3F800000"
definition f32_quarter :: f32 where "f32_quarter = 0x3E800000"

definition boosted :: "query \<Rightarrow> f32 \<Rightarrow> query" where
  "boosted q weight = (if weight = f32_one then q else Boost_Query q weight)"

definition complement_query :: "query \<Rightarrow> query" where
  "complement_query q = Boolean_Query [(Must, All_Query), (Must_Not, q)]"

section \<open>Groups of a term\<close>

definition term_group :: "string \<Rightarrow> engine_field list \<Rightarrow> query" where
  "term_group t chosen = Boolean_Query
     (map (\<lambda>field. (Should, boosted (Term_Query (Text_Term (ef_field field) t) With_Freqs) (ef_weight field))) chosen)"

definition prefix_needs_surface :: fulltext_error where
  "prefix_needs_surface = invalid ''prefix search requires surfaceTerms to be enabled''"

fun fuzzy_alternatives :: "string \<Rightarrow> bool \<Rightarrow> query_options \<Rightarrow> engine_field list \<Rightarrow> query list res" where
  "fuzzy_alternatives t start options [] = Ok []"
| "fuzzy_alternatives t start options (field # rest) =
     and_then (if start then ok_or prefix_needs_surface (ef_surface_field field) else Ok (ef_field field)) (\<lambda>query_field.
     and_then (fuzzy_alternatives t start options rest) (\<lambda>queries.
     Ok (Boost_Query (Const_Score
          (Fuzzy_Term_Query (Text_Term query_field t) (fuzzy_distance options) (fuzzy_transpositions options) start) f32_quarter)
          (ef_weight field) # queries)))"

definition fuzzy_group :: "string \<Rightarrow> engine_field list \<Rightarrow> bool \<Rightarrow> query_options \<Rightarrow> query res" where
  "fuzzy_group t chosen start options =
     and_then (fuzzy_alternatives t start options chosen) (\<lambda>queries. Ok (Disjunction_Max queries))"

definition exact_branch :: "score_ops \<Rightarrow> query \<Rightarrow> engine_field list \<Rightarrow> query" where
  "exact_branch ops exact chosen = Boolean_Query [(Must, exact), (Must, Const_Score exact (sp_exact_bonus ops (map ef_weight chosen)))]"

section \<open>Terms, phrases and fuzzy terms\<close>

type_synonym clause_result = "(query \<times> nat \<times> bool) res"

definition term_query :: "engine \<Rightarrow> string \<Rightarrow> engine_field list \<Rightarrow> occur \<Rightarrow> clause_result" where
  "term_query en text chosen occur =
     and_then (analyze en text False True) (\<lambda>terms.
     if terms = [] then Ok (Empty_Query, 0, False)
     else
       and_then (check_clause_count en (length terms) (length chosen)) (\<lambda>_.
       let clauses = saturating_mul (length terms) (length chosen)
       in if occur = Should
          then Ok (Boolean_Query (concat (map (\<lambda>t. map (\<lambda>field.
                 (Should, boosted (Term_Query (Text_Term (ef_field field) t) With_Freqs) (ef_weight field))) chosen) terms)),
               clauses, 1 < clauses)
          else Ok (Boolean_Query (map (\<lambda>t. (occur, term_group t chosen)) terms), clauses, 2 < length terms \<and> 0 < clauses)))"

definition phrase_query :: "engine \<Rightarrow> string \<Rightarrow> engine_field list \<Rightarrow> construction_budget \<Rightarrow> ((query \<times> nat \<times> bool) \<times> construction_budget) res" where
  "phrase_query en text chosen b =
     (if \<not> en_positions en then Err (invalid ''phrase search requires positions to be enabled'')
      else
        and_then (analyze_positioned en text) (\<lambda>terms.
        if terms = [] then Ok ((Empty_Query, 0, False), b)
        else
          and_then (check_clause_count en 1 (length chosen)) (\<lambda>_.
          and_then (charge_phrase (length terms) (length chosen) b) (\<lambda>b.
          if length terms = 1 then Ok ((term_group (snd (terms ! 0)) chosen, length chosen, 1 < length chosen), b)
          else
            let first_position = fst (terms ! 0)
            in Ok ((Boolean_Query (map (\<lambda>field. (Should, boosted
                   (Phrase_Query (map (\<lambda>(position, t). (position - first_position, Text_Term (ef_field field) t)) terms))
                   (ef_weight field))) chosen), length chosen, False), b)))))"

fun query_pairs :: "engine \<Rightarrow> (string \<times> string) list \<Rightarrow> string list \<Rightarrow> (string \<times> string) list res" where
  "query_pairs en pairs [] = Ok pairs"
| "query_pairs en pairs (surface # rest) =
     and_then (analyze en surface False False) (\<lambda>analyzed. case analyzed of
       [t] \<Rightarrow> query_pairs en (pairs @ [(t, surface)]) rest
     | _ \<Rightarrow> query_pairs en pairs rest)"

definition too_many_fuzzy :: fulltext_error where
  "too_many_fuzzy = invalid (''fuzzy search contains more than '' @ nat_digits MAX_FUZZY_TERMS @ '' eligible terms'')"

fun fuzzy_clauses :: "engine \<Rightarrow> score_ops \<Rightarrow> engine_field list \<Rightarrow> query_options \<Rightarrow> (string \<times> string) list \<Rightarrow> (occur \<times> query) list res" where
  "fuzzy_clauses en ops chosen options [] = Ok []"
| "fuzzy_clauses en ops chosen options ((analyzed, surface) # rest) =
     (let exact = term_group analyzed chosen
      in and_then
        (if \<not> fuzzy_eligible en surface then Ok (Should, exact)
         else if fuzzy_distance options = 0 then Ok (Should, exact_branch ops exact chosen)
         else and_then (fuzzy_group analyzed chosen False options) (\<lambda>fuzzy.
           Ok (Should, Disjunction_Max [exact_branch ops exact chosen, fuzzy]))) (\<lambda>clause.
        and_then (fuzzy_clauses en ops chosen options rest) (\<lambda>clauses. Ok (clause # clauses))))"

definition build_fuzzy :: "engine \<Rightarrow> score_ops \<Rightarrow> string \<Rightarrow> engine_field list \<Rightarrow> query_options \<Rightarrow> construction_budget \<Rightarrow>
    ((query \<times> nat \<times> bool) \<times> construction_budget) res" where
  "build_fuzzy en ops text chosen options b =
     and_then (analyze en text True True) (\<lambda>surface.
     and_then (query_pairs en [] surface) (\<lambda>pairs.
     if pairs = [] then Ok ((Empty_Query, 0, False), b)
     else
       let fuzzy_terms = length (filter (\<lambda>(_, t). fuzzy_eligible en t) pairs)
       in if MAX_FUZZY_TERMS < fuzzy_terms then Err too_many_fuzzy
          else
            and_then (check_clause_count en (length pairs) (saturating_mul (length chosen) 3)) (\<lambda>_.
            and_then (charge_fuzzy fuzzy_terms (length chosen) (fuzzy_distance options) b) (\<lambda>b.
            and_then (fuzzy_clauses en ops chosen options pairs) (\<lambda>clauses.
            Ok ((Boolean_Query clauses, saturating_mul (length pairs) (saturating_mul (length chosen) 3),
              2 \<le> length pairs - fuzzy_terms), b))))))"

section \<open>Prefixes\<close>

definition prefix_too_broad :: "string \<Rightarrow> fulltext_error" where
  "prefix_too_broad message = fulltext_error_new ''E_PREFIX_TOO_BROAD'' message"

definition too_many_expansions :: fulltext_error where
  "too_many_expansions = prefix_too_broad (''prefix expands to more than '' @ nat_digits MAX_PREFIX_EXPANSIONS @ '' terms'')"

definition prefix_exceeds :: "engine \<Rightarrow> fulltext_error" where
  "prefix_exceeds en = prefix_too_broad (''prefix query exceeds '' @ nat_digits (en_max_query_clauses en) @ '' clauses'')"

definition dictionary_range :: "u8 list \<Rightarrow> u8 list list \<Rightarrow> u8 list list" where
  "dictionary_range start keys = filter (\<lambda>key. start \<le> key \<and> (case prefix_end start of Some stop \<Rightarrow> key < stop | None \<Rightarrow> True)) keys"

fun expand_stream :: "engine \<Rightarrow> nat \<Rightarrow> nat \<Rightarrow> u8 list list \<Rightarrow> u8 list list \<Rightarrow> u8 list list res" where
  "expand_stream en used remaining terms [] = Ok terms"
| "expand_stream en used remaining terms (key # keys) =
     (let terms = insort_insert key terms
      in if MAX_PREFIX_EXPANSIONS < length terms then Err too_many_expansions
         else if remaining < saturating_add used (length terms) then Err (prefix_exceeds en)
         else expand_stream en used remaining terms keys)"

fun expand_segments :: "engine \<Rightarrow> nat \<Rightarrow> u8 list \<Rightarrow> nat \<Rightarrow> nat \<Rightarrow> u8 list list \<Rightarrow> searcher \<Rightarrow> u8 list list res" where
  "expand_segments en surface_field start used remaining terms [] = Ok terms"
| "expand_segments en surface_field start used remaining terms (segment # segments) =
     and_then (segment surface_field) (\<lambda>keys.
     and_then (expand_stream en used remaining terms (dictionary_range start keys)) (\<lambda>terms.
     expand_segments en surface_field start used remaining terms segments))"

fun expand_fields :: "engine \<Rightarrow> searcher \<Rightarrow> u8 list \<Rightarrow> nat \<Rightarrow> query list \<Rightarrow> engine_field list \<Rightarrow> query list res" where
  "expand_fields en searcher start remaining alternatives [] = Ok alternatives"
| "expand_fields en searcher start remaining alternatives (field # rest) =
     and_then (ok_or prefix_needs_surface (ef_surface_field field)) (\<lambda>surface_field.
     and_then (expand_segments en surface_field start (length alternatives) remaining [] searcher) (\<lambda>terms.
     expand_fields en searcher start remaining
       (alternatives @ map (\<lambda>t. boosted (Term_Query (Bytes_Term surface_field t) With_Freqs) (ef_weight field)) terms) rest))"

definition expanded_prefix_group :: "engine \<Rightarrow> searcher \<Rightarrow> string \<Rightarrow> engine_field list \<Rightarrow> nat \<Rightarrow> (query \<times> nat) res" where
  "expanded_prefix_group en searcher start chosen remaining =
     and_then (expand_fields en searcher (str_bytes start) remaining [] chosen) (\<lambda>alternatives.
     Ok (if alternatives = [] then (Empty_Query, 0) else (Disjunction_Max alternatives, length alternatives)))"

definition prefix_short :: "bool \<Rightarrow> fulltext_error" where
  "prefix_short fuzzy = invalid ((if fuzzy then ''fuzzy'' else ''exact'') @ '' prefix must contain at least '' @
     nat_digits (if fuzzy then 4 else 3) @ '' Unicode characters'')"

definition final_group :: "engine \<Rightarrow> score_ops \<Rightarrow> string \<Rightarrow> engine_field list \<Rightarrow> bool \<Rightarrow> query_options \<Rightarrow> query \<Rightarrow> query res" where
  "final_group en ops start chosen fuzzy options exact_prefix =
     (if fuzzy \<and> fuzzy_eligible en start
      then if fuzzy_distance options = 0 then Ok (exact_branch ops exact_prefix chosen)
        else and_then (fuzzy_group start chosen True options) (\<lambda>approximate.
          Ok (Disjunction_Max [exact_branch ops exact_prefix chosen, approximate]))
      else Ok exact_prefix)"

definition completed_prefix_query :: "engine \<Rightarrow> score_ops \<Rightarrow> searcher \<Rightarrow> string list \<Rightarrow> string \<Rightarrow> engine_field list \<Rightarrow> bool \<Rightarrow>
    query_options \<Rightarrow> construction_budget \<Rightarrow> ((query \<times> nat \<times> bool) \<times> construction_budget) res" where
  "completed_prefix_query en ops searcher completed start chosen fuzzy options b =
     (let eligible = fuzzy \<and> fuzzy_eligible en start;
          completed_count = saturating_mul (length completed) (length chosen);
          fuzzy_count = (if eligible then 1 else 0) * length chosen;
          known_count = saturating_add completed_count fuzzy_count
      in if en_max_query_clauses en < known_count then Err (prefix_exceeds en)
         else
           and_then (expanded_prefix_group en searcher start chosen (en_max_query_clauses en - known_count)) (\<lambda>(exact_prefix, prefix_count).
           if en_max_query_clauses en < saturating_add (saturating_add completed_count prefix_count) fuzzy_count
           then Err (prefix_exceeds en)
           else
             and_then (charge_fuzzy (if eligible then 1 else 0) (length chosen) (fuzzy_distance options) b) (\<lambda>b.
             and_then (final_group en ops start chosen fuzzy options exact_prefix) (\<lambda>group.
             Ok ((Boolean_Query (map (\<lambda>t. (Must, term_group t chosen)) completed @ [(Must, group)]),
                  completed_count + prefix_count + fuzzy_count, 2 < length completed + 1 \<and> \<not> eligible), b)))))"

definition prefix_query :: "engine \<Rightarrow> score_ops \<Rightarrow> searcher \<Rightarrow> string \<Rightarrow> engine_field list \<Rightarrow> bool \<Rightarrow> query_options \<Rightarrow>
    construction_budget \<Rightarrow> ((query \<times> nat \<times> bool) \<times> construction_budget) res" where
  "prefix_query en ops searcher text chosen fuzzy options b =
     and_then (require_surface_fields chosen) (\<lambda>_.
     if ends_in_whitespace text
     then and_then (term_query en text chosen Must) (\<lambda>r. Ok (r, b))
     else
       and_then (final_surface_term en text) (\<lambda>(completed, surface_prefix). case surface_prefix of
         None \<Rightarrow> Ok ((Empty_Query, 0, False), b)
       | Some start \<Rightarrow>
           if length (chars start) < (if fuzzy then 4 else 3) then Err (prefix_short fuzzy)
           else completed_prefix_query en ops searcher completed start chosen fuzzy options b))"

section \<open>Expressions\<close>

record built_query =
  bq_query :: query
  bq_clauses :: nat
  bq_stable_scores :: bool

definition built_from :: "query \<times> nat \<times> bool \<Rightarrow> built_query" where
  "built_from r = (case r of (q, clauses, stable_scores) \<Rightarrow> \<lparr>bq_query = q, bq_clauses = clauses, bq_stable_scores = stable_scores\<rparr>)"

definition clause_query :: "engine \<Rightarrow> score_ops \<Rightarrow> searcher \<Rightarrow> search_clause \<Rightarrow> construction_budget \<Rightarrow>
    (built_query \<times> construction_budget) res" where
  "clause_query en ops searcher clause b =
     and_then (selected_fields en (cl_fields clause)) (\<lambda>chosen.
     and_then (case cl_mode clause of
         ModeAny \<Rightarrow> and_then (term_query en (cl_text clause) chosen Should) (\<lambda>r. Ok (r, b))
       | ModeAll \<Rightarrow> and_then (term_query en (cl_text clause) chosen Must) (\<lambda>r. Ok (r, b))
       | Phrase \<Rightarrow> phrase_query en (cl_text clause) chosen b
       | Prefix \<Rightarrow> prefix_query en ops searcher (cl_text clause) chosen False (cl_options clause) b
       | Fuzzy \<Rightarrow> build_fuzzy en ops (cl_text clause) chosen (cl_options clause) b
       | FuzzyPrefix \<Rightarrow> prefix_query en ops searcher (cl_text clause) chosen True (cl_options clause) b) (\<lambda>(r, b).
     Ok (built_from r, b)))"

fun expression_query_inner :: "engine \<Rightarrow> score_ops \<Rightarrow> searcher \<Rightarrow> search_expression \<Rightarrow> construction_budget \<Rightarrow>
    (built_query \<times> construction_budget) res"
and query_children :: "engine \<Rightarrow> score_ops \<Rightarrow> searcher \<Rightarrow> occur \<Rightarrow> nat \<times> (occur \<times> query) list \<Rightarrow> search_expression list \<Rightarrow>
    construction_budget \<Rightarrow> ((nat \<times> (occur \<times> query) list) \<times> construction_budget) res" where
  "expression_query_inner en ops searcher (Clause clause) b = clause_query en ops searcher clause b"
| "expression_query_inner en ops searcher (AndE children) b =
     and_then (query_children en ops searcher Must (length children, []) children b) (\<lambda>((clauses, queries), b).
     Ok (\<lparr>bq_query = Boolean_Query queries, bq_clauses = clauses, bq_stable_scores = 2 < length children\<rparr>, b))"
| "expression_query_inner en ops searcher (OrE children) b =
     and_then (query_children en ops searcher Should (length children, []) children b) (\<lambda>((clauses, queries), b).
     Ok (\<lparr>bq_query = Boolean_Query queries, bq_clauses = clauses, bq_stable_scores = 1 < length children\<rparr>, b))"
| "expression_query_inner en ops searcher (Boost boost clause) b =
     and_then (expression_query_inner en ops searcher clause b) (\<lambda>(child, b).
     and_then (check_total_clause_count en (bq_clauses child) 1) (\<lambda>_.
     Ok (child\<lparr>bq_query := boosted (bq_query child) boost, bq_stable_scores := (bq_stable_scores child \<and> boost = f32_one),
           bq_clauses := bq_clauses child + 1\<rparr>, b)))"
| "expression_query_inner en ops searcher (Optional required optional) b =
     and_then (expression_query_inner en ops searcher required b) (\<lambda>(child, b).
     and_then (check_total_clause_count en (length optional + 1) (bq_clauses child)) (\<lambda>_.
     and_then (query_children en ops searcher Should (length optional + 1 + bq_clauses child, [(Must, bq_query child)]) optional b)
       (\<lambda>((clauses, queries), b).
     Ok (\<lparr>bq_query = Boolean_Query queries, bq_clauses = clauses, bq_stable_scores = False\<rparr>, b))))"
| "expression_query_inner en ops searcher (NotE child) b =
     and_then (expression_query_inner en ops searcher child b) (\<lambda>(child, b).
     and_then (check_total_clause_count en (bq_clauses child) 2) (\<lambda>_.
     Ok (\<lparr>bq_query = Const_Score (Boolean_Query [(Must, All_Query), (Must_Not, bq_query child)]) f32_zero,
          bq_clauses = bq_clauses child + 2, bq_stable_scores = False\<rparr>, b)))"
| "query_children en ops searcher occur (clauses, queries) [] b = Ok ((clauses, queries), b)"
| "query_children en ops searcher occur (clauses, queries) (child # children) b =
     and_then (expression_query_inner en ops searcher child b) (\<lambda>(child, b).
     and_then (check_total_clause_count en clauses (bq_clauses child)) (\<lambda>_.
     query_children en ops searcher occur (clauses + bq_clauses child, queries @ [(occur, bq_query child)]) children b))"

text \<open>A boost over one clause of terms at the root goes into the weights of its fields.\<close>

definition boosted_terms_query :: "engine \<Rightarrow> score_ops \<Rightarrow> f32 \<Rightarrow> search_clause \<Rightarrow> built_query res" where
  "boosted_terms_query en ops boost leaf =
     and_then (selected_fields en (cl_fields leaf)) (\<lambda>chosen.
     let chosen = map (\<lambda>field. field\<lparr>ef_weight := sp_times ops (ef_weight field) boost\<rparr>) chosen;
         occur = (if cl_mode leaf = ModeAny then Should else Must)
     in and_then (term_query en (cl_text leaf) chosen occur) (\<lambda>(q, clauses, stable_scores).
        and_then (check_total_clause_count en clauses 1) (\<lambda>_.
        Ok \<lparr>bq_query = q, bq_clauses = clauses + 1, bq_stable_scores = stable_scores\<rparr>)))"

definition expression_query :: "engine \<Rightarrow> score_ops \<Rightarrow> searcher \<Rightarrow> search_expression \<Rightarrow> built_query res" where
  "expression_query en ops searcher expression =
     and_then (validate_search_structure expression (en_max_query_clauses en) (length (en_fields en))) (\<lambda>_.
     let general = and_then (expression_query_inner en ops searcher expression no_construction) (\<lambda>(q, _). Ok q)
     in case expression of
       Boost boost (Clause leaf) \<Rightarrow>
         if cl_mode leaf = ModeAny \<or> cl_mode leaf = ModeAll then boosted_terms_query en ops boost leaf else general
     | _ \<Rightarrow> general)"

section \<open>Candidates and filters\<close>

definition with_candidates :: "engine \<Rightarrow> query \<Rightarrow> string list option \<Rightarrow> query" where
  "with_candidates en q candidate_ids = (case candidate_ids of
     None \<Rightarrow> q
   | Some ids \<Rightarrow>
       if ids = [] then Empty_Query
       else Boolean_Query [(Must, q), (Must, Const_Score (Term_Set_Query (map (Text_Term (en_id_field en)) (remdups ids))) f32_zero)])"

definition wrong_filter_type :: "engine_filter_field \<Rightarrow> fulltext_error" where
  "wrong_filter_type field = invalid (''filter field '' @ eff_name field @ '' received the wrong value type'')"

definition filter_term :: "nat \<Rightarrow> engine_filter_field \<Rightarrow> filter_value \<Rightarrow> query_term res" where
  "filter_term max_token_len field value = (case (eff_type field, value) of
     (FieldString, FString s) \<Rightarrow>
       if max_token_len < length s
       then Err (invalid (''filter field '' @ eff_name field @ '' exceeds '' @ nat_digits max_token_len @ '' UTF-8 bytes''))
       else Ok (Text_Term (eff_field field) s)
   | (FieldNumber, FNumber x) \<Rightarrow>
       and_then (validate_filter_number x) (\<lambda>_. Ok (F64_Term (eff_field field) (canonical_number x)))
   | (FieldBoolean, FBoolean b) \<Rightarrow> Ok (Bool_Term (eff_field field) b)
   | _ \<Rightarrow> Err (wrong_filter_type field))"

fun filter_terms :: "nat \<Rightarrow> engine_filter_field \<Rightarrow> filter_value list \<Rightarrow> query_term list res" where
  "filter_terms max_token_len field [] = Ok []"
| "filter_terms max_token_len field (v # vs) =
     and_then (filter_term max_token_len field v) (\<lambda>t. and_then (filter_terms max_token_len field vs) (\<lambda>ts. Ok (t # ts)))"

definition expected_filter_values :: "filter_comparator \<Rightarrow> nat option" where
  "expected_filter_values comparator = (case comparator of
     In \<Rightarrow> None | Between \<Rightarrow> Some 2 | Exists \<Rightarrow> Some 0 | filter_comparator.Missing \<Rightarrow> Some 0 | _ \<Rightarrow> Some 1)"

definition exists_query :: "engine \<Rightarrow> engine_filter_field \<Rightarrow> query" where
  "exists_query en field =
     (if eff_type field = FieldBoolean
      then Boolean_Query [(Should, Term_Query (Bool_Term (eff_field field) True) Basic), (Should, Term_Query (Bool_Term (eff_field field) False) Basic)]
      else Exists_Query (entry_name (en_schema en ! eff_field field)))"

definition range_query :: "filter_comparator \<Rightarrow> query_term list \<Rightarrow> query" where
  "range_query comparator terms = (case comparator of
     Lt \<Rightarrow> Range_Query Unbounded (Excluded (terms ! 0))
   | Le \<Rightarrow> Range_Query Unbounded (Included (terms ! 0))
   | Gt \<Rightarrow> Range_Query (Excluded (terms ! 0)) Unbounded
   | Ge \<Rightarrow> Range_Query (Included (terms ! 0)) Unbounded
   | _ \<Rightarrow> Range_Query (Included (terms ! 0)) (Included (terms ! 1)))"

definition filter_clause :: "nat \<Rightarrow> engine \<Rightarrow> string \<Rightarrow> filter_comparator \<Rightarrow> filter_value list \<Rightarrow> query res" where
  "filter_clause max_token_len en name comparator values =
     (if values = [] \<and> expected_filter_values comparator \<noteq> Some 0 \<or> MAX_QUERY_CLAUSES < length values \<or>
         (case expected_filter_values comparator of Some expected \<Rightarrow> expected \<noteq> length values | None \<Rightarrow> False)
      then Err (invalid ''invalid filter value count'')
      else
        and_then (ok_or (invalid (''unknown filter field '' @ name)) (en_filter_field_lookup en name)) (\<lambda>index.
        let field = en_filter_fields en ! index
        in if comparator = Exists then Ok (exists_query en field)
           else if comparator = filter_comparator.Missing then Ok (complement_query (exists_query en field))
           else
             and_then (filter_terms max_token_len field values) (\<lambda>terms.
             if comparator = Equals \<or> comparator = In \<and> length terms = 1 then Ok (Term_Query (terms ! 0) Basic)
             else if comparator = In then Ok (Term_Set_Query terms)
             else if eff_type field \<noteq> FieldNumber then Err (invalid ''range filters require a number field'')
             else Ok (range_query comparator terms))))"

definition filter_too_deep :: fulltext_error where
  "filter_too_deep = invalid ''filter expression nesting exceeds 8 levels''"

definition filter_too_wide :: fulltext_error where
  "filter_too_wide = invalid ''filter expression exceeds 256 clauses''"

definition filter_children_count :: fulltext_error where
  "filter_children_count = invalid (''filter boolean expressions require 1 to '' @ nat_digits MAX_QUERY_CLAUSES @ '' clauses'')"

fun filter_query_inner :: "nat \<Rightarrow> engine \<Rightarrow> filter_expression \<Rightarrow> nat \<Rightarrow> nat \<Rightarrow> (query \<times> nat) res"
and filter_query_children :: "nat \<Rightarrow> engine \<Rightarrow> occur \<Rightarrow> (occur \<times> query) list \<Rightarrow> filter_expression list \<Rightarrow> nat \<Rightarrow> nat \<Rightarrow>
    ((occur \<times> query) list \<times> nat) res" where
  "filter_query_inner n en (FClause name comparator values) depth leaves =
     (if MAX_EXPRESSION_DEPTH < depth then Err filter_too_deep
      else let leaves = leaves + 1
        in if MAX_QUERY_CLAUSES < leaves then Err filter_too_wide
           else and_then (filter_clause n en name comparator values) (\<lambda>q. Ok (q, leaves)))"
| "filter_query_inner n en (FNot child) depth leaves =
     (if MAX_EXPRESSION_DEPTH < depth then Err filter_too_deep
      else and_then (filter_query_inner n en child (depth + 1) leaves) (\<lambda>(q, leaves). Ok (complement_query q, leaves)))"
| "filter_query_inner n en (FAnd children) depth leaves =
     (if MAX_EXPRESSION_DEPTH < depth then Err filter_too_deep
      else if children = [] \<or> MAX_QUERY_CLAUSES < length children then Err filter_children_count
      else and_then (filter_query_children n en Must [] children (depth + 1) leaves) (\<lambda>(queries, leaves). Ok (Boolean_Query queries, leaves)))"
| "filter_query_inner n en (FOr children) depth leaves =
     (if MAX_EXPRESSION_DEPTH < depth then Err filter_too_deep
      else if children = [] \<or> MAX_QUERY_CLAUSES < length children then Err filter_children_count
      else and_then (filter_query_children n en Should [] children (depth + 1) leaves) (\<lambda>(queries, leaves). Ok (Boolean_Query queries, leaves)))"
| "filter_query_children n en occur queries [] depth leaves = Ok (queries, leaves)"
| "filter_query_children n en occur queries (child # children) depth leaves =
     and_then (filter_query_inner n en child depth leaves) (\<lambda>(q, leaves).
     filter_query_children n en occur (queries @ [(occur, q)]) children depth leaves)"

definition filter_query :: "nat \<Rightarrow> engine \<Rightarrow> filter_expression \<Rightarrow> query res" where
  "filter_query n en expression = and_then (filter_query_inner n en expression 0 0) (\<lambda>(q, _). Ok q)"

definition with_filter :: "nat \<Rightarrow> engine \<Rightarrow> query \<Rightarrow> filter_expression option \<Rightarrow> query res" where
  "with_filter n en q filter_expression = (case filter_expression of
     None \<Rightarrow> Ok q
   | Some f \<Rightarrow> and_then (filter_query n en f) (\<lambda>filter. Ok (Boolean_Query [(Must, q), (Must, Const_Score filter f32_zero)])))"

definition build_query :: "nat \<Rightarrow> engine \<Rightarrow> score_ops \<Rightarrow> searcher \<Rightarrow> search_request \<Rightarrow> built_query res" where
  "build_query n en ops searcher request =
     and_then (expression_query en ops searcher (rq_expression request)) (\<lambda>q.
     and_then (with_filter n en (with_candidates en (bq_query q) (rq_candidate_ids request)) (rq_filter request)) (\<lambda>filtered.
     Ok (q\<lparr>bq_query := filtered\<rparr>)))"

end
