(* ===== verification/Query_Filter.thy ===== *)
theory Query_Filter
  imports Query
begin

text \<open>
  The meaning of queries, as the index library documents it, and the filters of a search: the query of
  a filter matches a document exactly when the filter holds of the upsert the document was made from.
\<close>

section \<open>What matching means\<close>

definition index_terms :: "engine \<Rightarrow> nat \<Rightarrow> string \<Rightarrow> string list" where
  "index_terms en h text = (case en_schema en ! h of
     Text_Entry _ options \<Rightarrow> (case tx_indexing options of
         Some (tokenizer, _, _) \<Rightarrow>
           if tokenizer = ANALYZER_NAME then map tk_text (en_index_analyzer en text)
           else if tokenizer = SURFACE_ANALYZER_NAME then map tk_text (en_surface_index_analyzer en text)
           else [text]
       | None \<Rightarrow> [])
   | _ \<Rightarrow> [])"

definition has_term :: "engine \<Rightarrow> document \<Rightarrow> query_term \<Rightarrow> bool" where
  "has_term en d t = (case t of
     Text_Term h s \<Rightarrow> \<exists>text. (h, Text_Value text) \<in> set d \<and> s \<in> set (index_terms en h text)
   | Bytes_Term h key \<Rightarrow> \<exists>text. (h, Text_Value text) \<in> set d \<and> key \<in> str_bytes ` set (index_terms en h text)
   | F64_Term h x \<Rightarrow> (h, F64_Value x) \<in> set d
   | Bool_Term h b \<Rightarrow> (h, Bool_Value b) \<in> set d)"

definition plain_number :: "f64 \<Rightarrow> bool" where
  "plain_number x \<longleftrightarrow> f64_is_finite x \<and> canonical_number x = x"

definition above_bound :: "term_bound \<Rightarrow> nat \<Rightarrow> f64 \<Rightarrow> bool" where
  "above_bound b h y = (case b of
     Unbounded \<Rightarrow> True
   | Included (F64_Term h' x) \<Rightarrow> h' = h \<and> f64_le x y
   | Excluded (F64_Term h' x) \<Rightarrow> h' = h \<and> f64_lt x y
   | _ \<Rightarrow> False)"

definition below_bound :: "term_bound \<Rightarrow> nat \<Rightarrow> f64 \<Rightarrow> bool" where
  "below_bound b h y = (case b of
     Unbounded \<Rightarrow> True
   | Included (F64_Term h' x) \<Rightarrow> h' = h \<and> f64_le y x
   | Excluded (F64_Term h' x) \<Rightarrow> h' = h \<and> f64_lt y x
   | _ \<Rightarrow> False)"

definition bound_field :: "term_bound \<Rightarrow> nat set" where
  "bound_field b = (case b of
     Included (F64_Term h x) \<Rightarrow> if plain_number x then {h} else {}
   | Excluded (F64_Term h x) \<Rightarrow> if plain_number x then {h} else {}
   | _ \<Rightarrow> {})"

definition boolean_matches :: "(query \<Rightarrow> bool) \<Rightarrow> (occur \<times> query) list \<Rightarrow> bool" where
  "boolean_matches m clauses \<longleftrightarrow> (\<forall>(occur, q) \<in> set clauses. (occur = Must \<longrightarrow> m q) \<and> (occur = Must_Not \<longrightarrow> \<not> m q)) \<and>
     (\<exists>(occur, q) \<in> set clauses. occur = Must \<or> occur = Should \<and> m q)"

definition document_plain :: "document \<Rightarrow> bool" where
  "document_plain d \<longleftrightarrow> (\<forall>(h, v) \<in> set d. case v of F64_Value x \<Rightarrow> plain_number x | _ \<Rightarrow> True)"

text \<open>The documented behaviour of the queries of the index library on a document.\<close>

definition matching_laws :: "engine \<Rightarrow> (query \<Rightarrow> document \<Rightarrow> bool) \<Rightarrow> bool" where
  "matching_laws en m \<longleftrightarrow> (\<forall>d. \<not> m Empty_Query d \<and> m All_Query d \<and>
     (\<forall>t r. m (Term_Query t r) d = has_term en d t) \<and>
     (\<forall>ts. m (Term_Set_Query ts) d = list_ex (has_term en d) ts) \<and>
     (\<forall>q s. m (Const_Score q s) d = m q d) \<and> (\<forall>q s. m (Boost_Query q s) d = m q d) \<and>
     (\<forall>qs. m (Disjunction_Max qs) d = list_ex (\<lambda>q. m q d) qs) \<and>
     (\<forall>cs. m (Boolean_Query cs) d = boolean_matches (\<lambda>q. m q d) cs) \<and>
     (\<forall>h. h < length (en_schema en) \<longrightarrow> distinct (map entry_name (en_schema en)) \<longrightarrow>
        m (Exists_Query (entry_name (en_schema en ! h))) d = (\<exists>v. (h, v) \<in> set d)) \<and>
     (\<forall>lower upper h. document_plain d \<longrightarrow> h \<in> bound_field lower \<union> bound_field upper \<longrightarrow>
        m (Range_Query lower upper) d = (\<exists>y. (h, F64_Value y) \<in> set d \<and> above_bound lower h y \<and> below_bound upper h y)))"

lemma matching_lawsD:
  assumes "matching_laws en m"
  shows "\<not> m Empty_Query d" "m All_Query d" "m (Term_Query t r) d = has_term en d t" "m (Term_Set_Query ts) d = list_ex (has_term en d) ts"
    "m (Const_Score q s) d = m q d" "m (Boost_Query q s) d = m q d" "m (Disjunction_Max qs) d = list_ex (\<lambda>q. m q d) qs"
    "m (Boolean_Query cs) d = boolean_matches (\<lambda>q. m q d) cs"
    "h < length (en_schema en) \<Longrightarrow> distinct (map entry_name (en_schema en)) \<Longrightarrow>
       m (Exists_Query (entry_name (en_schema en ! h))) d = (\<exists>v. (h, v) \<in> set d)"
    "document_plain d \<Longrightarrow> h \<in> bound_field lower \<union> bound_field upper \<Longrightarrow>
       m (Range_Query lower upper) d = (\<exists>y. (h, F64_Value y) \<in> set d \<and> above_bound lower h y \<and> below_bound upper h y)"
  using assms unfolding matching_laws_def by blast+

lemma boosted_matches: "matching_laws en m \<Longrightarrow> m (boosted q weight) d = m q d"
  by (simp add: boosted_def matching_lawsD)

lemma complement_matches: "matching_laws en m \<Longrightarrow> m (complement_query q) d \<longleftrightarrow> \<not> m q d"
  by (simp add: complement_query_def matching_lawsD boolean_matches_def)

lemma boolean_must [simp]: "boolean_matches m (map (\<lambda>x. (Must, f x)) xs) \<longleftrightarrow> xs \<noteq> [] \<and> (\<forall>x \<in> set xs. m (f x))"
  by (cases xs) (auto simp: boolean_matches_def)

lemma boolean_should [simp]: "boolean_matches m (map (\<lambda>x. (Should, f x)) xs) \<longleftrightarrow> (\<exists>x \<in> set xs. m (f x))"
  by (auto simp: boolean_matches_def)

section \<open>What a filter means\<close>

definition same_value :: "filter_value \<Rightarrow> filter_value \<Rightarrow> bool" where
  "same_value v w = (case (v, w) of
     (FString s, FString t) \<Rightarrow> s = t
   | (FNumber x, FNumber y) \<Rightarrow> f64_eq x y
   | (FBoolean a, FBoolean b) \<Rightarrow> a = b
   | _ \<Rightarrow> False)"

definition number_rel :: "(f64 \<Rightarrow> f64 \<Rightarrow> bool) \<Rightarrow> filter_value \<Rightarrow> filter_value \<Rightarrow> bool" where
  "number_rel rel v w = (case (v, w) of (FNumber x, FNumber y) \<Rightarrow> rel x y | _ \<Rightarrow> False)"

definition upsert_values :: "upsert \<Rightarrow> string \<Rightarrow> filter_value list" where
  "upsert_values u name = (case map_of (up_filters u) name of Some values \<Rightarrow> values | None \<Rightarrow> [])"

definition clause_meaning :: "filter_comparator \<Rightarrow> filter_value list \<Rightarrow> filter_value list \<Rightarrow> bool" where
  "clause_meaning comparator values stored = (case comparator of
     Equals \<Rightarrow> list_ex (same_value (values ! 0)) stored
   | In \<Rightarrow> list_ex (\<lambda>v. list_ex (same_value v) stored) values
   | Lt \<Rightarrow> list_ex (\<lambda>v. number_rel f64_lt v (values ! 0)) stored
   | Le \<Rightarrow> list_ex (\<lambda>v. number_rel f64_le v (values ! 0)) stored
   | Gt \<Rightarrow> list_ex (\<lambda>v. number_rel f64_lt (values ! 0) v) stored
   | Ge \<Rightarrow> list_ex (\<lambda>v. number_rel f64_le (values ! 0) v) stored
   | Between \<Rightarrow> list_ex (\<lambda>v. number_rel f64_le (values ! 0) v \<and> number_rel f64_le v (values ! 1)) stored
   | Exists \<Rightarrow> stored \<noteq> []
   | filter_comparator.Missing \<Rightarrow> stored = [])"

fun filter_meaning :: "upsert \<Rightarrow> filter_expression \<Rightarrow> bool" where
  "filter_meaning u (FClause name comparator values) = clause_meaning comparator values (upsert_values u name)"
| "filter_meaning u (FNot child) = (\<not> filter_meaning u child)"
| "filter_meaning u (FAnd children) = list_all (filter_meaning u) children"
| "filter_meaning u (FOr children) = list_ex (filter_meaning u) children"

section \<open>Canonical numbers\<close>

lemma f64_magnitude_zero: "f64_magnitude 0 = 0" "f64_key 0 = 0" "\<not> f64_is_nan 0" "f64_is_finite 0" "\<not> f64_sign_negative 0"
  by (simp_all add: f64_magnitude_def f64_key_def f64_is_nan_def f64_is_finite_def f64_sign_negative_def)

lemma finite_not_nan: "f64_is_finite x \<Longrightarrow> \<not> f64_is_nan x"
  by (simp add: f64_is_finite_def f64_is_nan_def)

lemma canonical_number_props:
  "f64_key (canonical_number x) = f64_key x" "f64_is_nan (canonical_number x) = f64_is_nan x"
  "f64_is_finite x \<Longrightarrow> f64_is_finite (canonical_number x)" "canonical_number (canonical_number x) = canonical_number x"
  by (auto simp: canonical_number_def f64_eq_def f64_magnitude_zero)

lemma plain_canonical: "f64_is_finite x \<Longrightarrow> plain_number (canonical_number x)"
  by (simp add: plain_number_def canonical_number_props)

lemma f64_bits: "x = y \<longleftrightarrow> f64_sign_negative x = f64_sign_negative y \<and> f64_magnitude x = f64_magnitude y"
proof
  assume a: "f64_sign_negative x = f64_sign_negative y \<and> f64_magnitude x = f64_magnitude y"
  have bound: "unat z < 2 * 9223372036854775808" for z :: f64 using unsigned_less [of z] by simp
  have split: "unat z = f64_magnitude z + (if f64_sign_negative z then 9223372036854775808 else 0)" for z :: f64
    using bound [of z] by (auto simp: f64_magnitude_def f64_sign_negative_def mod_if)
  have "unat x = unat y" using split [of x] split [of y] a by simp
  then show "x = y" by (simp add: word_unat_eq_iff)
qed simp

lemma canonical_number_eq:
  assumes "f64_is_finite x" "f64_is_finite y"
  shows "canonical_number x = canonical_number y \<longleftrightarrow> f64_eq x y"
proof
  assume "canonical_number x = canonical_number y"
  then show "f64_eq x y" using canonical_number_props(1,2) assms by (metis f64_eq_def finite_not_nan)
next
  assume eq: "f64_eq x y"
  show "canonical_number x = canonical_number y"
  proof (cases "f64_key x = 0")
    case True
    then show ?thesis using eq assms by (simp add: canonical_number_def f64_eq_def f64_magnitude_zero finite_not_nan)
  next
    case False
    then have "f64_sign_negative x = f64_sign_negative y" "f64_magnitude x = f64_magnitude y"
      using eq by (auto simp: f64_eq_def f64_key_def split: if_splits)
    then have "x = y" by (simp add: f64_bits)
    then show ?thesis by simp
  qed
qed

lemma order_canonical:
  "f64_lt (canonical_number x) (canonical_number y) = f64_lt x y" "f64_le (canonical_number x) (canonical_number y) = f64_le x y"
  by (simp_all add: f64_lt_def f64_le_def canonical_number_props)

section \<open>Documents and their filters\<close>

definition values_finite :: "upsert \<Rightarrow> bool" where
  "values_finite u \<longleftrightarrow> (\<forall>(name, vs) \<in> set (up_filters u). \<forall>v \<in> set vs. case v of FNumber x \<Rightarrow> f64_is_finite x | _ \<Rightarrow> True)"

lemma stored_value_inj: "stored_value v = Text_Value s \<longleftrightarrow> v = FString s" "stored_value v = Bool_Value b \<longleftrightarrow> v = FBoolean b"
  "stored_value v = F64_Value x \<longleftrightarrow> (\<exists>y. v = FNumber y \<and> x = canonical_number y)"
  by (auto simp: stored_value_def split: filter_value.splits)

lemma filter_entries:
  assumes fits: "writer_fits built w" "distinct (handles built)" and u: "upsert_ok n w u"
    and f: "f \<in> set (bs_filter_fields built)" and names: "distinct (map eff_name (bs_filter_fields built))"
  shows "(eff_field f, v) \<in> set (document_of w u) \<longleftrightarrow> v \<in> stored_value ` set (upsert_values u (eff_name f))"
proof -
  let ?h = "eff_field f"
  let ?look = "\<lambda>name. wr_filter_fields w ! the (wr_filter_field_lookup w name)"
  have known: "names_known (wr_field_lookup w) (up_fields u)" "names_known (wr_filter_field_lookup w) (up_filters u)"
    using u by (auto simp: upsert_ok_def filters_ok_def)
  have h: "?h \<in> eff_field ` set (bs_filter_fields built)" using f by simp
  have apart: "?h \<noteq> wr_id_field w" "?h \<noteq> wr_version_field w" "\<And>g. g \<in> set (bs_fields built) \<Longrightarrow> ?h \<notin> set (field_handles g)"
    using fits h by (auto simp: writer_fits_def handles_def)
  have same: "g = f" if "g \<in> set (bs_filter_fields built)" "eff_field g = ?h" for g
  proof -
    have "distinct (map eff_field (bs_filter_fields built))" using fits(2) by (simp add: handles_def)
    then show ?thesis using that f by (simp add: distinct_map inj_on_def)
  qed
  have "(?h, v) \<notin> set (upsert_start w u)" using apart(1,2) by (auto simp: upsert_start_def split: option.splits)
  moreover have "(?h, v) \<notin> set (fields_document w (up_fields u))"
    using field_looked_up(1) [OF fits(1) known(1)] apart(3) by (fastforce simp: fields_document_def field_entries_of_def)
  moreover have "(?h, v) \<in> set (filters_document w (up_filters u)) \<longleftrightarrow> v \<in> stored_value ` set (upsert_values u (eff_name f))"
  proof
    assume "(?h, v) \<in> set (filters_document w (up_filters u))"
    then obtain name vs where e: "(name, vs) \<in> set (up_filters u)" "?h = eff_field (?look name)" "v \<in> stored_value ` set vs"
      by (auto simp: filters_document_def Let_def)
    have "?look name = f" using same filter_looked_up(1) [OF fits(1) known(2) e(1)] e(2) by simp
    then have "name = eff_name f" using filter_looked_up(2) [OF fits(1) known(2) e(1)] by simp
    moreover have "map_of (up_filters u) name = Some vs" using e(1) known(2) by (simp add: names_known_def)
    ultimately show "v \<in> stored_value ` set (upsert_values u (eff_name f))" using e(3) by (simp add: upsert_values_def)
  next
    assume "v \<in> stored_value ` set (upsert_values u (eff_name f))"
    then obtain vs where vs: "(eff_name f, vs) \<in> set (up_filters u)" "v \<in> stored_value ` set vs"
      by (cases "map_of (up_filters u) (eff_name f)") (auto simp: upsert_values_def dest: map_of_SomeD)
    have look: "?look (eff_name f) \<in> set (bs_filter_fields built)" "eff_name (?look (eff_name f)) = eff_name f"
      using filter_looked_up [OF fits(1) known(2) vs(1)] by simp_all
    have "?look (eff_name f) = f" using look f names by (simp add: distinct_map inj_on_def)
    then show "(?h, v) \<in> set (filters_document w (up_filters u))"
      using vs by (force simp: filters_document_def Let_def)
  qed
  ultimately show ?thesis by (simp add: document_of_def)
qed

section \<open>One clause\<close>

text \<open>A filter field of an engine together with the values that a document has in it.\<close>

definition holds_values :: "engine \<Rightarrow> engine_filter_field \<Rightarrow> document \<Rightarrow> filter_value list \<Rightarrow> bool" where
  "holds_values en f d stored \<longleftrightarrow> (\<forall>v. (eff_field f, v) \<in> set d \<longleftrightarrow> v \<in> stored_value ` set stored) \<and>
     (\<forall>v \<in> set stored. \<exists>n. value_ok n (eff_type f) v) \<and> (\<forall>x. FNumber x \<in> set stored \<longrightarrow> f64_is_finite x) \<and>
     (eff_type f = FieldString \<longrightarrow> (\<forall>s. index_terms en (eff_field f) s = [s]))"

lemma holds_valuesD:
  assumes "holds_values en f d stored"
  shows "(eff_field f, Text_Value s) \<in> set d \<longleftrightarrow> FString s \<in> set stored" "(eff_field f, Bool_Value b) \<in> set d \<longleftrightarrow> FBoolean b \<in> set stored"
    "(eff_field f, F64_Value x) \<in> set d \<longleftrightarrow> (\<exists>y. FNumber y \<in> set stored \<and> x = canonical_number y)"
    "(\<exists>v. (eff_field f, v) \<in> set d) \<longleftrightarrow> stored \<noteq> []"
proof -
  have all: "(eff_field f, v) \<in> set d \<longleftrightarrow> v \<in> stored_value ` set stored" for v using assms by (simp add: holds_values_def)
  show "(eff_field f, Text_Value s) \<in> set d \<longleftrightarrow> FString s \<in> set stored" "(eff_field f, Bool_Value b) \<in> set d \<longleftrightarrow> FBoolean b \<in> set stored"
    "(eff_field f, F64_Value x) \<in> set d \<longleftrightarrow> (\<exists>y. FNumber y \<in> set stored \<and> x = canonical_number y)"
    unfolding all image_iff using stored_value_inj by (metis)+
  show "(\<exists>v. (eff_field f, v) \<in> set d) \<longleftrightarrow> stored \<noteq> []" unfolding all by (cases stored) auto
qed

lemma same_value_simps:
  "same_value (FString s) v \<longleftrightarrow> v = FString s" "same_value (FNumber x) v \<longleftrightarrow> (\<exists>y. v = FNumber y \<and> f64_eq x y)"
  "same_value (FBoolean b) v \<longleftrightarrow> v = FBoolean b"
  by (cases v; auto simp: same_value_def)+

lemma filter_term_cases:
  assumes "filter_term n f v = Ok t"
  obtains s where "eff_type f = FieldString" "v = FString s" "t = Text_Term (eff_field f) s"
  | x where "eff_type f = FieldNumber" "v = FNumber x" "f64_is_finite x" "t = F64_Term (eff_field f) (canonical_number x)"
  | b where "eff_type f = FieldBoolean" "v = FBoolean b" "t = Bool_Term (eff_field f) b"
  using assms by (cases "eff_type f"; cases v)
    (auto simp: filter_term_def validate_filter_number_def wrong_filter_type_def split: if_splits)

lemma has_filter_term:
  assumes "holds_values en f d stored" "filter_term n f v = Ok t"
  shows "has_term en d t \<longleftrightarrow> list_ex (same_value v) stored"
  using assms(2)
proof (cases rule: filter_term_cases)
  case (1 s)
  have "index_terms en (eff_field f) x = [x]" for x using assms(1) 1(1) by (simp add: holds_values_def)
  then have "has_term en d t \<longleftrightarrow> FString s \<in> set stored"
    by (auto simp: has_term_def 1(3) holds_valuesD(1) [OF assms(1)])
  also have "\<dots> \<longleftrightarrow> list_ex (same_value v) stored"
    by (auto simp: list_ex_iff same_value_simps 1(2))
  finally show ?thesis .
next
  case (2 x)
  have "has_term en d t \<longleftrightarrow> (\<exists>y. FNumber y \<in> set stored \<and> canonical_number x = canonical_number y)"
    by (simp add: has_term_def 2(4) holds_valuesD(3) [OF assms(1)])
  also have "\<dots> \<longleftrightarrow> (\<exists>y. FNumber y \<in> set stored \<and> f64_eq x y)"
  proof -
    have "f64_is_finite y" if "FNumber y \<in> set stored" for y using assms(1) that by (simp add: holds_values_def)
    then show ?thesis using canonical_number_eq [OF 2(3)] by blast
  qed
  also have "\<dots> \<longleftrightarrow> list_ex (same_value v) stored"
    by (auto simp: list_ex_iff same_value_simps 2(2))
  finally show ?thesis .
next
  case (3 b)
  have "has_term en d t \<longleftrightarrow> FBoolean b \<in> set stored"
    by (simp add: has_term_def 3(3) holds_valuesD(2) [OF assms(1)])
  also have "\<dots> \<longleftrightarrow> list_ex (same_value v) stored"
    by (auto simp: list_ex_iff same_value_simps 3(2))
  finally show ?thesis .
qed

lemma filter_terms_all2: "filter_terms n f vs = Ok ts \<longleftrightarrow> list_all2 (\<lambda>v t. filter_term n f v = Ok t) vs ts"
  by (induction vs arbitrary: ts) (auto simp: and_then_Ok_iff list_all2_Cons1)

lemma exists_query_matches:
  assumes "matching_laws en m" "holds_values en f d stored" "eff_field f < length (en_schema en)" "distinct (map entry_name (en_schema en))"
  shows "m (exists_query en f) d \<longleftrightarrow> stored \<noteq> []"
proof (cases "eff_type f = FieldBoolean")
  case True
  have "m (exists_query en f) d \<longleftrightarrow> FBoolean True \<in> set stored \<or> FBoolean False \<in> set stored"
    using True by (simp add: exists_query_def matching_lawsD(3,8) [OF assms(1)] boolean_matches_def has_term_def holds_valuesD(2) [OF assms(2)])
  moreover have "\<exists>b. v = FBoolean b" if member: "v \<in> set stored" for v
  proof -
    obtain n where "value_ok n FieldBoolean v" using assms(2) member True unfolding holds_values_def by metis
    then show ?thesis by (cases rule: value_ok_cases) auto
  qed
  then have "FBoolean True \<in> set stored \<or> FBoolean False \<in> set stored \<longleftrightarrow> stored \<noteq> []"
  proof (cases stored)
    case (Cons v rest)
    then obtain b where "v = FBoolean b" using \<open>\<And>v. v \<in> set stored \<Longrightarrow> \<exists>b. v = FBoolean b\<close> by auto
    then show ?thesis using Cons by (cases b) simp_all
  qed simp
  ultimately show ?thesis by simp
next
  case False
  then show ?thesis
    using matching_lawsD(9) [OF assms(1,3,4), of d] holds_valuesD(4) [OF assms(2)] by (simp add: exists_query_def)
qed

lemma number_values:
  assumes "holds_values en f d stored"
  shows "(\<exists>y. (eff_field f, F64_Value y) \<in> set d \<and> P y) \<longleftrightarrow> (\<exists>x. FNumber x \<in> set stored \<and> P (canonical_number x))"
  by (auto simp: holds_valuesD(3) [OF assms])

lemma list_ex_number: "list_ex (\<lambda>v. case v of FNumber x \<Rightarrow> P x | _ \<Rightarrow> False) vs \<longleftrightarrow> (\<exists>x. FNumber x \<in> set vs \<and> P x)"
proof -
  have "(case v of FNumber x \<Rightarrow> P x | _ \<Rightarrow> False) \<longleftrightarrow> (\<exists>x. v = FNumber x \<and> P x)" for v by (cases v) simp_all
  then show ?thesis by (auto simp: list_ex_iff)
qed

lemma list_ex_number_rel: "list_ex (number_rel rel (FNumber x)) vs \<longleftrightarrow> (\<exists>y. FNumber y \<in> set vs \<and> rel x y)"
proof -
  have "number_rel rel (FNumber x) v \<longleftrightarrow> (\<exists>y. v = FNumber y \<and> rel x y)" for v by (cases v) (simp_all add: number_rel_def)
  then show ?thesis by (auto simp: list_ex_iff)
qed

lemma list_ex_rel_number: "list_ex (\<lambda>v. number_rel rel v (FNumber x)) vs \<longleftrightarrow> (\<exists>y. FNumber y \<in> set vs \<and> rel y x)"
proof -
  have "number_rel rel v (FNumber x) \<longleftrightarrow> (\<exists>y. v = FNumber y \<and> rel y x)" for v by (cases v) (simp_all add: number_rel_def)
  then show ?thesis by (auto simp: list_ex_iff)
qed

lemma range_query_matches:
  assumes laws: "matching_laws en m" and stored: "holds_values en f d stored" and plain: "document_plain d"
    and terms: "filter_terms n f vs = Ok ts" "eff_type f = FieldNumber" "expected_filter_values c = Some (length vs)"
    and c: "c \<in> {Lt, Le, Gt, Ge, Between}"
  shows "m (range_query c ts) d \<longleftrightarrow> clause_meaning c vs stored"
proof -
  have each: "\<exists>x. f64_is_finite x \<and> vs ! i = FNumber x \<and> ts ! i = F64_Term (eff_field f) (canonical_number x)" if "i < length vs" for i
  proof -
    have "filter_term n f (vs ! i) = Ok (ts ! i)" using terms(1) that by (simp add: filter_terms_all2 list_all2_conv_all_nth)
    then show ?thesis by (cases rule: filter_term_cases) (use terms(2) in auto)
  qed
  have len: "0 < length vs" "c = Between \<Longrightarrow> 1 < length vs" using terms(3) c by (auto simp: expected_filter_values_def)
  obtain x where x: "f64_is_finite x" "vs ! 0 = FNumber x" "ts ! 0 = F64_Term (eff_field f) (canonical_number x)" using each [OF len(1)] by blast
  have px: "plain_number (canonical_number x)" using plain_canonical [OF x(1)] .
  note range = matching_lawsD(10) [OF laws plain, of "eff_field f"] and simps = above_bound_def below_bound_def bound_field_def px
    number_values [OF stored] order_canonical clause_meaning_def x list_ex_number_rel list_ex_rel_number range_query_def
  show ?thesis
  proof (cases "c = Between")
    case True
    obtain z where z: "f64_is_finite z" "vs ! 1 = FNumber z" "ts ! 1 = F64_Term (eff_field f) (canonical_number z)"
      using each [OF len(2) [OF True]] by blast
    have "m (range_query c ts) d \<longleftrightarrow> (\<exists>y. FNumber y \<in> set stored \<and> f64_le x y \<and> f64_le y z)"
      using range [of "Included (ts ! 0)" "Included (ts ! 1)"] by (simp add: simps True z plain_canonical del: One_nat_def)
    also have "\<dots> \<longleftrightarrow> list_ex (\<lambda>v. case v of FNumber y \<Rightarrow> f64_le x y \<and> f64_le y z | _ \<Rightarrow> False) stored" by (simp add: list_ex_number)
    also have "\<dots> \<longleftrightarrow> clause_meaning c vs stored"
      unfolding True clause_meaning_def filter_comparator.case number_rel_def x z
      by (intro list_ex_cong) (simp_all split: filter_value.split)
    finally show ?thesis .
  next
    case False
    then consider "c = Lt" | "c = Le" | "c = Gt" | "c = Ge" using c by blast
    then show ?thesis
    proof cases
      case 1
      then show ?thesis using range [of Unbounded "Excluded (ts ! 0)"] by (simp add: simps)
    next
      case 2
      then show ?thesis using range [of Unbounded "Included (ts ! 0)"] by (simp add: simps)
    next
      case 3
      then show ?thesis using range [of "Excluded (ts ! 0)" Unbounded] by (simp add: simps)
    next
      case 4
      then show ?thesis using range [of "Included (ts ! 0)" Unbounded] by (simp add: simps)
    qed
  qed
qed

section \<open>The setting\<close>

definition filters_hold :: "engine \<Rightarrow> document \<Rightarrow> upsert \<Rightarrow> bool" where
  "filters_hold en d u \<longleftrightarrow> document_plain d \<and> distinct (map entry_name (en_schema en)) \<and>
     (\<forall>name i. en_filter_field_lookup en name = Some i \<longrightarrow> i < length (en_filter_fields en) \<and> eff_name (en_filter_fields en ! i) = name) \<and>
     (\<forall>f \<in> set (en_filter_fields en). eff_field f < length (en_schema en) \<and> holds_values en f d (upsert_values u (eff_name f)))"

lemma upsert_values_member:
  assumes "names_known lookup (up_filters u)"
  shows "v \<in> set (upsert_values u name) \<longleftrightarrow> (\<exists>vs. (name, vs) \<in> set (up_filters u) \<and> v \<in> set vs)"
proof -
  have "(name, vs) \<in> set (up_filters u) \<longleftrightarrow> map_of (up_filters u) name = Some vs" for vs
    using assms by (simp add: names_known_def)
  then show ?thesis by (cases "map_of (up_filters u) name") (auto simp: upsert_values_def)
qed

lemma document_of_plain:
  assumes "values_finite u"
  shows "document_plain (document_of w u)"
proof -
  have "case v of F64_Value x \<Rightarrow> plain_number x | _ \<Rightarrow> True" if entry: "(h, v) \<in> set (document_of w u)" for h v
  proof -
    consider "\<exists>s. v = Text_Value s" | "(h, v) \<in> set (filters_document w (up_filters u))"
      using entry by (auto simp: document_of_def upsert_start_def fields_document_def field_entries_of_def split: option.splits)
    then show ?thesis
    proof cases
      case 1
      then show ?thesis by auto
    next
      case 2
      then obtain name vs x where "(name, vs) \<in> set (up_filters u)" "x \<in> set vs" "v = stored_value x"
        by (auto simp: filters_document_def Let_def)
      then have "case x of FNumber y \<Rightarrow> f64_is_finite y | _ \<Rightarrow> True" using assms by (auto simp: values_finite_def)
      then show ?thesis using plain_canonical \<open>v = stored_value x\<close> by (cases x) (simp_all add: stored_value_def)
    qed
  qed
  then show ?thesis by (auto simp: document_plain_def)
qed

lemma document_filters_hold:
  assumes fits: "schema_fits r c built" "engine_fits built en" "distinct (map eff_name (bs_filter_fields built))"
    and w: "writes_for en w" and u: "upsert_ok n w u" "values_finite u"
  shows "filters_hold en (document_of w u) u"
proof -
  have wf: "writer_fits built w" using writes_for_fits [OF fits(2) w] .
  have dist: "distinct (handles built)" "distinct (map entry_name (bs_schema built))" using fits(1) by (simp_all add: schema_fits_def)
  have known: "names_known (wr_filter_field_lookup w) (up_filters u)" using u by (simp add: upsert_ok_def filters_ok_def)
  have en: "en_schema en = bs_schema built" "en_filter_fields en = bs_filter_fields built"
    "en_filter_field_lookup en = lookup_of (map eff_name (bs_filter_fields built))" using fits(2) by (simp_all add: engine_fits_def)
  have "holds_values en f (document_of w u) (upsert_values u (eff_name f)) \<and> eff_field f < length (en_schema en)"
    if f: "f \<in> set (bs_filter_fields built)" for f
  proof -
    have "\<exists>n. value_ok n (eff_type f) v" if v: "v \<in> set (upsert_values u (eff_name f))" for v
    proof -
      obtain vs where vs: "(eff_name f, vs) \<in> set (up_filters u)" "v \<in> set vs" using v upsert_values_member [OF known] by auto
      let ?g = "wr_filter_fields w ! the (wr_filter_field_lookup w (eff_name f))"
      have "?g \<in> set (bs_filter_fields built)" "eff_name ?g = eff_name f" using filter_looked_up [OF wf known vs(1)] by simp_all
      then have "?g = f" using f fits(3) by (simp add: distinct_map inj_on_def)
      moreover have "list_all (value_ok n (eff_type ?g)) vs" using u vs(1) by (auto simp: upsert_ok_def filters_ok_def)
      ultimately show ?thesis using vs(2) by (auto simp: list_all_iff)
    qed
    moreover have "f64_is_finite x" if "FNumber x \<in> set (upsert_values u (eff_name f))" for x
      using that upsert_values_member [OF known] u(2) by (fastforce simp: values_finite_def)
    moreover have "index_terms en (eff_field f) s = [s]" if strings: "eff_type f = FieldString" for s
    proof -
      obtain i where "bs_schema built ! eff_field f = filter_entry (filter_name i) FieldString"
        using fits(1) f strings by (auto simp: schema_fits_def list_all_iff)
      then show ?thesis by (simp add: index_terms_def en filter_entry_def raw_options_def ANALYZER_NAME_def SURFACE_ANALYZER_NAME_def)
    qed
    moreover have "eff_field f < length (bs_schema built)" using handles_bound [OF fits(1)] handles_members(2) [OF f] by simp
    ultimately show ?thesis using filter_entries [OF wf dist(1) u(1) f fits(3)] by (simp add: holds_values_def en)
  qed
  moreover have "i < length (bs_filter_fields built) \<and> eff_name (bs_filter_fields built ! i) = name"
    if "lookup_of (map eff_name (bs_filter_fields built)) name = Some i" for name i
    using lookup_of_Some [OF that] by simp
  ultimately show ?thesis using document_of_plain [OF u(2)] dist(2)
    by (simp add: filters_hold_def en)
qed

section \<open>Filter expressions\<close>

lemma filter_clause_matches:
  assumes laws: "matching_laws en m" and hold: "filters_hold en d u" and q: "filter_clause n en name c vs = Ok q"
  shows "m q d \<longleftrightarrow> clause_meaning c vs (upsert_values u name)"
proof -
  obtain i where i: "en_filter_field_lookup en name = Some i" using q by (auto simp: filter_clause_def and_then_Ok_iff ok_or_Ok_iff Let_def split: if_splits)
  let ?f = "en_filter_fields en ! i"
  have f: "?f \<in> set (en_filter_fields en)" "eff_name ?f = name" using hold i by (auto simp: filters_hold_def)
  then have stored: "holds_values en ?f d (upsert_values u name)" and bound: "eff_field ?f < length (en_schema en)"
      "distinct (map entry_name (en_schema en))" and plain: "document_plain d"
    using hold by (auto simp: filters_hold_def)
  note ex = exists_query_matches [OF laws stored bound]
  consider "c = Exists" "q = exists_query en ?f" | "c = filter_comparator.Missing" "q = complement_query (exists_query en ?f)"
    | ts where "c \<noteq> Exists" "c \<noteq> filter_comparator.Missing" "filter_terms n ?f vs = Ok ts"
      "(if c = Equals \<or> c = In \<and> length ts = 1 then Ok (Term_Query (ts ! 0) Basic)
             else if c = In then Ok (Term_Set_Query ts)
             else if eff_type ?f \<noteq> FieldNumber then Err (invalid ''range filters require a number field'')
             else Ok (range_query c ts)) = Ok q" "case expected_filter_values c of Some expected \<Rightarrow> expected = length vs | None \<Rightarrow> vs \<noteq> []"
    using q i unfolding filter_clause_def Let_def
    by (auto simp: and_then_Ok_iff ok_or_def expected_filter_values_def split: if_splits option.splits filter_comparator.splits)
  then show ?thesis
  proof cases
    case 1
    then show ?thesis using ex by (simp add: clause_meaning_def)
  next
    case 2
    then show ?thesis using ex complement_matches [OF laws] by (simp add: clause_meaning_def)
  next
    case (3 ts)
    have each: "list_all2 (\<lambda>v t. has_term en d t \<longleftrightarrow> list_ex (same_value v) (upsert_values u name)) vs ts"
      using 3(3) has_filter_term [OF stored] unfolding filter_terms_all2 by (rule list_all2_mono)
    have len: "length ts = length vs" using each by (simp add: list_all2_lengthD)
    have first: "has_term en d (ts ! 0) \<longleftrightarrow> list_ex (same_value (vs ! 0)) (upsert_values u name)" if "vs \<noteq> []"
    proof -
      have "0 < length vs" using that by simp
      then show ?thesis by (rule list_all2_nthD [OF each])
    qed
    have some: "list_ex (has_term en d) ts \<longleftrightarrow> list_ex (\<lambda>v. list_ex (same_value v) (upsert_values u name)) vs"
      using each by (induction rule: list_all2_induct) simp_all
    consider "c = Equals" "q = Term_Query (ts ! 0) Basic" "vs \<noteq> []" | "c = In" "length ts = 1" "q = Term_Query (ts ! 0) Basic"
      | "c = In" "q = Term_Set_Query ts"
      | "c \<in> {Lt, Le, Gt, Ge, Between}" "eff_type ?f = FieldNumber" "q = range_query c ts" "expected_filter_values c = Some (length vs)"
      using 3(1,2,4,5) by (cases c; cases vs) (auto simp: expected_filter_values_def split: if_splits)
    then show ?thesis
    proof cases
      case 1
      then show ?thesis using first matching_lawsD(3) [OF laws] by (simp add: clause_meaning_def)
    next
      case 2
      then obtain v where "vs = [v]" using len by (cases vs) auto
      then show ?thesis using 2 first matching_lawsD(3) [OF laws] by (simp add: clause_meaning_def)
    next
      case 3
      then show ?thesis using some matching_lawsD(4) [OF laws] by (simp add: clause_meaning_def)
    next
      case 4
      then show ?thesis using range_query_matches [OF laws stored plain 3(3) _ 4(4,1)] by simp
    qed
  qed
qed

lemma boolean_all2:
  assumes "list_all2 (\<lambda>e q. m q \<longleftrightarrow> P e) es qs" "es \<noteq> []"
  shows "boolean_matches m (map (\<lambda>q. (Must, q)) qs) \<longleftrightarrow> list_all P es" "boolean_matches m (map (\<lambda>q. (Should, q)) qs) \<longleftrightarrow> list_ex P es"
proof -
  have "qs \<noteq> []" using assms list_all2_lengthD by fastforce
  moreover have "(\<forall>q \<in> set qs. m q) \<longleftrightarrow> list_all P es" "(\<exists>q \<in> set qs. m q) \<longleftrightarrow> list_ex P es"
    using assms(1) by (induction rule: list_all2_induct) auto
  ultimately show "boolean_matches m (map (\<lambda>q. (Must, q)) qs) \<longleftrightarrow> list_all P es" "boolean_matches m (map (\<lambda>q. (Should, q)) qs) \<longleftrightarrow> list_ex P es"
    by simp_all
qed

lemma filter_query_matches:
  shows "filter_query_inner n en e depth leaves = Ok (q, l) \<Longrightarrow> matching_laws en m \<Longrightarrow> filters_hold en d u \<Longrightarrow> m q d \<longleftrightarrow> filter_meaning u e"
    "filter_query_children n en occur queries es depth leaves = Ok (qs', l) \<Longrightarrow> matching_laws en m \<Longrightarrow> filters_hold en d u \<Longrightarrow>
       \<exists>qs. qs' = queries @ map (\<lambda>q. (occur, q)) qs \<and> list_all2 (\<lambda>e q. m q d \<longleftrightarrow> filter_meaning u e) es qs"
proof (induction n en e depth leaves and n en occur queries es depth leaves arbitrary: q l and qs' l
    rule: filter_query_inner_filter_query_children.induct)
  case (1 n en name c vs depth leaves)
  then show ?case using filter_clause_matches [OF 1(2,3)] by (auto simp: and_then_Ok_iff Let_def split: if_splits)
next
  case (2 n en child depth leaves)
  then show ?case using complement_matches [OF 2(3)] by (auto simp: and_then_Ok_iff split: if_splits)
next
  case (3 n en children depth leaves)
  then obtain qs l' where k: "filter_query_children n en Must [] children (depth + 1) leaves = Ok (qs, l')" "q = Boolean_Query qs" "children \<noteq> []"
      "\<not> MAX_EXPRESSION_DEPTH < depth" "\<not> (children = [] \<or> MAX_QUERY_CLAUSES < length children)"
    by (auto simp: and_then_Ok_iff split: if_splits)
  from 3(1) [OF k(4,5,1) 3(3,4)] show ?case using boolean_all2(1) [OF _ k(3)] matching_lawsD(8) [OF 3(3)] k(2) by auto
next
  case (4 n en children depth leaves)
  then obtain qs l' where k: "filter_query_children n en Should [] children (depth + 1) leaves = Ok (qs, l')" "q = Boolean_Query qs" "children \<noteq> []"
      "\<not> MAX_EXPRESSION_DEPTH < depth" "\<not> (children = [] \<or> MAX_QUERY_CLAUSES < length children)"
    by (auto simp: and_then_Ok_iff split: if_splits)
  from 4(1) [OF k(4,5,1) 4(3,4)] show ?case using boolean_all2(2) [OF _ k(3)] matching_lawsD(8) [OF 4(3)] k(2) by auto
next
  case (5 n en occur queries depth leaves)
  then show ?case by simp
next
  case (6 n en occur queries child children depth leaves)
  then obtain q1 l1 where k: "filter_query_inner n en child depth leaves = Ok (q1, l1)"
      "filter_query_children n en occur (queries @ [(occur, q1)]) children depth l1 = Ok (qs', l)"
    by (auto simp: and_then_Ok_iff)
  have "m q1 d \<longleftrightarrow> filter_meaning u child" using 6(1) [OF k(1) 6(4,5)] .
  moreover obtain qs where "qs' = (queries @ [(occur, q1)]) @ map (\<lambda>q. (occur, q)) qs" "list_all2 (\<lambda>e q. m q d \<longleftrightarrow> filter_meaning u e) children qs"
    using 6(2) [OF k(1) refl k(2) 6(4,5)] by blast
  ultimately show ?case by (intro exI [of _ "q1 # qs"]) simp
qed

section \<open>The property and an example\<close>


text \<open>A library that matches as documented.\<close>

fun reference_matches :: "engine \<Rightarrow> query \<Rightarrow> document \<Rightarrow> bool" where
  "reference_matches en Empty_Query d \<longleftrightarrow> False"
| "reference_matches en All_Query d \<longleftrightarrow> True"
| "reference_matches en (Term_Query t r) d \<longleftrightarrow> has_term en d t"
| "reference_matches en (Phrase_Query ts) d \<longleftrightarrow> False"
| "reference_matches en (Term_Set_Query ts) d \<longleftrightarrow> list_ex (has_term en d) ts"
| "reference_matches en (Range_Query lower upper) d \<longleftrightarrow>
     (\<exists>(h, v) \<in> set d. case v of F64_Value y \<Rightarrow> above_bound lower h y \<and> below_bound upper h y | _ \<Rightarrow> False)"
| "reference_matches en (Exists_Query name) d \<longleftrightarrow> (\<exists>(h, v) \<in> set d. h < length (en_schema en) \<and> entry_name (en_schema en ! h) = name)"
| "reference_matches en (Fuzzy_Term_Query t distance transpositions start) d \<longleftrightarrow> False"
| "reference_matches en (Boolean_Query cs) d \<longleftrightarrow>
     list_all (\<lambda>c. (fst c = Must \<longrightarrow> reference_matches en (snd c) d) \<and> (fst c = Must_Not \<longrightarrow> \<not> reference_matches en (snd c) d)) cs \<and>
     list_ex (\<lambda>c. fst c = Must \<or> fst c = Should \<and> reference_matches en (snd c) d) cs"
| "reference_matches en (Const_Score q s) d \<longleftrightarrow> reference_matches en q d"
| "reference_matches en (Boost_Query q s) d \<longleftrightarrow> reference_matches en q d"
| "reference_matches en (Disjunction_Max qs) d \<longleftrightarrow> list_ex (\<lambda>q. reference_matches en q d) qs"

lemma same_handle:
  assumes "distinct (map entry_name (en_schema en))" "h < length (en_schema en)" "h' < length (en_schema en)"
    and "entry_name (en_schema en ! h') = entry_name (en_schema en ! h)"
  shows "h' = h"
proof -
  have "map entry_name (en_schema en) ! h' = map entry_name (en_schema en) ! h" using assms(2-4) by simp
  then show ?thesis using assms(1-3) nth_eq_iff_index_eq by fastforce
qed

lemma bound_forces:
  "h \<in> bound_field lower \<union> bound_field upper \<Longrightarrow> above_bound lower h' y \<Longrightarrow> below_bound upper h' y \<Longrightarrow> h' = h"
  by (auto simp: bound_field_def above_bound_def below_bound_def split: term_bound.splits query_term.splits if_splits)

lemma reference_laws: "matching_laws en (reference_matches en)"
proof -
  have ex: "reference_matches en (Exists_Query (entry_name (en_schema en ! h))) d = (\<exists>v. (h, v) \<in> set d)"
    if "h < length (en_schema en)" "distinct (map entry_name (en_schema en))" for h d
    using that same_handle [OF that(2,1)] by fastforce
  have range: "reference_matches en (Range_Query lower upper) d = (\<exists>y. (h, F64_Value y) \<in> set d \<and> above_bound lower h y \<and> below_bound upper h y)"
    if b: "h \<in> bound_field lower \<union> bound_field upper" for lower upper h d
  proof
    assume "reference_matches en (Range_Query lower upper) d"
    then obtain h' y where "(h', F64_Value y) \<in> set d" "above_bound lower h' y" "below_bound upper h' y"
      by (auto split: doc_value.splits)
    then show "\<exists>y. (h, F64_Value y) \<in> set d \<and> above_bound lower h y \<and> below_bound upper h y" using bound_forces [OF b] by blast
  qed force
  show ?thesis unfolding matching_laws_def
  proof (intro allI conjI impI)
    show "reference_matches en (Boolean_Query cs) d = boolean_matches (\<lambda>q. reference_matches en q d) cs" for cs d
      by (simp add: boolean_matches_def list_all_iff list_ex_iff case_prod_beta)
    show "reference_matches en (Exists_Query (entry_name (en_schema en ! h))) d = (\<exists>v. (h, v) \<in> set d)"
      if "h < length (en_schema en)" "distinct (map entry_name (en_schema en))" for h d
      by (rule ex [OF that])
    show "reference_matches en (Range_Query lower upper) d = (\<exists>y. (h, F64_Value y) \<in> set d \<and> above_bound lower h y \<and> below_bound upper h y)"
      if "h \<in> bound_field lower \<union> bound_field upper" for lower upper h d
      by (rule range [OF that])
  qed simp_all
qed

definition kind_filter :: filter_expression where
  "kind_filter = FAnd [FClause ''kind'' Equals [FNumber 0], FNot (FClause ''kind'' Gt [FNumber 0])]"


end
