(* ===== verification/Query_Bounds.thy ===== *)
theory Query_Bounds
  imports Query Tracing
begin

text \<open>
  The limits of a built query: the clauses it reports stay within the configured maximum, they bound the
  leaves of the query, and the construction budget bounds its fuzzy automata and its phrases.
\<close>

section \<open>Measures of a query\<close>

fun total_cost :: "(query \<Rightarrow> nat) \<Rightarrow> query \<Rightarrow> nat" where
  "total_cost f (Boolean_Query cs) = sum_list (map (\<lambda>c. total_cost f (snd c)) cs)"
| "total_cost f (Disjunction_Max qs) = sum_list (map (total_cost f) qs)"
| "total_cost f (Const_Score q s) = total_cost f q"
| "total_cost f (Boost_Query q s) = total_cost f q"
| "total_cost f q = f q"

definition leaf_cost :: "query \<Rightarrow> nat" where
  "leaf_cost q = (if q = Empty_Query \<or> q = All_Query then 0 else 1)"

definition fuzzy_cost :: "query \<Rightarrow> nat" where
  "fuzzy_cost q = (case q of Fuzzy_Term_Query t distance transpositions start \<Rightarrow> if distance = 2 then 4 else 1 | _ \<Rightarrow> 0)"

definition phrase_cost :: "query \<Rightarrow> nat" where
  "phrase_cost q = (case q of Phrase_Query ts \<Rightarrow> length ts | _ \<Rightarrow> 0)"

lemmas cost_defs = leaf_cost_def fuzzy_cost_def phrase_cost_def

lemma total_boosted [simp]: "total_cost f (boosted q weight) = total_cost f q"
  by (simp add: boosted_def)

lemma sum_constant: "(\<And>x. x \<in> set xs \<Longrightarrow> f x = c) \<Longrightarrow> sum_list (map f xs) = length xs * (c :: nat)"
  by (induction xs) auto

lemma cost_term [simp]: "leaf_cost (Term_Query t r) = 1" "fuzzy_cost (Term_Query t r) = 0" "phrase_cost (Term_Query t r) = 0"
  by (simp_all add: cost_defs)

lemma sum_concat: "sum_list (map f (concat xss)) = sum_list (map (\<lambda>xs. sum_list (map f xs)) xss)" for f :: "'a \<Rightarrow> nat"
  by (induction xss) simp_all

lemma total_term_group [simp]:
  "total_cost leaf_cost (term_group t chosen) = length chosen" "total_cost fuzzy_cost (term_group t chosen) = 0" "total_cost phrase_cost (term_group t chosen) = 0"
  by (simp_all add: term_group_def comp_def cost_defs sum_list_triv)

lemma total_exact_branch [simp]: "total_cost f (exact_branch ops q chosen) = 2 * total_cost f q"
  by (simp add: exact_branch_def)

definition fuzzy_weight :: "u8 \<Rightarrow> nat" where
  "fuzzy_weight distance = (if distance = 2 then 4 else 1)"

lemma total_fuzzy_group:
  assumes "fuzzy_group t chosen start options = Ok q"
  shows "total_cost leaf_cost q = length chosen" "total_cost fuzzy_cost q = length chosen * fuzzy_weight (fuzzy_distance options)" "total_cost phrase_cost q = 0"
proof -
  have "sum_list (map (total_cost leaf_cost) qs) = length chosen \<and> sum_list (map (total_cost phrase_cost) qs) = 0 \<and>
      sum_list (map (total_cost fuzzy_cost) qs) = length chosen * fuzzy_weight (fuzzy_distance options)"
    if "fuzzy_alternatives t start options chosen = Ok qs" for qs
    using that by (induction chosen arbitrary: qs) (auto simp: and_then_Ok_iff cost_defs fuzzy_weight_def)
  then show "total_cost leaf_cost q = length chosen" "total_cost fuzzy_cost q = length chosen * fuzzy_weight (fuzzy_distance options)" "total_cost phrase_cost q = 0"
    using assms by (auto simp: fuzzy_group_def and_then_Ok_iff)
qed

section \<open>The construction budget\<close>

definition within_budget :: "construction_budget \<Rightarrow> bool" where
  "within_budget b \<longleftrightarrow> qb_phrase_terms b \<le> MAX_PHRASE_CONSTRUCTION_TERMS \<and> qb_fuzzy_work_units b \<le> MAX_FUZZY_CONSTRUCTION_WORK_UNITS"

definition paid :: "construction_budget \<Rightarrow> query list \<Rightarrow> construction_budget \<Rightarrow> bool" where
  "paid b qs b' \<longleftrightarrow> qb_phrase_terms b + sum_list (map (total_cost phrase_cost) qs) \<le> qb_phrase_terms b' \<and>
     qb_fuzzy_work_units b + sum_list (map (total_cost fuzzy_cost) qs) \<le> qb_fuzzy_work_units b' \<and> (within_budget b \<longrightarrow> within_budget b')"

lemma paid_refl: "total_cost phrase_cost q = 0 \<Longrightarrow> total_cost fuzzy_cost q = 0 \<Longrightarrow> paid b [q] b"
  by (simp add: paid_def)

lemma paid_nothing [simp]: "paid b [] b"
  by (simp add: paid_def)

lemma paid_append: "paid b qs b1 \<Longrightarrow> paid b1 rs b2 \<Longrightarrow> paid b (qs @ rs) b2"
  by (auto simp: paid_def)

lemma paid_same:
  "paid b [q] b' \<Longrightarrow> total_cost phrase_cost q' = total_cost phrase_cost q \<Longrightarrow> total_cost fuzzy_cost q' = total_cost fuzzy_cost q \<Longrightarrow> paid b [q'] b'"
  by (simp add: paid_def)

lemma saturating_exact: "saturating_add a b \<le> k \<Longrightarrow> k < usize_max \<Longrightarrow> saturating_add a b = a + b"
  "saturating_mul a b \<le> k \<Longrightarrow> k < usize_max \<Longrightarrow> saturating_mul a b = a * b"
  by (auto simp: saturating_add_def saturating_mul_def)

lemma charge_phrase_paid:
  assumes "charge_phrase terms field_count b = Ok b'"
  shows "qb_phrase_terms b' = qb_phrase_terms b + terms * field_count" "qb_fuzzy_work_units b' = qb_fuzzy_work_units b"
    "within_budget b \<Longrightarrow> within_budget b'"
proof -
  have b': "b' = b\<lparr>qb_phrase_terms := saturating_add (qb_phrase_terms b) (saturating_mul terms field_count)\<rparr>"
      "saturating_add (qb_phrase_terms b) (saturating_mul terms field_count) \<le> 16384"
    using assms by (auto simp: charge_phrase_def Let_def MAX_PHRASE_CONSTRUCTION_TERMS_def split: if_splits)
  have "saturating_add (qb_phrase_terms b) (saturating_mul terms field_count) = qb_phrase_terms b + saturating_mul terms field_count"
    using saturating_exact(1) [OF b'(2)] by (simp add: usize_max_def)
  moreover have "saturating_mul terms field_count = terms * field_count"
    using saturating_exact(2) [of terms field_count 16384] b'(2) calculation by (simp add: usize_max_def)
  ultimately show "qb_phrase_terms b' = qb_phrase_terms b + terms * field_count" "qb_fuzzy_work_units b' = qb_fuzzy_work_units b"
    "within_budget b \<Longrightarrow> within_budget b'"
    using b' by (simp_all add: within_budget_def MAX_PHRASE_CONSTRUCTION_TERMS_def)
qed

lemma charge_fuzzy_paid:
  assumes "charge_fuzzy terms field_count distance b = Ok b'"
  shows "qb_phrase_terms b' = qb_phrase_terms b"
    "qb_fuzzy_work_units b' = qb_fuzzy_work_units b + (if distance = 0 then 0 else terms * field_count * fuzzy_weight distance)"
    "within_budget b \<Longrightarrow> within_budget b'"
proof -
  let ?w = "if distance = 2 then 4 else 1 :: nat"
  have "qb_phrase_terms b' = qb_phrase_terms b \<and>
      qb_fuzzy_work_units b' = qb_fuzzy_work_units b + (if distance = 0 then 0 else terms * field_count * fuzzy_weight distance) \<and>
      (within_budget b \<longrightarrow> within_budget b')"
  proof (cases "distance = 0")
    case True
    then show ?thesis using assms by (simp add: charge_fuzzy_def)
  next
    case False
    let ?m = "saturating_mul (saturating_mul terms field_count) ?w"
    have b': "b' = b\<lparr>qb_fuzzy_work_units := saturating_add (qb_fuzzy_work_units b) ?m\<rparr>" "saturating_add (qb_fuzzy_work_units b) ?m \<le> 256"
      using assms False by (auto simp: charge_fuzzy_def Let_def MAX_FUZZY_CONSTRUCTION_WORK_UNITS_def split: if_splits)
    have e1: "saturating_add (qb_fuzzy_work_units b) ?m = qb_fuzzy_work_units b + ?m"
      using saturating_exact(1) [OF b'(2)] by (simp add: usize_max_def)
    then have m: "?m \<le> 256" using b'(2) by simp
    then have e2: "?m = saturating_mul terms field_count * ?w" using saturating_exact(2) [OF m] by (simp add: usize_max_def)
    have "saturating_mul terms field_count \<le> saturating_mul terms field_count * ?w" by simp
    then have m2: "saturating_mul terms field_count \<le> 256" using m unfolding e2 by (rule order_trans)
    have e3: "saturating_mul terms field_count = terms * field_count" using saturating_exact(2) [OF m2] by (simp add: usize_max_def)
    show ?thesis using b' e1 e2 e3 False
      by (simp add: within_budget_def MAX_FUZZY_CONSTRUCTION_WORK_UNITS_def fuzzy_weight_def)
  qed
  then show "qb_phrase_terms b' = qb_phrase_terms b"
    "qb_fuzzy_work_units b' = qb_fuzzy_work_units b + (if distance = 0 then 0 else terms * field_count * fuzzy_weight distance)"
    "within_budget b \<Longrightarrow> within_budget b'" by blast+
qed

section \<open>Clauses\<close>

text \<open>What every part of a query keeps: at most \<open>n\<close> clauses, which bound its leaves, and a paid construction.\<close>

definition part_ok :: "nat \<Rightarrow> construction_budget \<Rightarrow> query \<Rightarrow> nat \<Rightarrow> construction_budget \<Rightarrow> bool" where
  "part_ok n b q clauses b' \<longleftrightarrow> clauses \<le> n \<and> total_cost leaf_cost q \<le> 2 * clauses \<and> paid b [q] b'"

lemma check_clause_count_Ok:
  "check_clause_count en groups alternatives = Ok () \<Longrightarrow> en_max_query_clauses en < usize_max \<Longrightarrow>
     groups * alternatives \<le> en_max_query_clauses en \<and> saturating_mul groups alternatives = groups * alternatives"
  using saturating_exact(2) [of groups alternatives "en_max_query_clauses en"] by (auto simp: check_clause_count_def split: if_splits)

lemma check_total_Ok:
  "check_total_clause_count en a c = Ok () \<Longrightarrow> en_max_query_clauses en < usize_max \<Longrightarrow> a + c \<le> en_max_query_clauses en"
  using saturating_exact(1) [of a c "en_max_query_clauses en"] by (auto simp: check_total_clause_count_def split: if_splits)

lemma cost_empty [simp]: "leaf_cost Empty_Query = 0" "fuzzy_cost Empty_Query = 0" "phrase_cost Empty_Query = 0"
  by (simp_all add: cost_defs)

lemma part_empty: "part_ok n b Empty_Query 0 b"
  by (simp add: part_ok_def paid_def)

lemma term_query_part:
  assumes "term_query en text chosen occur = Ok (q, clauses, stable_scores)" "en_max_query_clauses en < usize_max"
  shows "part_ok (en_max_query_clauses en) b q clauses b"
proof -
  obtain terms where terms: "analyze en text False True = Ok terms" using assms(1) by (auto simp: term_query_def and_then_Ok_iff)
  show ?thesis
  proof (cases "terms = []")
    case True
    then show ?thesis using assms(1) terms part_empty by (auto simp: term_query_def)
  next
    case False
    have c: "check_clause_count en (length terms) (length chosen) = Ok ()"
      using assms(1) terms False by (auto simp: term_query_def and_then_Ok_iff)
    note k = check_clause_count_Ok [OF c assms(2)]
    have clauses: "clauses = length terms * length chosen" using assms(1) terms False c k by (auto simp: term_query_def Let_def split: if_splits)
    have "total_cost leaf_cost q = length terms * length chosen \<and> total_cost fuzzy_cost q = 0 \<and> total_cost phrase_cost q = 0"
      using assms(1) terms False c
      by (auto simp: term_query_def Let_def cost_defs comp_def sum_concat sum_list_triv split: if_splits)
    then show ?thesis using k clauses paid_refl by (simp add: part_ok_def)
  qed
qed

lemma phrase_query_part:
  assumes "phrase_query en text chosen b = Ok ((q, clauses, stable_scores), b')" "en_max_query_clauses en < usize_max"
  shows "part_ok (en_max_query_clauses en) b q clauses b'"
proof -
  obtain terms where terms: "analyze_positioned en text = Ok terms" and pos: "en_positions en"
    using assms(1) by (auto simp: phrase_query_def and_then_Ok_iff split: if_splits)
  show ?thesis
  proof (cases "terms = []")
    case True
    then show ?thesis using assms(1) terms pos part_empty by (auto simp: phrase_query_def)
  next
    case False
    have c: "check_clause_count en 1 (length chosen) = Ok ()" and ch: "charge_phrase (length terms) (length chosen) b = Ok b'"
      using assms(1) terms pos False by (auto simp: phrase_query_def and_then_Ok_iff Let_def split: if_splits)
    note k = check_clause_count_Ok [OF c assms(2)] and p = charge_phrase_paid [OF ch]
    have "clauses = length chosen \<and> total_cost leaf_cost q = length chosen \<and> total_cost fuzzy_cost q = 0 \<and> total_cost phrase_cost q \<le> length terms * length chosen"
      using assms(1) terms pos False c ch
      by (auto simp: phrase_query_def Let_def cost_defs comp_def sum_list_triv split: if_splits)
    then show ?thesis using k p by (simp add: part_ok_def paid_def)
  qed
qed

lemma fuzzy_clauses_total:
  assumes "fuzzy_clauses en ops chosen options pairs = Ok cs"
  shows "sum_list (map (total_cost leaf_cost \<circ> snd) cs) \<le> length pairs * (3 * length chosen)"
    "sum_list (map (total_cost phrase_cost \<circ> snd) cs) = 0"
    "sum_list (map (total_cost fuzzy_cost \<circ> snd) cs) = (if fuzzy_distance options = 0 then 0
       else length (filter (\<lambda>(_, t). fuzzy_eligible en t) pairs) * length chosen * fuzzy_weight (fuzzy_distance options))"
proof -
  have "sum_list (map (total_cost leaf_cost \<circ> snd) cs) \<le> length pairs * (3 * length chosen) \<and>
      sum_list (map (total_cost phrase_cost \<circ> snd) cs) = 0 \<and>
      sum_list (map (total_cost fuzzy_cost \<circ> snd) cs) = (if fuzzy_distance options = 0 then 0
       else length (filter (\<lambda>(_, t). fuzzy_eligible en t) pairs) * length chosen * fuzzy_weight (fuzzy_distance options))"
    using assms
  proof (induction pairs arbitrary: cs)
    case (Cons pair pairs)
    obtain analyzed surface where pair: "pair = (analyzed, surface)" by (cases pair)
    obtain c cs' where cs: "fuzzy_clauses en ops chosen options pairs = Ok cs'" "cs = c # cs'"
      "(if \<not> fuzzy_eligible en surface then Ok (Should, term_group analyzed chosen)
         else if fuzzy_distance options = 0 then Ok (Should, exact_branch ops (term_group analyzed chosen) chosen)
         else and_then (fuzzy_group analyzed chosen False options) (\<lambda>fuzzy.
           Ok (Should, Disjunction_Max [exact_branch ops (term_group analyzed chosen) chosen, fuzzy]))) = Ok c"
      using Cons.prems by (auto simp: pair Let_def and_then_Ok_iff)
    have "total_cost leaf_cost (snd c) \<le> 3 * length chosen \<and> total_cost phrase_cost (snd c) = 0 \<and>
        total_cost fuzzy_cost (snd c) = (if fuzzy_eligible en surface \<and> fuzzy_distance options \<noteq> 0
          then length chosen * fuzzy_weight (fuzzy_distance options) else 0)"
      using cs(3) total_fuzzy_group by (fastforce simp: and_then_Ok_iff split: if_splits)
    then show ?case using Cons.IH [OF cs(1)] cs(2) by (simp add: pair algebra_simps)
  qed simp
  then show "sum_list (map (total_cost leaf_cost \<circ> snd) cs) \<le> length pairs * (3 * length chosen)"
    "sum_list (map (total_cost phrase_cost \<circ> snd) cs) = 0"
    "sum_list (map (total_cost fuzzy_cost \<circ> snd) cs) = (if fuzzy_distance options = 0 then 0
       else length (filter (\<lambda>(_, t). fuzzy_eligible en t) pairs) * length chosen * fuzzy_weight (fuzzy_distance options))" by blast+
qed

lemma build_fuzzy_part:
  assumes "build_fuzzy en ops text chosen options b = Ok ((q, clauses, stable_scores), b')" "en_max_query_clauses en < usize_max"
  shows "part_ok (en_max_query_clauses en) b q clauses b'"
proof -
  obtain surface pairs where sp: "analyze en text True True = Ok surface" "query_pairs en [] surface = Ok pairs"
    using assms(1) by (auto simp: build_fuzzy_def and_then_Ok_iff)
  show ?thesis
  proof (cases "pairs = []")
    case True
    then show ?thesis using assms(1) sp part_empty by (auto simp: build_fuzzy_def)
  next
    case False
    let ?fuzzy = "length (filter (\<lambda>(_, t). fuzzy_eligible en t) pairs)"
    obtain cs where c: "check_clause_count en (length pairs) (saturating_mul (length chosen) 3) = Ok ()"
      "charge_fuzzy ?fuzzy (length chosen) (fuzzy_distance options) b = Ok b'" "fuzzy_clauses en ops chosen options pairs = Ok cs"
      "q = Boolean_Query cs" "clauses = saturating_mul (length pairs) (saturating_mul (length chosen) 3)"
      using assms(1) sp False by (auto simp: build_fuzzy_def and_then_Ok_iff Let_def split: if_splits)
    note k = check_clause_count_Ok [OF c(1) assms(2)] and p = charge_fuzzy_paid [OF c(2)] and t = fuzzy_clauses_total [OF c(3)]
    have "saturating_mul (length chosen) 3 \<le> length pairs * saturating_mul (length chosen) 3" using False by (cases pairs) simp_all
    also have "\<dots> \<le> en_max_query_clauses en" using k by blast
    finally have "saturating_mul (length chosen) 3 \<le> en_max_query_clauses en" .
    then have m: "saturating_mul (length chosen) 3 = length chosen * 3" using saturating_exact(2) assms(2) by blast
    have "clauses = length pairs * (3 * length chosen)" using c(5) k m by simp
    then show ?thesis using k m p t c(4) by (auto simp: part_ok_def paid_def comp_def)
  qed
qed

lemma expand_fields_total:
  "expand_fields en searcher start remaining alternatives chosen = Ok qs \<Longrightarrow>
     \<exists>rs. qs = alternatives @ rs \<and> sum_list (map (total_cost leaf_cost) rs) = length rs \<and>
       sum_list (map (total_cost fuzzy_cost) rs) = 0 \<and> sum_list (map (total_cost phrase_cost) rs) = 0"
proof (induction chosen arbitrary: alternatives)
  case (Cons field rest)
  obtain h terms where h: "expand_fields en searcher start remaining
      (alternatives @ map (\<lambda>t. boosted (Term_Query (Bytes_Term h t) With_Freqs) (ef_weight field)) terms) rest = Ok qs"
    using Cons.prems by (auto simp: and_then_Ok_iff)
  from Cons.IH [OF h] obtain rs where rs: "qs = (alternatives @ map (\<lambda>t. boosted (Term_Query (Bytes_Term h t) With_Freqs) (ef_weight field)) terms) @ rs"
    "sum_list (map (total_cost leaf_cost) rs) = length rs" "sum_list (map (total_cost fuzzy_cost) rs) = 0" "sum_list (map (total_cost phrase_cost) rs) = 0" by blast
  show ?case
    by (intro exI [of _ "map (\<lambda>t. boosted (Term_Query (Bytes_Term h t) With_Freqs) (ef_weight field)) terms @ rs"])
      (simp add: rs comp_def sum_list_triv)
qed simp

lemma expanded_prefix_total:
  assumes "expanded_prefix_group en searcher start chosen remaining = Ok (q, prefix_count)"
  shows "total_cost leaf_cost q = prefix_count" "total_cost fuzzy_cost q = 0" "total_cost phrase_cost q = 0"
  using assms expand_fields_total [of en searcher "str_bytes start" remaining "[]" chosen]
  by (auto simp: expanded_prefix_group_def and_then_Ok_iff split: if_splits)

lemma final_group_total:
  assumes "final_group en ops start chosen fuzzy options exact = Ok q"
  shows "total_cost leaf_cost q \<le> 2 * total_cost leaf_cost exact + (if fuzzy \<and> fuzzy_eligible en start then length chosen else 0)"
    "total_cost phrase_cost exact = 0 \<Longrightarrow> total_cost phrase_cost q = 0"
    "total_cost fuzzy_cost exact = 0 \<Longrightarrow> total_cost fuzzy_cost q = (if fuzzy \<and> fuzzy_eligible en start \<and> fuzzy_distance options \<noteq> 0
       then length chosen * fuzzy_weight (fuzzy_distance options) else 0)"
  using assms by (auto simp: final_group_def and_then_Ok_iff total_fuzzy_group split: if_splits)

lemma completed_prefix_part:
  assumes "completed_prefix_query en ops searcher completed start chosen fuzzy options b = Ok ((q, clauses, stable_scores), b')"
    and "en_max_query_clauses en < usize_max"
  shows "part_ok (en_max_query_clauses en) b q clauses b'"
proof -
  let ?eligible = "fuzzy \<and> fuzzy_eligible en start"
  let ?completed = "saturating_mul (length completed) (length chosen)"
  let ?fuzzy = "(if ?eligible then 1 else 0) * length chosen"
  obtain exact prefix_count group where g:
    "expanded_prefix_group en searcher start chosen (en_max_query_clauses en - saturating_add ?completed ?fuzzy) = Ok (exact, prefix_count)"
    "saturating_add (saturating_add ?completed prefix_count) ?fuzzy \<le> en_max_query_clauses en"
    "charge_fuzzy (if ?eligible then 1 else 0) (length chosen) (fuzzy_distance options) b = Ok b'"
    "final_group en ops start chosen fuzzy options exact = Ok group"
    "q = Boolean_Query (map (\<lambda>t. (Must, term_group t chosen)) completed @ [(Must, group)])"
    "clauses = ?completed + prefix_count + ?fuzzy"
    using assms(1) by (auto simp: completed_prefix_query_def and_then_Ok_iff Let_def split: if_splits)
  have s1: "saturating_add (saturating_add ?completed prefix_count) ?fuzzy = saturating_add ?completed prefix_count + ?fuzzy"
    using saturating_exact(1) [OF g(2) assms(2)] .
  then have "saturating_add ?completed prefix_count \<le> en_max_query_clauses en" using g(2) by linarith
  then have s2: "saturating_add ?completed prefix_count = ?completed + prefix_count" "?completed + prefix_count \<le> en_max_query_clauses en"
    using saturating_exact(1) assms(2) by simp_all
  then have "?completed \<le> en_max_query_clauses en" by simp
  then have s3: "?completed = length completed * length chosen" using saturating_exact(2) assms(2) by blast
  note e = expanded_prefix_total [OF g(1)] and f = final_group_total [OF g(4)] and p = charge_fuzzy_paid [OF g(3)]
  have "clauses \<le> en_max_query_clauses en" using g(2,6) s1 s2(1) by simp
  moreover have "total_cost leaf_cost q = length completed * length chosen + total_cost leaf_cost group" "total_cost phrase_cost q = 0" "total_cost fuzzy_cost q = total_cost fuzzy_cost group"
    using f(2) e(3) by (simp_all add: g(5) comp_def sum_list_triv)
  moreover have "total_cost leaf_cost group \<le> 2 * prefix_count + ?fuzzy" using f(1) e(1) by auto
  ultimately show ?thesis using p f(3) e(2) g(6) s3 by (auto simp: part_ok_def paid_def)
qed

lemma prefix_query_part:
  assumes "prefix_query en ops searcher text chosen fuzzy options b = Ok ((q, clauses, stable_scores), b')" "en_max_query_clauses en < usize_max"
  shows "part_ok (en_max_query_clauses en) b q clauses b'"
proof -
  consider "term_query en text chosen Must = Ok (q, clauses, stable_scores)" "b' = b" | "q = Empty_Query" "clauses = 0" "b' = b"
    | completed start where "completed_prefix_query en ops searcher completed start chosen fuzzy options b = Ok ((q, clauses, stable_scores), b')"
    using assms(1) by (auto simp: prefix_query_def and_then_Ok_iff split: if_splits option.splits)
  then show ?thesis
  proof cases
    case 1
    then show ?thesis using term_query_part assms(2) by blast
  next
    case 2
    then show ?thesis using part_empty by simp
  next
    case 3
    then show ?thesis using completed_prefix_part assms(2) by blast
  qed
qed

section \<open>Expressions\<close>

definition query_ok :: "engine \<Rightarrow> construction_budget \<Rightarrow> built_query \<times> construction_budget \<Rightarrow> bool" where
  "query_ok en b = (\<lambda>(q, b'). part_ok (en_max_query_clauses en) b (bq_query q) (bq_clauses q) b')"

lemma clause_query_part:
  assumes "clause_query en ops searcher clause b = Ok r" "en_max_query_clauses en < usize_max"
  shows "query_ok en b r"
proof -
  obtain chosen q clauses stable_scores b' where "r = (\<lparr>bq_query = q, bq_clauses = clauses, bq_stable_scores = stable_scores\<rparr>, b')"
    "(case cl_mode clause of
         ModeAny \<Rightarrow> and_then (term_query en (cl_text clause) chosen Should) (\<lambda>r. Ok (r, b))
       | ModeAll \<Rightarrow> and_then (term_query en (cl_text clause) chosen Must) (\<lambda>r. Ok (r, b))
       | Phrase \<Rightarrow> phrase_query en (cl_text clause) chosen b
       | Prefix \<Rightarrow> prefix_query en ops searcher (cl_text clause) chosen False (cl_options clause) b
       | Fuzzy \<Rightarrow> build_fuzzy en ops (cl_text clause) chosen (cl_options clause) b
       | FuzzyPrefix \<Rightarrow> prefix_query en ops searcher (cl_text clause) chosen True (cl_options clause) b) = Ok ((q, clauses, stable_scores), b')"
    using assms(1) by (auto simp: clause_query_def and_then_Ok_iff built_from_def)
  then show ?thesis using term_query_part [OF _ assms(2)] phrase_query_part [OF _ assms(2)] prefix_query_part [OF _ assms(2)] build_fuzzy_part [OF _ assms(2)]
    by (cases "cl_mode clause") (auto simp: query_ok_def and_then_Ok_iff)
qed

definition children_ok :: "engine \<Rightarrow> nat \<Rightarrow> (occur \<times> query) list \<Rightarrow> bool \<Rightarrow> construction_budget \<Rightarrow>
    (nat \<times> (occur \<times> query) list) \<times> construction_budget \<Rightarrow> bool" where
  "children_ok en clauses queries childless b = (\<lambda>((clauses', queries'), b').
     \<exists>qs. queries' = queries @ qs \<and> clauses \<le> clauses' \<and> (childless \<and> clauses' = clauses \<or> clauses' \<le> en_max_query_clauses en) \<and>
       sum_list (map (\<lambda>c. total_cost leaf_cost (snd c)) qs) \<le> 2 * (clauses' - clauses) \<and> paid b (map snd qs) b')"

lemma paid_boolean: "paid b (map snd qs) b' \<Longrightarrow> paid b [Boolean_Query qs] b'"
  by (simp add: paid_def comp_def)

lemma paid_cons: "paid b [q] b1 \<Longrightarrow> paid b1 qs b2 \<Longrightarrow> paid b (q # qs) b2"
  using paid_append [of b "[q]" b1 qs b2] by simp

lemma children_step:
  assumes "query_ok en b (child, b1)" "clauses + bq_clauses child \<le> en_max_query_clauses en"
    and "children_ok en (clauses + bq_clauses child) (queries @ [(occur, bq_query child)]) childless b1 r"
  shows "children_ok en clauses queries False b r"
proof -
  obtain clauses' queries' b' where r: "r = ((clauses', queries'), b')" by (metis surj_pair)
  obtain qs where qs: "queries' = (queries @ [(occur, bq_query child)]) @ qs" "clauses + bq_clauses child \<le> clauses'"
    "childless \<and> clauses' = clauses + bq_clauses child \<or> clauses' \<le> en_max_query_clauses en"
    "sum_list (map (\<lambda>c. total_cost leaf_cost (snd c)) qs) \<le> 2 * (clauses' - (clauses + bq_clauses child))" "paid b1 (map snd qs) b'"
    using assms(3) by (auto simp: children_ok_def r)
  have c: "total_cost leaf_cost (bq_query child) \<le> 2 * bq_clauses child" "paid b [bq_query child] b1"
    using assms(1) by (simp_all add: query_ok_def part_ok_def)
  have "paid b (map snd ((occur, bq_query child) # qs)) b'" using paid_cons [OF c(2) qs(5)] by simp
  moreover have "queries' = queries @ ((occur, bq_query child) # qs)" using qs(1) by simp
  moreover have "sum_list (map (\<lambda>c. total_cost leaf_cost (snd c)) ((occur, bq_query child) # qs)) \<le> 2 * (clauses' - clauses)"
    using c(1) qs(2,4) by simp
  moreover have "clauses \<le> clauses'" "clauses' \<le> en_max_query_clauses en" using qs(2,3) assms(2) by auto
  ultimately show ?thesis unfolding children_ok_def r by (auto simp del: list.map)
qed

lemma boolean_ok:
  assumes "children_ok en (length children) [] (children = []) b ((clauses, queries), b')"
  shows "query_ok en b (\<lparr>bq_query = Boolean_Query queries, bq_clauses = clauses, bq_stable_scores = stable_scores\<rparr>, b')"
  using assms by (auto simp: children_ok_def query_ok_def part_ok_def paid_boolean)

lemma expression_parts:
  "expression_query_inner en ops searcher e b = Ok r \<Longrightarrow> en_max_query_clauses en < usize_max \<Longrightarrow> query_ok en b r"
  "query_children en ops searcher occur start children b = Ok rs \<Longrightarrow> en_max_query_clauses en < usize_max \<Longrightarrow>
     children_ok en (fst start) (snd start) (children = []) b rs"
proof (induction en ops searcher e b and en ops searcher occur start children b arbitrary: r and rs
    rule: expression_query_inner_query_children.induct)
  case (1 en ops searcher clause b)
  then show ?case using clause_query_part by simp
next
  case (2 en ops searcher children b)
  then show ?case using boolean_ok by (auto simp: and_then_Ok_iff)
next
  case (3 en ops searcher children b)
  then show ?case using boolean_ok by (auto simp: and_then_Ok_iff)
next
  case (4 en ops searcher boost clause b)
  obtain child b1 where c: "expression_query_inner en ops searcher clause b = Ok (child, b1)"
    "check_total_clause_count en (bq_clauses child) 1 = Ok ()"
    "r = (child\<lparr>bq_query := boosted (bq_query child) boost, bq_stable_scores := (bq_stable_scores child \<and> boost = f32_one),
           bq_clauses := bq_clauses child + 1\<rparr>, b1)"
    using "4.prems"(1) by (auto simp: and_then_Ok_iff)
  from "4.IH" [OF c(1) "4.prems"(2)] check_total_Ok [OF c(2) "4.prems"(2)] show ?case
    using paid_same by (auto simp: c(3) query_ok_def part_ok_def)
next
  case (5 en ops searcher required optional b)
  obtain child b1 clauses queries b2 where c: "expression_query_inner en ops searcher required b = Ok (child, b1)"
    "check_total_clause_count en (length optional + 1) (bq_clauses child) = Ok ()"
    "query_children en ops searcher Should (length optional + 1 + bq_clauses child, [(Must, bq_query child)]) optional b1 = Ok ((clauses, queries), b2)"
    "r = (\<lparr>bq_query = Boolean_Query queries, bq_clauses = clauses, bq_stable_scores = False\<rparr>, b2)"
    using "5.prems"(1) by (auto simp: and_then_Ok_iff)
  note first = "5.IH"(1) [OF c(1) "5.prems"(2)] and total = check_total_Ok [OF c(2) "5.prems"(2)]
  have "children_ok en (length optional + 1 + bq_clauses child) ([] @ [(Must, bq_query child)]) (optional = []) b1 ((clauses, queries), b2)"
    using "5.IH"(2) [OF c(1) refl c(2) c(3) "5.prems"(2)] by simp
  then have "children_ok en (length optional + 1) [] False b ((clauses, queries), b2)"
    using children_step first total by blast
  then show ?case by (auto simp: c(4) children_ok_def query_ok_def part_ok_def paid_boolean)
next
  case (6 en ops searcher child b)
  obtain q b1 where c: "expression_query_inner en ops searcher child b = Ok (q, b1)"
    "check_total_clause_count en (bq_clauses q) 2 = Ok ()"
    "r = (\<lparr>bq_query = Const_Score (Boolean_Query [(Must, All_Query), (Must_Not, bq_query q)]) f32_zero,
          bq_clauses = bq_clauses q + 2, bq_stable_scores = False\<rparr>, b1)"
    using "6.prems"(1) by (auto simp: and_then_Ok_iff)
  from "6.IH" [OF c(1) "6.prems"(2)] check_total_Ok [OF c(2) "6.prems"(2)] show ?case
    by (auto simp: c(3) query_ok_def part_ok_def paid_def cost_defs)
next
  case (7 en ops searcher occur clauses queries b)
  then show ?case by (auto simp: children_ok_def)
next
  case (8 en ops searcher occur clauses queries child children b)
  obtain q b1 where c: "expression_query_inner en ops searcher child b = Ok (q, b1)"
    "check_total_clause_count en clauses (bq_clauses q) = Ok ()"
    "query_children en ops searcher occur (clauses + bq_clauses q, queries @ [(occur, bq_query q)]) children b1 = Ok rs"
    using "8.prems"(1) by (auto simp: and_then_Ok_iff)
  have "children_ok en (clauses + bq_clauses q) (queries @ [(occur, bq_query q)]) (children = []) b1 rs"
    using "8.IH"(2) [OF c(1) refl c(2) c(3) "8.prems"(2)] by simp
  then show ?case
    using children_step [OF "8.IH"(1) [OF c(1) "8.prems"(2)] check_total_Ok [OF c(2) "8.prems"(2)]] by simp
qed


lemma boosted_terms_within:
  assumes "boosted_terms_query en ops boost leaf = Ok q" "en_max_query_clauses en < usize_max"
  shows "query_ok en b (q, b)"
proof -
  obtain chosen occur' p clauses stable_scores where c: "term_query en (cl_text leaf) chosen occur' = Ok (p, clauses, stable_scores)"
    "check_total_clause_count en clauses 1 = Ok ()" "q = \<lparr>bq_query = p, bq_clauses = clauses + 1, bq_stable_scores = stable_scores\<rparr>"
    using assms(1) by (auto simp: boosted_terms_query_def and_then_Ok_iff Let_def)
  have "part_ok (en_max_query_clauses en) b p clauses b" using term_query_part [OF c(1) assms(2)] by (simp add: part_ok_def paid_def)
  then show ?thesis using check_total_Ok [OF c(2) assms(2)] by (simp add: query_ok_def part_ok_def c(3))
qed

lemma expression_query_ok:
  assumes "expression_query en ops searcher e = Ok q"
  shows "en_max_query_clauses en \<le> MAX_CONFIGURED_QUERY_CLAUSES \<and> (\<exists>b. query_ok en no_construction (q, b))"
proof -
  have s: "validate_search_structure e (en_max_query_clauses en) (length (en_fields en)) = Ok ()"
    using assms by (auto simp: expression_query_def and_then_Ok_iff)
  have "is_ok (validate_search_structure e (en_max_query_clauses en) (length (en_fields en)))" unfolding s by simp
  then have m: "en_max_query_clauses en \<le> MAX_CONFIGURED_QUERY_CLAUSES" unfolding is_ok_structure by (elim conjE)
  then have "en_max_query_clauses en < usize_max" by (simp add: MAX_CONFIGURED_QUERY_CLAUSES_def usize_max_def)
  moreover have "(\<exists>boost leaf. boosted_terms_query en ops boost leaf = Ok q) \<or> (\<exists>b. expression_query_inner en ops searcher e no_construction = Ok (q, b))"
    using assms s by (auto simp: expression_query_def and_then_Ok_iff Let_def split: search_expression.splits if_splits)
  ultimately show ?thesis using m boosted_terms_within expression_parts(1) by blast
qed

section \<open>The property and an example\<close>

text \<open>
  C4. A query that is built for a search stays within its limits.  The clauses it reports, which the
  caller charges, are at most the configured maximum and account for every leaf of the query (an
  exact branch is scored twice, hence the factor two); whatever the expression nests and however many
  fields a clause selects, the fuzzy automata of one query cost at most 256 units (an automaton of distance two costs four)
  and its phrases have at most 16,384 terms.
\<close>

theorem query_within_limits:
  "expression_query en ops searcher e = Ok q \<Longrightarrow>
     bq_clauses q \<le> en_max_query_clauses en \<and>
     total_cost leaf_cost (bq_query q) \<le> 2 * bq_clauses q \<and>
     total_cost fuzzy_cost (bq_query q) \<le> 256 \<and>
     total_cost phrase_cost (bq_query q) \<le> 16384"
  using expression_query_ok [of en ops searcher e q]
  by (auto simp: query_ok_def part_ok_def paid_def no_construction_def within_budget_def MAX_FUZZY_CONSTRUCTION_WORK_UNITS_def MAX_PHRASE_CONSTRUCTION_TERMS_def)


definition sample_ops :: score_ops where
  "sample_ops = \<lparr>sp_times = (\<lambda>a b. a), sp_exact_bonus = (\<lambda>ws. f32_quarter)\<rparr>"

definition sample_searcher :: searcher where
  "sample_searcher = [\<lambda>h. Ok [str_bytes ''lime'', str_bytes ''lisp''], \<lambda>h. Ok [str_bytes ''list'']]"

definition sample_expression :: search_expression where
  "sample_expression = AndE [word_clause Prefix ''lis'', NotE (word_clause ModeAny ''rust'')]"

theorem query_within_limits_witness:
  "\<exists>q. expression_query sample_engine sample_ops sample_searcher sample_expression = Ok q \<and>
     bq_clauses q = 7 \<and> total_cost leaf_cost (bq_query q) = 3 \<and> total_cost leaf_cost (bq_query q) \<le> 2 * bq_clauses q"
proof -
  have "case expression_query sample_engine sample_ops sample_searcher sample_expression of
      Ok q \<Rightarrow> bq_clauses q = 7 \<and> total_cost leaf_cost (bq_query q) = 3 | Err _ \<Rightarrow> False" by code_simp
  then obtain q where q: "expression_query sample_engine sample_ops sample_searcher sample_expression = Ok q"
    "bq_clauses q = 7" "total_cost leaf_cost (bq_query q) = 3" by (auto split: result.splits)
  with query_within_limits [OF q(1)] show ?thesis by blast
qed

end
