(* ===== verification/Spec2Isabelle.thy ===== *)
theory Spec2Isabelle
  imports Trace_Codec Shutdown Tracing Query_Filter Query_Bounds
begin

text \<open>
  A verification development for the native full-text addon, the Rust crate under \<^verbatim>\<open>src/src\<close>.

  \<^bold>\<open>The program.\<close>  A JavaScript thread calls the addon with packed byte frames.  The frames are
  checked on that thread and copied to the queues of a runtime: one queue for the writer thread, and
  a cheap and an expensive lane for searches, under shared limits.  The writer thread applies
  batches, commits, publishes, reloads and closes; search workers decode and run searches and
  traces; each command answers one callback.  A registry owns handles and physical paths, an
  environment groups the runtimes of one JavaScript thread, and a process-wide budget limits
  indexes, threads, memory and expensive searches.  A poisoned runtime refuses everything but
  close.  Telemetry counts what was attempted, accepted and completed.

  \<^bold>\<open>Theories.\<close>
  \<^item> \<open>Prelude\<close>, \<open>Errors\<close>: results with the question mark operator, machine arithmetic, UTF-8, IEEE
    predicates on bit patterns; the error value of \<^verbatim>\<open>error.rs\<close> and the panic boundary of \<^verbatim>\<open>boundary.rs\<close>.
  \<^item> \<open>Cursor\<close>: the reader of packed frames (\<open>struct Cursor\<close> of \<^verbatim>\<open>protocol.rs\<close>) and the interfaces
    \<open>wire_codec\<close> and \<open>sized_codec\<close>: a decoder that accepts exactly the encodings of the well-formed
    values.  Every decoder of the protocol is an interpretation of one of them, and the round trips
    of whole frames are put together from these.
  \<^item> \<open>Requests\<close>: the request types and their validation (\<^verbatim>\<open>request_validation.rs\<close>), with the abstract
    measures (height, cost, leaves) that the structure budget of an expression computes.
  \<^item> \<open>Search_Codec\<close>, \<open>Search_Frame\<close>, \<open>Batch_Codec\<close>, \<open>Config_Codec\<close>, \<open>Trace_Codec\<close>: the frames.  For each,
    decoding answers a value exactly on the frames that encode it and that pass the validation.
  \<^item> \<open>Scan\<close>: the scanner that classifies a frame without building it (\<open>skim_codec\<close>: it reads the same
    bytes as the decoder), and its verdict as a predicate of the decoded request.
  \<^item> \<open>Budget\<close>, \<open>Queue\<close>, \<open>Telemetry\<close>, \<open>Registry\<close>: one state record each with the operations of
    \<^verbatim>\<open>native.rs\<close> and \<^verbatim>\<open>telemetry.rs\<close>, a step relation over the threads that use it, and the invariants by
    rule induction.  Queues are an interpretation of the interface \<open>command_queue\<close>.
  \<^item> \<open>Response\<close>: envelopes and bodies, and that they can be read back.
  \<^item> \<open>Runtime\<close>, \<open>Lifecycle\<close>, \<open>Shutdown\<close>: completions, the calls of the JavaScript thread, poison, the
    turns of the writer and of the workers and the teardown, as functions on the state of a runtime;
    their interleavings as the relation \<open>runtime_step\<close> with its invariant; and what the runs of the
    end of a runtime do.
  \<^item> this theory: properties that span components.

  \<^bold>\<open>Correspondence.\<close>  Definitions have the names of the functions, methods and types they model.  A
  struct is a record, an enum a datatype, an integer a word of its width where it can wrap, and a
  natural number bounded by \<open>usize_max\<close> for \<open>usize\<close>, which has 64 bits.  A \<open>String\<close> is the list of
  its UTF-8 bytes as characters.  \<open>Result\<close> is \<open>result\<close>; every error return of the source is a branch.
  Vectors that the code grows by pushing are lists; hash maps are partial functions or association
  lists.  Atomics are steps of their own where other threads can come between.

  \<^bold>\<open>Termination and fuel.\<close>  Decoders recurse on the number of items still to read or on the depth that
  the frame limits (\<open>MAX_EXPRESSION_DEPTH\<close>), so all are total; loops over queues recurse on their
  items.  No definition needs fuel.

  \<^bold>\<open>Simplifications.\<close>  The index library is a parameter: \<open>index_answers\<close> gives the outcome of each of
  its operations, error and panic included.  The swap of the state and the push of a close in
  \<open>native_close\<close>, and all of \<open>poison\<close>, are one step.  A flexible worker leaves only when both lanes
  have ended.  A panic during the teardown is taken before its effects.  Failures to spawn a thread,
  the Windows variants and the code under \<open>test-panic\<close> are left out, handles are below \<open>2 ^ 32\<close>, and
  times are nanoseconds.  The permits of expensive searches are in \<open>Budget\<close> and not in \<open>runtime_step\<close>.

  \<^bold>\<open>Not modelled.\<close>  The file operations of open, inspect and reset with their lifecycle lock, the JSON
  text of telemetry, the index engine (\<^verbatim>\<open>engine.rs\<close>) beyond its result types, aggregation and sorting
  (\<^verbatim>\<open>catalog.rs\<close>, \<^verbatim>\<open>catalog_sort.rs\<close>), the measurement programs \<^verbatim>\<open>directory_harness.rs\<close> and
  \<^verbatim>\<open>catalog_qualification.rs\<close>, and the TypeScript side.
\<close>

section \<open>Checks on the calling thread\<close>

text \<open>
  The checks that a native call makes on the JavaScript thread, before it copies its bytes to
  the queue, refuse a frame that would decode only for its size: the batch header check admits
  every decodable batch within the configured limit, and the search and trace header checks every
  decodable request within \<open>MAX_SEARCH_REQUEST_BYTES\<close>.
\<close>

theorem header_checks_only_bound_size:
  "(decode_batch bytes = Ok b \<longrightarrow> (validate_batch_header bytes limit = Ok () \<longleftrightarrow> length bytes \<le> limit)) \<and>
   (decode_search bytes = Ok q \<longrightarrow> (validate_search_header bytes = Ok () \<longleftrightarrow> length bytes \<le> MAX_SEARCH_REQUEST_BYTES)) \<and>
   (decode_trace bytes = Ok t \<longrightarrow> (validate_trace_header bytes = Ok () \<longleftrightarrow> length bytes \<le> MAX_SEARCH_REQUEST_BYTES))"
proof (intro conjI impI)
  assume "decode_batch bytes = Ok b"
  then show "validate_batch_header bytes limit = Ok () \<longleftrightarrow> length bytes \<le> limit"
    using header_of_decoded by (cases "length bytes \<le> limit") (auto simp: validate_batch_header_def)
next
  assume "decode_search bytes = Ok q"
  then show "validate_search_header bytes = Ok () \<longleftrightarrow> length bytes \<le> MAX_SEARCH_REQUEST_BYTES"
    by (auto simp: decode_search_def validate_search_header_def and_then_Ok_iff)
next
  assume "decode_trace bytes = Ok t"
  then show "validate_trace_header bytes = Ok () \<longleftrightarrow> length bytes \<le> MAX_SEARCH_REQUEST_BYTES"
    by (auto simp: decode_trace_def validate_trace_header_def and_then_Ok_iff Let_def)
qed

theorem header_checks_only_bound_size_witness:
  "validate_batch_header (enc_batch sample_batch) 100 = Ok () \<and> validate_batch_header (enc_batch sample_batch) 79 \<noteq> Ok ()"
  using header_checks_only_bound_size [of "enc_batch sample_batch" sample_batch 100]
    header_checks_only_bound_size [of "enc_batch sample_batch" sample_batch 79] sample_batch_admitted
  by simp

end
